(* ===== verification/Prelude.thy ===== *)
theory Prelude
  imports Main "HOL-Library.Word" "HOL-Library.Signed_Division" "HOL-Library.Multiset"
begin

text \<open>
  What every component of the development shares: the machine types of the 32-bit
  interpreter (\<^verbatim>\<open>ruby.h\<close> makes \<^verbatim>\<open>VALUE\<close> an unsigned \<^verbatim>\<open>int\<close> and stores pointers in
  it, so the model is ILP32), the way an operation fails (a Ruby exception, or an access
  outside an allocated block), array reads and writes that check their bounds, and the
  generic facts on lists, multisets and words that the component proofs use.
\<close>

unbundle bit_operations_syntax

section \<open>Machine types\<close>

type_synonym u8 = "8 word"
type_synonym u16 = "16 word"
type_synonym u32 = "32 word"

section \<open>Failure\<close>

text \<open>
  \<open>OutOfBounds\<close> is a read or write outside an allocated block (undefined behaviour in C, so
  no result of the code is claimed there); \<open>Diverges\<close> is a loop that does not end, or does not end within the number
  of rounds that its definition allows; the other constructors are the exceptions the
  sources raise through \<^verbatim>\<open>Raise\<close>, \<^verbatim>\<open>IndexError\<close>, \<^verbatim>\<open>TypeError\<close>, \<^verbatim>\<open>ArgError\<close>, \<^verbatim>\<open>NameError\<close>, \<^verbatim>\<open>Fail\<close>
  and \<^verbatim>\<open>Fatal\<close>, with the format string of the call.
\<close>

datatype rb_error =
    OutOfBounds
  | Diverges
  | ZeroDivisionError string
  | IndexError string
  | TypeError string
  | ArgError string
  | SecurityError string
  | LocalJumpError string
  | EOFError string
  | NameError string
  | Fail string
  | Fatal string

type_synonym 'a result = "rb_error + 'a"

fun bindR :: "'a result \<Rightarrow> ('a \<Rightarrow> 'b result) \<Rightarrow> 'b result" where
  "bindR (Inl e) f = Inl e"
| "bindR (Inr x) f = f x"

lemma bindR_assoc: "bindR (bindR r f) g = bindR r (\<lambda>x. bindR (f x) g)"
  by (cases r) simp_all

lemma bindR_Inr_conv [simp]: "bindR r f = Inr y \<longleftrightarrow> (\<exists>x. r = Inr x \<and> f x = Inr y)"
  by (cases r) auto

lemma bindR_Inr_right [simp]: "bindR r Inr = r"
  by (cases r) auto

section \<open>Arrays\<close>

text \<open>
  An allocated block of \<open>n\<close> elements is a list of length \<open>n\<close>; an index is a C \<^verbatim>\<open>int\<close>.
\<close>

definition in_block :: "'a list \<Rightarrow> int \<Rightarrow> bool" where
  "in_block xs i \<longleftrightarrow> 0 \<le> i \<and> i < int (length xs)"

definition arr_get :: "'a list \<Rightarrow> int \<Rightarrow> 'a result" where
  "arr_get xs i = (if in_block xs i then Inr (xs ! nat i) else Inl OutOfBounds)"

definition arr_set :: "'a list \<Rightarrow> int \<Rightarrow> 'a \<Rightarrow> 'a list result" where
  "arr_set xs i v = (if in_block xs i then Inr (xs[nat i := v]) else Inl OutOfBounds)"

lemma arr_get_in [simp]: "in_block xs i \<Longrightarrow> arr_get xs i = Inr (xs ! nat i)"
  by (simp add: arr_get_def)

lemma arr_get_out [simp]: "\<not> in_block xs i \<Longrightarrow> arr_get xs i = Inl OutOfBounds"
  by (simp add: arr_get_def)

lemma arr_set_in [simp]: "in_block xs i \<Longrightarrow> arr_set xs i v = Inr (xs[nat i := v])"
  by (simp add: arr_set_def)

lemma arr_set_out [simp]: "\<not> in_block xs i \<Longrightarrow> arr_set xs i v = Inl OutOfBounds"
  by (simp add: arr_set_def)

lemma in_block_nat: "in_block xs i \<Longrightarrow> nat i < length xs"
  by (auto simp: in_block_def)

section \<open>Lists of lists and multisets\<close>

lemma mset_concat_update:
  "i < length xss \<Longrightarrow>
     mset (concat (xss[i := ys])) + mset (xss ! i) = mset (concat xss) + mset ys"
proof (induction xss arbitrary: i)
  case Nil
  then show ?case by simp
next
  case (Cons xs xss)
  then show ?case by (cases i) (auto simp: ac_simps)
qed

lemma filter_concat_only:
  assumes "i < length xss"
    and "\<And>j x. j < length xss \<Longrightarrow> j \<noteq> i \<Longrightarrow> x \<in> set (xss ! j) \<Longrightarrow> \<not> P x"
  shows "filter P (concat xss) = filter P (xss ! i)"
  using assms
proof (induction xss arbitrary: i)
  case Nil
  then show ?case by simp
next
  case (Cons xs xss)
  show ?case
  proof (cases i)
    case 0
    have "filter P (concat xss) = []"
    proof (rule filter_False, rule ballI)
      fix x assume "x \<in> set (concat xss)"
      then obtain j where "j < length xss" "x \<in> set (xss ! j)"
        by (metis in_set_conv_nth UN_E set_concat)
      with Cons.prems(2) [of "Suc j" x] 0 show "\<not> P x" by simp
    qed
    with 0 show ?thesis by simp
  next
    case (Suc i')
    have "filter P xs = []"
      using Cons.prems(2) [of 0] Suc by (intro filter_False) auto
    moreover have "filter P (concat xss) = filter P (xss ! i')"
    proof (rule Cons.IH)
      show "i' < length xss" using Cons.prems(1) Suc by simp
      fix j x assume "j < length xss" "j \<noteq> i'" "x \<in> set (xss ! j)"
      with Cons.prems(2) [of "Suc j" x] Suc show "\<not> P x" by simp
    qed
    ultimately show ?thesis using Suc by simp
  qed
qed

lemma length_concat_sum: "length (concat xss) = sum_list (map length xss)"
  by (induction xss) auto

section \<open>Words\<close>

lemma mod_once: "(n::int) \<le> a \<Longrightarrow> a < 2 * n \<Longrightarrow> a mod n = a - n"
  using mod_pos_pos_trivial [of "a - n" n] minus_mod_self2 [of a n] by linarith

lemma div_less_bound: "(a::int) < c * b \<Longrightarrow> 0 < b \<Longrightarrow> a div b < c"
proof (rule ccontr)
  assume "a < c * b" "0 < b" "\<not> a div b < c"
  then have "c * b \<le> (a div b) * b" by (intro mult_right_mono) auto
  also have "\<dots> \<le> a" using \<open>0 < b\<close> div_mult_mod_eq [of a b] pos_mod_sign [of b a] by linarith
  finally show False using \<open>a < c * b\<close> by simp
qed

lemma sint_eq_uint_if: "sint (w :: 'a::len word) = (if uint w < 2 ^ (LENGTH('a) - 1) then uint w else uint w - 2 ^ LENGTH('a))"
proof -
  have l: "LENGTH('a) = Suc (LENGTH('a) - 1)" by simp
  have *: "0 \<le> uint w" "uint w < 2 ^ LENGTH('a)" by simp_all
  have "sint w = signed_take_bit (LENGTH('a) - 1) (uint w)" by (simp add: sint_uint)
  also have "\<dots> = take_bit LENGTH('a) (uint w + 2 ^ (LENGTH('a) - 1)) - 2 ^ (LENGTH('a) - 1)"
    by (metis l signed_take_bit_eq_take_bit_shift)
  also have "\<dots> = (uint w + 2 ^ (LENGTH('a) - 1)) mod 2 ^ LENGTH('a) - 2 ^ (LENGTH('a) - 1)"
    by (simp add: take_bit_eq_mod)
  also have "\<dots> = (if uint w < 2 ^ (LENGTH('a) - 1) then uint w else uint w - 2 ^ LENGTH('a))"
  proof (cases "uint w < 2 ^ (LENGTH('a) - 1)")
    case True
    have "(2::int) ^ LENGTH('a) = 2 * 2 ^ (LENGTH('a) - 1)" by (metis l power_Suc)
    with True * show ?thesis by simp
  next
    case False
    have p: "(2::int) ^ LENGTH('a) = 2 * 2 ^ (LENGTH('a) - 1)" by (metis l power_Suc)
    have "(uint w + 2 ^ (LENGTH('a) - 1)) mod 2 ^ LENGTH('a) = uint w + 2 ^ (LENGTH('a) - 1) - 2 ^ LENGTH('a)"
      using False * p by (intro mod_once) linarith+
    then show ?thesis using False p by simp
  qed
  finally show ?thesis .
qed

text \<open>Arithmetic of 32-bit words where it does not wrap, and the casts between digits and words.\<close>

lemma uint_add_u32: "uint (a :: u32) + uint b < 2 ^ 32 \<Longrightarrow> uint (a + b) = uint a + uint b"
  by (simp add: uint_word_ariths)

lemma uint_mult_u32: "uint (a :: u32) * uint b < 2 ^ 32 \<Longrightarrow> uint (a * b) = uint a * uint b"
  by (simp add: uint_word_ariths)

lemma uint_sub_u32: "uint b \<le> uint (a :: u32) \<Longrightarrow> uint (a - b) = uint a - uint b"
  by (metis uint_minus_simple_alt word_le_def)


lemma sint_add_u32: 
  "- (2 ^ 31) \<le> sint (a :: u32) + sint b \<Longrightarrow> sint a + sint b < 2 ^ 31 \<Longrightarrow>
     sint (a + b) = sint a + sint b"
  by (simp add: sint_word_ariths signed_take_bit_int_eq_self)

lemma sint_sub_u32: 
  "- (2 ^ 31) \<le> sint (a :: u32) - sint b \<Longrightarrow> sint a - sint b < 2 ^ 31 \<Longrightarrow>
     sint (a - b) = sint a - sint b"
  by (simp add: sint_word_ariths signed_take_bit_int_eq_self)

lemma sint_add_eq:
  "sint (a :: u32) = i \<Longrightarrow> sint b = j \<Longrightarrow> - 2147483648 \<le> i + j \<Longrightarrow> i + j < 2147483648 \<Longrightarrow>
     sint (a + b) = i + j"
  using sint_add_u32 [of a b] by simp

lemma sint_sub_eq:
  "sint (a :: u32) = i \<Longrightarrow> sint b = j \<Longrightarrow> - 2147483648 \<le> i - j \<Longrightarrow> i - j < 2147483648 \<Longrightarrow>
     sint (a - b) = i - j"
  using sint_sub_u32 [of a b] by simp

lemma sint_of_int_u32: "- 2147483648 \<le> k \<Longrightarrow> k < 2147483648 \<Longrightarrow> sint (word_of_int k :: u32) = k"
  unfolding sint_sbintrunc' by (simp add: signed_take_bit_int_eq_self)

lemma neg_le_uint [simp]: "- numeral n \<le> uint (w :: 'a::len word)"
  by (rule order_trans [of _ 0]) auto

lemma neg_uint_less [simp]: "- uint (w :: 'a::len word) < numeral n"
  by (rule le_less_trans [of _ 0]) auto

lemma sint_minus_u32: "a \<noteq> 0x80000000 \<Longrightarrow> sint (- a :: u32) = - sint a"
proof -
  assume "a \<noteq> 0x80000000"
  then have "uint a \<noteq> 0x80000000" by (auto simp: word_uint_eq_iff)
  moreover have "uint (- a) = (if uint a = 0 then 0 else 2 ^ 32 - uint a)"
    using uint_lt2p [of a] by (simp add: uint_word_ariths zmod_zminus1_eq_if)
  ultimately show ?thesis
    using uint_lt2p [of a] by (auto simp: sint_eq_uint_if)
qed

lemma uint_ucast_16_32: "uint (ucast (d :: u16) :: u32) = uint d"
  using uint_lt2p [of d] by (simp add: unsigned_ucast_eq take_bit_eq_mod)

lemma sint_ucast_16_32: "sint (ucast (d :: u16) :: u32) = uint d"
  using uint_lt2p [of d] by (simp add: sint_eq_uint_if uint_ucast_16_32)

lemma uint_ucast_32_16: "uint (ucast (d :: u32) :: u16) = uint d mod 65536"
  by (simp add: unsigned_ucast_eq take_bit_eq_mod)

lemma uint_drop_16: "uint (drop_bit 16 (d :: u32)) = uint d div 65536"
  by (subst unsigned_drop_bit_eq) (use uint_lt2p [of d] in \<open>simp add: drop_bit_eq_div take_bit_eq_mod\<close>)

lemma sint_signed_drop: "sint (signed_drop_bit n (w :: u32)) = sint w div 2 ^ n"
  by (simp add: sint_signed_drop_bit_eq drop_bit_eq_div)

lemma sint_mod_uint: "sint (w :: u32) mod 65536 = uint w mod 65536"
proof (cases "uint w < 2 ^ 31")
  case False
  then have "sint w mod 65536 = (uint w - 65536 * 65536) mod 65536"
    by (simp add: sint_eq_uint_if)
  then show ?thesis by (simp only: mod_mult_self4 diff_conv_add_uminus mult_minus_right [symmetric] mod_mult_self2)
qed (simp add: sint_eq_uint_if)

lemma uint_16_bounds: "0 \<le> uint (d :: u16)" "uint (d :: u16) < 65536"
  using uint_lt2p [of d] by simp_all

lemma uint_32_less: "uint (w :: u32) < 4294967296"
  using uint_lt2p [of w] by simp

lemma take_bit_uint_u32 [simp]: "take_bit 32 (uint (w :: u32)) = uint w"
  using uint_32_less [of w] by (simp add: take_bit_int_eq_self)

lemma sint_32_bounds: "- 2147483648 \<le> sint (w :: u32)" "sint (w :: u32) < 2147483648"
  using sint_ge [of w] sint_lt [of w] by simp_all

end
