(* ===== verification/St.thy ===== *)
theory St
  imports Prelude "HOL-Library.Sublist"
begin

text \<open>
  The hash table of \<^verbatim>\<open>src/st.c\<close>: chained bins, growth by \<^verbatim>\<open>rehash\<close>, and the two built-in
  key types (numbers and C strings). A chain of \<^verbatim>\<open>st_table_entry\<close> cells linked by \<^verbatim>\<open>next\<close>
  is a list of (key, record) pairs, and a pointer to a cell is the suffix of the chain that
  starts there. A bin index comes from the user's hash function, so every access to
  \<^verbatim>\<open>bins\<close> is checked. The contract of a key type is the locale \<open>hash_type\<close>; under it every
  operation refines the corresponding operation on the association the table stores.
\<close>

section \<open>Data\<close>

datatype st_retval = ST_CONTINUE | ST_STOP | ST_DELETE

record 'k st_hash_type =
  compare :: "'k \<Rightarrow> 'k \<Rightarrow> int"
  hash :: "'k \<Rightarrow> int \<Rightarrow> int"

type_synonym ('k, 'v) st_chain = "('k \<times> 'v) list"

record ('k, 'v) st_table =
  type_of :: "'k st_hash_type"
  num_bins :: int
  num_entries :: int
  bins :: "('k, 'v) st_chain list"

text \<open>
  What a deletion does to the caller's \<^verbatim>\<open>*value\<close>: nothing, a null pointer, or the record.
\<close>

datatype 'v st_out = Untouched | NullOut | Out 'v

definition EQUAL :: "'k st_hash_type \<Rightarrow> 'k \<Rightarrow> 'k \<Rightarrow> bool" where
  "EQUAL ty x y \<longleftrightarrow> compare ty x y = 0"

definition do_hash :: "'k \<Rightarrow> ('k, 'v) st_table \<Rightarrow> int" where
  "do_hash key table = hash (type_of table) key (num_bins table)"

section \<open>Creation\<close>

text \<open>
  \<^verbatim>\<open>size /= ST_DEFAULT_MAX_DENSITY*0.87\<close> divides by the double 4.35 and truncates; for
  every \<^verbatim>\<open>int\<close> the double quotient truncates to the same integer as the exact one, because
  the representation error is far below the distance 1/435 between a non-integral quotient
  and an integer, and integral quotients are rounded back to the integer.
\<close>

definition st_init_table_with_size :: "'k st_hash_type \<Rightarrow> int \<Rightarrow> ('k, 'v) st_table" where
  "st_init_table_with_size ty sz =
     (let sz = (if sz = 0 then 11 else (100 * sz) sdiv 435);
          sz = (if sz < 11 then 11 else sz)
      in \<lparr>type_of = ty, num_bins = sz, num_entries = 0, bins = replicate (nat sz) []\<rparr>)"

definition st_init_table :: "'k st_hash_type \<Rightarrow> ('k, 'v) st_table" where
  "st_init_table ty = st_init_table_with_size ty 0"

section \<open>Lookup and insertion\<close>

text \<open>\<^verbatim>\<open>FIND_ENTRY\<close>: the suffix of the chain at the first cell with an equal key, or nil.\<close>

fun find_entry :: "'k st_hash_type \<Rightarrow> 'k \<Rightarrow> ('k, 'v) st_chain \<Rightarrow> ('k, 'v) st_chain" where
  "find_entry ty key [] = []"
| "find_entry ty key (e # es) = (if EQUAL ty key (fst e) then e # es else find_entry ty key es)"

definition st_lookup :: "('k, 'v) st_table \<Rightarrow> 'k \<Rightarrow> 'v option result" where
  "st_lookup table key =
     bindR (arr_get (bins table) (do_hash key table)) (\<lambda>chain.
       case find_entry (type_of table) key chain of
         [] \<Rightarrow> Inr None
       | ptr # _ \<Rightarrow> Inr (Some (snd ptr)))"

text \<open>
  \<^verbatim>\<open>rehash\<close> moves every cell of the old bins, in order, to the front of its new bin.
  \<^verbatim>\<open>1.79*old_num_bins\<close> truncates to \<open>179 * n div 100\<close> (again exactly, for every \<^verbatim>\<open>int\<close>).
\<close>

definition push_entry :: "('k \<times> 'v) \<Rightarrow> ('k, 'v) st_table \<Rightarrow> ('k, 'v) st_table result" where
  "push_entry e table =
     (let hash_val = do_hash (fst e) table in
      bindR (arr_get (bins table) hash_val) (\<lambda>chain.
      bindR (arr_set (bins table) hash_val (e # chain)) (\<lambda>bs.
        Inr (table\<lparr>bins := bs, num_entries := num_entries table + 1\<rparr>))))"

fun rehash_chain :: "('k, 'v) st_chain \<Rightarrow> ('k, 'v) st_table \<Rightarrow> ('k, 'v) st_table result" where
  "rehash_chain [] table = Inr table"
| "rehash_chain (ptr # next) table = bindR (push_entry ptr table) (rehash_chain next)"

fun rehash_bins :: "('k, 'v) st_chain list \<Rightarrow> ('k, 'v) st_table \<Rightarrow> ('k, 'v) st_table result" where
  "rehash_bins [] table = Inr table"
| "rehash_bins (chain # old_bins) table =
     bindR (rehash_chain chain table) (rehash_bins old_bins)"

definition rehash_size :: "int \<Rightarrow> int" where
  "rehash_size old_num_bins =
     (let n = (179 * old_num_bins) sdiv 100 in if n smod 2 = 0 then n + 1 else n)"

definition rehash :: "('k, 'v) st_table \<Rightarrow> ('k, 'v) st_table result" where
  "rehash table =
     (let n = rehash_size (num_bins table) in
      rehash_bins (bins table)
        (table\<lparr>num_bins := n, num_entries := 0, bins := replicate (nat n) []\<rparr>))"

text \<open>\<^verbatim>\<open>ADD_DIRECT\<close>: grow first when the density exceeds \<^verbatim>\<open>ST_DEFAULT_MAX_DENSITY\<close>.\<close>

definition ADD_DIRECT :: "('k, 'v) st_table \<Rightarrow> 'k \<Rightarrow> 'v \<Rightarrow> ('k, 'v) st_table result" where
  "ADD_DIRECT table key value =
     bindR (if num_entries table sdiv num_bins table > 5 then rehash table else Inr table)
       (push_entry (key, value))"

text \<open>\<^verbatim>\<open>ptr->record = value\<close> at the cell \<^verbatim>\<open>FIND_ENTRY\<close> stopped at.\<close>

fun set_record :: "'k st_hash_type \<Rightarrow> 'k \<Rightarrow> 'v \<Rightarrow> ('k, 'v) st_chain \<Rightarrow> ('k, 'v) st_chain" where
  "set_record ty key value [] = []"
| "set_record ty key value (e # es) =
     (if EQUAL ty key (fst e) then (fst e, value) # es else e # set_record ty key value es)"

definition st_insert :: "('k, 'v) st_table \<Rightarrow> 'k \<Rightarrow> 'v \<Rightarrow> (('k, 'v) st_table \<times> bool) result" where
  "st_insert table key value =
     (let hash_val = do_hash key table in
      bindR (arr_get (bins table) hash_val) (\<lambda>chain.
        case find_entry (type_of table) key chain of
          [] \<Rightarrow> bindR (ADD_DIRECT table key value) (\<lambda>t. Inr (t, False))
        | ptr # _ \<Rightarrow>
            bindR (arr_set (bins table) hash_val (set_record (type_of table) key value chain))
              (\<lambda>bs. Inr (table\<lparr>bins := bs\<rparr>, True))))"

definition st_add_direct :: "('k, 'v) st_table \<Rightarrow> 'k \<Rightarrow> 'v \<Rightarrow> ('k, 'v) st_table result" where
  "st_add_direct table key value = ADD_DIRECT table key value"

text \<open>
  \<^verbatim>\<open>st_find_or_add\<close> hands out the address of the record of the found or new cell. The slot
  is its bin and its position in the chain; a new cell has the null record \<open>null\<close>.
\<close>

definition st_find_or_add ::
    "'v \<Rightarrow> ('k, 'v) st_table \<Rightarrow> 'k \<Rightarrow> (('k, 'v) st_table \<times> bool \<times> (int \<times> nat)) result" where
  "st_find_or_add null table key =
     (let hash_val = do_hash key table in
      bindR (arr_get (bins table) hash_val) (\<lambda>chain.
        case find_entry (type_of table) key chain of
          [] \<Rightarrow> bindR (ADD_DIRECT table key null) (\<lambda>t. Inr (t, False, (do_hash key t, 0)))
        | ptr # rest \<Rightarrow> Inr (table, True, (hash_val, length chain - Suc (length rest)))))"

section \<open>Copy\<close>

text \<open>\<^verbatim>\<open>st_copy\<close> pushes the copies of a chain's cells one by one, so it reverses each chain.\<close>

fun copy_chain :: "('k, 'v) st_chain \<Rightarrow> ('k, 'v) st_chain \<Rightarrow> ('k, 'v) st_chain" where
  "copy_chain [] new = new"
| "copy_chain (ptr # next) new = copy_chain next (ptr # new)"

definition st_copy :: "('k, 'v) st_table \<Rightarrow> ('k, 'v) st_table" where
  "st_copy old_table = old_table\<lparr>bins := map (\<lambda>chain. copy_chain chain []) (bins old_table)\<rparr>"

section \<open>Deletion\<close>

text \<open>The loop over \<^verbatim>\<open>ptr->next\<close>: the unlinked chain and the cell that was removed.\<close>

fun delete_next ::
    "'k st_hash_type \<Rightarrow> 'k \<Rightarrow> ('k, 'v) st_chain \<Rightarrow> (('k, 'v) st_chain \<times> ('k \<times> 'v)) option" where
  "delete_next ty key [] = None"
| "delete_next ty key [ptr] = None"
| "delete_next ty key (ptr # tmp # rest) =
     (if EQUAL ty (fst tmp) key then Some (ptr # rest, tmp)
      else map_option (\<lambda>(c, e). (ptr # c, e)) (delete_next ty key (tmp # rest)))"

definition st_delete ::
    "('k, 'v) st_table \<Rightarrow> 'k \<Rightarrow> (('k, 'v) st_table \<times> bool \<times> 'k \<times> 'v st_out) result" where
  "st_delete table key =
     (let hash_val = do_hash key table in
      bindR (arr_get (bins table) hash_val) (\<lambda>chain.
        case chain of
          [] \<Rightarrow> Inr (table, False, key, NullOut)
        | ptr # next \<Rightarrow>
            if EQUAL (type_of table) key (fst ptr) then
              bindR (arr_set (bins table) hash_val next) (\<lambda>bs.
                Inr (table\<lparr>bins := bs, num_entries := num_entries table - 1\<rparr>,
                     True, fst ptr, Out (snd ptr)))
            else (case delete_next (type_of table) key chain of
                None \<Rightarrow> Inr (table, False, key, Untouched)
              | Some (chain', tmp) \<Rightarrow>
                  bindR (arr_set (bins table) hash_val chain') (\<lambda>bs.
                    Inr (table\<lparr>bins := bs, num_entries := num_entries table - 1\<rparr>,
                         True, fst tmp, Out (snd tmp))))))"

text \<open>
  \<^verbatim>\<open>st_delete_safe\<close> leaves the cell in place and overwrites its key and record with
  \<^verbatim>\<open>never\<close>. Its loop tests \<^verbatim>\<open>ptr->next->key\<close> and overwrites \<^verbatim>\<open>ptr\<close>, as the source does.
\<close>

fun mark_next ::
    "'a st_hash_type \<Rightarrow> 'a \<Rightarrow> 'a \<Rightarrow> ('a, 'a) st_chain \<Rightarrow> (('a, 'a) st_chain \<times> ('a \<times> 'a)) option" where
  "mark_next ty never key [] = None"
| "mark_next ty never key [ptr] = None"
| "mark_next ty never key (ptr # nxt # rest) =
     (if EQUAL ty (fst nxt) key then Some ((never, never) # nxt # rest, ptr)
      else map_option (\<lambda>(c, e). (ptr # c, e)) (mark_next ty never key (nxt # rest)))"

definition st_delete_safe ::
    "('a, 'a) st_table \<Rightarrow> 'a \<Rightarrow> 'a \<Rightarrow> (('a, 'a) st_table \<times> bool \<times> 'a \<times> 'a st_out) result" where
  "st_delete_safe table key never =
     (let hash_val = do_hash key table in
      bindR (arr_get (bins table) hash_val) (\<lambda>chain.
        case chain of
          [] \<Rightarrow> Inr (table, False, key, NullOut)
        | ptr # next \<Rightarrow>
            if EQUAL (type_of table) key (fst ptr) then
              bindR (arr_set (bins table) hash_val ((never, never) # next)) (\<lambda>bs.
                Inr (table\<lparr>bins := bs, num_entries := num_entries table - 1\<rparr>,
                     True, fst ptr, Out (snd ptr)))
            else (case mark_next (type_of table) never key chain of
                None \<Rightarrow> Inr (table, False, key, Untouched)
              | Some (chain', ptr') \<Rightarrow>
                  bindR (arr_set (bins table) hash_val chain') (\<lambda>bs.
                    Inr (table\<lparr>bins := bs, num_entries := num_entries table - 1\<rparr>,
                         True, fst ptr', Out (snd ptr'))))))"

section \<open>Iteration\<close>

text \<open>
  \<^verbatim>\<open>func\<close> is any callback that does not itself change the table; \<open>'s\<close> is what it reads and
  writes through \<^verbatim>\<open>arg\<close>. A chain's pass returns the cells kept, the number deleted, the
  callback's state, and whether \<^verbatim>\<open>ST_STOP\<close> ended the iteration.
\<close>

fun foreach_chain ::
    "('k \<Rightarrow> 'v \<Rightarrow> 's \<Rightarrow> st_retval \<times> 's) \<Rightarrow> ('k, 'v) st_chain \<Rightarrow> 's \<Rightarrow>
     ('k, 'v) st_chain \<times> int \<times> 's \<times> bool" where
  "foreach_chain func [] s = ([], 0, s, False)"
| "foreach_chain func (ptr # next) s =
     (case func (fst ptr) (snd ptr) s of
        (ST_CONTINUE, s') \<Rightarrow>
          (case foreach_chain func next s' of (c, n, s'', stop) \<Rightarrow> (ptr # c, n, s'', stop))
      | (ST_STOP, s') \<Rightarrow> (ptr # next, 0, s', True)
      | (ST_DELETE, s') \<Rightarrow>
          (case foreach_chain func next s' of (c, n, s'', stop) \<Rightarrow> (c, n + 1, s'', stop)))"

fun foreach_bins ::
    "('k \<Rightarrow> 'v \<Rightarrow> 's \<Rightarrow> st_retval \<times> 's) \<Rightarrow> ('k, 'v) st_chain list \<Rightarrow> 's \<Rightarrow>
     ('k, 'v) st_chain list \<times> int \<times> 's" where
  "foreach_bins func [] s = ([], 0, s)"
| "foreach_bins func (chain # rest) s =
     (case foreach_chain func chain s of
        (c, n, s', True) \<Rightarrow> (c # rest, n, s')
      | (c, n, s', False) \<Rightarrow>
          (case foreach_bins func rest s' of (cs, m, s'') \<Rightarrow> (c # cs, n + m, s'')))"

definition st_foreach ::
    "('k, 'v) st_table \<Rightarrow> ('k \<Rightarrow> 'v \<Rightarrow> 's \<Rightarrow> st_retval \<times> 's) \<Rightarrow> 's \<Rightarrow> ('k, 'v) st_table \<times> 's" where
  "st_foreach table func arg =
     (case foreach_bins func (bins table) arg of (bs, n, arg') \<Rightarrow>
        (table\<lparr>bins := bs, num_entries := num_entries table - n\<rparr>, arg'))"

section \<open>The built-in key types\<close>

text \<open>
  \<^verbatim>\<open>strhash\<close> accumulates in a 32-bit \<^verbatim>\<open>int\<close> (two's complement); a \<^verbatim>\<open>char\<close> is signed.
  C strings are byte lists without the terminating null byte.
\<close>

fun strhash_loop :: "u8 list \<Rightarrow> u32 \<Rightarrow> u32" where
  "strhash_loop [] val = val"
| "strhash_loop (c # cs) val = strhash_loop cs (val * 997 + scast c)"

definition strhash :: "u8 list \<Rightarrow> int \<Rightarrow> int" where
  "strhash str modulus =
     (let val = strhash_loop str 0
      in sint (if sint val < 0 then - val else val) smod modulus)"

fun strcmp :: "u8 list \<Rightarrow> u8 list \<Rightarrow> int" where
  "strcmp [] [] = 0"
| "strcmp [] (b # bs) = - 1"
| "strcmp (a # as) [] = 1"
| "strcmp (a # as) (b # bs) = (if a = b then strcmp as bs else if a < b then - 1 else 1)"

definition numcmp :: "u32 \<Rightarrow> u32 \<Rightarrow> int" where
  "numcmp x y = (if x \<noteq> y then 1 else 0)"

definition numhash :: "u32 \<Rightarrow> int \<Rightarrow> int" where
  "numhash n modulus = sint n smod modulus"

definition type_numhash :: "u32 st_hash_type" where
  "type_numhash = \<lparr>compare = numcmp, hash = numhash\<rparr>"

definition type_strhash :: "u8 list st_hash_type" where
  "type_strhash = \<lparr>compare = strcmp, hash = strhash\<rparr>"

definition st_init_numtable :: "(u32, 'v) st_table" where
  "st_init_numtable = st_init_table type_numhash"

definition st_init_strtable :: "(u8 list, 'v) st_table" where
  "st_init_strtable = st_init_table type_strhash"

section \<open>The stored association and the invariant\<close>

text \<open>
  \<open>st_assoc\<close> ignores the bins: it is the record of the first cell of the whole table with an
  equal key. \<open>st_wf\<close> is the representation invariant, \<open>st_unique\<close> says that no two cells have
  equal keys (which \<^verbatim>\<open>st_insert\<close> maintains and \<^verbatim>\<open>st_add_direct\<close> leaves to its caller).
\<close>

definition matches :: "'k st_hash_type \<Rightarrow> 'k \<Rightarrow> ('k \<times> 'v) \<Rightarrow> bool" where
  "matches ty k e \<longleftrightarrow> EQUAL ty k (fst e)"

definition first_record :: "('k, 'v) st_chain \<Rightarrow> 'v option" where
  "first_record es = (case es of [] \<Rightarrow> None | e # _ \<Rightarrow> Some (snd e))"

definition st_assoc :: "('k, 'v) st_table \<Rightarrow> 'k \<Rightarrow> 'v option" where
  "st_assoc t k = first_record (filter (matches (type_of t) k) (concat (bins t)))"

definition st_wf :: "('k \<Rightarrow> bool) \<Rightarrow> ('k, 'v) st_table \<Rightarrow> bool" where
  "st_wf K t \<longleftrightarrow>
     0 < num_bins t \<and> int (length (bins t)) = num_bins t
     \<and> num_entries t = int (length (concat (bins t)))
     \<and> (\<forall>i<length (bins t). list_all (\<lambda>e. K (fst e) \<and> do_hash (fst e) t = int i) (bins t ! i))"

definition st_unique :: "('k, 'v) st_table \<Rightarrow> bool" where
  "st_unique t \<longleftrightarrow> sorted_wrt (\<lambda>e e'. \<not> matches (type_of t) (fst e) e') (concat (bins t))"

lemma first_record_simps [simp]:
  "first_record [] = None" "first_record (e # es) = Some (snd e)"
  by (simp_all add: first_record_def)

lemma first_record_filter: "(\<exists>y. first_record (filter P es) = Some y) \<longleftrightarrow> (\<exists>e\<in>set es. P e)"
  by (induction es) auto

lemma find_entry_filter:
  "find_entry ty k c = [] \<longleftrightarrow> filter (matches ty k) c = []"
  "find_entry ty k c = e # es \<Longrightarrow> \<exists>r. filter (matches ty k) c = e # r"
  by (induction c) (auto simp: matches_def split: if_splits)

lemma set_record_absent: "filter (matches ty k) c = [] \<Longrightarrow> set_record ty k v c = c"
  by (induction c) (auto simp: matches_def split: if_splits)

lemma set_record_length [simp]: "length (set_record ty k v c) = length c"
  by (induction c) auto

lemma set_record_keys [simp]: "map fst (set_record ty k v c) = map fst c"
  by (induction c) auto

lemma set_record_all:
  "list_all (\<lambda>e. P (fst e)) (set_record ty k v c) \<longleftrightarrow> list_all (\<lambda>e. P (fst e)) c"
  by (induction c) auto

lemma length_filter_matches_keys:
  "map fst c = map fst c' \<Longrightarrow>
     length (filter (matches ty k) c) = length (filter (matches ty k) c')"
proof -
  have "length (filter (matches ty k) c) = length (filter (EQUAL ty k) (map fst c))" for c
    by (simp add: filter_map matches_def [abs_def] comp_def)
  then show "map fst c = map fst c' \<Longrightarrow> ?thesis" by metis
qed

lemma mset_concat_map_rev: "mset (concat (map rev xss)) = mset (concat xss)"
  by (induction xss) auto

lemma short_lists_mset_eq: "length ys \<le> 1 \<Longrightarrow> mset xs = mset ys \<Longrightarrow> xs = ys"
  by (cases ys) (auto simp: size_eq_Suc_imp_eq_union)

lemma rehash_size_pos: "0 < n \<Longrightarrow> 0 < rehash_size n"
  by (auto simp: rehash_size_def Let_def signed_divide_int_def)

lemma st_copy_chain: "copy_chain c new = rev c @ new"
  by (induction c arbitrary: new) auto

locale hash_type =
  fixes ty :: "'k st_hash_type" and K :: "'k \<Rightarrow> bool"
  assumes equal_refl: "K x \<Longrightarrow> EQUAL ty x x"
    and equal_sym: "K x \<Longrightarrow> K y \<Longrightarrow> EQUAL ty x y \<Longrightarrow> EQUAL ty y x"
    and equal_trans: "K x \<Longrightarrow> K y \<Longrightarrow> K z \<Longrightarrow> EQUAL ty x y \<Longrightarrow> EQUAL ty y z \<Longrightarrow> EQUAL ty x z"
    and hash_range: "K x \<Longrightarrow> 0 < m \<Longrightarrow> 0 \<le> hash ty x m \<and> hash ty x m < m"
    and hash_equal: "K x \<Longrightarrow> K y \<Longrightarrow> EQUAL ty x y \<Longrightarrow> hash ty x m = hash ty y m"
begin

lemma matches_cong:
  "K k \<Longrightarrow> K k' \<Longrightarrow> K (fst e) \<Longrightarrow> EQUAL ty k k' \<Longrightarrow> matches ty k e \<longleftrightarrow> matches ty k' e"
  unfolding matches_def using equal_sym equal_trans by blast

lemma filter_matches_cong:
  "list_all (\<lambda>e. K (fst e)) c \<Longrightarrow> K j \<Longrightarrow> K k \<Longrightarrow> EQUAL ty j k \<Longrightarrow>
     filter (matches ty j) c = filter (matches ty k) c"
  by (induction c) (auto simp: matches_cong)

lemma unique_iff:
  assumes "list_all (\<lambda>e. K (fst e)) es"
  shows "sorted_wrt (\<lambda>e e'. \<not> matches ty (fst e) e') es \<longleftrightarrow>
    (\<forall>k. K k \<longrightarrow> length (filter (matches ty k) es) \<le> 1)"
  using assms
proof (induction es)
  case Nil
  then show ?case by simp
next
  case (Cons e es)
  have e: "K (fst e)" "matches ty (fst e) e"
    using Cons.prems equal_refl by (auto simp: matches_def)
  have es: "list_all (\<lambda>e. K (fst e)) es"
    using Cons.prems by simp
  show ?case (is "?L \<longleftrightarrow> ?R")
  proof
    assume L: ?L
    show ?R
    proof (intro allI impI)
      fix k assume k: "K k"
      show "length (filter (matches ty k) (e # es)) \<le> 1"
      proof (cases "matches ty k e")
        case True
        have "filter (matches ty k) es = []"
        proof (rule filter_False, rule ballI)
          fix e' assume "e' \<in> set es"
          then show "\<not> matches ty k e'"
            using L True k e(1) es matches_cong [of k "fst e" e']
            by (auto simp: matches_def list_all_iff)
        qed
        with True show ?thesis by simp
      next
        case False
        with L Cons.IH [OF es] k show ?thesis by simp
      qed
    qed
  next
    assume R: ?R
    have "filter (matches ty (fst e)) es = []"
      using R e by fastforce
    moreover have "\<forall>k. K k \<longrightarrow> length (filter (matches ty k) es) \<le> 1"
      using R by (fastforce split: if_splits)
    ultimately show ?L
      using Cons.IH [OF es] by (auto simp: filter_empty_conv)
  qed
qed

lemma wf_hash:
  assumes "st_wf K t" "type_of t = ty" "K k"
  shows "in_block (bins t) (do_hash k t)"
  using assms hash_range [of k "num_bins t"] by (auto simp: st_wf_def in_block_def do_hash_def)

lemma wf_keys: "st_wf K t \<Longrightarrow> list_all (\<lambda>e. K (fst e)) (concat (bins t))"
  by (fastforce simp: st_wf_def list_all_iff in_set_conv_nth [of _ "bins t"])

lemma filter_bin:
  assumes "st_wf K t" "type_of t = ty" "K k"
  shows "filter (matches ty k) (concat (bins t)) =
    filter (matches ty k) (bins t ! nat (do_hash k t))"
proof (rule filter_concat_only)
  show "nat (do_hash k t) < length (bins t)"
    by (rule in_block_nat [OF wf_hash [OF assms]])
next
  fix j e
  assume j: "j < length (bins t)" "j \<noteq> nat (do_hash k t)" "e \<in> set (bins t ! j)"
  then have e: "K (fst e)" "do_hash (fst e) t = int j"
    using assms(1) by (auto simp: st_wf_def list_all_iff)
  show "\<not> matches ty k e"
  proof
    assume "matches ty k e"
    then have "do_hash k t = int j"
      using hash_equal [OF assms(3) e(1)] assms(2) e(2) by (simp add: do_hash_def matches_def)
    with j(2) show False by simp
  qed
qed

lemma lookup_assoc:
  assumes "st_wf K t" "type_of t = ty" "K k"
  shows "st_lookup t k = Inr (st_assoc t k)"
proof -
  let ?c = "bins t ! nat (do_hash k t)"
  have "st_lookup t k =
      (case find_entry ty k ?c of [] \<Rightarrow> Inr None | ptr # _ \<Rightarrow> Inr (Some (snd ptr)))"
    using wf_hash [OF assms] assms(2) by (simp add: st_lookup_def)
  moreover have "st_assoc t k = first_record (filter (matches ty k) ?c)"
    using filter_bin [OF assms] assms(2) by (simp add: st_assoc_def)
  ultimately show ?thesis
    using find_entry_filter [of ty k ?c]
    by (cases "find_entry ty k ?c") auto
qed

lemma unique_depends_on_entries:
  assumes "st_wf K t" "type_of t = ty" "st_unique t" "st_wf K t'" "type_of t' = ty"
    and M: "mset (concat (bins t')) = mset (concat (bins t))"
  shows "st_unique t'"
proof -
  have "length (filter P (concat (bins t'))) = length (filter P (concat (bins t)))" for P
    by (metis M mset_filter size_mset)
  then show ?thesis
    using assms(3) unique_iff [OF wf_keys [OF assms(1)]] unique_iff [OF wf_keys [OF assms(4)]]
    by (simp add: st_unique_def assms(2,5))
qed

lemma assoc_depends_on_entries:
  assumes "st_wf K t" "type_of t = ty" "st_unique t" "type_of t' = ty" "K k"
    and M: "mset (concat (bins t')) = mset (concat (bins t))"
  shows "st_assoc t' k = st_assoc t k"
proof -
  have "length (filter (matches ty k) (concat (bins t))) \<le> 1"
    using assms(3,5) unique_iff [OF wf_keys [OF assms(1)]] by (simp add: st_unique_def assms(2))
  then have "filter (matches ty k) (concat (bins t')) = filter (matches ty k) (concat (bins t))"
    by (rule short_lists_mset_eq) (simp add: M)
  then show ?thesis by (simp add: st_assoc_def assms(2,4))
qed

lemma wf_update_bin:
  assumes "st_wf K t" "i < length (bins t)"
    and "list_all (\<lambda>e. K (fst e) \<and> do_hash (fst e) t = int i) c"
    and "n = num_entries t + int (length c) - int (length (bins t ! i))"
  shows "st_wf K (t\<lparr>bins := (bins t)[i := c], num_entries := n\<rparr>)"
proof -
  have "length (concat ((bins t)[i := c])) + length (bins t ! i) = length (concat (bins t)) + length c"
    using mset_concat_update [OF assms(2), of c] by (metis size_mset size_union)
  then have "n = int (length (concat ((bins t)[i := c])))"
    using assms(1,4) by (simp add: st_wf_def)
  then show ?thesis
    using assms(1-3) by (auto simp: st_wf_def nth_list_update do_hash_def)
qed

lemma push_entry_ok:
  assumes "st_wf K t" "type_of t = ty" "K (fst e)"
  shows "\<exists>t'. push_entry e t = Inr t' \<and> st_wf K t' \<and> type_of t' = ty \<and> num_bins t' = num_bins t
    \<and> mset (concat (bins t')) = add_mset e (mset (concat (bins t)))
    \<and> (\<forall>k. K k \<longrightarrow> st_assoc t' k = (if matches ty k e then Some (snd e) else st_assoc t k))"
proof -
  let ?h = "do_hash (fst e) t"
  let ?i = "nat ?h"
  let ?t = "t\<lparr>bins := (bins t)[?i := e # bins t ! ?i], num_entries := num_entries t + 1\<rparr>"
  have h: "in_block (bins t) ?h" by (rule wf_hash [OF assms])
  then have i: "?i < length (bins t)" "int ?i = ?h"
    by (auto simp: in_block_def)
  have bin: "list_all (\<lambda>e. K (fst e) \<and> do_hash (fst e) t = int ?i) (bins t ! ?i)"
    using assms(1) i(1) unfolding st_wf_def by blast
  have "push_entry e t = Inr ?t"
    using h by (simp add: push_entry_def Let_def)
  moreover have wf: "st_wf K ?t"
    using bin i assms(3) by (intro wf_update_bin [OF assms(1) i(1)]) auto
  moreover have "mset (concat (bins ?t)) = add_mset e (mset (concat (bins t)))"
    using mset_concat_update [OF i(1), of "e # bins t ! ?i"] by simp
  moreover have "st_assoc ?t k = (if matches ty k e then Some (snd e) else st_assoc t k)"
    if k: "K k" for k
  proof -
    have *: "st_assoc ?t k = first_record (filter (matches ty k) (bins ?t ! nat (do_hash k ?t)))"
      using filter_bin [OF wf _ k] assms(2) by (simp add: st_assoc_def)
    have **: "st_assoc t k = first_record (filter (matches ty k) (bins t ! nat (do_hash k t)))"
      using filter_bin [OF assms(1,2) k] assms(2) by (simp add: st_assoc_def)
    have "do_hash k ?t = do_hash k t" by (simp add: do_hash_def)
    moreover have "do_hash k t = ?h" if "matches ty k e"
      using that hash_equal [OF k assms(3)] assms(2) by (simp add: do_hash_def matches_def)
    ultimately show ?thesis
      using i(1) by (cases "matches ty k e") (auto simp: * ** nth_list_update)
  qed
  ultimately show ?thesis using assms(2) by auto
qed

lemma rehash_chain_ok:
  assumes "st_wf K t" "type_of t = ty" "list_all (\<lambda>e. K (fst e)) c"
  shows "\<exists>t'. rehash_chain c t = Inr t' \<and> st_wf K t' \<and> type_of t' = ty \<and> num_bins t' = num_bins t
    \<and> mset (concat (bins t')) = mset c + mset (concat (bins t))"
  using assms
proof (induction c arbitrary: t)
  case Nil
  then show ?case by simp
next
  case (Cons e c)
  then have "K (fst e)" by simp
  from push_entry_ok [OF Cons.prems(1,2) this] obtain t1 where
    t1: "push_entry e t = Inr t1" "st_wf K t1" "type_of t1 = ty" "num_bins t1 = num_bins t"
      "mset (concat (bins t1)) = add_mset e (mset (concat (bins t)))" by blast
  with Cons.IH [OF t1(2,3)] Cons.prems(3) show ?case by auto
qed

lemma rehash_bins_ok:
  assumes "st_wf K t" "type_of t = ty" "list_all (\<lambda>e. K (fst e)) (concat bs)"
  shows "\<exists>t'. rehash_bins bs t = Inr t' \<and> st_wf K t' \<and> type_of t' = ty \<and> num_bins t' = num_bins t
    \<and> mset (concat (bins t')) = mset (concat bs) + mset (concat (bins t))"
  using assms
proof (induction bs arbitrary: t)
  case Nil
  then show ?case by simp
next
  case (Cons c bs)
  then have "list_all (\<lambda>e. K (fst e)) c" by simp
  from rehash_chain_ok [OF Cons.prems(1,2) this] obtain t1 where
    t1: "rehash_chain c t = Inr t1" "st_wf K t1" "type_of t1 = ty" "num_bins t1 = num_bins t"
      "mset (concat (bins t1)) = mset c + mset (concat (bins t))" by blast
  with Cons.IH [OF t1(2,3)] Cons.prems(3) show ?case by (auto simp: ac_simps)
qed

lemma empty_table_ok:
  assumes "0 < num_bins t" "num_entries t = 0" "bins t = replicate (nat (num_bins t)) []"
  shows "st_wf K t" "st_unique t" "st_assoc t k = None"
proof -
  have "concat (replicate n []) = ([] :: ('k \<times> 'a) list)" for n by (induction n) auto
  with assms show "st_wf K t" "st_unique t" "st_assoc t k = None"
    by (auto simp: st_wf_def st_unique_def st_assoc_def)
qed

lemma rehash_ok:
  assumes "st_wf K t" "type_of t = ty"
  shows "\<exists>t'. rehash t = Inr t' \<and> st_wf K t' \<and> type_of t' = ty
    \<and> num_bins t' = rehash_size (num_bins t)
    \<and> mset (concat (bins t')) = mset (concat (bins t))"
proof -
  let ?n = "rehash_size (num_bins t)"
  let ?t = "t\<lparr>num_bins := ?n, num_entries := 0, bins := replicate (nat ?n) []\<rparr>"
  have "0 < num_bins t" using assms(1) by (simp add: st_wf_def)
  then have "st_wf K ?t" by (intro empty_table_ok) (simp_all add: rehash_size_pos)
  from rehash_bins_ok [OF this _ wf_keys [OF assms(1)]] assms(2) show ?thesis
    by (auto simp: rehash_def Let_def)
qed

lemma ADD_DIRECT_ok:
  assumes "st_wf K t" "type_of t = ty" "K k"
  shows "\<exists>t'. ADD_DIRECT t k v = Inr t' \<and> st_wf K t' \<and> type_of t' = ty
    \<and> mset (concat (bins t')) = add_mset (k, v) (mset (concat (bins t)))
    \<and> st_assoc t' k = Some v"
proof -
  obtain t1 where t1: "(if num_entries t sdiv num_bins t > 5 then rehash t else Inr t) = Inr t1"
      "st_wf K t1" "type_of t1 = ty" "mset (concat (bins t1)) = mset (concat (bins t))"
    using rehash_ok [OF assms(1,2)] assms(1,2) by (cases "num_entries t sdiv num_bins t > 5") auto
  have "matches ty k (k, v)" using equal_refl [OF assms(3)] by (simp add: matches_def)
  with push_entry_ok [OF t1(2,3), of "(k, v)"] assms(3) t1(1,4) show ?thesis
    by (auto simp: ADD_DIRECT_def)
qed

lemma add_unique:
  assumes "st_wf K t" "type_of t = ty" "st_unique t" "K k" "st_assoc t k = None"
    and "st_wf K t'" "type_of t' = ty"
    and M: "mset (concat (bins t')) = add_mset (k, v) (mset (concat (bins t)))"
  shows "st_unique t'"
    and "K k' \<Longrightarrow> st_assoc t' k' = (if EQUAL ty k' k then Some v else st_assoc t k')"
proof -
  let ?es = "concat (bins t)"
  have none: "filter (matches ty k) ?es = []"
    using assms(5) by (simp add: st_assoc_def assms(2) first_record_def split: list.splits)
  have noneq: "filter (matches ty j) ?es = []" if "K j" "EQUAL ty j k" for j
    using filter_matches_cong [OF wf_keys [OF assms(1)] that(1) assms(4) that(2)] none by simp
  have u: "\<forall>j. K j \<longrightarrow> length (filter (matches ty j) ?es) \<le> 1"
    using assms(3) unique_iff [OF wf_keys [OF assms(1)]] by (simp add: st_unique_def assms(2))
  have F: "filter (matches ty j) (concat (bins t')) =
      (if EQUAL ty j k then [(k, v)] else filter (matches ty j) ?es)" if j: "K j" for j
  proof (rule short_lists_mset_eq)
    show "length (if EQUAL ty j k then [(k, v)] else filter (matches ty j) ?es) \<le> 1"
      using u j by auto
    show "mset (filter (matches ty j) (concat (bins t'))) =
        mset (if EQUAL ty j k then [(k, v)] else filter (matches ty j) ?es)"
      using arg_cong [OF noneq [OF j], of mset] by (auto simp: M matches_def)
  qed
  have "\<forall>j. K j \<longrightarrow> length (filter (matches ty j) (concat (bins t'))) \<le> 1"
    using u by (auto simp: F)
  then show "st_unique t'"
    using unique_iff [OF wf_keys [OF assms(6)]] by (simp add: st_unique_def assms(7))
  show "K k' \<Longrightarrow> st_assoc t' k' = (if EQUAL ty k' k then Some v else st_assoc t k')"
    by (simp add: st_assoc_def assms(2,7) F)
qed

lemma filter_set_record:
  assumes "list_all (\<lambda>e. K (fst e)) c" "K k" "K k'"
    and "length (filter (matches ty k) c) \<le> 1"
  shows "filter (matches ty k') (set_record ty k v c) =
    (if EQUAL ty k' k then map (\<lambda>e. (fst e, v)) (filter (matches ty k') c)
     else filter (matches ty k') c)"
  using assms
proof (induction c)
  case Nil
  then show ?case by simp
next
  case (Cons e c)
  have e: "K (fst e)" using Cons.prems(1) by simp
  show ?case
  proof (cases "matches ty k e")
    case True
    then have c: "filter (matches ty k) c = []"
      using Cons.prems(4) by simp
    have "filter (matches ty k') c = []" if "EQUAL ty k' k"
      using c Cons.prems(1-3) that filter_matches_cong [of c k' k] by simp
    moreover have "EQUAL ty k' (fst e) \<longleftrightarrow> EQUAL ty k' k" "EQUAL ty k (fst e)"
      using True Cons.prems(2,3) e equal_sym equal_trans unfolding matches_def by blast+
    then have "matches ty k' e \<longleftrightarrow> EQUAL ty k' k" "matches ty k' (fst e, v) \<longleftrightarrow> EQUAL ty k' k"
        "EQUAL ty k (fst e)"
      by (simp_all add: matches_def)
    ultimately show ?thesis by simp
  next
    case False
    then have "filter (matches ty k') (set_record ty k v c) =
        (if EQUAL ty k' k then map (\<lambda>e. (fst e, v)) (filter (matches ty k') c)
         else filter (matches ty k') c)"
      using Cons.IH Cons.prems by simp
    moreover have "\<not> matches ty k' e" if "EQUAL ty k' k"
      using False that matches_cong [of k' k e] Cons.prems(2,3) e by blast
    moreover have "\<not> EQUAL ty k (fst e)" using False by (simp add: matches_def)
    ultimately show ?thesis by simp
  qed
qed

lemma chain_of_unique:
  assumes "st_wf K t" "type_of t = ty" "st_unique t" "K k"
  shows "length (filter (matches ty k) (bins t ! nat (do_hash k t))) \<le> 1"
  using assms(3) unique_iff [OF wf_keys [OF assms(1)]] filter_bin [OF assms(1,2,4)] assms(2,4)
  by (auto simp: st_unique_def)

lemma replace_refines:
  assumes "st_wf K t" "type_of t = ty" "st_unique t" "K k"
    and fl: "filter (matches ty k) (bins t ! nat (do_hash k t)) \<noteq> []"
    and t': "t' = t\<lparr>bins := (bins t)[nat (do_hash k t) :=
                   set_record ty k v (bins t ! nat (do_hash k t))]\<rparr>"
  shows "st_wf K t'" "st_unique t'"
    and "K k' \<Longrightarrow> st_assoc t' k' = (if EQUAL ty k' k then Some v else st_assoc t k')"
proof -
  let ?h = "do_hash k t"
  let ?i = "nat ?h"
  let ?c = "bins t ! ?i"
  let ?bs = "(bins t)[?i := set_record ty k v ?c]"
  have i: "?i < length (bins t)" "int ?i = ?h"
    using wf_hash [OF assms(1,2,4)] by (auto simp: in_block_def)
  have bin: "list_all (\<lambda>e. K (fst e) \<and> do_hash (fst e) t = int ?i) ?c"
    using assms(1) i(1) unfolding st_wf_def by blast
  then have "list_all (\<lambda>e. K (fst e) \<and> do_hash (fst e) t = int ?i) (set_record ty k v ?c)"
    by (rule iffD2 [OF set_record_all [where P = "\<lambda>x. K x \<and> do_hash x t = int ?i"]])
  then show wf: "st_wf K t'"
    using wf_update_bin [OF assms(1) i(1), of "set_record ty k v ?c" "num_entries t"] by (simp add: t')
  have keys: "map fst (concat ?bs) = map fst (concat (bins t))"
    by (metis list_update_id map_concat map_update set_record_keys)
  show "st_unique t'"
    using assms(3) length_filter_matches_keys [OF keys, of ty]
      unique_iff [OF wf_keys [OF assms(1)]] unique_iff [OF wf_keys [OF wf]]
    by (simp add: st_unique_def assms(2) t')
  assume k': "K k'"
  have *: "st_assoc t' k' = first_record (filter (matches ty k') (?bs ! nat (do_hash k' t)))"
    using filter_bin [OF wf _ k'] assms(2) by (simp add: st_assoc_def do_hash_def t')
  have **: "st_assoc t k' = first_record (filter (matches ty k') (bins t ! nat (do_hash k' t)))"
    using filter_bin [OF assms(1,2) k'] assms(2) by (simp add: st_assoc_def)
  have Kc: "list_all (\<lambda>e. K (fst e)) ?c" using bin by (auto simp: list_all_iff)
  note fsr = filter_set_record [OF Kc assms(4) k' chain_of_unique [OF assms(1-4)]]
  show "st_assoc t' k' = (if EQUAL ty k' k then Some v else st_assoc t k')"
  proof (cases "EQUAL ty k' k")
    case True
    have "do_hash k' t = ?h"
      using hash_equal [OF k' assms(4) True] assms(2) by (simp add: do_hash_def)
    moreover have "filter (matches ty k') ?c = filter (matches ty k) ?c"
      by (rule filter_matches_cong [OF Kc k' assms(4) True])
    ultimately show ?thesis using True fl fsr i(1)
      by (cases "filter (matches ty k) ?c") (simp_all add: *)
  next
    case False
    then show ?thesis using fsr i(1) by (auto simp: * ** nth_list_update)
  qed
qed

lemma assoc_bin:
  assumes "st_wf K t" "type_of t = ty" "K k"
  shows "st_assoc t k = first_record (filter (matches ty k) (bins t ! nat (do_hash k t)))"
  using filter_bin [OF assms] by (simp add: st_assoc_def assms(2))

lemma insert_refines:
  assumes "st_wf K t" "type_of t = ty" "st_unique t" "K k"
  shows "\<exists>t'. st_insert t k v = Inr (t', st_assoc t k \<noteq> None)
    \<and> st_wf K t' \<and> type_of t' = ty \<and> st_unique t'
    \<and> (\<forall>k'. K k' \<longrightarrow> st_assoc t' k' = (if EQUAL ty k' k then Some v else st_assoc t k'))
    \<and> num_entries t' = num_entries t + (if st_assoc t k = None then 1 else 0)"
proof -
  let ?c = "bins t ! nat (do_hash k t)"
  have h: "in_block (bins t) (do_hash k t)" by (rule wf_hash [OF assms(1,2,4)])
  have assoc: "st_assoc t k = first_record (filter (matches ty k) ?c)"
    by (rule assoc_bin [OF assms(1,2,4)])
  show ?thesis
  proof (cases "find_entry ty k ?c")
    case Nil
    then have none: "st_assoc t k = None"
      using find_entry_filter(1) [of ty k ?c] by (simp add: assoc)
    obtain t' where t': "ADD_DIRECT t k v = Inr t'" "st_wf K t'" "type_of t' = ty"
        "mset (concat (bins t')) = add_mset (k, v) (mset (concat (bins t)))"
      using ADD_DIRECT_ok [OF assms(1,2,4)] by blast
    have "st_insert t k v = Inr (t', False)"
      using h Nil t'(1) by (simp add: st_insert_def Let_def assms(2))
    moreover have "num_entries t' = num_entries t + 1"
      using assms(1) t'(2) t'(4) [THEN arg_cong [where f = size]] by (simp add: st_wf_def)
    ultimately show ?thesis
      using none t' add_unique [OF assms none t'(2-4)] by auto
  next
    case (Cons e r)
    then obtain r' where fl: "filter (matches ty k) ?c = e # r'"
      using find_entry_filter(2) by metis
    let ?t = "t\<lparr>bins := (bins t)[nat (do_hash k t) := set_record ty k v ?c]\<rparr>"
    have "st_insert t k v = Inr (?t, True)"
      using h Cons by (simp add: st_insert_def Let_def assms(2))
    then show ?thesis
      using replace_refines [OF assms _ refl, where v = v] fl assms(2) assoc by auto
  qed
qed

lemma remove_unique:
  assumes "st_wf K t" "type_of t = ty" "st_unique t" "K k" "matches ty k e"
    and "st_wf K t'" "type_of t' = ty"
    and M: "mset (concat (bins t)) = add_mset e (mset (concat (bins t')))"
  shows "st_unique t'" "st_assoc t k = Some (snd e)"
    and "K k' \<Longrightarrow> st_assoc t' k' = (if EQUAL ty k' k then None else st_assoc t k')"
proof -
  let ?es = "concat (bins t)" and ?es' = "concat (bins t')"
  have u: "\<forall>j. K j \<longrightarrow> length (filter (matches ty j) ?es) \<le> 1"
    using assms(3) unique_iff [OF wf_keys [OF assms(1)]] by (simp add: st_unique_def assms(2))
  have F: "filter (matches ty j) ?es = (if matches ty j e then [e] else filter (matches ty j) ?es')"
    and N: "matches ty j e \<Longrightarrow> filter (matches ty j) ?es' = []" if j: "K j" for j
  proof -
    have m: "mset (filter (matches ty j) ?es) =
        (if matches ty j e then add_mset e (mset (filter (matches ty j) ?es'))
         else mset (filter (matches ty j) ?es'))"
      by (simp add: M)
    moreover have l: "length (filter (matches ty j) ?es) \<le> 1" using u j by blast
    ultimately show N: "filter (matches ty j) ?es' = []" if "matches ty j e"
      using that by (metis One_nat_def Suc_le_mono le_zero_eq length_0_conv size_add_mset size_mset)
    show "filter (matches ty j) ?es = (if matches ty j e then [e] else filter (matches ty j) ?es')"
    proof (cases "matches ty j e")
      case True
      then have "mset (filter (matches ty j) ?es) = mset [e]" using m N by simp
      then have "filter (matches ty j) ?es = [e]" by (rule short_lists_mset_eq [rotated]) simp
      then show ?thesis using True by simp
    next
      case False
      then have "filter (matches ty j) ?es' = filter (matches ty j) ?es"
        using m by (intro short_lists_mset_eq [OF l]) simp
      then show ?thesis using False by simp
    qed
  qed
  have len: "length (filter (matches ty j) ?es') \<le> 1" if j: "K j" for j
    using u F [OF j] N [OF j] j by (cases "matches ty j e") (simp, metis)
  then show "st_unique t'"
    using unique_iff [OF wf_keys [OF assms(6)]] by (simp add: st_unique_def assms(7))
  show "st_assoc t k = Some (snd e)"
    using F [OF assms(4)] assms(5) by (simp add: st_assoc_def assms(2))
  assume k': "K k'"
  have "e \<in># mset (concat (bins t))" by (simp add: M)
  then have "K (fst e)"
    using wf_keys [OF assms(1)] by (simp only: set_mset_mset list_all_iff)
  then have "matches ty k' e \<longleftrightarrow> EQUAL ty k' k"
    using k' assms(4,5) equal_sym equal_trans unfolding matches_def by blast
  then show "st_assoc t' k' = (if EQUAL ty k' k then None else st_assoc t k')"
    using F [OF k'] N [OF k'] by (simp add: st_assoc_def assms(2,7))
qed

lemma delete_next_Some:
  "delete_next ty k (p # c) = Some (c', e) \<Longrightarrow>
     \<exists>a b. c = a @ e # b \<and> c' = p # a @ b \<and> EQUAL ty (fst e) k"
proof (induction c arbitrary: p c')
  case Nil
  then show ?case by simp
next
  case (Cons q c)
  show ?case
  proof (cases "EQUAL ty (fst q) k")
    case True
    with Cons.prems show ?thesis by (auto intro: exI [of _ "[]"])
  next
    case False
    with Cons.prems obtain c'' where "delete_next ty k (q # c) = Some (c'', e)" "c' = p # c''"
      by auto
    moreover from this(1) obtain a b where "c = a @ e # b" "c'' = q # a @ b" "EQUAL ty (fst e) k"
      using Cons.IH by blast
    ultimately show ?thesis by (intro exI [of _ "q # a"] exI [of _ b]) simp
  qed
qed

lemma delete_next_None:
  "delete_next ty k (p # c) = None \<Longrightarrow> q \<in> set c \<Longrightarrow> \<not> EQUAL ty (fst q) k"
  by (induction c arbitrary: p) (auto split: if_splits)

text \<open>Unlinking one cell \<open>e\<close> with an equal key from its chain is deletion.\<close>

lemma unlink_refines:
  assumes "st_wf K t" "type_of t = ty" "st_unique t" "K k" "matches ty k e"
    and bin: "bins t ! nat (do_hash k t) = a @ e # b"
    and t': "t' = t\<lparr>bins := (bins t)[nat (do_hash k t) := a @ b], num_entries := num_entries t - 1\<rparr>"
  shows "st_wf K t' \<and> type_of t' = ty \<and> st_unique t' \<and> st_assoc t k = Some (snd e)
    \<and> (\<forall>k'. K k' \<longrightarrow> st_assoc t' k' = (if EQUAL ty k' k then None else st_assoc t k'))"
proof -
  let ?i = "nat (do_hash k t)"
  have i: "?i < length (bins t)" by (rule in_block_nat [OF wf_hash [OF assms(1,2,4)]])
  have "list_all (\<lambda>e. K (fst e) \<and> do_hash (fst e) t = int ?i) (bins t ! ?i)"
    using assms(1) i unfolding st_wf_def by blast
  then have wf: "st_wf K t'"
    unfolding t' using bin by (intro wf_update_bin [OF assms(1) i]) simp_all
  have ty': "type_of t' = ty" by (simp add: t' assms(2))
  have "mset (concat (bins t)) = add_mset e (mset (concat (bins t')))"
    using mset_concat_update [OF i, of "a @ b"] bin by (simp add: t')
  from remove_unique [OF assms(1-5) wf ty' this] show ?thesis
    using wf ty' by blast
qed

lemma delete_refines:
  assumes "st_wf K t" "type_of t = ty" "st_unique t" "K k"
  shows "\<exists>t' key' out. st_delete t k = Inr (t', st_assoc t k \<noteq> None, key', out)
    \<and> st_wf K t' \<and> type_of t' = ty \<and> st_unique t'
    \<and> (\<forall>k'. K k' \<longrightarrow> st_assoc t' k' = (if EQUAL ty k' k then None else st_assoc t k'))
    \<and> (\<forall>v. st_assoc t k = Some v \<longrightarrow> out = Out v) \<and> K key' \<and> EQUAL ty k key'"
proof -
  let ?c = "bins t ! nat (do_hash k t)"
  have h: "in_block (bins t) (do_hash k t)" by (rule wf_hash [OF assms(1,2,4)])
  have Kc: "list_all (\<lambda>e. K (fst e)) ?c"
    using assms(1) in_block_nat [OF h] by (auto simp: st_wf_def list_all_iff)
  have assoc: "st_assoc t k = first_record (filter (matches ty k) ?c)"
    by (rule assoc_bin [OF assms(1,2,4)])
  have miss: ?thesis if "filter (matches ty k) ?c = []" "st_delete t k = Inr (t, False, k, out)" for out
  proof -
    have none: "st_assoc t k = None" using that(1) assoc by simp
    have "st_assoc t k' = None" if "K k'" "EQUAL ty k' k" for k'
      using filter_matches_cong [OF wf_keys [OF assms(1)] that(1) assms(4) that(2)] none assms(2)
      by (simp add: st_assoc_def)
    then show ?thesis using that(2) none assms equal_refl [OF assms(4)] by auto
  qed
  show ?thesis
  proof (cases ?c)
    case Nil
    with h show ?thesis by (intro miss) (simp_all add: st_delete_def Let_def)
  next
    case (Cons p c)
    show ?thesis
    proof (cases "EQUAL ty k (fst p)")
      case True
      then have m: "matches ty k p" by (simp add: matches_def)
      have bin: "?c = [] @ p # c" using Cons by simp
      from unlink_refines [OF assms m bin refl] show ?thesis
        using h Cons True Kc by (auto simp: st_delete_def Let_def assms(2))
    next
      case False
      show ?thesis
      proof (cases "delete_next ty k ?c")
        case None
        have "filter (matches ty k) ?c = []"
          using delete_next_None [of k p c] None Cons False Kc assms(4) equal_sym
          by (force simp: filter_empty_conv matches_def list_all_iff)
        with None h Cons False show ?thesis
          by (intro miss) (simp_all add: st_delete_def Let_def assms(2))
      next
        case (Some r)
        obtain c' e where r: "r = (c', e)" by (cases r)
        from delete_next_Some [of k p c c' e] Some Cons r obtain a b where
          ab: "c = a @ e # b" "c' = p # a @ b" "EQUAL ty (fst e) k" by auto
        have m: "matches ty k e"
          using ab Kc Cons assms(4) equal_sym by (auto simp: matches_def)
        have bin: "?c = (p # a) @ e # b" using Cons ab by simp
        from unlink_refines [OF assms m bin refl] m show ?thesis
          using h Cons False Some r ab Kc by (auto simp: st_delete_def Let_def assms(2) matches_def)
      qed
    qed
  qed
qed

lemma copy_refines:
  assumes "st_wf K t" "type_of t = ty" "st_unique t"
  shows "st_wf K (st_copy t) \<and> type_of (st_copy t) = ty \<and> st_unique (st_copy t)
    \<and> (\<forall>k. K k \<longrightarrow> st_assoc (st_copy t) k = st_assoc t k)"
proof -
  have M: "mset (concat (bins (st_copy t))) = mset (concat (bins t))"
    by (simp add: st_copy_def st_copy_chain mset_concat_map_rev)
  have "length (concat (bins (st_copy t))) = length (concat (bins t))"
    using M by (metis size_mset)
  then have wf: "st_wf K (st_copy t)"
    using assms(1) by (auto simp: st_wf_def st_copy_def st_copy_chain do_hash_def list_all_iff)
  have ty: "type_of (st_copy t) = ty" using assms(2) by (simp add: st_copy_def)
  show ?thesis
    using wf ty unique_depends_on_entries [OF assms wf ty M]
      assoc_depends_on_entries [OF assms ty _ M] by blast
qed

end

section \<open>Iteration\<close>

lemma foreach_chain_subseq:
  "foreach_chain func c s = (c', n, s', stop) \<Longrightarrow>
     subseq c' c \<and> int (length c') + n = int (length c)"
  by (induction c arbitrary: s c' n s' stop)
    (fastforce split: prod.splits st_retval.splits)+

lemma foreach_bins_subseq:
  "foreach_bins func cs s = (cs', n, s') \<Longrightarrow>
     list_all2 subseq cs' cs \<and> int (length (concat cs')) + n = int (length (concat cs))"
proof (induction cs arbitrary: s cs' n s')
  case Nil
  then show ?case by simp
next
  case (Cons c cs)
  obtain c' m s1 stop where fc: "foreach_chain func c s = (c', m, s1, stop)"
    by (metis prod_cases4)
  note sub = foreach_chain_subseq [OF fc]
  show ?case
  proof (cases stop)
    case True
    with Cons.prems fc sub show ?thesis by (auto simp: list_all2_same)
  next
    case False
    obtain cs1 m1 s2 where "foreach_bins func cs s1 = (cs1, m1, s2)"
      by (metis prod_cases3)
    with Cons.IH [OF this] Cons.prems fc sub False show ?thesis by auto
  qed
qed

text \<open>Deleting cells keeps the invariant, whatever the callback decides.\<close>

lemma subseq_set: "subseq xs ys \<Longrightarrow> set xs \<subseteq> set ys"
  by (induction rule: list_emb.induct) auto

lemma list_all2_subseq_concat: "list_all2 subseq xss yss \<Longrightarrow> subseq (concat xss) (concat yss)"
  by (induction rule: list_all2_induct) (auto intro: list_emb_append_mono)

lemma st_foreach_wf:
  assumes "st_wf K t" "st_foreach t func s = (t', s')"
  shows "st_wf K t'" "type_of t' = type_of t"
proof -
  obtain bs n where fb: "foreach_bins func (bins t) s = (bs, n, s')"
      "t' = t\<lparr>bins := bs, num_entries := num_entries t - n\<rparr>"
    using assms(2) by (auto simp: st_foreach_def split: prod.splits)
  have sub: "list_all2 subseq bs (bins t)" "int (length (concat bs)) + n = int (length (concat (bins t)))"
    using foreach_bins_subseq [OF fb(1)] by simp_all
  have "list_all (\<lambda>e. K (fst e) \<and> do_hash (fst e) t = int i) (bs ! i)" if i: "i < length bs" for i
  proof -
    have "subseq (bs ! i) (bins t ! i)" "i < length (bins t)"
      using sub(1) i by (auto simp: list_all2_conv_all_nth)
    then show ?thesis
      using assms(1) by (auto simp: st_wf_def list_all_iff dest: subseq_set)
  qed
  then show "st_wf K t'" "type_of t' = type_of t"
    using assms(1) sub list_all2_lengthD [OF sub(1)] by (auto simp: st_wf_def fb(2) do_hash_def)
qed

lemma st_foreach_subset:
  assumes "st_foreach t func s = (t', s')"
  shows "set (concat (bins t')) \<subseteq> set (concat (bins t))"
proof -
  obtain bs n where fb: "foreach_bins func (bins t) s = (bs, n, s')"
      "t' = t\<lparr>bins := bs, num_entries := num_entries t - n\<rparr>"
    using assms by (auto simp: st_foreach_def split: prod.splits)
  have "subseq (concat bs) (concat (bins t))"
    using foreach_bins_subseq [OF fb(1)] list_all2_subseq_concat by blast
  then show ?thesis using subseq_set by (simp only: fb(2)) force
qed

lemma sorted_wrt_subseq: "subseq xs ys \<Longrightarrow> sorted_wrt P ys \<Longrightarrow> sorted_wrt P xs"
  by (induction rule: list_emb.induct) (auto dest: subseq_set)

lemma st_foreach_unique:
  assumes "st_unique t" "st_foreach t func s = (t', s')"
  shows "st_unique t'"
proof -
  obtain bs n where fb: "foreach_bins func (bins t) s = (bs, n, s')"
      "t' = t\<lparr>bins := bs, num_entries := num_entries t - n\<rparr>"
    using assms(2) by (auto simp: st_foreach_def split: prod.splits)
  have "subseq (concat bs) (concat (bins t))"
    using foreach_bins_subseq [OF fb(1)] list_all2_subseq_concat by blast
  then show ?thesis
    using assms(1) sorted_wrt_subseq by (auto simp: st_unique_def fb(2))
qed

text \<open>
  A callback that never stops visits every cell once, in bin order, and keeps exactly the
  cells it does not ask to delete.
\<close>

lemma st_foreach_filter:
  assumes "\<And>k v s. func k v s = (if P k v then ST_DELETE else ST_CONTINUE, g (k, v) s)"
  shows "st_foreach t func s =
    (t\<lparr>bins := map (filter (\<lambda>(k, v). \<not> P k v)) (bins t),
       num_entries := num_entries t - int (length (filter (\<lambda>(k, v). P k v) (concat (bins t))))\<rparr>,
     fold g (concat (bins t)) s)"
proof -
  have chain: "foreach_chain func c s =
      (filter (\<lambda>(k, v). \<not> P k v) c, int (length (filter (\<lambda>(k, v). P k v) c)), fold g c s, False)" for c s
    by (induction c arbitrary: s) (auto simp: assms)
  have "foreach_bins func cs s =
      (map (filter (\<lambda>(k, v). \<not> P k v)) cs,
       int (length (filter (\<lambda>(k, v). P k v) (concat cs))), fold g (concat cs) s)" for cs s
    by (induction cs arbitrary: s) (auto simp: chain)
  then show ?thesis by (simp add: st_foreach_def)
qed

section \<open>Tables as finite maps\<close>

text \<open>
  When equal keys are identical the association is a finite map. \<open>key_table\<close> collects the
  invariants of a table of one key type, \<open>key_map\<close> is the map it stands for, and a client's
  sequence of insertions and deletions is a list of \<open>table_op\<close>.
\<close>

definition key_table :: "'k st_hash_type \<Rightarrow> ('k \<Rightarrow> bool) \<Rightarrow> ('k, 'v) st_table \<Rightarrow> bool" where
  "key_table ty K t \<longleftrightarrow> st_wf K t \<and> type_of t = ty \<and> st_unique t"

definition key_map :: "('k \<Rightarrow> bool) \<Rightarrow> ('k, 'v) st_table \<Rightarrow> 'k \<rightharpoonup> 'v" where
  "key_map K t k = (if K k then st_assoc t k else None)"

datatype ('k, 'v) table_op = Insert 'k 'v | Delete 'k

fun op_key :: "('k, 'v) table_op \<Rightarrow> 'k" where
  "op_key (Insert k v) = k"
| "op_key (Delete k) = k"

fun run_op :: "('k, 'v) st_table \<Rightarrow> ('k, 'v) table_op \<Rightarrow> ('k, 'v) st_table result" where
  "run_op t (Insert k v) = bindR (st_insert t k v) (\<lambda>(t', found). Inr t')"
| "run_op t (Delete k) = bindR (st_delete t k) (\<lambda>(t', found, key, out). Inr t')"

fun run_ops :: "('k, 'v) st_table \<Rightarrow> ('k, 'v) table_op list \<Rightarrow> ('k, 'v) st_table result" where
  "run_ops t [] = Inr t"
| "run_ops t (x # xs) = bindR (run_op t x) (\<lambda>t'. run_ops t' xs)"

fun map_op :: "('k \<rightharpoonup> 'v) \<Rightarrow> ('k, 'v) table_op \<Rightarrow> ('k \<rightharpoonup> 'v)" where
  "map_op m (Insert k v) = m(k \<mapsto> v)"
| "map_op m (Delete k) = m(k := None)"

locale identity_hash_type = hash_type +
  assumes equal_identity: "K x \<Longrightarrow> K y \<Longrightarrow> EQUAL ty x y \<Longrightarrow> x = y"
begin

lemma equal_iff: "K x \<Longrightarrow> K y \<Longrightarrow> EQUAL ty x y \<longleftrightarrow> x = y"
  using equal_identity equal_refl by blast

lemma map_lookup:
  assumes "key_table ty K t" "K k"
  shows "st_lookup t k = Inr (key_map K t k)"
  using lookup_assoc [of t k] assms by (simp add: key_table_def key_map_def)

lemma map_insert:
  assumes "key_table ty K t" "K k"
  shows "\<exists>t'. st_insert t k v = Inr (t', k \<in> dom (key_map K t)) \<and> key_table ty K t'
    \<and> key_map K t' = (key_map K t)(k \<mapsto> v)"
proof -
  from assms have t: "st_wf K t" "type_of t = ty" "st_unique t" by (simp_all add: key_table_def)
  from insert_refines [OF t assms(2), of v] obtain t' where
    t': "st_insert t k v = Inr (t', st_assoc t k \<noteq> None)" "key_table ty K t'"
      "\<forall>k'. K k' \<longrightarrow> st_assoc t' k' = (if EQUAL ty k' k then Some v else st_assoc t k')"
    by (auto simp: key_table_def)
  have "key_map K t' = (key_map K t)(k \<mapsto> v)"
    using t'(3) assms(2) by (auto simp: key_map_def fun_eq_iff equal_iff)
  moreover have "(st_assoc t k \<noteq> None) = (k \<in> dom (key_map K t))"
    using assms(2) by (auto simp: key_map_def dom_def)
  ultimately show ?thesis using t'(1,2) by auto
qed

lemma map_delete:
  assumes "key_table ty K t" "K k"
  shows "\<exists>t' out. st_delete t k = Inr (t', k \<in> dom (key_map K t), k, out) \<and> key_table ty K t'
    \<and> key_map K t' = (key_map K t)(k := None)
    \<and> (\<forall>v. key_map K t k = Some v \<longrightarrow> out = Out v)"
proof -
  from assms have t: "st_wf K t" "type_of t = ty" "st_unique t" by (simp_all add: key_table_def)
  from delete_refines [OF t assms(2)] obtain t' key' out where
    t': "st_delete t k = Inr (t', st_assoc t k \<noteq> None, key', out)" "key_table ty K t'"
      "\<forall>k'. K k' \<longrightarrow> st_assoc t' k' = (if EQUAL ty k' k then None else st_assoc t k')"
      "\<forall>v. st_assoc t k = Some v \<longrightarrow> out = Out v" "K key'" "EQUAL ty k key'"
    by (auto simp: key_table_def)
  have "key' = k" using t'(5,6) assms(2) by (simp add: equal_iff)
  moreover have "key_map K t' = (key_map K t)(k := None)"
    using t'(3) assms(2) by (auto simp: key_map_def fun_eq_iff equal_iff)
  moreover have "(st_assoc t k \<noteq> None) = (k \<in> dom (key_map K t))"
    using assms(2) by (auto simp: key_map_def dom_def)
  ultimately show ?thesis using t' assms(2) by (auto simp: key_map_def)
qed

lemma map_run_ops:
  assumes "key_table ty K t" "list_all (\<lambda>x. K (op_key x)) xs"
  shows "\<exists>t'. run_ops t xs = Inr t' \<and> key_table ty K t' \<and> key_map K t' = foldl map_op (key_map K t) xs"
  using assms
proof (induction xs arbitrary: t)
  case Nil
  then show ?case by simp
next
  case (Cons x xs)
  have "\<exists>t1. run_op t x = Inr t1 \<and> key_table ty K t1 \<and> key_map K t1 = map_op (key_map K t) x"
  proof (cases x)
    case (Insert k v)
    with map_insert [OF Cons.prems(1), of k v] Cons.prems(2) show ?thesis by auto
  next
    case (Delete k)
    with map_delete [OF Cons.prems(1), of k] Cons.prems(2) show ?thesis by auto
  qed
  then obtain t1 where "run_op t x = Inr t1" "key_table ty K t1"
    "key_map K t1 = map_op (key_map K t) x" by blast
  with Cons.IH [of t1] Cons.prems(2) show ?case by auto
qed

lemma map_card:
  assumes "key_table ty K t"
  shows "num_entries t = int (card (dom (key_map K t)))"
proof -
  from assms have t: "st_wf K t" "type_of t = ty" "st_unique t" by (simp_all add: key_table_def)
  let ?es = "concat (bins t)"
  have keys: "\<And>e. e \<in> set ?es \<Longrightarrow> K (fst e)"
    using wf_keys [OF t(1)] by (simp only: list_all_iff)
  have "sorted_wrt (\<lambda>e e'. fst e \<noteq> fst e') ?es"
    using t(3) keys by (auto simp: st_unique_def t(2) matches_def equal_iff intro: sorted_wrt_mono_rel [rotated])
  then have "distinct (map fst ?es)"
    by (simp add: distinct_map sorted_wrt_map distinct_conv_nth sorted_wrt_iff_nth_less) (metis linorder_neqE_nat)
  moreover have "dom (key_map K t) = fst ` set ?es"
  proof (rule set_eqI)
    fix x
    have "x \<in> dom (key_map K t) \<longleftrightarrow> K x \<and> (\<exists>e\<in>set ?es. EQUAL ty x (fst e))"
      by (simp add: key_map_def dom_def st_assoc_def t(2) first_record_filter matches_def)
    also have "\<dots> \<longleftrightarrow> x \<in> fst ` set ?es"
      unfolding image_iff using keys equal_refl equal_identity by blast
    finally show "x \<in> dom (key_map K t) \<longleftrightarrow> x \<in> fst ` set ?es" .
  qed
  ultimately show ?thesis
    using t(1) distinct_card [of "map fst ?es"] by (simp add: st_wf_def)
qed

lemma map_empty: "key_table ty K (st_init_table_with_size ty n)"
  by (simp add: key_table_def st_init_table_with_size_def Let_def empty_table_ok)

lemma map_empty_map: "key_map K (st_init_table_with_size ty n) = Map.empty"
  by (simp add: key_map_def fun_eq_iff st_init_table_with_size_def Let_def empty_table_ok)

end

section \<open>Number and string tables\<close>

text \<open>
  \<^verbatim>\<open>numhash\<close> is \<^verbatim>\<open>n % modulus\<close> on a signed \<^verbatim>\<open>int\<close>, so the contract holds for the keys
  that are non-negative as an \<^verbatim>\<open>int\<close> (IDs and object addresses below 2 GB). \<^verbatim>\<open>strhash\<close>
  negates a negative sum, which has no effect on the most negative \<^verbatim>\<open>int\<close>; the contract
  holds for every string that does not sum to it.
\<close>

definition num_key :: "u32 \<Rightarrow> bool" where
  "num_key n \<longleftrightarrow> 0 \<le> sint n"

definition str_key :: "u8 list \<Rightarrow> bool" where
  "str_key s \<longleftrightarrow> strhash_loop s 0 \<noteq> 0x80000000"

lemma smod_nonneg: "0 \<le> (a::int) \<Longrightarrow> 0 < b \<Longrightarrow> a smod b = a mod b"
  by (cases "a = 0") (auto simp: signed_modulo_int_def)

lemma smod_in_range_iff:
  assumes "0 < (m::int)" shows "0 \<le> a smod m \<and> a smod m < m \<longleftrightarrow> 0 \<le> a \<or> m dvd a"
proof (cases "0 \<le> a")
  case True
  then show ?thesis using assms by (simp add: smod_nonneg)
next
  case False
  then have "a smod m = - (- a mod m)" using assms by (simp add: signed_modulo_int_def)
  moreover have "0 \<le> - a mod m" "- a mod m < m" using assms by simp_all
  moreover have "- a mod m = 0 \<longleftrightarrow> m dvd a" by (simp add: mod_eq_0_iff_dvd)
  ultimately show ?thesis using False assms by linarith
qed

lemma strcmp_eq_0 [simp]: "strcmp a b = 0 \<longleftrightarrow> a = b"
  by (induction a b rule: strcmp.induct) auto

lemma sint_abs_nonneg: "(w :: u32) \<noteq> 0x80000000 \<Longrightarrow> 0 \<le> sint (if sint w < 0 then - w else w)"
  by (auto simp: sint_eq_uint_if uint_word_ariths zmod_zminus1_eq_if word_uint_eq_iff)

interpretation num: identity_hash_type type_numhash num_key
  by unfold_locales
    (auto simp: EQUAL_def type_numhash_def numcmp_def numhash_def num_key_def smod_nonneg
      split: if_splits)

interpretation str: identity_hash_type type_strhash str_key
  by unfold_locales
    (auto simp: EQUAL_def type_strhash_def strhash_def str_key_def smod_nonneg sint_abs_nonneg Let_def
      split: if_splits)

abbreviation num_table :: "(u32, 'v) st_table \<Rightarrow> bool" where
  "num_table \<equiv> key_table type_numhash num_key"

abbreviation num_map :: "(u32, 'v) st_table \<Rightarrow> u32 \<rightharpoonup> 'v" where
  "num_map \<equiv> key_map num_key"

abbreviation str_table :: "(u8 list, 'v) st_table \<Rightarrow> bool" where
  "str_table \<equiv> key_table type_strhash str_key"

abbreviation str_map :: "(u8 list, 'v) st_table \<Rightarrow> u8 list \<rightharpoonup> 'v" where
  "str_map \<equiv> key_map str_key"

lemma num_table_init [simp]: "num_table st_init_numtable" "num_map st_init_numtable = Map.empty"
  by (simp_all add: st_init_numtable_def st_init_table_def num.map_empty num.map_empty_map)

lemma str_table_init [simp]: "str_table st_init_strtable" "str_map st_init_strtable = Map.empty"
  by (simp_all add: st_init_strtable_def st_init_table_def str.map_empty str.map_empty_map)

text \<open>A number table whose bin 5 chains the colliding keys 16 and 5.\<close>

definition two_cells :: "(u32, u32) st_table" where
  "two_cells =
     \<lparr>type_of = type_numhash, num_bins = 11, num_entries = 2,
      bins = [[], [], [], [], [], [(16, 160), (5, 50)], [], [], [], [], []]\<rparr>"

lemma num_table_two_cells: "num_table two_cells"
  by (simp add: two_cells_def key_table_def st_wf_def st_unique_def matches_def All_less_Suc num_key_def
    do_hash_def type_numhash_def numhash_def smod_nonneg EQUAL_def numcmp_def)
lemma numtable_negative_key:
  "st_lookup (st_init_numtable :: (u32, 'v) st_table) n = Inl OutOfBounds
     \<longleftrightarrow> sint n < 0 \<and> \<not> 11 dvd sint n"
proof -
  let ?t = "st_init_numtable :: (u32, 'v) st_table"
  have "in_block (bins ?t) (do_hash n ?t) \<longleftrightarrow> 0 \<le> sint n \<or> 11 dvd sint n"
    using smod_in_range_iff [of 11 "sint n"]
    by (simp add: st_init_numtable_def st_init_table_def st_init_table_with_size_def
        do_hash_def type_numhash_def numhash_def in_block_def)
  then show ?thesis
    by (cases "in_block (bins ?t) (do_hash n ?t)") (auto simp: st_lookup_def split: list.splits)
qed
lemma strtable_min_int_key:
  "st_lookup (st_init_strtable :: (u8 list, 'v) st_table) [101, 51, 52, 97, 106, 111, 110] = Inl OutOfBounds"
  by (simp add: st_lookup_def st_init_strtable_def st_init_table_def st_init_table_with_size_def do_hash_def type_strhash_def strhash_def
   in_block_def signed_modulo_int_def)
section \<open>Properties\<close>

text \<open>
  C9: whatever insertions and deletions a client makes on a number table with keys that are not negative as
  \<^verbatim>\<open>int\<close> (\<open>num_key\<close>; a negative key can leave the bins, see \<open>st_lookup_out_of_bins\<close>), with rehashing
  whenever the density passes the limit, no access leaves the bins, the table stands for the
  map those operations build, \<^verbatim>\<open>num_entries\<close> is the number of keys, and a lookup of any such
  key returns exactly what the map has.
\<close>

theorem num_table_implements_map:
  assumes "num_table t" and "list_all (\<lambda>x. num_key (op_key x)) xs"
  shows "\<exists>t'. run_ops t xs = Inr t' \<and> num_table t'
    \<and> num_map t' = foldl map_op (num_map t) xs
    \<and> num_entries t' = int (card (dom (num_map t')))
    \<and> (\<forall>k. num_key k \<longrightarrow> st_lookup t' k = Inr (foldl map_op (num_map t) xs k))"
proof -
  from num.map_run_ops [OF assms] obtain t' where
    t': "run_ops t xs = Inr t'" "num_table t'" "num_map t' = foldl map_op (num_map t) xs" by blast
  with num.map_card [OF t'(2)] num.map_lookup [OF t'(2)] show ?thesis by auto
qed

theorem num_table_implements_map_witness:
  "\<exists>t'. run_ops st_init_numtable [Insert 5 True, Insert 16 False, Delete 5] = Inr t'
    \<and> num_map t' = [16 \<mapsto> False]
    \<and> st_lookup t' 16 = Inr (Some False) \<and> st_lookup t' 5 = Inr None"
proof -
  have "list_all (\<lambda>x. num_key (op_key x)) [Insert 5 True, Insert 16 False, Delete 5]"
    by (simp add: num_key_def)
  from num_table_implements_map [OF num_table_init(1) this] obtain t' where
    t': "run_ops st_init_numtable [Insert 5 True, Insert 16 False, Delete 5] = Inr t'"
      "num_map t' = [16 \<mapsto> False]"
      "\<forall>k. num_key k \<longrightarrow> st_lookup t' k = Inr ([16 \<mapsto> False] k)"
    by (auto simp: fun_upd_def fun_eq_iff)
  moreover have "num_key 16" "num_key 5" by (simp_all add: num_key_def)
  ultimately show ?thesis by auto
qed

text \<open>
  On a string table (the symbol and class name tables), \<^verbatim>\<open>st_insert\<close> reports whether
  the key was present and stores the record, \<^verbatim>\<open>st_delete\<close> reports whether it removed
  anything, hands out the removed record, and leaves every other key alone.
\<close>

theorem str_table_insert_delete:
  assumes "str_table t" and "str_key k"
  shows "(\<exists>t'. st_insert t k v = Inr (t', k \<in> dom (str_map t)) \<and> str_table t'
            \<and> str_map t' = (str_map t)(k \<mapsto> v) \<and> st_lookup t' k = Inr (Some v))
       \<and> (\<exists>t' out. st_delete t k = Inr (t', k \<in> dom (str_map t), k, out) \<and> str_table t'
            \<and> str_map t' = (str_map t)(k := None) \<and> st_lookup t' k = Inr None
            \<and> (\<forall>v. str_map t k = Some v \<longrightarrow> out = Out v))"
proof
  from str.map_insert [OF assms, of v] str.map_lookup [OF _ assms(2)]
  show "\<exists>t'. st_insert t k v = Inr (t', k \<in> dom (str_map t)) \<and> str_table t'
            \<and> str_map t' = (str_map t)(k \<mapsto> v) \<and> st_lookup t' k = Inr (Some v)"
    by fastforce
  from str.map_delete [OF assms] str.map_lookup [OF _ assms(2)]
  show "\<exists>t' out. st_delete t k = Inr (t', k \<in> dom (str_map t), k, out) \<and> str_table t'
            \<and> str_map t' = (str_map t)(k := None) \<and> st_lookup t' k = Inr None
            \<and> (\<forall>v. str_map t k = Some v \<longrightarrow> out = Out v)"
    by fastforce
qed

theorem str_table_insert_delete_witness:
  "\<exists>t'. st_insert st_init_strtable [102, 111, 111] True = Inr (t', False)
      \<and> st_lookup t' [102, 111, 111] = Inr (Some True)"
proof -
  have "str_key [102, 111, 111]" by (simp add: str_key_def)
  from str_table_insert_delete [OF str_table_init(1) this, of True] show ?thesis by auto
qed

text \<open>
  \<^verbatim>\<open>st_copy\<close> reverses every chain and still stores the same map, so the copy answers
  every lookup like the original.
\<close>

theorem st_copy_same_map:
  assumes "num_table t"
  shows "num_table (st_copy t) \<and> num_map (st_copy t) = num_map t
    \<and> (\<forall>k. num_key k \<longrightarrow> st_lookup (st_copy t) k = st_lookup t k)"
proof -
  have "num_table (st_copy t)" "num_map (st_copy t) = num_map t"
    using num.copy_refines [of t] assms by (auto simp: key_table_def key_map_def fun_eq_iff)
  then show ?thesis using num.map_lookup assms by metis
qed

theorem st_copy_same_map_witness:
  "st_lookup (st_copy two_cells) 5 = Inr (Some 50)"
proof -
  have "num_key 5" by (simp add: num_key_def)
  moreover have "st_lookup two_cells 5 = Inr (Some 50)"
    by (simp add: two_cells_def st_lookup_def do_hash_def type_numhash_def numhash_def EQUAL_def
        numcmp_def in_block_def smod_nonneg)
  ultimately show ?thesis using st_copy_same_map [OF num_table_two_cells] by simp
qed

text \<open>
  \<^verbatim>\<open>st_foreach\<close> with any callback (stopping, deleting, carrying state) leaves a well
  formed table whose entries are some of the old ones, and its \<^verbatim>\<open>num_entries\<close> is right.
\<close>

theorem st_foreach_invariant:
  assumes "st_wf K t" and "st_unique t" and "st_foreach t func arg = (t', arg')"
  shows "st_wf K t' \<and> st_unique t' \<and> set (concat (bins t')) \<subseteq> set (concat (bins t))
    \<and> num_entries t' = int (length (concat (bins t')))"
  using st_foreach_wf [OF assms(1,3)] st_foreach_unique [OF assms(2,3)]
    st_foreach_subset [OF assms(3)] by (simp add: st_wf_def)

theorem st_foreach_invariant_witness:
  "\<exists>t' n. st_foreach two_cells (\<lambda>k v n. (if k = 16 then ST_DELETE else ST_STOP, Suc n)) 0 = (t', n)
     \<and> n = 2 \<and> num_entries t' = 1 \<and> st_wf num_key t'"
proof -
  let ?f = "\<lambda>k v n. (if k = (16 :: u32) then ST_DELETE else ST_STOP, Suc n)"
  obtain t' n where f: "st_foreach two_cells ?f 0 = (t', n)" by fastforce
  have t: "st_wf num_key two_cells" "st_unique two_cells"
    using num_table_two_cells by (simp_all add: key_table_def)
  from f have "n = 2" "num_entries t' = 1" by (auto simp: st_foreach_def two_cells_def)
  with f st_foreach_invariant [OF t f] show ?thesis by blast
qed

text \<open>
  C18: where the built-in hash functions leave the bins. A lookup of a negative number key in
  a fresh number table reads outside \<^verbatim>\<open>bins\<close> unless the key is a multiple of the 11 bins,
  and so does the lookup of the string \<^verbatim>\<open>e34ajon\<close>, whose hash sum is the most negative
  \<^verbatim>\<open>int\<close>, in a fresh string table.
\<close>

theorem st_lookup_out_of_bins:
  "(st_lookup (st_init_numtable :: (u32, 'v) st_table) n = Inl OutOfBounds
      \<longleftrightarrow> sint n < 0 \<and> \<not> 11 dvd sint n)
   \<and> st_lookup (st_init_strtable :: (u8 list, 'v) st_table) [101, 51, 52, 97, 106, 111, 110]
       = Inl OutOfBounds"
  using numtable_negative_key strtable_min_int_key by blast

text \<open>
  \<^verbatim>\<open>st_delete_safe\<close> on a chain where the key is not in the first cell: it overwrites
  the cell before it, reports that cell's key and record as the deleted ones, and the key
  that was to be deleted is still found while its neighbour is lost.
\<close>

theorem st_delete_safe_marks_predecessor:
  "num_table two_cells \<and>
   (\<exists>t'. st_delete_safe two_cells 5 0 = Inr (t', True, 16, Out 160)
       \<and> st_lookup t' 5 = Inr (Some 50) \<and> st_lookup t' 16 = Inr None)"
  using num_table_two_cells
  by (simp add: two_cells_def st_delete_safe_def st_lookup_def do_hash_def type_numhash_def
      numhash_def EQUAL_def numcmp_def in_block_def smod_nonneg Let_def)

end
