(* ===== verification/BigBase.thy ===== *)
theory BigBase
  imports Prelude
begin

text \<open>
  Integers of the interpreter: tagged Fixnums (the macros of \<^verbatim>\<open>src/ruby.h\<close>) and Bignums
  (\<^verbatim>\<open>struct RBignum\<close>; \<^verbatim>\<open>src/bignum.c\<close>), with the conversions and the normalisation that
  every Bignum operation ends with. A Bignum keeps its sign, the number of digits in use and
  the allocated block of 16-bit digits, least significant first.
\<close>

section \<open>Fixnums\<close>

definition INT2FIX :: "u32 \<Rightarrow> u32" where
  "INT2FIX i = push_bit 1 i OR 1"

definition FIX2INT :: "u32 \<Rightarrow> u32" where
  "FIX2INT x = signed_drop_bit 1 x"

definition FIX2UINT :: "u32 \<Rightarrow> u32" where
  "FIX2UINT f = drop_bit 1 f"

definition FIXNUM_P :: "u32 \<Rightarrow> bool" where
  "FIXNUM_P f \<longleftrightarrow> f AND 1 \<noteq> 0"

definition FIXNUM_MAX :: int where
  "FIXNUM_MAX = (2 ^ 31 - 1) div 2"

definition FIXNUM_MIN :: int where
  "FIXNUM_MIN = - (2 ^ 31) div 2"

definition POSFIXABLE :: "int \<Rightarrow> bool" where
  "POSFIXABLE f \<longleftrightarrow> f \<le> FIXNUM_MAX"

definition NEGFIXABLE :: "int \<Rightarrow> bool" where
  "NEGFIXABLE f \<longleftrightarrow> f \<ge> FIXNUM_MIN"

definition FIXABLE :: "int \<Rightarrow> bool" where
  "FIXABLE f \<longleftrightarrow> POSFIXABLE f \<and> NEGFIXABLE f"

section \<open>Bignums\<close>

record rbignum =
  bsign :: bool
  blen :: nat
  bdigits :: "u16 list"

text \<open>
  The \<^verbatim>\<open>VALUE\<close> of an integer: a tagged word or a reference to a Bignum.
\<close>

datatype inum = Fix u32 | Big rbignum

text \<open>
  \<^verbatim>\<open>BIGLO\<close> is always stored into a \<^verbatim>\<open>USHORT\<close>; \<^verbatim>\<open>BIGDN\<close> shifts a \<^verbatim>\<open>long\<close> arithmetically
  and an \<^verbatim>\<open>unsigned long\<close> logically.
\<close>

definition BIGLO :: "u32 \<Rightarrow> u16" where
  "BIGLO x = ucast (x AND 0xFFFF)"

definition BIGUP :: "u32 \<Rightarrow> u32" where
  "BIGUP x = push_bit 16 x"

definition BIGDN :: "u32 \<Rightarrow> u32" where
  "BIGDN x = drop_bit 16 x"

definition SBIGDN :: "u32 \<Rightarrow> u32" where
  "SBIGDN x = signed_drop_bit 16 x"

text \<open>The digits in use.\<close>

definition bds :: "rbignum \<Rightarrow> u16 list" where
  "bds x = take (blen x) (bdigits x)"

text \<open>A fresh Bignum whose whole block is in use.\<close>

definition bignew :: "u16 list \<Rightarrow> bool \<Rightarrow> rbignum" where
  "bignew ds s = \<lparr>bsign = s, blen = length ds, bdigits = ds\<rparr>"

definition big_clone :: "rbignum \<Rightarrow> rbignum" where
  "big_clone x = bignew (bds x) (bsign x)"

section \<open>Normalisation\<close>

text \<open>\<^verbatim>\<open>while (len-- && !ds[len]) ; ++len\<close>\<close>

fun trim_len :: "u16 list \<Rightarrow> nat \<Rightarrow> nat" where
  "trim_len ds 0 = 0"
| "trim_len ds (Suc len) = (if ds ! len = 0 then trim_len ds len else Suc len)"

text \<open>\<^verbatim>\<open>while (len--) num = BIGUP(num) + ds[len]\<close>\<close>

fun gather :: "u16 list \<Rightarrow> nat \<Rightarrow> u32 \<Rightarrow> u32" where
  "gather ds 0 num = num"
| "gather ds (Suc len) num = gather ds len (BIGUP num + ucast (ds ! len))"

definition bignorm :: "rbignum \<Rightarrow> inum" where
  "bignorm x =
     (let ds = bdigits x;
          l = trim_len ds (blen x);
          x = x\<lparr>blen := l\<rparr>
      in if l * 2 < 4 \<or> (l * 2 = 4 \<and> ds ! 1 \<le> 0x3fff) then
           let num = gather ds l 0
           in if bsign x then (if POSFIXABLE (sint num) then Fix (INT2FIX num) else Big x)
              else if NEGFIXABLE (sint (- num)) then Fix (INT2FIX (- num))
              else Big x
         else Big x)"

definition big_norm :: "rbignum \<Rightarrow> inum" where
  "big_norm x = bignorm x"

definition big_to_i :: "rbignum \<Rightarrow> inum" where
  "big_to_i x = bignorm x"

section \<open>Conversions from and to machine integers\<close>

definition uint2big :: "u32 \<Rightarrow> rbignum" where
  "uint2big n =
     (let digits = [BIGLO n, BIGLO (BIGDN n)]
      in \<lparr>bsign = True, blen = trim_len digits 2, bdigits = digits\<rparr>)"

definition int2big :: "u32 \<Rightarrow> rbignum" where
  "int2big n =
     (let neg = sint n < 0;
          big = uint2big (if neg then - n else n)
      in if neg then big\<lparr>bsign := False\<rparr> else big)"

definition uint2inum :: "u32 \<Rightarrow> inum" where
  "uint2inum n = (if POSFIXABLE (uint n) then Fix (INT2FIX n) else Big (uint2big n))"

definition int2inum :: "u32 \<Rightarrow> inum" where
  "int2inum n = (if FIXABLE (sint n) then Fix (INT2FIX n) else Big (int2big n))"

definition big2int :: "rbignum \<Rightarrow> u32 result" where
  "big2int x =
     (if blen x > 2 then Inl (ArgError ''Bignum too big to convert into fixnum'')
      else let num = gather (bdigits x) (blen x) 0
           in Inr (if \<not> bsign x then - num else num))"

section \<open>Values\<close>

primrec ds_val :: "u16 list \<Rightarrow> int" where
  "ds_val [] = 0"
| "ds_val (d # ds) = uint d + 65536 * ds_val ds"

definition big_mag :: "rbignum \<Rightarrow> int" where
  "big_mag x = ds_val (bds x)"

definition big_val :: "rbignum \<Rightarrow> int" where
  "big_val x = (if bsign x then big_mag x else - big_mag x)"

fun inum_val :: "inum \<Rightarrow> int" where
  "inum_val (Fix f) = sint (FIX2INT f)"
| "inum_val (Big b) = big_val b"

text \<open>
  \<open>big_wf\<close>: the digits in use are allocated. \<open>big_normal\<close>: in addition the most significant
  digit is not zero, which \<^verbatim>\<open>bignorm\<close> and the conversions establish.
\<close>

definition big_wf :: "rbignum \<Rightarrow> bool" where
  "big_wf x \<longleftrightarrow> blen x \<le> length (bdigits x)"

definition big_normal :: "rbignum \<Rightarrow> bool" where
  "big_normal x \<longleftrightarrow> big_wf x \<and> (blen x = 0 \<or> bdigits x ! (blen x - 1) \<noteq> 0)"

fun inum_wf :: "inum \<Rightarrow> bool" where
  "inum_wf (Fix f) \<longleftrightarrow> odd f"
| "inum_wf (Big b) \<longleftrightarrow> big_normal b \<and> 2 \<le> blen b"

subsection \<open>Digit lists\<close>

lemma ds_val_append: "ds_val (xs @ ys) = ds_val xs + 65536 ^ length xs * ds_val ys"
  by (induction xs) (auto simp: algebra_simps)

lemma ds_val_nonneg: "0 \<le> ds_val ds"
  by (induction ds) auto

lemma ds_val_less: "ds_val ds < 65536 ^ length ds"
proof (induction ds)
  case Nil
  then show ?case by simp
next
  case (Cons d ds)
  then have "65536 * ds_val ds + 65536 \<le> 65536 * 65536 ^ length ds" by linarith
  then show ?case using uint_16_bounds(2) [of d] by simp
qed

lemma ds_val_replicate_0 [simp]: "ds_val (replicate n 0) = 0"
  by (induction n) auto

lemma ds_val_take_Suc:
  "n < length ds \<Longrightarrow> ds_val (take (Suc n) ds) = ds_val (take n ds) + 65536 ^ n * uint (ds ! n)"
  by (simp add: take_Suc_conv_app_nth ds_val_append)

lemma ds_val_trim [simp]: "n \<le> length ds \<Longrightarrow> ds_val (take (trim_len ds n) ds) = ds_val (take n ds)"
  by (induction n) (auto simp: ds_val_take_Suc)

lemma trim_len_le [simp]: "trim_len ds n \<le> n"
  by (induction n) auto

lemma trim_len_top: "trim_len ds n \<noteq> 0 \<Longrightarrow> ds ! (trim_len ds n - 1) \<noteq> 0"
  by (induction n) auto

lemma ds_val_top:
  assumes "n < length ds" "ds ! n \<noteq> 0"
  shows "65536 ^ n \<le> ds_val (take (Suc n) ds)"
proof -
  have "uint (ds ! n) \<noteq> 0" using assms(2) by (simp add: word_uint_eq_iff)
  then have "1 \<le> uint (ds ! n)" using uint_16_bounds(1) [of "ds ! n"] by linarith
  then have "65536 ^ n * 1 \<le> 65536 ^ n * uint (ds ! n)" by (rule mult_left_mono) simp
  then show ?thesis using assms(1) ds_val_nonneg [of "take n ds"]
    by (simp only: ds_val_take_Suc)
qed


subsection \<open>Splitting machine words into digits\<close>

lemma uint_BIGLO: "uint (BIGLO x) = uint x mod 65536"
proof -
  have "uint (x AND 0xFFFF) = uint x mod 65536"
    using take_bit_eq_mask [of 16 "uint x"]
    by (simp add: unsigned_and_eq mask_eq_exp_minus_1 take_bit_eq_mod)
  then show ?thesis by (simp add: BIGLO_def uint_ucast_32_16)
qed

lemma uint_BIGDN: "uint (BIGDN x) = uint x div 65536"
  by (simp add: BIGDN_def uint_drop_16)

lemma sint_BIGLO: "uint (BIGLO x) = sint x mod 65536"
  by (simp add: uint_BIGLO sint_mod_uint)

lemma sint_SBIGDN: "sint (SBIGDN x) = sint x div 65536"
  by (simp add: SBIGDN_def sint_signed_drop)

lemma uint_BIGUP: "uint x < 65536 \<Longrightarrow> uint (BIGUP x) = 65536 * uint x"
  by (simp add: BIGUP_def push_bit_eq_mult uint_mult_u32 mult.commute)

lemma gather_val:
  assumes "(uint num + 1) * 65536 ^ n \<le> 2 ^ 32" "n \<le> length ds"
  shows "uint (gather ds n num) = uint num * 65536 ^ n + ds_val (take n ds)"
  using assms
proof (induction n arbitrary: num)
  case 0
  then show ?case by simp
next
  case (Suc n)
  let ?d = "ds ! n"
  have p: "(1::int) \<le> 65536 ^ n" by simp
  have "(uint num + 1) * 65536 * 1 \<le> (uint num + 1) * 65536 * 65536 ^ n"
    using p by (intro mult_left_mono) auto
  also have "\<dots> \<le> 2 ^ 32" using Suc.prems(1) by (simp only: mult.assoc power_Suc)
  finally have small: "(uint num + 1) * 65536 \<le> 2 ^ 32" by simp
  note d = uint_16_bounds [of ?d]
  have up: "uint (BIGUP num) = 65536 * uint num"
    using small by (intro uint_BIGUP) simp
  have step: "uint (BIGUP num + ucast ?d) = 65536 * uint num + uint ?d"
    using small d by (subst uint_add_u32) (simp_all add: up uint_ucast_16_32)
  have "(65536 * uint num + uint ?d + 1) * 65536 ^ n \<le> (65536 * (uint num + 1)) * 65536 ^ n"
    using d by (intro mult_right_mono) auto
  also have "\<dots> \<le> 2 ^ 32" using Suc.prems(1) by (simp only: power_Suc mult.assoc mult.left_commute)
  finally have "(uint (BIGUP num + ucast ?d) + 1) * 65536 ^ n \<le> 2 ^ 32"
    unfolding step .
  with Suc.IH Suc.prems(2) show ?case
    by (simp add: step ds_val_take_Suc algebra_simps)
qed

lemma gather_two: "n \<le> 2 \<Longrightarrow> n \<le> length ds \<Longrightarrow> uint (gather ds n 0) = ds_val (take n ds)"
proof -
  assume n: "n \<le> 2" "n \<le> length ds"
  have "(65536::int) ^ n \<le> 65536 ^ 2" using n(1) by (intro power_increasing) auto
  then show ?thesis using gather_val [of 0 n ds] n(2) by simp
qed

subsection \<open>Fixnum tags\<close>

lemma INT2FIX_alt: "INT2FIX i = 2 * i + 1"
  by (simp add: INT2FIX_def or_one_eq push_bit_eq_mult mult.commute)

lemma sint_FIX2INT: "sint (FIX2INT x) = sint x div 2"
  by (simp add: FIX2INT_def sint_signed_drop)

lemma sint_FIX2INT_INT2FIX: "sint (FIX2INT (INT2FIX i)) = signed_take_bit 30 (sint i)"
proof -
  have "INT2FIX i = word_of_int (2 * sint i + 1)" by (simp add: INT2FIX_alt)
  then have "sint (INT2FIX i) = signed_take_bit 31 (2 * sint i + 1)"
    by (simp only: sint_sbintrunc') simp
  also have "\<dots> = 1 + 2 * signed_take_bit 30 (sint i)"
    using signed_take_bit_Suc [of 30 "2 * sint i + 1"] by (simp add: mod_2_eq_odd)
  finally show ?thesis by (simp add: sint_FIX2INT)
qed

lemma FIXABLE_iff: "FIXABLE f \<longleftrightarrow> - (2 ^ 30) \<le> f \<and> f < 2 ^ 30"
  by (auto simp: FIXABLE_def POSFIXABLE_def NEGFIXABLE_def FIXNUM_MAX_def FIXNUM_MIN_def)

lemma INT2FIX_val: "FIXABLE (sint i) \<Longrightarrow> sint (FIX2INT (INT2FIX i)) = sint i"
  by (simp add: sint_FIX2INT_INT2FIX FIXABLE_iff signed_take_bit_int_eq_self)

lemma odd_INT2FIX [simp]: "odd (INT2FIX i)"
  by (simp add: INT2FIX_def even_or_iff)

lemma FIXNUM_P_INT2FIX: "FIXNUM_P (INT2FIX i)"
  by (simp add: FIXNUM_P_def and_one_eq mod_2_eq_odd)

lemma odd_sint: "odd (sint (w :: u32)) \<longleftrightarrow> odd w"
  using bit_sint_iff [of w 0] by (simp add: bit_0)

lemma INT2FIX_FIX2INT: "odd f \<Longrightarrow> INT2FIX (FIX2INT f) = f"
proof -
  assume "odd f"
  then have "2 * (sint f div 2) + 1 = sint f" using odd_sint [of f] by presburger
  then have "2 * sint (FIX2INT f) + 1 = sint f" by (simp only: sint_FIX2INT)
  moreover have "INT2FIX (FIX2INT f) = of_int (2 * sint (FIX2INT f) + 1)" by (simp add: INT2FIX_alt)
  ultimately show ?thesis by simp
qed

lemma FIX2INT_bounds: "FIXABLE (sint (FIX2INT f))"
proof -
  show ?thesis using sint_32_bounds [of f] by (simp add: FIXABLE_iff sint_FIX2INT) linarith
qed

subsection \<open>Normalisation and conversions\<close>

lemma big_val_bignew [simp]: "big_val (bignew ds s) = (if s then ds_val ds else - ds_val ds)"
  by (simp add: big_val_def big_mag_def bds_def bignew_def)

lemma big_mag_bignew [simp]: "big_mag (bignew ds s) = ds_val ds"
  by (simp add: big_mag_def bds_def bignew_def)

lemma big_wf_bignew [simp]: "big_wf (bignew ds s)"
  by (simp add: big_wf_def bignew_def)

lemma bds_bignew [simp]: "bds (bignew ds s) = ds"
  by (simp add: bds_def bignew_def)

lemma bignew_sel [simp]: "bsign (bignew ds s) = s" "blen (bignew ds s) = length ds"
    "bdigits (bignew ds s) = ds"
  by (simp_all add: bignew_def)

lemma big_clone [simp]: "big_val (big_clone x) = big_val x" "bds (big_clone x) = bds x"
  by (simp_all add: big_clone_def) (simp add: big_val_def big_mag_def)

lemma length_bds: "big_wf x \<Longrightarrow> length (bds x) = blen x"
  by (simp add: big_wf_def bds_def)

lemma big_mag_nonneg: "0 \<le> big_mag x"
  by (simp add: big_mag_def ds_val_nonneg)

text \<open>
  The Fixnum branch of \<^verbatim>\<open>bignorm\<close> is taken exactly for magnitudes below \<open>2 ^ 30\<close>.
\<close>

lemma trim_len_length: "big_wf x \<Longrightarrow> trim_len (bdigits x) (blen x) \<le> length (bdigits x)"
  unfolding big_wf_def by (rule le_trans [OF trim_len_le])

lemma take_two: "2 \<le> length ds \<Longrightarrow> take 2 ds = [ds ! 0, ds ! 1]"
  by (cases ds; cases "tl ds") auto

lemma small_iff:
  assumes "big_wf x" and l: "l = trim_len (bdigits x) (blen x)"
  shows "(l * 2 < 4 \<or> (l * 2 = 4 \<and> bdigits x ! 1 \<le> 0x3fff)) \<longleftrightarrow> big_mag x < 2 ^ 30"
proof -
  let ?ds = "bdigits x"
  have len: "l \<le> length ?ds" using trim_len_length [OF assms(1)] l by simp
  have mag: "big_mag x = ds_val (take l ?ds)"
    using assms by (simp add: big_mag_def bds_def big_wf_def)
  consider (small) "l < 2" | (two) "l = 2" | (large) "2 < l" by linarith
  then show ?thesis
  proof cases
    case small
    have "(65536::int) ^ l \<le> 65536 ^ 1" using small by (intro power_increasing) auto
    with small mag ds_val_less [of "take l ?ds"] len show ?thesis by simp
  next
    case two
    then have "take l ?ds = [?ds ! 0, ?ds ! 1]"
      using len take_two by simp
    then have "big_mag x = uint (?ds ! 0) + 65536 * uint (?ds ! 1)" by (simp add: mag)
    moreover have "?ds ! 1 \<le> 0x3fff \<longleftrightarrow> uint (?ds ! 1) \<le> 0x3fff" by (simp add: word_le_def)
    moreover have "uint (?ds ! 1) \<le> 0x3fff \<longleftrightarrow> uint (?ds ! 0) + 65536 * uint (?ds ! 1) < 1073741824"
      using uint_16_bounds [of "?ds ! 0"] by linarith
    ultimately show ?thesis using two by simp
  next
    case large
    then have "?ds ! (l - 1) \<noteq> 0" using trim_len_top l by fastforce
    then have "65536 ^ (l - 1) \<le> big_mag x"
      using ds_val_top [of "l - 1" ?ds] large len mag by simp
    moreover have "(65536::int) ^ 2 \<le> 65536 ^ (l - 1)" using large by (intro power_increasing) auto
    ultimately show ?thesis using large by simp
  qed
qed

lemma bignorm_cases:
  assumes "big_wf x"
  shows "if big_mag x < 2 ^ 30
    then \<exists>n. bignorm x = Fix (INT2FIX n) \<and> sint n = big_val x
    else bignorm x = Big (x\<lparr>blen := trim_len (bdigits x) (blen x)\<rparr>)"
proof -
  let ?l = "trim_len (bdigits x) (blen x)"
  let ?num = "gather (bdigits x) ?l 0"
  note small = small_iff [OF assms refl]
  show ?thesis
  proof (cases "big_mag x < 2 ^ 30")
    case True
    then have "?l \<le> 2" using small by auto
    then have "uint ?num = big_mag x"
      using assms gather_two [of ?l "bdigits x"] trim_len_length [OF assms]
      by (simp add: big_mag_def bds_def big_wf_def)
    then have num: "sint ?num = big_mag x" using True by (simp add: sint_eq_uint_if)
    moreover have "sint (0x80000000 :: u32) < 0" by simp
    ultimately have "?num \<noteq> 0x80000000" using big_mag_nonneg [of x] by (metis not_less)
    then have neg: "sint (- ?num) = - big_mag x" using num sint_minus_u32 by simp
    have "0 \<le> big_mag x" by (rule big_mag_nonneg)
    then show ?thesis
      using True small num neg
      by (auto simp: bignorm_def Let_def big_val_def POSFIXABLE_def NEGFIXABLE_def FIXNUM_MAX_def FIXNUM_MIN_def)
  next
    case False
    with small show ?thesis by (auto simp: bignorm_def Let_def)
  qed
qed

lemma big_val_trim: "big_wf x \<Longrightarrow> big_val (x\<lparr>blen := trim_len (bdigits x) (blen x)\<rparr>) = big_val x"
  by (simp add: big_val_def big_mag_def bds_def big_wf_def)

lemma abs_big_val: "\<bar>big_val x\<bar> = big_mag x"
  by (simp add: big_val_def big_mag_nonneg)

lemma bignorm_val: assumes "big_wf x" shows "inum_val (bignorm x) = big_val x"
proof (cases "big_mag x < 2 ^ 30")
  case True
  then obtain n where n: "bignorm x = Fix (INT2FIX n)" "sint n = big_val x"
    using bignorm_cases [OF assms] by auto
  then have "FIXABLE (sint n)" using True abs_big_val [of x] unfolding FIXABLE_iff by linarith
  with n show ?thesis by (simp add: INT2FIX_val)
next
  case False
  then show ?thesis using bignorm_cases [OF assms] by (simp add: big_val_trim [OF assms])
qed

lemma bignorm_wf: assumes "big_wf x" shows "inum_wf (bignorm x)"
proof (cases "big_mag x < 2 ^ 30")
  case True
  with bignorm_cases [OF assms] show ?thesis by auto
next
  case False
  then have "2 \<le> trim_len (bdigits x) (blen x)" using small_iff [OF assms refl] by auto
  then show ?thesis
    using trim_len_length [OF assms] False bignorm_cases [OF assms] trim_len_top [of "bdigits x" "blen x"]
    by (simp add: big_normal_def big_wf_def)
qed

text \<open>Every integer the interpreter normalises is a Fixnum exactly when it is in the open range.\<close>

lemma bignorm_fix_iff:
  "big_wf x \<Longrightarrow> (\<exists>f. bignorm x = Fix f) \<longleftrightarrow> \<bar>big_val x\<bar> < 2 ^ 30"
  using bignorm_cases [of x] by (auto simp: abs_big_val split: if_splits)

lemma uint2big_ok: "big_normal (uint2big n)" "big_val (uint2big n) = uint n" "bsign (uint2big n)"
proof -
  let ?ds = "[BIGLO n, BIGLO (BIGDN n)]"
  have "uint n div 65536 mod 65536 = uint n div 65536"
    using uint_32_less [of n] by (intro mod_pos_pos_trivial) (simp_all add: pos_imp_zdiv_nonneg_iff)
  then have "uint (BIGLO (BIGDN n)) = uint n div 65536" by (simp add: uint_BIGLO uint_BIGDN)
  then have v: "ds_val ?ds = uint n" by (simp add: uint_BIGLO)
  show "big_normal (uint2big n)"
    using trim_len_top [of ?ds 2] trim_len_le [of ?ds 2]
    by (auto simp only: big_normal_def big_wf_def uint2big_def Let_def rbignum.simps
        length_Cons list.size(3) numeral_2_eq_2)
  have "ds_val (take (trim_len ?ds 2) ?ds) = ds_val (take 2 ?ds)" by (rule ds_val_trim) simp
  then show "big_val (uint2big n) = uint n" using v
    by (simp only: big_val_def big_mag_def bds_def uint2big_def Let_def rbignum.simps if_True) simp
  show "bsign (uint2big n)" by (simp add: uint2big_def Let_def)
qed

lemma big_val_sign: "big_val (x\<lparr>bsign := s\<rparr>) = (if s then big_mag x else - big_mag x)"
  by (simp add: big_val_def big_mag_def bds_def)

lemma big_normal_sign [simp]: "big_normal (x\<lparr>bsign := s\<rparr>) \<longleftrightarrow> big_normal x"
  by (simp add: big_normal_def big_wf_def)

lemma int2big_ok: "big_normal (int2big n)" "big_val (int2big n) = sint n"
proof -
  show "big_normal (int2big n)" by (simp add: int2big_def Let_def uint2big_ok)
  have mag: "big_mag (uint2big m) = uint m" for m
    using uint2big_ok [of m] by (simp add: big_val_def)
  show "big_val (int2big n) = sint n"
  proof (cases "sint n < 0")
    case True
    then have "uint (- n) = - sint n"
      using uint_32_less [of n]
      by (auto simp: sint_eq_uint_if uint_word_ariths zmod_zminus1_eq_if split: if_splits)
    with True show ?thesis by (simp add: int2big_def Let_def big_val_sign mag)
  next
    case False
    then show ?thesis using uint2big_ok(2) [of n] uint_32_less [of n]
      by (auto simp: int2big_def Let_def sint_eq_uint_if split: if_splits)
  qed
qed

lemma big_normal_wf [simp]: "big_normal x \<Longrightarrow> big_wf x"
  by (simp add: big_normal_def)

lemma big_mag_less: "big_wf x \<Longrightarrow> big_mag x < 65536 ^ blen x"
  using ds_val_less [of "bds x"] by (simp add: length_bds big_mag_def)

lemma blen_ge_2:
  assumes "big_wf x" "65536 \<le> big_mag x"
  shows "2 \<le> blen x"
proof (rule ccontr)
  assume "\<not> 2 \<le> blen x"
  then have "(65536::int) ^ blen x \<le> 65536 ^ 1" by (intro power_increasing) auto
  with big_mag_less [OF assms(1)] assms(2) show False by simp
qed

lemma big_mag_uint2big: "big_mag (uint2big n) = uint n"
  using uint2big_ok [of n] by (simp add: big_val_def)

lemma uint2inum_ok: "inum_wf (uint2inum n)" "inum_val (uint2inum n) = uint n"
proof -
  have "2 \<le> blen (uint2big n)" if "2 ^ 30 \<le> uint n"
    using that by (intro blen_ge_2) (simp_all add: uint2big_ok(1) big_mag_uint2big)
  then show "inum_wf (uint2inum n)"
    by (auto simp: uint2inum_def POSFIXABLE_def FIXNUM_MAX_def uint2big_ok(1))
  show "inum_val (uint2inum n) = uint n"
  proof (cases "uint n < 2 ^ 30")
    case True
    then have n: "sint n = uint n" by (simp add: sint_eq_uint_if)
    have "0 \<le> uint n" by simp
    then have "FIXABLE (sint n)" unfolding n FIXABLE_iff using True by linarith
    with n True show ?thesis
      by (simp add: INT2FIX_val uint2inum_def POSFIXABLE_def FIXNUM_MAX_def)
  qed (simp add: uint2inum_def POSFIXABLE_def FIXNUM_MAX_def uint2big_ok)
qed

lemma int2inum_ok: "inum_wf (int2inum n)" "inum_val (int2inum n) = sint n"
proof -
  have "2 \<le> blen (int2big n)" if "\<not> FIXABLE (sint n)"
  proof (rule blen_ge_2)
    have "65536 \<le> \<bar>sint n\<bar>" using that by (auto simp: FIXABLE_iff)
    then show "65536 \<le> big_mag (int2big n)" by (simp add: abs_big_val [symmetric] int2big_ok)
  qed (simp add: int2big_ok)
  then show "inum_wf (int2inum n)" by (simp add: int2inum_def int2big_ok)
  show "inum_val (int2inum n) = sint n" by (simp add: int2inum_def INT2FIX_val int2big_ok)
qed

text \<open>\<^verbatim>\<open>big2int\<close> keeps the value modulo \<open>2 ^ 32\<close> and refuses more than two digits.\<close>

lemma big2int_ok:
  assumes "big_wf x"
  shows "big2int x = (if blen x \<le> 2 then Inr (word_of_int (big_val x))
                      else Inl (ArgError ''Bignum too big to convert into fixnum''))"
proof (cases "blen x \<le> 2")
  case True
  then have "uint (gather (bdigits x) (blen x) 0) = big_mag x"
    using assms gather_two [of "blen x" "bdigits x"] by (simp add: big_wf_def big_mag_def bds_def)
  then have "gather (bdigits x) (blen x) 0 = word_of_int (big_mag x)"
    by (metis word_of_int_uint)
  then show ?thesis using True by (simp add: big2int_def Let_def big_val_def)
qed (simp add: big2int_def)

end
