(* ===== verification/Values.thy ===== *)
theory Values
  imports BigBase
begin

text \<open>
  The values that numeric operations take and return, and the two things the numeric code
  uses and does not define: the arithmetic of C doubles (\<open>float_ops\<close>) and the method call of
  the interpreter (\<^verbatim>\<open>rb_funcall\<close> of \<^verbatim>\<open>src/eval.c\<close>, which also runs methods written in
  Ruby). Both are fields of a record that the operations take as their first argument.
\<close>

record 'd float_ops =
  f_of_int :: "int \<Rightarrow> 'd"
  f_to_long :: "'d \<Rightarrow> u32"
  f_neg :: "'d \<Rightarrow> 'd"
  f_add :: "'d \<Rightarrow> 'd \<Rightarrow> 'd"
  f_sub :: "'d \<Rightarrow> 'd \<Rightarrow> 'd"
  f_mul :: "'d \<Rightarrow> 'd \<Rightarrow> 'd"
  f_div :: "'d \<Rightarrow> 'd \<Rightarrow> 'd"
  f_pow :: "'d \<Rightarrow> 'd \<Rightarrow> 'd"
  f_fmod :: "'d \<Rightarrow> 'd \<Rightarrow> 'd"
  f_abs :: "'d \<Rightarrow> 'd"
  f_floor :: "'d \<Rightarrow> 'd"
  f_lt :: "'d \<Rightarrow> 'd \<Rightarrow> bool"
  f_le :: "'d \<Rightarrow> 'd \<Rightarrow> bool"
  f_eq :: "'d \<Rightarrow> 'd \<Rightarrow> bool"

text \<open>
  \<open>VObj\<close> is every object the numeric code does not look into; \<open>VPair\<close> is the two-element
  array that \<^verbatim>\<open>assoc_new\<close> builds.
\<close>

datatype ('d, 'o) rvalue =
    VNil
  | VTrue
  | VFalse
  | VInt inum
  | VFloat 'd
  | VPair "('d, 'o) rvalue" "('d, 'o) rvalue"
  | VObj 'o

definition RTEST :: "('d, 'o) rvalue \<Rightarrow> bool" where
  "RTEST v \<longleftrightarrow> v \<noteq> VNil \<and> v \<noteq> VFalse"

definition rbool :: "bool \<Rightarrow> ('d, 'o) rvalue" where
  "rbool b = (if b then VTrue else VFalse)"

text \<open>
  What the integers need of the interpreter: the floating-point operations, method calls, and the \<^verbatim>\<open>VALUE\<close> word of
  a value that is no Fixnum (for objects their address), which \<^verbatim>\<open>fix_aref\<close> takes for a Fixnum.
\<close>

record ('d, 'o) interp =
  flo :: "'d float_ops"
  rb_funcall :: "string \<Rightarrow> ('d, 'o) rvalue \<Rightarrow> ('d, 'o) rvalue list \<Rightarrow> ('d, 'o) rvalue result"
  word_of :: "('d, 'o) rvalue \<Rightarrow> u32"

abbreviation VFix :: "u32 \<Rightarrow> ('d, 'o) rvalue" where
  "VFix i \<equiv> VInt (Fix (INT2FIX i))"

lemma RTEST_rbool [simp]: "RTEST (rbool b) = b"
  by (simp add: RTEST_def rbool_def)

lemma rbool_simps [simp]: "rbool True = VTrue" "rbool False = VFalse"
  by (simp_all add: rbool_def)

section \<open>Coercion\<close>

text \<open>
  \<^verbatim>\<open>num_coerce_bin\<close> asks \<open>y\<close> to convert the pair and repeats the method that is running
  (\<^verbatim>\<open>rb_frame_last_func\<close>), whose name is the argument \<open>mid\<close>.
\<close>

definition num_coerce_bin ::
  "('d, 'o) interp \<Rightarrow> string \<Rightarrow> ('d, 'o) rvalue \<Rightarrow> ('d, 'o) rvalue \<Rightarrow> ('d, 'o) rvalue result" where
  "num_coerce_bin E mid x y =
     bindR (rb_funcall E ''coerce'' y [x]) (\<lambda>ary.
       case ary of
         VPair x' y' \<Rightarrow> rb_funcall E mid x' [y']
       | _ \<Rightarrow> Inl (TypeError ''coerce must return [x, y]''))"

definition num_zerodiv :: "'a result" where
  "num_zerodiv = Inl (ZeroDivisionError ''divided by 0'')"

end
