(* ===== verification/BigArith.thy ===== *)
theory BigArith
  imports Values
begin

text \<open>
  Comparison, negation, addition, subtraction and multiplication of Bignums
  (\<^verbatim>\<open>src/bignum.c\<close>). The loops over digits are recursions over the digit lists; the running
  \<^verbatim>\<open>num\<close> is a 32-bit word that \<^verbatim>\<open>BIGDN\<close> shifts arithmetically where the source declares
  it \<^verbatim>\<open>long\<close>.
\<close>

section \<open>Doubles\<close>

text \<open>\<^verbatim>\<open>while (i--) d = ds[i] + BIGRAD*d\<close>\<close>

fun dbl_loop :: "'d float_ops \<Rightarrow> u16 list \<Rightarrow> nat \<Rightarrow> 'd \<Rightarrow> 'd" where
  "dbl_loop F ds 0 d = d"
| "dbl_loop F ds (Suc i) d =
     dbl_loop F ds i (f_add F (f_of_int F (uint (ds ! i))) (f_mul F (f_of_int F 65536) d))"

definition big2dbl :: "'d float_ops \<Rightarrow> rbignum \<Rightarrow> 'd" where
  "big2dbl F x =
     (let d = dbl_loop F (bdigits x) (blen x) (f_of_int F 0)
      in if \<not> bsign x then f_neg F d else d)"

definition big_to_f :: "('d, 'o) interp \<Rightarrow> rbignum \<Rightarrow> ('d, 'o) rvalue" where
  "big_to_f E x = VFloat (big2dbl (flo E) x)"

text \<open>
  \<^verbatim>\<open>dbl2big\<close>: the first loop counts the digits and ends only when the quotient is below one;
  the second reads the digits from the top.
\<close>

partial_function (option) dbl_count :: "'d float_ops \<Rightarrow> 'd \<Rightarrow> nat \<Rightarrow> ('d \<times> nat) option" where
  "dbl_count F u i =
     (if f_to_long F u \<noteq> 0 then dbl_count F (f_div F u (f_of_int F 65536)) (i + 1)
      else Some (u, i))"

fun dbl_digits :: "'d float_ops \<Rightarrow> nat \<Rightarrow> 'd \<Rightarrow> u16 list \<Rightarrow> u16 list" where
  "dbl_digits F 0 u digits = digits"
| "dbl_digits F (Suc i) u digits =
     (let u = f_mul F u (f_of_int F 65536);
          c = f_to_long F u
      in dbl_digits F i (f_sub F u (f_of_int F (sint c))) (ucast c # digits))"

definition dbl2big :: "'d float_ops \<Rightarrow> 'd \<Rightarrow> inum result" where
  "dbl2big F d =
     (let u = (if f_lt F d (f_of_int F 0) then f_neg F d else d) in
      case dbl_count F u 0 of
        None \<Rightarrow> Inl Diverges
      | Some (u, i) \<Rightarrow>
          Inr (bignorm (bignew (dbl_digits F i u []) (\<not> f_lt F d (f_of_int F 0)))))"

section \<open>Comparison\<close>

text \<open>\<^verbatim>\<open>while (xlen-- && BDIGITS(x)[xlen]==BDIGITS(y)[xlen])\<close>: the index where the digits
  differ, or \<open>-1\<close>.\<close>

fun cmp_loop :: "u16 list \<Rightarrow> u16 list \<Rightarrow> nat \<Rightarrow> int" where
  "cmp_loop xs ys 0 = - 1"
| "cmp_loop xs ys (Suc n) = (if xs ! n = ys ! n then cmp_loop xs ys n else int n)"

definition big_cmp_big :: "rbignum \<Rightarrow> rbignum \<Rightarrow> int" where
  "big_cmp_big x y =
     (if bsign x \<and> \<not> bsign y then 1
      else if \<not> bsign x \<and> bsign y then - 1
      else if blen x < blen y then (if bsign x then - 1 else 1)
      else if blen x > blen y then (if bsign x then 1 else - 1)
      else let xlen = cmp_loop (bdigits x) (bdigits y) (blen x)
           in if xlen = - 1 then 0
              else if bdigits x ! nat xlen > bdigits y ! nat xlen
              then (if bsign x then 1 else - 1)
              else (if bsign x then - 1 else 1))"

definition big_cmp :: "('d, 'o) interp \<Rightarrow> rbignum \<Rightarrow> ('d, 'o) rvalue \<Rightarrow> ('d, 'o) rvalue result" where
  "big_cmp E x y =
     (case y of
        VInt (Fix f) \<Rightarrow> Inr (VFix (word_of_int (big_cmp_big x (int2big (FIX2INT f)))))
      | VInt (Big b) \<Rightarrow> Inr (VFix (word_of_int (big_cmp_big x b)))
      | _ \<Rightarrow> num_coerce_bin E ''<=>'' (VInt (Big x)) y)"

text \<open>The result of \<^verbatim>\<open>big_cmp\<close> is compared as a word with the tagged zero.\<close>

definition big_eq :: "('d, 'o) interp \<Rightarrow> rbignum \<Rightarrow> ('d, 'o) rvalue \<Rightarrow> ('d, 'o) rvalue result" where
  "big_eq E x y =
     bindR (big_cmp E x y) (\<lambda>c. Inr (case c of VInt (Fix f) \<Rightarrow> rbool (f = INT2FIX 0) | _ \<Rightarrow> VFalse))"

definition big_uminus :: "rbignum \<Rightarrow> inum" where
  "big_uminus x = bignorm ((big_clone x)\<lparr>bsign := \<not> bsign x\<rparr>)"

section \<open>Addition and subtraction\<close>

fun sub_loop :: "u16 list \<Rightarrow> u16 list \<Rightarrow> u32 \<Rightarrow> u16 list \<times> u32" where
  "sub_loop (x # xs) (y # ys) num =
     (let num = num + (ucast x - ucast y);
          (zs, r) = sub_loop xs ys (SBIGDN num)
      in (BIGLO num # zs, r))"
| "sub_loop xs ys num = ([], num)"

fun add_loop :: "u16 list \<Rightarrow> u16 list \<Rightarrow> u32 \<Rightarrow> u16 list \<times> u32" where
  "add_loop (x # xs) (y # ys) num =
     (let num = num + (ucast x + ucast y);
          (zs, r) = add_loop xs ys (SBIGDN num)
      in (BIGLO num # zs, r))"
| "add_loop xs ys num = ([], num)"

text \<open>
  The two loops that follow: \<^verbatim>\<open>while (num && i < len)\<close> propagates the carry or borrow,
  then the remaining digits are copied.
\<close>

fun carry_loop :: "u16 list \<Rightarrow> u32 \<Rightarrow> u16 list \<times> u32" where
  "carry_loop [] num = ([], num)"
| "carry_loop (d # ds) num =
     (if num = 0 then (d # ds, num)
      else let num = num + ucast d;
               (zs, r) = carry_loop ds (SBIGDN num)
           in (BIGLO num # zs, r))"

text \<open>Whether the swap in \<^verbatim>\<open>bigsub\<close> happens.\<close>

fun sub_swap :: "u16 list \<Rightarrow> u16 list \<Rightarrow> nat \<Rightarrow> bool" where
  "sub_swap xs ys 0 = False"
| "sub_swap xs ys (Suc i) =
     (if xs ! i > ys ! i then False
      else if xs ! i < ys ! i then True
      else sub_swap xs ys i)"

definition bigsub :: "rbignum \<Rightarrow> rbignum \<Rightarrow> inum" where
  "bigsub x y =
     (let swap = (if blen x < blen y then True
                  else if blen x = blen y then sub_swap (bdigits x) (bdigits y) (blen x)
                  else False);
          (x, y) = (if swap then (y, x) else (x, y));
          (lo, num) = sub_loop (bds x) (bds y) 0;
          (hi, _) = carry_loop (drop (blen y) (bds x)) num
      in bignorm (bignew (lo @ hi) (\<not> swap)))"

definition bigadd :: "rbignum \<Rightarrow> rbignum \<Rightarrow> bool \<Rightarrow> inum" where
  "bigadd x y s =
     (if bsign x = (bsign y \<noteq> s) then
        if bsign y = s then bigsub y x else bigsub x y
      else
        let zsign = (s = bsign y);
            (x, y) = (if blen x > blen y then (y, x) else (x, y));
            (lo, num) = add_loop (bds x) (bds y) 0;
            (hi, num) = carry_loop (drop (blen x) (bds y)) num
        in bignorm (bignew (lo @ hi @ [ucast num]) zsign))"

definition big_plus :: "('d, 'o) interp \<Rightarrow> rbignum \<Rightarrow> ('d, 'o) rvalue \<Rightarrow> ('d, 'o) rvalue result" where
  "big_plus E x y =
     (case y of
        VInt (Fix f) \<Rightarrow> Inr (VInt (bigadd x (int2big (FIX2INT f)) True))
      | VInt (Big b) \<Rightarrow> Inr (VInt (bigadd x b True))
      | VFloat d \<Rightarrow> Inr (VFloat (f_add (flo E) (big2dbl (flo E) x) d))
      | _ \<Rightarrow> num_coerce_bin E ''+'' (VInt (Big x)) y)"

definition big_minus :: "('d, 'o) interp \<Rightarrow> rbignum \<Rightarrow> ('d, 'o) rvalue \<Rightarrow> ('d, 'o) rvalue result" where
  "big_minus E x y =
     (case y of
        VInt (Fix f) \<Rightarrow> Inr (VInt (bigadd x (int2big (FIX2INT f)) False))
      | VInt (Big b) \<Rightarrow> Inr (VInt (bigadd x b False))
      | VFloat d \<Rightarrow> Inr (VFloat (f_sub (flo E) (big2dbl (flo E) x) d))
      | _ \<Rightarrow> num_coerce_bin E ''-'' (VInt (Big x)) y)"

section \<open>Multiplication\<close>

text \<open>
  One pass of the inner loop of \<^verbatim>\<open>big_mul\<close> over the digits of \<open>y\<close> and the digits of \<open>z\<close>
  from position \<open>i\<close> on. \<^verbatim>\<open>ee\<close> is an \<^verbatim>\<open>int\<close> and its sum with a digit is converted to
  \<^verbatim>\<open>unsigned long\<close>, which is addition of words.
\<close>

fun mul_row :: "u32 \<Rightarrow> u16 list \<Rightarrow> u16 list \<Rightarrow> u32 \<Rightarrow> u16 list" where
  "mul_row dd (y # ys) (z # zs) n =
     (let ee = n + dd * ucast y;
          n = ucast z + ee
      in (if ee \<noteq> 0 then BIGLO n else z) # mul_row dd ys zs (BIGDN n))"
| "mul_row dd [] (z # zs) n = (if n \<noteq> 0 then ucast n else z) # zs"
| "mul_row dd ys [] n = []"

fun mul_rows :: "u16 list \<Rightarrow> u16 list \<Rightarrow> u16 list \<Rightarrow> u16 list" where
  "mul_rows [] ys zs = zs"
| "mul_rows (x # xs) ys zs =
     (let zs' = (if x = 0 then zs else mul_row (ucast x) ys zs 0)
      in take 1 zs' @ mul_rows xs ys (drop 1 zs'))"

definition big_mul_big :: "rbignum \<Rightarrow> rbignum \<Rightarrow> inum" where
  "big_mul_big x y =
     bignorm (bignew (mul_rows (bds x) (bds y) (replicate (blen x + blen y + 1) 0))
       (bsign x = bsign y))"

definition int_or_big :: "inum \<Rightarrow> rbignum" where
  "int_or_big x = (case x of Fix f \<Rightarrow> int2big (FIX2INT f) | Big b \<Rightarrow> b)"

definition big_mul :: "('d, 'o) interp \<Rightarrow> inum \<Rightarrow> ('d, 'o) rvalue \<Rightarrow> ('d, 'o) rvalue result" where
  "big_mul E x y =
     (let x = int_or_big x in
      case y of
        VInt (Fix f) \<Rightarrow> Inr (VInt (big_mul_big x (int2big (FIX2INT f))))
      | VInt (Big b) \<Rightarrow> Inr (VInt (big_mul_big x b))
      | VFloat d \<Rightarrow> Inr (VFloat (f_mul (flo E) (big2dbl (flo E) x) d))
      | _ \<Rightarrow> num_coerce_bin E ''*'' (VInt (Big x)) y)"

section \<open>The remaining small operations\<close>

definition big_hash :: "rbignum \<Rightarrow> inum" where
  "big_hash x = Fix (INT2FIX (foldl (\<lambda>key d. key XOR ucast d) 0 (bds x)))"

definition big_abs :: "rbignum \<Rightarrow> inum" where
  "big_abs x = Big (if \<not> bsign x then (big_clone x)\<lparr>bsign := True\<rparr> else x)"

definition big_size :: "rbignum \<Rightarrow> inum" where
  "big_size x = Fix (INT2FIX (of_nat (blen x * 2)))"

definition big_coerce :: "rbignum \<Rightarrow> ('d, 'o) rvalue \<Rightarrow> ('d, 'o) rvalue result" where
  "big_coerce x y =
     (case y of
        VInt (Fix f) \<Rightarrow> Inr (VPair (VInt (Big (int2big (FIX2INT f)))) (VInt (Big x)))
      | _ \<Rightarrow> Inl (TypeError ''can't coerce %s to Bignum''))"

section \<open>Comparison\<close>

lemma top_digit_less:
  assumes "n < length xs" "n < length ys" "xs ! n < ys ! n"
  shows "ds_val (take (Suc n) xs) < ds_val (take (Suc n) ys)"
proof -
  have "65536 ^ n * (uint (xs ! n) + 1) \<le> 65536 ^ n * uint (ys ! n)"
    using assms(3) by (intro mult_left_mono) (simp_all add: word_less_def)
  moreover have "ds_val (take n xs) < 65536 ^ n"
    using ds_val_less [of "take n xs"] assms(1) by simp
  ultimately show ?thesis
    using assms ds_val_nonneg [of "take n ys"] by (simp add: ds_val_take_Suc algebra_simps)
qed

lemma sub_swap_iff:
  "n \<le> length xs \<Longrightarrow> n \<le> length ys \<Longrightarrow>
     sub_swap xs ys n \<longleftrightarrow> ds_val (take n xs) < ds_val (take n ys)"
proof (induction n)
  case (Suc n)
  consider "xs ! n < ys ! n" | "xs ! n = ys ! n" | "ys ! n < xs ! n" by (rule linorder_cases)
  then show ?case
    by cases (use Suc top_digit_less [of n xs ys] top_digit_less [of n ys xs] in
        \<open>auto simp: ds_val_take_Suc\<close>)
qed simp

lemma cmp_loop_sign:
  "n \<le> length xs \<Longrightarrow> n \<le> length ys \<Longrightarrow>
     (let k = cmp_loop xs ys n
      in if k = - 1 then ds_val (take n xs) = ds_val (take n ys)
         else if xs ! nat k > ys ! nat k then ds_val (take n xs) > ds_val (take n ys)
         else ds_val (take n xs) < ds_val (take n ys))"
proof (induction n)
  case (Suc n)
  consider "xs ! n < ys ! n" | "xs ! n = ys ! n" | "ys ! n < xs ! n" by (rule linorder_cases)
  then show ?case
    by cases (use Suc top_digit_less [of n xs ys] top_digit_less [of n ys xs] in
        \<open>auto simp: ds_val_take_Suc Let_def split: if_splits\<close>)
qed simp

lemma normal_mag_ge:
  assumes "big_normal x" "blen x \<noteq> 0"
  shows "65536 ^ (blen x - 1) \<le> big_mag x"
proof -
  have "blen x - 1 < length (bdigits x)" "bdigits x ! (blen x - 1) \<noteq> 0"
    using assms by (auto simp: big_normal_def big_wf_def)
  from ds_val_top [OF this] show ?thesis using assms(2) by (simp add: big_mag_def bds_def)
qed

lemma shorter_less:
  assumes "big_normal x" "big_normal y" "blen x < blen y"
  shows "big_mag x < big_mag y"
proof -
  have "big_mag x < 65536 ^ blen x" using assms(1) by (simp add: big_mag_less)
  also have "\<dots> \<le> 65536 ^ (blen y - 1)" using assms(3) by (intro power_increasing) auto
  also have "\<dots> \<le> big_mag y" using assms(2,3) by (intro normal_mag_ge) auto
  finally show ?thesis .
qed

text \<open>A normal Bignum with a negative sign has a negative value, unless it has no digit.\<close>

lemma big_val_neg_iff:
  assumes "big_normal x" "blen x \<noteq> 0"
  shows "0 < big_mag x"
proof -
  have "(0::int) < 65536 ^ (blen x - 1)" by simp
  with normal_mag_ge [OF assms] show ?thesis by linarith
qed

lemma big_cmp_same_len:
  assumes "big_wf x" "big_wf y" "blen x = blen y" "bsign x = bsign y"
  shows "big_cmp_big x y = sgn (big_val x - big_val y)"
  using assms cmp_loop_sign [of "blen x" "bdigits x" "bdigits y"]
  by (auto simp: big_cmp_big_def Let_def big_val_def big_mag_def bds_def big_wf_def split: if_splits)

text \<open>
  The sign of the difference is computed from the signs and the lengths, so the operands have
  to be normal, and a zero has to carry the positive sign as \<^verbatim>\<open>int2big\<close> makes it.
\<close>

definition signed_ok :: "rbignum \<Rightarrow> bool" where
  "signed_ok x \<longleftrightarrow> big_normal x \<and> (bsign x \<or> blen x \<noteq> 0)"

lemma big_cmp_big_sgn:
  assumes "signed_ok x" "signed_ok y"
  shows "big_cmp_big x y = sgn (big_val x - big_val y)"
proof -
  note n = assms [unfolded signed_ok_def]
  consider "bsign x" "\<not> bsign y" | "\<not> bsign x" "bsign y" | "bsign x = bsign y" "blen x < blen y"
    | "bsign x = bsign y" "blen x > blen y" | "bsign x = bsign y" "blen x = blen y"
    by (metis linorder_cases)
  then show ?thesis
  proof cases
    case 1
    then have "0 < big_mag y" using n big_val_neg_iff by auto
    with 1 big_mag_nonneg [of x] show ?thesis by (simp add: big_cmp_big_def big_val_def)
  next
    case 2
    then have "0 < big_mag x" using n big_val_neg_iff by auto
    with 2 big_mag_nonneg [of y] show ?thesis by (simp add: big_cmp_big_def big_val_def)
  next
    case 3
    with n shorter_less [of x y] show ?thesis by (auto simp: big_cmp_big_def big_val_def)
  next
    case 4
    with n shorter_less [of y x] show ?thesis by (auto simp: big_cmp_big_def big_val_def)
  next
    case 5
    with n show ?thesis by (intro big_cmp_same_len) auto
  qed
qed

lemma signed_ok_int2big [simp]: "signed_ok (int2big n)"
proof -
  have "bsign (int2big n) \<or> blen (int2big n) \<noteq> 0"
  proof (cases "sint n < 0")
    case True
    then have "big_mag (int2big n) \<noteq> 0"
      using int2big_ok(2) [of n] abs_big_val [of "int2big n"] by linarith
    then show ?thesis by (auto simp: big_mag_def bds_def)
  qed (simp add: int2big_def Let_def uint2big_ok)
  then show ?thesis by (simp add: signed_ok_def int2big_ok)
qed

lemma inum_wf_signed_ok: "inum_wf (Big b) \<Longrightarrow> signed_ok b"
  by (auto simp: signed_ok_def)

lemma signed_ok_normal: "signed_ok x \<Longrightarrow> big_normal x" "signed_ok x \<Longrightarrow> big_wf x"
  by (auto simp: signed_ok_def)

text \<open>Every integer operand reaches the digit loops as a Bignum of the same value.\<close>

lemma int_or_big_ok:
  assumes "inum_wf x"
  shows "signed_ok (int_or_big x)" "big_val (int_or_big x) = inum_val x"
  using assms by (cases x; simp add: int_or_big_def int2big_ok inum_wf_signed_ok [simplified])+

section \<open>Addition and subtraction\<close>

text \<open>One digit: the running number stays between \<open>- 1\<close> and \<open>1\<close>.\<close>

lemma digit_step:
  assumes "- 65536 \<le> sint num" "sint num < 131072"
  shows "uint (BIGLO num) + 65536 * sint (SBIGDN num) = sint num" "\<bar>sint (SBIGDN num)\<bar> \<le> 1"
  using assms by (auto simp: sint_BIGLO sint_SBIGDN)

lemma sint_digit_sum:
  assumes "\<bar>sint (num :: u32)\<bar> \<le> 1"
  shows "sint (num + ucast (x :: u16)) = sint num + uint x"
    "sint (num + (ucast (x :: u16) + ucast (y :: u16))) = sint num + (uint x + uint y)"
    "sint (num + (ucast (x :: u16) - ucast (y :: u16))) = sint num + (uint x - uint y)"
proof -
  note b = assms uint_16_bounds [of x] uint_16_bounds [of y]
  have s: "sint (ucast x + ucast y :: u32) = uint x + uint y"
    by (rule sint_add_eq [OF sint_ucast_16_32 sint_ucast_16_32]; use b in linarith)
  have t: "sint (ucast x - ucast y :: u32) = uint x - uint y"
    by (rule sint_sub_eq [OF sint_ucast_16_32 sint_ucast_16_32]; use b in linarith)
  show "sint (num + ucast x) = sint num + uint x"
    by (rule sint_add_eq [OF refl sint_ucast_16_32]; use b in linarith)
  show "sint (num + (ucast x + ucast y)) = sint num + (uint x + uint y)"
    by (rule sint_add_eq [OF refl s]; use b in linarith)
  show "sint (num + (ucast x - ucast y)) = sint num + (uint x - uint y)"
    by (rule sint_add_eq [OF refl t]; use b in linarith)
qed

lemma sub_loop_val:
  "length ys \<le> length xs \<Longrightarrow> \<bar>sint num\<bar> \<le> 1 \<Longrightarrow> sub_loop xs ys num = (zs, r) \<Longrightarrow>
     length zs = length ys \<and> \<bar>sint r\<bar> \<le> 1 \<and>
     ds_val zs + 65536 ^ length ys * sint r = ds_val (take (length ys) xs) - ds_val ys + sint num"
proof (induction xs ys num arbitrary: zs r rule: sub_loop.induct)
  case (1 x xs y ys num)
  define n where "n = num + (ucast x - ucast y)"
  have n: "sint n = sint num + (uint x - uint y)"
    unfolding n_def using 1(3) by (rule sint_digit_sum)
  have s: "uint (BIGLO n) + 65536 * sint (SBIGDN n) = sint n" "\<bar>sint (SBIGDN n)\<bar> \<le> 1"
    by (rule digit_step; use 1(3) n uint_16_bounds [of x] uint_16_bounds [of y] in linarith)+
  obtain zs' where z: "sub_loop xs ys (SBIGDN n) = (zs', r)" "zs = BIGLO n # zs'"
    using 1(4) by (auto simp: n_def [symmetric] Let_def split: prod.splits)
  from 1(1) [OF n_def _ s(2) z(1)] 1(2) have
    "length zs' = length ys" "\<bar>sint r\<bar> \<le> 1"
    "ds_val zs' + 65536 ^ length ys * sint r = ds_val (take (length ys) xs) - ds_val ys + sint (SBIGDN n)"
    by auto
  with z(2) s(1) n show ?case by (simp add: algebra_simps)
qed auto

lemma add_loop_val:
  "length xs \<le> length ys \<Longrightarrow> \<bar>sint num\<bar> \<le> 1 \<Longrightarrow> add_loop xs ys num = (zs, r) \<Longrightarrow>
     length zs = length xs \<and> \<bar>sint r\<bar> \<le> 1 \<and>
     ds_val zs + 65536 ^ length xs * sint r = ds_val xs + ds_val (take (length xs) ys) + sint num"
proof (induction xs ys num arbitrary: zs r rule: add_loop.induct)
  case (1 x xs y ys num)
  define n where "n = num + (ucast x + ucast y)"
  have n: "sint n = sint num + (uint x + uint y)"
    unfolding n_def using 1(3) by (rule sint_digit_sum)
  have s: "uint (BIGLO n) + 65536 * sint (SBIGDN n) = sint n" "\<bar>sint (SBIGDN n)\<bar> \<le> 1"
    by (rule digit_step; use 1(3) n uint_16_bounds [of x] uint_16_bounds [of y] in linarith)+
  obtain zs' where z: "add_loop xs ys (SBIGDN n) = (zs', r)" "zs = BIGLO n # zs'"
    using 1(4) by (auto simp: n_def [symmetric] Let_def split: prod.splits)
  from 1(1) [OF n_def _ s(2) z(1)] 1(2) have
    "length zs' = length xs" "\<bar>sint r\<bar> \<le> 1"
    "ds_val zs' + 65536 ^ length xs * sint r = ds_val xs + ds_val (take (length xs) ys) + sint (SBIGDN n)"
    by auto
  with z(2) s(1) n show ?case by (simp add: algebra_simps)
qed auto

lemma carry_loop_val:
  "\<bar>sint num\<bar> \<le> 1 \<Longrightarrow> carry_loop ds num = (zs, r) \<Longrightarrow>
     length zs = length ds \<and> \<bar>sint r\<bar> \<le> 1 \<and>
     ds_val zs + 65536 ^ length ds * sint r = ds_val ds + sint num"
proof (induction ds num arbitrary: zs r rule: carry_loop.induct)
  case (2 d ds num)
  show ?case
  proof (cases "num = 0")
    case False
    define n where "n = num + ucast d"
    have n: "sint n = sint num + uint d"
      unfolding n_def using 2(2) by (rule sint_digit_sum)
    have s: "uint (BIGLO n) + 65536 * sint (SBIGDN n) = sint n" "\<bar>sint (SBIGDN n)\<bar> \<le> 1"
      by (rule digit_step; use 2(2) n uint_16_bounds [of d] in linarith)+
    obtain zs' where z: "carry_loop ds (SBIGDN n) = (zs', r)" "zs = BIGLO n # zs'"
      using 2(3) False by (auto simp: n_def [symmetric] Let_def split: prod.splits)
    from 2(1) [OF False n_def s(2) z(1)] have
      "length zs' = length ds" "\<bar>sint r\<bar> \<le> 1"
      "ds_val zs' + 65536 ^ length ds * sint r = ds_val ds + sint (SBIGDN n)"
      by auto
    with z(2) s(1) n show ?thesis by (simp add: algebra_simps)
  qed (use 2 in simp)
qed auto

text \<open>The borrow of a subtraction without underflow ends at zero.\<close>

lemma carry_out:
  assumes "ds_val zs + 65536 ^ length zs * c = v" "\<bar>c\<bar> \<le> 1" "0 \<le> v"
  shows "0 \<le> c" "v < 65536 ^ length zs \<Longrightarrow> c = 0"
proof -
  note b = ds_val_less [of zs]
  have "c \<noteq> - 1" using assms b by auto
  then show "0 \<le> c" using assms(2) by linarith
  show "c = 0" if "v < 65536 ^ length zs"
  proof -
    have "c \<noteq> 1" using assms(1) that ds_val_nonneg [of zs] by auto
    with \<open>0 \<le> c\<close> assms(2) show ?thesis by linarith
  qed
qed

text \<open>The digits of \<open>xs + c\<close> and \<open>ys\<close>, where \<open>ys\<close> is the longer list.\<close>

lemma sub_digits:
  assumes "length ys \<le> length xs" "ds_val ys \<le> ds_val xs"
    and "sub_loop xs ys 0 = (lo, n)" "carry_loop (drop (length ys) xs) n = (hi, r)"
  shows "ds_val (lo @ hi) = ds_val xs - ds_val ys"
proof -
  have lo: "length lo = length ys" "\<bar>sint n\<bar> \<le> 1"
    "ds_val lo + 65536 ^ length ys * sint n = ds_val (take (length ys) xs) - ds_val ys"
    using sub_loop_val [OF assms(1) _ assms(3)] by auto
  have hi: "length hi = length xs - length ys" "\<bar>sint r\<bar> \<le> 1"
    "ds_val hi + 65536 ^ (length xs - length ys) * sint r = ds_val (drop (length ys) xs) + sint n"
    using carry_loop_val [OF lo(2) assms(4)] by auto
  have len: "length (lo @ hi) = length xs" using assms(1) lo(1) hi(1) by simp
  have split: "ds_val xs = ds_val (take (length ys) xs) + 65536 ^ length ys * ds_val (drop (length ys) xs)"
    using ds_val_append [of "take (length ys) xs" "drop (length ys) xs"] assms(1) by simp
  have pow: "(65536::int) ^ length xs = 65536 ^ length ys * 65536 ^ (length xs - length ys)"
    using assms(1) by (simp flip: power_add)
  have "65536 ^ length ys * (ds_val hi + 65536 ^ (length xs - length ys) * sint r)
      = 65536 ^ length ys * (ds_val (drop (length ys) xs) + sint n)" by (simp only: hi(3))
  then have tot: "ds_val (lo @ hi) + 65536 ^ length (lo @ hi) * sint r = ds_val xs - ds_val ys"
    unfolding len pow split using lo(1,3) by (simp add: ds_val_append algebra_simps)
  have "ds_val xs - ds_val ys < 65536 ^ length (lo @ hi)"
    using len ds_val_less [of xs] ds_val_nonneg [of ys] by simp
  with carry_out(2) [OF tot hi(2)] assms(2) tot show ?thesis by simp
qed

lemma uint_ucast_carry: "0 \<le> sint n \<Longrightarrow> \<bar>sint n\<bar> \<le> 1 \<Longrightarrow> uint (ucast (n :: u32) :: u16) = sint n"
  using sint_mod_uint [of n] by (simp add: uint_ucast_32_16 flip: sint_mod_uint)

lemma add_digits:
  assumes "length xs \<le> length ys"
    and "add_loop xs ys 0 = (lo, n)" "carry_loop (drop (length xs) ys) n = (hi, r)"
  shows "ds_val (lo @ hi @ [ucast r]) = ds_val xs + ds_val ys"
proof -
  have lo: "length lo = length xs" "\<bar>sint n\<bar> \<le> 1"
    "ds_val lo + 65536 ^ length xs * sint n = ds_val xs + ds_val (take (length xs) ys)"
    using add_loop_val [OF assms(1) _ assms(2)] by auto
  have hi: "length hi = length ys - length xs" "\<bar>sint r\<bar> \<le> 1"
    "ds_val hi + 65536 ^ (length ys - length xs) * sint r = ds_val (drop (length xs) ys) + sint n"
    using carry_loop_val [OF lo(2) assms(3)] by auto
  have len: "length (lo @ hi) = length ys" using assms(1) lo(1) hi(1) by simp
  have split: "ds_val ys = ds_val (take (length xs) ys) + 65536 ^ length xs * ds_val (drop (length xs) ys)"
    using ds_val_append [of "take (length xs) ys" "drop (length xs) ys"] assms(1) by simp
  have pow: "(65536::int) ^ length ys = 65536 ^ length xs * 65536 ^ (length ys - length xs)"
    using assms(1) by (simp flip: power_add)
  have "65536 ^ length xs * (ds_val hi + 65536 ^ (length ys - length xs) * sint r)
      = 65536 ^ length xs * (ds_val (drop (length xs) ys) + sint n)" by (simp only: hi(3))
  then have tot: "ds_val (lo @ hi) + 65536 ^ length (lo @ hi) * sint r = ds_val xs + ds_val ys"
    unfolding len pow split using lo(1,3) by (simp add: ds_val_append algebra_simps)
  have "uint (ucast r :: u16) = sint r"
    using carry_out(1) [OF tot hi(2)] hi(2) by (intro uint_ucast_carry) (auto simp: ds_val_nonneg)
  with tot show ?thesis using ds_val_append [of "lo @ hi" "[ucast r]"] by simp
qed

lemma bigsub_ok:
  assumes "big_normal x" "big_normal y"
  shows "inum_wf (bigsub x y)" "inum_val (bigsub x y) = big_mag x - big_mag y"
proof -
  define swap where "swap = (if blen x < blen y then True
      else if blen x = blen y then sub_swap (bdigits x) (bdigits y) (blen x) else False)"
  have swap: "swap \<longleftrightarrow> big_mag x < big_mag y \<or> (blen x < blen y)"
    using assms sub_swap_iff [of "blen x" "bdigits x" "bdigits y"] shorter_less [of y x]
    by (auto simp: swap_def big_mag_def bds_def big_normal_def big_wf_def)
  have key: "inum_wf (bignorm (bignew (lo @ hi) s)) \<and>
      inum_val (bignorm (bignew (lo @ hi) s)) = (if s then big_mag a - big_mag b else big_mag b - big_mag a)"
    if "big_normal a" "big_normal b" "big_mag b \<le> big_mag a" "blen b \<le> blen a"
      "sub_loop (bds a) (bds b) 0 = (lo, n)" "carry_loop (drop (blen b) (bds a)) n = (hi, r)"
    for a b lo hi n r s
    using sub_digits [of "bds b" "bds a" lo n hi r] that
    by (simp add: bignorm_wf bignorm_val length_bds big_mag_def)
  have le: "big_mag x \<le> big_mag y \<and> blen x \<le> blen y" if swap
    using that swap_def swap shorter_less [OF assms] by (auto split: if_splits)
  have ge: "big_mag y \<le> big_mag x \<and> blen y \<le> blen x" if "\<not> swap"
    using that swap by auto
  show "inum_wf (bigsub x y)" "inum_val (bigsub x y) = big_mag x - big_mag y"
    using key [OF assms] key [OF assms(2,1)] le ge
    by (auto simp: bigsub_def swap_def [symmetric] Let_def split: prod.splits)
qed

lemma bigadd_ok:
  assumes "big_normal x" "big_normal y"
  shows "inum_wf (bigadd x y s)"
    "inum_val (bigadd x y s) = big_val x + (if s then big_val y else - big_val y)"
proof -
  have key: "inum_wf (bignorm (bignew (lo @ hi @ [ucast r]) z)) \<and>
      inum_val (bignorm (bignew (lo @ hi @ [ucast r]) z)) = (if z then 1 else - 1) * (big_mag a + big_mag b)"
    if "big_normal a" "big_normal b" "blen a \<le> blen b"
      "add_loop (bds a) (bds b) 0 = (lo, n)" "carry_loop (drop (blen a) (bds b)) n = (hi, r)"
    for a b lo hi n r z
    using add_digits [of "bds a" "bds b" lo n hi r] that
    by (simp add: bignorm_wf bignorm_val length_bds big_mag_def)
  show "inum_wf (bigadd x y s)"
    using key [OF assms] key [OF assms(2,1)] assms
    by (auto simp: bigadd_def Let_def bigsub_ok split: prod.splits)
  show "inum_val (bigadd x y s) = big_val x + (if s then big_val y else - big_val y)"
    using key [OF assms] key [OF assms(2,1)] assms
    by (auto simp: bigadd_def Let_def bigsub_ok big_val_def split: prod.splits)
qed

section \<open>Multiplication\<close>

text \<open>The largest number of one step of the inner loop is exactly \<open>2 ^ 32 - 1\<close>.\<close>

lemma mul_step:
  assumes "uint (n :: u32) < 65536" "uint (dd :: u32) < 65536"
  shows "uint (n + dd * ucast (y :: u16)) = uint n + uint dd * uint y"
    "uint (ucast (z :: u16) + (n + dd * ucast y)) = uint z + uint n + uint dd * uint y"
proof -
  have "uint dd * uint y \<le> 65535 * 65535"
    using assms(2) uint_16_bounds [of y] by (intro mult_mono) auto
  then have p: "uint (dd * ucast y) = uint dd * uint y" "uint dd * uint y \<le> 4294836225"
    by (simp_all add: uint_mult_u32 uint_ucast_16_32)
  then show s: "uint (n + dd * ucast y) = uint n + uint dd * uint y"
    using assms(1) by (simp add: uint_add_u32)
  show "uint (ucast z + (n + dd * ucast y)) = uint z + uint n + uint dd * uint y"
    using assms(1) p(2) s uint_16_bounds [of z] by (simp add: uint_add_u32 uint_ucast_16_32)
qed

lemma mul_row_val:
  "length ys < length zs \<Longrightarrow> zs ! length ys = 0 \<Longrightarrow> uint n < 65536 \<Longrightarrow> uint dd < 65536 \<Longrightarrow>
     length (mul_row dd ys zs n) = length zs \<and>
     drop (Suc (length ys)) (mul_row dd ys zs n) = drop (Suc (length ys)) zs \<and>
     ds_val (mul_row dd ys zs n) = ds_val zs + uint dd * ds_val ys + uint n"
proof (induction dd ys zs n rule: mul_row.induct)
  case (1 dd y ys z zs n)
  define ee where "ee = n + dd * ucast y"
  define m where "m = ucast z + ee"
  have m: "uint m = uint z + uint n + uint dd * uint y"
    unfolding m_def ee_def using 1(4,5) by (rule mul_step)
  have "uint (BIGDN m) < 65536" using uint_32_less [of m] by (simp add: uint_BIGDN)
  then have ih: "length (mul_row dd ys zs (BIGDN m)) = length zs"
    "drop (Suc (length ys)) (mul_row dd ys zs (BIGDN m)) = drop (Suc (length ys)) zs"
    "ds_val (mul_row dd ys zs (BIGDN m)) = ds_val zs + uint dd * ds_val ys + uint (BIGDN m)"
    using 1(1) [OF ee_def m_def] 1(2,3,5) by auto
  have "BIGLO (ucast z) = z"
    using uint_16_bounds [of z] by (simp add: word_uint_eq_iff uint_BIGLO uint_ucast_16_32)
  then have dig: "(if ee \<noteq> 0 then BIGLO m else z) = BIGLO m"
    by (simp add: m_def)
  have row: "mul_row dd (y # ys) (z # zs) n = BIGLO m # mul_row dd ys zs (BIGDN m)"
    by (simp only: mul_row.simps Let_def ee_def [symmetric] m_def [symmetric] dig)
  have "uint (BIGLO m) + 65536 * uint (BIGDN m) = uint m" by (simp add: uint_BIGLO uint_BIGDN)
  with m ih row show ?case by (simp add: algebra_simps)
next
  case (2 dd z zs n)
  then show ?case by (simp add: uint_ucast_32_16)
qed auto

lemma mul_rows_val:
  "drop (length ys) zs = replicate (Suc k) 0 \<Longrightarrow> length xs \<le> k \<Longrightarrow>
     ds_val (mul_rows xs ys zs) = ds_val zs + ds_val xs * ds_val ys"
proof (induction xs arbitrary: zs k)
  case (Cons x xs)
  then obtain k' where k: "k = Suc k'" by (cases k) auto
  define zs' where "zs' = (if x = 0 then zs else mul_row (ucast x) ys zs 0)"
  have len: "length ys < length zs" using arg_cong [OF Cons.prems(1), of length] by simp
  have "zs ! length ys = 0" using arg_cong [OF Cons.prems(1), of "\<lambda>l. l ! 0"] len by simp
  from mul_row_val [OF len this, of 0 "ucast x"]
  have "drop (Suc (length ys)) zs' = drop (Suc (length ys)) zs"
    and val: "ds_val zs' = ds_val zs + uint x * ds_val ys" and len': "length zs' = length zs"
    using uint_16_bounds [of x] by (auto simp: zs'_def uint_ucast_16_32)
  then have "drop (length ys) (drop 1 zs') = drop 1 (drop (length ys) zs)" by simp
  also have "\<dots> = replicate (Suc k') 0" by (simp add: Cons.prems(1) k)
  finally have "ds_val (mul_rows xs ys (drop 1 zs')) = ds_val (drop 1 zs') + ds_val xs * ds_val ys"
    using Cons.IH Cons.prems(2) k by simp
  moreover obtain z zs'' where "zs' = z # zs''" using len len' by (cases zs') auto
  ultimately show ?case using val by (simp add: zs'_def [symmetric] Let_def algebra_simps)
qed simp

lemma big_mul_big_ok:
  assumes "big_wf x" "big_wf y"
  shows "inum_wf (big_mul_big x y)" "inum_val (big_mul_big x y) = big_val x * big_val y"
proof -
  let ?zs = "replicate (blen x + blen y + 1) (0 :: u16)"
  have "drop (length (bds y)) ?zs = replicate (Suc (blen x)) 0"
    using assms by (simp add: length_bds drop_replicate del: replicate.simps)
  from mul_rows_val [OF this, of "bds x"] have
    "ds_val (mul_rows (bds x) (bds y) ?zs) = big_mag x * big_mag y"
    using assms by (simp add: length_bds big_mag_def del: replicate.simps)
  then show "inum_val (big_mul_big x y) = big_val x * big_val y"
    by (simp add: big_mul_big_def bignorm_val big_val_def)
  show "inum_wf (big_mul_big x y)" by (simp add: big_mul_big_def bignorm_wf)
qed

section \<open>What the operations compute\<close>

text \<open>
  The value of an operand that is an integer: the methods convert a Fixnum with \<^verbatim>\<open>int2big\<close>
  and use a Bignum as it is.
\<close>

lemma int_operand:
  "big_cmp E x (VInt y) = Inr (VFix (word_of_int (big_cmp_big x (int_or_big y))))"
  "big_plus E x (VInt y) = Inr (VInt (bigadd x (int_or_big y) True))"
  "big_minus E x (VInt y) = Inr (VInt (bigadd x (int_or_big y) False))"
  "big_mul E z (VInt y) = Inr (VInt (big_mul_big (int_or_big z) (int_or_big y)))"
  by (cases y; simp add: big_cmp_def big_plus_def big_minus_def big_mul_def int_or_big_def)+

lemma big_plus_ok:
  assumes "signed_ok x" "inum_wf y"
  obtains z where "big_plus E x (VInt y) = Inr (VInt z)" "inum_wf z" "inum_val z = big_val x + inum_val y"
  using assms int_or_big_ok [OF assms(2)] by (auto simp: int_operand bigadd_ok signed_ok_normal)

lemma big_minus_ok:
  assumes "signed_ok x" "inum_wf y"
  obtains z where "big_minus E x (VInt y) = Inr (VInt z)" "inum_wf z" "inum_val z = big_val x - inum_val y"
  using assms int_or_big_ok [OF assms(2)] by (auto simp: int_operand bigadd_ok signed_ok_normal)

lemma big_mul_ok:
  assumes "inum_wf x" "inum_wf y"
  obtains z where "big_mul E x (VInt y) = Inr (VInt z)" "inum_wf z" "inum_val z = inum_val x * inum_val y"
  using assms int_or_big_ok [OF assms(1)] int_or_big_ok [OF assms(2)]
  by (auto simp: int_operand big_mul_big_ok signed_ok_normal)

text \<open>
  C11: adding, subtracting or multiplying a Bignum and any integer (a Fixnum, or a Bignum in
  normal form) returns an integer in normal form whose value is the exact sum, difference
  or product: no carry, borrow or digit product is lost in the 32-bit arithmetic.
\<close>
theorem big_ring_exact:
  assumes "inum_wf (Big x)" "inum_wf y"
  shows "\<exists>s d p. big_plus E x (VInt y) = Inr (VInt s) \<and> big_minus E x (VInt y) = Inr (VInt d) \<and>
      big_mul E (Big x) (VInt y) = Inr (VInt p) \<and> inum_wf s \<and> inum_wf d \<and> inum_wf p \<and>
      inum_val s = inum_val (Big x) + inum_val y \<and>
      inum_val d = inum_val (Big x) - inum_val y \<and>
      inum_val p = inum_val (Big x) * inum_val y"
proof -
  note ok = inum_wf_signed_ok [OF assms(1)]
  obtain s where "big_plus E x (VInt y) = Inr (VInt s)" "inum_wf s" "inum_val s = big_val x + inum_val y"
    using big_plus_ok [OF ok assms(2)] .
  moreover obtain d where "big_minus E x (VInt y) = Inr (VInt d)" "inum_wf d" "inum_val d = big_val x - inum_val y"
    using big_minus_ok [OF ok assms(2)] .
  moreover obtain p where "big_mul E (Big x) (VInt y) = Inr (VInt p)" "inum_wf p" "inum_val p = inum_val (Big x) * inum_val y"
    using big_mul_ok [OF assms] .
  ultimately show ?thesis by auto
qed

theorem big_ring_exact_witness:
  "\<exists>p. big_mul undefined (Big (bignew [0xFFFF, 0xFFFF, 0xFFFF] False))
          (VInt (Big (bignew [0xFFFF, 0xFFFF] True)) :: (nat, nat) rvalue) = Inr (VInt p) \<and>
       inum_val p = - (281474976710655 * 4294967295)"
  using big_ring_exact [of "bignew [0xFFFF, 0xFFFF, 0xFFFF] False" "Big (bignew [0xFFFF, 0xFFFF] True)"
      "undefined :: (nat, nat) interp"]
  by (auto simp: big_normal_def)

text \<open>
  \<^verbatim>\<open><=>\<close> on a Bignum and any integer returns the tagged sign of the difference and
  \<^verbatim>\<open>==\<close> decides equality of the values, also between a Fixnum and a Bignum.
\<close>
theorem big_cmp_decides_order:
  assumes "inum_wf (Big x)" "inum_wf y"
  shows "big_cmp E x (VInt y) = Inr (VFix (word_of_int (sgn (inum_val (Big x) - inum_val y)))) \<and>
    big_eq E x (VInt y) = Inr (rbool (inum_val (Big x) = inum_val y))"
proof -
  have c: "big_cmp_big x (int_or_big y) = sgn (big_val x - inum_val y)"
    using big_cmp_big_sgn [OF inum_wf_signed_ok [OF assms(1)] int_or_big_ok(1) [OF assms(2)]]
    by (simp add: int_or_big_ok(2) [OF assms(2)])
  have "INT2FIX (word_of_int (sgn k)) = INT2FIX 0 \<longleftrightarrow> k = 0" for k :: int
    by (cases k "0 :: int" rule: linorder_cases) (simp_all add: INT2FIX_alt)
  with c show ?thesis by (simp add: int_operand big_eq_def)
qed

theorem big_cmp_decides_order_witness:
  "big_cmp undefined (bignew [0, 1, 1] False) (VFix 5 :: (nat, nat) rvalue) = Inr (VFix (- 1))"
  using big_cmp_decides_order [of "bignew [0, 1, 1] False" "Fix (INT2FIX 5)" "undefined :: (nat, nat) interp"]
  by (simp add: big_normal_def sint_FIX2INT INT2FIX_alt)

lemma big_uminus_ok:
  assumes "big_wf x"
  shows "inum_wf (big_uminus x)" "inum_val (big_uminus x) = - big_val x"
proof -
  have w: "big_wf ((big_clone x)\<lparr>bsign := \<not> bsign x\<rparr>)" by (simp add: big_wf_def big_clone_def)
  show "inum_wf (big_uminus x)" unfolding big_uminus_def by (rule bignorm_wf [OF w])
  have "big_mag (big_clone x) = big_mag x" by (simp add: big_mag_def)
  then show "inum_val (big_uminus x) = - big_val x"
    unfolding big_uminus_def bignorm_val [OF w] big_val_sign by (simp add: big_val_def)
qed

lemma big_abs_ok:
  assumes "big_wf x"
  shows "inum_val (big_abs x) = \<bar>big_val x\<bar>"
  using abs_big_val [of x] by (auto simp: big_abs_def big_val_sign) (simp_all add: big_val_def big_mag_def)

end
