(* ===== verification/BigDiv.thy ===== *)
theory BigDiv
  imports BigArith
begin

text \<open>
  Division of Bignums (\<^verbatim>\<open>bigdivmod\<close>, \<^verbatim>\<open>big_div\<close>, \<^verbatim>\<open>big_mod\<close>, \<^verbatim>\<open>big_divmod\<close> of
  \<^verbatim>\<open>src/bignum.c\<close>): schoolbook division with a one-digit estimate of each quotient digit,
  a multiply-and-subtract pass and an add-back loop. The window of \<^verbatim>\<open>zds\<close> that one round
  works on is \<^verbatim>\<open>zds[j-ny..j]\<close>.
\<close>

section \<open>Division by one digit\<close>

text \<open>\<^verbatim>\<open>while (i--) { t2 = BIGUP(t2) + zds[i]; zds[i] = t2 / dd; t2 %= dd; }\<close>\<close>

fun div_digit :: "u32 \<Rightarrow> u16 list \<Rightarrow> nat \<Rightarrow> u32 \<Rightarrow> u16 list \<times> u32" where
  "div_digit dd ds 0 t2 = (ds, t2)"
| "div_digit dd ds (Suc i) t2 =
     (let t2 = BIGUP t2 + ucast (ds ! i)
      in div_digit dd (ds[i := ucast (t2 div dd)]) i (t2 mod dd))"

section \<open>The long division\<close>

text \<open>\<^verbatim>\<open>num += (unsigned long)yds[j]*dd; tds[j++] = BIGLO(num); num = BIGDN(num)\<close>\<close>

fun scale_loop :: "u32 \<Rightarrow> u16 list \<Rightarrow> u32 \<Rightarrow> u16 list \<times> u32" where
  "scale_loop dd [] num = ([], num)"
| "scale_loop dd (d # ds) num =
     (let num = num + ucast d * dd;
          (ts, r) = scale_loop dd ds (SBIGDN num)
      in (BIGLO num # ts, r))"

text \<open>The divisor and the dividend multiplied by \<open>dd\<close>; the dividend gains a digit.\<close>

definition scaled :: "u16 \<Rightarrow> u16 list \<Rightarrow> u16 list \<Rightarrow> u16 list \<times> u16 list" where
  "scaled dd ys xs =
     (if dd \<noteq> 1
      then (fst (scale_loop (ucast dd) ys 0),
            let (ts, num) = scale_loop (ucast dd) xs 0 in ts @ [ucast num])
      else (ys, xs @ [0]))"

text \<open>The multiply-and-subtract pass over the digits of the divisor and the window.\<close>

fun mul_sub :: "u16 list \<Rightarrow> u16 list \<Rightarrow> u32 \<Rightarrow> u32 \<Rightarrow> u32 \<Rightarrow> u16 list \<times> u32 \<times> u32" where
  "mul_sub (y # ys) (z # zs) q num t2 =
     (let t2 = t2 + ucast y * q;
          ee = num - (t2 AND 0xFFFF);
          num = ucast z + ee;
          z' = (if ee \<noteq> 0 then BIGLO num else z);
          (ws, n, t) = mul_sub ys zs q (SBIGDN num) (BIGDN t2)
      in (z' # ws, n, t))"
| "mul_sub ys zs q num t2 = (zs, num, t2)"

text \<open>One pass of the add-back loop.\<close>

fun add_pass :: "u16 list \<Rightarrow> u16 list \<Rightarrow> u32 \<Rightarrow> u16 list \<times> u32" where
  "add_pass (y # ys) (z # zs) num =
     (let ee = num + ucast y;
          num = ucast z + ee;
          z' = (if ee \<noteq> 0 then BIGLO num else z);
          (ws, n) = add_pass ys zs (SBIGDN num)
      in (z' # ws, n))"
| "add_pass ys zs num = (zs, num)"

text \<open>
  \<^verbatim>\<open>while (num) { ... q--; ... num--; }\<close>, with the number of rounds allowed as the first
  argument.
\<close>

fun add_back :: "nat \<Rightarrow> u16 list \<Rightarrow> u16 list \<Rightarrow> u32 \<Rightarrow> u16 \<Rightarrow> (u16 list \<times> u16) result" where
  "add_back fuel ys zs num q =
     (if num = 0 then Inr (zs, q)
      else case fuel of
             0 \<Rightarrow> Inl Diverges
           | Suc fuel \<Rightarrow>
               let (zs, num) = add_pass ys zs 0
               in add_back fuel ys zs (num - 1) (q - 1))"

text \<open>
  One round for the window \<open>zs\<close> of as many digits as the divisor \<open>ys\<close> and the digit \<open>t\<close> above
  it: the new window and the digit of the quotient, which replaces \<open>t\<close>.
\<close>

definition div_round :: "u16 list \<Rightarrow> u16 list \<Rightarrow> u16 \<Rightarrow> (u16 list \<times> u16) result" where
  "div_round ys zs t =
     (let q = (if t = last ys then 0xFFFF
               else ucast ((BIGUP (ucast t) + ucast (last zs)) div ucast (last ys)))
      in if q \<noteq> 0 then
           let (zs, num, t2) = mul_sub ys zs (ucast q) 0 0;
               num = num + (ucast t - t2)
           in add_back 65536 ys zs num q
         else Inr (zs, q))"

text \<open>\<^verbatim>\<open>do { ... } while (--j >= ny)\<close> for \<open>j = ny + m\<close>.\<close>

fun div_loop :: "u16 list \<Rightarrow> nat \<Rightarrow> u16 list \<Rightarrow> u16 list result" where
  "div_loop ys m zds =
     (let ny = length ys in
      bindR (div_round ys (take ny (drop m zds)) (zds ! (m + ny))) (\<lambda>(zs, q).
        let zds = take m zds @ zs @ [q] @ drop (m + ny + 1) zds
        in case m of 0 \<Rightarrow> Inr zds | Suc m \<Rightarrow> div_loop ys m zds))"

definition div_long :: "rbignum \<Rightarrow> rbignum \<Rightarrow> (inum \<times> inum) result" where
  "div_long x y =
     (let nx = blen x;
          zlen = (if nx = blen y then nx + 2 else nx + 1);
          ny = trim_len (bdigits y) (blen y)
      in if ny = 0 then Inl OutOfBounds else
      let yt = bdigits y ! (ny - 1);
          dd = (ucast (65536 div (ucast yt + 1 :: u32)) :: u16);
          (yds, zlow) = scaled dd (take ny (bdigits y)) (take nx (bdigits x));
          zds = zlow @ replicate (zlen - (nx + 1)) 0
      in bindR (div_loop yds ((if nx = ny then nx + 1 else nx) - ny) zds) (\<lambda>zds.
           let j = (if nx = ny then nx + 2 else nx + 1) - ny;
               dv = bignorm (bignew (take j (drop ny zds)) (bsign x = bsign y));
               mds = (if dd \<noteq> 0 then fst (div_digit (ucast dd) zds ny 0) else zds);
               md = bignorm \<lparr>bsign = bsign y, blen = ny, bdigits = mds\<rparr>
           in Inr (dv, md)))"

text \<open>The branch for a divisor of one digit.\<close>

definition div_short :: "rbignum \<Rightarrow> rbignum \<Rightarrow> (inum \<times> inum) result" where
  "div_short x y =
     (let dd = bdigits y ! 0 in
      if dd = 0 then Inl OutOfBounds
      else let (zds, t2) = div_digit (ucast dd) (bds x) (blen x) 0;
               t2 = (if \<not> bsign y then - t2 else t2)
           in Inr (bignorm (bignew zds (bsign x)), Fix (INT2FIX t2)))"

definition bigdivmod :: "rbignum \<Rightarrow> rbignum \<Rightarrow> (inum \<times> inum) result" where
  "bigdivmod x y =
     (let nx = blen x; ny = blen y; xds = bdigits x; yds = bdigits y
      in if ny = 0 \<and> yds \<noteq> [] \<and> yds ! 0 = 0 then num_zerodiv
         else if ny = 0 then Inl OutOfBounds
         else if nx < ny \<or> (nx = ny \<and> xds ! (nx - 1) < yds ! (ny - 1)) then
           Inr (Fix (INT2FIX 0), bignorm x)
         else if ny = 1 then div_short x y
         else div_long x y)"

text \<open>
  A Float divisor is converted with \<^verbatim>\<open>dbl2big\<close>, which normalises; \<^verbatim>\<open>bigdivmod\<close> then uses
  the result as a pointer to a Bignum, so a divisor in the range of Fixnums is dereferenced
  as an address.
\<close>

definition float_divisor :: "'d float_ops \<Rightarrow> 'd \<Rightarrow> rbignum result" where
  "float_divisor F d =
     bindR (dbl2big F d) (\<lambda>y. case y of Fix _ \<Rightarrow> Inl OutOfBounds | Big b \<Rightarrow> Inr b)"

definition big_div :: "('d, 'o) interp \<Rightarrow> rbignum \<Rightarrow> ('d, 'o) rvalue \<Rightarrow> ('d, 'o) rvalue result" where
  "big_div E x y =
     (case y of
        VInt (Fix f) \<Rightarrow> bindR (bigdivmod x (int2big (FIX2INT f))) (\<lambda>(d, m). Inr (VInt d))
      | VInt (Big b) \<Rightarrow> bindR (bigdivmod x b) (\<lambda>(d, m). Inr (VInt d))
      | VFloat d \<Rightarrow> Inr (VFloat (f_div (flo E) (big2dbl (flo E) x) d))
      | _ \<Rightarrow> num_coerce_bin E ''/'' (VInt (Big x)) y)"

definition big_mod :: "('d, 'o) interp \<Rightarrow> rbignum \<Rightarrow> ('d, 'o) rvalue \<Rightarrow> ('d, 'o) rvalue result" where
  "big_mod E x y =
     (case y of
        VInt (Fix f) \<Rightarrow> bindR (bigdivmod x (int2big (FIX2INT f))) (\<lambda>(d, m). Inr (VInt m))
      | VInt (Big b) \<Rightarrow> bindR (bigdivmod x b) (\<lambda>(d, m). Inr (VInt m))
      | VFloat d \<Rightarrow> bindR (float_divisor (flo E) d) (\<lambda>b.
          bindR (bigdivmod x b) (\<lambda>(d, m). Inr (VInt m)))
      | _ \<Rightarrow> num_coerce_bin E ''%'' (VInt (Big x)) y)"

definition big_divmod :: "('d, 'o) interp \<Rightarrow> rbignum \<Rightarrow> ('d, 'o) rvalue \<Rightarrow> ('d, 'o) rvalue result" where
  "big_divmod E x y =
     (case y of
        VInt (Fix f) \<Rightarrow> bindR (bigdivmod x (int2big (FIX2INT f))) (\<lambda>(d, m). Inr (VPair (VInt d) (VInt m)))
      | VInt (Big b) \<Rightarrow> bindR (bigdivmod x b) (\<lambda>(d, m). Inr (VPair (VInt d) (VInt m)))
      | VFloat d \<Rightarrow> bindR (float_divisor (flo E) d) (\<lambda>b.
          bindR (bigdivmod x b) (\<lambda>(d, m). Inr (VPair (VInt d) (VInt m))))
      | _ \<Rightarrow> num_coerce_bin E ''divmod'' (VInt (Big x)) y)"

text \<open>
  \<^verbatim>\<open>big_rand\<close>: the digits come from the C library's \<^verbatim>\<open>random\<close>, the argument \<open>rnd\<close> (top
  digit first).
\<close>

definition big_rand :: "('d, 'o) interp \<Rightarrow> (nat \<Rightarrow> u16) \<Rightarrow> rbignum \<Rightarrow> ('d, 'o) rvalue result" where
  "big_rand E rnd limit =
     big_mod E (bignew (rev (map rnd [0..<blen limit])) True) (VInt (Big limit))"


declare add_back.simps [simp del] div_loop.simps [simp del]

section \<open>Division by one digit\<close>

lemma div_digit_val:
  assumes "0 < uint dd" "uint dd \<le> 65536"
  shows "i \<le> length ds \<Longrightarrow> uint t2 < uint dd \<Longrightarrow> div_digit dd ds i t2 = (ds', r) \<Longrightarrow>
     length ds' = length ds \<and> drop i ds' = drop i ds \<and> uint r < uint dd \<and>
     ds_val (take i ds) + 65536 ^ i * uint t2 = uint dd * ds_val (take i ds') + uint r"
proof (induction i arbitrary: ds t2)
  case (Suc i)
  define t where "t = BIGUP t2 + ucast (ds ! i)"
  define qd :: u16 where "qd = ucast (t div dd)"
  have t2: "uint t2 < 65536" using Suc.prems(2) assms(2) by linarith
  have t: "uint t = 65536 * uint t2 + uint (ds ! i)"
    unfolding t_def using t2 uint_16_bounds [of "ds ! i"]
    by (simp add: uint_add_u32 uint_BIGUP uint_ucast_16_32)
  have "uint t < 65536 * uint dd" using t Suc.prems(2) uint_16_bounds [of "ds ! i"] by linarith
  then have "uint t div uint dd < 65536" using assms(1) by (rule div_less_bound)
  moreover have "0 \<le> uint t div uint dd" using assms(1) by (simp add: pos_imp_zdiv_nonneg_iff)
  ultimately have q: "uint qd = uint t div uint dd"
    unfolding qd_def by (simp add: uint_ucast_32_16 uint_div)
  have m: "uint (t mod dd) = uint t mod uint dd" by (simp add: uint_mod)
  have rec: "div_digit dd (ds[i := qd]) i (t mod dd) = (ds', r)"
    using Suc.prems(3) by (simp add: t_def [symmetric] qd_def [symmetric] Let_def)
  have ih: "length ds' = length ds" "drop i ds' = drop i (ds[i := qd])" "uint r < uint dd"
    "ds_val (take i ds) + 65536 ^ i * (uint t mod uint dd) = uint dd * ds_val (take i ds') + uint r"
    using Suc.IH [OF _ _ rec] Suc.prems(1) assms(1) by (simp_all add: m)
  have "drop (Suc i) ds' = drop 1 (drop i ds')" by simp
  also have "\<dots> = drop (Suc i) ds" unfolding ih(2) by simp
  finally have dr: "drop (Suc i) ds' = drop (Suc i) ds" .
  have "ds' ! i = drop i ds' ! 0" using ih(1) Suc.prems(1) by simp
  also have "\<dots> = qd" unfolding ih(2) using Suc.prems(1) by simp
  finally have qi: "ds' ! i = qd" .
  have "65536 ^ i * uint t = 65536 ^ i * (uint dd * (uint t div uint dd) + uint t mod uint dd)" by simp
  also have "\<dots> = uint dd * (65536 ^ i * (uint t div uint dd)) + 65536 ^ i * (uint t mod uint dd)"
    by (simp only: distrib_left mult.left_commute)
  finally have "65536 ^ i * uint t = \<dots>" .
  with ih(4) have "ds_val (take i ds) + 65536 ^ i * uint t
      = uint dd * (ds_val (take i ds') + 65536 ^ i * uint qd) + uint r"
    unfolding q distrib_left by linarith
  moreover have "ds_val (take (Suc i) ds) + 65536 ^ Suc i * uint t2 = ds_val (take i ds) + 65536 ^ i * uint t"
    using Suc.prems(1) t by (simp add: ds_val_take_Suc distrib_left)
  moreover have "ds_val (take (Suc i) ds') = ds_val (take i ds') + 65536 ^ i * uint qd"
    using Suc.prems(1) ih(1) qi by (simp add: ds_val_take_Suc)
  ultimately show ?case using ih(1,3) dr by simp
qed simp

section \<open>The passes over a window\<close>

lemma uint_digit_prod:
  assumes "uint (q :: u32) < 65536"
  shows "uint (ucast (y :: u16) * q) = uint y * uint q" "uint y * uint q \<le> 4294836225"
proof -
  have "uint y * uint q \<le> 65535 * 65535"
    using assms uint_16_bounds [of y] by (intro mult_mono) auto
  then show "uint (ucast y * q) = uint y * uint q" "uint y * uint q \<le> 4294836225"
    by (simp_all add: uint_mult_u32 uint_ucast_16_32)
qed

lemma BIGLO_ucast [simp]: "BIGLO (ucast (z :: u16)) = z"
  using uint_16_bounds [of z] by (simp add: word_uint_eq_iff uint_BIGLO uint_ucast_16_32)

lemma uint_and_low: "uint (t AND 0xFFFF :: u32) = uint t mod 65536"
  using take_bit_eq_mask [of 16 "uint t"]
  by (simp add: unsigned_and_eq mask_eq_exp_minus_1 take_bit_eq_mod)

lemma scale_loop_val:
  assumes "0 < uint dd" "uint dd \<le> 32768"
  shows "0 \<le> sint num \<Longrightarrow> sint num < uint dd \<Longrightarrow> scale_loop dd ds num = (ts, r) \<Longrightarrow>
     length ts = length ds \<and> 0 \<le> sint r \<and> sint r < uint dd \<and>
     ds_val ts + 65536 ^ length ds * sint r = uint dd * ds_val ds + sint num"
proof (induction ds arbitrary: num ts r)
  case (Cons d ds)
  define n where "n = num + ucast d * dd"
  have "uint d * uint dd \<le> 65535 * uint dd"
    using uint_16_bounds [of d] by (intro mult_right_mono) auto
  then have p: "uint d * uint dd + sint num < 65536 * uint dd" "0 \<le> uint d * uint dd"
    using Cons.prems(2) assms(1) by (linarith, simp)
  have "uint (ucast d * dd) = uint d * uint dd" using assms by (intro uint_digit_prod) auto
  then have sp: "sint (ucast d * dd) = uint d * uint dd"
    using p(1) assms(2) Cons.prems(1) by (simp add: sint_eq_uint_if)
  have n: "sint n = sint num + uint d * uint dd"
    unfolding n_def by (rule sint_add_eq [OF refl sp]; use p assms(2) Cons.prems(1) in linarith)
  have s: "0 \<le> sint (SBIGDN n)" "sint (SBIGDN n) < uint dd"
    unfolding sint_SBIGDN n using p Cons.prems(1) by (auto intro!: div_less_bound simp: pos_imp_zdiv_nonneg_iff)
  obtain ts' where t: "scale_loop dd ds (SBIGDN n) = (ts', r)" "ts = BIGLO n # ts'"
    using Cons.prems(3) by (auto simp: n_def [symmetric] Let_def split: prod.splits)
  from Cons.IH [OF s t(1)] have
    "length ts' = length ds" "0 \<le> sint r" "sint r < uint dd"
    "ds_val ts' + 65536 ^ length ds * sint r = uint dd * ds_val ds + sint (SBIGDN n)"
    by auto
  moreover have "uint (BIGLO n) + 65536 * sint (SBIGDN n) = sint n"
    by (simp add: sint_BIGLO sint_SBIGDN)
  ultimately show ?case using t(2) n by (simp add: algebra_simps)
qed auto

lemma mul_sub_val:
  "length zs = length ys \<Longrightarrow> \<bar>sint num\<bar> \<le> 1 \<Longrightarrow> uint t2 < 65536 \<Longrightarrow> uint q < 65536 \<Longrightarrow>
     mul_sub ys zs q num t2 = (ws, n, t) \<Longrightarrow>
     length ws = length ys \<and> \<bar>sint n\<bar> \<le> 1 \<and> uint t < 65536 \<and>
     ds_val ws + 65536 ^ length ys * (sint n - uint t) = ds_val zs - uint q * ds_val ys + sint num - uint t2"
proof (induction ys zs q num t2 arbitrary: ws n t rule: mul_sub.induct)
  case (1 y ys z zs q num t2)
  define t' where "t' = t2 + ucast y * q"
  define ee where "ee = num - (t' AND 0xFFFF)"
  define m where "m = ucast z + ee"
  note p = uint_digit_prod [OF 1(5), of y]
  have t': "uint t' = uint t2 + uint y * uint q"
    unfolding t'_def using p 1(4) by (simp add: uint_add_u32)
  have lo: "sint (t' AND 0xFFFF) = uint t' mod 65536"
    by (simp add: sint_eq_uint_if uint_and_low)
  have ee: "sint ee = sint num - uint t' mod 65536"
    unfolding ee_def by (rule sint_sub_eq [OF refl lo]; use 1(3) in auto)
  have md: "0 \<le> uint t' mod 65536" "uint t' mod 65536 < 65536" by auto
  have m: "sint m = uint z + (sint num - uint t' mod 65536)"
    unfolding m_def by (rule sint_add_eq [OF sint_ucast_16_32 ee]; use md 1(3) uint_16_bounds [of z] in linarith)
  have s: "uint (BIGLO m) + 65536 * sint (SBIGDN m) = sint m" "\<bar>sint (SBIGDN m)\<bar> \<le> 1"
    by (rule digit_step; use md 1(3) m uint_16_bounds [of z] in linarith)+
  have dig: "(if ee \<noteq> 0 then BIGLO m else z) = BIGLO m" by (simp add: m_def)
  have "mul_sub (y # ys) (z # zs) q num t2 =
      (case mul_sub ys zs q (SBIGDN m) (BIGDN t') of (ws, n, t) \<Rightarrow> (BIGLO m # ws, n, t))"
    by (simp only: mul_sub.simps Let_def t'_def [symmetric] ee_def [symmetric] m_def [symmetric] dig)
  then obtain ws' where w: "mul_sub ys zs q (SBIGDN m) (BIGDN t') = (ws', n, t)" "ws = BIGLO m # ws'"
    using 1(6) by (auto split: prod.splits)
  have b: "uint (BIGDN t') < 65536" using uint_32_less [of t'] by (simp add: uint_BIGDN)
  from 1(1) [OF t'_def ee_def m_def refl _ s(2) b 1(5) w(1)] 1(2) have
    "length ws' = length ys" "\<bar>sint n\<bar> \<le> 1" "uint t < 65536"
    "ds_val ws' + 65536 ^ length ys * (sint n - uint t) =
       ds_val zs - uint q * ds_val ys + sint (SBIGDN m) - uint (BIGDN t')"
    by auto
  moreover have "65536 * uint (BIGDN t') + uint t' mod 65536 = uint t'" by (simp add: uint_BIGDN)
  ultimately show ?case using w(2) s(1) m t' by (simp add: algebra_simps)
qed auto

lemma add_pass_val:
  "length zs = length ys \<Longrightarrow> \<bar>sint num\<bar> \<le> 1 \<Longrightarrow> add_pass ys zs num = (ws, n) \<Longrightarrow>
     length ws = length ys \<and> \<bar>sint n\<bar> \<le> 1 \<and>
     ds_val ws + 65536 ^ length ys * sint n = ds_val zs + ds_val ys + sint num"
proof (induction ys zs num arbitrary: ws n rule: add_pass.induct)
  case (1 y ys z zs num)
  define ee where "ee = num + ucast y"
  define m where "m = ucast z + ee"
  have ee: "sint ee = sint num + uint y" unfolding ee_def using 1(3) by (rule sint_digit_sum)
  have m: "sint m = uint z + (sint num + uint y)"
    unfolding m_def
    by (rule sint_add_eq [OF sint_ucast_16_32 ee]; use 1(3) uint_16_bounds [of z] uint_16_bounds [of y] in linarith)
  have s: "uint (BIGLO m) + 65536 * sint (SBIGDN m) = sint m" "\<bar>sint (SBIGDN m)\<bar> \<le> 1"
    by (rule digit_step; use 1(3) m uint_16_bounds [of z] uint_16_bounds [of y] in linarith)+
  have dig: "(if ee \<noteq> 0 then BIGLO m else z) = BIGLO m" by (simp add: m_def)
  have "add_pass (y # ys) (z # zs) num = (case add_pass ys zs (SBIGDN m) of (ws, n) \<Rightarrow> (BIGLO m # ws, n))"
    by (simp only: add_pass.simps Let_def ee_def [symmetric] m_def [symmetric] dig)
  then obtain ws' where w: "add_pass ys zs (SBIGDN m) = (ws', n)" "ws = BIGLO m # ws'"
    using 1(4) by (auto split: prod.splits)
  from 1(1) [OF ee_def m_def refl _ s(2) w(1)] 1(2) have
    "length ws' = length ys" "\<bar>sint n\<bar> \<le> 1"
    "ds_val ws' + 65536 ^ length ys * sint n = ds_val zs + ds_val ys + sint (SBIGDN m)"
    by auto
  then show ?case using w(2) s(1) m by (simp add: algebra_simps)
qed auto

section \<open>One round\<close>

text \<open>
  The quotient digit estimated from the top digits: it is a digit, it is not below the true
  one, and the difference it leaves is above minus one unit of the digit after the window.
\<close>

lemma estimate:
  fixes P yl yt zl zt t :: int
  assumes P: "0 < P" and yl: "0 \<le> yl" "yl < P" and yt: "0 < yt" "yt < 65536"
    and zl: "0 \<le> zl" "zl < P" and zt: "0 \<le> zt" "zt < 65536" and t: "0 \<le> t"
    and W: "W = zl + P * (zt + 65536 * t)" and Y: "Y = yl + P * yt" and "W < 65536 * Y"
    and q: "q = (if t = yt then 65535 else (zt + 65536 * t) div yt)"
  shows "t \<le> yt" "0 \<le> q" "q < 65536" "W - q * Y < Y" "- (65536 * P) < W - q * Y"
proof -
  have "65536 * (P * t) \<le> W" using zl(1) zt(1) P by (simp add: W algebra_simps)
  then have "P * t < P * (yt + 1)" using \<open>W < 65536 * Y\<close> yl(2) by (simp add: Y algebra_simps)
  then show "t \<le> yt" using P by simp
  have sm: "t \<noteq> yt \<Longrightarrow> zt + 65536 * t < 65536 * yt" using \<open>t \<le> yt\<close> zt(2) by simp
  have dm: "t \<noteq> yt \<Longrightarrow> q * yt \<le> zt + 65536 * t \<and> zt + 65536 * t < (q + 1) * yt"
    using div_mult_mod_eq [of "zt + 65536 * t" yt] pos_mod_bound [OF yt(1), of "zt + 65536 * t"]
      pos_mod_sign [OF yt(1), of "zt + 65536 * t"]
    unfolding q distrib_right by (simp only: if_False mult_1) linarith
  show q0: "0 \<le> q" using yt(1) zt(1) t by (simp add: q pos_imp_zdiv_nonneg_iff)
  show q1: "q < 65536" using sm yt(1) by (auto simp: q intro!: div_less_bound)
  have "W < (q + 1) * Y"
  proof (cases "t = yt")
    case False
    have "W < P * (zt + 65536 * t + 1)" using zl(2) by (simp add: W algebra_simps)
    also have "\<dots> \<le> P * ((q + 1) * yt)" using P dm [OF False] by (intro mult_left_mono) auto
    also have "\<dots> \<le> (q + 1) * Y" using yl(1) q0 by (simp add: Y algebra_simps)
    finally show ?thesis .
  qed (use \<open>W < 65536 * Y\<close> q in simp)
  then show "W - q * Y < Y" by (simp add: algebra_simps)
  have "q * yt \<le> zt + 65536 * t" using dm zt(1) yt(1) by (cases "t = yt") (auto simp: q)
  then have "P * (q * yt) \<le> P * (zt + 65536 * t)" using P by (intro mult_left_mono) auto
  moreover have "q * yl \<le> 65535 * P" using q0 q1 yl by (intro mult_mono) auto
  ultimately show "- (65536 * P) < W - q * Y" using zl(1) P by (simp add: W Y algebra_simps)
qed

text \<open>The number above the window is the floor of the difference.\<close>

lemma borrow_floor:
  assumes "ds_val zs + 65536 ^ length zs * c = D"
  shows "c = D div 65536 ^ length zs" "ds_val zs = D mod 65536 ^ length zs"
proof -
  let ?B = "(65536::int) ^ length zs"
  have "D div ?B = (ds_val zs + ?B * c) div ?B" "D mod ?B = (ds_val zs + ?B * c) mod ?B"
    using assms by simp_all
  then show "c = D div ?B" "ds_val zs = D mod ?B"
    using ds_val_less [of zs] ds_val_nonneg [of zs] by simp_all
qed

lemma add_back_ok:
  assumes Y: "0 < ds_val ys" and W: "0 \<le> W"
  shows "length zs = length ys \<Longrightarrow> ds_val zs + 65536 ^ length ys * sint num = D \<Longrightarrow>
     - (65536 ^ length ys) \<le> D \<Longrightarrow> D < ds_val ys \<Longrightarrow> W = uint q * ds_val ys + D \<Longrightarrow>
     uint q \<le> int fuel \<Longrightarrow>
     \<exists>zs' q'. add_back fuel ys zs num q = Inr (zs', q') \<and> length zs' = length ys \<and>
        ds_val zs' = W mod ds_val ys \<and> uint q' = W div ds_val ys"
proof (induction fuel arbitrary: zs num q D)
  note less = ds_val_less [of ys]
  case base: 0
  have "uint q = 0" using base(6) by simp
  then have "D = W" using base(5) by simp
  with W base(1,2,4) less have "sint num = 0" using borrow_floor(1) [of zs "sint num" D] by simp
  then have "num = 0" "ds_val zs = W" using base(2) \<open>D = W\<close> by (metis signed_eq_0_iff, simp)
  moreover have "W mod ds_val ys = W" "W div ds_val ys = uint q"
    using base(4) W \<open>D = W\<close> \<open>uint q = 0\<close> by simp_all
  ultimately show ?case using base(1) by (simp add: add_back.simps [of 0])
next
  note less = ds_val_less [of ys]
  case (Suc fuel)
  show ?case
  proof (cases "num = 0")
    case True
    then have "D = ds_val zs" using Suc.prems(2) by simp
    then have "0 \<le> D" by (simp add: ds_val_nonneg)
    then have "W mod ds_val ys = D" "W div ds_val ys = uint q" using Suc.prems(4,5) Y by simp_all
    with True Suc.prems(1) \<open>D = ds_val zs\<close> show ?thesis by (simp add: add_back.simps [of "Suc fuel"])
  next
    case False
    have "D < 0"
    proof (rule ccontr)
      assume "\<not> D < 0"
      then have "sint num = 0" using borrow_floor(1) [of zs "sint num" D] Suc.prems(1,2,4) less by simp
      with False show False by (metis signed_eq_0_iff)
    qed
    then have "uint q \<noteq> 0" using W Suc.prems(5) by auto
    then have "1 \<le> uint q" using uint_16_bounds(1) [of q] by linarith
    then have q: "uint (q - 1) = uint q - 1"
      using uint_minus_simple_alt [of 1 q] by (simp add: word_le_def)
    obtain ws n where wn: "add_pass ys zs 0 = (ws, n)" by fastforce
    have ws: "length ws = length ys" "\<bar>sint n\<bar> \<le> 1"
      "ds_val ws + 65536 ^ length ys * sint n = ds_val zs + ds_val ys"
      using add_pass_val [OF Suc.prems(1) _ wn] by auto
    have num: "sint num = - 1"
      using borrow_floor(1) [of zs "sint num" D] Suc.prems(1-3) \<open>D < 0\<close>
        int_div_pos_eq [of D "65536 ^ length ys" "- 1" "D + 65536 ^ length ys"] by simp
    have n1: "sint (n - 1) = sint n - 1"
      using ws(2) by (intro sint_sub_eq) auto
    have "ds_val ws + 65536 ^ length ys * sint (n - 1) = D + ds_val ys"
      using ws(3) Suc.prems(2) by (simp add: n1 num algebra_simps)
    from Suc.IH [OF ws(1) this, of "q - 1"] show ?thesis
      using Suc.prems(3,5,6) \<open>D < 0\<close> Y q False wn
      by (simp add: add_back.simps [of "Suc fuel"] algebra_simps)
  qed
qed

lemma div_round_ok:
  assumes len: "length zs = length ys" and ys: "ys \<noteq> []" "last ys \<noteq> 0"
    and W: "W = ds_val zs + 65536 ^ length ys * uint t" "W < 65536 * ds_val ys"
  shows "\<exists>zs' q. div_round ys zs t = Inr (zs', q) \<and> length zs' = length ys \<and>
    ds_val zs' = W mod ds_val ys \<and> uint q = W div ds_val ys"
proof -
  define P where "P = (65536::int) ^ (length ys - 1)"
  have zs: "zs \<noteq> []" using len ys(1) by auto
  have split: "ds_val l = ds_val (butlast l) + 65536 ^ (length l - 1) * uint (last l)" if "l \<noteq> []" for l
    using ds_val_append [of "butlast l" "[last l]"] that by simp
  have pow: "(65536::int) ^ length ys = 65536 * P" using ys(1) by (cases ys) (simp_all add: P_def)
  have Y: "ds_val ys = ds_val (butlast ys) + P * uint (last ys)" using split [OF ys(1)] by (simp add: P_def)
  have W': "W = ds_val (butlast zs) + P * (uint (last zs) + 65536 * uint t)"
    using split [OF zs] len by (simp add: W(1) pow) (simp add: P_def algebra_simps)
  have bl: "ds_val (butlast l) < 65536 ^ (length l - 1)" for l using ds_val_less [of "butlast l"] by simp
  have yt: "0 < uint (last ys)" using ys(2) by (simp add: word_neq_0_conv word_less_def)
  define q :: u16 where "q = (if t = last ys then 0xFFFF
      else ucast ((BIGUP (ucast t) + ucast (last zs)) div ucast (last ys)))"
  define qi where "qi = (if uint t = uint (last ys) then 65535 else (uint (last zs) + 65536 * uint t) div uint (last ys))"
  note est = estimate [of P "ds_val (butlast ys)" "uint (last ys)" "ds_val (butlast zs)" "uint (last zs)"
      "uint t" W "ds_val ys" qi, OF _ ds_val_nonneg _ yt uint_16_bounds(2) ds_val_nonneg _
      uint_16_bounds uint_16_bounds(1) W' Y W(2) qi_def, folded P_def]
  have P: "0 < P" "ds_val (butlast ys) < P" "ds_val (butlast zs) < P"
    using bl [of ys] bl [of zs] len by (simp_all add: P_def)
  note est = est [OF P]
  have num: "uint (BIGUP (ucast t) + ucast (last zs)) = 65536 * uint t + uint (last zs)"
    using uint_16_bounds [of t] uint_16_bounds [of "last zs"]
    by (simp add: uint_add_u32 uint_BIGUP uint_ucast_16_32)
  have "uint (0xFFFF :: u16) = 65535" by simp
  then have q: "uint q = qi"
    using est(2,3) by (auto simp: q_def qi_def uint_ucast_32_16 uint_div num uint_ucast_16_32
        word_uint_eq_iff add.commute)
  have Wnn: "0 \<le> W" unfolding W(1) by (simp add: ds_val_nonneg)
  have Ypos: "0 < ds_val ys" using W(2) Wnn by linarith
  show ?thesis
  proof (cases "q = 0")
    case True
    then have "qi = 0" using q by simp
    with est(4) have "W < ds_val ys" by simp
    then have "W < 65536 ^ length ys" using ds_val_less [of ys] by linarith
    then have "ds_val zs = W" using borrow_floor [of zs "uint t" W] Wnn len W(1) by simp
    with True \<open>W < ds_val ys\<close> Wnn len show ?thesis by (simp add: div_round_def q_def [symmetric])
  next
    case False
    obtain ws n t2 where ms: "mul_sub ys zs (ucast q) 0 0 = (ws, n, t2)" by (metis prod_cases3)
    have u: "uint (ucast q :: u32) = qi" by (simp add: uint_ucast_16_32 q)
    have ws: "length ws = length ys" "\<bar>sint n\<bar> \<le> 1" "uint t2 < 65536"
      "ds_val ws + 65536 ^ length ys * (sint n - uint t2) = ds_val zs - qi * ds_val ys"
      using mul_sub_val [OF len _ _ _ ms] est(3) u by auto
    have t2: "sint t2 = uint t2" using ws(3) by (simp add: sint_eq_uint_if)
    have d: "sint (ucast t - t2) = uint t - uint t2"
      by (rule sint_sub_eq [OF sint_ucast_16_32 t2]; use ws(3) uint_16_bounds [of t] uint_ge_0 [of t2] in linarith)
    have c: "sint (n + (ucast t - t2)) = sint n + (uint t - uint t2)"
      by (rule sint_add_eq [OF refl d]; use ws(2,3) uint_16_bounds [of t] uint_ge_0 [of t2] in linarith)
    have D: "ds_val ws + 65536 ^ length ys * sint (n + (ucast t - t2)) = W - qi * ds_val ys"
      unfolding c using ws(4) by (simp add: W(1) algebra_simps)
    have "\<exists>zs' q'. add_back 65536 ys ws (n + (ucast t - t2)) q = Inr (zs', q') \<and> length zs' = length ys \<and>
        ds_val zs' = W mod ds_val ys \<and> uint q' = W div ds_val ys"
      by (rule add_back_ok [OF Ypos Wnn ws(1) D]) (use est(3,4,5) q pow in auto)
    with False ms show ?thesis by (simp add: div_round_def q_def [symmetric])
  qed
qed

section \<open>The whole division\<close>

lemma div_loop_ok:
  assumes ys: "ys \<noteq> []" "last ys \<noteq> 0"
  shows "length lo = m \<Longrightarrow> length win = length ys \<Longrightarrow>
     ds_val win + 65536 ^ length ys * uint t < 65536 * ds_val ys \<Longrightarrow>
     \<exists>rs qs. div_loop ys m (lo @ win @ [t] @ hi) = Inr (rs @ qs @ hi) \<and>
       length rs = length ys \<and> length qs = m + 1 \<and> ds_val rs < ds_val ys \<and>
       ds_val (lo @ win @ [t]) = ds_val qs * ds_val ys + ds_val rs"
proof (induction m arbitrary: lo win t hi)
  case 0
  define W where "W = ds_val win + 65536 ^ length ys * uint t"
  obtain zs q where r: "div_round ys win t = Inr (zs, q)" "length zs = length ys"
    "ds_val zs = W mod ds_val ys" "uint q = W div ds_val ys"
    using div_round_ok [OF 0(2) ys W_def] 0(3) W_def by auto
  have "0 \<le> W" by (simp add: W_def ds_val_nonneg)
  then have "0 < ds_val ys" using 0(3) W_def by linarith
  then have "ds_val zs < ds_val ys" "W = uint q * ds_val ys + ds_val zs" by (simp_all add: r(3,4))
  moreover have "div_loop ys 0 (lo @ win @ [t] @ hi) = Inr (zs @ [q] @ hi)"
    using 0 r(1) by (simp add: div_loop.simps [of _ 0] nth_append)
  ultimately show ?case using r(2) 0 by (intro exI [of _ zs] exI [of _ "[q]"]) (simp add: W_def ds_val_append)
next
  case (Suc m)
  define W where "W = ds_val win + 65536 ^ length ys * uint t"
  obtain zs q where r: "div_round ys win t = Inr (zs, q)" "length zs = length ys"
    "ds_val zs = W mod ds_val ys" "uint q = W div ds_val ys"
    using div_round_ok [OF Suc.prems(2) ys W_def] Suc.prems(3) W_def by auto
  have "0 \<le> W" by (simp add: W_def ds_val_nonneg)
  then have Y: "0 < ds_val ys" using Suc.prems(3) W_def by linarith
  then have zs: "ds_val zs < ds_val ys" "W = uint q * ds_val ys + ds_val zs" by (simp_all add: r(3,4))
  obtain lo' l where lo: "lo = lo' @ [l]" "length lo' = m"
    using Suc.prems(1) by (metis length_Suc_conv_rev)
  define win' where "win' = butlast (l # zs)"
  have win': "win' @ [last (l # zs)] = l # zs" "length win' = length ys"
    unfolding win'_def length_butlast by (rule append_butlast_last_id, simp) (simp add: r(2))
  have step: "div_loop ys (Suc m) (lo @ win @ [t] @ hi) =
      div_loop ys m (lo' @ win' @ [last (l # zs)] @ ([q] @ hi))"
  proof -
    have "lo' @ win' @ [last (l # zs)] @ ([q] @ hi) = lo' @ (win' @ [last (l # zs)]) @ q # hi" by simp
    also have "\<dots> = lo' @ l # zs @ q # hi" unfolding win'(1) by simp
    finally have eq: "lo' @ win' @ [last (l # zs)] @ ([q] @ hi) = lo' @ l # zs @ q # hi" .
    show ?thesis
      unfolding eq using Suc.prems(1,2) r(1) lo by (simp add: div_loop.simps [of _ "Suc m"] nth_append del: last.simps)
  qed
  have "ds_val win' + 65536 ^ length ys * uint (last (l # zs)) = ds_val (l # zs)"
    using arg_cong [OF win'(1), of ds_val] win'(2) by (simp add: ds_val_append del: last.simps)
  also have "\<dots> < 65536 * ds_val ys" using zs(1) uint_16_bounds [of l] by simp
  finally obtain rs qs where ih: "div_loop ys m (lo' @ win' @ [last (l # zs)] @ ([q] @ hi)) = Inr (rs @ qs @ [q] @ hi)"
    "length rs = length ys" "length qs = m + 1" "ds_val rs < ds_val ys"
    "ds_val (lo' @ win' @ [last (l # zs)]) = ds_val qs * ds_val ys + ds_val rs"
    using Suc.IH [OF lo(2) win'(2)] by blast
  have "ds_val (lo @ win @ [t]) = ds_val lo + 65536 ^ Suc m * W"
    using Suc.prems by (simp add: W_def ds_val_append)
  also have "\<dots> = ds_val (lo' @ l # zs) + 65536 ^ Suc m * (uint q * ds_val ys)"
    using lo zs(2) by (simp add: ds_val_append algebra_simps)
  also have "ds_val (lo' @ l # zs) = ds_val qs * ds_val ys + ds_val rs"
    using ih(5) unfolding win'(1) .
  finally have "ds_val (lo @ win @ [t]) = ds_val (qs @ [q]) * ds_val ys + ds_val rs"
    using ih(3) by (simp add: ds_val_append algebra_simps)
  with ih(1-4) step show ?case
    by (intro exI [of _ rs] exI [of _ "qs @ [q]"]) (simp only: append_assoc length_append simp_thms, simp)
qed

text \<open>The scaling factor: at most \<open>2 ^ 15\<close>, and the top digit of the divisor absorbs it.\<close>

lemma scale_factor:
  assumes "yt \<noteq> (0 :: u16)" and dd: "dd = (ucast (65536 div (ucast yt + 1 :: u32)) :: u16)"
  shows "0 < uint dd" "uint dd \<le> 32768" "uint dd * (uint yt + 1) \<le> 65536"
proof -
  have yt: "1 \<le> uint yt"
    using assms(1) uint_16_bounds(1) [of yt] by (metis int_one_le_iff_zero_less le_less uint_0_iff)
  have "uint (ucast yt + 1 :: u32) = uint yt + 1"
    using uint_16_bounds [of yt] by (simp add: uint_add_u32 uint_ucast_16_32)
  then have v: "uint (65536 div (ucast yt + 1 :: u32)) = 65536 div (uint yt + 1)" by (simp add: uint_div)
  have "65536 div (uint yt + 1) \<le> 65536 div 2" using yt by (intro zdiv_mono2) auto
  moreover have pos: "65536 div 65536 \<le> 65536 div (uint yt + 1)"
    using yt uint_16_bounds [of yt] by (intro zdiv_mono2) auto
  ultimately have d: "uint dd = 65536 div (uint yt + 1)"
    unfolding dd uint_ucast_32_16 v by simp
  show "0 < uint dd" "uint dd \<le> 32768" using d \<open>65536 div (uint yt + 1) \<le> 65536 div 2\<close> pos by simp_all
  show "uint dd * (uint yt + 1) \<le> 65536"
    unfolding d using yt div_mult_mod_eq [of 65536 "uint yt + 1"] pos_mod_sign [of "uint yt + 1" 65536]
    by linarith
qed

text \<open>Scaled operands: the quotient is unchanged and the top digit of the dividend is smaller.\<close>

lemma scaled_ok:
  assumes "ys \<noteq> []" "last ys \<noteq> 0" and dd: "dd = (ucast (65536 div (ucast (last ys) + 1 :: u32)) :: u16)"
    and s: "scaled dd ys xs = (yds, zlow)"
  shows "length yds = length ys" "length zlow = length xs + 1"
    "ds_val yds = uint dd * ds_val ys" "ds_val zlow = uint dd * ds_val xs"
    "yds \<noteq> []" "last yds \<noteq> 0" "uint (last zlow) < uint (last yds)"
proof -
  note f = scale_factor [OF assms(2) dd]
  have u: "uint (ucast dd :: u32) = uint dd" by (rule uint_ucast_16_32)
  have split: "ds_val l = ds_val (butlast l) + 65536 ^ (length l - 1) * uint (last l)" if "l \<noteq> []" for l
    using ds_val_append [of "butlast l" "[last l]"] that by simp
  have top: "1 \<le> uint (last ys)"
    using assms(2) uint_16_bounds(1) [of "last ys"] by (metis int_one_le_iff_zero_less le_less uint_0_iff)
  have *: "length yds = length ys \<and> length zlow = length xs + 1 \<and> ds_val yds = uint dd * ds_val ys \<and>
      ds_val zlow = uint dd * ds_val xs \<and> uint (last zlow) < uint dd"
  proof (cases "dd = 1")
    case True
    with s have "yds = ys" "zlow = xs @ [0]" by (simp_all add: scaled_def)
    with True show ?thesis by (simp add: ds_val_append)
  next
    case False
    obtain ts r ys' r' where l: "scale_loop (ucast dd) xs 0 = (ts, r)" "scale_loop (ucast dd) ys 0 = (ys', r')"
      by fastforce
    have ts: "length ts = length xs" "0 \<le> sint r" "sint r < uint dd"
      "ds_val ts + 65536 ^ length xs * sint r = uint dd * ds_val xs"
      using scale_loop_val [OF _ _ _ _ l(1)] f u by auto
    have ys': "length ys' = length ys" "0 \<le> sint r'" "ds_val ys' + 65536 ^ length ys * sint r' = uint dd * ds_val ys"
      using scale_loop_val [OF _ _ _ _ l(2)] f u by auto
    have "uint dd * ds_val ys < uint dd * ((uint (last ys) + 1) * 65536 ^ (length ys - 1))"
      using f(1) split [OF assms(1)] ds_val_less [of "butlast ys"]
      by (intro mult_strict_left_mono) (simp_all add: algebra_simps)
    also have "\<dots> = (uint dd * (uint (last ys) + 1)) * 65536 ^ (length ys - 1)" by (simp add: mult.assoc)
    also have "\<dots> \<le> 65536 * 65536 ^ (length ys - 1)" using f(3) by (intro mult_right_mono) auto
    also have "\<dots> = 65536 ^ length ys" using assms(1) by (cases ys) auto
    finally have "sint r' = 0"
      using ys' borrow_floor(1) [of ys' "sint r'" "uint dd * ds_val ys"] ds_val_nonneg [of ys] f(1) by simp
    moreover have "uint (ucast r :: u16) = sint r"
      using ts(2,3) f(2) sint_mod_uint [of r] by (simp add: uint_ucast_32_16 flip: sint_mod_uint)
    ultimately show ?thesis using False s ts ys' l by (auto simp: scaled_def ds_val_append)
  qed
  then show len: "length yds = length ys" "length zlow = length xs + 1"
    "ds_val yds = uint dd * ds_val ys" "ds_val zlow = uint dd * ds_val xs"
    by auto
  have z: "uint (last zlow) < uint dd" using * by blast
  show ne: "yds \<noteq> []" using len(1) assms(1) by auto
  have "uint dd * 65536 ^ (length ys - 1) \<le> ds_val yds"
  proof -
    have "1 * 65536 ^ (length ys - 1) \<le> uint (last ys) * 65536 ^ (length ys - 1)"
      using top by (intro mult_right_mono) auto
    also have "\<dots> \<le> ds_val ys"
      using split [OF assms(1)] ds_val_nonneg [of "butlast ys"] by (simp add: mult.commute)
    finally show ?thesis unfolding len(3) using f(1) by (intro mult_left_mono) auto
  qed
  also have "ds_val yds < (uint (last yds) + 1) * 65536 ^ (length ys - 1)"
    using split [OF ne] ds_val_less [of "butlast yds"] len(1) by (simp add: algebra_simps)
  finally have "uint dd < uint (last yds) + 1" by (simp add: mult_less_cancel_right)
  then have top': "uint dd \<le> uint (last yds)" by simp
  then show "uint (last zlow) < uint (last yds)" using z by simp
  show "last yds \<noteq> 0" using top' f(1) by auto
qed


lemma div_digits_ok:
  assumes ys: "ys \<noteq> []" "last ys \<noteq> 0" and dd: "dd = (ucast (65536 div (ucast (last ys) + 1 :: u32)) :: u16)"
    and s: "scaled dd ys xs = (yds, zlow)"
    and z: "zds = zlow @ replicate k 0" "length zds = m + length ys + 1" "k \<le> 1"
  shows "\<exists>rs qs. div_loop yds m zds = Inr (rs @ qs) \<and> length rs = length ys \<and> length qs = m + 1 \<and>
    ds_val qs = ds_val xs div ds_val ys \<and> ds_val rs = uint dd * (ds_val xs mod ds_val ys)"
proof -
  note sc = scaled_ok [OF ys dd s]
  note f = scale_factor [OF ys(2) dd]
  let ?n = "length ys"
  define lo win t where "lo = take m (butlast zds)" "win = drop m (butlast zds)" "t = last zds"
  have "zds \<noteq> []" using z(2) by auto
  then have zds: "zds = lo @ win @ [t]" by (simp add: lo_win_t_def flip: append_assoc)
  have len: "length lo = m" "length win = length yds" using z(2) sc(1) by (simp_all add: lo_win_t_def)
  have t: "uint t < uint (last yds)"
  proof (cases "k = 0")
    case False
    then have "k = 1" using z(3) by simp
    then have "t = 0" by (simp add: lo_win_t_def z(1))
    then show ?thesis using sc(6) by (simp add: word_neq_0_conv word_less_def)
  qed (use sc(7) in \<open>simp add: lo_win_t_def z(1)\<close>)
  have "ds_val win + 65536 ^ length yds * uint t < 65536 ^ length yds * (uint t + 1)"
    using ds_val_less [of win] len(2) by (simp add: algebra_simps)
  also have "\<dots> \<le> 65536 ^ length yds * uint (last yds)" using t by (intro mult_left_mono) auto
  also have "\<dots> \<le> 65536 * ds_val yds"
    using ds_val_append [of "butlast yds" "[last yds]"] sc(5) ds_val_nonneg [of "butlast yds"]
    by (cases yds rule: rev_cases) simp_all
  finally obtain rs qs where l: "div_loop yds m zds = Inr (rs @ qs @ [])" "length rs = length yds"
    "length qs = m + 1" "ds_val rs < ds_val yds" "ds_val zds = ds_val qs * ds_val yds + ds_val rs"
    using div_loop_ok [OF sc(5,6) len, of t "[]"] zds by auto
  have eq: "uint dd * ds_val xs = uint dd * ds_val ys * ds_val qs + ds_val rs"
    using l(5) sc(3,4) by (simp add: z(1) ds_val_append mult.commute)
  note b = ds_val_nonneg [of rs] l(4) [unfolded sc(3)]
  have "ds_val qs = ds_val xs div ds_val ys"
    using int_div_pos_eq [OF eq b] f(1) by simp
  moreover have "ds_val rs = uint dd * (ds_val xs mod ds_val ys)"
    unfolding mult_mod_right by (rule int_mod_pos_eq [OF eq b, symmetric])
  ultimately show ?thesis using l(1-3) sc(1) by (intro exI [of _ rs] exI [of _ qs]) simp
qed


lemma trim_len_normal: "big_normal y \<Longrightarrow> trim_len (bdigits y) (blen y) = blen y"
  by (cases "blen y") (auto simp: big_normal_def)

lemma last_bds: "big_wf y \<Longrightarrow> blen y \<noteq> 0 \<Longrightarrow> last (bds y) = bdigits y ! (blen y - 1)"
  by (subst last_conv_nth) (auto simp: bds_def big_wf_def)

text \<open>The sign of the quotient and of the remainder.\<close>

definition sgn_of :: "bool \<Rightarrow> int" where
  "sgn_of b = (if b then 1 else - 1)"

lemma big_val_sgn_of: "big_val x = sgn_of (bsign x) * big_mag x"
  by (simp add: big_val_def sgn_of_def)

lemma div_long_ok:
  assumes x: "big_normal x" and y: "big_normal y" "2 \<le> blen y" "blen y \<le> blen x"
  shows "\<exists>d m. div_long x y = Inr (d, m) \<and> inum_wf d \<and> inum_wf m \<and>
    inum_val d = sgn_of (bsign x = bsign y) * (big_mag x div big_mag y) \<and>
    inum_val m = sgn_of (bsign y) * (big_mag x mod big_mag y)"
proof -
  let ?nx = "blen x" and ?ny = "blen y"
  define dd where "dd = (ucast (65536 div (ucast (bdigits y ! (?ny - 1)) + 1 :: u32)) :: u16)"
  obtain yds zlow where s: "scaled dd (bds y) (bds x) = (yds, zlow)" by fastforce
  define k where "k = (if ?nx = ?ny then ?nx + 2 else ?nx + 1) - (?nx + 1)"
  define zds where "zds = zlow @ replicate k 0"
  define j where "j = (if ?nx = ?ny then ?nx + 1 else ?nx) - ?ny"
  note wf = big_normal_wf [OF x] big_normal_wf [OF y(1)]
  have last: "last (bds y) = bdigits y ! (?ny - 1)" using y wf by (simp add: last_bds)
  have ne: "bds y \<noteq> []" using length_bds [OF wf(2)] y(2) by auto
  have top: "last (bds y) \<noteq> 0" using y last by (auto simp: big_normal_def)
  have dd': "dd = (ucast (65536 div (ucast (last (bds y)) + 1 :: u32)) :: u16)" by (simp add: dd_def last)
  note f = scale_factor [OF top dd']
  have len: "length zds = j + length (bds y) + 1" "k \<le> 1"
    using scaled_ok(2) [OF ne top dd' s] y by (auto simp: zds_def k_def j_def length_bds wf)
  obtain rs qs where l: "div_loop yds j zds = Inr (rs @ qs)" "length rs = ?ny" "length qs = j + 1"
    "ds_val qs = big_mag x div big_mag y" "ds_val rs = uint dd * (big_mag x mod big_mag y)"
    using div_digits_ok [OF ne top dd' s zds_def len] by (auto simp: big_mag_def length_bds wf)
  obtain mds r where md: "div_digit (ucast dd) (rs @ qs) ?ny 0 = (mds, r)" by fastforce
  have m: "length mds = length (rs @ qs)" "uint r < uint dd" "ds_val rs = uint dd * ds_val (take ?ny mds) + uint r"
    using div_digit_val [OF _ _ _ _ md] f l(2) by (auto simp: uint_ucast_16_32)
  have "uint dd * (big_mag x mod big_mag y) div uint dd = ds_val (take ?ny mds)"
    using m(2,3) l(5) by (intro int_div_pos_eq [where r = "uint r"]) auto
  then have mval: "ds_val (take ?ny mds) = big_mag x mod big_mag y" using f(1) by simp
  define dv where "dv = bignorm (bignew qs (bsign x = bsign y))"
  define mv where "mv = \<lparr>bsign = bsign y, blen = ?ny, bdigits = mds\<rparr>"
  have "dd \<noteq> 0" using f(1) by auto
  then have "div_long x y = Inr (dv, bignorm mv)"
    using l(1-3) md y(2,3)
    unfolding div_long_def Let_def trim_len_normal [OF y(1)] bds_def [symmetric] dd_def [symmetric] s
      k_def [symmetric] j_def [symmetric] prod.case zds_def [symmetric]
    by (auto simp: dv_def mv_def j_def)
  moreover have "big_wf mv" using m(1) l(2) by (simp add: mv_def big_wf_def)
  moreover have "big_val mv = sgn_of (bsign y) * (big_mag x mod big_mag y)"
    using mval by (simp add: mv_def big_val_sgn_of big_mag_def bds_def)
  ultimately show ?thesis using l(4)
    by (auto simp: dv_def bignorm_wf bignorm_val sgn_of_def)
qed

text \<open>The early return: the dividend is shorter, or as long with a smaller top digit.\<close>

definition div_early :: "rbignum \<Rightarrow> rbignum \<Rightarrow> bool" where
  "div_early x y \<longleftrightarrow> blen x < blen y \<or>
     (blen x = blen y \<and> bdigits x ! (blen x - 1) < bdigits y ! (blen y - 1))"

lemma div_early_less:
  assumes "big_normal x" "big_normal y" "blen y \<noteq> 0" "div_early x y"
  shows "big_mag x < big_mag y"
proof (cases "blen x < blen y")
  case False
  then have "blen x = blen y" "bdigits x ! (blen x - 1) < bdigits y ! (blen y - 1)"
    using assms(4) by (auto simp: div_early_def)
  with assms top_digit_less [of "blen y - 1" "bdigits x" "bdigits y"] show ?thesis
    by (auto simp: big_mag_def bds_def big_normal_def big_wf_def)
qed (use assms shorter_less in blast)

lemma small_fix:
  assumes "uint (t :: u32) < 65536"
  shows "sint (FIX2INT (INT2FIX t)) = uint t" "sint (FIX2INT (INT2FIX (- t))) = - uint t"
proof -
  have t: "sint t = uint t" using assms by (simp add: sint_eq_uint_if)
  then have "t \<noteq> 0x80000000" using assms by auto
  then have n: "sint (- t) = - uint t" using t by (simp add: sint_minus_u32)
  have "FIXABLE (sint t)"
    unfolding t FIXABLE_iff using assms by simp
  moreover have "FIXABLE (sint (- t))"
    unfolding n FIXABLE_iff using assms by simp
  ultimately show "sint (FIX2INT (INT2FIX t)) = uint t" "sint (FIX2INT (INT2FIX (- t))) = - uint t"
    using t n by (simp_all add: INT2FIX_val)
qed

lemma div_short_ok:
  assumes "big_normal x" "big_normal y" "blen y = 1"
  shows "\<exists>d m. div_short x y = Inr (d, m) \<and> inum_wf d \<and> inum_wf m \<and>
    inum_val d = sgn_of (bsign x) * (big_mag x div big_mag y) \<and>
    inum_val m = sgn_of (bsign y) * (big_mag x mod big_mag y)"
proof -
  let ?y = "bdigits y ! 0"
  have y: "big_mag y = uint ?y" "?y \<noteq> 0"
    using assms(2,3) by (cases "bdigits y"; auto simp: big_mag_def bds_def big_normal_def big_wf_def)+
  have u: "uint (ucast ?y :: u32) = uint ?y" by (rule uint_ucast_16_32)
  have pos: "0 < uint ?y" using y(2) by (simp add: word_neq_0_conv word_less_def)
  obtain zds t2 where d: "div_digit (ucast ?y) (bds x) (blen x) 0 = (zds, t2)" by fastforce
  have r: "length zds = blen x" "uint t2 < uint ?y"
    "ds_val (bds x) = uint ?y * ds_val zds + uint t2"
    using div_digit_val [OF _ _ _ _ d] pos uint_16_bounds [of ?y] u length_bds [of x] assms(1) by auto
  have q: "ds_val zds = big_mag x div big_mag y" "uint t2 = big_mag x mod big_mag y"
    unfolding big_mag_def [of x] y(1)
    using int_div_pos_eq [OF r(3) uint_ge_0 r(2)] int_mod_pos_eq [OF r(3) uint_ge_0 r(2)] by simp_all
  have "uint t2 < 65536" using r(2) uint_16_bounds [of ?y] by linarith
  with d q y(2) show ?thesis by (simp add: div_short_def bignorm_wf bignorm_val sgn_of_def small_fix)
qed

text \<open>What \<^verbatim>\<open>bigdivmod\<close> returns for a divisor that is not zero, with the signs it gives.\<close>

lemma bigdivmod_ok:
  assumes "big_normal x" "big_normal y" "blen y \<noteq> 0"
  shows "\<exists>d m. bigdivmod x y = Inr (d, m) \<and> inum_wf d \<and> inum_wf m \<and>
    inum_val d = sgn_of (if blen y = 1 then bsign x else bsign x = bsign y) * (big_mag x div big_mag y) \<and>
    inum_val m = sgn_of (if div_early x y then bsign x else bsign y) * (big_mag x mod big_mag y)"
proof -
  consider (early) "div_early x y" | (one) "\<not> div_early x y" "blen y = 1"
    | (long) "\<not> div_early x y" "blen y \<noteq> 1" by blast
  then show ?thesis
  proof cases
    case early
    have "big_mag x < big_mag y" using div_early_less [OF assms early] .
    then have "big_mag x div big_mag y = 0" "big_mag x mod big_mag y = big_mag x"
      by (simp_all add: big_mag_nonneg)
    moreover have "bigdivmod x y = Inr (Fix (INT2FIX 0), bignorm x)"
      using early assms(3) by (auto simp: bigdivmod_def div_early_def Let_def)
    ultimately show ?thesis
      using early assms(1) small_fix(1) [of 0] by (simp add: bignorm_wf bignorm_val big_val_sgn_of)
  next
    case one
    then have "bigdivmod x y = div_short x y" by (auto simp: bigdivmod_def div_early_def Let_def)
    with one div_short_ok [OF assms(1,2) one(2)] show ?thesis by simp
  next
    case long
    then have "2 \<le> blen y" "blen y \<le> blen x" using assms(3) by (auto simp: div_early_def)
    moreover have "bigdivmod x y = div_long x y"
      using long assms(3) by (auto simp: bigdivmod_def div_early_def Let_def)
    ultimately show ?thesis using div_long_ok [OF assms(1,2)] long by simp
  qed
qed

lemma int_operand_div:
  "big_div E x (VInt y) = bindR (bigdivmod x (int_or_big y)) (\<lambda>(d, m). Inr (VInt d))"
  "big_mod E x (VInt y) = bindR (bigdivmod x (int_or_big y)) (\<lambda>(d, m). Inr (VInt m))"
  "big_divmod E x (VInt y) = bindR (bigdivmod x (int_or_big y)) (\<lambda>(d, m). Inr (VPair (VInt d) (VInt m)))"
  by (cases y; simp add: big_div_def big_mod_def big_divmod_def int_or_big_def)+

lemma int_or_big_nonzero:
  assumes "inum_wf y" "inum_val y \<noteq> 0"
  shows "blen (int_or_big y) \<noteq> 0"
proof
  assume "blen (int_or_big y) = 0"
  then have "big_val (int_or_big y) = 0" by (simp add: big_val_def big_mag_def bds_def)
  with assms int_or_big_ok [OF assms(1)] show False by simp
qed

lemma sgn_of_mag: "signed_ok x \<Longrightarrow> blen x \<noteq> 0 \<Longrightarrow> sgn_of (bsign x) = sgn (big_val x)"
  using big_val_neg_iff [of x] by (auto simp: signed_ok_def sgn_of_def big_val_def)

section \<open>What the methods compute\<close>

lemma big_div_mod_ok:
  assumes "signed_ok x" "inum_wf y" "inum_val y \<noteq> 0" and b: "b = int_or_big y"
  obtains d m where "bigdivmod x b = Inr (d, m)" "inum_wf d" "inum_wf m"
    "inum_val d = sgn_of (if blen b = 1 then bsign x else bsign x = bsign b) * (\<bar>big_val x\<bar> div \<bar>inum_val y\<bar>)"
    "inum_val m = sgn_of (if div_early x b then bsign x else bsign b) * (\<bar>big_val x\<bar> mod \<bar>inum_val y\<bar>)"
proof -
  note y = int_or_big_ok [OF assms(2), folded b]
  have "blen b \<noteq> 0" unfolding b by (rule int_or_big_nonzero [OF assms(2,3)])
  then show ?thesis
    using bigdivmod_ok [OF signed_ok_normal(1) [OF assms(1)] signed_ok_normal(1) [OF y(1)]] that
    unfolding abs_big_val [symmetric] y(2) by blast
qed

lemma abs_sgn_of [simp]: "\<bar>sgn_of s * k\<bar> = \<bar>k\<bar>"
  by (simp add: sgn_of_def)

lemma sgn_of_True [simp]: "sgn_of True = 1"
  by (simp add: sgn_of_def)

lemma big_div_mod_nonneg:
  assumes "signed_ok x" "inum_wf y" "0 \<le> big_val x" "0 < inum_val y"
  shows "\<exists>q r. big_div E x (VInt y) = Inr (VInt q) \<and> big_mod E x (VInt y) = Inr (VInt r) \<and> inum_wf q \<and> inum_wf r \<and>
     inum_val q = big_val x div inum_val y \<and> inum_val r = big_val x mod inum_val y"
proof -
  define b where "b = int_or_big y"
  note ok = int_or_big_ok [OF assms(2), folded b_def]
  have "inum_val y \<noteq> 0" using assms(4) by simp
  from big_div_mod_ok [OF assms(1,2) this b_def] obtain q r where d: "bigdivmod x b = Inr (q, r)" "inum_wf q" "inum_wf r"
    and q: "inum_val q = sgn_of (if blen b = 1 then bsign x else bsign x = bsign b) * (\<bar>big_val x\<bar> div \<bar>inum_val y\<bar>)"
    and r: "inum_val r = sgn_of (if div_early x b then bsign x else bsign b) * (\<bar>big_val x\<bar> mod \<bar>inum_val y\<bar>)" .
  have "bsign b" using assms(4) ok(2) big_mag_nonneg [of b] by (auto simp: big_val_def split: if_splits)
  moreover have "bsign x" using assms(1,3) big_val_neg_iff [of x] by (auto simp: big_val_def signed_ok_def split: if_splits)
  ultimately show ?thesis using d q r assms(3,4) by (simp add: int_operand_div b_def)
qed

text \<open>
  C10: dividing a Bignum by any nonzero integer never overflows and always ends: \<^verbatim>\<open>/\<close>, \<^verbatim>\<open>%\<close>
  and \<^verbatim>\<open>divmod\<close> return integers in normal form whose magnitudes are the quotient and the
  remainder of the magnitudes, and for a nonnegative dividend and a positive divisor they are
  the quotient and the remainder themselves.
\<close>
theorem big_divmod_exact:
  assumes "inum_wf (Big x)" "inum_wf y" "inum_val y \<noteq> 0"
  shows "\<exists>q r. big_div E x (VInt y) = Inr (VInt q) \<and> big_mod E x (VInt y) = Inr (VInt r) \<and>
     big_divmod E x (VInt y) = Inr (VPair (VInt q) (VInt r)) \<and> inum_wf q \<and> inum_wf r \<and>
     \<bar>inum_val q\<bar> = \<bar>inum_val (Big x)\<bar> div \<bar>inum_val y\<bar> \<and>
     \<bar>inum_val r\<bar> = \<bar>inum_val (Big x)\<bar> mod \<bar>inum_val y\<bar> \<and>
     (0 \<le> inum_val (Big x) \<and> 0 < inum_val y \<longrightarrow>
        inum_val q = inum_val (Big x) div inum_val y \<and> inum_val r = inum_val (Big x) mod inum_val y)"
proof -
  define b where "b = int_or_big y"
  note ok = inum_wf_signed_ok [OF assms(1)] int_or_big_ok [OF assms(2), folded b_def]
  obtain q r where d: "bigdivmod x b = Inr (q, r)" "inum_wf q" "inum_wf r"
    and q: "inum_val q = sgn_of (if blen b = 1 then bsign x else bsign x = bsign b) * (\<bar>big_val x\<bar> div \<bar>inum_val y\<bar>)"
    and r: "inum_val r = sgn_of (if div_early x b then bsign x else bsign b) * (\<bar>big_val x\<bar> mod \<bar>inum_val y\<bar>)"
    using big_div_mod_ok [OF ok(1) assms(2,3) b_def] .
  have "\<bar>inum_val q\<bar> = \<bar>big_val x\<bar> div \<bar>inum_val y\<bar>" "\<bar>inum_val r\<bar> = \<bar>big_val x\<bar> mod \<bar>inum_val y\<bar>"
    using q r assms(3) by (simp_all add: pos_imp_zdiv_nonneg_iff)
  moreover have "inum_val q = big_val x div inum_val y \<and> inum_val r = big_val x mod inum_val y"
    if "0 \<le> big_val x" "0 < inum_val y"
    using big_div_mod_nonneg [OF ok(1) assms(2) that] d(1) by (auto simp: int_operand_div b_def)
  ultimately show ?thesis using d by (simp add: int_operand_div b_def)
qed

theorem big_divmod_exact_witness:
  "\<exists>q r. big_divmod undefined (bignew [0, 0, 0x8000] True)
      (VInt (Big (bignew [0xFFFF, 0x7FFF] True)) :: (nat, nat) rvalue) = Inr (VPair (VInt q) (VInt r)) \<and>
     inum_val q = 65536 \<and> inum_val r = 65536"
  using big_divmod_exact [of "bignew [0, 0, 0x8000] True" "Big (bignew [0xFFFF, 0x7FFF] True)"
      "undefined :: (nat, nat) interp"]
  by (auto simp: big_normal_def)

text \<open>
  Dividing a Bignum by zero raises \<^verbatim>\<open>ZeroDivisionError\<close> in \<^verbatim>\<open>/\<close>, \<^verbatim>\<open>%\<close> and \<^verbatim>\<open>divmod\<close>.
\<close>
theorem big_div_zero:
  "big_div E x (VFix 0) = Inl (ZeroDivisionError ''divided by 0'') \<and>
   big_mod E x (VFix 0) = Inl (ZeroDivisionError ''divided by 0'') \<and>
   big_divmod E x (VFix 0) = Inl (ZeroDivisionError ''divided by 0'')"
proof -
  have "FIX2INT (INT2FIX 0) = 0" by (simp add: FIX2INT_def INT2FIX_def)
  then have "bigdivmod x (int_or_big (Fix (INT2FIX 0))) = num_zerodiv"
    by (simp add: int_or_big_def bigdivmod_def int2big_def uint2big_def BIGLO_def BIGDN_def Let_def numeral_2_eq_2)
  then show ?thesis by (simp add: int_operand_div num_zerodiv_def)
qed

text \<open>
  The sign of the divisor is lost when it has one digit. For every Bignum \<open>x\<close> and every
  \<open>y\<close> with \<open>0 < \<bar>y\<bar> < 65536\<close>, dividing by \<open>y\<close> and by \<open>- y\<close> gives the same quotient, the one
  whose sign is the sign of \<open>x\<close>; and the remainder takes the sign of \<open>y\<close>, so the quotient and
  the remainder do not recompose the dividend when \<open>y\<close> is negative and does not divide \<open>x\<close>.
\<close>
theorem big_div_one_digit_sign:
  assumes "inum_wf (Big x)" "inum_wf y" "0 < \<bar>inum_val y\<bar>" "\<bar>inum_val y\<bar> < 65536"
  shows "\<exists>q r. big_div E x (VInt y) = Inr (VInt q) \<and> big_mod E x (VInt y) = Inr (VInt r) \<and>
     inum_val q = sgn (inum_val (Big x)) * (\<bar>inum_val (Big x)\<bar> div \<bar>inum_val y\<bar>) \<and>
     inum_val r = sgn (inum_val y) * (\<bar>inum_val (Big x)\<bar> mod \<bar>inum_val y\<bar>)"
proof -
  define b where "b = int_or_big y"
  note ok = inum_wf_signed_ok [OF assms(1)] int_or_big_ok [OF assms(2), folded b_def]
  have "inum_val y \<noteq> 0" using assms(3) by auto
  then have b0: "blen b \<noteq> 0" unfolding b_def by (rule int_or_big_nonzero [OF assms(2)])
  have "big_mag b < 65536" using assms(4) abs_big_val [of b] ok(3) by simp
  moreover have "65536 ^ (blen b - 1) \<le> big_mag b" using normal_mag_ge b0 ok(2) signed_ok_normal by blast
  ultimately have "(65536::int) ^ (blen b - 1) < 65536 ^ 1" by simp
  then have "blen b - 1 < 1" by (subst (asm) power_strict_increasing_iff) auto
  then have b1: "blen b = 1" using b0 by simp
  then have ne: "\<not> div_early x b" using assms(1) by (auto simp: div_early_def)
  have x0: "blen x \<noteq> 0" using assms(1) by auto
  obtain q r where "bigdivmod x b = Inr (q, r)"
    and "inum_val q = sgn_of (if blen b = 1 then bsign x else bsign x = bsign b) * (\<bar>big_val x\<bar> div \<bar>inum_val y\<bar>)"
    and "inum_val r = sgn_of (if div_early x b then bsign x else bsign b) * (\<bar>big_val x\<bar> mod \<bar>inum_val y\<bar>)"
    using big_div_mod_ok [OF ok(1) assms(2) \<open>inum_val y \<noteq> 0\<close> b_def] .
  with b1 ne ok sgn_of_mag [OF ok(1) x0] sgn_of_mag [OF ok(2) b0] show ?thesis
    by (simp add: int_operand_div b_def [symmetric])
qed

theorem big_div_one_digit_sign_witness:
  "\<exists>q r. big_div undefined (bignew [0, 0, 0x100] True) (VFix (- 3) :: (nat, nat) rvalue) = Inr (VInt q) \<and>
     big_mod undefined (bignew [0, 0, 0x100] True) (VFix (- 3) :: (nat, nat) rvalue) = Inr (VInt r) \<and>
     inum_val q = 366503875925 \<and> inum_val r = - 1"
  using big_div_one_digit_sign [of "bignew [0, 0, 0x100] True" "Fix (INT2FIX (- 3))" "undefined :: (nat, nat) interp"]
  by (simp add: big_normal_def sint_FIX2INT INT2FIX_alt)

end
