(* ===== verification/BigBits.thy ===== *)
theory BigBits
  imports BigDiv
begin

text \<open>
  The bitwise operations and shifts of \<^verbatim>\<open>src/bignum.c\<close>. A negative operand is turned into the
  digits of its two's complement (\<^verbatim>\<open>big_2comp\<close>), the digits are combined, and a negative
  result is turned back.
\<close>

section \<open>Two's complement\<close>

text \<open>\<^verbatim>\<open>num = 1; do { num += ds[i]; ds[i++] = BIGLO(num); num = BIGDN(num); } while (i < len)\<close>\<close>

fun inc_loop :: "u16 list \<Rightarrow> u32 \<Rightarrow> u16 list" where
  "inc_loop [] num = []"
| "inc_loop (d # ds) num = (let num = num + ucast d in BIGLO num # inc_loop ds (SBIGDN num))"

text \<open>
  When the complement is 0 or 1 in all its digits, the source grows the Bignum by a digit, but
  \<^verbatim>\<open>REALLOC_N(BDIGITS(x), USHORT, x->len++)\<close> evaluates \<^verbatim>\<open>len\<close> before the increment: the
  block keeps its length and \<^verbatim>\<open>ds[x->len-1] = 1\<close> is a write after its end. A Bignum without
  digits is never complemented; the loop would use a digit that is not there.
\<close>

definition big_2comp :: "rbignum \<Rightarrow> rbignum result" where
  "big_2comp x =
     (let ds = inc_loop (map (\<lambda>d. NOT d) (bds x)) 1 in
      if blen x = 0 then Inl OutOfBounds
      else if (ds ! 0 = 1 \<or> ds ! 0 = 0) \<and> list_all (\<lambda>d. d = 0) (drop 1 ds) then Inl OutOfBounds
      else Inr (x\<lparr>bdigits := ds @ drop (blen x) (bdigits x)\<rparr>))"

definition big_neg :: "rbignum \<Rightarrow> inum result" where
  "big_neg x =
     (let z = big_clone x in
      bindR (if \<not> bsign x then big_2comp z else Inr z) (\<lambda>z.
        let z = z\<lparr>bdigits := map (\<lambda>d. NOT d) (bds z)\<rparr> in
        bindR (if bsign x then big_2comp z else Inr z) (\<lambda>z.
          Inr (bignorm (z\<lparr>bsign := \<not> bsign z\<rparr>)))))"

section \<open>And, or, exclusive or\<close>

text \<open>The operand as a Bignum, or the error of \<^verbatim>\<open>Check_Type\<close>.\<close>

definition bit_operand :: "('d, 'o) rvalue \<Rightarrow> rbignum result" where
  "bit_operand y =
     (case y of
        VInt (Fix f) \<Rightarrow> Inr (int2big (FIX2INT f))
      | VInt (Big b) \<Rightarrow> Inr b
      | _ \<Rightarrow> Inl (TypeError ''wrong argument type %s (expected %s)''))"

definition comp_operand :: "rbignum \<Rightarrow> rbignum result" where
  "comp_operand x = (if \<not> bsign x then big_2comp (big_clone x) else Inr x)"

text \<open>
  The two loops over the shorter operand \<open>xs\<close> with sign \<open>s\<close> and the longer one.
\<close>

fun bit_loop :: "(u16 \<Rightarrow> u16 \<Rightarrow> u16) \<Rightarrow> (u16 \<Rightarrow> u16) \<Rightarrow> u16 list \<Rightarrow> u16 list \<Rightarrow> u16 list" where
  "bit_loop f g (x # xs) (y # ys) = f x y # bit_loop f g xs ys"
| "bit_loop f g [] ys = map g ys"
| "bit_loop f g xs [] = []"

definition and_digits :: "bool \<Rightarrow> u16 list \<Rightarrow> u16 list \<Rightarrow> u16 list" where
  "and_digits s = bit_loop (AND) (if s then (\<lambda>d. 0) else (\<lambda>d. d))"

definition or_digits :: "bool \<Rightarrow> u16 list \<Rightarrow> u16 list \<Rightarrow> u16 list" where
  "or_digits s = bit_loop (OR) (if s then (\<lambda>d. d) else (\<lambda>d. 0xFFFF))"

definition xor_digits :: "bool \<Rightarrow> u16 list \<Rightarrow> u16 list \<Rightarrow> u16 list" where
  "xor_digits s = bit_loop (XOR) (if s then (\<lambda>d. d) else (\<lambda>d. NOT d))"

text \<open>
  The common body: complement both operands, order them by length, combine the digits, give
  the result the sign \<open>zsign\<close> of the two signs and complement a negative result.
\<close>

definition big_bitop ::
  "(bool \<Rightarrow> u16 list \<Rightarrow> u16 list \<Rightarrow> u16 list) \<Rightarrow> (bool \<Rightarrow> bool \<Rightarrow> bool) \<Rightarrow> rbignum \<Rightarrow> ('d, 'o) rvalue \<Rightarrow> inum result" where
  "big_bitop digits zsign x y =
     bindR (bit_operand y) (\<lambda>y.
     bindR (comp_operand y) (\<lambda>y.
     bindR (comp_operand x) (\<lambda>x.
       let (a, b) = (if blen x > blen y then (y, x) else (x, y));
           z = bignew (digits (bsign a) (bds a) (bds b)) (zsign (bsign x) (bsign y))
       in bindR (if \<not> bsign z then big_2comp z else Inr z) (\<lambda>z. Inr (bignorm z)))))"

definition big_and :: "rbignum \<Rightarrow> ('d, 'o) rvalue \<Rightarrow> inum result" where
  "big_and = big_bitop and_digits (\<and>)"

definition big_or :: "rbignum \<Rightarrow> ('d, 'o) rvalue \<Rightarrow> inum result" where
  "big_or = big_bitop or_digits (\<or>)"

definition big_xor :: "rbignum \<Rightarrow> ('d, 'o) rvalue \<Rightarrow> inum result" where
  "big_xor = big_bitop xor_digits (=)"

section \<open>Conversion of arguments\<close>

text \<open>
  \<^verbatim>\<open>num2int\<close>: an object that is no number is asked for \<^verbatim>\<open>to_i\<close>, and the answer is converted
  again; \<^verbatim>\<open>rb_rescue\<close> turns an exception of \<^verbatim>\<open>to_i\<close> into a \<^verbatim>\<open>TypeError\<close>.
\<close>

partial_function (option) num2int_opt :: "('d, 'o) interp \<Rightarrow> ('d, 'o) rvalue \<Rightarrow> u32 result option" where
  "num2int_opt E v =
     (case v of
        VNil \<Rightarrow> Some (Inr 0)
      | VInt (Fix f) \<Rightarrow> Some (Inr (FIX2INT f))
      | VInt (Big b) \<Rightarrow> Some (big2int b)
      | VFloat d \<Rightarrow>
          Some (if f_le (flo E) d (f_of_int (flo E) 2147483647) \<and> f_le (flo E) (f_of_int (flo E) (- 2147483648)) d
                then Inr (f_to_long (flo E) d)
                else Inl (Fail ''float %g out of rang of integer''))
      | _ \<Rightarrow>
          (case rb_funcall E ''to_i'' v [] of
             Inl e \<Rightarrow> Some (Inl (TypeError ''failed to convert %s into Integer''))
           | Inr v' \<Rightarrow> num2int_opt E v'))"

definition NUM2INT :: "('d, 'o) interp \<Rightarrow> ('d, 'o) rvalue \<Rightarrow> u32 result" where
  "NUM2INT E v = (case num2int_opt E v of None \<Rightarrow> Inl Diverges | Some r \<Rightarrow> r)"

definition num2fix :: "('d, 'o) interp \<Rightarrow> ('d, 'o) rvalue \<Rightarrow> u32 result" where
  "num2fix E v =
     (case v of
        VNil \<Rightarrow> Inr (INT2FIX 0)
      | VInt (Fix f) \<Rightarrow> Inr f
      | _ \<Rightarrow> bindR (NUM2INT E v) (\<lambda>i.
          if \<not> FIXABLE (sint i) then Inl (Fail ''integer %d out of range of Fixnum'') else Inr (INT2FIX i)))"

section \<open>Shifts\<close>

fun lshift_loop :: "nat \<Rightarrow> u16 list \<Rightarrow> u32 \<Rightarrow> u16 list" where
  "lshift_loop s2 [] num = [BIGLO num]"
| "lshift_loop s2 (x # xs) num =
     (let num = num OR push_bit s2 (ucast x) in BIGLO num # lshift_loop s2 xs (BIGDN num))"

definition lshift_digits :: "rbignum \<Rightarrow> nat \<Rightarrow> inum" where
  "lshift_digits x shift =
     (let s1 = shift div 16; s2 = shift mod 16
      in bignorm (bignew (replicate s1 0 @ lshift_loop s2 (bds x) 0) (bsign x)))"

text \<open>\<^verbatim>\<open>while (i--, j--)\<close>, from the top digit down; the argument is the list of digits from the
  top one.\<close>

fun rshift_loop :: "nat \<Rightarrow> u16 list \<Rightarrow> u32 \<Rightarrow> u16 list \<Rightarrow> u16 list" where
  "rshift_loop s2 [] num zds = zds"
| "rshift_loop s2 (x # xs) num zds =
     (let num = drop_bit s2 (num OR ucast x)
      in rshift_loop s2 xs (BIGUP (ucast x)) (BIGLO num # zds))"

definition rshift_digits :: "rbignum \<Rightarrow> nat \<Rightarrow> inum" where
  "rshift_digits x shift =
     (let s1 = shift div 16; s2 = shift mod 16
      in if s1 > blen x then (if bsign x then Fix (INT2FIX 0) else Fix (INT2FIX (- 1)))
         else bignorm (bignew (rshift_loop s2 (rev (drop s1 (bds x))) 0 []) (bsign x)))"

text \<open>
  \<^verbatim>\<open>big_lshift\<close> and \<^verbatim>\<open>big_rshift\<close> call each other with \<^verbatim>\<open>INT2FIX(-shift)\<close> for a negative
  width; \<open>left\<close> tells which of the two runs.
\<close>

partial_function (option) big_shift :: "bool \<Rightarrow> rbignum \<Rightarrow> u32 \<Rightarrow> inum option" where
  "big_shift left x shift =
     (if sint shift < 0 then big_shift (\<not> left) x (FIX2INT (INT2FIX (- shift)))
      else Some (if left then lshift_digits x (nat (sint shift)) else rshift_digits x (nat (sint shift))))"

definition shift_result :: "inum option \<Rightarrow> inum result" where
  "shift_result r = (case r of None \<Rightarrow> Inl Diverges | Some z \<Rightarrow> Inr z)"

definition big_lshift :: "('d, 'o) interp \<Rightarrow> rbignum \<Rightarrow> ('d, 'o) rvalue \<Rightarrow> inum result" where
  "big_lshift E x y = bindR (NUM2INT E y) (\<lambda>shift. shift_result (big_shift True x shift))"

definition big_rshift :: "('d, 'o) interp \<Rightarrow> rbignum \<Rightarrow> ('d, 'o) rvalue \<Rightarrow> inum result" where
  "big_rshift E x y = bindR (NUM2INT E y) (\<lambda>shift. shift_result (big_shift False x shift))"

definition big_aref :: "('d, 'o) interp \<Rightarrow> rbignum \<Rightarrow> ('d, 'o) rvalue \<Rightarrow> inum result" where
  "big_aref E x y =
     bindR (NUM2INT E y) (\<lambda>shift.
       if sint shift < 0 then Inr (Fix (INT2FIX 0))
       else let s1 = nat (sint shift) div 16; s2 = nat (sint shift) mod 16
            in if s1 \<ge> blen x then Inr (Fix (INT2FIX (if \<not> bsign x then 1 else 0)))
               else bindR (comp_operand x) (\<lambda>x.
                 Inr (Fix (INT2FIX (if bdigits x ! s1 AND push_bit s2 1 \<noteq> 0 then 1 else 0)))))"

section \<open>Digits as two's complement numbers\<close>

text \<open>
  The integer that the digits \<open>ds\<close> stand for when all higher digits are zero (\<open>s\<close>) or all ones.
\<close>

primrec tc_val :: "bool \<Rightarrow> u16 list \<Rightarrow> int" where
  "tc_val s [] = (if s then 0 else - 1)"
| "tc_val s (d # ds) = uint d + 65536 * tc_val s ds"

lemma tc_val_ds_val: "tc_val s ds = ds_val ds - (if s then 0 else 65536 ^ length ds)"
  by (induction ds) auto

lemma tc_val_change: "tc_val True ds = tc_val False ds + 65536 ^ length ds"
  by (simp add: tc_val_ds_val)

lemma digit_bits: "bit (uint (d :: u16) + 65536 * a) n = (if n < 16 then bit d n else bit a (n - 16))"
proof -
  have "uint d + 65536 * a = concat_bit 16 (uint d) a"
    using uint_16_bounds [of d] by (simp add: concat_bit_eq take_bit_eq_mod push_bit_eq_mult)
  then show ?thesis by (simp add: bit_concat_bit_iff bit_uint_iff)
qed

lemma digitwise:
  "uint (d AND e :: u16) + 65536 * (a AND b) = (uint d + 65536 * a) AND (uint e + 65536 * b)"
  "uint (d OR e :: u16) + 65536 * (a OR b) = (uint d + 65536 * a) OR (uint e + 65536 * b)"
  "uint (d XOR e :: u16) + 65536 * (a XOR b) = (uint d + 65536 * a) XOR (uint e + 65536 * b)"
  by (rule bit_eqI; simp only: digit_bits bit_and_iff bit_or_iff bit_xor_iff; simp)+

lemma uint_not_digit: "uint (NOT (d :: u16)) = 65535 - uint d"
proof -
  have "NOT d = - 1 - d" by (simp add: not_eq_complement)
  moreover have "uint (- 1 :: u16) = 65535" by (simp add: unsigned_minus_1_eq_mask mask_eq_exp_minus_1)
  ultimately show ?thesis
    using uint_minus_simple_alt [of d "- 1"] uint_16_bounds [of d] by (simp add: word_le_def)
qed

lemma ds_val_not: "ds_val (map (\<lambda>d. NOT d) ds) = 65536 ^ length ds - 1 - ds_val ds"
  by (induction ds) (auto simp: uint_not_digit)

lemma tc_val_bit:
  "bit (tc_val s ds) n = (if n div 16 < length ds then bit (ds ! (n div 16)) (n mod 16) else \<not> s)"
proof (induction ds arbitrary: n)
  case (Cons d ds)
  have "n div 16 = Suc ((n - 16) div 16) \<and> n mod 16 = (n - 16) mod 16" if "\<not> n < 16"
    using that le_div_geq [of 16 n] le_mod_geq [of 16 n] by simp
  then show ?case using Cons [of "n - 16"] by (auto simp: digit_bits)
qed simp

section \<open>Complement\<close>

lemma inc_loop_val:
  "0 \<le> sint num \<Longrightarrow> sint num \<le> 1 \<Longrightarrow>
     length (inc_loop ds num) = length ds \<and>
     (\<exists>c. 0 \<le> c \<and> ds_val (inc_loop ds num) + 65536 ^ length ds * c = ds_val ds + sint num)"
proof (induction ds num rule: inc_loop.induct)
  case (2 d ds num)
  define n where "n = num + ucast d"
  have n: "sint n = sint num + uint d" unfolding n_def by (rule sint_digit_sum) (use 2 in simp)
  have s: "0 \<le> sint (SBIGDN n)" "sint (SBIGDN n) \<le> 1"
    using n 2(2,3) uint_16_bounds [of d] by (simp_all add: sint_SBIGDN pos_imp_zdiv_nonneg_iff)
  obtain c where c: "0 \<le> c" "length (inc_loop ds (SBIGDN n)) = length ds"
    "ds_val (inc_loop ds (SBIGDN n)) + 65536 ^ length ds * c = ds_val ds + sint (SBIGDN n)"
    using 2(1) [OF n_def s] by auto
  have "uint (BIGLO n) + 65536 * sint (SBIGDN n) = sint n" by (simp add: sint_BIGLO sint_SBIGDN)
  then have "ds_val (inc_loop (d # ds) num) + 65536 ^ length (d # ds) * c = ds_val (d # ds) + sint num"
    using c(3) n by (simp add: n_def [symmetric] Let_def algebra_simps)
  with c show ?case by (auto simp: n_def [symmetric] Let_def)
qed auto

lemma digit_split:
  "0 \<le> (d::int) \<Longrightarrow> d < 65536 \<Longrightarrow> 0 \<le> v \<Longrightarrow> 0 \<le> k \<Longrightarrow> k < 65536 \<Longrightarrow> d + 65536 * v = k \<longleftrightarrow> d = k \<and> v = 0"
  by auto

lemma ds_val_zero: "ds_val ds = 0 \<longleftrightarrow> list_all (\<lambda>d. d = 0) ds"
proof (induction ds)
  case (Cons d ds)
  have "uint d + 65536 * ds_val ds = 0 \<longleftrightarrow> uint d = 0 \<and> ds_val ds = 0"
    by (rule digit_split [OF uint_16_bounds ds_val_nonneg]) auto
  with Cons show ?case by (simp add: uint_0_iff)
qed simp

lemma ds_val_zero_one:
  "ds \<noteq> [] \<Longrightarrow> (ds ! 0 = 1 \<or> ds ! 0 = 0) \<and> list_all (\<lambda>d. d = 0) (drop 1 ds) \<longleftrightarrow> ds_val ds = 0 \<or> ds_val ds = 1"
proof (cases ds)
  case (Cons d es)
  have "ds_val ds = k \<longleftrightarrow> uint d = k \<and> ds_val es = 0" if "0 \<le> k" "k < 65536" for k
    using digit_split [OF uint_16_bounds ds_val_nonneg that] Cons by simp
  from this [of 0] this [of 1] Cons show ?thesis
    by (auto simp: ds_val_zero word_uint_eq_iff)
qed simp

text \<open>A Bignum whose digits in use are all ones.\<close>

definition all_ones :: "rbignum \<Rightarrow> bool" where
  "all_ones x \<longleftrightarrow> big_mag x = 65536 ^ blen x - 1"

lemma big_2comp_ok:
  assumes "big_wf x" "blen x \<noteq> 0"
  shows "if big_mag x = 0 \<or> all_ones x then big_2comp x = Inl OutOfBounds
    else \<exists>z. big_2comp x = Inr z \<and> big_wf z \<and> blen z = blen x \<and> bsign z = bsign x \<and>
      big_mag z = 65536 ^ blen x - big_mag x"
proof -
  let ?n = "blen x"
  define ds where "ds = inc_loop (map (\<lambda>d. NOT d) (bds x)) 1"
  have lb: "length (bds x) = ?n" using length_bds [OF assms(1)] .
  obtain c where c: "0 \<le> c" "length ds = ?n" "ds_val ds + 65536 ^ ?n * c = 65536 ^ ?n - big_mag x"
    using inc_loop_val [of 1 "map (\<lambda>d. NOT d) (bds x)"]
    by (auto simp: ds_def lb ds_val_not big_mag_def algebra_simps)
  have less: "big_mag x < 65536 ^ ?n" "ds_val ds < 65536 ^ ?n" "0 \<le> ds_val ds" "0 \<le> big_mag x"
    using big_mag_less [OF assms(1)] ds_val_less [of ds] c(2) by (simp_all add: ds_val_nonneg big_mag_nonneg)
  have val: "ds_val ds = (if big_mag x = 0 then 0 else 65536 ^ ?n - big_mag x)"
  proof -
    have "65536 ^ ?n * c \<le> 65536 ^ ?n * 1" using c(3) less by linarith
    then have "c \<le> 1" by (simp add: mult_le_cancel_left)
    then consider "c = 0" | "c = 1" using c(1) by linarith
    then show ?thesis by cases (use c(3) less in auto)
  qed
  have ne: "ds \<noteq> []" using c(2) assms(2) by auto
  have fail: "(ds ! 0 = 1 \<or> ds ! 0 = 0) \<and> list_all (\<lambda>d. d = 0) (drop 1 ds) \<longleftrightarrow> big_mag x = 0 \<or> all_ones x"
    unfolding ds_val_zero_one [OF ne] val all_ones_def using less by auto
  define z where "z = x\<lparr>bdigits := ds @ drop ?n (bdigits x)\<rparr>"
  have "big_2comp x = (if big_mag x = 0 \<or> all_ones x then Inl OutOfBounds else Inr z)"
    unfolding big_2comp_def Let_def ds_def [symmetric] fail z_def using assms(2) by simp
  moreover have "big_wf z" "blen z = ?n" "bsign z = bsign x" "big_mag z = ds_val ds"
    using c(2) by (simp_all add: z_def big_wf_def big_mag_def bds_def)
  ultimately show ?thesis using val by auto
qed

section \<open>Operands and results of the bitwise operations\<close>

lemma tc_val_mag: "big_wf z \<Longrightarrow> tc_val s (bds z) = big_mag z - (if s then 0 else 65536 ^ blen z)"
  by (simp add: tc_val_ds_val big_mag_def length_bds)

lemma big_clone_sel [simp]: "blen (big_clone x) = length (bds x)" "bsign (big_clone x) = bsign x"
    "big_wf (big_clone x)" "big_mag (big_clone x) = big_mag x"
  by (simp_all add: big_clone_def) (simp add: big_mag_def)

lemma comp_operand_ok:
  assumes "signed_ok x"
  shows "if \<not> bsign x \<and> all_ones x then comp_operand x = Inl OutOfBounds
    else \<exists>z. comp_operand x = Inr z \<and> big_wf z \<and> blen z = blen x \<and> bsign z = bsign x \<and>
      tc_val (bsign x) (bds z) = big_val x"
proof (cases "bsign x")
  case True
  then show ?thesis using assms
    by (simp add: comp_operand_def signed_ok_normal tc_val_mag big_val_def)
next
  case False
  then have x: "big_wf x" "blen x \<noteq> 0" "0 < big_mag x"
    using assms big_val_neg_iff [of x] by (auto simp: signed_ok_def)
  have "big_wf (big_clone x)" "blen (big_clone x) \<noteq> 0" using x by (simp_all add: length_bds)
  from big_2comp_ok [OF this] show ?thesis
    using False x by (auto simp: comp_operand_def all_ones_def length_bds tc_val_mag big_val_def split: if_splits)
qed

text \<open>The end of each operation: complement a negative result and normalise.\<close>

definition bit_result :: "u16 list \<Rightarrow> bool \<Rightarrow> inum result" where
  "bit_result zs s =
     (let z = bignew zs s in bindR (if \<not> bsign z then big_2comp z else Inr z) (\<lambda>z. Inr (bignorm z)))"

lemma bit_result_ok:
  assumes "zs \<noteq> []"
  shows "if \<not> s \<and> (tc_val False zs = - 1 \<or> tc_val False zs = - (65536 ^ length zs))
    then bit_result zs s = Inl OutOfBounds
    else \<exists>w. bit_result zs s = Inr w \<and> inum_wf w \<and> inum_val w = tc_val s zs"
proof (cases s)
  case True
  then show ?thesis by (simp add: bit_result_def bignorm_wf bignorm_val tc_val_ds_val)
next
  case False
  have "big_wf (bignew zs s)" "blen (bignew zs s) \<noteq> 0" using assms by simp_all
  from big_2comp_ok [OF this] show ?thesis using False
    by (auto simp: bit_result_def all_ones_def tc_val_ds_val bignorm_wf bignorm_val big_val_def split: if_splits)
qed

section \<open>The three operations\<close>

text \<open>
  What the loops of one operation owe to it: on the digits of the shorter operand \<open>xs\<close> and
  the longer one \<open>ys\<close>, the result digits with the sign \<open>sg\<close> stand for \<open>F\<close> of the two integers.
\<close>

locale bit_digits =
  fixes digits :: "bool \<Rightarrow> u16 list \<Rightarrow> u16 list \<Rightarrow> u16 list"
    and F :: "int \<Rightarrow> int \<Rightarrow> int"
    and sg :: "bool \<Rightarrow> bool \<Rightarrow> bool"
  assumes digits_length: "length xs \<le> length ys \<Longrightarrow> length (digits s xs ys) = length ys"
    and digits_val: "length xs \<le> length ys \<Longrightarrow>
      tc_val (sg s t) (digits s xs ys) = F (tc_val s xs) (tc_val t ys)"
    and F_comm: "F a b = F b a"
    and sg_comm: "sg s t = sg t s"
begin

definition overflow :: "(bool \<Rightarrow> bool \<Rightarrow> bool) \<Rightarrow> rbignum \<Rightarrow> rbignum \<Rightarrow> bool" where
  "overflow zsign x y \<longleftrightarrow>
     (let v = F (big_val x) (big_val y) - (if sg (bsign x) (bsign y) then 65536 ^ max (blen x) (blen y) else 0)
      in (\<not> bsign x \<and> all_ones x) \<or> (\<not> bsign y \<and> all_ones y) \<or>
         (\<not> zsign (bsign x) (bsign y) \<and> (v = - 1 \<or> v = - (65536 ^ max (blen x) (blen y)))))"

lemma ordered_digits:
  assumes "big_wf a" "big_wf b"
  shows "\<exists>zs. (let (c, d) = (if blen a > blen b then (b, a) else (a, b)) in digits (bsign c) (bds c) (bds d)) = zs \<and>
     length zs = max (blen a) (blen b) \<and>
     tc_val (sg (bsign a) (bsign b)) zs = F (tc_val (bsign a) (bds a)) (tc_val (bsign b) (bds b))"
proof (cases "blen a > blen b")
  case True
  then show ?thesis
    using assms digits_length [of "bds b" "bds a" "bsign b"] digits_val [of "bds b" "bds a" "bsign b" "bsign a"]
    by (simp add: length_bds F_comm [of "tc_val (bsign a) (bds a)"] sg_comm [of "bsign a"])
next
  case False
  then show ?thesis
    using assms digits_length [of "bds a" "bds b" "bsign a"] digits_val [of "bds a" "bds b" "bsign a" "bsign b"]
    by (simp add: length_bds)
qed

lemma bitop_value:
  assumes "signed_ok x" "blen x \<noteq> 0" "inum_wf y" and b: "b = int_or_big y"
  shows "if overflow zsign x b then big_bitop digits zsign x (VInt y :: ('d, 'o) rvalue) = Inl OutOfBounds
    else \<exists>z. big_bitop digits zsign x (VInt y :: ('d, 'o) rvalue) = Inr z \<and> inum_wf z \<and>
      inum_val z = F (big_val x) (inum_val y) + 65536 ^ max (blen x) (blen b) *
        (of_bool (zsign (bsign x) (bsign b)) - of_bool (sg (bsign x) (bsign b)))"
proof -
  note y = int_or_big_ok [OF assms(3), folded b]
  have op: "bit_operand (VInt y :: ('d, 'o) rvalue) = Inr b" by (cases y) (simp_all add: bit_operand_def b int_or_big_def)
  show ?thesis
  proof (cases "(\<not> bsign x \<and> all_ones x) \<or> (\<not> bsign b \<and> all_ones b)")
    case True
    then have "overflow zsign x b" by (auto simp: overflow_def Let_def)
    moreover have "big_bitop digits zsign x (VInt y :: ('d, 'o) rvalue) = Inl OutOfBounds"
      using True op comp_operand_ok [OF y(1)] comp_operand_ok [OF assms(1)]
      by (auto simp: big_bitop_def split: if_splits)
    ultimately show ?thesis by simp
  next
    case False
    obtain c where c: "comp_operand x = Inr c" "big_wf c" "blen c = blen x" "bsign c = bsign x"
      "tc_val (bsign x) (bds c) = big_val x"
      using comp_operand_ok [OF assms(1)] False by auto
    obtain d where d: "comp_operand b = Inr d" "big_wf d" "blen d = blen b" "bsign d = bsign b"
      "tc_val (bsign b) (bds d) = big_val b"
      using comp_operand_ok [OF y(1)] False by auto
    obtain zs where zs: "(let (e, f) = (if blen c > blen d then (d, c) else (c, d)) in digits (bsign e) (bds e) (bds f)) = zs"
      "length zs = max (blen x) (blen b)"
      "tc_val (sg (bsign x) (bsign b)) zs = F (big_val x) (big_val b)"
      using ordered_digits [OF c(2) d(2)] c d by auto
    have "big_bitop digits zsign x (VInt y :: ('d, 'o) rvalue) = bit_result zs (zsign (bsign x) (bsign b))"
      using op c d zs(1)
      by (simp add: big_bitop_def bit_result_def) (auto simp: Let_def split: if_splits)
    moreover have "zs \<noteq> []" using zs(2) assms(2) by auto
    moreover have "overflow zsign x b \<longleftrightarrow> \<not> zsign (bsign x) (bsign b) \<and>
        (tc_val False zs = - 1 \<or> tc_val False zs = - (65536 ^ length zs))"
      using False zs(2,3) tc_val_change [of zs]
      by (cases "sg (bsign x) (bsign b)") (auto simp: overflow_def Let_def)
    moreover have "tc_val (zsign (bsign x) (bsign b)) zs = F (big_val x) (inum_val y) + 65536 ^ max (blen x) (blen b) *
        (of_bool (zsign (bsign x) (bsign b)) - of_bool (sg (bsign x) (bsign b)))"
      using zs(2,3) tc_val_change [of zs] y(2)
      by (cases "zsign (bsign x) (bsign b)"; cases "sg (bsign x) (bsign b)") auto
    ultimately show ?thesis using bit_result_ok [of zs "zsign (bsign x) (bsign b)"] by auto
  qed
qed

end

lemma length_bit_loop: "length xs \<le> length ys \<Longrightarrow> length (bit_loop f g xs ys) = length ys"
  by (induction f g xs ys rule: bit_loop.induct) auto

lemma tc_val_map_const: "tc_val s (map (\<lambda>d. c) ys) = (if s \<and> c = 0 then 0 else if \<not> s \<and> c = 0xFFFF then - 1 else tc_val s (map (\<lambda>d. c) ys))"
  by (induction ys) (auto split: if_splits)

lemma tc_val_not: "tc_val (\<not> s) (map (\<lambda>d. NOT d) ys) = NOT (tc_val s ys)"
  by (induction ys) (auto simp: uint_not_digit not_eq_complement [where 'a = int])

interpretation band: bit_digits and_digits "(AND)" "(\<or>)"
proof
  fix xs ys :: "u16 list" and s t :: bool
  show "length xs \<le> length ys \<Longrightarrow> length (and_digits s xs ys) = length ys"
    by (simp add: and_digits_def length_bit_loop)
  show "length xs \<le> length ys \<Longrightarrow> tc_val (s \<or> t) (and_digits s xs ys) = tc_val s xs AND tc_val t ys"
    unfolding and_digits_def
  proof (induction "(AND) :: u16 \<Rightarrow> u16 \<Rightarrow> u16" "if s then (\<lambda>d :: u16. 0) else (\<lambda>d. d)" xs ys rule: bit_loop.induct)
    case (2 ys)
    then show ?case using tc_val_map_const [of True 0 ys] by auto
  qed (auto simp: digitwise)
qed (auto simp: and.commute)

interpretation bor: bit_digits or_digits "(OR)" "(\<and>)"
proof
  fix xs ys :: "u16 list" and s t :: bool
  show "length xs \<le> length ys \<Longrightarrow> length (or_digits s xs ys) = length ys"
    by (simp add: or_digits_def length_bit_loop)
  show "length xs \<le> length ys \<Longrightarrow> tc_val (s \<and> t) (or_digits s xs ys) = tc_val s xs OR tc_val t ys"
    unfolding or_digits_def
  proof (induction "(OR) :: u16 \<Rightarrow> u16 \<Rightarrow> u16" "if s then (\<lambda>d :: u16. d) else (\<lambda>d. 0xFFFF)" xs ys rule: bit_loop.induct)
    case (2 ys)
    then show ?case using tc_val_map_const [of False "0xFFFF" ys] by auto
  qed (auto simp: digitwise)
qed (auto simp: or.commute)

interpretation bxor: bit_digits xor_digits "(XOR)" "(=)"
proof
  fix xs ys :: "u16 list" and s t :: bool
  show "length xs \<le> length ys \<Longrightarrow> length (xor_digits s xs ys) = length ys"
    by (simp add: xor_digits_def length_bit_loop)
  show "length xs \<le> length ys \<Longrightarrow> tc_val (s = t) (xor_digits s xs ys) = tc_val s xs XOR tc_val t ys"
    unfolding xor_digits_def
  proof (induction "(XOR) :: u16 \<Rightarrow> u16 \<Rightarrow> u16" "if s then (\<lambda>d :: u16. d) else (\<lambda>d. NOT d)" xs ys rule: bit_loop.induct)
    case (2 ys)
    then show ?case using tc_val_not [of t ys] by (cases s) simp_all
  qed (auto simp: digitwise)
qed (auto simp: xor.commute)

section \<open>What the operations compute\<close>

text \<open>
  C19: exclusive or of a Bignum and any integer is the exclusive or of the two's complement
  numbers, whatever the signs, except that it writes outside a block exactly when
  a negative operand has all digits ones, or the result is negative and is \<open>- 1\<close> or the
  smallest number of its length.
\<close>
theorem big_xor_exact:
  assumes "inum_wf (Big x)" "inum_wf y" and "b = int_or_big y"
  shows "if (\<not> bsign x \<and> all_ones x) \<or> (\<not> bsign b \<and> all_ones b) \<or>
      bsign x \<noteq> bsign b \<and> (big_val x XOR inum_val y = - 1 \<or> big_val x XOR inum_val y = - (65536 ^ max (blen x) (blen b)))
    then big_xor x (VInt y :: ('d, 'o) rvalue) = Inl OutOfBounds
    else \<exists>z. big_xor x (VInt y :: ('d, 'o) rvalue) = Inr z \<and> inum_wf z \<and> inum_val z = big_val x XOR inum_val y"
proof -
  have v: "big_val b = inum_val y" using int_or_big_ok(2) [OF assms(2)] assms(3) by simp
  have x: "signed_ok x" "blen x \<noteq> 0" using inum_wf_signed_ok [OF assms(1)] assms(1) by auto
  show ?thesis
    using bxor.bitop_value [OF x assms(2,3), of "(=)", where 'd = 'd and 'o = 'o]
    by (auto simp: big_xor_def bxor.overflow_def Let_def v split: if_splits)
qed

theorem big_xor_exact_witness:
  "\<exists>z. big_xor (bignew [0x1234, 0x5678] False) (VInt (Big (bignew [0xFF, 2] True)) :: (nat, nat) rvalue) = Inr z \<and>
      inum_val z = - 1450840781"
  using big_xor_exact [of "bignew [0x1234, 0x5678] False" "Big (bignew [0xFF, 2] True)", OF _ _ refl,
      where 'd = nat and 'o = nat]
  by (auto simp: big_normal_def all_ones_def int_or_big_def)

text \<open>
  \<^verbatim>\<open>&\<close> and \<^verbatim>\<open>|\<close> of integers of the same sign are those of the two's complement numbers;
  for negative operands they write outside a block exactly when an operand has all digits
  ones or the result is \<open>- 1\<close> or the smallest number of its length.
\<close>
theorem big_and_or_same_sign:
  assumes "inum_wf (Big x)" "inum_wf y" and "b = int_or_big y" "bsign x = bsign b"
  shows "(if \<not> bsign x \<and> (all_ones x \<or> all_ones b \<or> big_val x AND inum_val y = - 1 \<or>
            big_val x AND inum_val y = - (65536 ^ max (blen x) (blen b)))
          then big_and x (VInt y :: ('d, 'o) rvalue) = Inl OutOfBounds
          else \<exists>z. big_and x (VInt y :: ('d, 'o) rvalue) = Inr z \<and> inum_wf z \<and> inum_val z = big_val x AND inum_val y) \<and>
         (if \<not> bsign x \<and> (all_ones x \<or> all_ones b \<or> big_val x OR inum_val y = - 1 \<or>
            big_val x OR inum_val y = - (65536 ^ max (blen x) (blen b)))
          then big_or x (VInt y :: ('d, 'o) rvalue) = Inl OutOfBounds
          else \<exists>z. big_or x (VInt y :: ('d, 'o) rvalue) = Inr z \<and> inum_wf z \<and> inum_val z = big_val x OR inum_val y)"
proof -
  have v: "big_val b = inum_val y" using int_or_big_ok(2) [OF assms(2)] assms(3) by simp
  have x: "signed_ok x" "blen x \<noteq> 0" using inum_wf_signed_ok [OF assms(1)] assms(1) by auto
  show ?thesis
  proof (rule conjI)
    show "if \<not> bsign x \<and> (all_ones x \<or> all_ones b \<or> big_val x AND inum_val y = - 1 \<or>
            big_val x AND inum_val y = - (65536 ^ max (blen x) (blen b)))
          then big_and x (VInt y :: ('d, 'o) rvalue) = Inl OutOfBounds
          else \<exists>z. big_and x (VInt y :: ('d, 'o) rvalue) = Inr z \<and> inum_wf z \<and> inum_val z = big_val x AND inum_val y"
      using band.bitop_value [OF x assms(2,3), of "(\<and>)", where 'd = 'd and 'o = 'o] assms(4)
      by (auto simp: big_and_def band.overflow_def Let_def v split: if_splits)
    show "if \<not> bsign x \<and> (all_ones x \<or> all_ones b \<or> big_val x OR inum_val y = - 1 \<or>
            big_val x OR inum_val y = - (65536 ^ max (blen x) (blen b)))
          then big_or x (VInt y :: ('d, 'o) rvalue) = Inl OutOfBounds
          else \<exists>z. big_or x (VInt y :: ('d, 'o) rvalue) = Inr z \<and> inum_wf z \<and> inum_val z = big_val x OR inum_val y"
      using bor.bitop_value [OF x assms(2,3), of "(\<or>)", where 'd = 'd and 'o = 'o] assms(4)
      by (auto simp: big_or_def bor.overflow_def Let_def v split: if_splits)
  qed
qed

theorem big_and_or_same_sign_witness:
  "\<exists>z. big_and (bignew [0x1234, 0x5678] False) (VInt (Big (bignew [0xFF, 0x8000, 2] False)) :: (nat, nat) rvalue) = Inr z \<and>
      inum_val z = - 12188128000"
  using big_and_or_same_sign [of "bignew [0x1234, 0x5678] False" "Big (bignew [0xFF, 0x8000, 2] False)", OF _ _ refl,
      where 'd = nat and 'o = nat]
  by (auto simp: big_normal_def all_ones_def int_or_big_def)

text \<open>
  On integers of different signs the sign of the result of \<^verbatim>\<open>&\<close> and \<^verbatim>\<open>|\<close> is
  inverted. Where no complement runs out of its block, \<^verbatim>\<open>&\<close> returns the right number minus
  \<open>65536 ^ n\<close> and \<^verbatim>\<open>|\<close> the right number plus \<open>65536 ^ n\<close>, \<open>n\<close> the larger length.
\<close>
theorem big_and_or_mixed_sign:
  assumes "inum_wf (Big x)" "inum_wf y" and "b = int_or_big y" "bsign x \<noteq> bsign b"
    and "\<not> (\<not> bsign x \<and> all_ones x)" "\<not> (\<not> bsign b \<and> all_ones b)"
    and "big_val x AND inum_val y \<noteq> 0" "big_val x AND inum_val y \<noteq> 65536 ^ max (blen x) (blen b) - 1"
  shows "(\<exists>z. big_and x (VInt y) = Inr z \<and> inum_val z = (big_val x AND inum_val y) - 65536 ^ max (blen x) (blen b)) \<and>
         (\<exists>z. big_or x (VInt y) = Inr z \<and> inum_val z = (big_val x OR inum_val y) + 65536 ^ max (blen x) (blen b))"
proof -
  have v: "big_val b = inum_val y" using int_or_big_ok(2) [OF assms(2)] assms(3) by simp
  have x: "signed_ok x" "blen x \<noteq> 0" using inum_wf_signed_ok [OF assms(1)] assms(1) by auto
  show ?thesis
  proof (rule conjI)
    show "\<exists>z. big_and x (VInt y) = Inr z \<and> inum_val z = (big_val x AND inum_val y) - 65536 ^ max (blen x) (blen b)"
      using band.bitop_value [OF x assms(2,3), of "(\<and>)"] assms(4-8)
      by (auto simp: big_and_def band.overflow_def Let_def v split: if_splits)
    show "\<exists>z. big_or x (VInt y) = Inr z \<and> inum_val z = (big_val x OR inum_val y) + 65536 ^ max (blen x) (blen b)"
      using bor.bitop_value [OF x assms(2,3), of "(\<or>)"] assms(4-6)
      by (auto simp: big_or_def bor.overflow_def Let_def v split: if_splits)
  qed
qed

theorem big_and_or_mixed_sign_witness:
  "\<exists>z. big_and (bignew [0xFFFF, 0xFFFF] True) (VInt (Big (bignew [0, 0x8000] False)) :: (nat, nat) rvalue) = Inr z \<and>
      inum_val z = - 2147483648"
  using big_and_or_mixed_sign [of "bignew [0xFFFF, 0xFFFF] True" "Big (bignew [0, 0x8000] False)", OF _ _ refl,
      where ?'a = nat and ?'b = nat]
  by (auto simp: big_normal_def all_ones_def int_or_big_def)

lemma big_mag_map_not:
  assumes "big_wf z"
  shows "big_mag (z\<lparr>bdigits := map (\<lambda>d. NOT d) (bds z)\<rparr>) = 65536 ^ blen z - 1 - big_mag z"
    "big_wf (z\<lparr>bdigits := map (\<lambda>d. NOT d) (bds z)\<rparr>)"
  using assms ds_val_not [of "bds z"] length_bds [OF assms] by (simp_all add: big_mag_def bds_def big_wf_def)

text \<open>
  \<^verbatim>\<open>~\<close> on a Bignum is the complement of the two's complement number, that is \<open>- x - 1\<close>,
  and writes outside its block exactly when all digits of \<open>x\<close> are ones, of whatever sign.
\<close>
theorem big_neg_exact:
  assumes "inum_wf (Big x)"
  shows "if all_ones x then big_neg x = Inl OutOfBounds
    else \<exists>z. big_neg x = Inr z \<and> inum_wf z \<and> inum_val z = NOT (big_val x)"
proof -
  have x: "big_wf x" "blen x \<noteq> 0" "0 < big_mag x" "big_mag x < 65536 ^ blen x"
    using assms big_val_neg_iff [of x] big_mag_less [of x] by auto
  define c where "c = big_clone x"
  have c: "big_wf c" "blen c = blen x" "bsign c = bsign x" "big_mag c = big_mag x" "all_ones c = all_ones x"
    using x(1) by (simp_all add: c_def length_bds all_ones_def)
  have n: "NOT (big_val x) = (if bsign x then - (big_mag x + 1) else big_mag x - 1)"
    by (simp add: not_eq_complement big_val_def)
  show ?thesis
  proof (cases "bsign x")
    case True
    define z where "z = c\<lparr>bdigits := map (\<lambda>d. NOT d) (bds c)\<rparr>"
    have z: "big_wf z" "blen z = blen x" "bsign z" "big_mag z = 65536 ^ blen x - 1 - big_mag x"
      using big_mag_map_not [OF c(1)] c True by (simp_all add: z_def)
    have "big_mag z = 0 \<or> all_ones z \<longleftrightarrow> all_ones x" using z x by (auto simp: all_ones_def)
    moreover have "big_neg x = bindR (big_2comp z) (\<lambda>z. Inr (bignorm (z\<lparr>bsign := \<not> bsign z\<rparr>)))"
      using True by (simp add: big_neg_def z_def c_def Let_def)
    ultimately show ?thesis
      using big_2comp_ok [of z] z x True n
      by (auto simp: bignorm_wf bignorm_val big_val_sign big_wf_def split: if_splits)
  next
    case False
    have "big_neg x = bindR (big_2comp c) (\<lambda>z. Inr (bignorm (z\<lparr>bdigits := map (\<lambda>d. NOT d) (bds z), bsign := \<not> bsign z\<rparr>)))"
      using False by (simp add: big_neg_def c_def Let_def)
    moreover have "big_mag c \<noteq> 0" using c(4) x(3) by simp
    moreover have "inum_wf (bignorm (z\<lparr>bdigits := map (\<lambda>d. NOT d) (bds z), bsign := \<not> bsign z\<rparr>)) \<and>
        inum_val (bignorm (z\<lparr>bdigits := map (\<lambda>d. NOT d) (bds z), bsign := \<not> bsign z\<rparr>)) = big_mag x - 1"
      if "big_wf z" "blen z = blen x" "bsign z = bsign x" "big_mag z = 65536 ^ blen x - big_mag x" for z
    proof -
      define w where "w = z\<lparr>bdigits := map (\<lambda>d. NOT d) (bds z)\<rparr>"
      have "big_wf w" "big_mag w = big_mag x - 1"
        using big_mag_map_not [OF that(1)] that by (simp_all add: w_def)
      then have "big_wf (w\<lparr>bsign := \<not> bsign z\<rparr>)" "big_val (w\<lparr>bsign := \<not> bsign z\<rparr>) = big_mag x - 1"
        using that(3) False by (simp_all add: big_wf_def big_val_sign)
      then show ?thesis unfolding w_def using bignorm_wf bignorm_val by simp
    qed
    ultimately show ?thesis
      using big_2comp_ok [of c] c x False n by (auto split: if_splits)
  qed
qed

theorem big_neg_exact_witness:
  "big_neg (bignew [0xFFFF, 0xFFFF] True) = Inl OutOfBounds \<and>
   (\<exists>z. big_neg (bignew [0, 0x4000] False) = Inr z \<and> inum_val z = 1073741823)"
  using big_neg_exact [of "bignew [0xFFFF, 0xFFFF] True"] big_neg_exact [of "bignew [0, 0x4000] False"]
  by (auto simp: big_normal_def all_ones_def not_eq_complement)

section \<open>Shifts\<close>

lemma or_disjoint:
  assumes "0 \<le> a" "a < 2 ^ n"
  shows "a OR (push_bit n k) = a + 2 ^ n * (k :: int)"
proof -
  have "a = take_bit n a" using assms by (simp add: take_bit_int_eq_self)
  then have "a OR push_bit n k = concat_bit n a k" by (simp add: concat_bit_def)
  also have "\<dots> = take_bit n a + push_bit n k" by (rule concat_bit_eq)
  finally show ?thesis using \<open>a = take_bit n a\<close> by (simp add: push_bit_eq_mult mult.commute)
qed

lemma lshift_loop_val:
  "s2 < 16 \<Longrightarrow> uint num < 2 ^ s2 \<Longrightarrow>
     ds_val (lshift_loop s2 xs num) = 2 ^ s2 * ds_val xs + uint num"
proof (induction xs arbitrary: num)
  case Nil
  have "(2::int) ^ s2 \<le> 2 ^ 16" using Nil(1) by (intro power_increasing) auto
  with Nil show ?case by (simp add: uint_BIGLO)
next
  case (Cons x xs)
  define n where "n = num OR push_bit s2 (ucast x)"
  have p: "(2::int) ^ s2 \<le> 2 ^ 15" using Cons.prems(1) by (intro power_increasing) auto
  have "2 ^ s2 * (uint x + 1) \<le> 2 ^ s2 * 65536" using uint_16_bounds [of x] by (intro mult_left_mono) auto
  then have b: "uint num + 2 ^ s2 * uint x < 2 ^ s2 * 65536"
    unfolding distrib_left using Cons.prems(2) by linarith
  have "uint (push_bit s2 (ucast x :: u32)) = push_bit s2 (uint x)"
  proof -
    have "2 ^ s2 * uint x \<le> 2 ^ 15 * 65535"
      using p uint_16_bounds [of x] by (intro mult_mono) auto
    then show ?thesis unfolding unsigned_push_bit_eq uint_ucast_16_32
      by (simp add: take_bit_int_eq_self_iff push_bit_eq_mult mult.commute)
  qed
  then have n: "uint n = uint num + 2 ^ s2 * uint x"
    using Cons.prems by (simp add: n_def unsigned_or_eq or_disjoint)
  have "uint (BIGDN n) < 2 ^ s2"
    unfolding uint_BIGDN n using b by (rule div_less_bound) simp
  then have ih: "ds_val (lshift_loop s2 xs (BIGDN n)) = 2 ^ s2 * ds_val xs + uint (BIGDN n)"
    using Cons by simp
  have "uint (BIGLO n) + 65536 * uint (BIGDN n) = uint n" by (simp add: uint_BIGLO uint_BIGDN)
  with ih n show ?case by (simp add: n_def [symmetric] Let_def algebra_simps)
qed

lemma pow_digits: "(65536::int) ^ (n div 16) * 2 ^ (n mod 16) = 2 ^ n"
proof -
  have "(65536::int) ^ (n div 16) = 2 ^ (16 * (n div 16))" by (simp add: power_mult)
  then show ?thesis by (simp flip: power_add)
qed

lemma lshift_digits_ok:
  "inum_wf (lshift_digits x n)" "inum_val (lshift_digits x n) = big_val x * 2 ^ n"
proof -
  show "inum_wf (lshift_digits x n)" by (simp add: lshift_digits_def Let_def bignorm_wf)
  note pow_digits [of n]
  moreover have "ds_val (replicate (n div 16) 0 @ lshift_loop (n mod 16) (bds x) 0) =
      65536 ^ (n div 16) * 2 ^ (n mod 16) * big_mag x"
    by (simp add: ds_val_append lshift_loop_val big_mag_def)
  ultimately show "inum_val (lshift_digits x n) = big_val x * 2 ^ n"
    by (simp add: lshift_digits_def Let_def bignorm_val big_val_def mult.commute)
qed

lemma shift_step:
  fixes p x V B P q :: int
  assumes "0 \<le> V" "V < P" "0 < q" "q dvd B" "0 < B"
  shows "(p * (B * P) + (x * P + V)) div q mod (B * P) = P * ((p * B + x) div q mod B) + (x * P + V) div q mod P"
proof -
  define N where "N = p * (B * P) + (x * P + V)"
  have P: "0 < P" using assms by linarith
  have NP: "N = (p * B + x) * P + V" by (simp add: N_def algebra_simps)
  have "N div q div P = N div P div q" using P assms(3)
    by (metis mult.commute zdiv_zmult2_eq less_imp_le)
  also have "N div P = p * B + x" unfolding NP using assms P by simp
  finally have hi: "N div q div P = (p * B + x) div q" .
  obtain r where r: "B = q * r" using assms(4) by (auto simp: dvd_def)
  have "N = (x * P + V) + q * (r * p * P)" by (simp add: N_def r algebra_simps)
  then have "N div q = (x * P + V) div q + r * p * P" using assms(3) by simp
  then have lo: "N div q mod P = (x * P + V) div q mod P" by simp
  have "N div q mod (P * B) = P * (N div q div P mod B) + N div q mod P"
    using P assms(5) by (simp add: zmod_zmult2_eq)
  then show ?thesis unfolding hi lo mult.commute [of P B] unfolding N_def .
qed

lemma rshift_loop_val:
  "s2 < 16 \<Longrightarrow>
     ds_val (rshift_loop s2 xs (BIGUP (ucast (p :: u16))) zds) =
       (uint p * 65536 ^ length xs + ds_val (rev xs)) div 2 ^ s2 mod 65536 ^ length xs +
       65536 ^ length xs * ds_val zds"
proof (induction xs arbitrary: p zds)
  case (Cons x xs)
  define n where "n = drop_bit s2 (BIGUP (ucast p) OR ucast x)"
  have "uint (BIGUP (ucast p) :: u32) = push_bit 16 (uint p)"
    using uint_16_bounds [of p] by (simp add: uint_BIGUP uint_ucast_16_32 push_bit_eq_mult mult.commute)
  then have "uint (BIGUP (ucast p) OR ucast x :: u32) = uint x OR push_bit 16 (uint p)"
    by (simp add: unsigned_or_eq uint_ucast_16_32 or.commute)
  also have "\<dots> = uint p * 65536 + uint x" using or_disjoint [of "uint x" 16 "uint p"] uint_16_bounds [of x] by simp
  finally have or: "uint (BIGUP (ucast p) OR ucast x :: u32) = uint p * 65536 + uint x" .
  have "take_bit 32 (uint p * 65536 + uint x) = uint p * 65536 + uint x"
    using uint_16_bounds [of x] uint_16_bounds [of p] by (simp add: take_bit_int_eq_self_iff)
  then have "uint n = (uint p * 65536 + uint x) div 2 ^ s2"
    unfolding n_def unsigned_drop_bit_eq or by (simp add: drop_bit_eq_div)
  then have n: "uint (BIGLO n) = (uint p * 65536 + uint x) div 2 ^ s2 mod 65536" by (simp add: uint_BIGLO)
  have dv: "(2::int) ^ s2 dvd 65536" using le_imp_power_dvd [of s2 16 "2::int"] Cons.prems by simp
  have V: "0 \<le> ds_val (rev xs)" "ds_val (rev xs) < 65536 ^ length xs"
    using ds_val_less [of "rev xs"] by (simp_all add: ds_val_nonneg)
  have "ds_val (rshift_loop s2 (x # xs) (BIGUP (ucast p)) zds) =
      ds_val (rshift_loop s2 xs (BIGUP (ucast x)) (BIGLO n # zds))"
    by (simp add: n_def Let_def)
  also have "\<dots> = (uint x * 65536 ^ length xs + ds_val (rev xs)) div 2 ^ s2 mod 65536 ^ length xs +
      65536 ^ length xs * (uint (BIGLO n) + 65536 * ds_val zds)"
    using Cons by simp
  also have "\<dots> = (uint p * (65536 * 65536 ^ length xs) + (uint x * 65536 ^ length xs + ds_val (rev xs))) div 2 ^ s2
      mod (65536 * 65536 ^ length xs) + 65536 * 65536 ^ length xs * ds_val zds"
    unfolding shift_step [OF V zero_less_power [OF zero_less_numeral] dv zero_less_numeral] n
    by (simp add: algebra_simps)
  finally show ?case by (simp add: ds_val_append algebra_simps)
qed simp

lemma ds_val_drop: "ds_val (drop n ds) = ds_val ds div 65536 ^ n"
proof (cases "n \<le> length ds")
  case True
  then have "ds_val ds = ds_val (drop n ds) * 65536 ^ n + ds_val (take n ds)"
    using ds_val_append [of "take n ds" "drop n ds"] by (simp add: mult.commute)
  moreover have "ds_val (take n ds) < 65536 ^ n" using ds_val_less [of "take n ds"] True by simp
  ultimately show ?thesis using ds_val_nonneg [of "take n ds"] by simp
next
  case False
  then have "(65536::int) ^ length ds \<le> 65536 ^ n" by (intro power_increasing) auto
  then have "ds_val ds < 65536 ^ n" using ds_val_less [of ds] by linarith
  with False show ?thesis using ds_val_nonneg [of ds] by simp
qed

lemma rshift_digits_ok:
  assumes "big_wf x"
  shows "inum_wf (rshift_digits x n)"
    "inum_val (rshift_digits x n) =
       (if n div 16 > blen x \<and> \<not> bsign x then - 1 else sgn_of (bsign x) * (big_mag x div 2 ^ n))"
proof -
  show "inum_wf (rshift_digits x n)" by (simp add: rshift_digits_def Let_def bignorm_wf)
  note pow = pow_digits [of n]
  show "inum_val (rshift_digits x n) =
       (if n div 16 > blen x \<and> \<not> bsign x then - 1 else sgn_of (bsign x) * (big_mag x div 2 ^ n))"
  proof (cases "n div 16 > blen x")
    case True
    have "big_mag x < 65536 ^ blen x" using big_mag_less [OF assms] .
    also have "\<dots> \<le> 65536 ^ (n div 16)" using True by (intro power_increasing) auto
    also have "\<dots> \<le> 65536 ^ (n div 16) * 2 ^ (n mod 16)" by simp
    finally have "big_mag x div 2 ^ n = 0" unfolding pow by (simp add: big_mag_nonneg)
    then show ?thesis using True small_fix [of 0] small_fix [of 1] by (simp add: rshift_digits_def Let_def)
  next
    case False
    let ?V = "ds_val (drop (n div 16) (bds x))"
    have "?V div 2 ^ (n mod 16) \<le> ?V" using zdiv_mono2 [of ?V 1 "2 ^ (n mod 16)"] by (simp add: ds_val_nonneg)
    also have "?V < 65536 ^ (blen x - n div 16)"
      using ds_val_less [of "drop (n div 16) (bds x)"] length_bds [OF assms] by simp
    finally have "?V div 2 ^ (n mod 16) mod 65536 ^ (blen x - n div 16) = ?V div 2 ^ (n mod 16)"
      by (simp add: ds_val_nonneg pos_imp_zdiv_nonneg_iff)
    then have "ds_val (rshift_loop (n mod 16) (rev (drop (n div 16) (bds x))) 0 []) = ?V div 2 ^ (n mod 16)"
      using rshift_loop_val [of "n mod 16" "rev (drop (n div 16) (bds x))" 0 "[]"] length_bds [OF assms]
      by (simp add: BIGUP_def)
    also have "\<dots> = big_mag x div 2 ^ n"
      by (simp add: ds_val_drop big_mag_def zdiv_zmult2_eq [symmetric] pow)
    finally show ?thesis using False
      by (simp add: rshift_digits_def Let_def bignorm_val sgn_of_def)
  qed
qed

lemma num2int_Fix [simp]: "NUM2INT E (VInt (Fix f)) = Inr (FIX2INT f)"
  by (simp add: NUM2INT_def num2int_opt.simps)

lemma num2int_Big [simp]: "NUM2INT E (VInt (Big b)) = big2int b"
  by (simp add: NUM2INT_def num2int_opt.simps)

lemma num2int_Nil [simp]: "NUM2INT E VNil = Inr 0"
  by (simp add: NUM2INT_def num2int_opt.simps)

text \<open>A negative width above \<open>- (2 ^ 30)\<close> is passed on as its absolute value.\<close>

lemma shift_negated:
  assumes "- (2 ^ 30) < sint s" "sint s < 0"
  shows "sint (FIX2INT (INT2FIX (- s))) = - sint (s :: u32)"
proof -
  have "s \<noteq> 0x80000000" using assms by auto
  then have n: "sint (- s) = - sint s" by (rule sint_minus_u32)
  then have "FIXABLE (sint (- s))" using assms by (simp add: FIXABLE_iff)
  with n show ?thesis by (simp add: INT2FIX_val)
qed

lemma big_shift_nonneg:
  "0 \<le> sint s \<Longrightarrow> big_shift left x s =
     Some (if left then lshift_digits x (nat (sint s)) else rshift_digits x (nat (sint s)))"
  by (simp add: big_shift.simps)

lemma big_shift_negative:
  assumes "- (2 ^ 30) < sint s" "sint s < 0"
  shows "big_shift left x s =
     Some (if left then rshift_digits x (nat (- sint s)) else lshift_digits x (nat (- sint s)))"
  using assms shift_negated [OF assms] by (subst big_shift.simps) (simp add: big_shift_nonneg)

lemma big_shift_diverges:
  assumes "big_shift left x s = Some z"
  shows "s \<noteq> - (2 ^ 30)"
proof -
  have m: "FIX2INT (INT2FIX (- (- (2 ^ 30)))) = - (2 ^ 30)" by (simp add: FIX2INT_def INT2FIX_def)
  have "(\<lambda>l x s z. s \<noteq> - (2 ^ 30)) left x s z"
    by (rule big_shift.raw_induct [of "\<lambda>l x s z. s \<noteq> - (2 ^ 30)" "((left, x), s)" z, unfolded prod.case])
      (use m assms in \<open>fastforce split: if_splits\<close>)+
  then show ?thesis .
qed

text \<open>
  The specification of a shift by \<open>n\<close>: the exact product for \<^verbatim>\<open><<\<close>; for \<^verbatim>\<open>>>\<close> the
  magnitude is shifted, so a negative number is rounded towards zero, except that it becomes
  \<open>- 1\<close> when the width exceeds its digits by a whole digit.
\<close>

definition shift_spec :: "bool \<Rightarrow> rbignum \<Rightarrow> nat \<Rightarrow> int" where
  "shift_spec left x n =
     (if left then big_val x * 2 ^ n
      else if n div 16 > blen x \<and> big_val x < 0 then - 1
      else sgn (big_val x) * (\<bar>big_val x\<bar> div 2 ^ n))"

lemma shift_digits_spec:
  assumes "signed_ok x"
  shows "inum_val (lshift_digits x n) = shift_spec True x n"
    "inum_val (rshift_digits x n) = shift_spec False x n"
proof -
  show "inum_val (lshift_digits x n) = shift_spec True x n"
    by (simp add: lshift_digits_ok shift_spec_def)
  have w: "big_wf x" using assms by (simp add: signed_ok_normal)
  show "inum_val (rshift_digits x n) = shift_spec False x n"
  proof (cases "blen x = 0")
    case True
    then have "big_mag x = 0" "bsign x" using assms by (simp_all add: big_mag_def bds_def signed_ok_def)
    then show ?thesis by (simp add: rshift_digits_ok [OF w] shift_spec_def big_val_def)
  next
    case False
    then have "big_val x < 0 \<longleftrightarrow> \<not> bsign x" "sgn (big_val x) = sgn_of (bsign x)"
      using big_val_neg_iff [of x] sgn_of_mag [OF assms False] assms
      by (auto simp: big_val_def signed_ok_normal)
    then show ?thesis by (simp add: rshift_digits_ok [OF w] shift_spec_def abs_big_val)
  qed
qed

text \<open>
  C20: shifting a Bignum by a Fixnum \<open>f\<close> of value above \<open>- (2 ^ 30)\<close> returns the integer
  of the specification in normal form, a negative width shifting the other way; the smallest
  Fixnum as width makes \<^verbatim>\<open>big_lshift\<close> and \<^verbatim>\<open>big_rshift\<close> call each other for ever.
\<close>
theorem big_shift_exact:
  assumes "inum_wf (Big x)" "inum_wf (Fix f)" and n: "n = inum_val (Fix f)"
  shows "if n = - (2 ^ 30)
    then big_lshift E x (VInt (Fix f)) = Inl Diverges \<and> big_rshift E x (VInt (Fix f)) = Inl Diverges
    else \<exists>l r. big_lshift E x (VInt (Fix f)) = Inr l \<and> big_rshift E x (VInt (Fix f)) = Inr r \<and>
      inum_wf l \<and> inum_wf r \<and>
      inum_val l = shift_spec (0 \<le> n) x (nat \<bar>n\<bar>) \<and> inum_val r = shift_spec (n < 0) x (nat \<bar>n\<bar>)"
proof -
  note ok = inum_wf_signed_ok [OF assms(1)] signed_ok_normal(2) [OF inum_wf_signed_ok [OF assms(1)]]
  have n': "sint (FIX2INT f) = n" by (simp add: n)
  note b = FIX2INT_bounds [of f, unfolded FIXABLE_iff n']
  consider "n = - (2 ^ 30)" | "- (2 ^ 30) < n" "n < 0" | "0 \<le> n" using b by linarith
  then show ?thesis
  proof cases
    case 1
    then have "FIX2INT f = - (2 ^ 30)"
      using n' word_of_int_uint signed_word_eqI [of "FIX2INT f" "- (2 ^ 30)"] by simp
    then have "big_shift left x (FIX2INT f) = None" for left
      using big_shift_diverges by (cases "big_shift left x (FIX2INT f)") auto
    with 1 show ?thesis by (simp add: big_lshift_def big_rshift_def shift_result_def)
  next
    case 2
    with n' ok show ?thesis
      by (simp add: big_lshift_def big_rshift_def shift_result_def big_shift_negative
          shift_digits_spec lshift_digits_ok(1) rshift_digits_ok(1))
  next
    case 3
    with n' ok show ?thesis
      by (simp add: big_lshift_def big_rshift_def shift_result_def big_shift_nonneg
          shift_digits_spec lshift_digits_ok(1) rshift_digits_ok(1))
  qed
qed

theorem big_shift_exact_witness:
  "(\<exists>r. big_rshift undefined (bignew [0, 0, 1] False) (VFix 4 :: (nat, nat) rvalue) = Inr r \<and>
       inum_val r = - 268435456) \<and>
   big_lshift undefined (bignew [0, 0, 1] False) (VInt (Fix 0x80000001) :: (nat, nat) rvalue) = Inl Diverges"
  using big_shift_exact [of "bignew [0, 0, 1] False" "INT2FIX 4", OF _ _ refl, of "undefined :: (nat, nat) interp"]
    big_shift_exact [of "bignew [0, 0, 1] False" "0x80000001", OF _ _ refl, of "undefined :: (nat, nat) interp"]
  by (auto simp: big_normal_def sint_FIX2INT INT2FIX_alt shift_spec_def)

section \<open>Bit reference\<close>

lemma bit_sign_extension:
  assumes "- (2 ^ m) \<le> v" "v < 0" "m \<le> n"
  shows "bit (v :: int) n"
proof -
  have "(2::int) ^ m \<le> 2 ^ n" using assms(3) by (intro power_increasing) auto
  then have "v div 2 ^ n = - 1"
    by (intro int_div_pos_eq [of v "2 ^ n" "- 1" "v + 2 ^ n"]) (use assms in linarith)+
  then show ?thesis by (simp add: bit_iff_odd)
qed

text \<open>
  \<^verbatim>\<open>x[i]\<close> is bit \<open>i\<close> of the two's complement number, zero for a negative index; inside
  the digits of a negative number whose digits are all ones it writes outside a block.
\<close>
theorem big_aref_bit:
  assumes "inum_wf (Big x)" "inum_wf (Fix f)" and n: "n = inum_val (Fix f)"
  shows "big_aref E x (VInt (Fix f)) =
    (if 0 \<le> n \<and> nat n div 16 < blen x \<and> \<not> bsign x \<and> all_ones x then Inl OutOfBounds
     else Inr (Fix (INT2FIX (of_bool (0 \<le> n \<and> bit (big_val x) (nat n))))))"
proof -
  have n': "sint (FIX2INT f) = n" by (simp add: n)
  note ok = inum_wf_signed_ok [OF assms(1)]
  have bit: "bit (big_val x) (nat n) \<longleftrightarrow>
      (if nat n div 16 < blen z then bit (bdigits z ! (nat n div 16)) (nat n mod 16) else \<not> bsign x)"
    if "big_wf z" "tc_val (bsign x) (bds z) = big_val x" for z
    using tc_val_bit [of "bsign x" "bds z" "nat n"] that length_bds [OF that(1)]
    by (auto simp: bds_def big_wf_def)
  show ?thesis
  proof (cases "0 \<le> n \<and> nat n div 16 < blen x")
    case True
    then have aref: "big_aref E x (VInt (Fix f)) = bindR (comp_operand x) (\<lambda>x.
        Inr (Fix (INT2FIX (of_bool (bit (bdigits x ! (nat n div 16)) (nat n mod 16))))))"
      using n' unfolding bit_iff_and_push_bit_not_eq_0 by (simp add: big_aref_def Let_def of_bool_def not_le)
    show ?thesis
    proof (cases "\<not> bsign x \<and> all_ones x")
      case False
      then obtain z where "comp_operand x = Inr z" "big_wf z" "blen z = blen x" "tc_val (bsign x) (bds z) = big_val x"
        using comp_operand_ok [OF ok] by auto
      with aref bit [of z] True False show ?thesis by auto
    qed (use True aref comp_operand_ok [OF ok] in simp)
  next
    case False
    have "tc_val (bsign x) (bds x) = big_val x" if "bsign x"
      using that ok by (simp add: tc_val_mag signed_ok_normal big_val_def)
    moreover have "bit (big_val x) (nat n)" if "\<not> bsign x" "0 \<le> n"
    proof -
      have "big_mag x < 65536 ^ blen x" "0 < big_mag x"
        using ok that(1) big_val_neg_iff [of x] big_mag_less [of x] by (auto simp: signed_ok_def)
      moreover have "(65536::int) ^ blen x = 2 ^ (16 * blen x)" by (simp add: power_mult)
      ultimately show ?thesis
        using that False by (intro bit_sign_extension [of "16 * blen x"]) (auto simp: big_val_def)
    qed
    ultimately show ?thesis
      using False bit [of x] ok n' by (auto simp: big_aref_def Let_def signed_ok_normal)
  qed
qed

theorem big_aref_bit_witness:
  "big_aref undefined (bignew [0, 0, 1] False) (VFix 40 :: (nat, nat) rvalue) = Inr (Fix (INT2FIX 1))"
  using big_aref_bit [of "bignew [0, 0, 1] False" "INT2FIX 40", OF _ _ refl, of "undefined :: (nat, nat) interp"]
  by (simp add: big_normal_def sint_FIX2INT INT2FIX_alt all_ones_def bit_iff_odd)

end
