(* ===== verification/Fixnum.thy ===== *)
theory Fixnum
  imports BigBits
begin

text \<open>
  The methods of Fixnum (\<^verbatim>\<open>src/numeric.c\<close>). A Fixnum is its tagged word; the arithmetic works
  on the untagged 32-bit \<^verbatim>\<open>int\<close> and falls back on the Bignum routines when the result does not
  fit a tag.
\<close>

section \<open>Arithmetic\<close>

definition fix_uminus :: "u32 \<Rightarrow> inum" where
  "fix_uminus f = int2inum (- FIX2INT f)"

definition fix_plus :: "('d, 'o) interp \<Rightarrow> u32 \<Rightarrow> ('d, 'o) rvalue \<Rightarrow> ('d, 'o) rvalue result" where
  "fix_plus E x y =
     (case y of
        VInt (Fix g) \<Rightarrow>
          let a = FIX2INT x; b = FIX2INT g; c = a + b; r = INT2FIX c
          in if FIX2INT r \<noteq> c then big_plus E (int2big a) (VInt (Big (int2big b)))
             else Inr (VInt (Fix r))
      | VFloat d \<Rightarrow> Inr (VFloat (f_add (flo E) (f_of_int (flo E) (sint (FIX2INT x))) d))
      | _ \<Rightarrow> num_coerce_bin E ''+'' (VInt (Fix x)) y)"

definition fix_minus :: "('d, 'o) interp \<Rightarrow> u32 \<Rightarrow> ('d, 'o) rvalue \<Rightarrow> ('d, 'o) rvalue result" where
  "fix_minus E x y =
     (case y of
        VInt (Fix g) \<Rightarrow>
          let a = FIX2INT x; b = FIX2INT g; c = a - b; r = INT2FIX c
          in if FIX2INT r \<noteq> c then big_minus E (int2big a) (VInt (Big (int2big b)))
             else Inr (VInt (Fix r))
      | VFloat d \<Rightarrow> Inr (VFloat (f_sub (flo E) (f_of_int (flo E) (sint (FIX2INT x))) d))
      | _ \<Rightarrow> num_coerce_bin E ''-'' (VInt (Fix x)) y)"

text \<open>C division of \<^verbatim>\<open>int\<close>s truncates towards zero.\<close>

definition c_div :: "u32 \<Rightarrow> u32 \<Rightarrow> u32" where
  "c_div a b = word_of_int (sint a sdiv sint b)"

definition c_mod :: "u32 \<Rightarrow> u32 \<Rightarrow> u32" where
  "c_mod a b = word_of_int (sint a smod sint b)"

definition fix_mul :: "('d, 'o) interp \<Rightarrow> u32 \<Rightarrow> ('d, 'o) rvalue \<Rightarrow> ('d, 'o) rvalue result" where
  "fix_mul E x y =
     (case y of
        VInt (Fix g) \<Rightarrow>
          let a = FIX2INT x in
          if a = 0 then Inr (VInt (Fix x))
          else let b = FIX2INT g; c = a * b; r = INT2FIX c
               in if FIX2INT r \<noteq> c \<or> c_div c a \<noteq> b
                  then big_mul E (Big (int2big a)) (VInt (Big (int2big b)))
                  else Inr (VInt (Fix r))
      | VFloat d \<Rightarrow> Inr (VFloat (f_mul (flo E) (f_of_int (flo E) (sint (FIX2INT x))) d))
      | _ \<Rightarrow> num_coerce_bin E ''*'' (VInt (Fix x)) y)"

definition fix_div :: "('d, 'o) interp \<Rightarrow> u32 \<Rightarrow> ('d, 'o) rvalue \<Rightarrow> ('d, 'o) rvalue result" where
  "fix_div E x y =
     (case y of
        VInt (Fix g) \<Rightarrow>
          let i = FIX2INT g in
          if i = 0 then num_zerodiv else Inr (VFix (c_div (FIX2INT x) i))
      | _ \<Rightarrow> num_coerce_bin E ''/'' (VInt (Fix x)) y)"

definition fix_mod :: "('d, 'o) interp \<Rightarrow> u32 \<Rightarrow> ('d, 'o) rvalue \<Rightarrow> ('d, 'o) rvalue result" where
  "fix_mod E x y =
     (case y of
        VInt (Fix g) \<Rightarrow>
          let i = FIX2INT g in
          if i = 0 then num_zerodiv else Inr (VFix (c_mod (FIX2INT x) i))
      | _ \<Rightarrow> num_coerce_bin E ''%'' (VInt (Fix x)) y)"

definition fix_abs :: "u32 \<Rightarrow> inum" where
  "fix_abs f = (let i = FIX2INT f in int2inum (if sint i < 0 then - i else i))"

definition fix_succ :: "u32 \<Rightarrow> inum" where
  "fix_succ f = int2inum (FIX2INT f + 1)"

definition fix_size :: "u32 \<Rightarrow> inum" where
  "fix_size f = Fix (INT2FIX 4)"

definition fix_to_i :: "u32 \<Rightarrow> inum" where
  "fix_to_i f = Fix f"

definition fix_to_f :: "('d, 'o) interp \<Rightarrow> u32 \<Rightarrow> ('d, 'o) rvalue" where
  "fix_to_f E f = VFloat (f_of_int (flo E) (sint (FIX2INT f)))"

section \<open>Comparison\<close>

definition rb_equal :: "('d, 'o) interp \<Rightarrow> ('d, 'o) rvalue \<Rightarrow> ('d, 'o) rvalue \<Rightarrow> bool result" where
  "rb_equal E x y = bindR (rb_funcall E ''=='' x [y]) (\<lambda>r. Inr (\<not> (r = VFalse \<or> r = VNil)))"

definition num_equal :: "('d, 'o) interp \<Rightarrow> ('d, 'o) rvalue \<Rightarrow> ('d, 'o) rvalue \<Rightarrow> ('d, 'o) rvalue result" where
  "num_equal E x y = bindR (rb_equal E y x) (\<lambda>b. Inr (rbool b))"

definition fix_equal :: "('d, 'o) interp \<Rightarrow> u32 \<Rightarrow> ('d, 'o) rvalue \<Rightarrow> ('d, 'o) rvalue result" where
  "fix_equal E x y =
     (case y of
        VInt (Fix g) \<Rightarrow> Inr (rbool (FIX2INT x = FIX2INT g))
      | _ \<Rightarrow> num_equal E (VInt (Fix x)) y)"

definition fix_cmp :: "('d, 'o) interp \<Rightarrow> u32 \<Rightarrow> ('d, 'o) rvalue \<Rightarrow> ('d, 'o) rvalue result" where
  "fix_cmp E x y =
     (case y of
        VInt (Fix g) \<Rightarrow>
          let a = FIX2INT x; b = FIX2INT g
          in Inr (VFix (if a = b then 0 else if sint a > sint b then 1 else - 1))
      | _ \<Rightarrow> num_coerce_bin E ''<=>'' (VInt (Fix x)) y)"

definition fix_gt :: "('d, 'o) interp \<Rightarrow> u32 \<Rightarrow> ('d, 'o) rvalue \<Rightarrow> ('d, 'o) rvalue result" where
  "fix_gt E x y =
     (case y of
        VInt (Fix g) \<Rightarrow> Inr (rbool (sint (FIX2INT x) > sint (FIX2INT g)))
      | _ \<Rightarrow> num_coerce_bin E ''>'' (VInt (Fix x)) y)"

definition fix_ge :: "('d, 'o) interp \<Rightarrow> u32 \<Rightarrow> ('d, 'o) rvalue \<Rightarrow> ('d, 'o) rvalue result" where
  "fix_ge E x y =
     (case y of
        VInt (Fix g) \<Rightarrow> Inr (rbool (sint (FIX2INT x) \<ge> sint (FIX2INT g)))
      | _ \<Rightarrow> num_coerce_bin E ''>='' (VInt (Fix x)) y)"

definition fix_lt :: "('d, 'o) interp \<Rightarrow> u32 \<Rightarrow> ('d, 'o) rvalue \<Rightarrow> ('d, 'o) rvalue result" where
  "fix_lt E x y =
     (case y of
        VInt (Fix g) \<Rightarrow> Inr (rbool (sint (FIX2INT x) < sint (FIX2INT g)))
      | _ \<Rightarrow> num_coerce_bin E ''<'' (VInt (Fix x)) y)"

definition fix_le :: "('d, 'o) interp \<Rightarrow> u32 \<Rightarrow> ('d, 'o) rvalue \<Rightarrow> ('d, 'o) rvalue result" where
  "fix_le E x y =
     (case y of
        VInt (Fix g) \<Rightarrow> Inr (rbool (sint (FIX2INT x) \<le> sint (FIX2INT g)))
      | _ \<Rightarrow> num_coerce_bin E ''<='' (VInt (Fix x)) y)"

section \<open>Bits\<close>

definition fix_rev :: "u32 \<Rightarrow> inum" where
  "fix_rev f = Fix (INT2FIX (NOT (FIX2UINT f)))"

definition fix_and :: "('d, 'o) interp \<Rightarrow> u32 \<Rightarrow> ('d, 'o) rvalue \<Rightarrow> inum result" where
  "fix_and E x y =
     (case y of
        VInt (Big b) \<Rightarrow> big_and b (VInt (Fix x) :: ('d, 'o) rvalue)
      | _ \<Rightarrow> bindR (NUM2INT E y) (\<lambda>j. Inr (int2inum (FIX2INT x AND j))))"

definition fix_or :: "('d, 'o) interp \<Rightarrow> u32 \<Rightarrow> ('d, 'o) rvalue \<Rightarrow> inum result" where
  "fix_or E x y =
     (case y of
        VInt (Big b) \<Rightarrow> big_or b (VInt (Fix x) :: ('d, 'o) rvalue)
      | _ \<Rightarrow> bindR (NUM2INT E y) (\<lambda>j. Inr (Fix (INT2FIX (FIX2INT x OR j)))))"

definition fix_xor :: "('d, 'o) interp \<Rightarrow> u32 \<Rightarrow> ('d, 'o) rvalue \<Rightarrow> inum result" where
  "fix_xor E x y =
     (case y of
        VInt (Big b) \<Rightarrow> big_xor b (VInt (Fix x) :: ('d, 'o) rvalue)
      | _ \<Rightarrow> bindR (NUM2INT E y) (\<lambda>j. Inr (Fix (INT2FIX (FIX2INT x XOR j)))))"

text \<open>
  \<^verbatim>\<open>width > (sizeof(VALUE)*CHAR_BIT-1)\<close> compares as unsigned, so a negative width is large.
\<close>

definition fix_lshift :: "('d, 'o) interp \<Rightarrow> u32 \<Rightarrow> ('d, 'o) rvalue \<Rightarrow> inum result" where
  "fix_lshift E x y =
     (let val = FIX2INT x in
      bindR (NUM2INT E y) (\<lambda>width.
        if width > 31 \<or> drop_bit (31 - unat width) val > 0 then big_lshift E (int2big val) y
        else Inr (int2inum (push_bit (unat width) val))))"

text \<open>
  \<^verbatim>\<open>fix_rshift\<close> compares the \<^verbatim>\<open>VALUE\<close> of the width, not the width, with 32. The word of an
  immediate is known; every other object is a pointer, which is not below 32.
\<close>

definition value_below_32 :: "('d, 'o) rvalue \<Rightarrow> bool" where
  "value_below_32 y =
     (case y of VNil \<Rightarrow> True | VTrue \<Rightarrow> True | VFalse \<Rightarrow> True | VInt (Fix g) \<Rightarrow> g < 32 | _ \<Rightarrow> False)"

definition fix_rshift :: "('d, 'o) interp \<Rightarrow> u32 \<Rightarrow> ('d, 'o) rvalue \<Rightarrow> inum result" where
  "fix_rshift E x y =
     bindR (NUM2INT E y) (\<lambda>i.
       if value_below_32 y then Inr (Fix (INT2FIX (signed_drop_bit (unat i) (FIX2INT x))))
       else Inr (Fix (INT2FIX 0)))"

text \<open>The index is used as a Fixnum whatever it is.\<close>

definition fix_aref :: "u32 \<Rightarrow> u32 \<Rightarrow> inum" where
  "fix_aref f idx =
     (let val = FIX2INT f; i = FIX2INT idx
      in if sint i < 0 \<or> 31 < sint i then Fix (INT2FIX 0)
         else if val AND push_bit (nat (sint i)) 1 \<noteq> 0 then Fix (INT2FIX 1)
         else Fix (INT2FIX 0))"

section \<open>Iteration\<close>

text \<open>
  \<^verbatim>\<open>rb_yield\<close> runs the block; the loops are modelled as the list of the values they yield.
  The counter is an \<^verbatim>\<open>int\<close>; the loops end because it stays below the bounds of \<^verbatim>\<open>int\<close>,
  which the first argument makes explicit as the number of rounds allowed.
\<close>

fun count_up :: "nat \<Rightarrow> u32 \<Rightarrow> u32 \<Rightarrow> u32 \<Rightarrow> u32 list result" where
  "count_up n i limit diff =
     (if sint i \<le> sint limit then
        case n of
          0 \<Rightarrow> Inl Diverges
        | Suc n \<Rightarrow> bindR (count_up n (i + diff) limit diff) (\<lambda>ys. Inr (INT2FIX i # ys))
      else Inr [])"

fun count_down :: "nat \<Rightarrow> u32 \<Rightarrow> u32 \<Rightarrow> u32 \<Rightarrow> u32 list result" where
  "count_down n i limit diff =
     (if sint i \<ge> sint limit then
        case n of
          0 \<Rightarrow> Inl Diverges
        | Suc n \<Rightarrow> bindR (count_down n (i + diff) limit diff) (\<lambda>ys. Inr (INT2FIX i # ys))
      else Inr [])"

definition fix_upto :: "u32 \<Rightarrow> u32 \<Rightarrow> u32 list result" where
  "fix_upto f t = count_up (2 ^ 31) (FIX2INT f) (FIX2INT t) 1"

definition fix_downto :: "u32 \<Rightarrow> u32 \<Rightarrow> u32 list result" where
  "fix_downto f t = count_down (2 ^ 31) (FIX2INT f) (FIX2INT t) (- 1)"

definition fix_step :: "u32 \<Rightarrow> u32 \<Rightarrow> u32 \<Rightarrow> u32 list result" where
  "fix_step f t s =
     (let diff = FIX2INT s
      in if diff = 0 then Inl (ArgError ''step cannot be 0'')
         else if sint diff > 0 then count_up (2 ^ 31) (FIX2INT f) (FIX2INT t) diff
         else count_down (2 ^ 31) (FIX2INT f) (FIX2INT t) diff)"

definition fix_dotimes :: "u32 \<Rightarrow> u32 list result" where
  "fix_dotimes f = count_up (2 ^ 31) 0 (FIX2INT f - 1) 1"

declare count_up.simps [simp del] count_down.simps [simp del]

section \<open>Arithmetic is exact\<close>

abbreviation fixval :: "u32 \<Rightarrow> int" where
  "fixval f \<equiv> sint (FIX2INT f)"

lemma fixval_bounds: "- 1073741824 \<le> fixval f" "fixval f < 1073741824"
  using FIX2INT_bounds [of f] by (simp_all add: FIXABLE_iff)

text \<open>The test \<^verbatim>\<open>FIX2INT(r) != c\<close> decides whether the result fits a Fixnum.\<close>

lemma tag_fits: "FIX2INT (INT2FIX c) = c \<longleftrightarrow> FIXABLE (sint c)"
  by (metis FIX2INT_bounds INT2FIX_val signed_word_eqI)

lemma int2big_signed_ok: "signed_ok (int2big a)" "big_val (int2big a) = sint a"
  by (simp_all add: int2big_ok)

lemma big_ops_int2big:
  "big_plus E (int2big a) (VInt (Big (int2big b))) = Inr (VInt (bigadd (int2big a) (int2big b) True))"
  "big_minus E (int2big a) (VInt (Big (int2big b))) = Inr (VInt (bigadd (int2big a) (int2big b) False))"
  "big_mul E (Big (int2big a)) (VInt (Big (int2big b))) = Inr (VInt (big_mul_big (int2big a) (int2big b)))"
  by (simp_all add: big_plus_def big_minus_def big_mul_def int_or_big_def)

lemma fix_plus_ok:
  assumes "odd x" "odd y"
  obtains z where "fix_plus E x (VInt (Fix y)) = Inr (VInt z)" "inum_wf z" "inum_val z = fixval x + fixval y"
proof -
  define c where "c = FIX2INT x + FIX2INT y"
  have c: "sint c = fixval x + fixval y"
    unfolding c_def by (rule sint_add_eq [OF refl refl]; use fixval_bounds [of x] fixval_bounds [of y] in linarith)
  show ?thesis
  proof (cases "FIXABLE (sint c)")
    case True
    with c that show ?thesis
      by (simp add: fix_plus_def Let_def c_def [symmetric] tag_fits INT2FIX_val)
  next
    case False
    with c that show ?thesis
      by (simp add: fix_plus_def Let_def c_def [symmetric] tag_fits big_ops_int2big bigadd_ok int2big_ok)
  qed
qed

lemma fix_minus_ok:
  assumes "odd x" "odd y"
  obtains z where "fix_minus E x (VInt (Fix y)) = Inr (VInt z)" "inum_wf z" "inum_val z = fixval x - fixval y"
proof -
  define c where "c = FIX2INT x - FIX2INT y"
  have c: "sint c = fixval x - fixval y"
    unfolding c_def by (rule sint_sub_eq [OF refl refl]; use fixval_bounds [of x] fixval_bounds [of y] in linarith)
  show ?thesis
  proof (cases "FIXABLE (sint c)")
    case True
    with c that show ?thesis
      by (simp add: fix_minus_def Let_def c_def [symmetric] tag_fits INT2FIX_val)
  next
    case False
    with c that show ?thesis
      by (simp add: fix_minus_def Let_def c_def [symmetric] tag_fits big_ops_int2big bigadd_ok int2big_ok)
  qed
qed

text \<open>
  The overflow test of \<^verbatim>\<open>fix_mul\<close> is sound: a product that fits the tag and divides back is
  the exact product, because the remainder of the division would be a multiple of \<open>2 ^ 32\<close>.
\<close>

lemma smod_less: "(b::int) \<noteq> 0 \<Longrightarrow> \<bar>a smod b\<bar> < \<bar>b\<bar>"
  using smod_int_range [of b a] by auto

lemma mul_check:
  assumes "FIXABLE a" "FIXABLE b" "a \<noteq> 0" "c = signed_take_bit 31 (a * b)"
  shows "FIXABLE c \<and> c sdiv a = b \<longleftrightarrow> FIXABLE (a * b)" "FIXABLE (a * b) \<Longrightarrow> c = a * b"
proof -
  show eq: "c = a * b" if "FIXABLE (a * b)"
    using that assms(4) by (simp add: FIXABLE_iff signed_take_bit_int_eq_self)
  show "FIXABLE c \<and> c sdiv a = b \<longleftrightarrow> FIXABLE (a * b)"
  proof
    assume c: "FIXABLE c \<and> c sdiv a = b"
    have "c = b * a + c smod a" using sdiv_mult_smod_eq [of c a] c by simp
    moreover have "take_bit 32 c = take_bit 32 (a * b)"
      unfolding assms(4) by (rule take_bit_signed_take_bit) simp
    then have "c mod 2 ^ 32 = (a * b) mod 2 ^ 32" by (simp only: take_bit_eq_mod)
    ultimately have "2 ^ 32 dvd c smod a"
      by (metis add_diff_cancel_left' mod_eq_dvd_iff mult.commute)
    moreover have "\<bar>c smod a\<bar> < 2 ^ 31" using smod_less [OF assms(3), of c] assms(1) by (auto simp: FIXABLE_iff)
    ultimately have "c smod a = 0"
      using dvd_imp_le_int [of "c smod a" "2 ^ 32"] by (cases "c smod a = 0") auto
    with \<open>c = b * a + c smod a\<close> c show "FIXABLE (a * b)" by (simp add: mult.commute)
  next
    assume "FIXABLE (a * b)"
    moreover have "sgn a * sgn b * sgn a * \<bar>b\<bar> = (sgn a * sgn a) * (sgn b * \<bar>b\<bar>)" by (simp only: ac_simps)
    then have "sgn a * sgn b * sgn a * \<bar>b\<bar> = b" using assms(3) by (simp add: sgn_mult_abs sgn_mult_self_eq)
    ultimately show "FIXABLE c \<and> c sdiv a = b"
      using eq assms(3) by (simp add: signed_divide_int_def sgn_mult abs_mult)
  qed
qed

lemma c_div_eq_iff:
  assumes "FIXABLE (sint c)" "FIXABLE (sint a)" "sint a \<noteq> 0"
  shows "c_div c a = b \<longleftrightarrow> sint c sdiv sint a = sint b"
proof -
  have "\<bar>sint c sdiv sint a\<bar> \<le> \<bar>sint c\<bar>"
    using sdiv_int_range [of "sint c" "sint a"] by auto
  then have "sint (word_of_int (sint c sdiv sint a) :: u32) = sint c sdiv sint a"
    using assms(1) by (intro sint_of_int_u32) (auto simp: FIXABLE_iff)
  then show ?thesis unfolding c_div_def by (metis signed_word_eqI)
qed

lemma fix_mul_ok:
  assumes "odd x" "odd y"
  obtains z where "fix_mul E x (VInt (Fix y)) = Inr (VInt z)" "inum_wf z" "inum_val z = fixval x * fixval y"
proof -
  define a b c where "a = FIX2INT x" "b = FIX2INT y" "c = a * b"
  have fx: "FIXABLE (sint a)" "FIXABLE (sint b)" by (simp_all add: a_b_c_def FIX2INT_bounds)
  have c: "sint c = signed_take_bit 31 (sint a * sint b)" by (simp add: a_b_c_def(3) sint_word_ariths)
  consider "a = 0" | "a \<noteq> 0" "FIXABLE (sint a * sint b)" | "a \<noteq> 0" "\<not> FIXABLE (sint a * sint b)" by blast
  then show ?thesis
  proof cases
    case 1
    then have "fixval x = 0" by (simp add: a_b_c_def)
    with 1 assms that show ?thesis by (simp add: fix_mul_def a_b_c_def)
  next
    case 2
    then have a0: "sint a \<noteq> 0" by (metis signed_eq_0_iff)
    have c': "FIXABLE (sint c)" "sint c sdiv sint a = sint b" "sint c = sint a * sint b"
      using mul_check [OF fx a0 c] 2 by auto
    then have "c_div c a = b" using c_div_eq_iff [OF c'(1) fx(1) a0] by simp
    with c' 2 have "fix_mul E x (VInt (Fix y)) = Inr (VInt (Fix (INT2FIX c)))"
      by (simp add: fix_mul_def Let_def a_b_c_def [symmetric] tag_fits)
    with c' that show ?thesis by (simp add: INT2FIX_val a_b_c_def)
  next
    case 3
    then have a0: "sint a \<noteq> 0" by (metis signed_eq_0_iff)
    have "\<not> (FIXABLE (sint c) \<and> sint c sdiv sint a = sint b)" using mul_check(1) [OF fx a0 c] 3 by simp
    then have "\<not> FIXABLE (sint c) \<or> c_div c a \<noteq> b" using c_div_eq_iff [OF _ fx(1) a0] by blast
    with 3 have "fix_mul E x (VInt (Fix y)) = Inr (VInt (big_mul_big (int2big a) (int2big b)))"
      by (auto simp: fix_mul_def Let_def a_b_c_def [symmetric] tag_fits big_ops_int2big)
    with that show ?thesis by (simp add: big_mul_big_ok int2big_ok a_b_c_def)
  qed
qed

text \<open>
  C14: adding, subtracting and multiplying two Fixnums gives the exact integer in normal form;
  the overflow tests send exactly the results that need it to the Bignum routines.
\<close>
theorem fix_ring_exact:
  assumes "inum_wf (Fix x)" "inum_wf (Fix y)"
  shows "\<exists>s d p. fix_plus E x (VInt (Fix y)) = Inr (VInt s) \<and> fix_minus E x (VInt (Fix y)) = Inr (VInt d) \<and>
      fix_mul E x (VInt (Fix y)) = Inr (VInt p) \<and> inum_wf s \<and> inum_wf d \<and> inum_wf p \<and>
      inum_val s = inum_val (Fix x) + inum_val (Fix y) \<and>
      inum_val d = inum_val (Fix x) - inum_val (Fix y) \<and>
      inum_val p = inum_val (Fix x) * inum_val (Fix y)"
proof -
  have odd: "odd x" "odd y" using assms by simp_all
  obtain s where "fix_plus E x (VInt (Fix y)) = Inr (VInt s)" "inum_wf s" "inum_val s = fixval x + fixval y"
    using fix_plus_ok [OF odd] .
  moreover obtain d where "fix_minus E x (VInt (Fix y)) = Inr (VInt d)" "inum_wf d" "inum_val d = fixval x - fixval y"
    using fix_minus_ok [OF odd] .
  moreover obtain p where "fix_mul E x (VInt (Fix y)) = Inr (VInt p)" "inum_wf p" "inum_val p = fixval x * fixval y"
    using fix_mul_ok [OF odd] .
  ultimately show ?thesis by auto
qed

theorem fix_ring_exact_witness:
  "\<exists>p. fix_mul undefined (INT2FIX 65536) (VFix (- 65536) :: (nat, nat) rvalue) = Inr (VInt p) \<and>
      inum_val p = - 4294967296"
  using fix_ring_exact [of "INT2FIX 65536" "INT2FIX (- 65536)" "undefined :: (nat, nat) interp"]
  by (auto simp: sint_FIX2INT INT2FIX_alt)

section \<open>Division\<close>

lemma sint_c_div:
  assumes "FIXABLE (sint a)"
  shows "sint (c_div a b) = sint a sdiv sint b"
  unfolding c_div_def
  using assms sdiv_int_range [of "sint a" "sint b"] by (intro sint_of_int_u32) (auto simp: FIXABLE_iff)

lemma sint_c_mod:
  assumes "FIXABLE (sint b)" "sint b \<noteq> 0"
  shows "sint (c_mod a b) = sint a smod sint b"
  unfolding c_mod_def
  using assms(1) smod_less [OF assms(2), of "sint a"] by (intro sint_of_int_u32) (auto simp: FIXABLE_iff)

text \<open>
  The quotient of two Fixnums fits a tag, except the smallest one divided by \<open>- 1\<close>.
\<close>

lemma sdiv_fixable:
  assumes "FIXABLE a" "FIXABLE b" "b \<noteq> 0" "\<not> (a = - (2 ^ 30) \<and> b = - 1)"
  shows "FIXABLE (a sdiv b)"
proof -
  have le: "\<bar>a sdiv b\<bar> \<le> \<bar>a\<bar>" using sdiv_int_range [of a b] by auto
  have "a sdiv b \<noteq> 2 ^ 30"
  proof
    assume q: "a sdiv b = 2 ^ 30"
    then have a: "a = - (2 ^ 30)" using le assms(1) by (auto simp: FIXABLE_iff)
    have "a = 2 ^ 30 * b + a smod b" using sdiv_mult_smod_eq [of a b] q by simp
    moreover have "\<bar>a smod b\<bar> < \<bar>b\<bar>" using smod_less [OF assms(3)] .
    ultimately have "b = - 1" using a assms(3) by auto
    with a assms(4) show False by simp
  qed
  with le assms(1) show ?thesis by (auto simp: FIXABLE_iff)
qed

lemma fix_div_mod_value:
  assumes "inum_wf (Fix x)" "inum_wf (Fix y)"
  shows "if inum_val (Fix y) = 0
    then fix_div E x (VInt (Fix y)) = Inl (ZeroDivisionError ''divided by 0'') \<and>
         fix_mod E x (VInt (Fix y)) = Inl (ZeroDivisionError ''divided by 0'')
    else \<exists>q r. fix_div E x (VInt (Fix y)) = Inr (VInt (Fix q)) \<and> fix_mod E x (VInt (Fix y)) = Inr (VInt (Fix r)) \<and>
      inum_wf (Fix q) \<and> inum_wf (Fix r) \<and>
      inum_val (Fix r) = inum_val (Fix x) smod inum_val (Fix y) \<and>
      inum_val (Fix q) = (if inum_val (Fix x) = - (2 ^ 30) \<and> inum_val (Fix y) = - 1 then - (2 ^ 30)
                          else inum_val (Fix x) sdiv inum_val (Fix y))"
proof (cases "fixval y = 0")
  case True
  then have "FIX2INT y = 0" by (metis signed_eq_0_iff)
  with True show ?thesis by (simp add: fix_div_def fix_mod_def num_zerodiv_def)
next
  case False
  define a b where "a = FIX2INT x" "b = FIX2INT y"
  have fx: "FIXABLE (sint a)" "FIXABLE (sint b)" by (simp_all add: a_b_def FIX2INT_bounds)
  have b0: "b \<noteq> 0" "sint b \<noteq> 0" using False by (auto simp: a_b_def)
  have r: "sint (c_mod a b) = sint a smod sint b" using sint_c_mod [OF fx(2) b0(2)] .
  then have "FIXABLE (sint (c_mod a b))" using smod_less [OF b0(2), of "sint a"] fx(2) by (auto simp: FIXABLE_iff)
  with r have rv: "sint (FIX2INT (INT2FIX (c_mod a b))) = sint a smod sint b" by (simp add: INT2FIX_val)
  have q: "sint (c_div a b) = sint a sdiv sint b" using sint_c_div [OF fx(1)] .
  have qv: "sint (FIX2INT (INT2FIX (c_div a b))) = (if sint a = - (2 ^ 30) \<and> sint b = - 1 then - (2 ^ 30) else sint a sdiv sint b)"
  proof (cases "sint a = - (2 ^ 30) \<and> sint b = - 1")
    case True
    then have "sint a sdiv sint b = 2 ^ 30" by simp
    then have "sint (FIX2INT (INT2FIX (c_div a b))) = signed_take_bit 30 (2 ^ 30)"
      unfolding sint_FIX2INT_INT2FIX q by simp
    also have "\<dots> = - (2 ^ 30)" by (simp add: signed_take_bit_def mask_eq_exp_minus_1 not_eq_complement)
    finally show ?thesis using True by simp
  next
    case False
    then have "FIXABLE (sint (c_div a b))" unfolding q using sdiv_fixable [OF fx b0(2)] by blast
    with False q show ?thesis by (simp add: INT2FIX_val)
  qed
  show ?thesis using False b0 rv qv by (simp add: fix_div_def fix_mod_def a_b_def)
qed

text \<open>
  C21: dividing Fixnums: a zero divisor raises; otherwise \<^verbatim>\<open>%\<close> returns the remainder with the
  sign of the dividend and \<^verbatim>\<open>/\<close> the quotient truncated towards zero, except that the smallest
  Fixnum divided by \<open>- 1\<close> is itself.
\<close>
theorem fix_div_mod_exact:
  assumes "inum_wf (Fix x)" "inum_wf (Fix y)"
  shows "if inum_val (Fix y) = 0
    then fix_div E x (VInt (Fix y)) = Inl (ZeroDivisionError ''divided by 0'') \<and>
         fix_mod E x (VInt (Fix y)) = Inl (ZeroDivisionError ''divided by 0'')
    else \<exists>q r. fix_div E x (VInt (Fix y)) = Inr (VInt (Fix q)) \<and> fix_mod E x (VInt (Fix y)) = Inr (VInt (Fix r)) \<and>
      inum_wf (Fix q) \<and> inum_wf (Fix r) \<and>
      inum_val (Fix r) = inum_val (Fix x) smod inum_val (Fix y) \<and>
      inum_val (Fix q) = (if inum_val (Fix x) = - (2 ^ 30) \<and> inum_val (Fix y) = - 1 then - (2 ^ 30)
                          else inum_val (Fix x) sdiv inum_val (Fix y))"
  using assms by (rule fix_div_mod_value)

theorem fix_div_mod_exact_witness:
  "\<exists>q r. fix_div undefined (INT2FIX (- 7)) (VFix 2 :: (nat, nat) rvalue) = Inr (VInt (Fix q)) \<and>
      fix_mod undefined (INT2FIX (- 7)) (VFix 2 :: (nat, nat) rvalue) = Inr (VInt (Fix r)) \<and>
      inum_val (Fix q) = - 3 \<and> inum_val (Fix r) = - 1"
  using fix_div_mod_exact [of "INT2FIX (- 7)" "INT2FIX 2" "undefined :: (nat, nat) interp"]
  by (auto simp: sint_FIX2INT INT2FIX_alt)

section \<open>Bits\<close>

lemma sint_bitwise:
  "sint (a AND b :: u32) = sint a AND sint b" "sint (a OR b :: u32) = sint a OR sint b"
  "sint (a XOR b :: u32) = sint a XOR sint b" "sint (NOT a :: u32) = NOT (sint a)"
proof -
  have "sint (- 1 - a) = - 1 - sint a"
    by (rule sint_sub_eq) (use sint_32_bounds [of a] in auto)
  moreover have "NOT a = - 1 - a" by (simp add: not_eq_complement)
  ultimately have "sint (NOT a) = - 1 - sint a" by simp
  then show "sint (NOT a) = NOT (sint a)" by (simp add: not_eq_complement [of "sint a"])
qed (simp_all add: signed_and_eq signed_or_eq signed_xor_eq)

lemma FIXABLE_stb: "FIXABLE v \<longleftrightarrow> signed_take_bit 30 v = v"
  by (auto simp: FIXABLE_iff signed_take_bit_int_eq_self_iff)

lemma stb_bitwise:
  "signed_take_bit n (a AND b :: int) = signed_take_bit n a AND signed_take_bit n b"
  "signed_take_bit n (a OR b :: int) = signed_take_bit n a OR signed_take_bit n b"
  "signed_take_bit n (a XOR b :: int) = signed_take_bit n a XOR signed_take_bit n b"
  "signed_take_bit n (NOT a :: int) = NOT (signed_take_bit n a)"
  by (rule bit_eqI; simp only: bit_signed_take_bit_iff bit_and_iff bit_or_iff bit_xor_iff bit_not_iff; simp)+

lemma FIXABLE_bitwise:
  assumes "FIXABLE a" "FIXABLE b"
  shows "FIXABLE (a AND b)" "FIXABLE (a OR b)" "FIXABLE (a XOR b)" "FIXABLE (NOT a)"
  using assms unfolding FIXABLE_stb stb_bitwise by simp_all

text \<open>
  \<^verbatim>\<open>&\<close>, \<^verbatim>\<open>|\<close>, \<^verbatim>\<open>^\<close> and \<^verbatim>\<open>~\<close> on Fixnums are the operations on the two's complement numbers,
  and \<^verbatim>\<open>x[i]\<close> is bit \<open>i\<close> for indices from 0 to 31 and zero outside, also for negative \<open>x\<close>.
\<close>
theorem fix_bits_exact:
  assumes "inum_wf (Fix x)" "inum_wf (Fix y)"
  shows "\<exists>a b c d. fix_and E x (VInt (Fix y)) = Inr a \<and> fix_or E x (VInt (Fix y)) = Inr b \<and>
      fix_xor E x (VInt (Fix y)) = Inr c \<and> fix_rev x = d \<and> inum_wf a \<and> inum_wf b \<and> inum_wf c \<and> inum_wf d \<and>
      inum_val a = inum_val (Fix x) AND inum_val (Fix y) \<and>
      inum_val b = inum_val (Fix x) OR inum_val (Fix y) \<and>
      inum_val c = inum_val (Fix x) XOR inum_val (Fix y) \<and> inum_val d = NOT (inum_val (Fix x)) \<and>
      fix_aref x y = Fix (INT2FIX (of_bool (0 \<le> inum_val (Fix y) \<and> inum_val (Fix y) \<le> 31 \<and>
        bit (inum_val (Fix x)) (nat (inum_val (Fix y))))))"
proof -
  let ?a = "FIX2INT x" and ?b = "FIX2INT y"
  note fb = FIXABLE_bitwise [OF FIX2INT_bounds [of x] FIX2INT_bounds [of y], folded sint_bitwise]
  have rev: "FIX2INT (INT2FIX (NOT (FIX2UINT x))) = NOT ?a"
    by (rule bit_word_eqI)
      (auto simp: FIX2INT_def INT2FIX_def FIX2UINT_def bit_simps simp del: push_bit_Suc)
  have aref: "fix_aref x y = Fix (INT2FIX (of_bool (0 \<le> fixval y \<and> fixval y \<le> 31 \<and> bit (fixval x) (nat (fixval y)))))"
  proof (cases "0 \<le> fixval y \<and> fixval y \<le> 31")
    case True
    have "bit (fixval x) (nat (fixval y)) \<longleftrightarrow> bit ?a (nat (fixval y))"
      using True bit_sint_iff [of ?a "nat (fixval y)"] by (auto simp: min_def)
    then have "bit (fixval x) (nat (fixval y)) \<longleftrightarrow> ?a AND push_bit (nat (fixval y)) 1 \<noteq> 0"
      by (simp only: bit_iff_and_push_bit_not_eq_0)
    with True show ?thesis by (auto simp: fix_aref_def Let_def)
  next
    case False
    then show ?thesis by (auto simp: fix_aref_def Let_def)
  qed
  show ?thesis
    using fb aref by (simp add: fix_and_def fix_or_def fix_xor_def fix_rev_def rev int2inum_ok INT2FIX_val sint_bitwise)
qed

theorem fix_bits_exact_witness:
  "\<exists>a. fix_and undefined (INT2FIX (- 4)) (VFix 255 :: (nat, nat) rvalue) = Inr a \<and> inum_val a = 252"
  using fix_bits_exact [of "INT2FIX (- 4)" "INT2FIX 255" "undefined :: (nat, nat) interp"]
  by (auto simp: sint_FIX2INT INT2FIX_alt)

section \<open>Shifts\<close>

lemma big_shift_int2big:
  assumes "n = sint s" "n \<noteq> - (2 ^ 30)" "FIXABLE n"
  shows "\<exists>z. shift_result (big_shift left (int2big a) s) = Inr z \<and> inum_wf z \<and>
     inum_val z = shift_spec (left = (0 \<le> n)) (int2big a) (nat \<bar>n\<bar>)"
proof -
  note w = signed_ok_normal(2) [OF signed_ok_int2big]
  consider "0 \<le> n" | "- (2 ^ 30) < n" "n < 0" using assms by (fastforce simp: FIXABLE_iff)
  then show ?thesis
  proof cases
    case 1
    with assms(1) show ?thesis
      by (cases left)
        (simp_all add: big_shift_nonneg shift_result_def shift_digits_spec lshift_digits_ok(1) rshift_digits_ok(1) [OF w])
  next
    case 2
    with assms(1) show ?thesis
      by (cases left)
        (simp_all add: big_shift_negative shift_result_def shift_digits_spec lshift_digits_ok(1) rshift_digits_ok(1) [OF w])
  qed
qed

lemma small_lshift:
  assumes "unat w \<le> 31" "drop_bit (31 - unat w) (val :: u32) = 0"
  shows "sint (push_bit (unat w) val) = sint val * 2 ^ unat w"
proof -
  let ?n = "unat w"
  have "uint val div 2 ^ (31 - ?n) = uint (drop_bit (31 - ?n) val)"
    unfolding unsigned_drop_bit_eq by (simp add: drop_bit_eq_div)
  also have "\<dots> = 0" using assms(2) by simp
  finally have "uint val div 2 ^ (31 - ?n) = 0" .
  then have v: "uint val < 2 ^ (31 - ?n)" by (auto simp: zdiv_eq_0_iff)
  have p: "(2::int) ^ (31 - ?n) * 2 ^ ?n = 2 ^ 31" using assms(1) by (simp flip: power_add)
  have "uint val * 2 ^ ?n < 2 ^ (31 - ?n) * 2 ^ ?n" using v by (intro mult_strict_right_mono) auto
  then have s: "uint val * 2 ^ ?n < 2 ^ 31" unfolding p .
  then have "uint (push_bit ?n val) = uint val * 2 ^ ?n"
    unfolding unsigned_push_bit_eq by (simp add: push_bit_eq_mult take_bit_int_eq_self)
  with s have "sint (push_bit ?n val) = uint val * 2 ^ ?n" by (simp add: sint_eq_uint_if)
  moreover have "(2::int) ^ (31 - ?n) \<le> 2 ^ 31" by (intro power_increasing) auto
  then have "sint val = uint val" using v by (simp add: sint_eq_uint_if)
  ultimately show ?thesis by simp
qed

text \<open>
  \<^verbatim>\<open><<\<close> on a Fixnum by a Fixnum width \<open>n \<ge> 0\<close> is the exact product with \<open>2 ^ n\<close>, whichever of
  the two code paths runs; a negative width other than the smallest Fixnum shifts right as the
  Bignum routine does.
\<close>
theorem fix_lshift_exact:
  assumes "inum_wf (Fix x)" "inum_wf (Fix y)" and n: "n = inum_val (Fix y)" "n \<noteq> - (2 ^ 30)"
  shows "\<exists>z. fix_lshift E x (VInt (Fix y)) = Inr z \<and> inum_wf z \<and>
     inum_val z = (if 0 \<le> n then inum_val (Fix x) * 2 ^ nat n
                   else shift_spec False (int2big (FIX2INT x)) (nat (- n)))"
proof -
  let ?w = "FIX2INT y" and ?v = "FIX2INT x"
  have w: "sint ?w = n" by (simp add: n)
  have big: "\<exists>z. big_lshift E (int2big ?v) (VInt (Fix y)) = Inr z \<and> inum_wf z \<and>
      inum_val z = (if 0 \<le> n then fixval x * 2 ^ nat n else shift_spec False (int2big ?v) (nat (- n)))"
    using big_shift_int2big [OF w [symmetric] n(2), of True ?v] FIX2INT_bounds [of y] w
    by (auto simp: big_lshift_def shift_spec_def int2big_ok)
  show ?thesis
  proof (cases "?w > 31 \<or> drop_bit (31 - unat ?w) ?v > 0")
    case True
    then have "fix_lshift E x (VInt (Fix y)) = big_lshift E (int2big ?v) (VInt (Fix y))"
      by (auto simp: fix_lshift_def Let_def)
    with big show ?thesis by (simp only: inum_val.simps)
  next
    case False
    then have le: "?w \<le> 31" "drop_bit (31 - unat ?w) ?v = 0" by (auto simp: word_neq_0_conv [symmetric])
    have u: "uint ?w \<le> 31" using le(1) by (simp add: word_le_def)
    then have nn: "n = uint ?w" using w by (simp add: sint_eq_uint_if split: if_splits)
    then have un: "unat ?w = nat n" by simp
    have "unat ?w \<le> 31" using le(1) by (simp add: word_le_nat_alt)
    then have "sint (push_bit (unat ?w) ?v) = fixval x * 2 ^ nat n"
      using small_lshift [OF _ le(2)] unfolding un by simp
    moreover have "fix_lshift E x (VInt (Fix y)) = Inr (int2inum (push_bit (unat ?w) ?v))"
      using False by (simp add: fix_lshift_def Let_def)
    moreover have "0 \<le> n" by (simp add: nn)
    ultimately show ?thesis by (simp add: int2inum_ok)
  qed
qed

theorem fix_lshift_exact_witness:
  "\<exists>z. fix_lshift undefined (INT2FIX (- 5)) (VFix 40 :: (nat, nat) rvalue) = Inr z \<and> inum_val z = - 5497558138880"
  using fix_lshift_exact [of "INT2FIX (- 5)" "INT2FIX 40", OF _ _ refl, of "undefined :: (nat, nat) interp"]
  by (auto simp: sint_FIX2INT INT2FIX_alt)

lemma tag_less:
  "(s::int) = (if u < 2147483648 then u else u - 4294967296) \<Longrightarrow> s = 2 * n + 1 \<Longrightarrow> 0 \<le> u \<Longrightarrow>
     u < 4294967296 \<Longrightarrow> - 1073741824 \<le> n \<Longrightarrow> u < 32 \<longleftrightarrow> 0 \<le> n \<and> n \<le> 15"
  by (auto split: if_splits)

text \<open>
  \<^verbatim>\<open>>>\<close> on a Fixnum is the arithmetic shift only for widths from 0 to 15, because the
  tagged width is compared with 32; for every other width the result is 0, also where the
  shifted number is not 0.
\<close>
theorem fix_rshift_value:
  assumes "inum_wf (Fix x)" "inum_wf (Fix y)" and n: "n = inum_val (Fix y)"
  shows "\<exists>z. fix_rshift E x (VInt (Fix y)) = Inr z \<and> inum_wf z \<and>
     inum_val z = (if 0 \<le> n \<and> n \<le> 15 then inum_val (Fix x) div 2 ^ nat n else 0)"
proof -
  have y: "y = INT2FIX (FIX2INT y)" using INT2FIX_FIX2INT [of y] assms(2) by simp
  have b: "FIXABLE n" using FIX2INT_bounds [of y] by (simp add: n)
  have s: "sint y = (if uint y < 2147483648 then uint y else uint y - 4294967296)" by (simp add: sint_eq_uint_if)
  have "sint y = 2 * n + 1"
    using assms(2) odd_sint [of y] by (simp add: n sint_FIX2INT)
  then have "uint y < 32 \<longleftrightarrow> 0 \<le> n \<and> n \<le> 15"
    using tag_less [OF _ \<open>sint y = 2 * n + 1\<close> uint_ge_0 uint_32_less [of y]] s b
    by (simp add: FIXABLE_iff)
  then have lt: "y < 32 \<longleftrightarrow> 0 \<le> n \<and> n \<le> 15" by (simp add: word_less_def)
  show ?thesis
  proof (cases "0 \<le> n \<and> n \<le> 15")
    case True
    then have "n = uint (FIX2INT y)"
      using n sint_eq_uint_if [of "FIX2INT y"] uint_32_less [of "FIX2INT y"] by (simp split: if_splits)
    then have "unat (FIX2INT y) = nat n" by simp
    moreover have "FIXABLE (fixval x div 2 ^ nat n)"
    proof -
      have "- (2 ^ 30) \<le> fixval x div 2 ^ nat n \<and> fixval x div 2 ^ nat n < 2 ^ 30"
      proof (cases "0 \<le> fixval x")
        case True
        then have "fixval x div 2 ^ nat n \<le> fixval x"
          using zdiv_mono2 [of "fixval x" 1 "2 ^ nat n"] by simp
        moreover have "0 \<le> fixval x div 2 ^ nat n" using True by (simp add: pos_imp_zdiv_nonneg_iff)
        ultimately show ?thesis using fixval_bounds [of x] by simp
      next
        case False
        then have "fixval x div 1 \<le> fixval x div 2 ^ nat n" by (intro zdiv_mono2_neg) auto
        moreover have "fixval x div 2 ^ nat n < 0" using False by (simp add: neg_imp_zdiv_neg_iff pos_imp_zdiv_neg_iff)
        ultimately show ?thesis using fixval_bounds [of x] by simp
      qed
      then show ?thesis by (simp add: FIXABLE_iff)
    qed
    ultimately show ?thesis
      using True lt by (simp add: fix_rshift_def value_below_32_def INT2FIX_val sint_signed_drop)
  next
    case False
    then show ?thesis using lt small_fix [of 0] by (auto simp: fix_rshift_def value_below_32_def)
  qed
qed

theorem fix_rshift_value_witness:
  "(\<exists>z. fix_rshift undefined (INT2FIX 1000000) (VFix 15 :: (nat, nat) rvalue) = Inr z \<and> inum_val z = 30) \<and>
   (\<exists>z. fix_rshift undefined (INT2FIX 1000000) (VFix 16 :: (nat, nat) rvalue) = Inr z \<and> inum_val z = 0)"
  using fix_rshift_value [of "INT2FIX 1000000" "INT2FIX 15", OF _ _ refl, of "undefined :: (nat, nat) interp"]
    fix_rshift_value [of "INT2FIX 1000000" "INT2FIX 16", OF _ _ refl, of "undefined :: (nat, nat) interp"]
  by (auto simp: sint_FIX2INT INT2FIX_alt)

section \<open>Iteration\<close>

text \<open>The integers that a loop from \<open>i\<close> by steps of \<open>d\<close> visits while it has not passed \<open>limit\<close>.\<close>

definition progression :: "int \<Rightarrow> int \<Rightarrow> int \<Rightarrow> int list" where
  "progression i limit d = map (\<lambda>k. i + int k * d) [0..<nat ((limit - i) div d + 1)]"

lemma progression_Nil: "0 < d \<Longrightarrow> limit < i \<Longrightarrow> progression i limit d = []"
proof -
  assume "0 < d" "limit < i"
  then have "(limit - i) div d < 0" by (simp add: pos_imp_zdiv_neg_iff)
  then show ?thesis by (simp add: progression_def)
qed

lemma progression_Nil_neg: "d < 0 \<Longrightarrow> i < limit \<Longrightarrow> progression i limit d = []"
proof -
  assume "d < 0" "i < limit"
  then have "(limit - i) div d < 0" by (simp add: neg_imp_zdiv_neg_iff)
  then show ?thesis by (simp add: progression_def)
qed

lemma progression_Cons:
  assumes "d \<noteq> 0" "0 \<le> (limit - i) div d"
  shows "progression i limit d = i # progression (i + d) limit d"
proof -
  have "limit - (i + d) = (limit - i) + (- 1) * d" by simp
  then have "(limit - (i + d)) div d = (limit - i) div d - 1" using assms(1) by (metis div_mult_self1 add.commute uminus_add_conv_diff)
  then have n: "nat ((limit - i) div d + 1) = Suc (nat ((limit - (i + d)) div d + 1))" using assms(2) by simp
  show ?thesis unfolding progression_def n
    by (simp add: upt_rec [of 0] map_Suc_upt [symmetric] algebra_simps del: upt_Suc)
qed

lemma count_up_ok:
  assumes d: "0 < sint d" "sint d < 1073741824" and l: "sint limit < 1073741824"
  shows "FIXABLE (sint i) \<or> sint limit < sint i \<Longrightarrow> sint limit - sint i < int n \<Longrightarrow>
    \<exists>ys. count_up n i limit d = Inr ys \<and> map fixval ys = progression (sint i) (sint limit) (sint d)"
proof (induction n arbitrary: i)
  case 0
  then have "sint limit < sint i" by simp
  then show ?case using d by (simp add: count_up.simps progression_Nil)
next
  case (Suc n)
  show ?case
  proof (cases "sint i \<le> sint limit")
    case True
    then have fi: "FIXABLE (sint i)" using Suc.prems(1) by simp
    have s: "sint (i + d) = sint i + sint d"
      by (rule sint_add_eq [OF refl refl]) (use True d l fi in \<open>auto simp: FIXABLE_iff\<close>)
    have "FIXABLE (sint (i + d)) \<or> sint limit < sint (i + d)"
      using fi d l by (auto simp: s FIXABLE_iff)
    moreover have "sint limit - sint (i + d) < int n" using Suc.prems(2) d(1) s by simp
    ultimately obtain ys where ys: "count_up n (i + d) limit d = Inr ys"
      "map fixval ys = progression (sint i + sint d) (sint limit) (sint d)"
      using Suc.IH s by metis
    have "0 \<le> (sint limit - sint i) div sint d" using True d(1) by (simp add: pos_imp_zdiv_nonneg_iff)
    with ys d True fi show ?thesis
      by (simp add: count_up.simps [of "Suc n"] progression_Cons INT2FIX_val)
  next
    case False
    then show ?thesis using d by (simp add: count_up.simps progression_Nil)
  qed
qed

lemma count_down_ok:
  assumes d: "sint d < 0" "- 1073741824 \<le> sint d" and l: "- 1073741824 \<le> sint limit"
  shows "FIXABLE (sint i) \<or> sint i < sint limit \<Longrightarrow> sint i - sint limit < int n \<Longrightarrow>
    \<exists>ys. count_down n i limit d = Inr ys \<and> map fixval ys = progression (sint i) (sint limit) (sint d)"
proof (induction n arbitrary: i)
  case 0
  then have "sint i < sint limit" by simp
  then show ?case using d by (simp add: count_down.simps progression_Nil_neg)
next
  case (Suc n)
  show ?case
  proof (cases "sint limit \<le> sint i")
    case True
    then have fi: "FIXABLE (sint i)" using Suc.prems(1) by simp
    have s: "sint (i + d) = sint i + sint d"
      by (rule sint_add_eq [OF refl refl]) (use True d l fi in \<open>auto simp: FIXABLE_iff\<close>)
    have "FIXABLE (sint (i + d)) \<or> sint (i + d) < sint limit"
      using fi d l by (auto simp: s FIXABLE_iff)
    moreover have "sint (i + d) - sint limit < int n" using Suc.prems(2) d(1) s by simp
    ultimately obtain ys where ys: "count_down n (i + d) limit d = Inr ys"
      "map fixval ys = progression (sint i + sint d) (sint limit) (sint d)"
      using Suc.IH s by metis
    have "0 \<le> (sint limit - sint i) div sint d" using True d(1) by (simp add: neg_imp_zdiv_nonneg_iff)
    with ys d True fi show ?thesis
      by (simp add: count_down.simps [of "Suc n"] progression_Cons INT2FIX_val)
  next
    case False
    then show ?thesis using d by (simp add: count_down.simps progression_Nil_neg)
  qed
qed

text \<open>
  \<^verbatim>\<open>upto\<close>, \<^verbatim>\<open>downto\<close>, \<^verbatim>\<open>step\<close> and \<^verbatim>\<open>times\<close> on Fixnums end and yield exactly the integers of
  the progression: the \<^verbatim>\<open>int\<close> counter never overflows, even for the largest bounds and steps;
  a zero step raises.
\<close>
theorem fix_iteration_exact:
  assumes "inum_wf (Fix f)" "inum_wf (Fix t)" "inum_wf (Fix s)"
  shows "(\<exists>ys. fix_upto f t = Inr ys \<and> map fixval ys = progression (fixval f) (fixval t) 1) \<and>
    (\<exists>ys. fix_downto f t = Inr ys \<and> map fixval ys = progression (fixval f) (fixval t) (- 1)) \<and>
    (\<exists>ys. fix_dotimes f = Inr ys \<and> map fixval ys = progression 0 (fixval f - 1) 1) \<and>
    (if fixval s = 0 then fix_step f t s = Inl (ArgError ''step cannot be 0'')
     else \<exists>ys. fix_step f t s = Inr ys \<and> map fixval ys = progression (fixval f) (fixval t) (fixval s))"
proof -
  note b = fixval_bounds [of f] fixval_bounds [of t] fixval_bounds [of s]
  have "sint (1 :: u32) = 1" "sint (- 1 :: u32) = - 1" by simp_all
  note up = count_up_ok [where i = "FIX2INT f" and limit = "FIX2INT t" and n = "2 ^ 31"]
  note down = count_down_ok [where i = "FIX2INT f" and limit = "FIX2INT t" and n = "2 ^ 31"]
  have "sint (FIX2INT f - 1) = fixval f - 1"
    by (rule sint_sub_eq [OF refl \<open>sint (1 :: u32) = 1\<close>]; use b in linarith)
  then have times: "\<exists>ys. fix_dotimes f = Inr ys \<and> map fixval ys = progression 0 (fixval f - 1) 1"
    using count_up_ok [of 1 "FIX2INT f - 1" 0 "2 ^ 31"] b by (simp add: fix_dotimes_def FIXABLE_iff)
  have step: "\<exists>ys. fix_step f t s = Inr ys \<and> map fixval ys = progression (fixval f) (fixval t) (fixval s)" if "fixval s \<noteq> 0"
  proof (cases "fixval s > 0")
    case True
    then show ?thesis using up [of "FIX2INT s"] b FIX2INT_bounds [of f] by (auto simp: fix_step_def Let_def)
  next
    case False
    with that have "fixval s < 0" "FIX2INT s \<noteq> 0" by auto
    then show ?thesis using down [of "FIX2INT s"] b FIX2INT_bounds [of f] by (auto simp: fix_step_def Let_def)
  qed
  have zero: "fix_step f t s = Inl (ArgError ''step cannot be 0'')" if "fixval s = 0"
  proof -
    have "FIX2INT s = 0" using that by (metis signed_eq_0_iff)
    then show ?thesis by (simp add: fix_step_def)
  qed
  show ?thesis
    using times step zero up [of 1] down [of "- 1"] b FIX2INT_bounds [of f]
    by (simp add: fix_upto_def fix_downto_def)
qed

theorem fix_iteration_exact_witness:
  "\<exists>ys. fix_step (INT2FIX 10) (INT2FIX 1) (INT2FIX (- 4)) = Inr ys \<and> map fixval ys = [10, 6, 2]"
  using fix_iteration_exact [of "INT2FIX 10" "INT2FIX 1" "INT2FIX (- 4)"]
  by (simp add: sint_FIX2INT INT2FIX_alt progression_def upt_rec)

end
