(* ===== verification/Integers.thy ===== *)
theory Integers
  imports Fixnum
begin

text \<open>
  Integers as the interpreter calls them: the method tables of Fixnum and Bignum, the
  comparison methods of \<^verbatim>\<open>src/compar.c\<close>, powers, the generic iterators of \<^verbatim>\<open>src/numeric.c\<close>
  and \<^verbatim>\<open>src/range.c\<close>. What a call of an integer method promises whatever the representation
  of the operands is stated as the locale \<open>int_calls\<close> and discharged for the tables.
\<close>

section \<open>Comparable\<close>

definition cmp_call ::
  "('d, 'o) interp \<Rightarrow> (int \<Rightarrow> bool) \<Rightarrow> ('d, 'o) rvalue \<Rightarrow> ('d, 'o) rvalue \<Rightarrow> bool result" where
  "cmp_call E test x y =
     bindR (rb_funcall E ''<=>'' x [y]) (\<lambda>c. bindR (NUM2INT E c) (\<lambda>t. Inr (test (sint t))))"

definition cmp_eq :: "('d, 'o) interp \<Rightarrow> ('d, 'o) rvalue \<Rightarrow> ('d, 'o) rvalue \<Rightarrow> ('d, 'o) rvalue result" where
  "cmp_eq E x y = bindR (cmp_call E (\<lambda>t. t = 0) x y) (\<lambda>b. Inr (rbool b))"

definition cmp_gt :: "('d, 'o) interp \<Rightarrow> ('d, 'o) rvalue \<Rightarrow> ('d, 'o) rvalue \<Rightarrow> ('d, 'o) rvalue result" where
  "cmp_gt E x y = bindR (cmp_call E (\<lambda>t. t > 0) x y) (\<lambda>b. Inr (rbool b))"

definition cmp_ge :: "('d, 'o) interp \<Rightarrow> ('d, 'o) rvalue \<Rightarrow> ('d, 'o) rvalue \<Rightarrow> ('d, 'o) rvalue result" where
  "cmp_ge E x y = bindR (cmp_call E (\<lambda>t. t \<ge> 0) x y) (\<lambda>b. Inr (rbool b))"

definition cmp_lt :: "('d, 'o) interp \<Rightarrow> ('d, 'o) rvalue \<Rightarrow> ('d, 'o) rvalue \<Rightarrow> ('d, 'o) rvalue result" where
  "cmp_lt E x y = bindR (cmp_call E (\<lambda>t. t < 0) x y) (\<lambda>b. Inr (rbool b))"

definition cmp_le :: "('d, 'o) interp \<Rightarrow> ('d, 'o) rvalue \<Rightarrow> ('d, 'o) rvalue \<Rightarrow> ('d, 'o) rvalue result" where
  "cmp_le E x y = bindR (cmp_call E (\<lambda>t. t \<le> 0) x y) (\<lambda>b. Inr (rbool b))"

definition cmp_between ::
  "('d, 'o) interp \<Rightarrow> ('d, 'o) rvalue \<Rightarrow> ('d, 'o) rvalue \<Rightarrow> ('d, 'o) rvalue \<Rightarrow> ('d, 'o) rvalue result" where
  "cmp_between E x lo hi =
     bindR (cmp_call E (\<lambda>t. t < 0) x lo) (\<lambda>b.
       if b then Inr VFalse
       else bindR (cmp_call E (\<lambda>t. t > 0) x hi) (\<lambda>b. if b then Inr VFalse else Inr VTrue))"

section \<open>Powers\<close>

definition big_mul_int :: "inum \<Rightarrow> inum \<Rightarrow> inum" where
  "big_mul_int x y = big_mul_big (int_or_big x) (int_or_big y)"

text \<open>
  \<^verbatim>\<open>while (y % 2 == INT2FIX(0)) { y = y / 2; x = big_mul(x, x); }\<close>; a \<^verbatim>\<open>VALUE\<close> is compared as a
  word.
\<close>

partial_function (option) pow_halve ::
  "('d, 'o) interp \<Rightarrow> ('d, 'o) rvalue \<Rightarrow> inum \<Rightarrow> (('d, 'o) rvalue \<times> inum) result option" where
  "pow_halve E y x =
     (case rb_funcall E ''%'' y [VFix 2] of
        Inl e \<Rightarrow> Some (Inl e)
      | Inr m \<Rightarrow>
          if m = VFix 0 then
            (case rb_funcall E ''/'' y [VFix 2] of
               Inl e \<Rightarrow> Some (Inl e)
             | Inr y' \<Rightarrow> pow_halve E y' (big_mul_int x x))
          else Some (Inr (y, x)))"

partial_function (option) pow_loop ::
  "('d, 'o) interp \<Rightarrow> ('d, 'o) rvalue \<Rightarrow> inum \<Rightarrow> inum \<Rightarrow> inum result option" where
  "pow_loop E y x z =
     (case rb_funcall E ''-'' y [VFix 1] of
        Inl e \<Rightarrow> Some (Inl e)
      | Inr y' \<Rightarrow>
          if y' = VFix 0 then Some (Inr z)
          else Option.bind (pow_halve E y' x) (\<lambda>r.
            case r of Inl e \<Rightarrow> Some (Inl e) | Inr (y'', x') \<Rightarrow> pow_loop E y'' x' (big_mul_int z x')))"

definition big_pow :: "('d, 'o) interp \<Rightarrow> rbignum \<Rightarrow> ('d, 'o) rvalue \<Rightarrow> ('d, 'o) rvalue result" where
  "big_pow E x y =
     (let power = (\<lambda>d. Inr (VFloat (f_pow (flo E) (big2dbl (flo E) x) d)));
          pos_big = (case pow_loop E y (Big x) (Big x) of
             None \<Rightarrow> Inl Diverges | Some r \<Rightarrow> bindR r (\<lambda>z. Inr (VInt z)))
      in if y = VFix 0 then Inr (VFix 1)
         else case y of
           VFloat d \<Rightarrow> power d
         | VInt (Big b) \<Rightarrow> if bsign b then pos_big else power (big2dbl (flo E) b)
         | VInt (Fix f) \<Rightarrow> if sint (FIX2INT f) > 0 then pos_big
             else power (f_of_int (flo E) (sint (FIX2INT f)))
         | _ \<Rightarrow> num_coerce_bin E ''**'' (VInt (Big x)) y)"

definition fix_pow :: "('d, 'o) interp \<Rightarrow> u32 \<Rightarrow> ('d, 'o) rvalue \<Rightarrow> ('d, 'o) rvalue result" where
  "fix_pow E x y =
     (case y of
        VInt (Fix g) \<Rightarrow>
          let b = FIX2INT g in
          if b = 0 then Inr (VFix 1)
          else let a = FIX2INT x in
            if sint b > 0 then big_pow E (int2big a) y
            else Inr (VFloat (f_pow (flo E) (f_of_int (flo E) (sint a)) (f_of_int (flo E) (sint b))))
      | VNil \<Rightarrow> Inr (VFix 1)
      | _ \<Rightarrow> num_coerce_bin E ''**'' (VInt (Fix x)) y)"

section \<open>The method tables\<close>

definition as_value :: "inum result \<Rightarrow> ('d, 'o) rvalue result" where
  "as_value r = bindR r (\<lambda>z. Inr (VInt z))"

text \<open>
  The binary methods that \<^verbatim>\<open>Init_Bignum\<close> defines, and those a Bignum has from \<^verbatim>\<open>Comparable\<close>.
\<close>

definition big_method :: "('d, 'o) interp \<Rightarrow> string \<Rightarrow> rbignum \<Rightarrow> ('d, 'o) rvalue \<Rightarrow> ('d, 'o) rvalue result" where
  "big_method E mid x y =
     (if mid = ''coerce'' then big_coerce x y
      else if mid = ''+'' then big_plus E x y
      else if mid = ''-'' then big_minus E x y
      else if mid = ''*'' then big_mul E (Big x) y
      else if mid = ''/'' then big_div E x y
      else if mid = ''%'' then big_mod E x y
      else if mid = ''divmod'' then big_divmod E x y
      else if mid = ''**'' then big_pow E x y
      else if mid = ''&'' then as_value (big_and x y)
      else if mid = ''|'' then as_value (big_or x y)
      else if mid = ''^'' then as_value (big_xor x y)
      else if mid = ''<<'' then as_value (big_lshift E x y)
      else if mid = ''>>'' then as_value (big_rshift E x y)
      else if mid = ''[]'' then as_value (big_aref E x y)
      else if mid = ''<=>'' then big_cmp E x y
      else if mid = ''=='' \<or> mid = ''eql?'' then big_eq E x y
      else if mid = ''>'' then cmp_gt E (VInt (Big x)) y
      else if mid = ''>='' then cmp_ge E (VInt (Big x)) y
      else if mid = ''<'' then cmp_lt E (VInt (Big x)) y
      else if mid = ''<='' then cmp_le E (VInt (Big x)) y
      else Inl (Fail ''undefined method''))"

text \<open>
  \<^verbatim>\<open>f_float\<close> calls \<^verbatim>\<open>to_f\<close> for values that are neither a Float nor a Bignum, and rescues the exceptions it raises.
  \<^verbatim>\<open>num_coerce\<close>, \<^verbatim>\<open>num_divmod\<close> and \<^verbatim>\<open>num_eql\<close> are methods of Numeric that Fixnum inherits; \<open>TYPE_of\<close> is \<^verbatim>\<open>TYPE\<close>.
\<close>

definition f_float :: "('d, 'o) interp \<Rightarrow> ('d, 'o) rvalue \<Rightarrow> ('d, 'o) rvalue result" where
  "f_float E arg =
     (case arg of
        VFloat d \<Rightarrow> Inr arg
      | VInt (Big b) \<Rightarrow> Inr (VFloat (big2dbl (flo E) b))
      | _ \<Rightarrow> (case rb_funcall E ''to_f'' arg [] of
               Inr v \<Rightarrow> Inr v
             | Inl OutOfBounds \<Rightarrow> Inl OutOfBounds
             | Inl Diverges \<Rightarrow> Inl Diverges
             | Inl (Fatal m) \<Rightarrow> Inl (Fatal m)
             | Inl _ \<Rightarrow> Inl (TypeError ''failed to convert %s into Float'')))"

definition num_coerce :: "('d, 'o) interp \<Rightarrow> ('d, 'o) rvalue \<Rightarrow> ('d, 'o) rvalue \<Rightarrow> ('d, 'o) rvalue result" where
  "num_coerce E x y = bindR (f_float E x) (\<lambda>a. bindR (f_float E y) (\<lambda>b. Inr (VPair a b)))"

definition num_divmod :: "('d, 'o) interp \<Rightarrow> ('d, 'o) rvalue \<Rightarrow> ('d, 'o) rvalue \<Rightarrow> ('d, 'o) rvalue result" where
  "num_divmod E x y =
     bindR (rb_funcall E ''/'' x [y]) (\<lambda>q.
       let q' = (case q of
           VFloat v \<Rightarrow> let d = f_floor (flo E) v in if f_lt (flo E) d v then VFloat d else q
         | _ \<Rightarrow> q)
       in bindR (rb_funcall E ''%'' x [y]) (\<lambda>m. Inr (VPair q' m)))"

definition num_eql :: "('d, 'o) interp \<Rightarrow> (('d, 'o) rvalue \<Rightarrow> nat) \<Rightarrow> ('d, 'o) rvalue \<Rightarrow> ('d, 'o) rvalue \<Rightarrow> ('d, 'o) rvalue result" where
  "num_eql E TYPE_of x y = (if TYPE_of x \<noteq> TYPE_of y then Inr VFalse else bindR (rb_equal E x y) (\<lambda>b. Inr (rbool b)))"

text \<open>
  The binary methods that \<^verbatim>\<open>Init_Numeric\<close> defines for Fixnum, and those a Fixnum has from Numeric. \<^verbatim>\<open>fix_aref\<close> does
  not check its index: it takes the word of any value for a Fixnum. Only a Fixnum has the type \<^verbatim>\<open>T_FIXNUM\<close>.
\<close>

fun is_fixnum :: "('d, 'o) rvalue \<Rightarrow> bool" where
  "is_fixnum (VInt (Fix f)) = True"
| "is_fixnum _ = False"

definition fix_method :: "('d, 'o) interp \<Rightarrow> string \<Rightarrow> u32 \<Rightarrow> ('d, 'o) rvalue \<Rightarrow> ('d, 'o) rvalue result" where
  "fix_method E mid x y =
     (if mid = ''+'' then fix_plus E x y
      else if mid = ''-'' then fix_minus E x y
      else if mid = ''*'' then fix_mul E x y
      else if mid = ''/'' then fix_div E x y
      else if mid = ''%'' then fix_mod E x y
      else if mid = ''**'' then fix_pow E x y
      else if mid = ''=='' then fix_equal E x y
      else if mid = ''<=>'' then fix_cmp E x y
      else if mid = ''>'' then fix_gt E x y
      else if mid = ''>='' then fix_ge E x y
      else if mid = ''<'' then fix_lt E x y
      else if mid = ''<='' then fix_le E x y
      else if mid = ''&'' then as_value (fix_and E x y)
      else if mid = ''|'' then as_value (fix_or E x y)
      else if mid = ''^'' then as_value (fix_xor E x y)
      else if mid = ''<<'' then as_value (fix_lshift E x y)
      else if mid = ''>>'' then as_value (fix_rshift E x y)
      else if mid = ''[]'' then Inr (VInt (fix_aref x (case y of VInt (Fix g) \<Rightarrow> g | _ \<Rightarrow> word_of E y)))
      else if mid = ''coerce'' then num_coerce E (VInt (Fix x)) y
      else if mid = ''divmod'' then num_divmod E (VInt (Fix x)) y
      else if mid = ''eql?'' then num_eql E (\<lambda>v. if is_fixnum v then 1 else 0) (VInt (Fix x)) y
      else Inl (Fail ''undefined method''))"

fun int_method :: "('d, 'o) interp \<Rightarrow> string \<Rightarrow> inum \<Rightarrow> ('d, 'o) rvalue \<Rightarrow> ('d, 'o) rvalue result" where
  "int_method E mid (Fix f) y = fix_method E mid f y"
| "int_method E mid (Big b) y = big_method E mid b y"

section \<open>Iterators over numbers\<close>

text \<open>
  The loops of \<^verbatim>\<open>num_upto\<close>, \<^verbatim>\<open>num_downto\<close>, \<^verbatim>\<open>num_step\<close> and \<^verbatim>\<open>num_dotimes\<close>: the yielded values in
  order; the value \<open>None\<close> is a loop that does not end.
\<close>

partial_function (option) yield_loop ::
  "('v \<Rightarrow> bool result) \<Rightarrow> ('v \<Rightarrow> 'v result) \<Rightarrow> 'v \<Rightarrow> 'v list \<Rightarrow> 'v list result option" where
  "yield_loop stop succ i acc =
     (case stop i of
        Inl e \<Rightarrow> Some (Inl e)
      | Inr b \<Rightarrow>
          if b then Some (Inr acc)
          else (case succ i of
                  Inl e \<Rightarrow> Some (Inl e)
                | Inr i' \<Rightarrow> yield_loop stop succ i' (acc @ [i])))"

definition call_test :: "('d, 'o) interp \<Rightarrow> string \<Rightarrow> ('d, 'o) rvalue \<Rightarrow> ('d, 'o) rvalue \<Rightarrow> bool result" where
  "call_test E mid x y = bindR (rb_funcall E mid x [y]) (\<lambda>v. Inr (RTEST v))"

definition num_upto :: "('d, 'o) interp \<Rightarrow> ('d, 'o) rvalue \<Rightarrow> ('d, 'o) rvalue \<Rightarrow> ('d, 'o) rvalue list result option" where
  "num_upto E f t =
     yield_loop (\<lambda>i. call_test E ''>'' i t) (\<lambda>i. rb_funcall E ''+'' i [VFix 1]) f []"

definition num_downto :: "('d, 'o) interp \<Rightarrow> ('d, 'o) rvalue \<Rightarrow> ('d, 'o) rvalue \<Rightarrow> ('d, 'o) rvalue list result option" where
  "num_downto E f t =
     yield_loop (\<lambda>i. call_test E ''<'' i t) (\<lambda>i. rb_funcall E ''-'' i [VFix 1]) f []"

definition num_step ::
  "('d, 'o) interp \<Rightarrow> ('d, 'o) rvalue \<Rightarrow> ('d, 'o) rvalue \<Rightarrow> ('d, 'o) rvalue \<Rightarrow> ('d, 'o) rvalue list result option" where
  "num_step E f t s =
     (if s = VFix 0 then Some (Inl (IndexError ''step cannot be 0''))
      else case call_test E ''>'' s (VFix 0) of
        Inl e \<Rightarrow> Some (Inl e)
      | Inr up \<Rightarrow>
          yield_loop (\<lambda>i. call_test E (if up then ''>'' else ''<'') i t) (\<lambda>i. rb_funcall E ''+'' i [s]) f [])"

definition num_dotimes :: "('d, 'o) interp \<Rightarrow> ('d, 'o) rvalue \<Rightarrow> ('d, 'o) rvalue list result option" where
  "num_dotimes E num =
     yield_loop (\<lambda>i. bindR (call_test E ''<'' i num) (\<lambda>b. Inr (\<not> b))) (\<lambda>i. rb_funcall E ''+'' i [VFix 1]) (VFix 0) []"

definition int_succ :: "('d, 'o) interp \<Rightarrow> ('d, 'o) rvalue \<Rightarrow> ('d, 'o) rvalue result" where
  "int_succ E num = rb_funcall E ''+'' num [VFix 1]"

text \<open>
  The iterators of Fixnum: the loops of \<^verbatim>\<open>fix_upto\<close>, \<^verbatim>\<open>fix_downto\<close> and \<^verbatim>\<open>fix_step\<close> run on Fixnum
  arguments only; other arguments go to the generic loops.
\<close>

definition fix_values :: "u32 list result \<Rightarrow> ('d, 'o) rvalue list result option" where
  "fix_values r = Some (bindR r (\<lambda>fs. Inr (map (\<lambda>f. VInt (Fix f)) fs)))"

definition fix_upto_any :: "('d, 'o) interp \<Rightarrow> u32 \<Rightarrow> ('d, 'o) rvalue \<Rightarrow> ('d, 'o) rvalue list result option" where
  "fix_upto_any E f t =
     (case t of VInt (Fix g) \<Rightarrow> fix_values (fix_upto f g) | _ \<Rightarrow> num_upto E (VInt (Fix f)) t)"

definition fix_downto_any :: "('d, 'o) interp \<Rightarrow> u32 \<Rightarrow> ('d, 'o) rvalue \<Rightarrow> ('d, 'o) rvalue list result option" where
  "fix_downto_any E f t =
     (case t of VInt (Fix g) \<Rightarrow> fix_values (fix_downto f g) | _ \<Rightarrow> num_downto E (VInt (Fix f)) t)"

definition fix_step_any ::
  "('d, 'o) interp \<Rightarrow> u32 \<Rightarrow> ('d, 'o) rvalue \<Rightarrow> ('d, 'o) rvalue \<Rightarrow> ('d, 'o) rvalue list result option" where
  "fix_step_any E f t s =
     (case (t, s) of
        (VInt (Fix g), VInt (Fix h)) \<Rightarrow> fix_values (fix_step f g h)
      | _ \<Rightarrow> num_step E (VInt (Fix f)) t s)"

section \<open>Methods of Numeric\<close>

definition num_uminus :: "('d, 'o) interp \<Rightarrow> ('d, 'o) rvalue \<Rightarrow> ('d, 'o) rvalue result" where
  "num_uminus E num =
     bindR (rb_funcall E ''coerce'' num [VFix 0]) (\<lambda>ary.
       case ary of
         VPair x y \<Rightarrow> rb_funcall E ''-'' x [y]
       | _ \<Rightarrow> Inl (TypeError ''coerce must return [x, y]''))"

definition num_abs :: "('d, 'o) interp \<Rightarrow> ('d, 'o) rvalue \<Rightarrow> ('d, 'o) rvalue result" where
  "num_abs E num =
     bindR (call_test E ''<'' num (VFix 0)) (\<lambda>b. if b then rb_funcall E ''-@'' num [] else Inr num)"

text \<open>\<^verbatim>\<open>num_chr\<close>: the byte of the one-character string.\<close>

definition num_chr :: "('d, 'o) interp \<Rightarrow> ('d, 'o) rvalue \<Rightarrow> u8 result" where
  "num_chr E num =
     bindR (NUM2INT E num) (\<lambda>i.
       if sint i < 0 \<or> 255 < sint i then Inl (Fail ''%d out of char range'') else Inr (ucast i))"

section \<open>Ranges\<close>

record ('d, 'o) range =
  range_first :: "('d, 'o) rvalue"
  range_last :: "('d, 'o) rvalue"

text \<open>
  \<^verbatim>\<open>range_s_new\<close> checks the bounds; \<open>same_class\<close> compares \<^verbatim>\<open>TYPE\<close> and \<^verbatim>\<open>CLASS_OF\<close>, \<open>respond_upto\<close> is
  \<^verbatim>\<open>rb_respond_to(first, upto)\<close> and \<open>numeric\<close> is \<^verbatim>\<open>obj_is_kind_of(x, cNumeric)\<close>.
\<close>

definition range_s_new ::
  "(('d, 'o) rvalue \<Rightarrow> ('d, 'o) rvalue \<Rightarrow> bool) \<Rightarrow> (('d, 'o) rvalue \<Rightarrow> bool) \<Rightarrow> (('d, 'o) rvalue \<Rightarrow> bool) \<Rightarrow>
   ('d, 'o) rvalue \<Rightarrow> ('d, 'o) rvalue \<Rightarrow> ('d, 'o) range result" where
  "range_s_new same_class respond_upto numeric fr to =
     (if \<not> (is_fixnum fr \<and> is_fixnum to) \<and>
         (\<not> same_class fr to \<or> \<not> respond_upto fr) \<and>
         \<not> (numeric fr \<and> numeric to)
      then Inl (ArgError ''bad value for range'')
      else Inr \<lparr>range_first = fr, range_last = to\<rparr>)"

text \<open>
  \<^verbatim>\<open>range_each\<close>: the values yielded; \<open>call_upto\<close> is what the call of the method \<^verbatim>\<open>upto\<close> yields for a
  first bound that is no Fixnum.
\<close>

definition range_each ::
  "('d, 'o) interp \<Rightarrow> (('d, 'o) rvalue \<Rightarrow> ('d, 'o) rvalue \<Rightarrow> ('d, 'o) rvalue list result option) \<Rightarrow>
   ('d, 'o) range \<Rightarrow> ('d, 'o) rvalue list result option" where
  "range_each E call_upto rng =
     (if is_fixnum (range_first rng) then num_upto E (range_first rng) (range_last rng)
      else call_upto (range_first rng) (range_last rng))"

definition range_beg_end :: "('d, 'o) interp \<Rightarrow> ('d, 'o) range \<Rightarrow> (u32 \<times> u32) result" where
  "range_beg_end E rng =
     bindR (NUM2INT E (range_first rng)) (\<lambda>b. bindR (NUM2INT E (range_last rng)) (\<lambda>e. Inr (b, e)))"

definition range_eqq :: "('d, 'o) interp \<Rightarrow> ('d, 'o) range \<Rightarrow> ('d, 'o) rvalue \<Rightarrow> bool result" where
  "range_eqq E rng obj =
     (case (range_first rng, obj, range_last rng) of
        (VInt (Fix f), VInt (Fix g), VInt (Fix h)) \<Rightarrow>
          Inr (sint (FIX2INT f) \<le> sint (FIX2INT g) \<and> sint (FIX2INT g) \<le> sint (FIX2INT h))
      | _ \<Rightarrow>
          bindR (call_test E ''<='' (range_first rng) obj) (\<lambda>b.
            if b then call_test E ''>='' (range_last rng) obj else Inr False))"

text \<open>
  \<^verbatim>\<open>obj_is_kind_of(first, cNumeric)\<close> and \<^verbatim>\<open>enum_length\<close>, which counts what \<^verbatim>\<open>each\<close> yields, are
  arguments.
\<close>

definition range_length ::
  "('d, 'o) interp \<Rightarrow> (('d, 'o) rvalue \<Rightarrow> bool) \<Rightarrow> (('d, 'o) range \<Rightarrow> ('d, 'o) rvalue result) \<Rightarrow>
   ('d, 'o) range \<Rightarrow> ('d, 'o) rvalue result" where
  "range_length E kind_of_numeric enum_length rng =
     (if \<not> kind_of_numeric (range_first rng) then enum_length rng
      else bindR (rb_funcall E ''-'' (range_last rng) [range_first rng]) (\<lambda>n. rb_funcall E ''+'' n [VFix 1]))"

section \<open>What a call of an integer method promises\<close>

text \<open>\<^verbatim>\<open>big_mul\<close> accepts integers that are not in normal form.\<close>

definition int_ok :: "inum \<Rightarrow> bool" where
  "int_ok x \<longleftrightarrow> signed_ok (int_or_big x)"

lemma big_val_int_or_big: "big_val (int_or_big x) = inum_val x"
  by (cases x) (simp_all add: int_or_big_def int2big_ok)

lemma inum_wf_int_ok: "inum_wf x \<Longrightarrow> int_ok x"
  by (simp add: int_ok_def int_or_big_ok)

lemma big_mul_int_ok:
  assumes "int_ok x" "int_ok y"
  shows "inum_wf (big_mul_int x y)" "inum_val (big_mul_int x y) = inum_val x * inum_val y"
  using assms by (simp_all add: big_mul_int_def int_ok_def big_mul_big_ok signed_ok_normal big_val_int_or_big)

lemma inum_wf_zero:
  assumes "inum_wf z"
  shows "z = Fix (INT2FIX 0) \<longleftrightarrow> inum_val z = 0"
proof (cases z)
  case (Fix f)
  have "f = INT2FIX 0 \<longleftrightarrow> fixval f = 0"
    using assms Fix INT2FIX_FIX2INT [of f] small_fix(1) [of 0] by (auto simp: signed_eq_0_iff) 
  with Fix show ?thesis by simp
next
  case (Big b)
  then have "inum_val z \<noteq> 0"
    using assms big_val_neg_iff [of b] abs_big_val [of b] by auto
  with Big show ?thesis by auto
qed

text \<open>
  The contract of the arithmetic and comparison methods between integers, in terms of values.
\<close>

locale int_calls =
  fixes E :: "('d, 'o) interp"
  assumes plus: "inum_wf x \<Longrightarrow> inum_wf y \<Longrightarrow>
      \<exists>z. rb_funcall E ''+'' (VInt x) [VInt y] = Inr (VInt z) \<and> inum_wf z \<and> inum_val z = inum_val x + inum_val y"
    and minus: "inum_wf x \<Longrightarrow> inum_wf y \<Longrightarrow>
      \<exists>z. rb_funcall E ''-'' (VInt x) [VInt y] = Inr (VInt z) \<and> inum_wf z \<and> inum_val z = inum_val x - inum_val y"
    and div_pos: "inum_wf x \<Longrightarrow> inum_wf y \<Longrightarrow> 0 \<le> inum_val x \<Longrightarrow> 0 < inum_val y \<Longrightarrow>
      \<exists>z. rb_funcall E ''/'' (VInt x) [VInt y] = Inr (VInt z) \<and> inum_wf z \<and> inum_val z = inum_val x div inum_val y"
    and mod_pos: "inum_wf x \<Longrightarrow> inum_wf y \<Longrightarrow> 0 \<le> inum_val x \<Longrightarrow> 0 < inum_val y \<Longrightarrow>
      \<exists>z. rb_funcall E ''%'' (VInt x) [VInt y] = Inr (VInt z) \<and> inum_wf z \<and> inum_val z = inum_val x mod inum_val y"
    and gt: "inum_wf x \<Longrightarrow> inum_wf y \<Longrightarrow>
      rb_funcall E ''>'' (VInt x) [VInt y] = Inr (rbool (inum_val x > inum_val y))"
    and lt: "inum_wf x \<Longrightarrow> inum_wf y \<Longrightarrow>
      rb_funcall E ''<'' (VInt x) [VInt y] = Inr (rbool (inum_val x < inum_val y))"
begin

lemma one_two: "inum_wf (Fix (INT2FIX 1))" "inum_val (Fix (INT2FIX 1)) = 1"
    "inum_wf (Fix (INT2FIX 2))" "inum_val (Fix (INT2FIX 2)) = 2"
  using small_fix(1) [of 1] small_fix(1) [of 2] by simp_all

lemma call_tests:
  assumes "inum_wf x" "inum_wf y"
  shows "call_test E ''>'' (VInt x) (VInt y) = Inr (inum_val x > inum_val y)"
    "call_test E ''<'' (VInt x) (VInt y) = Inr (inum_val x < inum_val y)"
  using gt [OF assms] lt [OF assms] by (simp_all add: call_test_def)

text \<open>The loop that adds \<open>step\<close> until the limit is passed.\<close>

lemma yield_up:
  assumes "inum_wf t" "inum_wf s" "0 < inum_val s"
  shows "inum_wf f \<Longrightarrow> \<exists>zs. list_all inum_wf zs \<and>
     map inum_val zs = progression (inum_val f) (inum_val t) (inum_val s) \<and>
     yield_loop (\<lambda>i. call_test E ''>'' i (VInt t)) (\<lambda>i. rb_funcall E ''+'' i [VInt s]) (VInt f) acc =
       Some (Inr (acc @ map VInt zs))"
proof (induction "nat (inum_val t - inum_val f + 1)" arbitrary: f acc rule: less_induct)
  case less
  show ?case
  proof (cases "inum_val f > inum_val t")
    case True
    then show ?thesis
      using less.prems assms by (intro exI [of _ "[]"]) (simp add: yield_loop.simps call_tests progression_Nil)
  next
    case False
    obtain g where g: "rb_funcall E ''+'' (VInt f) [VInt s] = Inr (VInt g)" "inum_wf g"
      "inum_val g = inum_val f + inum_val s"
      using plus [OF less.prems assms(2)] by auto
    have "nat (inum_val t - inum_val g + 1) < nat (inum_val t - inum_val f + 1)" using g(3) assms(3) False by simp
    from less.hyps [OF this g(2), of "acc @ [VInt f]"] obtain zs where zs: "list_all inum_wf zs"
      "map inum_val zs = progression (inum_val g) (inum_val t) (inum_val s)"
      "yield_loop (\<lambda>i. call_test E ''>'' i (VInt t)) (\<lambda>i. rb_funcall E ''+'' i [VInt s]) (VInt g) (acc @ [VInt f]) =
        Some (Inr ((acc @ [VInt f]) @ map VInt zs))" by auto
    have "0 \<le> (inum_val t - inum_val f) div inum_val s" using False assms(3) by (simp add: pos_imp_zdiv_nonneg_iff)
    then have "progression (inum_val f) (inum_val t) (inum_val s) = map inum_val (f # zs)"
      using progression_Cons [of "inum_val s" "inum_val t" "inum_val f"] assms(3) zs(2) g(3) by simp
    moreover have "yield_loop (\<lambda>i. call_test E ''>'' i (VInt t)) (\<lambda>i. rb_funcall E ''+'' i [VInt s]) (VInt f) acc =
        Some (Inr (acc @ map VInt (f # zs)))"
      using False g(1) zs(3) less.prems assms by (subst yield_loop.simps) (simp add: call_tests)
    ultimately show ?thesis using zs(1) less.prems by (intro exI [of _ "f # zs"]) simp
  qed
qed

lemma num_upto_yields:
  assumes "inum_wf f" "inum_wf t"
  shows "\<exists>zs. num_upto E (VInt f) (VInt t) = Some (Inr (map VInt zs)) \<and> list_all inum_wf zs \<and>
    map inum_val zs = progression (inum_val f) (inum_val t) 1"
  using yield_up [OF assms(2) one_two(1) _ assms(1), of "[]"] one_two(2) by (auto simp: num_upto_def)

lemma num_step_yields:
  assumes "inum_wf f" "inum_wf t" "inum_wf s" "0 < inum_val s"
  shows "\<exists>zs. num_step E (VInt f) (VInt t) (VInt s) = Some (Inr (map VInt zs)) \<and> list_all inum_wf zs \<and>
    map inum_val zs = progression (inum_val f) (inum_val t) (inum_val s)"
proof -
  have "s \<noteq> Fix (INT2FIX 0)" using inum_wf_zero [OF assms(3)] assms(4) by simp
  moreover have z: "inum_wf (Fix (INT2FIX 0))" "inum_val (Fix (INT2FIX 0)) = 0"
    using small_fix(1) [of 0] by simp_all
  ultimately have "num_step E (VInt f) (VInt t) (VInt s) =
      yield_loop (\<lambda>i. call_test E ''>'' i (VInt t)) (\<lambda>i. rb_funcall E ''+'' i [VInt s]) (VInt f) []"
    using call_tests(1) [OF assms(3) z(1)] assms(4) by (simp add: num_step_def del: inum_val.simps)
  with yield_up [OF assms(2-4,1), of "[]"] show ?thesis by auto
qed

lemma pow_halve_ok:
  "inum_wf y \<Longrightarrow> 0 < inum_val y \<Longrightarrow> int_ok x \<Longrightarrow>
     \<exists>y' x'. pow_halve E (VInt y) x = Some (Inr (VInt y', x')) \<and> inum_wf y' \<and> int_ok x' \<and>
       0 < inum_val y' \<and> inum_val y' \<le> inum_val y \<and> inum_val x' ^ nat (inum_val y') = inum_val x ^ nat (inum_val y)"
proof (induction "nat (inum_val y)" arbitrary: y x rule: less_induct)
  case less
  obtain m where m: "rb_funcall E ''%'' (VInt y) [VFix 2] = Inr (VInt m)" "inum_wf m" "inum_val m = inum_val y mod 2"
    using mod_pos [OF less.prems(1) one_two(3)] less.prems(2) one_two(4) by auto
  show ?case
  proof (cases "inum_val y mod 2 = 0")
    case True
    then have m0: "m = Fix (INT2FIX 0)" using inum_wf_zero [OF m(2)] m(3) by simp
    obtain h where h: "rb_funcall E ''/'' (VInt y) [VFix 2] = Inr (VInt h)" "inum_wf h" "inum_val h = inum_val y div 2"
      using div_pos [OF less.prems(1) one_two(3)] less.prems(2) one_two(4) by auto
    have h2: "inum_val y = 2 * inum_val h" "0 < inum_val h" using h(3) True less.prems(2) by auto
    have sq: "int_ok (big_mul_int x x)" "inum_val (big_mul_int x x) = inum_val x * inum_val x"
      using big_mul_int_ok [OF less.prems(3,3)] by (simp_all add: inum_wf_int_ok)
    have "nat (inum_val h) < nat (inum_val y)" using h2 by simp
    from less.hyps [OF this h(2) h2(2) sq(1)] obtain y' x' where yx:
      "pow_halve E (VInt h) (big_mul_int x x) = Some (Inr (VInt y', x'))" "inum_wf y'" "int_ok x'"
      "0 < inum_val y'" "inum_val y' \<le> inum_val h"
      "inum_val x' ^ nat (inum_val y') = (inum_val x * inum_val x) ^ nat (inum_val h)"
      unfolding sq(2) by blast
    have "nat (inum_val y) = 2 * nat (inum_val h)" using h2 by simp
    then have "(inum_val x * inum_val x) ^ nat (inum_val h) = inum_val x ^ nat (inum_val y)"
      by (simp only: power_mult power2_eq_square)
    moreover have "pow_halve E (VInt y) x = Some (Inr (VInt y', x'))"
      using m(1) h(1) yx(1) by (subst pow_halve.simps) (simp add: m0)
    ultimately show ?thesis using yx h2 by auto
  next
    case False
    then have "m \<noteq> Fix (INT2FIX 0)" using inum_wf_zero [OF m(2)] m(3) by simp
    then have "pow_halve E (VInt y) x = Some (Inr (VInt y, x))"
      using m(1) by (subst pow_halve.simps) simp
    with less.prems show ?thesis by blast
  qed
qed

lemma pow_loop_ok:
  "inum_wf y \<Longrightarrow> 0 < inum_val y \<Longrightarrow> int_ok x \<Longrightarrow> int_ok z \<Longrightarrow>
     \<exists>r. pow_loop E (VInt y) x z = Some (Inr r) \<and> inum_val r = inum_val z * inum_val x ^ nat (inum_val y - 1) \<and>
       (if inum_val y = 1 then r = z else inum_wf r)"
proof (induction "nat (inum_val y)" arbitrary: y x z rule: less_induct)
  case less
  obtain d where d: "rb_funcall E ''-'' (VInt y) [VFix 1] = Inr (VInt d)" "inum_wf d" "inum_val d = inum_val y - 1"
    using minus [OF less.prems(1) one_two(1)] one_two(2) by auto
  show ?case
  proof (cases "inum_val y = 1")
    case True
    then have "d = Fix (INT2FIX 0)" using inum_wf_zero [OF d(2)] d(3) by simp
    then have "pow_loop E (VInt y) x z = Some (Inr z)" using d(1) by (subst pow_loop.simps) simp
    with True show ?thesis by simp
  next
    case False
    then have d0: "0 < inum_val d" using d(3) less.prems(2) by simp
    then have dne: "d \<noteq> Fix (INT2FIX 0)" using inum_wf_zero [OF d(2)] by simp
    obtain y' x' where h: "pow_halve E (VInt d) x = Some (Inr (VInt y', x'))" "inum_wf y'" "int_ok x'"
      "0 < inum_val y'" "inum_val y' \<le> inum_val d" "inum_val x' ^ nat (inum_val y') = inum_val x ^ nat (inum_val d)"
      using pow_halve_ok [OF d(2) d0 less.prems(3)] by blast
    have zx: "inum_wf (big_mul_int z x')" "inum_val (big_mul_int z x') = inum_val z * inum_val x'"
      using big_mul_int_ok [OF less.prems(4) h(3)] .
    have "nat (inum_val y') < nat (inum_val y)" using h(4,5) d(3) by simp
    from less.hyps [OF this h(2,4,3) inum_wf_int_ok [OF zx(1)]] obtain r where r:
      "pow_loop E (VInt y') x' (big_mul_int z x') = Some (Inr r)"
      "inum_val r = inum_val z * inum_val x' * inum_val x' ^ nat (inum_val y' - 1)" "inum_wf r"
      using zx by (auto split: if_splits)
    have "nat (inum_val y') = Suc (nat (inum_val y' - 1))" using h(4) by simp
    then have "inum_val x' * inum_val x' ^ nat (inum_val y' - 1) = inum_val x ^ nat (inum_val y - 1)"
      using h(6) d(3) by (metis power_Suc)
    moreover have "pow_loop E (VInt y) x z = Some (Inr r)"
      using d(1) dne h(1) r(1) by (subst pow_loop.simps) simp
    ultimately show ?thesis using r False by (simp add: mult.assoc)
  qed
qed

lemma big_pow_value:
  assumes "signed_ok x" "inum_wf y" "0 < inum_val y"
  shows "\<exists>r. big_pow E x (VInt y) = Inr (VInt r) \<and> inum_val r = big_val x ^ nat (inum_val y) \<and>
    (if inum_val y = 1 then r = Big x else inum_wf r)"
proof -
  have "int_ok (Big x)" using assms(1) by (simp add: int_ok_def int_or_big_def)
  then obtain r where r: "pow_loop E (VInt y) (Big x) (Big x) = Some (Inr r)"
    "inum_val r = big_val x * big_val x ^ nat (inum_val y - 1)" "if inum_val y = 1 then r = Big x else inum_wf r"
    using pow_loop_ok [OF assms(2,3)] by fastforce
  have "nat (inum_val y) = Suc (nat (inum_val y - 1))" using assms(3) by simp
  then have "inum_val r = big_val x ^ nat (inum_val y)" using r(2) by simp
  moreover have "y \<noteq> Fix (INT2FIX 0)" using inum_wf_zero [OF assms(2)] assms(3) by simp
  moreover have "bsign b" if "y = Big b" for b
    using assms(3) that big_mag_nonneg [of b] by (auto simp: big_val_def split: if_splits)
  ultimately show ?thesis using r assms(3) by (cases y) (auto simp: big_pow_def)
qed

lemma fix_pow_value:
  assumes "inum_wf (Fix x)" "inum_wf (Fix y)" "0 < inum_val (Fix y)"
  shows "\<exists>r. fix_pow E x (VInt (Fix y)) = Inr (VInt r) \<and> inum_val r = inum_val (Fix x) ^ nat (inum_val (Fix y)) \<and>
    (if inum_val (Fix y) = 1 then r = Big (int2big (FIX2INT x)) else inum_wf r)"
proof -
  have "FIX2INT y \<noteq> 0" using assms(3) by auto
  then have "fix_pow E x (VInt (Fix y)) = big_pow E (int2big (FIX2INT x)) (VInt (Fix y))"
    using assms(3) by (simp add: fix_pow_def Let_def)
  with big_pow_value [OF signed_ok_int2big assms(2,3), of "FIX2INT x"] show ?thesis
    by (simp add: int2big_ok)
qed

end

section \<open>The tables fulfil the contract\<close>

text \<open>
  The interpreter restricted to calls of one-argument methods on integers, with nested calls
  up to a depth. Three levels are what a comparison of a Fixnum with a Bignum takes: the
  comparison, the comparison after coercion, and \<^verbatim>\<open><=>\<close>.
\<close>

primrec int_funcall ::
  "'d float_ops \<Rightarrow> nat \<Rightarrow> string \<Rightarrow> ('d, 'o) rvalue \<Rightarrow> ('d, 'o) rvalue list \<Rightarrow> ('d, 'o) rvalue result" where
  "int_funcall F 0 mid recv args = Inl (Fatal ''stack level too deep'')"
| "int_funcall F (Suc n) mid recv args =
     (case (recv, args) of
        (VInt x, [y]) \<Rightarrow> int_method \<lparr>flo = F, rb_funcall = int_funcall F n, word_of = \<lambda>_. 4\<rparr> mid x y
      | _ \<Rightarrow> Inl (Fail ''undefined method''))"

definition int_interp :: "'d float_ops \<Rightarrow> nat \<Rightarrow> ('d, 'o) interp" where
  "int_interp F n = \<lparr>flo = F, rb_funcall = int_funcall F n, word_of = \<lambda>_. 4\<rparr>"

lemma int_interp_call [simp]:
  "rb_funcall (int_interp F (Suc n)) mid (VInt x) [y] = int_method (int_interp F n) mid x y"
  by (simp add: int_interp_def)

lemma int_interp_coerce [simp]:
  "num_coerce_bin (int_interp F (Suc n)) mid (VInt (Fix f)) (VInt (Big b)) =
     int_method (int_interp F n) mid (Big (int2big (FIX2INT f))) (VInt (Big b))"
  by (simp add: num_coerce_bin_def big_method_def big_coerce_def)

text \<open>A method on mixed operands runs the Bignum method on the converted receiver.\<close>

lemma mixed_method:
  "fix_method (int_interp F (Suc n)) ''+'' f (VInt (Big b)) = big_plus (int_interp F n) (int2big (FIX2INT f)) (VInt (Big b))"
  "fix_method (int_interp F (Suc n)) ''-'' f (VInt (Big b)) = big_minus (int_interp F n) (int2big (FIX2INT f)) (VInt (Big b))"
  "fix_method (int_interp F (Suc n)) ''/'' f (VInt (Big b)) = big_div (int_interp F n) (int2big (FIX2INT f)) (VInt (Big b))"
  "fix_method (int_interp F (Suc n)) ''%'' f (VInt (Big b)) = big_mod (int_interp F n) (int2big (FIX2INT f)) (VInt (Big b))"
  "fix_method (int_interp F (Suc n)) ''>'' f (VInt (Big b)) = cmp_gt (int_interp F n) (VInt (Big (int2big (FIX2INT f)))) (VInt (Big b))"
  "fix_method (int_interp F (Suc n)) ''<'' f (VInt (Big b)) = cmp_lt (int_interp F n) (VInt (Big (int2big (FIX2INT f)))) (VInt (Big b))"
  by (simp_all add: fix_method_def fix_plus_def fix_minus_def fix_div_def fix_mod_def fix_gt_def fix_lt_def big_method_def)

lemma cmp_call_big:
  assumes "signed_ok x" "inum_wf y"
  shows "cmp_call (int_interp F (Suc n)) test (VInt (Big x)) (VInt y) = Inr (test (sgn (big_val x - inum_val y)))"
proof -
  have c: "big_cmp_big x (int_or_big y) = sgn (big_val x - inum_val y)"
    using big_cmp_big_sgn [OF assms(1) int_or_big_ok(1) [OF assms(2)]] by (simp add: int_or_big_ok(2) [OF assms(2)])
  have "sint (FIX2INT (INT2FIX (word_of_int (sgn k)))) = sgn k" for k :: int
    using small_fix [of 1] small_fix [of 0] by (cases k "0::int" rule: linorder_cases) simp_all
  with c show ?thesis by (simp add: cmp_call_def big_method_def int_operand)
qed

lemma sgn_tests: "sgn (a - b) > 0 \<longleftrightarrow> a > b" "sgn (a - b) < 0 \<longleftrightarrow> a < (b::int)"
  by (auto simp: sgn_if)

lemma method_plus:
  assumes "inum_wf x" "inum_wf y"
  shows "\<exists>z. int_method (int_interp F (Suc n) :: ('d, 'o) interp) ''+'' x (VInt y) = Inr (VInt z) \<and> inum_wf z \<and>
    inum_val z = inum_val x + inum_val y"
proof (cases x)
  case (Big b)
  with assms obtain z where "big_plus (int_interp F (Suc n) :: ('d, 'o) interp) b (VInt y) = Inr (VInt z)" "inum_wf z"
    "inum_val z = big_val b + inum_val y" using big_plus_ok inum_wf_signed_ok by metis
  with Big show ?thesis by (simp add: big_method_def)
next
  case x: (Fix f)
  show ?thesis
  proof (cases y)
    case (Big b)
    obtain z where "big_plus (int_interp F n :: ('d, 'o) interp) (int2big (FIX2INT f)) (VInt y) = Inr (VInt z)"
      "inum_wf z" "inum_val z = big_val (int2big (FIX2INT f)) + inum_val y"
      using big_plus_ok [OF signed_ok_int2big assms(2)] .
    with Big x show ?thesis by (simp add: mixed_method int2big_ok)
  next
    case (Fix g)
    with assms x obtain z where "fix_plus (int_interp F (Suc n) :: ('d, 'o) interp) f (VInt y) = Inr (VInt z)" "inum_wf z"
      "inum_val z = fixval f + fixval g" using fix_plus_ok [of f g] by (metis inum_wf.simps(1))
    with x Fix show ?thesis by (simp add: fix_method_def)
  qed
qed

lemma method_minus:
  assumes "inum_wf x" "inum_wf y"
  shows "\<exists>z. int_method (int_interp F (Suc n) :: ('d, 'o) interp) ''-'' x (VInt y) = Inr (VInt z) \<and> inum_wf z \<and>
    inum_val z = inum_val x - inum_val y"
proof (cases x)
  case (Big b)
  with assms obtain z where "big_minus (int_interp F (Suc n) :: ('d, 'o) interp) b (VInt y) = Inr (VInt z)" "inum_wf z"
    "inum_val z = big_val b - inum_val y" using big_minus_ok inum_wf_signed_ok by metis
  with Big show ?thesis by (simp add: big_method_def)
next
  case x: (Fix f)
  show ?thesis
  proof (cases y)
    case (Big b)
    obtain z where "big_minus (int_interp F n :: ('d, 'o) interp) (int2big (FIX2INT f)) (VInt y) = Inr (VInt z)"
      "inum_wf z" "inum_val z = big_val (int2big (FIX2INT f)) - inum_val y"
      using big_minus_ok [OF signed_ok_int2big assms(2)] .
    with Big x show ?thesis by (simp add: mixed_method int2big_ok)
  next
    case (Fix g)
    with assms x obtain z where "fix_minus (int_interp F (Suc n) :: ('d, 'o) interp) f (VInt y) = Inr (VInt z)" "inum_wf z"
      "inum_val z = fixval f - fixval g" using fix_minus_ok [of f g] by (metis inum_wf.simps(1))
    with x Fix show ?thesis by (simp add: fix_method_def)
  qed
qed

lemma method_div_mod:
  assumes "inum_wf x" "inum_wf y" "0 \<le> inum_val x" "0 < inum_val y"
  shows "\<exists>q r. int_method (int_interp F (Suc n) :: ('d, 'o) interp) ''/'' x (VInt y) = Inr (VInt q) \<and>
    int_method (int_interp F (Suc n) :: ('d, 'o) interp) ''%'' x (VInt y) = Inr (VInt r) \<and>
    inum_wf q \<and> inum_wf r \<and> inum_val q = inum_val x div inum_val y \<and> inum_val r = inum_val x mod inum_val y"
proof (cases x)
  case (Big b)
  then show ?thesis
    using assms big_div_mod_nonneg [OF inum_wf_signed_ok assms(2) _ assms(4), of b "int_interp F (Suc n)"]
    by (simp add: big_method_def)
next
  case x: (Fix f)
  show ?thesis
  proof (cases y)
    case (Big b)
    then show ?thesis
      using x assms big_div_mod_nonneg [OF signed_ok_int2big assms(2) _ assms(4), of "FIX2INT f" "int_interp F n"]
      by (simp add: mixed_method int2big_ok)
  next
    case (Fix g)
    then show ?thesis
      using x assms fix_div_mod_value [of f g "int_interp F (Suc n)"]
      by (auto simp: fix_method_def signed_divide_int_def signed_modulo_int_def sgn_if)
  qed
qed

lemma method_compare:
  assumes "inum_wf x" "inum_wf y"
  shows "int_method (int_interp F (Suc (Suc n))) ''>'' x (VInt y) = Inr (rbool (inum_val x > inum_val y))"
    "int_method (int_interp F (Suc (Suc n))) ''<'' x (VInt y) = Inr (rbool (inum_val x < inum_val y))"
proof -
  have "int_method (int_interp F (Suc (Suc n))) ''>'' x (VInt y) = Inr (rbool (inum_val x > inum_val y)) \<and>
      int_method (int_interp F (Suc (Suc n))) ''<'' x (VInt y) = Inr (rbool (inum_val x < inum_val y))"
  proof (cases x)
    case (Big b)
    have ok: "signed_ok b" using assms(1) Big inum_wf_signed_ok by blast
    show ?thesis using Big
      by (simp add: big_method_def cmp_gt_def cmp_lt_def cmp_call_big [OF ok assms(2)] sgn_tests)
  next
    case x: (Fix f)
    show ?thesis
    proof (cases y)
      case (Big b)
      show ?thesis
        by (simp add: x Big mixed_method cmp_gt_def cmp_lt_def sgn_tests int2big_ok
            cmp_call_big [OF signed_ok_int2big assms(2) [unfolded Big]])
    qed (simp add: x fix_method_def fix_gt_def fix_lt_def)
  qed
  then show "int_method (int_interp F (Suc (Suc n))) ''>'' x (VInt y) = Inr (rbool (inum_val x > inum_val y))"
    "int_method (int_interp F (Suc (Suc n))) ''<'' x (VInt y) = Inr (rbool (inum_val x < inum_val y))"
    by blast+
qed

interpretation ints: int_calls "int_interp F (Suc (Suc (Suc n)))" for F :: "'d float_ops" and n
proof
  fix x y :: inum
  assume wf: "inum_wf x" "inum_wf y"
  let ?E = "int_interp F (Suc (Suc (Suc n))) :: ('d, 'o) interp"
  show "\<exists>z. rb_funcall ?E ''+'' (VInt x) [VInt y] = Inr (VInt z) \<and> inum_wf z \<and> inum_val z = inum_val x + inum_val y"
    unfolding int_interp_call by (rule method_plus [OF wf])
  show "\<exists>z. rb_funcall ?E ''-'' (VInt x) [VInt y] = Inr (VInt z) \<and> inum_wf z \<and> inum_val z = inum_val x - inum_val y"
    unfolding int_interp_call by (rule method_minus [OF wf])
  show "rb_funcall ?E ''>'' (VInt x) [VInt y] = Inr (rbool (inum_val x > inum_val y))"
    unfolding int_interp_call by (rule method_compare(1) [OF wf])
  show "rb_funcall ?E ''<'' (VInt x) [VInt y] = Inr (rbool (inum_val x < inum_val y))"
    unfolding int_interp_call by (rule method_compare(2) [OF wf])
  assume pos: "0 \<le> inum_val x" "0 < inum_val y"
  show "\<exists>z. rb_funcall ?E ''/'' (VInt x) [VInt y] = Inr (VInt z) \<and> inum_wf z \<and> inum_val z = inum_val x div inum_val y"
    unfolding int_interp_call using method_div_mod [OF wf pos] by blast
  show "\<exists>z. rb_funcall ?E ''%'' (VInt x) [VInt y] = Inr (VInt z) \<and> inum_wf z \<and> inum_val z = inum_val x mod inum_val y"
    unfolding int_interp_call using method_div_mod [OF wf pos] by blast
qed

section \<open>Properties of integer calls\<close>

text \<open>
  C12: Whatever mix of Fixnum and Bignum the operands are, a call of \<^verbatim>\<open>+\<close>, \<^verbatim>\<open>-\<close>, \<^verbatim>\<open>>\<close> or \<^verbatim>\<open><\<close>
  through the method tables (with the coercion of a Fixnum receiver by \<^verbatim>\<open>num_coerce_bin\<close>)
  returns the exact sum, difference or comparison of the values, in normal form; for a
  nonnegative receiver and a positive argument \<^verbatim>\<open>/\<close> and \<^verbatim>\<open>%\<close> return the exact quotient and
  remainder.
\<close>
theorem int_calls_exact:
  assumes "E = (int_interp F (Suc (Suc (Suc n))) :: ('d, 'o) interp)" "inum_wf x" "inum_wf y"
  shows "(\<exists>s d. rb_funcall E ''+'' (VInt x) [VInt y] = Inr (VInt s) \<and> rb_funcall E ''-'' (VInt x) [VInt y] = Inr (VInt d) \<and>
      inum_wf s \<and> inum_wf d \<and> inum_val s = inum_val x + inum_val y \<and> inum_val d = inum_val x - inum_val y) \<and>
    rb_funcall E ''>'' (VInt x) [VInt y] = Inr (rbool (inum_val x > inum_val y)) \<and>
    rb_funcall E ''<'' (VInt x) [VInt y] = Inr (rbool (inum_val x < inum_val y)) \<and>
    (0 \<le> inum_val x \<and> 0 < inum_val y \<longrightarrow>
      (\<exists>q r. rb_funcall E ''/'' (VInt x) [VInt y] = Inr (VInt q) \<and> rb_funcall E ''%'' (VInt x) [VInt y] = Inr (VInt r) \<and>
        inum_wf q \<and> inum_wf r \<and> inum_val q = inum_val x div inum_val y \<and> inum_val r = inum_val x mod inum_val y))"
  unfolding assms(1)
  using ints.plus [OF assms(2,3)] ints.minus [OF assms(2,3)] ints.gt [OF assms(2,3)] ints.lt [OF assms(2,3)]
    ints.div_pos [OF assms(2,3)] ints.mod_pos [OF assms(2,3)]
  by blast

lemma sample_big_ok:
  "inum_wf (Big (bignew [0, 16384] True))" "inum_val (Big (bignew [0, 16384] True)) = 1073741824"
  by (simp_all add: big_normal_def)

lemma sample_fix_ok: "inum_wf (Fix (INT2FIX 3))" "inum_val (Fix (INT2FIX 3)) = 3"
  using small_fix(1) [of 3] by simp_all

theorem int_calls_exact_witness:
  "\<exists>s. rb_funcall (int_interp undefined 3 :: (nat, nat) interp) ''+'' (VFix 3) [VInt (Big (bignew [0, 16384] True))] = Inr (VInt s) \<and>
     inum_val s = 1073741827"
  using int_calls_exact [where 'd = nat and 'o = nat and F = undefined and n = 0, OF refl sample_fix_ok(1) sample_big_ok(1)]
  by (auto simp: sample_big_ok sample_fix_ok numeral_3_eq_3 simp del: inum_val.simps int_interp_call)

text \<open>
  \<^verbatim>\<open>num_upto\<close> and \<^verbatim>\<open>num_step\<close> with a positive step end for any integer bounds and yield, in
  order and in normal form, exactly the arithmetic progression from the first bound up to
  the limit, also where it runs from Fixnums over into Bignums.
\<close>
theorem int_iteration_ends:
  assumes "E = (int_interp F (Suc (Suc (Suc n))) :: ('d, 'o) interp)"
    and "inum_wf f" "inum_wf t" "inum_wf s" "0 < inum_val s"
  shows "(\<exists>zs. num_upto E (VInt f) (VInt t) = Some (Inr (map VInt zs)) \<and> list_all inum_wf zs \<and>
      map inum_val zs = progression (inum_val f) (inum_val t) 1) \<and>
    (\<exists>zs. num_step E (VInt f) (VInt t) (VInt s) = Some (Inr (map VInt zs)) \<and> list_all inum_wf zs \<and>
      map inum_val zs = progression (inum_val f) (inum_val t) (inum_val s))"
  unfolding assms(1) using ints.num_upto_yields ints.num_step_yields assms(2-) by blast

theorem int_iteration_ends_witness:
  "\<exists>zs. num_upto (int_interp undefined 3 :: (nat, nat) interp) (VFix 1073741823) (VInt (Big (bignew [0, 16384] True))) =
      Some (Inr (map VInt zs)) \<and> map inum_val zs = [1073741823, 1073741824]"
proof -
  have f: "inum_wf (Fix (INT2FIX 1073741823))" "inum_val (Fix (INT2FIX 1073741823)) = 1073741823"
    by (simp_all add: INT2FIX_alt sint_FIX2INT)
  have "progression 1073741823 1073741824 1 = [1073741823, 1073741824]"
    by (simp add: progression_Cons progression_Nil)
  then show ?thesis
    using int_iteration_ends [where 'd = nat and 'o = nat and F = undefined and n = 0, OF refl f(1) sample_big_ok(1) sample_fix_ok(1)]
    by (auto simp: f sample_big_ok sample_fix_ok numeral_3_eq_3 simp del: inum_val.simps inum_wf.simps)
qed

text \<open>
  C17: \<^verbatim>\<open>**\<close> with a positive integer exponent ends and returns the exact power, for a Fixnum and
  for a Bignum base. The result is in normal form except for the exponent 1, where it is the
  Bignum that was built from the base (for a Fixnum base an un-normalised Bignum). A Fixnum base with a Bignum
  exponent, which goes through coercion, is not covered.
\<close>
theorem int_pow_exact:
  assumes "E = (int_interp F (Suc (Suc (Suc n))) :: ('d, 'o) interp)"
    and "inum_wf (Fix f)" "inum_wf (Fix e)" "0 < inum_val (Fix e)"
    and "inum_wf (Big b)" "inum_wf y" "0 < inum_val y"
  shows "(\<exists>r. fix_pow E f (VInt (Fix e)) = Inr (VInt r) \<and>
      inum_val r = inum_val (Fix f) ^ nat (inum_val (Fix e)) \<and>
      (if inum_val (Fix e) = 1 then r = Big (int2big (FIX2INT f)) else inum_wf r)) \<and>
    (\<exists>r. big_pow E b (VInt y) = Inr (VInt r) \<and> inum_val r = inum_val (Big b) ^ nat (inum_val y) \<and> inum_wf r)"
proof
  show "\<exists>r. fix_pow E f (VInt (Fix e)) = Inr (VInt r) \<and>
      inum_val r = inum_val (Fix f) ^ nat (inum_val (Fix e)) \<and>
      (if inum_val (Fix e) = 1 then r = Big (int2big (FIX2INT f)) else inum_wf r)"
    unfolding assms(1) by (rule ints.fix_pow_value [OF assms(2-4)])
  show "\<exists>r. big_pow E b (VInt y) = Inr (VInt r) \<and> inum_val r = inum_val (Big b) ^ nat (inum_val y) \<and> inum_wf r"
    unfolding assms(1) using ints.big_pow_value [OF inum_wf_signed_ok [OF assms(5)] assms(6,7)] assms(5)
    by (force split: if_splits)
qed

theorem int_pow_exact_witness:
  "\<exists>r. fix_pow (int_interp undefined 3 :: (nat, nat) interp) (INT2FIX 3) (VFix 3) = Inr (VInt r) \<and> inum_val r = 27"
  using int_pow_exact [where 'd = nat and 'o = nat and F = undefined and n = 0, OF refl sample_fix_ok(1) sample_fix_ok(1) _ sample_big_ok(1) sample_fix_ok(1)]
  by (auto simp: sample_fix_ok numeral_3_eq_3 simp del: inum_val.simps inum_wf.simps)

end
