(* ===== verification/Memory.thy ===== *)
theory Memory
  imports Prelude
begin

text \<open>
  C integers and heap blocks as \<^verbatim>\<open>src/array.c\<close> and \<^verbatim>\<open>src/string.c\<close> use them. A C integer is an
  \<open>int\<close> that the source's conversions wrap with \<open>U32\<close> (to \<^verbatim>\<open>UINT\<close>) or \<open>S32\<close> (to \<^verbatim>\<open>int\<close>). A
  block is a list of cells; a cell that was allocated and not yet written is \<open>None\<close>, and
  reading it is an error like an access outside the block.
\<close>

definition U32 :: "int \<Rightarrow> int" where
  "U32 i = i mod 4294967296"

definition S32 :: "int \<Rightarrow> int" where
  "S32 i = (i + 2147483648) mod 4294967296 - 2147483648"

lemma U32_id [simp]: "0 \<le> i \<Longrightarrow> i < 4294967296 \<Longrightarrow> U32 i = i"
  by (simp add: U32_def)

lemma S32_id [simp]: "- 2147483648 \<le> i \<Longrightarrow> i < 2147483648 \<Longrightarrow> S32 i = i"
  by (simp add: S32_def)

lemma U32_neg: "- 4294967296 \<le> i \<Longrightarrow> i < 0 \<Longrightarrow> U32 i = i + 4294967296"
  unfolding U32_def by (metis add.commute add_less_same_cancel2 mod_add_self2 mod_pos_pos_trivial neg_le_iff_le
      uminus_add_conv_diff diff_ge_0_iff_ge minus_minus)

lemma U32_bounds: "0 \<le> U32 i" "U32 i < 4294967296"
  by (simp_all add: U32_def)

type_synonym 'v cells = "'v option list"

text \<open>
  \<^verbatim>\<open>malloc_ok\<close> says for which sizes in bytes the allocator returns a block (\<^verbatim>\<open>xmalloc\<close> and \<^verbatim>\<open>xrealloc\<close>
  raise a fatal error otherwise, after a garbage collection). \<^verbatim>\<open>realloc\<close> with size 0 may free the block and return
  a null pointer; \<^verbatim>\<open>xrealloc\<close> takes that for a failure and reallocates the pointer that was freed.
\<close>

definition xmalloc :: "(int \<Rightarrow> bool) \<Rightarrow> int \<Rightarrow> int \<Rightarrow> 'v cells result" where
  "xmalloc malloc_ok width bytes =
     (let bytes = (if bytes = 0 then 1 else bytes)
      in if malloc_ok bytes then Inr (replicate (nat (bytes div width)) None)
         else Inl (Fatal ''failed to allocate memory''))"

definition xrealloc :: "(int \<Rightarrow> bool) \<Rightarrow> int \<Rightarrow> 'v cells option \<Rightarrow> int \<Rightarrow> 'v cells result" where
  "xrealloc malloc_ok width ptr bytes =
     (case ptr of
        None \<Rightarrow> xmalloc malloc_ok width bytes
      | Some p \<Rightarrow>
          if malloc_ok bytes then
            let n = nat (bytes div width) in Inr (take n p @ replicate (n - length p) None)
          else if bytes = 0 then Inl OutOfBounds
          else Inl (Fatal ''failed to allocate memory(realloc)''))"

text \<open>The cells of a block; a null pointer has none.\<close>

definition block :: "'v cells option \<Rightarrow> 'v cells" where
  "block ptr = (case ptr of None \<Rightarrow> [] | Some p \<Rightarrow> p)"

lemma block_simps [simp]: "block None = []" "block (Some p) = p"
  by (simp_all add: block_def)

definition get_cell :: "'v cells \<Rightarrow> int \<Rightarrow> 'v result" where
  "get_cell p i = bindR (arr_get p i) (\<lambda>c. case c of None \<Rightarrow> Inl OutOfBounds | Some v \<Rightarrow> Inr v)"

definition set_cell :: "'v cells \<Rightarrow> int \<Rightarrow> 'v \<Rightarrow> 'v cells result" where
  "set_cell p i v = arr_set p i (Some v)"

text \<open>
  \<^verbatim>\<open>memcpy\<close> and \<^verbatim>\<open>memmove\<close> of \<open>n\<close> cells from index \<open>si\<close> of \<open>s\<close> to index \<open>di\<close> of \<open>d\<close>, copying
  uninitialised cells as they are.
\<close>

definition copy_cells :: "'v cells \<Rightarrow> int \<Rightarrow> 'v cells \<Rightarrow> int \<Rightarrow> int \<Rightarrow> 'v cells result" where
  "copy_cells d di s si n =
     (if n = 0 then Inr d
      else if 0 \<le> di \<and> di + n \<le> int (length d) \<and> 0 \<le> si \<and> si + n \<le> int (length s)
      then Inr (take (nat di) d @ take (nat n) (drop (nat si) s) @ drop (nat (di + n)) d)
      else Inl OutOfBounds)"

lemma copy_cells_nat:
  "di + n \<le> length d \<Longrightarrow> si + n \<le> length s \<Longrightarrow>
     copy_cells d (int di) s (int si) (int n) = Inr (take di d @ take n (drop si s) @ drop (di + n) d)"
  by (auto simp: copy_cells_def nat_add_distrib)

text \<open>The first \<open>n\<close> cells hold the values \<open>xs\<close>.\<close>

definition holds :: "'v cells \<Rightarrow> 'v list \<Rightarrow> bool" where
  "holds p xs \<longleftrightarrow> take (length xs) p = map Some xs"

lemma holds_length: "holds p xs \<Longrightarrow> length xs \<le> length p"
  unfolding holds_def by (metis length_map length_take min.cobounded1 min.commute min_def)

lemma holds_split: "holds p xs \<Longrightarrow> p = map Some xs @ drop (length xs) p"
  unfolding holds_def by (metis append_take_drop_id)

lemma holds_append: "holds (map Some xs @ q) xs"
  by (simp add: holds_def)

lemma holds_prefix: "holds p (xs @ ys) \<Longrightarrow> holds p xs"
  unfolding holds_def by (metis append_eq_conv_conj length_append length_map map_append min.absorb1 le_add1 take_take)

lemma holds_nth: "holds p xs \<Longrightarrow> i < length xs \<Longrightarrow> p ! i = Some (xs ! i)"
  unfolding holds_def by (metis nth_map nth_take)

lemma get_cell_holds:
  assumes "holds p xs" "0 \<le> i" "i < int (length xs)"
  shows "get_cell p i = Inr (xs ! nat i)"
proof -
  have "nat i < length xs" using assms(2,3) by linarith
  moreover have "in_block p i" using holds_length [OF assms(1)] assms(2,3) by (simp add: in_block_def)
  ultimately show ?thesis using holds_nth [OF assms(1)] by (simp add: get_cell_def)
qed

lemma set_cell_in: "0 \<le> i \<Longrightarrow> i < int (length p) \<Longrightarrow> set_cell p i v = Inr (p[nat i := Some v])"
  by (simp add: set_cell_def in_block_def)

lemma set_cell_out: "i < 0 \<or> int (length p) \<le> i \<Longrightarrow> set_cell p i v = Inl OutOfBounds"
  by (auto simp: set_cell_def in_block_def)

lemma holds_update:
  assumes "holds p xs" "i < length xs"
  shows "holds (p[i := Some v]) (xs[i := v])"
  using assms unfolding holds_def by (simp add: take_update_swap map_update)

lemma holds_snoc:
  assumes "holds p xs" "length xs < length p"
  shows "holds (p[length xs := Some v]) (xs @ [v])"
proof -
  have "p = map Some xs @ drop (length xs) p" using holds_split [OF assms(1)] .
  moreover obtain c q where "drop (length xs) p = c # q"
    using assms(2) by (metis Cons_nth_drop_Suc)
  ultimately have "p = map Some xs @ c # q" by simp
  then have "p[length xs := Some v] = map Some (xs @ [v]) @ q" by (simp add: list_update_append)
  then show ?thesis by (simp add: holds_append [of "xs @ [v]", simplified])
qed

lemma holds_Nil [simp]: "holds p []"
  by (simp add: holds_def)

text \<open>The block copy of values that the source and target blocks hold.\<close>

lemma copy_cells_holds:
  assumes d: "holds d xs" and s: "holds (drop (nat si) s) ys" and i: "0 \<le> si" "0 \<le> di" "nat di \<le> length xs"
    and n: "n = int (length ys)" and l: "di + n \<le> int (length d)"
  shows "\<exists>d'. copy_cells d di s si n = Inr d' \<and> length d' = length d \<and>
    holds d' (take (nat di) xs @ ys @ drop (nat (di + n)) xs)"
proof (cases "n = 0")
  case True
  then show ?thesis using n d by (simp add: copy_cells_def)
next
  case False
  let ?k = "nat di"
  have sb: "si + n \<le> int (length s)"
  proof -
    have "length ys \<le> length s - nat si" using holds_length [OF s] by simp
    moreover have "0 < length ys" using n False by simp
    ultimately show ?thesis using i(1) n by linarith
  qed
  have kn: "nat (di + n) = ?k + length ys" using i(2) n by simp
  let ?d = "take ?k d @ map Some ys @ drop (?k + length ys) d"
  have "take (nat n) (drop (nat si) s) = map Some ys" using s n by (simp add: holds_def)
  then have c: "copy_cells d di s si n = Inr ?d" using False i(1,2) l sb by (simp add: copy_cells_def kn)
  have td: "take ?k d = map Some (take ?k xs)"
    using d i(3) unfolding holds_def by (metis take_map take_take min.absorb1)
  have ld: "?k + length ys \<le> length d" using l i(2) n by linarith
  have "holds (drop (?k + length ys) d) (drop (?k + length ys) xs)"
    using d unfolding holds_def by (metis drop_map length_drop take_drop drop_take)
  then obtain q where "drop (?k + length ys) d = map Some (drop (?k + length ys) xs) @ q"
    using holds_split by blast
  then have "?d = map Some (take ?k xs @ ys @ drop (?k + length ys) xs) @ q" by (simp add: td)
  then have "holds ?d (take ?k xs @ ys @ drop (?k + length ys) xs)" by (metis holds_append)
  moreover have "length ?d = length d" using ld by simp
  ultimately show ?thesis using c kn by auto
qed

lemma drop_holds: "holds p xs \<Longrightarrow> holds (drop i p) (drop i xs)"
  unfolding holds_def by (metis drop_map length_drop take_drop drop_take)

lemma holds_drop_Cons:
  assumes "holds (drop (nat i) p) (x # xs)" "0 \<le> i"
  shows "get_cell p i = Inr x" "holds (drop (nat (i + 1)) p) xs" "nat i < length p" "p ! nat i = Some x"
proof -
  have l: "nat i < length p" using holds_length [OF assms(1)] by simp
  have d: "drop (nat i) p = p ! nat i # drop (Suc (nat i)) p" using l by (simp add: Cons_nth_drop_Suc)
  have s: "nat (i + 1) = Suc (nat i)" using assms(2) by simp
  show "nat i < length p" by (rule l)
  show p: "p ! nat i = Some x" using assms(1) d by (simp add: holds_def)
  show "holds (drop (nat (i + 1)) p) xs" using assms(1) d s by (simp add: holds_def)
  show "get_cell p i = Inr x" using l p assms(2) by (simp add: get_cell_def in_block_def nat_less_iff)
qed

text \<open>
  Moving the tail of a list by \<open>length ys - l\<close> cells and copying \<open>ys\<close> into the gap; the cells
  between may be uninitialised on the way.
\<close>

lemma splice_cells:
  assumes p: "holds p xs" and s: "holds s ys" and bl: "b + l \<le> length xs"
    and lp: "length xs + length ys - l \<le> length p"
  shows "\<exists>q q'. copy_cells p (int (b + length ys)) p (int (b + l)) (int (length xs) - int (b + l)) = Inr q \<and>
    length q = length p \<and> copy_cells q (int b) s 0 (int (length ys)) = Inr q' \<and>
    length q' = length p \<and> holds q' (take b xs @ ys @ drop (b + l) xs)"
proof -
  let ?t = "drop (b + l) xs" and ?m = "length ys"
  let ?q = "take (b + ?m) p @ map Some ?t @ drop (b + ?m + length ?t) p"
  have lt: "length ?t = length xs - (b + l)" by simp
  have n: "int (length xs) - int (b + l) = int (length ?t)" using bl by (simp add: of_nat_diff)
  have fit: "b + ?m + length ?t \<le> length p" using lp bl by simp
  have "take (length ?t) (drop (b + l) p) = map Some ?t" using drop_holds [OF p, of "b + l"] by (simp add: holds_def)
  then have c: "copy_cells p (int (b + ?m)) p (int (b + l)) (int (length ?t)) = Inr ?q"
    using fit bl holds_length [OF p] by (subst copy_cells_nat) simp_all
  have lq: "length ?q = length p" using fit by simp
  let ?r = "drop (b + ?m + length ?t) p"
  have tb: "take b ?q = map Some (take b xs)"
    using p bl fit unfolding holds_def by (simp add: min_def) (metis take_map take_take min.absorb1 add_leD1)
  have db: "drop (b + ?m) ?q = map Some ?t @ ?r" using fit by simp
  have ts: "take ?m s = map Some ys" using s by (simp add: holds_def)
  have "copy_cells ?q (int b) s (int 0) (int ?m) = Inr (take b ?q @ take ?m (drop 0 s) @ drop (b + ?m) ?q)"
    by (rule copy_cells_nat) (use lq fit holds_length [OF s] in simp_all)
  also have "take b ?q @ take ?m (drop 0 s) @ drop (b + ?m) ?q = map Some (take b xs @ ys @ ?t) @ ?r"
    unfolding tb db using ts by simp
  finally have c2: "copy_cells ?q (int b) s (int 0) (int ?m) = Inr (map Some (take b xs @ ys @ ?t) @ ?r)" .
  have "length (map Some (take b xs @ ys @ ?t) @ ?r) = length p" using fit bl by simp
  then show ?thesis unfolding n using c c2 [unfolded semiring_1_class.of_nat_0] lq
    by - (rule exI [of _ ?q], rule exI [of _ "map Some (take b xs @ ys @ ?t) @ ?r"], simp only: holds_append simp_thms)
qed

lemma holds_drop_append:
  assumes "holds (drop (nat i) p) (xs @ ys)" "0 \<le> i"
  shows "holds (drop (nat (i + int (length xs))) p) ys"
proof -
  have "drop (nat i) p = map Some (xs @ ys) @ drop (length (xs @ ys)) (drop (nat i) p)"
    by (rule holds_split [OF assms(1)])
  then have "drop (length xs) (drop (nat i) p) = map Some ys @ drop (length (xs @ ys)) (drop (nat i) p)"
    by (metis append.assoc append_eq_conv_conj length_map map_append)
  then show ?thesis using assms(2) holds_append [of ys] by (simp add: nat_add_distrib add.commute)
qed

end
