(* ===== verification/RArray.thy ===== *)
theory RArray
  imports Memory
begin

text \<open>
  Arrays, \<^verbatim>\<open>src/array.c\<close>: the growing block with its length and capacity, the accesses by index
  and range, splicing, deletion in place, and the operations on sets of elements. Elements are
  of any type \<open>'v\<close>; what the code asks of a \<^verbatim>\<open>VALUE\<close> is in the record \<open>ary_env\<close>. Calls back
  into Ruby (\<^verbatim>\<open>rb_equal\<close>, \<^verbatim>\<open>rb_yield\<close>, \<^verbatim>\<open>rb_hash\<close>) do not touch the array that is being worked on,
  and the two arrays of a binary operation are different objects.
\<close>

section \<open>The structure\<close>

record 'v rarray =
  alen :: int
  capa :: int
  ptr :: "'v cells option"
  frozen :: bool

record 'v ary_env =
  Qnil :: 'v
  safe_level :: int
  malloc_ok :: "int \<Rightarrow> bool"
  num2int_of :: "'v \<Rightarrow> int result"
  fixnum_of :: "'v \<Rightarrow> int option"
  bignum_p :: "'v \<Rightarrow> bool"
  range_ends :: "'v \<Rightarrow> (int \<times> int) option result"
  equal_of :: "'v \<Rightarrow> 'v \<Rightarrow> bool result"
  eql_of :: "'v \<Rightarrow> 'v \<Rightarrow> bool result"
  hash_of :: "'v \<Rightarrow> int result"

definition ARY_DEFAULT_SIZE :: int where
  "ARY_DEFAULT_SIZE = 16"

definition ALLOC_N :: "'v ary_env \<Rightarrow> int \<Rightarrow> 'v cells result" where
  "ALLOC_N E n = xmalloc (malloc_ok E) 4 (U32 (4 * n))"

definition REALLOC_N :: "'v ary_env \<Rightarrow> 'v cells option \<Rightarrow> int \<Rightarrow> 'v cells result" where
  "REALLOC_N E p n = xrealloc (malloc_ok E) 4 p (U32 (4 * n))"

text \<open>\<^verbatim>\<open>MEMCPY\<close> and \<^verbatim>\<open>MEMMOVE\<close> of \<open>n\<close> values: the size is a number of bytes.\<close>

definition MEMMOVE :: "'v cells \<Rightarrow> int \<Rightarrow> 'v cells \<Rightarrow> int \<Rightarrow> int \<Rightarrow> 'v cells result" where
  "MEMMOVE d di s si n = copy_cells d di s si (U32 (4 * n) div 4)"

primrec memclear :: "'v \<Rightarrow> 'v cells \<Rightarrow> int \<Rightarrow> nat \<Rightarrow> 'v cells result" where
  "memclear nil p i 0 = Inr p"
| "memclear nil p i (Suc k) = bindR (set_cell p i nil) (\<lambda>p. memclear nil p (i + 1) k)"

definition ary_modify :: "'v ary_env \<Rightarrow> 'v rarray \<Rightarrow> unit result" where
  "ary_modify E ary =
     (if 5 \<le> safe_level E then Inl (SecurityError ''Insecure operation'')
      else if frozen ary then Inl (TypeError ''can't modify frozen array'')
      else Inr ())"

definition ary_freeze :: "'v rarray \<Rightarrow> 'v rarray" where
  "ary_freeze ary = ary\<lparr>frozen := True\<rparr>"

definition ary_frozen_p :: "'v rarray \<Rightarrow> bool" where
  "ary_frozen_p ary = frozen ary"

section \<open>Creation\<close>

definition ary_new2 :: "'v ary_env \<Rightarrow> int \<Rightarrow> 'v rarray result" where
  "ary_new2 E len =
     (if len = 0 then Inr \<lparr>alen = 0, capa = U32 len, ptr = None, frozen = False\<rparr>
      else bindR (ALLOC_N E len) (\<lambda>p.
           bindR (memclear (Qnil E) p 0 (nat (U32 len))) (\<lambda>p.
             Inr \<lparr>alen = 0, capa = U32 len, ptr = Some p, frozen = False\<rparr>)))"

definition ary_new :: "'v ary_env \<Rightarrow> 'v rarray result" where
  "ary_new E = ary_new2 E ARY_DEFAULT_SIZE"

text \<open>\<^verbatim>\<open>ary_new3\<close> and \<^verbatim>\<open>ary_new4\<close> take the elements as variable arguments or as a C array.\<close>

primrec store_all :: "'v cells \<Rightarrow> int \<Rightarrow> 'v list \<Rightarrow> 'v cells result" where
  "store_all p i [] = Inr p"
| "store_all p i (v # vs) = bindR (set_cell p i v) (\<lambda>p. store_all p (i + 1) vs)"

definition ary_new3 :: "'v ary_env \<Rightarrow> int \<Rightarrow> 'v list \<Rightarrow> 'v rarray result" where
  "ary_new3 E n args =
     (if n < 0 then Inl (IndexError ''Negative number of items(%d)'')
      else bindR (ary_new2 E (if n < ARY_DEFAULT_SIZE then ARY_DEFAULT_SIZE else n)) (\<lambda>ary.
           bindR (store_all (block (ptr ary)) 0 (take (nat n) args)) (\<lambda>p.
             Inr (ary\<lparr>ptr := Some p, alen := n\<rparr>))))"

definition with_ptr :: "'v rarray \<Rightarrow> 'v cells \<Rightarrow> 'v rarray" where
  "with_ptr ary p = ary\<lparr>ptr := (case ptr ary of None \<Rightarrow> None | Some _ \<Rightarrow> Some p)\<rparr>"

definition ary_new4 :: "'v ary_env \<Rightarrow> int \<Rightarrow> 'v list \<Rightarrow> 'v rarray result" where
  "ary_new4 E n elts =
     bindR (ary_new2 E n) (\<lambda>ary.
     bindR (MEMMOVE (block (ptr ary)) 0 (map Some elts) 0 n) (\<lambda>p.
       Inr ((with_ptr ary p)\<lparr>alen := U32 n\<rparr>)))"

definition assoc_new :: "'v ary_env \<Rightarrow> 'v \<Rightarrow> 'v \<Rightarrow> 'v rarray result" where
  "assoc_new E car cdr =
     bindR (ary_new2 E 2) (\<lambda>ary.
     bindR (store_all (block (ptr ary)) 0 [car, cdr]) (\<lambda>p. Inr (ary\<lparr>ptr := Some p, alen := 2\<rparr>)))"

text \<open>\<^verbatim>\<open>Array.new\<close>: the size is absent (\<^verbatim>\<open>nil\<close>) or a number.\<close>

definition ary_s_new :: "'v ary_env \<Rightarrow> 'v list \<Rightarrow> 'v rarray result" where
  "ary_s_new E argv =
     (if length argv > 1 then Inl (ArgError ''Wrong # of arguments (%d for %d)'')
      else bindR (case argv of
                    [] \<Rightarrow> Inr ARY_DEFAULT_SIZE
                  | sz # _ \<Rightarrow> if sz = Qnil E then Inr ARY_DEFAULT_SIZE else num2int_of E sz) (\<lambda>n.
           bindR (ALLOC_N E n) (\<lambda>p.
           bindR (memclear (Qnil E) p 0 (nat (U32 n))) (\<lambda>p.
             Inr \<lparr>alen = 0, capa = U32 n, ptr = Some p, frozen = False\<rparr>))))"

definition ary_s_create :: "'v ary_env \<Rightarrow> 'v list \<Rightarrow> 'v rarray result" where
  "ary_s_create E argv =
     (let argc = int (length argv) in
      if argc = 0 then Inr \<lparr>alen = 0, capa = 0, ptr = None, frozen = False\<rparr>
      else bindR (ALLOC_N E argc) (\<lambda>p.
           bindR (MEMMOVE p 0 (map Some argv) 0 argc) (\<lambda>p.
             Inr \<lparr>alen = argc, capa = argc, ptr = Some p, frozen = False\<rparr>)))"

section \<open>Element access\<close>

text \<open>\<^verbatim>\<open>ary->capa = n; REALLOC_N(ary->ptr, VALUE, ary->capa)\<close>.\<close>

definition set_capa :: "'v ary_env \<Rightarrow> 'v rarray \<Rightarrow> int \<Rightarrow> 'v rarray result" where
  "set_capa E ary n =
     bindR (REALLOC_N E (ptr ary) (U32 n)) (\<lambda>p. Inr (ary\<lparr>capa := U32 n, ptr := Some p\<rparr>))"

definition ary_store :: "'v ary_env \<Rightarrow> 'v rarray \<Rightarrow> int \<Rightarrow> 'v \<Rightarrow> 'v rarray result" where
  "ary_store E ary idx val =
     bindR (ary_modify E ary) (\<lambda>_.
       if idx < 0 then Inl (IndexError ''negative index for array'')
       else bindR (if idx \<ge> capa ary then set_capa E ary (idx + ARY_DEFAULT_SIZE) else Inr ary) (\<lambda>ary.
            bindR (if idx > alen ary
                   then memclear (Qnil E) (block (ptr ary)) (alen ary) (nat (idx - alen ary + 1))
                   else Inr (block (ptr ary))) (\<lambda>p.
            bindR (set_cell p idx val) (\<lambda>p.
              Inr (ary\<lparr>alen := (if idx \<ge> alen ary then U32 (idx + 1) else alen ary), ptr := Some p\<rparr>)))))"

definition ary_push :: "'v ary_env \<Rightarrow> 'v rarray \<Rightarrow> 'v \<Rightarrow> 'v rarray result" where
  "ary_push E ary item = ary_store E ary (S32 (alen ary)) item"

primrec ary_push_method :: "'v ary_env \<Rightarrow> 'v list \<Rightarrow> 'v rarray \<Rightarrow> 'v rarray result" where
  "ary_push_method E [] ary = Inr ary"
| "ary_push_method E (v # argv) ary =
     bindR (ary_store E ary (S32 (alen ary)) v) (\<lambda>ary. ary_push_method E argv ary)"

definition shrink :: "'v ary_env \<Rightarrow> 'v rarray \<Rightarrow> 'v rarray result" where
  "shrink E ary =
     (if U32 (alen ary * 10) < capa ary \<and> capa ary > ARY_DEFAULT_SIZE
      then set_capa E ary (alen ary * 2) else Inr ary)"

definition ary_pop :: "'v ary_env \<Rightarrow> 'v rarray \<Rightarrow> ('v \<times> 'v rarray) result" where
  "ary_pop E ary =
     (if alen ary = 0 then Inr (Qnil E, ary)
      else bindR (shrink E ary) (\<lambda>ary.
           bindR (get_cell (block (ptr ary)) (alen ary - 1)) (\<lambda>v.
             Inr (v, ary\<lparr>alen := alen ary - 1\<rparr>))))"

definition ary_shift :: "'v ary_env \<Rightarrow> 'v rarray \<Rightarrow> ('v \<times> 'v rarray) result" where
  "ary_shift E ary =
     (if alen ary = 0 then Inr (Qnil E, ary)
      else bindR (get_cell (block (ptr ary)) 0) (\<lambda>tp.
           bindR (MEMMOVE (block (ptr ary)) 0 (block (ptr ary)) 1 (alen ary - 1)) (\<lambda>p.
           bindR (shrink E ((with_ptr ary p)\<lparr>alen := alen ary - 1\<rparr>)) (\<lambda>ary.
             Inr (tp, ary)))))"

definition ary_unshift :: "'v ary_env \<Rightarrow> 'v rarray \<Rightarrow> 'v \<Rightarrow> ('v \<times> 'v rarray) result" where
  "ary_unshift E ary item =
     bindR (ary_modify E ary) (\<lambda>_.
     bindR (if alen ary \<ge> capa ary then set_capa E ary (capa ary + ARY_DEFAULT_SIZE) else Inr ary) (\<lambda>ary.
     bindR (MEMMOVE (block (ptr ary)) 1 (block (ptr ary)) 0 (alen ary)) (\<lambda>p.
     bindR (set_cell p 0 item) (\<lambda>p.
       Inr (item, (with_ptr ary p)\<lparr>alen := U32 (alen ary + 1)\<rparr>)))))"

definition ary_entry :: "'v ary_env \<Rightarrow> 'v rarray \<Rightarrow> int \<Rightarrow> 'v result" where
  "ary_entry E ary offset =
     (if alen ary = 0 then Inr (Qnil E)
      else let offset = (if offset < 0 then S32 (alen ary + offset) else offset)
           in if offset < 0 \<or> alen ary \<le> offset then Inr (Qnil E)
              else get_cell (block (ptr ary)) offset)"

text \<open>\<^verbatim>\<open>if (beg < 0) { beg = ary->len + beg; if (beg < 0) beg = 0; }\<close>\<close>

definition from_end :: "int \<Rightarrow> int \<Rightarrow> int" where
  "from_end len beg = (if beg < 0 then max 0 (S32 (len + beg)) else beg)"

definition ary_subseq :: "'v ary_env \<Rightarrow> 'v rarray \<Rightarrow> int \<Rightarrow> int \<Rightarrow> 'v rarray result" where
  "ary_subseq E ary beg len =
     (let beg = from_end (alen ary) beg in
      if len < 0 then Inl (IndexError ''negative length %d'')
      else if len = 0 then ary_new2 E 0
      else let len = (if U32 (beg + len) > alen ary then S32 (alen ary - beg) else len) in
        bindR (ary_new2 E len) (\<lambda>ary2.
        bindR (MEMMOVE (block (ptr ary2)) 0 (block (ptr ary)) beg len) (\<lambda>p.
          Inr ((with_ptr ary2 p)\<lparr>alen := U32 len\<rparr>))))"

definition beg_len :: "'v ary_env \<Rightarrow> 'v \<Rightarrow> int \<Rightarrow> (int \<times> int) option result" where
  "beg_len E rng len =
     bindR (range_ends E rng) (\<lambda>r.
       case r of
         None \<Rightarrow> Inr None
       | Some (beg, end') \<Rightarrow>
           if (beg > 0 \<and> end' > 0 \<or> beg < 0 \<and> end' < 0) \<and> beg > end'
           then Inl (IndexError ''end smaller than beg [%d..%d]'')
           else let beg = (if beg < 0 then max 0 (S32 (len + beg)) else beg) in
             if beg > len then Inr (Some (beg, 0))
             else let end' = (if end' < 0 then max (- 1) (S32 (len + end')) else end');
                      end' = (if end' > len then len else end')
                  in Inr (Some (beg, if beg > end' then 0 else end' - beg + 1)))"

text \<open>The results of \<^verbatim>\<open>[]\<close>: an element or a new array.\<close>

datatype 'v aref = Elem 'v | Sub "'v rarray"

definition ary_aref :: "'v ary_env \<Rightarrow> 'v list \<Rightarrow> 'v rarray \<Rightarrow> 'v aref result" where
  "ary_aref E argv ary =
     (case argv of
        [arg1, arg2] \<Rightarrow>
          bindR (num2int_of E arg1) (\<lambda>beg. bindR (num2int_of E arg2) (\<lambda>len.
            bindR (if len \<le> 0 then ary_new E else ary_subseq E ary beg len) (\<lambda>a. Inr (Sub a))))
      | [arg1] \<Rightarrow>
          (case fixnum_of E arg1 of
             Some i \<Rightarrow> bindR (ary_entry E ary i) (\<lambda>v. Inr (Elem v))
           | None \<Rightarrow>
               bindR (beg_len E arg1 (S32 (alen ary))) (\<lambda>r.
                 case r of
                   Some (beg, len) \<Rightarrow> bindR (ary_subseq E ary beg len) (\<lambda>a. Inr (Sub a))
                 | None \<Rightarrow>
                     if bignum_p E arg1 then Inl (IndexError ''index too big'')
                     else bindR (num2int_of E arg1) (\<lambda>i. bindR (ary_entry E ary i) (\<lambda>v. Inr (Elem v)))))
      | _ \<Rightarrow> Inl (ArgError ''Wrong # of arguments (%d for %d)''))"

section \<open>Replacing elements\<close>

text \<open>
  \<open>rpl\<close> is the array that \<^verbatim>\<open>rb_to_a\<close> returned, another object than \<open>ary\<close>. (For \<^verbatim>\<open>a[i, n] = a\<close> the code has already
  changed the length and moved the elements when it copies them; arrays as values do not show that.)
\<close>

definition ary_replace :: "'v ary_env \<Rightarrow> 'v rarray \<Rightarrow> int \<Rightarrow> int \<Rightarrow> 'v rarray \<Rightarrow> 'v rarray result" where
  "ary_replace E ary beg len rpl =
     bindR (ary_modify E ary) (\<lambda>_.
       let beg = from_end (alen ary) beg in
       if beg \<ge> alen ary then
         let len = S32 (beg + alen rpl) in
         bindR (if U32 len \<ge> capa ary then set_capa E ary len else Inr ary) (\<lambda>ary.
         bindR (memclear (Qnil E) (block (ptr ary)) (alen ary) (nat (beg - alen ary))) (\<lambda>p.
         bindR (MEMMOVE p beg (block (ptr rpl)) 0 (alen rpl)) (\<lambda>p.
           Inr ((with_ptr ary p)\<lparr>alen := U32 len\<rparr>))))
       else
         let len = (if U32 (beg + len) > alen ary then S32 (alen ary - beg) else len) in
         if len < 0 then Inl (IndexError ''negative length %d'')
         else let n = S32 (alen ary + alen rpl - len) in
           bindR (if U32 n \<ge> capa ary then set_capa E ary n else Inr ary) (\<lambda>ary.
           bindR (if U32 len \<noteq> alen rpl
                  then bindR (MEMMOVE (block (ptr ary)) (beg + alen rpl) (block (ptr ary)) (beg + len)
                                (alen ary - (beg + len))) (\<lambda>p. Inr ((with_ptr ary p)\<lparr>alen := U32 n\<rparr>))
                  else Inr ary) (\<lambda>ary.
           bindR (MEMMOVE (block (ptr ary)) beg (block (ptr rpl)) 0 (alen rpl)) (\<lambda>p.
             Inr (with_ptr ary p)))))"

text \<open>\<open>to_a\<close> is \<^verbatim>\<open>rb_to_a\<close> for the value that is assigned.\<close>

definition ary_aset :: "'v ary_env \<Rightarrow> ('v \<Rightarrow> 'v rarray result) \<Rightarrow> 'v list \<Rightarrow> 'v rarray \<Rightarrow> 'v rarray result" where
  "ary_aset E to_a argv ary =
     (let store = (\<lambda>offset val.
            ary_store E ary (if offset < 0 then S32 (alen ary + offset) else offset) val);
          replace = (\<lambda>beg len val.
            bindR (ary_modify E ary) (\<lambda>_. bindR (to_a val) (\<lambda>rpl. ary_replace E ary beg len rpl)))
      in case argv of
        [arg1, arg2, arg3] \<Rightarrow>
          bindR (num2int_of E arg1) (\<lambda>beg. bindR (num2int_of E arg2) (\<lambda>len. replace beg len arg3))
      | [arg1, arg2] \<Rightarrow>
          (case fixnum_of E arg1 of
             Some i \<Rightarrow> store i arg2
           | None \<Rightarrow>
               bindR (beg_len E arg1 (S32 (alen ary))) (\<lambda>r.
                 case r of
                   Some (beg, len) \<Rightarrow> replace beg len arg2
                 | None \<Rightarrow>
                     if bignum_p E arg1 then Inl (IndexError ''index too big'')
                     else bindR (num2int_of E arg1) (\<lambda>i. store i arg2)))
      | _ \<Rightarrow> Inl (ArgError ''Wrong # of arguments (%d for %d)''))"

section \<open>Reading\<close>

text \<open>The values that a loop over \<open>k\<close> elements from index \<open>i\<close> reads.\<close>

primrec read_cells :: "'v cells \<Rightarrow> int \<Rightarrow> nat \<Rightarrow> 'v list result" where
  "read_cells p i 0 = Inr []"
| "read_cells p i (Suc k) =
     bindR (get_cell p i) (\<lambda>v. bindR (read_cells p (i + 1) k) (\<lambda>vs. Inr (v # vs)))"

definition ary_each :: "'v rarray \<Rightarrow> 'v list result" where
  "ary_each ary = read_cells (block (ptr ary)) 0 (nat (alen ary))"

definition ary_each_index :: "'v rarray \<Rightarrow> int list" where
  "ary_each_index ary = map int [0..<nat (alen ary)]"

primrec read_down :: "'v cells \<Rightarrow> nat \<Rightarrow> 'v list result" where
  "read_down p 0 = Inr []"
| "read_down p (Suc k) = bindR (get_cell p (int k)) (\<lambda>v. bindR (read_down p k) (\<lambda>vs. Inr (v # vs)))"

definition ary_reverse_each :: "'v rarray \<Rightarrow> 'v list result" where
  "ary_reverse_each ary = read_down (block (ptr ary)) (nat (alen ary))"

text \<open>The loop of \<^verbatim>\<open>ary_index\<close>, \<^verbatim>\<open>ary_includes\<close>, \<^verbatim>\<open>ary_assoc\<close>: the first index whose element passes.\<close>

primrec find_cell :: "('v \<Rightarrow> bool result) \<Rightarrow> 'v cells \<Rightarrow> int \<Rightarrow> nat \<Rightarrow> int option result" where
  "find_cell test p i 0 = Inr None"
| "find_cell test p i (Suc k) =
     bindR (get_cell p i) (\<lambda>v. bindR (test v) (\<lambda>b.
       if b then Inr (Some i) else find_cell test p (i + 1) k))"

definition ary_index :: "'v ary_env \<Rightarrow> 'v rarray \<Rightarrow> 'v \<Rightarrow> int option result" where
  "ary_index E ary val = find_cell (\<lambda>v. equal_of E v val) (block (ptr ary)) 0 (nat (alen ary))"

definition ary_includes :: "'v ary_env \<Rightarrow> 'v rarray \<Rightarrow> 'v \<Rightarrow> bool result" where
  "ary_includes E ary item =
     bindR (find_cell (\<lambda>v. equal_of E v item) (block (ptr ary)) 0 (nat (alen ary))) (\<lambda>r. Inr (r \<noteq> None))"

text \<open>
  \<^verbatim>\<open>ary_assoc\<close> and \<^verbatim>\<open>ary_rassoc\<close>: \<open>pair\<close> gives the array that an element is, with the type test
  \<^verbatim>\<open>TYPE(*p) == T_ARRAY\<close>; \<open>n\<close> is 0 or 1.
\<close>

definition ary_assoc_nth ::
  "'v ary_env \<Rightarrow> int \<Rightarrow> ('v \<Rightarrow> 'v rarray option) \<Rightarrow> 'v rarray \<Rightarrow> 'v \<Rightarrow> 'v result" where
  "ary_assoc_nth E n pair ary key =
     bindR (find_cell (\<lambda>v. case pair v of
              None \<Rightarrow> Inr False
            | Some a \<Rightarrow> if alen a > 1 then bindR (get_cell (block (ptr a)) n) (\<lambda>k. equal_of E k key) else Inr False)
          (block (ptr ary)) 0 (nat (alen ary))) (\<lambda>r.
       case r of None \<Rightarrow> Inr (Qnil E) | Some i \<Rightarrow> get_cell (block (ptr ary)) i)"

definition ary_assoc :: "'v ary_env \<Rightarrow> ('v \<Rightarrow> 'v rarray option) \<Rightarrow> 'v rarray \<Rightarrow> 'v \<Rightarrow> 'v result" where
  "ary_assoc E pair ary key = ary_assoc_nth E 0 pair ary key"

definition ary_rassoc :: "'v ary_env \<Rightarrow> ('v \<Rightarrow> 'v rarray option) \<Rightarrow> 'v rarray \<Rightarrow> 'v \<Rightarrow> 'v result" where
  "ary_rassoc E pair ary val = ary_assoc_nth E 1 pair ary val"

text \<open>\<^verbatim>\<open>ary_equal\<close> and \<^verbatim>\<open>ary_eql\<close> on two arrays; other values are not equal.\<close>

primrec cells_agree :: "('v \<Rightarrow> 'v \<Rightarrow> bool result) \<Rightarrow> 'v cells \<Rightarrow> 'v cells \<Rightarrow> int \<Rightarrow> nat \<Rightarrow> bool result" where
  "cells_agree eq p q i 0 = Inr True"
| "cells_agree eq p q i (Suc k) =
     bindR (get_cell p i) (\<lambda>x. bindR (get_cell q i) (\<lambda>y. bindR (eq x y) (\<lambda>b.
       if \<not> b then Inr False else cells_agree eq p q (i + 1) k)))"

definition ary_equal :: "'v ary_env \<Rightarrow> 'v rarray \<Rightarrow> 'v rarray option \<Rightarrow> bool result" where
  "ary_equal E ary1 ary2 =
     (case ary2 of
        None \<Rightarrow> Inr False
      | Some ary2 \<Rightarrow>
          if alen ary1 \<noteq> alen ary2 then Inr False
          else cells_agree (equal_of E) (block (ptr ary1)) (block (ptr ary2)) 0 (nat (alen ary1)))"

definition ary_eql :: "'v ary_env \<Rightarrow> 'v rarray \<Rightarrow> 'v rarray option \<Rightarrow> bool result" where
  "ary_eql E ary1 ary2 =
     (case ary2 of
        None \<Rightarrow> Inr False
      | Some ary2 \<Rightarrow>
          if alen ary1 \<noteq> alen ary2 then Inr False
          else cells_agree (eql_of E) (block (ptr ary1)) (block (ptr ary2)) 0 (nat (alen ary1)))"

primrec hash_loop :: "'v ary_env \<Rightarrow> 'v cells \<Rightarrow> int \<Rightarrow> nat \<Rightarrow> u32 \<Rightarrow> u32 result" where
  "hash_loop E p i 0 h = Inr h"
| "hash_loop E p i (Suc k) h =
     bindR (get_cell p i) (\<lambda>v. bindR (hash_of E v) (\<lambda>x. hash_loop E p (i + 1) k (h XOR word_of_int x)))"

definition ary_hash :: "'v ary_env \<Rightarrow> 'v rarray \<Rightarrow> u32 result" where
  "ary_hash E ary = hash_loop E (block (ptr ary)) 0 (nat (alen ary)) (word_of_int (alen ary))"

definition ary_length :: "'v rarray \<Rightarrow> int" where
  "ary_length ary = alen ary"

definition ary_empty_p :: "'v rarray \<Rightarrow> bool" where
  "ary_empty_p ary = (alen ary = 0)"

primrec nitems_loop :: "'v ary_env \<Rightarrow> 'v cells \<Rightarrow> int \<Rightarrow> nat \<Rightarrow> int \<Rightarrow> int result" where
  "nitems_loop E p i 0 n = Inr n"
| "nitems_loop E p i (Suc k) n =
     bindR (get_cell p i) (\<lambda>v. nitems_loop E p (i + 1) k (if v = Qnil E then n else n + 1))"

definition ary_nitems :: "'v ary_env \<Rightarrow> 'v rarray \<Rightarrow> int result" where
  "ary_nitems E ary = nitems_loop E (block (ptr ary)) 0 (nat (alen ary)) 0"

text \<open>\<^verbatim>\<open>ary_indexes\<close>: the elements at the given indexes.\<close>

primrec indexes_loop :: "'v ary_env \<Rightarrow> 'v rarray \<Rightarrow> 'v list \<Rightarrow> int \<Rightarrow> 'v rarray \<Rightarrow> 'v rarray result" where
  "indexes_loop E ary [] i new_ary = Inr new_ary"
| "indexes_loop E ary (arg # args) i new_ary =
     bindR (num2int_of E arg) (\<lambda>n. bindR (ary_entry E ary n) (\<lambda>v.
     bindR (ary_store E new_ary i v) (\<lambda>new_ary. indexes_loop E ary args (i + 1) new_ary)))"

definition ary_indexes :: "'v ary_env \<Rightarrow> 'v rarray \<Rightarrow> 'v list \<Rightarrow> 'v rarray result" where
  "ary_indexes E ary args =
     bindR (ary_new2 E (int (length args))) (\<lambda>new_ary. indexes_loop E ary args 0 new_ary)"

section \<open>Copies\<close>

text \<open>\<^verbatim>\<open>CLONESETUP\<close> copies the flags, the freeze flag included.\<close>

definition ary_clone :: "'v ary_env \<Rightarrow> 'v rarray \<Rightarrow> 'v rarray result" where
  "ary_clone E ary =
     bindR (ary_new2 E (alen ary)) (\<lambda>ary2.
     bindR (MEMMOVE (block (ptr ary2)) 0 (block (ptr ary)) 0 (alen ary)) (\<lambda>p.
       Inr ((with_ptr ary2 p)\<lparr>alen := alen ary, frozen := frozen ary\<rparr>)))"

definition ary_plus :: "'v ary_env \<Rightarrow> 'v rarray \<Rightarrow> 'v rarray \<Rightarrow> 'v rarray result" where
  "ary_plus E x y =
     bindR (ary_new2 E (S32 (alen x + alen y))) (\<lambda>z.
     bindR (MEMMOVE (block (ptr z)) 0 (block (ptr x)) 0 (alen x)) (\<lambda>p.
     bindR (MEMMOVE p (alen x) (block (ptr y)) 0 (alen y)) (\<lambda>p.
       Inr ((with_ptr z p)\<lparr>alen := U32 (alen x + alen y)\<rparr>))))"

primrec concat_loop :: "'v ary_env \<Rightarrow> 'v cells \<Rightarrow> int \<Rightarrow> nat \<Rightarrow> 'v rarray \<Rightarrow> 'v rarray result" where
  "concat_loop E q i 0 x = Inr x"
| "concat_loop E q i (Suc k) x =
     bindR (get_cell q i) (\<lambda>v. bindR (ary_store E x (S32 (alen x)) v) (\<lambda>x. concat_loop E q (i + 1) k x))"

definition ary_concat :: "'v ary_env \<Rightarrow> 'v rarray \<Rightarrow> 'v rarray \<Rightarrow> 'v rarray result" where
  "ary_concat E x y = concat_loop E (block (ptr y)) 0 (nat (alen y)) x"

text \<open>\<^verbatim>\<open>ary_times\<close> with a number; the copies that fit are counted by \<open>k\<close>.\<close>

primrec times_loop :: "'v rarray \<Rightarrow> nat \<Rightarrow> int \<Rightarrow> 'v cells \<Rightarrow> 'v cells result" where
  "times_loop ary 0 i p = Inr p"
| "times_loop ary (Suc k) i p =
     bindR (MEMMOVE p i (block (ptr ary)) 0 (alen ary)) (\<lambda>p. times_loop ary k (i + alen ary) p)"

definition ary_times :: "'v ary_env \<Rightarrow> 'v rarray \<Rightarrow> int \<Rightarrow> 'v rarray result" where
  "ary_times E ary n =
     (let len = S32 (n * alen ary) in
      bindR (ary_new2 E len) (\<lambda>ary2.
        if len < 0 then Inl (ArgError ''negative argument'')
        else bindR (times_loop ary (nat ((len + alen ary - 1) div alen ary)) 0 (block (ptr ary2))) (\<lambda>p.
          Inr ((with_ptr ary2 p)\<lparr>alen := len\<rparr>))))"

section \<open>Changes in place\<close>

text \<open>The two pointers of \<^verbatim>\<open>ary_reverse\<close> as indexes.\<close>

function rev_loop :: "'v cells \<Rightarrow> int \<Rightarrow> int \<Rightarrow> 'v cells result" where
  "rev_loop p i j =
     (if i < j then
        bindR (get_cell p i) (\<lambda>x. bindR (get_cell p j) (\<lambda>y.
        bindR (set_cell p i y) (\<lambda>p. bindR (set_cell p j x) (\<lambda>p. rev_loop p (i + 1) (j - 1)))))
      else Inr p)"
  by pat_completeness auto
termination by (relation "measure (\<lambda>(p, i, j). nat (j - i))") auto

declare rev_loop.simps [simp del]

definition ary_reverse :: "'v rarray \<Rightarrow> 'v rarray result" where
  "ary_reverse ary = bindR (rev_loop (block (ptr ary)) 0 (alen ary - 1)) (\<lambda>p. Inr (with_ptr ary p))"

definition ary_reverse_method :: "'v ary_env \<Rightarrow> 'v rarray \<Rightarrow> 'v rarray result" where
  "ary_reverse_method E ary = bindR (ary_clone E ary) ary_reverse"

text \<open>
  \<^verbatim>\<open>sort_2\<close> on two Fixnums returns the difference of the tagged words as an \<^verbatim>\<open>int\<close>; \<open>other\<close> is
  \<^verbatim>\<open>str_cmp\<close> or the call of \<^verbatim>\<open><=>\<close>.
\<close>

definition sort_2 :: "'v ary_env \<Rightarrow> ('v \<Rightarrow> 'v \<Rightarrow> int result) \<Rightarrow> 'v \<Rightarrow> 'v \<Rightarrow> int result" where
  "sort_2 E other a b =
     (case (fixnum_of E a, fixnum_of E b) of
        (Some x, Some y) \<Rightarrow> Inr (S32 ((2 * x + 1) - (2 * y + 1)))
      | _ \<Rightarrow> other a b)"

text \<open>
  The loop of \<^verbatim>\<open>ary_delete\<close>, \<^verbatim>\<open>ary_delete_at\<close> and \<^verbatim>\<open>ary_delete_if\<close>: \<open>test\<close> gets the index and the
  element and says whether it is dropped; \<open>k\<close> elements are left to visit. The result is the
  block and the number of elements kept.
\<close>

primrec delete_loop :: "(int \<Rightarrow> 'v \<Rightarrow> bool result) \<Rightarrow> nat \<Rightarrow> int \<Rightarrow> int \<Rightarrow> 'v cells \<Rightarrow> ('v cells \<times> int) result" where
  "delete_loop test 0 i1 i2 p = Inr (p, i2)"
| "delete_loop test (Suc k) i1 i2 p =
     bindR (get_cell p i1) (\<lambda>v. bindR (test i1 v) (\<lambda>b.
       if b then delete_loop test k (i1 + 1) i2 p
       else bindR (if i1 \<noteq> i2 then set_cell p i2 v else Inr p) (\<lambda>p.
         delete_loop test k (i1 + 1) (i2 + 1) p)))"

text \<open>The returned value, the items the block is called with, and the array.\<close>

definition ary_delete :: "'v ary_env \<Rightarrow> bool \<Rightarrow> 'v rarray \<Rightarrow> 'v \<Rightarrow> ('v \<times> 'v list \<times> 'v rarray) result" where
  "ary_delete E iterator_p ary item =
     bindR (ary_modify E ary) (\<lambda>_.
     bindR (delete_loop (\<lambda>_ v. equal_of E v item) (nat (alen ary)) 0 0 (block (ptr ary))) (\<lambda>(p, i2).
       if alen ary = i2 then Inr (Qnil E, if iterator_p then [item] else [], with_ptr ary p)
       else Inr (item, [], (with_ptr ary p)\<lparr>alen := i2\<rparr>)))"

definition ary_delete_at :: "'v ary_env \<Rightarrow> 'v rarray \<Rightarrow> 'v \<Rightarrow> ('v \<times> 'v rarray) result" where
  "ary_delete_at E ary at =
     bindR (ary_modify E ary) (\<lambda>_. bindR (num2int_of E at) (\<lambda>pos.
     bindR (delete_loop (\<lambda>i _. Inr (i = pos)) (nat (alen ary)) 0 0 (block (ptr ary))) (\<lambda>(p, i2).
     bindR (if 0 \<le> pos \<and> pos < alen ary then get_cell (block (ptr ary)) pos else Inr (Qnil E)) (\<lambda>del.
       Inr (del, (with_ptr ary p)\<lparr>alen := i2\<rparr>)))))"

text \<open>
  \<^verbatim>\<open>ary_delete_if\<close> tests the \<^verbatim>\<open>VALUE\<close> that the block returns as a C integer; only \<^verbatim>\<open>FALSE\<close> is 0,
  which \<open>is_false\<close> tests.
\<close>

definition ary_delete_if ::
  "'v ary_env \<Rightarrow> ('v \<Rightarrow> bool) \<Rightarrow> ('v \<Rightarrow> 'v result) \<Rightarrow> 'v rarray \<Rightarrow> 'v rarray result" where
  "ary_delete_if E is_false blk ary =
     bindR (ary_modify E ary) (\<lambda>_.
     bindR (delete_loop (\<lambda>_ v. bindR (blk v) (\<lambda>r. Inr (\<not> is_false r))) (nat (alen ary)) 0 0 (block (ptr ary)))
       (\<lambda>(p, i2). Inr ((with_ptr ary p)\<lparr>alen := i2\<rparr>)))"

definition ary_clear :: "'v ary_env \<Rightarrow> 'v rarray \<Rightarrow> 'v rarray result" where
  "ary_clear E ary =
     (if ARY_DEFAULT_SIZE * 3 < capa ary then set_capa E (ary\<lparr>alen := 0\<rparr>) (ARY_DEFAULT_SIZE * 2)
      else Inr (ary\<lparr>alen := 0\<rparr>))"

text \<open>\<^verbatim>\<open>ary_fill\<close> tests \<^verbatim>\<open>arg2\<close> as a C integer, which is true for an absent argument (\<^verbatim>\<open>nil\<close>).\<close>

definition fill_range :: "'v ary_env \<Rightarrow> 'v \<Rightarrow> 'v \<Rightarrow> 'v rarray \<Rightarrow> (int \<times> int) result" where
  "fill_range E arg1 arg2 ary =
     bindR (if arg2 = Qnil E then beg_len E arg1 (S32 (alen ary)) else Inr None) (\<lambda>r.
       case r of
         Some bl \<Rightarrow> Inr bl
       | None \<Rightarrow>
           bindR (num2int_of E arg1) (\<lambda>beg. bindR (num2int_of E arg2) (\<lambda>len.
             Inr (from_end (alen ary) beg, len))))"

definition fill_from :: "'v ary_env \<Rightarrow> 'v \<Rightarrow> int \<Rightarrow> int \<Rightarrow> 'v rarray \<Rightarrow> 'v rarray result" where
  "fill_from E item beg len ary =
     (let end' = S32 (beg + len) in
      bindR (if U32 end' > alen ary then
               bindR (if U32 end' \<ge> capa ary then set_capa E ary end' else Inr ary) (\<lambda>ary.
               bindR (if beg > alen ary
                      then memclear (Qnil E) (block (ptr ary)) (alen ary) (nat (U32 (end' - alen ary)))
                      else Inr (block (ptr ary))) (\<lambda>p.
                 Inr ((with_ptr ary p)\<lparr>alen := U32 end'\<rparr>)))
             else Inr ary) (\<lambda>ary.
      bindR (memclear item (block (ptr ary)) beg (nat len)) (\<lambda>p. Inr (with_ptr ary p))))"

definition ary_fill :: "'v ary_env \<Rightarrow> 'v list \<Rightarrow> 'v rarray \<Rightarrow> 'v rarray result" where
  "ary_fill E argv ary =
     (case argv of
        [item] \<Rightarrow> bindR (fill_range E (Qnil E) (Qnil E) ary) (\<lambda>(b, l). fill_from E item b l ary)
      | [item, arg1] \<Rightarrow> bindR (fill_range E arg1 (Qnil E) ary) (\<lambda>(b, l). fill_from E item b l ary)
      | [item, arg1, arg2] \<Rightarrow> bindR (fill_range E arg1 arg2 ary) (\<lambda>(b, l). fill_from E item b l ary)
      | _ \<Rightarrow> Inl (ArgError ''Wrong # of arguments (%d for %d)''))"

primrec compact_loop :: "'v ary_env \<Rightarrow> nat \<Rightarrow> int \<Rightarrow> int \<Rightarrow> 'v cells \<Rightarrow> ('v cells \<times> int) result" where
  "compact_loop E 0 t p' p = Inr (p, p')"
| "compact_loop E (Suc k) t p' p =
     bindR (get_cell p t) (\<lambda>v.
       if v = Qnil E then compact_loop E k (t + 1) p' p
       else bindR (set_cell p p' v) (\<lambda>p. compact_loop E k (t + 1) (p' + 1) p))"

definition ary_compact_bang :: "'v ary_env \<Rightarrow> 'v rarray \<Rightarrow> 'v rarray result" where
  "ary_compact_bang E ary =
     bindR (ary_modify E ary) (\<lambda>_.
     bindR (compact_loop E (nat (alen ary)) 0 0 (block (ptr ary))) (\<lambda>(p, n).
       bindR (REALLOC_N E (ptr (with_ptr ary p)) n) (\<lambda>p. Inr (ary\<lparr>alen := n, capa := n, ptr := Some p\<rparr>))))"

definition ary_compact :: "'v ary_env \<Rightarrow> 'v rarray \<Rightarrow> 'v rarray result" where
  "ary_compact E ary = bindR (ary_clone E ary) (ary_compact_bang E)"

section \<open>Arrays as sets\<close>

text \<open>
  The loop of \<^verbatim>\<open>ary_diff\<close>, \<^verbatim>\<open>ary_and\<close> and \<^verbatim>\<open>ary_or\<close>: elements that pass \<open>want\<close> and are not yet in
  the new array are pushed.
\<close>

primrec collect_loop ::
  "'v ary_env \<Rightarrow> ('v \<Rightarrow> bool result) \<Rightarrow> 'v cells \<Rightarrow> int \<Rightarrow> nat \<Rightarrow> 'v rarray \<Rightarrow> 'v rarray result" where
  "collect_loop E want p i 0 ary3 = Inr ary3"
| "collect_loop E want p i (Suc k) ary3 =
     bindR (get_cell p i) (\<lambda>v. bindR (want v) (\<lambda>w.
       if \<not> w then collect_loop E want p (i + 1) k ary3
       else bindR (ary_includes E ary3 v) (\<lambda>b.
         if b then collect_loop E want p (i + 1) k ary3
         else bindR (ary_push E ary3 v) (\<lambda>ary3. collect_loop E want p (i + 1) k ary3))))"

definition ary_diff :: "'v ary_env \<Rightarrow> 'v rarray \<Rightarrow> 'v rarray \<Rightarrow> 'v rarray result" where
  "ary_diff E ary1 ary2 =
     bindR (ary_new E) (\<lambda>ary3.
       collect_loop E (\<lambda>v. bindR (ary_includes E ary2 v) (\<lambda>b. Inr (\<not> b)))
         (block (ptr ary1)) 0 (nat (alen ary1)) ary3)"

definition ary_and :: "'v ary_env \<Rightarrow> 'v rarray \<Rightarrow> 'v rarray \<Rightarrow> 'v rarray result" where
  "ary_and E ary1 ary2 =
     bindR (ary_new E) (\<lambda>ary3.
       collect_loop E (ary_includes E ary2) (block (ptr ary1)) 0 (nat (alen ary1)) ary3)"

text \<open>\<open>arg\<close> is an array, or another value that \<^verbatim>\<open>ary_plus\<close> converts with \<^verbatim>\<open>rb_to_a\<close>.\<close>

definition ary_or :: "'v ary_env \<Rightarrow> ('v \<Rightarrow> 'v rarray result) \<Rightarrow> 'v rarray \<Rightarrow> 'v + 'v rarray \<Rightarrow> 'v rarray result" where
  "ary_or E to_a ary1 arg =
     (case arg of
        Inl v \<Rightarrow> bindR (ary_includes E ary1 v) (\<lambda>b.
          if b then Inr ary1 else bindR (to_a v) (ary_plus E ary1))
      | Inr ary2 \<Rightarrow>
          bindR (ary_new E) (\<lambda>ary3.
          bindR (collect_loop E (\<lambda>_. Inr True) (block (ptr ary1)) 0 (nat (alen ary1)) ary3) (\<lambda>ary3.
            collect_loop E (\<lambda>_. Inr True) (block (ptr ary2)) 0 (nat (alen ary2)) ary3)))"

section \<open>Arrays hold lists\<close>

text \<open>
  \<open>is_array a xs\<close>: the array is well formed and its elements are \<open>xs\<close>. The block has \<open>capa\<close>
  cells, fewer than \<open>2 ^ 30\<close> so that its size in bytes is a \<^verbatim>\<open>UINT\<close>, and the first \<open>alen\<close> cells
  are initialised.
\<close>

definition is_array :: "'v rarray \<Rightarrow> 'v list \<Rightarrow> bool" where
  "is_array a xs \<longleftrightarrow> alen a = int (length xs) \<and> alen a \<le> capa a \<and> capa a < 1073741824 \<and>
     int (length (block (ptr a))) = capa a \<and> holds (block (ptr a)) xs"

definition usable :: "'v ary_env \<Rightarrow> bool" where
  "usable E \<longleftrightarrow> safe_level E < 5 \<and> (\<forall>n>0. malloc_ok E n)"

lemma is_arrayD:
  assumes "is_array a xs"
  shows "alen a = int (length xs)" "alen a \<le> capa a" "capa a < 1073741824"
    "int (length (block (ptr a))) = capa a" "holds (block (ptr a)) xs"
    "nat (alen a) = length xs" "length xs < 1073741824" "length xs \<le> length (block (ptr a))"
  using assms by (auto simp: is_array_def)

lemma is_arrayI:
  "int (length (block (ptr a))) = capa a \<Longrightarrow> capa a < 1073741824 \<Longrightarrow> alen a = int (length xs) \<Longrightarrow>
     holds (block (ptr a)) xs \<Longrightarrow> is_array a xs"
  using holds_length [of "block (ptr a)" xs] by (simp add: is_array_def)

lemma is_array_unique: "is_array a xs \<Longrightarrow> is_array a ys \<Longrightarrow> xs = ys"
  unfolding is_array_def holds_def by (metis inj_map_eq_map inj_Some of_nat_eq_iff)

lemma block_with_ptr [simp]:
  "length p = length (block (ptr a)) \<Longrightarrow> block (ptr (with_ptr a p)) = p"
  by (cases "ptr a") (simp_all add: with_ptr_def)

lemma with_ptr_fields [simp]:
  "alen (with_ptr a p) = alen a" "capa (with_ptr a p) = capa a" "frozen (with_ptr a p) = frozen a"
  by (simp_all add: with_ptr_def)

lemma block_with_ptr_alen [simp]:
  "length p = length (block (ptr a)) \<Longrightarrow> block (ptr ((with_ptr a p)\<lparr>alen := n\<rparr>)) = p"
  by simp

lemma ary_modify_ok [simp]: "usable E \<Longrightarrow> \<not> frozen a \<Longrightarrow> ary_modify E a = Inr ()"
  by (simp add: ary_modify_def usable_def)

lemma ALLOC_N_ok: "usable E \<Longrightarrow> 0 \<le> n \<Longrightarrow> n < 1073741824 \<Longrightarrow> ALLOC_N E n = Inr (replicate (nat n) None)"
  by (simp add: ALLOC_N_def xmalloc_def usable_def Let_def)

lemma REALLOC_N_ok:
  "usable E \<Longrightarrow> 0 \<le> n \<Longrightarrow> n < 1073741824 \<Longrightarrow> 0 < n \<or> p = None \<or> malloc_ok E 0 \<Longrightarrow>
     REALLOC_N E p n = Inr (take (nat n) (block p) @ replicate (nat n - length (block p)) None)"
  by (cases p; cases "n = 0") (auto simp: REALLOC_N_def xrealloc_def xmalloc_def usable_def Let_def)

lemma MEMMOVE_ok: "0 \<le> n \<Longrightarrow> n < 1073741824 \<Longrightarrow> MEMMOVE d di s si n = copy_cells d di s si n"
  by (simp add: MEMMOVE_def)

lemma set_capa_ok:
  assumes "usable E" "is_array a xs" "int (length xs) \<le> n" "n < 1073741824" "0 < n \<or> ptr a = None \<or> malloc_ok E 0"
  shows "\<exists>a'. set_capa E a n = Inr a' \<and> is_array a' xs \<and> capa a' = n \<and> frozen a' = frozen a"
proof -
  let ?p = "block (ptr a)"
  have n: "0 \<le> n" using assms(3) by linarith
  let ?q = "take (nat n) ?p @ replicate (nat n - length ?p) None"
  have "take (length xs) ?q = take (length xs) ?p"
  proof -
    have "length xs \<le> nat n" using assms(3) by linarith
    then show ?thesis using is_arrayD(8) [OF assms(2)] by simp
  qed
  then have "holds ?q xs" using is_arrayD(5) [OF assms(2)] by (simp add: holds_def)
  moreover have "length ?q = nat n" by simp
  ultimately have "is_array (a\<lparr>capa := n, ptr := Some ?q\<rparr>) xs"
    using is_arrayD(1) [OF assms(2)] assms(4) n by (intro is_arrayI) simp_all
  then show ?thesis using assms(1,4,5) n by (simp add: set_capa_def REALLOC_N_ok)
qed

text \<open>
  The hypothesis of \<^verbatim>\<open>usable\<close> leaves open what the allocator does with size 0: when it returns no block, the
  code reallocates a pointer that is already free.
\<close>

lemma set_capa_zero:
  "\<not> malloc_ok E 0 \<Longrightarrow> ptr a \<noteq> None \<Longrightarrow> set_capa E a 0 = Inl OutOfBounds"
  by (auto simp: set_capa_def REALLOC_N_def xrealloc_def)

lemma memclear_ok:
  "0 \<le> i \<Longrightarrow> i + int k \<le> int (length p) \<Longrightarrow>
     memclear nil p i k = Inr (take (nat i) p @ replicate k (Some nil) @ drop (nat i + k) p)"
proof (induction k arbitrary: p i)
  case (Suc k)
  let ?p = "p[nat i := Some nil]"
  have i: "nat i < length p" using Suc.prems by linarith
  have "memclear nil p i (Suc k) = memclear nil ?p (i + 1) k"
    using Suc.prems by (simp add: set_cell_in)
  also have "\<dots> = Inr (take (nat (i + 1)) ?p @ replicate k (Some nil) @ drop (nat (i + 1) + k) ?p)"
    using Suc.prems by (intro Suc.IH) simp_all
  also have "nat (i + 1) = Suc (nat i)" using Suc.prems by simp
  also have "take (Suc (nat i)) ?p = take (nat i) p @ [Some nil]"
    using i by (simp add: take_Suc_conv_app_nth)
  finally show ?case using i by (simp add: replicate_app_Cons_same)
qed simp

text \<open>Storing beyond the end pads with \<^verbatim>\<open>nil\<close>.\<close>

definition store_spec :: "'v \<Rightarrow> 'v list \<Rightarrow> nat \<Rightarrow> 'v \<Rightarrow> 'v list" where
  "store_spec nil xs i v = (if i < length xs then xs[i := v] else xs @ replicate (i - length xs) nil @ [v])"

lemma holds_store:
  assumes "holds p xs" "i < length p" "length xs \<le> i"
    and q: "q = take (length xs) p @ replicate (Suc i - length xs) (Some nil) @ drop (Suc i) p"
  shows "holds (q[i := Some v]) (store_spec nil xs i v)"
proof -
  let ?n = "i - length xs"
  have s: "Suc i - length xs = Suc ?n" using assms(3) by simp
  have "q = map Some (xs @ replicate ?n nil) @ Some nil # drop (Suc i) p"
    using assms(1) unfolding q s by (simp add: holds_def replicate_app_Cons_same)
  then have "q[i := Some v] = map Some (xs @ replicate ?n nil @ [v]) @ drop (Suc i) p"
    using assms(3) by (simp add: list_update_append)
  then have "holds (q[i := Some v]) (xs @ replicate ?n nil @ [v])" by (simp only: holds_append)
  with assms(3) show ?thesis by (simp add: store_spec_def)
qed

lemma ary_store_ok:
  assumes "usable E" "is_array a xs" "\<not> frozen a" "0 \<le> idx" "idx < 1073741824 - 16"
  shows "\<exists>a'. ary_store E a idx v = Inr a' \<and> is_array a' (store_spec (Qnil E) xs (nat idx) v) \<and> \<not> frozen a'"
proof -
  obtain b where b: "(if idx \<ge> capa a then set_capa E a (idx + ARY_DEFAULT_SIZE) else Inr a) = Inr b"
    "is_array b xs" "idx < capa b" "\<not> frozen b"
    using set_capa_ok [OF assms(1,2), of "idx + 16"] assms is_arrayD(1,2) [OF assms(2)]
    by (cases "idx \<ge> capa a") (auto simp: ARY_DEFAULT_SIZE_def)
  let ?p = "block (ptr b)" and ?n = "length xs"
  note B = is_arrayD [OF b(2)]
  have ip: "nat idx < length ?p" using b(3) B(4) assms(4) by linarith
  obtain q where q: "(if idx > alen b then memclear (Qnil E) ?p (alen b) (nat (idx - alen b + 1)) else Inr ?p) = Inr q"
    "length q = length ?p" "holds (q[nat idx := Some v]) (store_spec (Qnil E) xs (nat idx) v)"
  proof (cases "idx > alen b")
    case True
    let ?q = "take ?n ?p @ replicate (Suc (nat idx) - ?n) (Some (Qnil E)) @ drop (Suc (nat idx)) ?p"
    have k: "nat (idx - alen b + 1) = Suc (nat idx) - ?n" using True B(1) by linarith
    have "memclear (Qnil E) ?p (alen b) (nat (idx - alen b + 1)) = Inr ?q"
      unfolding k using True B(1) ip assms(4) by (subst memclear_ok) auto
    moreover have "length ?q = length ?p" using ip True B(1) by auto
    ultimately show ?thesis using that True holds_store [OF B(5) ip _ refl] B(1) by simp
  next
    case False
    then have "holds (?p[nat idx := Some v]) (store_spec (Qnil E) xs (nat idx) v)"
      using holds_update [OF B(5), of "nat idx" v] holds_snoc [OF B(5), of v] ip B(1) assms(4)
      by (cases "idx = alen b") (auto simp: store_spec_def)
    with False show ?thesis using that by simp
  qed
  let ?l = "if idx \<ge> alen b then U32 (idx + 1) else alen b"
  have s: "ary_store E a idx v = Inr (b\<lparr>alen := ?l, ptr := Some (q[nat idx := Some v])\<rparr>)"
    using assms(1,3,4) b(1) q(1,2) ip by (simp add: ary_store_def set_cell_in split del: if_split)
  have "?l = int (length (store_spec (Qnil E) xs (nat idx) v))"
    using assms(4,5) B(1) by (auto simp: store_spec_def)
  then have "is_array (b\<lparr>alen := ?l, ptr := Some (q[nat idx := Some v])\<rparr>) (store_spec (Qnil E) xs (nat idx) v)"
    using q B(3,4) by (intro is_arrayI) simp_all
  with s b(4) show ?thesis by simp
qed

lemma store_spec_end [simp]: "store_spec nil xs (length xs) v = xs @ [v]"
  by (simp add: store_spec_def)

lemma ary_push_ok:
  assumes "usable E" "is_array a xs" "\<not> frozen a" "length xs < 1073741824 - 16"
  shows "\<exists>a'. ary_push E a v = Inr a' \<and> is_array a' (xs @ [v]) \<and> \<not> frozen a'"
  using ary_store_ok [OF assms(1-3), of "int (length xs)" v] assms(4) is_arrayD(1) [OF assms(2)]
  by (simp add: ary_push_def)

lemma ary_new2_ok:
  assumes "usable E" "0 \<le> n" "n < 1073741824"
  shows "\<exists>a. ary_new2 E n = Inr a \<and> is_array a [] \<and> capa a = n \<and> \<not> frozen a"
proof (cases "n = 0")
  case True
  then show ?thesis by (simp add: ary_new2_def is_array_def)
next
  case False
  let ?p = "replicate (nat n) (Some (Qnil E))"
  have "memclear (Qnil E) (replicate (nat n) None) 0 (nat n) = Inr ?p"
    using assms(2) by (subst memclear_ok) simp_all
  then have "ary_new2 E n = Inr \<lparr>alen = 0, capa = n, ptr = Some ?p, frozen = False\<rparr>"
    using False assms by (simp add: ary_new2_def ALLOC_N_ok)
  then show ?thesis using assms by (simp add: is_array_def)
qed

text \<open>A new array of \<open>n\<close> cells into which the \<open>n\<close> values of a block are copied.\<close>

lemma fresh_copy:
  assumes "usable E" "holds (drop (nat si) s) ys" "0 \<le> si" "n = int (length ys)" "length ys < 1073741824"
  shows "\<exists>a p. ary_new2 E n = Inr a \<and> \<not> frozen a \<and> MEMMOVE (block (ptr a)) 0 s si n = Inr p \<and>
    (\<forall>f. is_array ((with_ptr a p)\<lparr>alen := n, frozen := f\<rparr>) ys) \<and> is_array ((with_ptr a p)\<lparr>alen := n\<rparr>) ys"
proof -
  obtain a where a: "ary_new2 E n = Inr a" "is_array a []" "capa a = n" "\<not> frozen a"
    using ary_new2_ok [OF assms(1), of n] assms(4,5) by auto
  note A = is_arrayD [OF a(2)]
  have l: "int (length (block (ptr a))) = n" using A(4) a(3) by simp
  obtain p where p: "copy_cells (block (ptr a)) 0 s si n = Inr p" "length p = length (block (ptr a))" "holds p ys"
    using copy_cells_holds [OF A(5) assms(2,3), of 0 n] assms(4) l by auto
  have "MEMMOVE (block (ptr a)) 0 s si n = Inr p" using p(1) assms(4,5) by (simp add: MEMMOVE_ok)
  with a p l assms(4,5) show ?thesis by (auto intro!: is_arrayI)
qed

lemma ary_entry_ok:
  assumes "is_array a xs" "- 1073741824 \<le> i" "i < 1073741824"
  shows "ary_entry E a i = Inr (let k = (if i < 0 then int (length xs) + i else i)
    in if 0 \<le> k \<and> k < int (length xs) then xs ! nat k else Qnil E)"
  using assms(2,3) is_arrayD(1,7) [OF assms(1)] get_cell_holds [OF is_arrayD(5) [OF assms(1)]]
  by (auto simp: ary_entry_def Let_def)

text \<open>
  The test \<^verbatim>\<open>ary->len * 10 < ary->capa\<close> is meant for lengths whose product fits a \<^verbatim>\<open>UINT\<close>.
\<close>

lemma shrink_ok:
  assumes "usable E" "is_array a xs" "length xs \<le> 400000000" "xs \<noteq> [] \<or> malloc_ok E 0"
  shows "\<exists>a'. shrink E a = Inr a' \<and> is_array a' xs \<and> frozen a' = frozen a"
proof (cases "U32 (alen a * 10) < capa a \<and> capa a > ARY_DEFAULT_SIZE")
  case True
  note A = is_arrayD [OF assms(2)]
  have "U32 (alen a * 10) = alen a * 10" using A(1) assms(3) by simp
  then have "alen a * 2 < 1073741824" using True A(1,3) by linarith
  then show ?thesis
    using True A(1) set_capa_ok [OF assms(1,2), of "alen a * 2"] assms(4) by (auto simp: shrink_def)
next
  case False
  then show ?thesis using assms(2) by (auto simp: shrink_def)
qed

lemma ary_pop_ok:
  assumes "usable E" "is_array a xs" "length xs \<le> 400000000"
  shows "\<exists>a'. ary_pop E a = Inr (if xs = [] then Qnil E else last xs, a') \<and> is_array a' (butlast xs) \<and>
    frozen a' = frozen a"
proof (cases "xs = []")
  case True
  then show ?thesis using assms(2) is_arrayD(1) [OF assms(2)] by (simp add: ary_pop_def)
next
  case False
  obtain b where b: "shrink E a = Inr b" "is_array b xs" "frozen b = frozen a"
    using shrink_ok [OF assms] False by blast
  note B = is_arrayD [OF b(2)]
  have l: "0 < length xs" using False by simp
  then have "nat (alen b - 1) = length xs - 1" using B(1) by linarith
  then have g: "get_cell (block (ptr b)) (alen b - 1) = Inr (last xs)"
    using get_cell_holds [OF B(5), of "alen b - 1"] l B(1) False by (simp add: last_conv_nth)
  have "holds (block (ptr b)) (butlast xs)"
    using B(5) False by (metis append_butlast_last_id holds_prefix)
  then have "is_array (b\<lparr>alen := alen b - 1\<rparr>) (butlast xs)"
    using B l by (intro is_arrayI) (simp_all add: of_nat_diff Suc_le_eq)
  with g b l is_arrayD(1) [OF assms(2)] False show ?thesis by (simp add: ary_pop_def)
qed

lemma ary_shift_ok:
  assumes "usable E" "is_array a xs" "length xs \<le> 400000000" "length xs \<noteq> 1 \<or> malloc_ok E 0"
  shows "\<exists>a'. ary_shift E a = Inr (if xs = [] then Qnil E else hd xs, a') \<and> is_array a' (tl xs) \<and>
    frozen a' = frozen a"
proof (cases xs)
  case Nil
  then show ?thesis using assms(2) is_arrayD(1) [OF assms(2)] by (simp add: ary_shift_def)
next
  case (Cons x ys)
  note A = is_arrayD [OF assms(2)]
  let ?p = "block (ptr a)"
  have y: "holds (drop (nat 1) ?p) ys" using drop_holds [OF A(5), of 1] Cons by simp
  obtain q where q: "copy_cells ?p 0 ?p 1 (int (length ys)) = Inr q" "length q = length ?p" "holds q ys"
    using copy_cells_holds [OF A(5) y, of 0 "int (length ys)"] A(4) A(1,2) Cons
    by (auto dest: holds_prefix)
  have l: "alen a - 1 = int (length ys)" using A(1) Cons by simp
  have w: "is_array ((with_ptr a q)\<lparr>alen := alen a - 1\<rparr>) ys"
    using q A l by (intro is_arrayI) simp_all
  have "get_cell ?p 0 = Inr x" using get_cell_holds [OF A(5), of 0] Cons by simp
  moreover have "MEMMOVE ?p 0 ?p 1 (alen a - 1) = Inr q" using q(1) l A(7) Cons by (simp add: MEMMOVE_ok)
  moreover have "alen a \<noteq> 0" using A(1) Cons by simp
  ultimately show ?thesis
    using shrink_ok [OF assms(1) w] assms(3,4) Cons by (cases ys) (auto simp: ary_shift_def)
qed

lemma ary_unshift_ok:
  assumes "usable E" "is_array a xs" "\<not> frozen a" "length xs \<le> 400000000"
  shows "\<exists>a'. ary_unshift E a v = Inr (v, a') \<and> is_array a' (v # xs) \<and> \<not> frozen a'"
proof -
  obtain b where b: "(if alen a \<ge> capa a then set_capa E a (capa a + ARY_DEFAULT_SIZE) else Inr a) = Inr b"
    "is_array b xs" "int (length xs) < capa b" "\<not> frozen b"
    using set_capa_ok [OF assms(1,2), of "capa a + 16"] assms is_arrayD(1-3) [OF assms(2)]
    by (cases "alen a \<ge> capa a") (auto simp: ARY_DEFAULT_SIZE_def)
  note B = is_arrayD [OF b(2)]
  let ?p = "block (ptr b)"
  let ?q = "take 1 ?p @ map Some xs @ drop (1 + length xs) ?p"
  have "drop 0 ?p = ?p" by simp
  have q: "copy_cells ?p 1 ?p 0 (alen b) = Inr ?q"
  proof (cases "xs = []")
    case False
    have "1 + int (length xs) \<le> int (length ?p)" using b(3) B(1,4) by linarith
    then show ?thesis using False B(1,5) by (simp add: copy_cells_def holds_def nat_add_distrib)
  qed (use B(1) in \<open>simp add: copy_cells_def\<close>)
  have lq: "length ?q = length ?p" using b(3) B(1,4) by auto
  obtain c r where "?p = c # r" using b(3) B(1,4) by (cases ?p) auto
  then have s: "?q[0 := Some v] = map Some (v # xs) @ drop (1 + length xs) ?p" by simp
  define w where "w = ?q[0 := Some v]"
  have w: "length w = length ?p" "holds w (v # xs)"
    unfolding w_def using lq by (simp, simp only: s holds_append)
  then have "is_array ((with_ptr b (?q[0 := Some v]))\<lparr>alen := U32 (alen b + 1)\<rparr>) (v # xs)"
    unfolding w_def [symmetric] using B by (intro is_arrayI) simp_all
  moreover have "ary_unshift E a v = Inr (v, (with_ptr b (?q[0 := Some v]))\<lparr>alen := U32 (alen b + 1)\<rparr>)"
  proof -
    have "MEMMOVE ?p 1 ?p 0 (alen b) = Inr ?q" using q B(1,7) by (simp add: MEMMOVE_ok)
    moreover have "set_cell ?q 0 v = Inr (?q[0 := Some v])"
      unfolding set_cell_def arr_set_def in_block_def lq using b(3) B(1,4) by simp
    ultimately show ?thesis using assms(1,3) b(1) by (simp add: ary_unshift_def split del: if_split)
  qed
  ultimately show ?thesis using b(4) by simp
qed

lemma ary_clear_ok:
  assumes "usable E" "is_array a xs"
  shows "\<exists>a'. ary_clear E a = Inr a' \<and> is_array a' [] \<and> frozen a' = frozen a"
proof -
  have w: "is_array (a\<lparr>alen := 0\<rparr>) []" using is_arrayD [OF assms(2)] by (intro is_arrayI) simp_all
  then show ?thesis using set_capa_ok [OF assms(1) w, of 32] by (auto simp: ary_clear_def ARY_DEFAULT_SIZE_def)
qed

lemma from_end_value:
  "- 1073741824 \<le> i \<Longrightarrow> i < 1073741824 \<Longrightarrow> 0 \<le> n \<Longrightarrow> n < 1073741824 \<Longrightarrow>
     from_end n i = (if i < 0 then max 0 (n + i) else i)"
  by (simp add: from_end_def)

lemma ary_subseq_ok:
  assumes "usable E" "is_array a xs" and b: "b = from_end (alen a) beg" "0 \<le> b" "b \<le> int (length xs)"
    and "0 \<le> len" "len < 1073741824"
  shows "\<exists>a'. ary_subseq E a beg len = Inr a' \<and> is_array a' (take (nat len) (drop (nat b) xs)) \<and> \<not> frozen a'"
proof (cases "len = 0")
  case True
  then show ?thesis using ary_new2_ok [OF assms(1), of 0] by (auto simp: ary_subseq_def Let_def)
next
  case False
  note A = is_arrayD [OF assms(2)]
  let ?ys = "take (nat len) (drop (nat b) xs)"
  let ?n = "if U32 (b + len) > alen a then S32 (alen a - b) else len"
  have n: "?n = int (length ?ys)"
    using b(2,3) assms(6,7) A(1,7) by (auto simp: min_def nat_le_iff of_nat_diff)
  have ly: "length ?ys < 1073741824" using A(7) by (auto simp: min_def)
  have "holds (drop (nat b) (block (ptr a))) ?ys"
    using drop_holds [OF A(5), of "nat b"] by (metis append_take_drop_id holds_prefix)
  then obtain c p where c: "ary_new2 E (int (length ?ys)) = Inr c" "\<not> frozen c"
    "MEMMOVE (block (ptr c)) 0 (block (ptr a)) b (int (length ?ys)) = Inr p"
    "is_array ((with_ptr c p)\<lparr>alen := int (length ?ys)\<rparr>) ?ys"
    using fresh_copy [OF assms(1) _ b(2) refl ly] by blast
  have "U32 (int (length ?ys)) = int (length ?ys)" using ly by simp
  then have "ary_subseq E a beg len = Inr ((with_ptr c p)\<lparr>alen := int (length ?ys)\<rparr>)"
    using c(1,3) False assms(6) unfolding ary_subseq_def Let_def b(1) [symmetric] n by simp
  with c(2,4) show ?thesis by simp
qed

lemma memclear_out: "0 \<le> i \<Longrightarrow> int (length p) < i + int k \<Longrightarrow> k \<noteq> 0 \<Longrightarrow> memclear nil p i k = Inl OutOfBounds"
proof (induction k arbitrary: p i)
  case (Suc k)
  show ?case
  proof (cases "i < int (length p)")
    case True
    then have "k \<noteq> 0" using Suc.prems by auto
    then show ?thesis using Suc.IH [of "i + 1" "p[nat i := Some nil]"] Suc.prems True by (simp add: set_cell_in)
  qed (simp add: set_cell_out)
qed simp

lemma ary_new2_negative:
  assumes "- 1073741824 < n" "n < 0"
  shows "ary_new2 E n = Inl (Fatal ''failed to allocate memory'') \<or> ary_new2 E n = Inl OutOfBounds"
proof -
  have b: "U32 (4 * n) = 4 * n + 4294967296" "U32 n = n + 4294967296" using assms by (simp_all add: U32_neg)
  have "memclear (Qnil E) (replicate (nat ((4 * n + 4294967296) div 4)) None) 0 (nat (n + 4294967296)) = Inl OutOfBounds"
    using assms by (intro memclear_out) simp_all
  then show ?thesis using assms b by (auto simp: ary_new2_def ALLOC_N_def xmalloc_def Let_def)
qed

lemma ary_subseq_beyond:
  assumes "is_array a xs" "b = from_end (alen a) beg" "int (length xs) < b" "b < 1073741824" "0 < len" "len < 1073741824"
  shows "ary_subseq E a beg len = Inl (Fatal ''failed to allocate memory'') \<or> ary_subseq E a beg len = Inl OutOfBounds"
proof -
  note A = is_arrayD [OF assms(1)]
  have "U32 (b + len) = b + len" "S32 (alen a - b) = alen a - b" using assms(3-6) A(1,7) by simp_all
  then have "ary_subseq E a beg len = bindR (ary_new2 E (alen a - b)) (\<lambda>ary2.
      bindR (MEMMOVE (block (ptr ary2)) 0 (block (ptr a)) b (alen a - b)) (\<lambda>p.
        Inr ((with_ptr ary2 p)\<lparr>alen := U32 (alen a - b)\<rparr>)))"
    using assms(2,3,5) A(1) by (simp add: ary_subseq_def Let_def)
  moreover have "ary_new2 E (alen a - b) = Inl (Fatal ''failed to allocate memory'') \<or>
      ary_new2 E (alen a - b) = Inl OutOfBounds"
    using assms(3,4) A(1) by (intro ary_new2_negative) simp_all
  ultimately show ?thesis by auto
qed

subsection \<open>Loops over the elements\<close>

lemma read_cells_ok:
  "holds (drop (nat i) p) xs \<Longrightarrow> 0 \<le> i \<Longrightarrow> read_cells p i (length xs) = Inr xs"
proof (induction xs arbitrary: i)
  case (Cons x xs)
  note H = holds_drop_Cons [OF Cons.prems]
  show ?case using H(1) Cons.IH [OF H(2)] Cons.prems(2) by simp
qed simp

lemma read_down_ok: "holds p xs \<Longrightarrow> read_down p (length xs) = Inr (rev xs)"
proof (induction xs rule: rev_induct)
  case (snoc x xs)
  then have "get_cell p (int (length xs)) = Inr x"
    using get_cell_holds [OF snoc.prems, of "int (length xs)"] by simp
  with snoc holds_prefix [of p xs "[x]"] show ?case by simp
qed simp

text \<open>\<open>first_index P xs\<close> is the position of the first element that satisfies \<open>P\<close>.\<close>

fun first_index :: "('v \<Rightarrow> bool) \<Rightarrow> 'v list \<Rightarrow> nat option" where
  "first_index P [] = None"
| "first_index P (x # xs) = (if P x then Some 0 else map_option Suc (first_index P xs))"

lemma first_index_Some:
  "first_index P xs = Some i \<longleftrightarrow> i < length xs \<and> P (xs ! i) \<and> (\<forall>j<i. \<not> P (xs ! j))"
proof (induction xs arbitrary: i)
  case (Cons x xs)
  then show ?case by (cases i) (auto simp: less_Suc_eq_0_disj)
qed simp

lemma first_index_None: "first_index P xs = None \<longleftrightarrow> (\<forall>x\<in>set xs. \<not> P x)"
  by (induction xs) auto

lemma find_cell_ok:
  assumes "\<And>x. x \<in> set xs \<Longrightarrow> test x = Inr (P x)"
  shows "holds (drop (nat i) p) xs \<Longrightarrow> 0 \<le> i \<Longrightarrow>
    find_cell test p i (length xs) = Inr (map_option (\<lambda>n. i + int n) (first_index P xs))"
  using assms
proof (induction xs arbitrary: i)
  case (Cons x xs)
  note H = holds_drop_Cons [OF Cons.prems(1,2)]
  have "find_cell test p (i + 1) (length xs) = Inr (map_option (\<lambda>n. i + 1 + int n) (first_index P xs))"
    using Cons.IH [OF H(2)] Cons.prems by simp
  then show ?case using H(1) Cons.prems(3) [of x]
    by (cases "first_index P xs") (simp_all add: algebra_simps)
qed simp

lemma ary_includes_ok:
  assumes "is_array a xs" "\<And>x y. equal_of E x y = Inr (x = y)"
  shows "ary_includes E a v = Inr (v \<in> set xs)"
  using find_cell_ok [of xs "\<lambda>x. equal_of E x v" "\<lambda>x. x = v" 0 "block (ptr a)"] assms
    is_arrayD(5,6) [OF assms(1)] first_index_None [of "\<lambda>x. x = v" xs]
  by (auto simp: ary_includes_def)

text \<open>The elements kept by the loop of the deletions.\<close>

fun kept :: "(int \<Rightarrow> 'v \<Rightarrow> bool) \<Rightarrow> int \<Rightarrow> 'v list \<Rightarrow> 'v list" where
  "kept P i [] = []"
| "kept P i (x # xs) = (if P i x then kept P (i + 1) xs else x # kept P (i + 1) xs)"

lemma kept_filter: "kept (\<lambda>_. P) i xs = filter (\<lambda>x. \<not> P x) xs"
  by (induction xs arbitrary: i) auto

lemma kept_before: "pos < i \<Longrightarrow> kept (\<lambda>j _. j = pos) i xs = xs"
  by (induction xs arbitrary: i) auto

lemma kept_after: "i + int (length xs) \<le> pos \<Longrightarrow> kept (\<lambda>j _. j = pos) i xs = xs"
  by (induction xs arbitrary: i) auto

lemma kept_at:
  "i \<le> pos \<Longrightarrow> kept (\<lambda>j _. j = pos) i xs = take (nat (pos - i)) xs @ drop (Suc (nat (pos - i))) xs"
proof (induction xs arbitrary: i)
  case (Cons x xs)
  show ?case
  proof (cases "i = pos")
    case False
    then have "nat (pos - i) = Suc (nat (pos - (i + 1)))" using Cons.prems by simp
    with False Cons show ?thesis by simp
  qed (simp add: kept_before)
qed simp

lemma kept_length: "length (kept P i xs) \<le> length xs"
  by (induction P i xs rule: kept.induct) auto

lemma delete_loop_ok:
  "(\<And>j x. x \<in> set ys \<Longrightarrow> test j x = Inr (P j x)) \<Longrightarrow> holds p ks \<Longrightarrow> holds (drop (nat i1) p) ys \<Longrightarrow>
     int (length ks) \<le> i1 \<Longrightarrow>
     \<exists>q. delete_loop test (length ys) i1 (int (length ks)) p = Inr (q, int (length (ks @ kept P i1 ys))) \<and>
       length q = length p \<and> holds q (ks @ kept P i1 ys)"
proof (induction ys arbitrary: p ks i1)
  case (Cons y ys)
  have i0: "0 \<le> i1" using Cons.prems(4) by linarith
  note H = holds_drop_Cons [OF Cons.prems(3) i0]
  have t: "test i1 y = Inr (P i1 y)" using Cons.prems(1) by simp
  show ?case
  proof (cases "P i1 y")
    case True
    then show ?thesis using Cons.IH [OF _ Cons.prems(2) H(2)] Cons.prems(1,4) H(1) t by simp
  next
    case False
    let ?k = "length ks"
    have kl: "?k < length p" using H(3) Cons.prems(4) by linarith
    let ?q = "if i1 \<noteq> int ?k then p[?k := Some y] else p"
    have "p[?k := Some y] = p" if "i1 = int ?k" using that H(4) by (metis list_update_id nat_int)
    then have q: "?q = p[?k := Some y]" by simp
    have h: "holds ?q (ks @ [y])" unfolding q by (rule holds_snoc [OF Cons.prems(2) kl])
    have "drop (nat (i1 + 1)) ?q = drop (nat (i1 + 1)) p"
      using Cons.prems(4) by (simp add: q drop_update_cancel nat_less_iff)
    then have d: "holds (drop (nat (i1 + 1)) ?q) ys" using H(2) by simp
    have s: "(if i1 \<noteq> int ?k then set_cell p (int ?k) y else Inr p) = Inr ?q" using kl by (simp add: set_cell_in)
    obtain r where "delete_loop test (length ys) (i1 + 1) (int (length (ks @ [y]))) ?q =
        Inr (r, int (length ((ks @ [y]) @ kept P (i1 + 1) ys)))"
      "length r = length ?q" "holds r ((ks @ [y]) @ kept P (i1 + 1) ys)"
      using Cons.IH [OF _ h d] Cons.prems(1,4) by auto
    then show ?thesis using False t H(1) s by (simp add: add.commute [of 1])
  qed
qed simp

lemma compact_loop_delete:
  "compact_loop E k t p' p = delete_loop (\<lambda>_ v. Inr (v = Qnil E)) k t p' p"
proof (induction k arbitrary: t p' p)
  case (Suc k)
  have "set_cell p t v = Inr p" if "get_cell p t = Inr v" for v
    using that by (cases "in_block p t") (auto simp: get_cell_def set_cell_def split: option.splits
        intro: list_update_same_conv [THEN iffD2] dest: in_block_nat)
  moreover have "compact_loop E k = delete_loop (\<lambda>_ v. Inr (v = Qnil E)) k"
    using Suc by (intro ext)
  ultimately show ?case by (cases "get_cell p t") auto
qed simp

lemma rev_loop_ok:
  "0 \<le> i \<Longrightarrow> i \<le> j + 1 \<Longrightarrow> j < int (length p) \<Longrightarrow> (\<forall>k. nat i \<le> k \<and> int k \<le> j \<longrightarrow> p ! k \<noteq> None) \<Longrightarrow>
     \<exists>q. rev_loop p i j = Inr q \<and> length q = length p \<and>
       (\<forall>k. q ! k = (if i \<le> int k \<and> int k \<le> j then p ! nat (i + j - int k) else p ! k))"
proof (induction p i j rule: rev_loop.induct)
  case (1 p i j)
  show ?case
  proof (cases "i < j")
    case False
    then have "\<forall>k. i \<le> int k \<and> int k \<le> j \<longrightarrow> nat (i + j - int k) = k" by auto
    then show ?thesis using False by (subst rev_loop.simps) auto
  next
    case True
    have b: "nat i < length p" "nat j < length p" "nat i \<noteq> nat j" using 1(2,4) True by linarith+
    obtain x y where xy: "p ! nat i = Some x" "p ! nat j = Some y" using 1(2,5) True by force
    then have g: "get_cell p i = Inr x" "get_cell p j = Inr y"
      using 1(2,4) True by (simp_all add: get_cell_def in_block_def)
    let ?p = "p[nat i := Some y]" let ?q = "?p[nat j := Some x]"
    have s: "set_cell p i y = Inr ?p" "set_cell ?p j x = Inr ?q" using 1(2,4) True by (simp_all add: set_cell_in)
    have "\<forall>k. nat (i + 1) \<le> k \<and> int k \<le> j - 1 \<longrightarrow> ?q ! k \<noteq> None"
      using 1(2,5) by auto
    then obtain r where r: "rev_loop ?q (i + 1) (j - 1) = Inr r" "length r = length p"
      "\<forall>k. r ! k = (if i + 1 \<le> int k \<and> int k \<le> j - 1 then ?q ! nat (i + j - int k) else ?q ! k)"
      using 1(1) [OF True, of ?q] 1(2,4) True by auto
    have "r ! k = (if i \<le> int k \<and> int k \<le> j then p ! nat (i + j - int k) else p ! k)" for k
    proof (cases "int k = i \<or> int k = j")
      case True
      then show ?thesis using r(3) xy b \<open>i < j\<close> 1(2) by auto
    next
      case False
      then have "k \<noteq> nat i" "k \<noteq> nat j" using 1(2) True by linarith+
      moreover have "nat (i + j - int k) \<noteq> nat i" "nat (i + j - int k) \<noteq> nat j" if "i < int k" "int k < j"
        using that 1(2) by linarith+
      ultimately show ?thesis using r(3) False by auto
    qed
    then show ?thesis using True g s r(1,2) by (subst rev_loop.simps) simp
  qed
qed

lemma ary_reverse_ok:
  assumes "is_array a xs"
  shows "\<exists>a'. ary_reverse a = Inr a' \<and> is_array a' (rev xs) \<and> frozen a' = frozen a"
proof -
  note A = is_arrayD [OF assms]
  let ?p = "block (ptr a)"
  have n: "\<forall>k. nat 0 \<le> k \<and> int k \<le> alen a - 1 \<longrightarrow> ?p ! k \<noteq> None" using holds_nth [OF A(5)] A(1) by auto
  obtain q where q: "rev_loop ?p 0 (alen a - 1) = Inr q" "length q = length ?p"
    "\<forall>k. q ! k = (if 0 \<le> int k \<and> int k \<le> alen a - 1 then ?p ! nat (0 + (alen a - 1) - int k) else ?p ! k)"
    using rev_loop_ok [OF _ _ _ n] A(1,2,4) by fastforce
  have "take (length (rev xs)) q = map Some (rev xs)"
  proof (rule nth_equalityI)
    fix k assume "k < length (take (length (rev xs)) q)"
    then have k: "k < length xs" by simp
    then have "nat (0 + (alen a - 1) - int k) = length xs - Suc k" using A(1) by linarith
    then show "take (length (rev xs)) q ! k = map Some (rev xs) ! k"
      using k q(3) A(1) holds_nth [OF A(5), of "length xs - Suc k"] by (auto simp: rev_nth)
  qed (use q(2) A(8) in simp)
  then have "is_array (with_ptr a q) (rev xs)" using A q(2) by (intro is_arrayI) (simp_all add: holds_def)
  then show ?thesis using q(1) by (simp add: ary_reverse_def)
qed

subsection \<open>Deletion, copies, concatenation\<close>

lemma shortened_array:
  assumes "is_array a xs" "length q = length (block (ptr a))" "holds q ys"
  shows "is_array ((with_ptr a q)\<lparr>alen := int (length ys)\<rparr>) ys"
  using assms is_arrayD [OF assms(1)] by (intro is_arrayI) simp_all

text \<open>The loop of the deletions on a whole array.\<close>

lemma delete_array:
  assumes "is_array a xs" "\<And>j x. x \<in> set xs \<Longrightarrow> test j x = Inr (P j x)"
  shows "\<exists>q. delete_loop test (nat (alen a)) 0 0 (block (ptr a)) = Inr (q, int (length (kept P 0 xs))) \<and>
    length q = length (block (ptr a)) \<and> is_array ((with_ptr a q)\<lparr>alen := int (length (kept P 0 xs))\<rparr>) (kept P 0 xs)"
  using delete_loop_ok [of xs test P "block (ptr a)" "[]" 0] assms is_arrayD(5,6) [OF assms(1)]
    shortened_array [OF assms(1)] by auto

lemma ary_delete_ok:
  assumes "usable E" "is_array a xs" "\<not> frozen a" "\<And>x y. equal_of E x y = Inr (x = y)"
  shows "\<exists>a'. ary_delete E it a v = Inr (if v \<in> set xs then v else Qnil E, if v \<notin> set xs \<and> it then [v] else [], a') \<and>
    is_array a' (filter (\<lambda>x. x \<noteq> v) xs) \<and> \<not> frozen a'"
proof -
  let ?ys = "filter (\<lambda>x. x \<noteq> v) xs"
  obtain q where q: "delete_loop (\<lambda>_ x. equal_of E x v) (nat (alen a)) 0 0 (block (ptr a)) = Inr (q, int (length ?ys))"
    "is_array ((with_ptr a q)\<lparr>alen := int (length ?ys)\<rparr>) ?ys"
    using delete_array [OF assms(2), of "\<lambda>_ x. equal_of E x v" "\<lambda>_ x. x = v"] assms(4)
    by (auto simp: kept_filter)
  have "length ?ys = length xs \<longleftrightarrow> v \<notin> set xs"
    by (metis (mono_tags, lifting) filter_True length_filter_less less_irrefl)
  moreover have "is_array (with_ptr a q) ?ys" if "v \<notin> set xs"
    using that calculation q(2) is_arrayD(1) [OF assms(2)] by (simp add: is_array_def)
  ultimately show ?thesis using q assms(1,3) is_arrayD(1) [OF assms(2)]
    by (cases "v \<in> set xs") (auto simp: ary_delete_def)
qed

lemma ary_delete_at_ok:
  assumes "usable E" "is_array a xs" "\<not> frozen a" "num2int_of E at = Inr pos"
  shows "\<exists>a'. ary_delete_at E a at = Inr (if 0 \<le> pos \<and> pos < int (length xs) then xs ! nat pos else Qnil E, a') \<and>
    is_array a' (if 0 \<le> pos then take (nat pos) xs @ drop (Suc (nat pos)) xs else xs) \<and> \<not> frozen a'"
proof -
  let ?ys = "if 0 \<le> pos then take (nat pos) xs @ drop (Suc (nat pos)) xs else xs"
  have k: "kept (\<lambda>i _. i = pos) 0 xs = ?ys" using kept_at [of 0 pos xs] by (auto simp: kept_before)
  obtain q where q: "delete_loop (\<lambda>i _. Inr (i = pos)) (nat (alen a)) 0 0 (block (ptr a)) = Inr (q, int (length ?ys))"
    "is_array ((with_ptr a q)\<lparr>alen := int (length ?ys)\<rparr>) ?ys"
    using delete_array [OF assms(2), of "\<lambda>i _. Inr (i = pos)" "\<lambda>i _. i = pos"] k by auto
  have g: "(if 0 \<le> pos \<and> pos < alen a then get_cell (block (ptr a)) pos else Inr (Qnil E)) =
      Inr (if 0 \<le> pos \<and> pos < int (length xs) then xs ! nat pos else Qnil E)"
    using get_cell_holds [OF is_arrayD(5) [OF assms(2)], of pos] is_arrayD(1) [OF assms(2)] by simp
  have "ary_delete_at E a at = Inr (if 0 \<le> pos \<and> pos < int (length xs) then xs ! nat pos else Qnil E,
      (with_ptr a q)\<lparr>alen := int (length ?ys)\<rparr>)"
    unfolding ary_delete_at_def using assms(1,3,4) q(1) g by (simp split del: if_split)
  with q(2) assms(3) show ?thesis by simp
qed

lemma ary_compact_bang_ok:
  assumes "usable E" "is_array a xs" "\<not> frozen a" "(\<exists>x\<in>set xs. x \<noteq> Qnil E) \<or> malloc_ok E 0"
  shows "\<exists>a'. ary_compact_bang E a = Inr a' \<and> is_array a' (filter (\<lambda>x. x \<noteq> Qnil E) xs) \<and>
    capa a' = alen a' \<and> \<not> frozen a'"
proof -
  let ?ys = "filter (\<lambda>x. x \<noteq> Qnil E) xs"
  note A = is_arrayD [OF assms(2)]
  obtain q where q: "compact_loop E (nat (alen a)) 0 0 (block (ptr a)) = Inr (q, int (length ?ys))"
    "length q = length (block (ptr a))" "is_array ((with_ptr a q)\<lparr>alen := int (length ?ys)\<rparr>) ?ys"
    using delete_array [OF assms(2), of "\<lambda>_ v. Inr (v = Qnil E)" "\<lambda>_ x. x = Qnil E"]
    by (auto simp: kept_filter compact_loop_delete)
  have h: "holds q ?ys" using is_arrayD(5) [OF q(3)] q(2) by simp
  have n: "length ?ys < 1073741824" using A(7) length_filter_le le_less_trans by blast
  have "REALLOC_N E (ptr (with_ptr a q)) (int (length ?ys)) = Inr (take (length ?ys) q)"
    using assms(1,4) n q(2) holds_length [OF h] by (subst REALLOC_N_ok) (auto simp: filter_empty_conv)
  moreover have "holds (take (length ?ys) q) ?ys" using h by (simp add: holds_def)
  moreover have "length (take (length ?ys) q) = length ?ys" using holds_length [OF h] by simp
  ultimately show ?thesis
    using assms(1,3) q(1) n by (auto simp: ary_compact_bang_def intro!: is_arrayI)
qed

lemma ary_clone_ok:
  assumes "usable E" "is_array a xs"
  shows "\<exists>a'. ary_clone E a = Inr a' \<and> is_array a' xs \<and> frozen a' = frozen a"
proof -
  note A = is_arrayD [OF assms(2)]
  have "holds (drop (nat 0) (block (ptr a))) xs" using A(5) by simp
  from fresh_copy [OF assms(1) this _ A(1) A(7)] show ?thesis by (auto simp: ary_clone_def)
qed

lemma concat_loop_ok:
  "usable E \<Longrightarrow> is_array a xs \<Longrightarrow> \<not> frozen a \<Longrightarrow> holds (drop (nat i) q) ys \<Longrightarrow> 0 \<le> i \<Longrightarrow>
     length xs + length ys < 1073741824 - 16 \<Longrightarrow>
     \<exists>a'. concat_loop E q i (length ys) a = Inr a' \<and> is_array a' (xs @ ys) \<and> \<not> frozen a'"
proof (induction ys arbitrary: a xs i)
  case (Cons y ys)
  note H = holds_drop_Cons [OF Cons.prems(4,5)]
  obtain b where b: "ary_push E a y = Inr b" "is_array b (xs @ [y])" "\<not> frozen b"
    using ary_push_ok [OF Cons.prems(1-3), of y] Cons.prems(6) by auto
  from Cons.IH [OF Cons.prems(1) b(2,3) H(2)] Cons.prems(5,6) H(1) b(1) show ?case
    by (simp add: ary_push_def)
qed auto

lemma ary_concat_ok:
  assumes "usable E" "is_array a xs" "\<not> frozen a" "is_array b ys" "length xs + length ys < 1073741824 - 16"
  shows "\<exists>a'. ary_concat E a b = Inr a' \<and> is_array a' (xs @ ys) \<and> \<not> frozen a'"
  using concat_loop_ok [OF assms(1-3), of 0 "block (ptr b)" ys] assms(5) is_arrayD(5,6) [OF assms(4)]
  by (simp add: ary_concat_def)

lemma ary_plus_ok:
  assumes "usable E" "is_array a xs" "is_array b ys" "length xs + length ys < 1073741824"
  shows "\<exists>a'. ary_plus E a b = Inr a' \<and> is_array a' (xs @ ys) \<and> \<not> frozen a'"
proof -
  note A = is_arrayD [OF assms(2)] and B = is_arrayD [OF assms(3)]
  let ?n = "int (length xs) + int (length ys)"
  obtain c where c: "ary_new2 E ?n = Inr c" "is_array c []" "capa c = ?n" "\<not> frozen c"
    using ary_new2_ok [OF assms(1), of ?n] assms(4) by auto
  have l: "int (length (block (ptr c))) = ?n" using is_arrayD(4) [OF c(2)] c(3) by simp
  obtain p where p: "copy_cells (block (ptr c)) 0 (block (ptr a)) 0 (int (length xs)) = Inr p"
    "length p = length (block (ptr c))" "holds p xs"
    using copy_cells_holds [of "block (ptr c)" "[]" 0 "block (ptr a)" xs 0 "int (length xs)"] A(5) l by auto
  obtain q where q: "copy_cells p (int (length xs)) (block (ptr b)) 0 (int (length ys)) = Inr q"
    "length q = length p" "holds q (xs @ ys)"
    using copy_cells_holds [OF p(3), of 0 "block (ptr b)" ys "int (length xs)" "int (length ys)"] B(5) l p(2) by auto
  have "ary_plus E a b = Inr ((with_ptr c q)\<lparr>alen := ?n\<rparr>)"
    using c(1) p(1) q(1) A(1,7) B(1,7) assms(4) by (simp add: ary_plus_def MEMMOVE_ok)
  moreover have "is_array ((with_ptr c q)\<lparr>alen := ?n\<rparr>) (xs @ ys)"
    using q(2,3) p(2) l c(3) assms(4) by (intro is_arrayI) simp_all
  ultimately show ?thesis using c(4) by simp
qed

subsection \<open>Set operations\<close>

fun collect :: "('v \<Rightarrow> bool) \<Rightarrow> 'v list \<Rightarrow> 'v list \<Rightarrow> 'v list" where
  "collect P [] acc = acc"
| "collect P (x # xs) acc = collect P xs (if P x \<and> x \<notin> set acc then acc @ [x] else acc)"

lemma collect_set: "set (collect P xs acc) = set acc \<union> {x \<in> set xs. P x}"
  by (induction P xs acc rule: collect.induct) auto

lemma collect_distinct: "distinct acc \<Longrightarrow> distinct (collect P xs acc)"
  by (induction P xs acc rule: collect.induct) auto

lemma collect_length: "length (collect P xs acc) \<le> length acc + length xs"
  by (induction P xs acc rule: collect.induct) auto

lemma collect_loop_ok:
  assumes "usable E" and eq: "\<And>x y. equal_of E x y = Inr (x = y)" and w: "\<And>x. want x = Inr (P x)"
  shows "is_array a acc \<Longrightarrow> \<not> frozen a \<Longrightarrow> holds (drop (nat i) p) xs \<Longrightarrow> 0 \<le> i \<Longrightarrow>
     length acc + length xs < 1073741824 - 16 \<Longrightarrow>
     \<exists>a'. collect_loop E want p i (length xs) a = Inr a' \<and> is_array a' (collect P xs acc) \<and> \<not> frozen a'"
proof (induction xs arbitrary: a acc i)
  case (Cons x xs)
  note H = holds_drop_Cons [OF Cons.prems(3,4)]
  have inc: "ary_includes E a x = Inr (x \<in> set acc)" by (rule ary_includes_ok [OF Cons.prems(1) eq])
  show ?case
  proof (cases "P x \<and> x \<notin> set acc")
    case True
    obtain b where b: "ary_push E a x = Inr b" "is_array b (acc @ [x])" "\<not> frozen b"
      using ary_push_ok [OF assms(1) Cons.prems(1,2), of x] Cons.prems(5) by auto
    from Cons.IH [OF b(2,3) H(2)] Cons.prems(4,5) True b(1) H(1) inc show ?thesis by (simp add: w)
  next
    case False
    from Cons.IH [OF Cons.prems(1,2) H(2)] Cons.prems(4,5) False H(1) inc show ?thesis
      by (cases "P x") (simp_all add: w)
  qed
qed auto

subsection \<open>Splicing\<close>

text \<open>The list after \<^verbatim>\<open>a[b, len] = ys\<close> for a normalised start \<open>b\<close>.\<close>

definition splice_spec :: "'v \<Rightarrow> 'v list \<Rightarrow> nat \<Rightarrow> nat \<Rightarrow> 'v list \<Rightarrow> 'v list" where
  "splice_spec nil xs b len ys =
     (if length xs \<le> b then xs @ replicate (b - length xs) nil @ ys
      else take b xs @ ys @ drop (b + len) xs)"

lemma ary_replace_beyond:
  assumes "usable E" "is_array a xs" "\<not> frozen a" "is_array r ys" "0 < capa a \<or> ptr a = None \<or> malloc_ok E 0"
    and b: "from_end (alen a) beg = int b" "length xs \<le> b" "b + length ys < 1073741824"
  shows "\<exists>a'. ary_replace E a beg len r = Inr a' \<and> is_array a' (splice_spec (Qnil E) xs b l ys) \<and> \<not> frozen a'"
proof -
  note A = is_arrayD [OF assms(2)] and R = is_arrayD [OF assms(4)]
  let ?n = "int b + int (length ys)" and ?zs = "xs @ replicate (b - length xs) (Qnil E)"
  obtain c where c: "(if ?n \<ge> capa a then set_capa E a ?n else Inr a) = Inr c" "is_array c xs" "?n \<le> capa c" "\<not> frozen c"
    using set_capa_ok [OF assms(1,2), of ?n] b assms(2,3,5) by (cases "?n \<ge> capa a") auto
  note C = is_arrayD [OF c(2)]
  let ?p = "block (ptr c)"
  let ?q = "take (length xs) ?p @ replicate (b - length xs) (Some (Qnil E)) @ drop b ?p"
  have l: "b + length ys \<le> length ?p" using c(3) C(4) by linarith
  have "nat (int b - alen c) = b - length xs" using C(1) by simp
  then have q: "memclear (Qnil E) ?p (alen c) (nat (int b - alen c)) = Inr ?q"
    using C(1) l b(2) by (simp add: memclear_ok)
  have lq: "length ?q = length ?p" using l b(2) C(8) by simp
  have "?q = map Some ?zs @ drop b ?p" using C(5) by (simp add: holds_def)
  then have hq: "holds ?q ?zs" by (simp only: holds_append)
  have bz: "nat (int b) \<le> length ?zs" using b(2) by simp
  obtain q' where q': "copy_cells ?q (int b) (block (ptr r)) 0 (int (length ys)) = Inr q'" "length q' = length ?p"
    "holds q' (?zs @ ys)"
    using copy_cells_holds [OF hq _ _ _ bz refl, of 0 "block (ptr r)" ys] R(5) lq l b(2) by auto
  have n: "S32 (int b + alen r) = ?n" "U32 ?n = ?n" using R(1) b(3) by simp_all
  have "ary_replace E a beg len r = Inr ((with_ptr c q')\<lparr>alen := ?n\<rparr>)"
    unfolding ary_replace_def Let_def b(1) n
    using assms(1,3) A(1) R(1,7) b(2) c(1) q q'(1) by (simp add: MEMMOVE_ok split del: if_split)
  moreover have "is_array ((with_ptr c q')\<lparr>alen := ?n\<rparr>) (splice_spec (Qnil E) xs b l ys)"
    using C q' b(2) by (intro is_arrayI) (simp_all add: splice_spec_def of_nat_diff)
  ultimately show ?thesis using c(4) by simp
qed

lemma ary_replace_inside:
  assumes "usable E" "is_array a xs" "\<not> frozen a" "is_array r ys"
    and b: "from_end (alen a) beg = int b" "b < length xs" "length xs + length ys < 1073741824"
    and l: "(if U32 (int b + len) > alen a then S32 (alen a - int b) else len) = int l" "b + l \<le> length xs"
  shows "\<exists>a'. ary_replace E a beg len r = Inr a' \<and> is_array a' (splice_spec (Qnil E) xs b l ys) \<and> \<not> frozen a'"
proof -
  note A = is_arrayD [OF assms(2)] and R = is_arrayD [OF assms(4)]
  let ?n = "int (length xs) + int (length ys) - int l"
  obtain c where c: "(if ?n \<ge> capa a then set_capa E a ?n else Inr a) = Inr c" "is_array c xs" "?n \<le> capa c" "\<not> frozen c"
    using set_capa_ok [OF assms(1,2), of ?n] b(2,3) assms(2,3) A(1,2) by (cases "?n \<ge> capa a") auto
  note C = is_arrayD [OF c(2)]
  let ?p = "block (ptr c)" and ?zs = "take b xs @ ys @ drop (b + l) xs"
  have lp: "length xs + length ys - l \<le> length ?p" using c(3) C(4) by linarith
  have zs: "int (length ?zs) = ?n" using b(2) l(2) by (simp add: of_nat_diff)
  have n: "S32 (alen a + alen r - int l) = ?n" "U32 ?n = ?n" "U32 (int l) = int l"
    using A(1) R(1) b(3) l(2) by simp_all
  obtain q q' where q: "copy_cells ?p (int (b + length ys)) ?p (int (b + l)) (int (length xs) - int (b + l)) = Inr q"
    "length q = length ?p" "copy_cells q (int b) (block (ptr r)) 0 (int (length ys)) = Inr q'"
    "length q' = length ?p" "holds q' ?zs"
    using splice_cells [OF C(5) R(5) l(2) lp] by blast
  let ?d = "if int l \<noteq> int (length ys) then (with_ptr c q)\<lparr>alen := ?n\<rparr> else c"
  obtain w where w: "copy_cells (block (ptr ?d)) (int b) (block (ptr r)) 0 (int (length ys)) = Inr w"
    "length w = length ?p" "holds w ?zs"
  proof (cases "l = length ys")
    case True
    have "int b + int (length ys) \<le> int (length ?p)" using l(2) C(8) True by linarith
    then show ?thesis
      using that copy_cells_holds [OF C(5), of 0 "block (ptr r)" ys "int b" "int (length ys)"] R(5) b(2) True
      by (auto simp: nat_add_distrib)
  next
    case False
    then show ?thesis using that q by simp
  qed
  have move: "(if U32 (int l) \<noteq> alen r then
        bindR (MEMMOVE ?p (int b + alen r) ?p (int b + int l) (alen c - (int b + int l)))
          (\<lambda>p. Inr ((with_ptr c p)\<lparr>alen := ?n\<rparr>)) else Inr c) = Inr ?d"
    using q(1) l(2) C(1,7) R(1) n by (simp add: MEMMOVE_ok)
  have "ary_replace E a beg len r = Inr (with_ptr ?d w)"
    unfolding ary_replace_def Let_def b(1) l(1) n(1,2)
    using assms(1,3) A(1) b(2) c(1) move w(1) n R(1,7) by (simp add: MEMMOVE_ok split del: if_split)
  moreover have "is_array (with_ptr ?d w) ?zs"
    using C w q(2) zs c(2) by (intro is_arrayI) auto
  ultimately show ?thesis using c(4) b(2) by (auto simp: splice_spec_def)
qed

section \<open>Arrays as stacks and queues\<close>

text \<open>
  What users of \<^verbatim>\<open>ary_push\<close>, \<^verbatim>\<open>ary_pop\<close> and \<^verbatim>\<open>ary_shift\<close> in the interpreter rely on: a state
  that represents a list, up to some length.
\<close>

locale deque =
  fixes rep :: "'s \<Rightarrow> 'v list \<Rightarrow> bool"
    and push :: "'s \<Rightarrow> 'v \<Rightarrow> 's result"
    and pop :: "'s \<Rightarrow> ('v \<times> 's) result"
    and shift :: "'s \<Rightarrow> ('v \<times> 's) result"
    and bound :: nat
  assumes push_law: "rep s xs \<Longrightarrow> length xs < bound \<Longrightarrow> \<exists>s'. push s v = Inr s' \<and> rep s' (xs @ [v])"
    and pop_law: "rep s (xs @ [v]) \<Longrightarrow> length xs < bound \<Longrightarrow> \<exists>s'. pop s = Inr (v, s') \<and> rep s' xs"
    and shift_law: "rep s (v # xs) \<Longrightarrow> length xs < bound \<Longrightarrow> \<exists>s'. shift s = Inr (v, s') \<and> rep s' xs"
begin

primrec push_all :: "'s \<Rightarrow> 'v list \<Rightarrow> 's result" where
  "push_all s [] = Inr s"
| "push_all s (v # vs) = bindR (push s v) (\<lambda>s. push_all s vs)"

primrec take_all :: "('s \<Rightarrow> ('v \<times> 's) result) \<Rightarrow> nat \<Rightarrow> 's \<Rightarrow> ('v list \<times> 's) result" where
  "take_all f 0 s = Inr ([], s)"
| "take_all f (Suc k) s = bindR (f s) (\<lambda>(v, s). bindR (take_all f k s) (\<lambda>(vs, s). Inr (v # vs, s)))"

lemma push_all_ok:
  "rep s xs \<Longrightarrow> length xs + length ys \<le> bound \<Longrightarrow> \<exists>s'. push_all s ys = Inr s' \<and> rep s' (xs @ ys)"
proof (induction ys arbitrary: s xs)
  case (Cons y ys)
  then obtain t where "push s y = Inr t" "rep t (xs @ [y])" using push_law [of s xs y] by auto
  with Cons.IH [of t "xs @ [y]"] Cons.prems show ?case by auto
qed auto

lemma shift_all_ok:
  "rep s (xs @ ys) \<Longrightarrow> length (xs @ ys) \<le> bound \<Longrightarrow> \<exists>s'. take_all shift (length xs) s = Inr (xs, s') \<and> rep s' ys"
proof (induction xs arbitrary: s)
  case (Cons x xs)
  then obtain t where "shift s = Inr (x, t)" "rep t (xs @ ys)" using shift_law [of s x "xs @ ys"] by auto
  with Cons.IH [of t] Cons.prems show ?case by auto
qed simp

lemma pop_all_ok:
  "rep s (ys @ xs) \<Longrightarrow> length (ys @ xs) \<le> bound \<Longrightarrow> \<exists>s'. take_all pop (length xs) s = Inr (rev xs, s') \<and> rep s' ys"
proof (induction xs arbitrary: s rule: rev_induct)
  case (snoc x xs)
  then obtain t where "pop s = Inr (x, t)" "rep t (ys @ xs)" using pop_law [of s "ys @ xs" x] by auto
  with snoc.IH [of t] snoc.prems show ?case by auto
qed simp

lemma fifo:
  assumes "rep s []" "length ys \<le> bound"
  shows "\<exists>s' t. push_all s ys = Inr s' \<and> take_all shift (length ys) s' = Inr (ys, t) \<and> rep t []"
  using push_all_ok [OF assms(1), of ys] shift_all_ok [of _ ys "[]"] assms(2) by fastforce

lemma lifo:
  assumes "rep s []" "length ys \<le> bound"
  shows "\<exists>s' t. push_all s ys = Inr s' \<and> take_all pop (length ys) s' = Inr (rev ys, t) \<and> rep t []"
  using push_all_ok [OF assms(1), of ys] pop_all_ok [of _ "[]" ys] assms(2) by fastforce

end

definition live_array :: "'v ary_env \<Rightarrow> 'v rarray \<Rightarrow> 'v list \<Rightarrow> bool" where
  "live_array E a xs \<longleftrightarrow> usable E \<and> malloc_ok E 0 \<and> is_array a xs \<and> \<not> frozen a"

interpretation ary_deque: deque "live_array E" "ary_push E" "ary_pop E" "ary_shift E" 400000000 for E :: "'v ary_env"
proof
  fix s :: "'v rarray" and xs :: "'v list" and v :: 'v
  assume l: "length xs < (400000000 :: nat)"
  show "\<exists>s'. ary_push E s v = Inr s' \<and> live_array E s' (xs @ [v])" if "live_array E s xs"
    using that ary_push_ok [of E s xs v] l by (auto simp: live_array_def)
  show "\<exists>s'. ary_pop E s = Inr (v, s') \<and> live_array E s' xs" if "live_array E s (xs @ [v])"
    using that ary_pop_ok [of E s "xs @ [v]"] l by (auto simp: live_array_def)
  show "\<exists>s'. ary_shift E s = Inr (v, s') \<and> live_array E s' xs" if "live_array E s (v # xs)"
    using that ary_shift_ok [of E s "v # xs"] l by (auto simp: live_array_def)
qed

section \<open>Properties\<close>

subsection \<open>Refinement of lists\<close>

datatype 'v ary_op =
    OpStore int 'v
  | OpPush 'v
  | OpPop
  | OpShift
  | OpUnshift 'v
  | OpClear
  | OpReverse
  | OpDelete 'v
  | OpDeleteAt 'v
  | OpCompact

definition with_out :: "'v \<Rightarrow> 'v rarray result \<Rightarrow> ('v \<times> 'v rarray) result" where
  "with_out v r = bindR r (\<lambda>a. Inr (v, a))"

fun ary_do :: "'v ary_env \<Rightarrow> 'v ary_op \<Rightarrow> 'v rarray \<Rightarrow> ('v \<times> 'v rarray) result" where
  "ary_do E (OpStore i v) a = with_out v (ary_store E a i v)"
| "ary_do E (OpPush v) a = with_out v (ary_push E a v)"
| "ary_do E OpPop a = ary_pop E a"
| "ary_do E OpShift a = ary_shift E a"
| "ary_do E (OpUnshift v) a = ary_unshift E a v"
| "ary_do E OpClear a = with_out (Qnil E) (ary_clear E a)"
| "ary_do E OpReverse a = with_out (Qnil E) (ary_reverse a)"
| "ary_do E (OpDelete v) a = bindR (ary_delete E False a v) (\<lambda>(r, _, a). Inr (r, a))"
| "ary_do E (OpDeleteAt at) a = ary_delete_at E a at"
| "ary_do E OpCompact a = with_out (Qnil E) (ary_compact_bang E a)"

text \<open>The same operations on lists, with the value returned.\<close>

definition pos_of :: "'v ary_env \<Rightarrow> 'v \<Rightarrow> int" where
  "pos_of E at = (case num2int_of E at of Inr i \<Rightarrow> i | Inl _ \<Rightarrow> - 1)"

fun list_do :: "'v ary_env \<Rightarrow> 'v ary_op \<Rightarrow> 'v list \<Rightarrow> 'v \<times> 'v list" where
  "list_do E (OpStore i v) xs = (v, store_spec (Qnil E) xs (nat i) v)"
| "list_do E (OpPush v) xs = (v, xs @ [v])"
| "list_do E OpPop xs = (if xs = [] then Qnil E else last xs, butlast xs)"
| "list_do E OpShift xs = (if xs = [] then Qnil E else hd xs, tl xs)"
| "list_do E (OpUnshift v) xs = (v, v # xs)"
| "list_do E OpClear xs = (Qnil E, [])"
| "list_do E OpReverse xs = (Qnil E, rev xs)"
| "list_do E (OpDelete v) xs = (if v \<in> set xs then v else Qnil E, filter (\<lambda>x. x \<noteq> v) xs)"
| "list_do E (OpDeleteAt at) xs = (let i = pos_of E at in
     (if 0 \<le> i \<and> i < int (length xs) then xs ! nat i else Qnil E,
      if 0 \<le> i then take (nat i) xs @ drop (Suc (nat i)) xs else xs))"
| "list_do E OpCompact xs = (Qnil E, filter (\<lambda>x. x \<noteq> Qnil E) xs)"

fun ary_run :: "'v ary_env \<Rightarrow> 'v ary_op list \<Rightarrow> 'v rarray \<Rightarrow> ('v list \<times> 'v rarray) result" where
  "ary_run E [] a = Inr ([], a)"
| "ary_run E (x # ops) a = bindR (ary_do E x a) (\<lambda>(v, a). bindR (ary_run E ops a) (\<lambda>(vs, a). Inr (v # vs, a)))"

fun list_run :: "'v ary_env \<Rightarrow> 'v ary_op list \<Rightarrow> 'v list \<Rightarrow> 'v list \<times> 'v list" where
  "list_run E [] xs = ([], xs)"
| "list_run E (x # ops) xs = (let (v, ys) = list_do E x xs; (vs, zs) = list_run E ops ys in (v # vs, zs))"

text \<open>
  Operations with a nonnegative index on lists that stay below the lengths where sizes wrap. A \<^verbatim>\<open>shift\<close> of
  the last element or a \<^verbatim>\<open>compact!\<close> that leaves nothing may resize the block to size 0, so they need
  an allocator that returns a block for that size.
\<close>

fun op_fits :: "'v ary_env \<Rightarrow> 'v ary_op \<Rightarrow> 'v list \<Rightarrow> bool" where
  "op_fits E (OpStore i v) xs \<longleftrightarrow> 0 \<le> i \<and> i < 400000000"
| "op_fits E (OpDeleteAt at) xs \<longleftrightarrow> (case num2int_of E at of Inr _ \<Rightarrow> True | Inl _ \<Rightarrow> False)"
| "op_fits E OpShift xs \<longleftrightarrow> length xs \<noteq> 1 \<or> malloc_ok E 0"
| "op_fits E OpCompact xs \<longleftrightarrow> (\<exists>x\<in>set xs. x \<noteq> Qnil E) \<or> malloc_ok E 0"
| "op_fits E _ xs \<longleftrightarrow> True"

fun run_fits :: "'v ary_env \<Rightarrow> 'v ary_op list \<Rightarrow> 'v list \<Rightarrow> bool" where
  "run_fits E [] xs \<longleftrightarrow> True"
| "run_fits E (x # ops) xs \<longleftrightarrow> int (length xs) \<le> 400000000 \<and> op_fits E x xs \<and> run_fits E ops (snd (list_do E x xs))"

lemma ary_do_ok:
  assumes E: "usable E" "\<And>x y. equal_of E x y = Inr (x = y)"
    and a: "is_array a xs" "\<not> frozen a" "length xs \<le> 400000000" "op_fits E x xs"
  shows "\<exists>a'. ary_do E x a = Inr (fst (list_do E x xs), a') \<and> is_array a' (snd (list_do E x xs)) \<and> \<not> frozen a'"
proof (cases x)
  case (OpStore i v)
  then show ?thesis using ary_store_ok [OF E(1) a(1,2), of i v] a(4) by (auto simp: with_out_def)
next
  case (OpPush v)
  then show ?thesis using ary_push_ok [OF E(1) a(1,2), of v] a(3) by (auto simp: with_out_def)
next
  case OpPop
  then show ?thesis using ary_pop_ok [OF E(1) a(1,3)] a(2) by auto
next
  case OpShift
  then show ?thesis using ary_shift_ok [OF E(1) a(1,3)] a(2,4) by auto
next
  case (OpUnshift v)
  then show ?thesis using ary_unshift_ok [OF E(1) a(1-3)] by auto
next
  case OpClear
  then show ?thesis using ary_clear_ok [OF E(1) a(1)] a(2) by (auto simp: with_out_def)
next
  case OpReverse
  then show ?thesis using ary_reverse_ok [OF a(1)] a(2) by (auto simp: with_out_def)
next
  case (OpDelete v)
  then show ?thesis using ary_delete_ok [OF E(1) a(1,2) E(2), of False v] by auto
next
  case (OpDeleteAt at)
  then obtain i where "num2int_of E at = Inr i" using a(4) by (auto split: sum.splits)
  with OpDeleteAt show ?thesis using ary_delete_at_ok [OF E(1) a(1,2)] by (auto simp: pos_of_def Let_def)
next
  case OpCompact
  then show ?thesis using ary_compact_bang_ok [OF E(1) a(1,2)] a(4) by (auto simp: with_out_def)
qed

text \<open>
  C1: With an allocator that serves every positive size (what it does with size 0 is open) and
  \<^verbatim>\<open>==\<close> the identity of elements, any sequence of \<^verbatim>\<open>ary_store\<close>, \<^verbatim>\<open>push\<close>, \<^verbatim>\<open>pop\<close>, \<^verbatim>\<open>shift\<close>, \<^verbatim>\<open>unshift\<close>, \<^verbatim>\<open>clear\<close>, \<^verbatim>\<open>reverse\<close>,
  \<^verbatim>\<open>delete\<close>, \<^verbatim>\<open>delete_at\<close> and \<^verbatim>\<open>compact!\<close> on an array that is not frozen, with nonnegative indices below
  400000000 and never more than 400000000 elements, behaves like the same
  sequence on a list; only where the sequence shifts the last element away or compacts to nothing the
  allocator must return a block for size 0 as well. It returns the same values, leaves an array that holds the resulting
  list, and never reads or writes outside the block or reads an uninitialised cell, through
  every growing and shrinking of the block.
\<close>
theorem array_implements_list:
  assumes "usable E" "\<forall>x y. equal_of E x y = Inr (x = y)" "is_array a xs" "\<not> frozen a" "run_fits E ops xs"
  shows "\<exists>a'. ary_run E ops a = Inr (fst (list_run E ops xs), a') \<and> is_array a' (snd (list_run E ops xs))"
  using assms(3-)
proof (induction ops arbitrary: a xs)
  case (Cons x ops)
  obtain b where b: "ary_do E x a = Inr (fst (list_do E x xs), b)" "is_array b (snd (list_do E x xs))" "\<not> frozen b"
    using ary_do_ok [OF assms(1) _ Cons.prems(1,2), of x] assms(2) Cons.prems(3) by auto
  with Cons.IH [OF b(2,3)] Cons.prems(3) show ?case by (auto simp: case_prod_unfold Let_def)
qed auto

text \<open>An environment for examples: values are \<open>int option\<close>, with \<open>None\<close> as \<^verbatim>\<open>nil\<close>.\<close>

definition sample_env :: "int option ary_env" where
  "sample_env = \<lparr>Qnil = None, safe_level = 0, malloc_ok = (\<lambda>_. True),
     num2int_of = (\<lambda>v. case v of None \<Rightarrow> Inl (TypeError ''nil'') | Some i \<Rightarrow> Inr i),
     fixnum_of = (\<lambda>v. v), bignum_p = (\<lambda>_. False), range_ends = (\<lambda>_. Inr None),
     equal_of = (\<lambda>x y. Inr (x = y)), eql_of = (\<lambda>x y. Inr (x = y)),
     hash_of = (\<lambda>v. Inr (case v of None \<Rightarrow> 4 | Some i \<Rightarrow> i))\<rparr>"

definition sample_array :: "int option rarray" where
  "sample_array = \<lparr>alen = 3, capa = 3, ptr = Some (map Some [Some 1, Some 2, Some 3]), frozen = False\<rparr>"

lemma sample_env_ok: "usable sample_env" "\<forall>x y. equal_of sample_env x y = Inr (x = y)"
  by (simp_all add: usable_def sample_env_def)

lemma sample_array_ok: "is_array sample_array [Some 1, Some 2, Some 3]" "\<not> frozen sample_array"
  by (simp_all add: sample_array_def is_array_def holds_def)

theorem array_implements_list_witness:
  "\<exists>a'. ary_run sample_env [OpStore 5 (Some 9), OpShift, OpReverse, OpPush (Some 7), OpPop, OpDeleteAt (Some 1)] sample_array =
      Inr ([Some 9, Some 1, None, Some 7, Some 7, None], a') \<and>
    is_array a' [Some 9, None, Some 3, Some 2]"
proof -
  let ?ops = "[OpStore 5 (Some 9), OpShift, OpReverse, OpPush (Some 7), OpPop, OpDeleteAt (Some 1)]"
  have q: "Qnil sample_env = None" by (simp add: sample_env_def)
  have "list_run sample_env ?ops [Some 1, Some 2, Some 3] =
      ([Some 9, Some 1, None, Some 7, Some 7, None], [Some 9, None, Some 3, Some 2])"
    by (simp add: q store_spec_def pos_of_def sample_env_def numeral_2_eq_2)
  moreover have "run_fits sample_env ?ops [Some 1, Some 2, Some 3]"
    by (simp add: q store_spec_def pos_of_def sample_env_def numeral_2_eq_2)
  ultimately show ?thesis
    using array_implements_list [OF sample_env_ok sample_array_ok, of ?ops] by simp
qed

subsection \<open>Access\<close>

text \<open>
  C22: \<^verbatim>\<open>a[i]\<close> with a Fixnum counts from the end for a negative index and is \<^verbatim>\<open>nil\<close> outside the
  array. \<^verbatim>\<open>a[b, n]\<close> with positive \<open>n\<close> is a new array of the at most \<open>n\<close> elements from \<open>b\<close> on, where a
  negative \<open>b\<close> counts from the end and starts at 0 at least; when \<open>b\<close> is beyond the end the
  code asks for a block of negative size, so it dies in the allocator or clears memory
  outside of the block, and never returns.
\<close>
theorem ary_aref_value:
  assumes "usable E" "is_array a xs" "fixnum_of E v = Some i" "num2int_of E v = Inr i" "num2int_of E w = Inr n"
    and "- 1073741824 \<le> i" "i < 1073741824" "0 < n" "n < 1073741824"
  shows "ary_aref E [v] a = Inr (Elem (let k = (if i < 0 then int (length xs) + i else i)
           in if 0 \<le> k \<and> k < int (length xs) then xs ! nat k else Qnil E)) \<and>
    (let b = (if i < 0 then max 0 (int (length xs) + i) else i) in
      if b \<le> int (length xs)
      then \<exists>a'. ary_aref E [v, w] a = Inr (Sub a') \<and> is_array a' (take (nat n) (drop (nat b) xs))
      else ary_aref E [v, w] a \<in> {Inl (Fatal ''failed to allocate memory''), Inl OutOfBounds})"
proof -
  note A = is_arrayD [OF assms(2)]
  let ?b = "if i < 0 then max 0 (int (length xs) + i) else i"
  have b: "?b = from_end (alen a) i" using A(1,7) assms(6,7) by (subst from_end_value) auto
  have b0: "0 \<le> ?b" by simp
  have e: "ary_aref E [v] a = Inr (Elem (let k = (if i < 0 then int (length xs) + i else i)
           in if 0 \<le> k \<and> k < int (length xs) then xs ! nat k else Qnil E))"
    using assms(3) ary_entry_ok [OF assms(2,6,7), of E] by (simp add: ary_aref_def)
  have s: "ary_aref E [v, w] a = bindR (ary_subseq E a i n) (\<lambda>a. Inr (Sub a))"
    using assms(4,5,8) by (simp add: ary_aref_def)
  show ?thesis
  proof (cases "?b \<le> int (length xs)")
    case True
    obtain a' where "ary_subseq E a i n = Inr a'" "is_array a' (take (nat n) (drop (nat ?b) xs))"
      using ary_subseq_ok [OF assms(1,2) b b0 True, of n] assms(8,9) by auto
    with e s True show ?thesis by (simp add: Let_def)
  next
    case False
    then have "?b < 1073741824" using assms(7) by (auto split: if_splits)
    then have "ary_subseq E a i n = Inl (Fatal ''failed to allocate memory'') \<or> ary_subseq E a i n = Inl OutOfBounds"
      using ary_subseq_beyond [OF assms(2) b, of n E] False assms(8,9) by linarith
    with e s False show ?thesis by (auto simp: Let_def)
  qed
qed

theorem ary_aref_value_witness:
  "\<exists>a'. ary_aref sample_env [Some (- 1)] sample_array = Inr (Elem (Some 3)) \<and>
     ary_aref sample_env [Some (- 1), Some 5] sample_array = Inr (Sub a') \<and> is_array a' [Some 3]"
  using ary_aref_value [OF sample_env_ok(1) sample_array_ok(1), of "Some (- 1)" "- 1" "Some 5" 5]
  by (simp add: sample_env_def Let_def numeral_2_eq_2)

text \<open>
  C16: \<^verbatim>\<open>a[b, n] = r\<close> replaces exactly the at most \<open>n\<close> elements from \<open>b\<close> on by those of \<open>r\<close>, and pads
  with \<^verbatim>\<open>nil\<close> when \<open>b\<close> is beyond the end. A negative \<open>n\<close> raises only when \<open>b + n\<close> is not negative:
  otherwise the comparison of \<^verbatim>\<open>beg + len\<close> with the unsigned length takes it for a large
  number, and all elements from \<open>b\<close> on are replaced. \<open>r\<close> is another array than \<open>a\<close>, and an array of capacity 0 has
  no block unless the allocator returns one for size 0.
\<close>
theorem ary_replace_splices:
  assumes "usable E" "is_array a xs" "\<not> frozen a" "is_array r ys" "0 < capa a \<or> ptr a = None \<or> malloc_ok E 0"
    and "- 1073741824 \<le> i" "i < 1000000000" "- 1073741824 \<le> n" "n < 1073741824"
    and "length xs + length ys < 1000000000" "length ys < 10000000"
    and b: "b = nat (if i < 0 then max 0 (int (length xs) + i) else i)"
  shows "if b < length xs \<and> n < 0 \<and> 0 \<le> int b + n then ary_replace E a i n r = Inl (IndexError ''negative length %d'')
    else \<exists>a'. ary_replace E a i n r = Inr a' \<and>
      is_array a' (if n < 0 \<and> b < length xs then take b xs @ ys else splice_spec (Qnil E) xs b (nat n) ys)"
proof -
  note A = is_arrayD [OF assms(2)]
  have f: "from_end (alen a) i = int b" using A(1,7) assms(6,7) b by (subst from_end_value) auto
  have bb: "b < 1000000000" "b + length ys < 1073741824" using b assms(6,7,10,11) by auto
  show ?thesis
  proof (cases "b < length xs")
    case False
    then show ?thesis using ary_replace_beyond [OF assms(1-5) f _ bb(2), where l = "nat n"] by (auto simp: splice_spec_def)
  next
    case True
    let ?l = "if U32 (int b + n) > alen a then S32 (alen a - int b) else n"
    have u: "U32 (int b + n) = (if 0 \<le> int b + n then int b + n else int b + n + 4294967296)"
      using assms(8,9) bb(1) by (auto simp: U32_neg)
    have s: "S32 (alen a - int b) = int (length xs - b)" using True A(1,7) by (simp add: of_nat_diff)
    show ?thesis
    proof (cases "n < 0 \<and> 0 \<le> int b + n")
      case neg: True
      then have "?l = n" using u True A(1) by simp
      then have "ary_replace E a i n r = Inl (IndexError ''negative length %d'')"
        unfolding ary_replace_def Let_def f using neg True A(1) assms(1,3) by simp
      with neg True show ?thesis by simp
    next
      case False
      define l where "l = (if n < 0 then length xs - b else min (nat n) (length xs - b))"
      have "?l = int l" "b + l \<le> length xs"
        using False u s True A(1,7) assms(8,9) by (auto simp: l_def min_def of_nat_diff nat_le_iff)
      then obtain a' where "ary_replace E a i n r = Inr a'" "is_array a' (splice_spec (Qnil E) xs b l ys)"
        using ary_replace_inside [OF assms(1-4) f True] assms(10) by auto
      moreover have "splice_spec (Qnil E) xs b l ys =
          (if n < 0 then take b xs @ ys else splice_spec (Qnil E) xs b (nat n) ys)"
        using True by (auto simp: splice_spec_def l_def min_def)
      ultimately show ?thesis using False True by auto
    qed
  qed
qed

theorem ary_replace_splices_witness:
  "\<exists>a' a''. ary_replace sample_env sample_array 1 1 sample_array = Inr a' \<and>
      is_array a' [Some 1, Some 1, Some 2, Some 3, Some 3] \<and>
    ary_replace sample_env sample_array 1 (- 2) sample_array = Inr a'' \<and>
      is_array a'' [Some 1, Some 1, Some 2, Some 3]"
  using ary_replace_splices [OF sample_env_ok(1) sample_array_ok sample_array_ok(1), of 1 1 1]
    ary_replace_splices [OF sample_env_ok(1) sample_array_ok sample_array_ok(1), of 1 "- 2" 1]
  by (simp add: splice_spec_def numeral_2_eq_2 sample_env_def)

text \<open>
  \<^verbatim>\<open>a[i] = v\<close> for a Fixnum index of at least \<open>2 ^ 30 - 16\<close> multiplies the new capacity to a
  size that does not fit 32 bits: the block shrinks below 16 cells and the store writes
  outside of it. Every smaller index is stored, with \<^verbatim>\<open>nil\<close> in the gap.
\<close>
theorem ary_store_index_bound:
  assumes "usable E" "is_array a xs" "\<not> frozen a" "length xs \<le> 1000000000" "capa a \<le> 1000000000" "0 \<le> i" "i < 1073741824"
  shows "if i < 1073741824 - 16
    then \<exists>a'. ary_store E a i v = Inr a' \<and> is_array a' (store_spec (Qnil E) xs (nat i) v)
    else ary_store E a i v = Inl OutOfBounds"
proof (cases "i < 1073741824 - 16")
  case True
  then show ?thesis using ary_store_ok [OF assms(1-3,6), of v] by auto
next
  case False
  let ?n = "nat (i + 16 - 1073741824)" and ?p = "block (ptr a)"
  let ?q = "take ?n ?p @ replicate (?n - length ?p) None"
  have u: "U32 (4 * (i + 16)) = 4 * (i + 16 - 1073741824)"
    using mod_once [of 4294967296 "4 * (i + 16)"] False assms(7) by (simp add: U32_def)
  then have "xrealloc (malloc_ok E) 4 (ptr a) (4 * (i + 16 - 1073741824)) \<in> {Inr ?q, Inl OutOfBounds}"
    using assms(1) False by (cases "ptr a") (auto simp: xrealloc_def xmalloc_def usable_def Let_def)
  then have c: "set_capa E a (i + ARY_DEFAULT_SIZE) \<in> {Inr (a\<lparr>capa := i + 16, ptr := Some ?q\<rparr>), Inl OutOfBounds}"
    using u assms(7) False by (auto simp: set_capa_def REALLOC_N_def ARY_DEFAULT_SIZE_def)
  have l: "length ?q = ?n" "?n < 16" using assms(7) by simp_all
  have "memclear (Qnil E) ?q (alen a) (nat (i - alen a + 1)) = Inl OutOfBounds"
    using is_arrayD(1) [OF assms(2)] assms(4) False l by (intro memclear_out) simp_all
  then show ?thesis using False c assms is_arrayD(1) [OF assms(2)]
    by (auto simp: ary_store_def)
qed

theorem ary_store_index_bound_witness:
  "ary_store sample_env sample_array 1073741810 None = Inl OutOfBounds"
  using ary_store_index_bound [OF sample_env_ok(1) sample_array_ok, of 1073741810 None]
  by (simp add: sample_array_def)

subsection \<open>Frozen arrays\<close>

text \<open>
  On a frozen array storing, pushing, \<^verbatim>\<open>unshift\<close>, splicing, \<^verbatim>\<open>delete\<close>, \<^verbatim>\<open>delete_at\<close> and
  \<^verbatim>\<open>compact!\<close> raise a \<^verbatim>\<open>TypeError\<close>. \<^verbatim>\<open>pop\<close>, \<^verbatim>\<open>shift\<close> and \<^verbatim>\<open>clear\<close> do not look at the flag: they change
  the frozen array as if it were not frozen.
\<close>
theorem frozen_array:
  assumes "usable E" "is_array a xs" "frozen a" "length xs \<le> 400000000" "length xs \<noteq> 1 \<or> malloc_ok E 0"
  shows "(\<forall>r \<in> {ary_store E a i v, ary_push E a v, ary_replace E a b n c, ary_compact_bang E a}.
      r = Inl (TypeError ''can't modify frozen array'')) \<and>
    ary_unshift E a v = Inl (TypeError ''can't modify frozen array'') \<and>
    ary_delete E it a v = Inl (TypeError ''can't modify frozen array'') \<and>
    ary_delete_at E a v = Inl (TypeError ''can't modify frozen array'') \<and>
    (\<exists>a1 a2 a3. ary_pop E a = Inr (if xs = [] then Qnil E else last xs, a1) \<and> is_array a1 (butlast xs) \<and>
      ary_shift E a = Inr (if xs = [] then Qnil E else hd xs, a2) \<and> is_array a2 (tl xs) \<and>
      ary_clear E a = Inr a3 \<and> is_array a3 [] \<and> frozen a1 \<and> frozen a2 \<and> frozen a3)"
proof -
  have m: "ary_modify E a = Inl (TypeError ''can't modify frozen array'')"
    using assms(1,3) by (simp add: ary_modify_def usable_def)
  show ?thesis
    using m ary_pop_ok [OF assms(1,2,4)] ary_shift_ok [OF assms(1,2,4,5)] ary_clear_ok [OF assms(1,2)] assms(3)
    by (auto simp: ary_store_def ary_push_def ary_replace_def ary_compact_bang_def ary_unshift_def ary_delete_def
        ary_delete_at_def)
qed

theorem frozen_array_witness:
  "\<exists>a'. ary_push sample_env (ary_freeze sample_array) None = Inl (TypeError ''can't modify frozen array'') \<and>
     ary_pop sample_env (ary_freeze sample_array) = Inr (Some 3, a') \<and> is_array a' [Some 1, Some 2]"
proof -
  have f: "is_array (ary_freeze sample_array) [Some 1, Some 2, Some 3]" "frozen (ary_freeze sample_array)"
    using sample_array_ok(1) by (simp_all add: ary_freeze_def is_array_def)
  have l: "length [Some 1, Some 2, Some (3::int)] \<le> 400000000"
    "length [Some 1, Some 2, Some (3::int)] \<noteq> 1 \<or> malloc_ok sample_env 0" by simp_all
  note F = frozen_array [OF sample_env_ok(1) f l, where i = 0 and v = None and b = 0 and n = 0 and c = sample_array and it = False]
  have "ary_push sample_env (ary_freeze sample_array) None = Inl (TypeError ''can't modify frozen array'')"
    using F by blast
  moreover obtain a' where "ary_pop sample_env (ary_freeze sample_array) = Inr (Some 3, a')" "is_array a' [Some 1, Some 2]"
    using F by auto
  ultimately show ?thesis by blast
qed

subsection \<open>Set operations\<close>

text \<open>
  C23: \<^verbatim>\<open>-\<close>, \<^verbatim>\<open>&\<close> and \<^verbatim>\<open>|\<close> of arrays return new arrays without duplicates whose elements are those of
  the difference, the intersection and the union; their order is that of the first
  occurrences.
\<close>
theorem ary_set_operations:
  assumes "usable E" "\<forall>x y. equal_of E x y = Inr (x = y)" "is_array a xs" "is_array b ys"
    and "length xs + length ys < 1073741808"
  shows "let zd = collect (\<lambda>x. x \<notin> set ys) xs []; zi = collect (\<lambda>x. x \<in> set ys) xs [];
      zu = collect (\<lambda>_. True) (xs @ ys) [] in
    \<exists>d i u. ary_diff E a b = Inr d \<and> is_array d zd \<and> set zd = set xs - set ys \<and> distinct zd \<and>
      ary_and E a b = Inr i \<and> is_array i zi \<and> set zi = set xs \<inter> set ys \<and> distinct zi \<and>
      ary_or E to_a a (Inr b) = Inr u \<and> is_array u zu \<and> set zu = set xs \<union> set ys \<and> distinct zu"
proof -
  have eq: "equal_of E x y = Inr (x = y)" for x y using assms(2) by simp
  note A = is_arrayD(5,6) [OF assms(3)] and B = is_arrayD(5,6) [OF assms(4)]
  have inc: "ary_includes E b x = Inr (x \<in> set ys)" for x by (rule ary_includes_ok [OF assms(4) eq])
  obtain n where n: "ary_new E = Inr n" "is_array n []" "\<not> frozen n"
    using ary_new2_ok [OF assms(1), of 16] by (auto simp: ary_new_def ARY_DEFAULT_SIZE_def)
  have l: "length ([]::'a list) + length xs < 1073741824 - 16" using assms(5) by simp
  note loop = collect_loop_ok [OF assms(1) eq _ n(2,3), of _ _ 0 "block (ptr a)" xs, OF _ _ _ l]
  obtain d where d: "ary_diff E a b = Inr d" "is_array d (collect (\<lambda>x. x \<notin> set ys) xs [])"
    using loop [of "\<lambda>x. Inr (x \<notin> set ys)" "\<lambda>x. x \<notin> set ys"] n(1) A inc by (auto simp: ary_diff_def)
  obtain i where i: "ary_and E a b = Inr i" "is_array i (collect (\<lambda>x. x \<in> set ys) xs [])"
    using loop [of "ary_includes E b" "\<lambda>x. x \<in> set ys"] n(1) A inc by (auto simp: ary_and_def)
  obtain u where u: "collect_loop E (\<lambda>_. Inr True) (block (ptr a)) 0 (length xs) n = Inr u"
    "is_array u (collect (\<lambda>_. True) xs [])" "\<not> frozen u"
    using loop [of "\<lambda>_. Inr True" "\<lambda>_. True"] A by auto
  have "length (collect (\<lambda>_. True) xs []) + length ys < 1073741824 - 16"
    using collect_length [of "\<lambda>_. True" xs "[]"] assms(5) by simp
  then obtain w where w: "ary_or E to_a a (Inr b) = Inr w" "is_array w (collect (\<lambda>_. True) ys (collect (\<lambda>_. True) xs []))"
    using collect_loop_ok [OF assms(1) eq _ u(2,3), of "\<lambda>_. Inr True" "\<lambda>_. True" 0 "block (ptr b)" ys] B A u(1) n(1)
    by (auto simp: ary_or_def)
  have app: "collect (\<lambda>_. True) ys (collect (\<lambda>_. True) xs acc) = collect (\<lambda>_. True) (xs @ ys) acc" for acc
    by (induction xs arbitrary: acc) auto
  show ?thesis using d i w unfolding app Let_def by (auto simp: collect_set collect_distinct)
qed

theorem ary_set_operations_witness:
  "\<exists>d. ary_diff sample_env sample_array sample_array = Inr d \<and> is_array d []"
  using ary_set_operations [OF sample_env_ok sample_array_ok(1) sample_array_ok(1)]
  by (auto simp: Let_def)

text \<open>
  The comparison of two Fixnums in \<^verbatim>\<open>sort_2\<close> has the sign of their difference only as long as the
  difference of the tagged words does not overflow.
\<close>

lemma sort_2_sign:
  assumes "fixnum_of E a = Some x" "fixnum_of E b = Some y"
    and "- 1073741824 \<le> x" "x < 1073741824" "- 1073741824 \<le> y" "y < 1073741824"
  shows "\<exists>c. sort_2 E other a b = Inr c \<and>
    (if - 1073741824 \<le> x - y \<and> x - y < 1073741824 then sgn c = sgn (x - y)
     else x - y = - 2147483647 - 1 \<or> sgn c = - sgn (x - y) \<or> c = 0)"
proof -
  let ?d = "(2 * x + 1) - (2 * y + 1)"
  have c: "sort_2 E other a b = Inr (S32 ?d)" using assms by (simp add: sort_2_def)
  show ?thesis
  proof (cases "- 1073741824 \<le> x - y \<and> x - y < 1073741824")
    case True
    then have "S32 ?d = 2 * (x - y)" by simp
    then show ?thesis using c True by (auto simp: sgn_if)
  next
    case False
    show ?thesis
    proof (cases "x > y")
      case True
      then have "S32 ?d = ?d - 4294967296"
        using False assms(3-6) mod_once [of 4294967296 "?d + 2147483648"] by (simp add: S32_def)
      then show ?thesis using c False True assms(3-6) by (auto simp: sgn_if)
    next
      case le: False
      then have "S32 ?d = ?d + 4294967296"
        using False assms(3-6) mod_pos_pos_trivial [of "?d + 2147483648 + 4294967296" 4294967296]
          mod_add_self2 [of "?d + 2147483648" 4294967296] by (simp add: S32_def)
      then show ?thesis using c False le assms(3-6) by (auto simp: sgn_if)
    qed
  qed
qed

end
