(* ===== verification/RString.thy ===== *)
theory RString
  imports Memory
begin

text \<open>
  Strings, \<^verbatim>\<open>src/string.c\<close>: a block of bytes with a length, a terminating zero byte after the
  contents, and the flags for sharing, freezing and tainting. The character classes are those
  of the C locale. Operations that only read their argument and fill a new string are given on
  the contents; operations on the block, where the code can leave it, are given on cells.
\<close>

section \<open>The structure\<close>

record rstring =
  slen :: int
  sptr :: "u8 cells"
  sorig :: bool
  sfrozen :: bool
  stainted :: bool

text \<open>The safe level, what the allocator serves, and the global \<^verbatim>\<open>ignorecase\<close> (\<^verbatim>\<open>$=\<close>).\<close>

record str_env =
  s_safe_level :: int
  s_malloc_ok :: "int \<Rightarrow> bool"
  ignorecase :: bool

definition alloc_chars :: "str_env \<Rightarrow> int \<Rightarrow> u8 cells result" where
  "alloc_chars E n = xmalloc (s_malloc_ok E) 1 (U32 n)"

definition realloc_chars :: "str_env \<Rightarrow> u8 cells \<Rightarrow> int \<Rightarrow> u8 cells result" where
  "realloc_chars E p n = xrealloc (s_malloc_ok E) 1 (Some p) (U32 n)"

text \<open>
  \<open>str_new\<close> copies \<open>len\<close> bytes from index \<open>i\<close> of a block, when there is one; the length is a
  \<^verbatim>\<open>UINT\<close>.
\<close>

definition str_new :: "str_env \<Rightarrow> (u8 cells \<times> int) option \<Rightarrow> int \<Rightarrow> rstring result" where
  "str_new E src len =
     bindR (alloc_chars E (U32 len + 1)) (\<lambda>p.
     bindR (case src of None \<Rightarrow> Inr p | Some (q, i) \<Rightarrow> copy_cells p 0 q i (U32 len)) (\<lambda>p.
     bindR (set_cell p (U32 len) 0) (\<lambda>p.
       Inr \<lparr>slen = U32 len, sptr = p, sorig = False, sfrozen = False, stainted = s_safe_level E \<ge> 3\<rparr>)))"

definition str_new3 :: "str_env \<Rightarrow> rstring \<Rightarrow> rstring" where
  "str_new3 E str =
     \<lparr>slen = slen str, sptr = sptr str, sorig = True, sfrozen = False, stainted = s_safe_level E \<ge> 3\<rparr>"

text \<open>
  \<open>str_new4\<close> returns the new string and the old one: the new string owns the block when the old
  one did not share before.
\<close>

definition str_new4 :: "str_env \<Rightarrow> rstring \<Rightarrow> rstring \<times> rstring" where
  "str_new4 E orig =
     (\<lparr>slen = slen orig, sptr = sptr orig, sorig = sorig orig, sfrozen = False, stainted = s_safe_level E \<ge> 3\<rparr>,
      orig\<lparr>sorig := True\<rparr>)"

definition str_taint :: "rstring \<Rightarrow> rstring" where
  "str_taint str = str\<lparr>stainted := True\<rparr>"

definition str_tainted :: "rstring \<Rightarrow> bool" where
  "str_tainted str = stainted str"

definition str_dup :: "str_env \<Rightarrow> rstring \<Rightarrow> rstring result" where
  "str_dup E str =
     bindR (str_new E (Some (sptr str, 0)) (slen str)) (\<lambda>s.
       Inr (if str_tainted str then str_taint s else s))"

text \<open>\<open>orig\<close> is the string whose block is shared, when there is one; \<^verbatim>\<open>CLONESETUP\<close> copies the flags.\<close>

definition str_clone :: "str_env \<Rightarrow> rstring option \<Rightarrow> rstring \<Rightarrow> rstring result" where
  "str_clone E orig str =
     bindR (case orig of Some o' \<Rightarrow> Inr (str_new3 E o')
            | None \<Rightarrow> str_new E (Some (sptr str, 0)) (slen str)) (\<lambda>s.
       Inr (s\<lparr>sfrozen := sfrozen str, stainted := stainted str\<rparr>))"

definition str_freeze :: "rstring \<Rightarrow> rstring" where
  "str_freeze str = str\<lparr>sfrozen := True\<rparr>"

definition str_frozen_p :: "rstring \<Rightarrow> bool" where
  "str_frozen_p str = sfrozen str"

definition str_dup_freezed :: "str_env \<Rightarrow> rstring \<Rightarrow> rstring result" where
  "str_dup_freezed E str = bindR (str_dup E str) (\<lambda>s. Inr (str_freeze s))"

definition str_modify :: "str_env \<Rightarrow> rstring \<Rightarrow> rstring result" where
  "str_modify E str =
     (if s_safe_level E \<ge> 5 then Inl (SecurityError ''cannot change string status'')
      else if sfrozen str then Inl (TypeError ''can't modify frozen string'')
      else if \<not> sorig str then Inr str
      else bindR (alloc_chars E (slen str + 1)) (\<lambda>p.
           bindR (copy_cells p 0 (sptr str) 0 (slen str)) (\<lambda>p.
           bindR (set_cell p (slen str) 0) (\<lambda>p. Inr (str\<lparr>sptr := p, sorig := False\<rparr>)))))"

section \<open>Building strings\<close>

definition str_plus :: "str_env \<Rightarrow> rstring \<Rightarrow> rstring \<Rightarrow> rstring result" where
  "str_plus E str1 str2 =
     bindR (str_new E None (slen str1 + slen str2)) (\<lambda>str3.
     bindR (copy_cells (sptr str3) 0 (sptr str1) 0 (slen str1)) (\<lambda>p.
     bindR (copy_cells p (slen str1) (sptr str2) 0 (slen str2)) (\<lambda>p.
     bindR (set_cell p (slen str3) 0) (\<lambda>p.
       let s = str3\<lparr>sptr := p\<rparr> in
       Inr (if str_tainted str1 \<or> str_tainted str2 then str_taint s else s)))))"

primrec str_times_loop :: "rstring \<Rightarrow> nat \<Rightarrow> int \<Rightarrow> u8 cells \<Rightarrow> u8 cells result" where
  "str_times_loop str 0 i p = Inr p"
| "str_times_loop str (Suc k) i p =
     bindR (copy_cells p (U32 (i * slen str)) (sptr str) 0 (slen str)) (\<lambda>p. str_times_loop str k (i + 1) p)"

definition str_times :: "str_env \<Rightarrow> rstring \<Rightarrow> int \<Rightarrow> rstring result" where
  "str_times E str len =
     (if len < 0 then Inl (ArgError ''negative argument'')
      else bindR (str_new E None (U32 (slen str * len))) (\<lambda>str2.
           bindR (str_times_loop str (nat len) 0 (sptr str2)) (\<lambda>p.
           bindR (set_cell p (slen str2) 0) (\<lambda>p.
             let s = str2\<lparr>sptr := p\<rparr> in Inr (if str_tainted str then str_taint s else s)))))"

text \<open>A negative start that lies before the string is a large unsigned number in the comparison.\<close>

definition str_substr :: "str_env \<Rightarrow> rstring \<Rightarrow> int \<Rightarrow> int \<Rightarrow> rstring result" where
  "str_substr E str start len =
     (let start = (if start < 0 then S32 (slen str + start) else start) in
      if slen str \<le> U32 start \<or> len < 0 then str_new E None 0
      else let len = (if slen str < U32 (start + len) then S32 (slen str - start) else len)
           in str_new E (Some (sptr str, start)) len)"

definition str_subseq :: "str_env \<Rightarrow> rstring \<Rightarrow> int \<Rightarrow> int \<Rightarrow> rstring result" where
  "str_subseq E str beg end' =
     (if (beg > 0 \<and> end' > 0 \<or> beg < 0 \<and> end' < 0) \<and> beg > end'
      then Inl (IndexError ''end smaller than beg [%d..%d]'')
      else let beg = (if beg < 0 then max 0 (S32 (slen str + beg)) else beg);
               end' = (if end' < 0
                       then let e = S32 (slen str + end')
                            in if e < 0 then - 1 else if slen str < e then slen str else e
                       else end')
           in if beg \<ge> slen str then str_new E None 0
              else let len = S32 (end' - beg + 1)
                   in str_substr E str beg (if len < 0 then 0 else len))"

definition str_resize :: "str_env \<Rightarrow> rstring \<Rightarrow> int \<Rightarrow> rstring result" where
  "str_resize E str len =
     bindR (str_modify E str) (\<lambda>str.
       if len \<ge> 0 then
         bindR (if slen str < len \<or> U32 (slen str - len) > 1024 then realloc_chars E (sptr str) (len + 1)
                else Inr (sptr str)) (\<lambda>p.
         bindR (set_cell p len 0) (\<lambda>p. Inr (str\<lparr>slen := len, sptr := p\<rparr>)))
       else Inr str)"

definition str_cat :: "str_env \<Rightarrow> rstring \<Rightarrow> (u8 cells \<times> int) option \<Rightarrow> int \<Rightarrow> rstring result" where
  "str_cat E str src len =
     (if len > 0 then
        bindR (str_modify E str) (\<lambda>str.
        bindR (realloc_chars E (sptr str) (slen str + len + 1)) (\<lambda>p.
        bindR (case src of None \<Rightarrow> Inr p | Some (q, i) \<Rightarrow> copy_cells p (slen str) q i len) (\<lambda>p.
        bindR (set_cell p (U32 (slen str + len)) 0) (\<lambda>p.
          Inr (str\<lparr>slen := U32 (slen str + len), sptr := p\<rparr>)))))
      else Inr str)"

text \<open>
  \<^verbatim>\<open>str_concat\<close> on two different strings. (The code evaluates \<^verbatim>\<open>str2->ptr\<close> before \<^verbatim>\<open>str_cat\<close> reallocates the block of
  \<^verbatim>\<open>str1\<close>, so \<^verbatim>\<open>s << s\<close> may copy from memory that was freed; strings as values do not show that.)
\<close>

definition str_concat :: "str_env \<Rightarrow> rstring \<Rightarrow> rstring \<Rightarrow> rstring result" where
  "str_concat E str1 str2 = str_cat E str1 (Some (sptr str2, 0)) (slen str2)"

text \<open>\<^verbatim>\<open>str_replace\<close> puts \<open>val\<close> in place of \<open>len\<close> bytes from \<open>beg\<close> on.\<close>

definition str_replace :: "str_env \<Rightarrow> rstring \<Rightarrow> int \<Rightarrow> int \<Rightarrow> rstring \<Rightarrow> rstring result" where
  "str_replace E str beg len val =
     bindR (if U32 len < slen val then realloc_chars E (sptr str) (slen str + slen val - len + 1)
            else Inr (sptr str)) (\<lambda>p.
     bindR (if U32 len \<noteq> slen val
            then copy_cells p (beg + slen val) p (beg + len) (U32 (slen str - (beg + len)))
            else Inr p) (\<lambda>p.
     bindR (copy_cells p beg (sptr val) 0 (slen val)) (\<lambda>p.
       let n = U32 (slen str + slen val - len)
       in bindR (set_cell p n 0) (\<lambda>p. Inr (str\<lparr>slen := n, sptr := p\<rparr>)))))"

definition str_replace2 :: "str_env \<Rightarrow> rstring \<Rightarrow> int \<Rightarrow> int \<Rightarrow> rstring \<Rightarrow> rstring result" where
  "str_replace2 E str beg end' val =
     (if (beg > 0 \<and> end' > 0 \<or> beg < 0 \<and> end' < 0) \<and> beg > end'
      then Inl (IndexError ''end smaller than beg [%d..%d]'')
      else let beg = (if beg < 0 then max 0 (S32 (slen str + beg)) else beg);
               beg = (if slen str \<le> beg then slen str else beg);
               end' = (if end' < 0 then max 0 (S32 (slen str + end')) else end');
               end' = (if slen str \<le> end' then S32 (slen str - 1) else end');
               len = S32 (end' - beg + 1)
           in str_replace E str beg (if len < 0 then 0 else len) val)"

definition str_aset_substr :: "str_env \<Rightarrow> rstring \<Rightarrow> int \<Rightarrow> int \<Rightarrow> rstring \<Rightarrow> rstring result" where
  "str_aset_substr E str beg len val =
     bindR (str_modify E str) (\<lambda>str.
       let beg = (if beg < 0 then max 0 (S32 (slen str + beg)) else beg) in
       if len < 0 then Inl (IndexError ''negative length %d'')
       else str_replace E str beg (if U32 (beg + len) > slen str then S32 (slen str - beg) else len) val)"

section \<open>Comparison and search\<close>

text \<open>\<^verbatim>\<open>memcmp\<close> on \<open>n\<close> bytes of two blocks.\<close>

primrec mem_compare :: "u8 cells \<Rightarrow> int \<Rightarrow> u8 cells \<Rightarrow> int \<Rightarrow> nat \<Rightarrow> int result" where
  "mem_compare p i q j 0 = Inr 0"
| "mem_compare p i q j (Suc n) =
     bindR (get_cell p i) (\<lambda>x. bindR (get_cell q j) (\<lambda>y.
       if x = y then mem_compare p (i + 1) q (j + 1) n else Inr (uint x - uint y)))"

text \<open>
  \<open>casetable\<close> of \<^verbatim>\<open>src/re.c\<close> maps capital letters to small ones. \<^verbatim>\<open>str_cicmp\<close> indexes it with a
  signed character converted to \<^verbatim>\<open>unsigned\<close>, which is outside of the table for bytes from 128 on.
\<close>

definition casetable :: "u8 \<Rightarrow> u8" where
  "casetable c = (if 65 \<le> uint c \<and> uint c \<le> 90 then c + 32 else c)"

definition casetable_at :: "u8 \<Rightarrow> u8 result" where
  "casetable_at c = (if U32 (sint c) < 256 then Inr (casetable c) else Inl OutOfBounds)"

primrec cicmp_loop :: "u8 cells \<Rightarrow> u8 cells \<Rightarrow> int \<Rightarrow> nat \<Rightarrow> int option result" where
  "cicmp_loop p q i 0 = Inr None"
| "cicmp_loop p q i (Suc n) =
     bindR (get_cell p i) (\<lambda>x. bindR (get_cell q i) (\<lambda>y.
     bindR (casetable_at x) (\<lambda>cx. bindR (casetable_at y) (\<lambda>cy.
       if cx \<noteq> cy then Inr (Some (sint cx - sint cy))
       else cicmp_loop p q (i + 1) n))))"

definition str_cicmp :: "rstring \<Rightarrow> rstring \<Rightarrow> int result" where
  "str_cicmp str1 str2 =
     bindR (cicmp_loop (sptr str1) (sptr str2) 0 (nat (min (slen str1) (slen str2)))) (\<lambda>r.
       Inr (case r of Some d \<Rightarrow> d | None \<Rightarrow> S32 (slen str1 - slen str2)))"

definition str_cmp :: "str_env \<Rightarrow> rstring \<Rightarrow> rstring \<Rightarrow> int result" where
  "str_cmp E str1 str2 =
     (if ignorecase E then str_cicmp str1 str2
      else let len = min (slen str1) (slen str2) in
        bindR (mem_compare (sptr str1) 0 (sptr str2) 0 (nat len)) (\<lambda>r.
          if r = 0 then
            bindR (get_cell (sptr str1) len) (\<lambda>x. bindR (get_cell (sptr str2) len) (\<lambda>y. Inr (uint x - uint y)))
          else Inr r))"

definition str_equal :: "str_env \<Rightarrow> rstring \<Rightarrow> rstring option \<Rightarrow> bool result" where
  "str_equal E str1 arg =
     (case arg of
        None \<Rightarrow> Inr False
      | Some str2 \<Rightarrow>
          if slen str1 = slen str2 then bindR (str_cmp E str1 str2) (\<lambda>c. Inr (c = 0)) else Inr False)"

primrec str_hash_loop :: "(u8 \<Rightarrow> u8) \<Rightarrow> u8 cells \<Rightarrow> int \<Rightarrow> nat \<Rightarrow> u32 \<Rightarrow> u32 result" where
  "str_hash_loop up p i 0 key = Inr key"
| "str_hash_loop up p i (Suc n) key =
     bindR (get_cell p i) (\<lambda>c. str_hash_loop up p (i + 1) n (key * 65599 + ucast (up c)))"

definition c_toupper :: "u8 \<Rightarrow> u8" where
  "c_toupper c = (if 97 \<le> uint c \<and> uint c \<le> 122 then c - 32 else c)"

definition str_hash :: "str_env \<Rightarrow> rstring \<Rightarrow> u32 result" where
  "str_hash E str =
     str_hash_loop (if ignorecase E then c_toupper else id) (sptr str) 0 (nat (slen str)) 0"

text \<open>
  The loop of \<^verbatim>\<open>str_index\<close> over the positions from \<open>s\<close> on; \<open>k\<close> positions are left.
\<close>

primrec index_loop :: "u8 cells \<Rightarrow> u8 cells \<Rightarrow> int \<Rightarrow> int \<Rightarrow> nat \<Rightarrow> int result" where
  "index_loop p q len s 0 = Inr (- 1)"
| "index_loop p q len s (Suc k) =
     bindR (get_cell p s) (\<lambda>x. bindR (get_cell q 0) (\<lambda>y.
     bindR (if x = y then mem_compare p s q 0 (nat len) else Inr 1) (\<lambda>c.
       if c = 0 then Inr s else index_loop p q len (s + 1) k)))"

definition str_index :: "rstring \<Rightarrow> rstring \<Rightarrow> int \<Rightarrow> int result" where
  "str_index str sub offset =
     (if U32 (slen str - offset) < slen sub then Inr (- 1)
      else index_loop (sptr str) (sptr sub) (slen sub) offset (nat (slen str - slen sub + 1)))"

primrec rindex_loop :: "u8 cells \<Rightarrow> u8 cells \<Rightarrow> int \<Rightarrow> nat \<Rightarrow> int option result" where
  "rindex_loop p q len 0 = Inr None"
| "rindex_loop p q len (Suc s) =
     bindR (get_cell p (int s)) (\<lambda>x. bindR (get_cell q 0) (\<lambda>y.
     bindR (if x = y then mem_compare p (int s) q 0 (nat len) else Inr 1) (\<lambda>c.
       if c = 0 then Inr (Some (int s)) else rindex_loop p q len s)))"

text \<open>\<^verbatim>\<open>str_rindex\<close> with an optional start; the pointer \<open>s\<close> starts at \<open>pos - sub->len\<close>.\<close>

definition str_rindex :: "rstring \<Rightarrow> rstring \<Rightarrow> int option \<Rightarrow> int option result" where
  "str_rindex str sub initpos =
     (let pos = (case initpos of
                   None \<Rightarrow> S32 (slen str)
                 | Some pos \<Rightarrow> if U32 pos \<ge> slen str then S32 (slen str) else pos)
      in if U32 pos > slen str then Inr None
         else rindex_loop (sptr str) (sptr sub) (slen sub) (nat (pos - slen sub + 1)))"

section \<open>Strings hold bytes\<close>

text \<open>
  \<open>is_string s bs\<close>: the string is well formed and its contents are \<open>bs\<close>; the terminating zero
  byte follows them in the block.
\<close>

definition is_string :: "rstring \<Rightarrow> u8 list \<Rightarrow> bool" where
  "is_string s bs \<longleftrightarrow> slen s = int (length bs) \<and> length bs < 1073741824 \<and> holds (sptr s) (bs @ [0])"

definition s_usable :: "str_env \<Rightarrow> bool" where
  "s_usable E \<longleftrightarrow> s_safe_level E < 5 \<and> (\<forall>n>0. s_malloc_ok E n)"

lemma nat_int_Suc [simp]: "nat (int n + 1) = Suc n" "nat (1 + int n) = Suc n"
  by simp_all

lemma is_stringD:
  assumes "is_string s bs"
  shows "slen s = int (length bs)" "length bs < 1073741824" "holds (sptr s) (bs @ [0])" "holds (sptr s) bs"
    "length bs < length (sptr s)" "nat (slen s) = length bs"
  using assms holds_prefix [of "sptr s" bs "[0]"] holds_length [of "sptr s" "bs @ [0]"] by (auto simp: is_string_def)

lemma is_string_unique: "is_string s bs \<Longrightarrow> is_string s cs \<Longrightarrow> bs = cs"
  unfolding is_string_def holds_def
  by (metis append_eq_append_conv inj_map_eq_map inj_Some length_append of_nat_eq_iff)

text \<open>The bytes of a block up to the first zero byte, as functions on C strings see it.\<close>

fun c_string :: "u8 cells \<Rightarrow> u8 list result" where
  "c_string [] = Inl OutOfBounds"
| "c_string (None # p) = Inl OutOfBounds"
| "c_string (Some c # p) = (if c = 0 then Inr [] else bindR (c_string p) (\<lambda>cs. Inr (c # cs)))"

lemma c_string_holds: "holds p (cs @ 0 # r) \<Longrightarrow> 0 \<notin> set cs \<Longrightarrow> c_string p = Inr cs"
proof (induction cs arbitrary: p)
  case Nil
  then show ?case by (cases p) (auto simp: holds_def)
next
  case (Cons c cs)
  then obtain p' where "p = Some c # p'" "holds p' (cs @ 0 # r)" by (cases p) (auto simp: holds_def)
  with Cons show ?case by auto
qed

lemma alloc_chars_ok:
  "s_usable E \<Longrightarrow> 0 < n \<Longrightarrow> n < 4294967296 \<Longrightarrow> alloc_chars E n = Inr (replicate (nat n) None)"
  by (simp add: alloc_chars_def xmalloc_def s_usable_def Let_def)

lemma realloc_chars_ok:
  "s_usable E \<Longrightarrow> 0 < n \<Longrightarrow> n < 4294967296 \<Longrightarrow>
     realloc_chars E p n = Inr (take (nat n) p @ replicate (nat n - length p) None)"
  by (simp add: realloc_chars_def xrealloc_def s_usable_def Let_def)

lemma set_last_zero:
  assumes "holds p bs" "n = int (length bs)" "length bs < length p"
  shows "\<exists>q. set_cell p n 0 = Inr q \<and> length q = length p \<and> holds q (bs @ [0])"
  using assms holds_snoc [OF assms(1), of 0] by (simp add: set_cell_in)

lemma str_new_ok:
  assumes "s_usable E" "holds (drop (nat i) q) bs" "0 \<le> i" "length bs < 1073741824" "n = int (length bs)"
  shows "\<exists>s. str_new E (Some (q, i)) n = Inr s \<and> is_string s bs \<and> \<not> sorig s \<and> \<not> sfrozen s"
proof -
  have n: "U32 n = n" using assms(4,5) by simp
  let ?p = "replicate (nat (n + 1)) None :: u8 cells"
  have a: "alloc_chars E (n + 1) = Inr ?p" using assms(1,4,5) by (intro alloc_chars_ok) auto
  have "\<exists>d. copy_cells ?p 0 q i n = Inr d \<and> length d = length ?p \<and>
      holds d (take (nat 0) [] @ bs @ drop (nat (0 + n)) [])"
    by (rule copy_cells_holds [OF holds_Nil assms(2,3)]) (use assms(5) in simp_all)
  then obtain d where d: "copy_cells ?p 0 q i n = Inr d" "length d = length ?p" "holds d bs" by auto
  obtain e where e: "set_cell d n 0 = Inr e" "length e = length d" "holds e (bs @ [0])"
    using set_last_zero [OF d(3) assms(5)] d(2) assms(5) by auto
  show ?thesis using a d(1) e assms(4,5) n by (simp add: str_new_def is_string_def)
qed

lemma str_modify_ok:
  assumes "s_usable E" "is_string s bs" "\<not> sfrozen s"
  shows "\<exists>s'. str_modify E s = Inr s' \<and> is_string s' bs \<and> \<not> sorig s' \<and> \<not> sfrozen s' \<and> stainted s' = stainted s"
proof (cases "sorig s")
  case False
  then show ?thesis using assms by (simp add: str_modify_def s_usable_def)
next
  case True
  note S = is_stringD [OF assms(2)]
  let ?p = "replicate (nat (slen s + 1)) None :: u8 cells"
  have a: "alloc_chars E (slen s + 1) = Inr ?p" using assms(1) S(1,2) by (intro alloc_chars_ok) auto
  have h: "holds (drop (nat 0) (sptr s)) bs" using S(4) by simp
  obtain d where d: "copy_cells ?p 0 (sptr s) 0 (slen s) = Inr d" "length d = length ?p" "holds d bs"
    using copy_cells_holds [OF holds_Nil h, of 0 "slen s" ?p] S(1) by auto
  obtain e where "set_cell d (slen s) 0 = Inr e" "holds e (bs @ [0])"
    using set_last_zero [OF d(3) S(1)] d(2) S(1) by auto
  then show ?thesis using a d(1) True assms S(1,2) by (simp add: str_modify_def s_usable_def is_string_def)
qed

lemma str_dup_ok:
  assumes "s_usable E" "is_string s bs"
  shows "\<exists>s'. str_dup E s = Inr s' \<and> is_string s' bs \<and> \<not> sfrozen s' \<and> \<not> sorig s'"
proof -
  note S = is_stringD [OF assms(2)]
  have "holds (drop (nat 0) (sptr s)) bs" using S(4) by simp
  from str_new_ok [OF assms(1) this _ S(2,1)] show ?thesis
    by (cases "str_tainted s") (auto simp: str_dup_def str_taint_def is_string_def)
qed

lemma grown_holds:
  assumes "holds p bs" "length bs \<le> n"
  shows "holds (take n p @ replicate (n - length p) None) bs"
proof -
  have "take (length bs) (take n p @ replicate (n - length p) None) = take (length bs) p"
    using assms(2) holds_length [OF assms(1)] by simp
  then show ?thesis using assms(1) by (simp add: holds_def)
qed

lemma str_cat_ok:
  assumes "s_usable E" "is_string s bs" "\<not> sfrozen s" "holds (drop (nat i) q) cs" "0 \<le> i"
    and "length bs + length cs < 1073741824" "n = int (length cs)"
  shows "\<exists>s'. str_cat E s (Some (q, i)) n = Inr s' \<and> is_string s' (bs @ cs) \<and> \<not> sfrozen s'"
proof (cases "cs = []")
  case True
  then show ?thesis using assms by (simp add: str_cat_def)
next
  case False
  obtain t where t: "str_modify E s = Inr t" "is_string t bs" "\<not> sfrozen t" using str_modify_ok [OF assms(1-3)] by auto
  note T = is_stringD [OF t(2)]
  let ?n = "slen t + n + 1"
  let ?p = "take (nat ?n) (sptr t) @ replicate (nat ?n - length (sptr t)) None"
  have r: "realloc_chars E (sptr t) ?n = Inr ?p"
    using assms(1,6,7) T(1) by (intro realloc_chars_ok) auto
  have nn: "nat ?n = length bs + length cs + 1" using T(1) assms(7) by simp
  have h: "holds ?p bs" by (rule grown_holds [OF T(4)]) (simp add: nn)
  have l: "length ?p = nat ?n" by simp
  obtain d where d: "copy_cells ?p (slen t) q i n = Inr d" "length d = length ?p" "holds d (bs @ cs)"
    using copy_cells_holds [OF h assms(4,5), of "slen t" n] T(1) assms(7) nn l by auto
  have "length (bs @ cs) < length d" unfolding d(2) l nn by simp
  from set_last_zero [OF d(3) refl this] obtain e where e: "set_cell d (int (length (bs @ cs))) 0 = Inr e" "holds e ((bs @ cs) @ [0])"
    by auto
  have u: "U32 (slen t + n) = int (length (bs @ cs))" using T(1) assms(6,7) by simp
  have "str_cat E s (Some (q, i)) n = Inr (t\<lparr>slen := int (length (bs @ cs)), sptr := e\<rparr>)"
    using False t(1) r d(1) e(1) u assms(7) by (simp add: str_cat_def)
  then show ?thesis using e(2) assms(6) t(3) by (simp add: is_string_def)
qed

lemma str_plus_ok:
  assumes "s_usable E" "is_string s bs" "is_string t cs" "length bs + length cs < 1073741824"
  shows "\<exists>s'. str_plus E s t = Inr s' \<and> is_string s' (bs @ cs) \<and> \<not> sfrozen s'"
proof -
  note S = is_stringD [OF assms(2)] and T = is_stringD [OF assms(3)]
  let ?n = "int (length bs) + int (length cs)"
  let ?p = "(replicate (nat (?n + 1)) None :: u8 cells)[nat ?n := Some 0]"
  have a: "alloc_chars E (?n + 1) = Inr (replicate (nat (?n + 1)) None)" using assms(1,4) by (intro alloc_chars_ok) auto
  have n: "U32 ?n = ?n" using assms(4) by simp
  have new: "str_new E None ?n = Inr \<lparr>slen = ?n, sptr = ?p, sorig = False, sfrozen = False, stainted = s_safe_level E \<ge> 3\<rparr>"
    unfolding str_new_def n using a by (simp add: set_cell_in)
  have l: "length ?p = length bs + length cs + 1" by simp
  obtain d where d: "copy_cells ?p 0 (sptr s) 0 (int (length bs)) = Inr d" "length d = length ?p" "holds d bs"
    using copy_cells_holds [OF holds_Nil, of 0 "sptr s" bs 0 "int (length bs)" ?p] S(4) l by auto
  obtain e where e: "copy_cells d (int (length bs)) (sptr t) 0 (int (length cs)) = Inr e" "length e = length ?p"
    "holds e (bs @ cs)"
    using copy_cells_holds [OF d(3), of 0 "sptr t" cs "int (length bs)" "int (length cs)"] T(4) d(2) l by auto
  have "length (bs @ cs) < length e" unfolding e(2) l by simp
  from set_last_zero [OF e(3) _ this, of ?n] obtain f where f: "set_cell e ?n 0 = Inr f" "holds f ((bs @ cs) @ [0])" by auto
  show ?thesis using new d(1) e(1) f S(1) T(1) assms(4)
    by (simp add: str_plus_def Let_def str_taint_def is_string_def)
qed

lemma empty_string: "s_usable E \<Longrightarrow> \<exists>s. str_new E None 0 = Inr s \<and> is_string s [] \<and> \<not> sfrozen s"
  using alloc_chars_ok [of E 1] by (simp add: str_new_def set_cell_in is_string_def holds_def)

lemma str_substr_ok:
  assumes "s_usable E" "is_string s bs" "- 1073741824 \<le> start" "start < 1073741824" "len < 1073741824"
    and b: "b = (if start < 0 then int (length bs) + start else start)"
  shows "\<exists>s'. str_substr E s start len = Inr s' \<and> \<not> sfrozen s' \<and>
    is_string s' (if 0 \<le> b \<and> 0 \<le> len then take (nat len) (drop (nat b) bs) else [])"
proof -
  note S = is_stringD [OF assms(2)]
  have bb: "(if start < 0 then S32 (slen s + start) else start) = b" using S(1,2) assms(3,4) b by simp
  show ?thesis
  proof (cases "slen s \<le> U32 b \<or> len < 0")
    case True
    have "U32 b = b" if "0 \<le> b" using that b assms(4) S(2) by (auto split: if_splits)
    with True have "(if 0 \<le> b \<and> 0 \<le> len then take (nat len) (drop (nat b) bs) else []) = []"
      using S(1) by auto
    then show ?thesis using True empty_string [OF assms(1)] bb by (auto simp: str_substr_def Let_def)
  next
    case False
    have b0: "0 \<le> b"
    proof (rule ccontr)
      assume "\<not> 0 \<le> b"
      then have "U32 b = b + 4294967296" using b assms(3) S(2) by (intro U32_neg) (auto split: if_splits)
      with False S(1,2) b assms(3) show False by (auto split: if_splits)
    qed
    then have bl: "b < int (length bs)" using False S(1,2) b assms(4) by (auto split: if_splits)
    let ?cs = "take (nat len) (drop (nat b) bs)"
    have n: "(if slen s < U32 (b + len) then S32 (slen s - b) else len) = int (length ?cs)"
      using b0 bl False assms(5) S(1,2) by (auto simp: min_def of_nat_diff nat_le_iff)
    have h: "holds (drop (nat b) (sptr s)) ?cs"
      using drop_holds [OF S(4), of "nat b"] by (metis append_take_drop_id holds_prefix)
    have "length ?cs < 1073741824" using S(2) by (auto simp: min_def)
    from str_new_ok [OF assms(1) h b0 this refl] obtain s' where
      "str_new E (Some (sptr s, b)) (int (length ?cs)) = Inr s'" "is_string s' ?cs" "\<not> sfrozen s'" by blast
    moreover have "str_substr E s start len = str_new E (Some (sptr s, b)) (int (length ?cs))"
      unfolding str_substr_def Let_def bb n using False by simp
    ultimately show ?thesis using b0 False by auto
  qed
qed

lemma str_replace_ok:
  assumes "s_usable E" "is_string s bs" "is_string v cs" "b + l \<le> length bs" "length bs + length cs < 1073741824"
  shows "\<exists>s'. str_replace E s (int b) (int l) v = Inr s' \<and> is_string s' (take b bs @ cs @ drop (b + l) bs) \<and>
    sfrozen s' = sfrozen s"
proof -
  note S = is_stringD [OF assms(2)] and V = is_stringD [OF assms(3)]
  let ?n = "length bs + length cs - l" and ?m = "length cs" and ?zs = "take b bs @ cs @ drop (b + l) bs"
  have u: "U32 (int l) = int l" "U32 (slen s - (int b + int l)) = int (length bs) - int (b + l)"
    "U32 (slen s + slen v - int l) = int ?n" "slen s + slen v - int l + 1 = int (?n + 1)"
    using S(1) V(1) assms(4,5) by (simp_all add: of_nat_diff)
  have lz: "length ?zs = ?n" using assms(4) by simp
  obtain p where p: "(if int l < slen v then realloc_chars E (sptr s) (slen s + slen v - int l + 1) else Inr (sptr s)) = Inr p"
    "holds p bs" "?n < length p"
  proof (cases "l < ?m")
    case True
    let ?p = "take (?n + 1) (sptr s) @ replicate (?n + 1 - length (sptr s)) None"
    have "realloc_chars E (sptr s) (int (?n + 1)) = Inr ?p"
      using assms(1,5) by (subst realloc_chars_ok) auto
    then show ?thesis using that [of ?p] True grown_holds [OF S(4), of "?n + 1"] V(1) unfolding u(4) by simp
  next
    case False
    then show ?thesis using that [of "sptr s"] S(4,5) V(1) by simp
  qed
  obtain q q' where q: "copy_cells p (int (b + ?m)) p (int (b + l)) (int (length bs) - int (b + l)) = Inr q"
    "length q = length p" "copy_cells q (int b) (sptr v) 0 (int ?m) = Inr q'" "length q' = length p" "holds q' ?zs"
    using splice_cells [OF p(2) V(4) assms(4)] p(3) by auto
  obtain w w' where w: "(if int l \<noteq> slen v then copy_cells p (int b + slen v) p (int b + int l) (int (length bs) - int (b + l))
      else Inr p) = Inr w" "copy_cells w (int b) (sptr v) 0 (slen v) = Inr w'" "length w' = length p" "holds w' ?zs"
  proof (cases "l = ?m")
    case False
    then show ?thesis using that [of q q'] q V(1) by simp
  next
    case True
    then have "\<exists>d. copy_cells p (int b) (sptr v) 0 (int ?m) = Inr d \<and> length d = length p \<and>
        holds d (take (nat (int b)) bs @ cs @ drop (nat (int b + int ?m)) bs)"
      using assms(4) p(3) V(4) by (intro copy_cells_holds [OF p(2)]) auto
    then show ?thesis using that [of p] True V(1) by (auto simp: nat_add_distrib)
  qed
  have "length ?zs < length w'" unfolding w(3) lz by (rule p(3))
  from set_last_zero [OF w(4) refl this] obtain x where x: "set_cell w' (int ?n) 0 = Inr x" "holds x (?zs @ [0])"
    unfolding lz by blast
  have "str_replace E s (int b) (int l) v = Inr (s\<lparr>slen := int ?n, sptr := x\<rparr>)"
    unfolding str_replace_def u(1-3) Let_def using p(1) w(1,2) x(1) by (simp split del: if_split)
  moreover have "is_string (s\<lparr>slen := int ?n, sptr := x\<rparr>) ?zs" using x(2) lz assms(5) by (auto simp: is_string_def)
  ultimately show ?thesis by simp
qed

section \<open>Comparison and search on contents\<close>

text \<open>The difference of the first bytes that differ.\<close>

fun bytes_diff :: "u8 list \<Rightarrow> u8 list \<Rightarrow> int" where
  "bytes_diff (x # xs) (y # ys) = (if x = y then bytes_diff xs ys else uint x - uint y)"
| "bytes_diff _ _ = 0"

lemma bytes_diff_0: "length xs = length ys \<Longrightarrow> bytes_diff xs ys = 0 \<longleftrightarrow> xs = ys"
  by (induction xs ys rule: bytes_diff.induct) (auto simp: word_uint_eq_iff)

lemma mem_compare_ok:
  "length xs = length ys \<Longrightarrow> holds (drop (nat i) p) xs \<Longrightarrow> holds (drop (nat j) q) ys \<Longrightarrow> 0 \<le> i \<Longrightarrow> 0 \<le> j \<Longrightarrow>
     mem_compare p i q j (length xs) = Inr (bytes_diff xs ys)"
proof (induction xs ys arbitrary: i j rule: list_induct2)
  case (Cons x xs y ys)
  note X = holds_drop_Cons [OF Cons.prems(1,3)] and Y = holds_drop_Cons [OF Cons.prems(2,4)]
  show ?case using X(1) Y(1) Cons.IH [OF X(2) Y(2)] Cons.prems(3,4) by simp
qed simp

definition occurs_at :: "u8 list \<Rightarrow> u8 list \<Rightarrow> nat \<Rightarrow> bool" where
  "occurs_at bs cs s \<longleftrightarrow> s + length cs \<le> length bs \<and> take (length cs) (drop s bs) = cs"

lemma index_step:
  assumes "holds p bs" "holds q cs" "cs \<noteq> []" "s + length cs \<le> length bs"
  shows "index_loop p q (int (length cs)) (int s) (Suc k) =
    (if occurs_at bs cs s then Inr (int s) else index_loop p q (int (length cs)) (int (Suc s)) k)"
proof -
  let ?xs = "take (length cs) (drop s bs)"
  have l: "length ?xs = length cs" using assms(4) by simp
  have h: "holds (drop (nat (int s)) p) ?xs"
    using drop_holds [OF assms(1), of s] by (metis append_take_drop_id holds_prefix nat_int)
  have m: "mem_compare p (int s) q 0 (length cs) = Inr (bytes_diff ?xs cs)"
    using mem_compare_ok [OF l h, of 0 q] assms(2) l by simp
  obtain y ys where cs: "cs = y # ys" using assms(3) by (cases cs) auto
  have sb: "s < length bs" using assms(4) cs by simp
  have g: "get_cell p (int s) = Inr (bs ! s)" "get_cell q 0 = Inr y"
    using get_cell_holds [OF assms(1), of "int s"] get_cell_holds [OF assms(2), of 0] sb cs by auto
  have o: "occurs_at bs cs s \<longleftrightarrow> bytes_diff ?xs cs = 0" using bytes_diff_0 [OF l] assms(4) by (simp add: occurs_at_def)
  show ?thesis
  proof (cases "bs ! s = y")
    case True
    then show ?thesis using g m o by (simp add: add.commute)
  next
    case False
    have "?xs ! 0 = bs ! s" using sb cs by simp
    moreover have "cs ! 0 = y" using cs by simp
    ultimately have "\<not> occurs_at bs cs s" using False unfolding occurs_at_def by metis
    then show ?thesis using g False by (simp add: add.commute)
  qed
qed

lemma index_loop_found:
  assumes "holds p bs" "holds q cs" "cs \<noteq> []" "occurs_at bs cs t"
  shows "s \<le> t \<Longrightarrow> t < s + k \<Longrightarrow>
    index_loop p q (int (length cs)) (int s) k = Inr (int (LEAST t. s \<le> t \<and> occurs_at bs cs t))"
proof (induction k arbitrary: s)
  case (Suc k)
  have b: "s + length cs \<le> length bs" using assms(4) Suc.prems(1) by (simp add: occurs_at_def)
  show ?case
  proof (cases "occurs_at bs cs s")
    case True
    then have "(LEAST t. s \<le> t \<and> occurs_at bs cs t) = s" by (intro Least_equality) auto
    then show ?thesis using index_step [OF assms(1-3) b] True by simp
  next
    case False
    then have e: "s \<le> t \<and> occurs_at bs cs t \<longleftrightarrow> Suc s \<le> t \<and> occurs_at bs cs t" for t
      by (metis Suc_leD le_antisym not_less_eq_eq)
    have "s \<noteq> t" using False assms(4) by auto
    then have "Suc s \<le> t" "t < Suc s + k" using Suc.prems by simp_all
    from Suc.IH [OF this] show ?thesis unfolding index_step [OF assms(1-3) b] e using False by simp
  qed
qed simp

lemma index_loop_none:
  assumes "holds p bs" "holds q cs" "cs \<noteq> []" "\<And>t. \<not> occurs_at bs cs t"
  shows "s + k + length cs \<le> length bs + 1 \<Longrightarrow> index_loop p q (int (length cs)) (int s) k = Inr (- 1)"
proof (induction k arbitrary: s)
  case (Suc k)
  then have b: "s + length cs \<le> length bs" by simp
  show ?case unfolding index_step [OF assms(1-3) b] using Suc.IH [of "Suc s"] Suc.prems assms(4) by simp
qed simp

text \<open>
  Behind the last place for an occurrence the comparison meets the terminating zero, so a pattern without zero
  bytes is not found there and the comparison stops within the block.
\<close>

lemma mem_compare_stops:
  "length xs = length ys \<Longrightarrow> bytes_diff xs ys \<noteq> 0 \<Longrightarrow> holds (drop (nat i) p) xs \<Longrightarrow> holds (drop (nat j) q) ys \<Longrightarrow> 0 \<le> i \<Longrightarrow>
     0 \<le> j \<Longrightarrow> mem_compare p i q j (length xs + r) = Inr (bytes_diff xs ys)"
proof (induction xs ys arbitrary: i j rule: list_induct2)
  case (Cons x xs y ys)
  note X = holds_drop_Cons [OF Cons.prems(2,4)] and Y = holds_drop_Cons [OF Cons.prems(3,5)]
  show ?case using X(1) Y(1) Cons.IH [OF _ X(2) Y(2)] Cons.prems(1,4,5) by (cases "x = y") simp_all
qed simp

lemma index_past:
  assumes "holds p (bs @ [0])" "holds q cs" "cs \<noteq> []" "0 \<notin> set cs" "length bs < s + length cs" "s \<le> length bs"
  shows "index_loop p q (int (length cs)) (int s) (Suc k) = index_loop p q (int (length cs)) (int (Suc s)) k"
proof -
  let ?xs = "drop s (bs @ [0])" and ?ys = "take (length bs + 1 - s) cs"
  have l: "length ?xs = length ?ys" "length cs = length ?xs + (length cs - length ?xs)" using assms(5,6) by auto
  have hx: "holds (drop (nat (int s)) p) ?xs" using drop_holds [OF assms(1), of s] by simp
  have hy: "holds (drop (nat 0) q) ?ys" using assms(2) holds_prefix [of q ?ys "drop (length bs + 1 - s) cs"] by simp
  have "0 \<in> set ?xs" using assms(6) by simp
  moreover have "0 \<notin> set ?ys" using assms(4) by (auto dest: in_set_takeD)
  ultimately have d: "bytes_diff ?xs ?ys \<noteq> 0" using bytes_diff_0 [OF l(1)] by metis
  have m: "mem_compare p (int s) q 0 (length cs) = Inr (bytes_diff ?xs ?ys)"
    using mem_compare_stops [OF l(1) d hx hy, of "length cs - length ?xs"] l(2) by simp
  have g: "get_cell p (int s) = Inr ((bs @ [0]) ! s)" "get_cell q 0 = Inr (cs ! 0)"
    using get_cell_holds [OF assms(1), of "int s"] get_cell_holds [OF assms(2), of 0] assms(3,6) by simp_all
  show ?thesis using g m d by (simp add: add.commute)
qed

lemma index_loop_past:
  assumes "holds p (bs @ [0])" "length p = length bs + 1" "holds q cs" "cs \<noteq> []" "0 \<notin> set cs"
  shows "length bs < s + length cs \<Longrightarrow> s \<le> length bs + 1 \<Longrightarrow> index_loop p q (int (length cs)) (int s) k =
    (if s + k \<le> length bs + 1 then Inr (- 1) else Inl OutOfBounds)"
proof (induction k arbitrary: s)
  case (Suc k)
  show ?case
  proof (cases "s \<le> length bs")
    case True
    show ?thesis unfolding index_past [OF assms(1,3-5) Suc.prems(1) True] using Suc.IH [of "Suc s"] Suc.prems True by simp
  next
    case False
    then have "get_cell p (int s) = Inl OutOfBounds" using assms(2) by (simp add: get_cell_def arr_get_def in_block_def)
    then show ?thesis using False by simp
  qed
qed simp

lemma index_loop_missing:
  assumes "holds p (bs @ [0])" "length p = length bs + 1" "holds q cs" "cs \<noteq> []" "0 \<notin> set cs" "\<forall>t\<ge>i. \<not> occurs_at bs cs t"
  shows "i \<le> s \<Longrightarrow> s \<le> length bs + 1 \<Longrightarrow> index_loop p q (int (length cs)) (int s) k =
    (if s + k \<le> length bs + 1 then Inr (- 1) else Inl OutOfBounds)"
proof (induction k arbitrary: s)
  case (Suc k)
  show ?case
  proof (cases "s + length cs \<le> length bs")
    case True
    have "0 < length cs" using assms(4) by simp
    then have s: "Suc s \<le> length bs + 1" using True by linarith
    show ?thesis unfolding index_step [OF holds_prefix [OF assms(1)] assms(3,4) True]
      using Suc.IH [of "Suc s"] Suc.prems assms(6) s by simp
  next
    case False
    then show ?thesis using index_loop_past [OF assms(1-5), of s "Suc k"] Suc.prems by simp
  qed
qed simp

lemma index_loop_zero:
  assumes "holds p (bs @ [0])" "holds q [0]"
  shows "s \<le> length bs \<Longrightarrow> length bs < s + k \<Longrightarrow>
    index_loop p q 0 (int s) k = Inr (int (LEAST t. s \<le> t \<and> (bs @ [0]) ! t = 0))"
proof (induction k arbitrary: s)
  case (Suc k)
  have g: "get_cell p (int s) = Inr ((bs @ [0]) ! s)" "get_cell q 0 = Inr 0"
    using get_cell_holds [OF assms(1), of "int s"] get_cell_holds [OF assms(2), of 0] Suc.prems by simp_all
  show ?case
  proof (cases "(bs @ [0]) ! s = 0")
    case True
    then have "(LEAST t. s \<le> t \<and> (bs @ [0]) ! t = 0) = s" by (intro Least_equality) auto
    with True g show ?thesis by simp
  next
    case False
    then have ne: "s < length bs" using Suc.prems(1) by (cases "s = length bs") simp_all
    have e: "s \<le> t \<and> (bs @ [0]) ! t = 0 \<longleftrightarrow> Suc s \<le> t \<and> (bs @ [0]) ! t = 0" for t
      using False by (metis Suc_leD le_antisym not_less_eq_eq)
    show ?thesis using Suc.IH [of "Suc s"] Suc.prems ne False g unfolding e by (simp add: add.commute)
  qed
qed simp

text \<open>
  C13: Duplication, \<^verbatim>\<open>+\<close>, appending, \<^verbatim>\<open>s[b, n]\<close> and replacing a part return well-formed strings (length,
  contents and terminating zero byte in the block) with the expected contents, whether or
  not the string shares its block with another; a negative start counts from the end, and a
  start before or after the string gives the empty string. The two strings are different objects: when a string
  that does not share its block is appended to itself, \<^verbatim>\<open>str_concat\<close> uses the old pointer after the block moved.
\<close>
theorem string_operations_wf:
  assumes "s_usable E" "is_string s bs" "is_string t cs" "\<not> sfrozen s" "length bs + length cs < 1073741824"
    and "- 1073741824 \<le> i" "i < 1073741824" "n < 1073741824" "b + l \<le> length bs"
  shows "\<exists>d p c u r. str_dup E s = Inr d \<and> is_string d bs \<and> str_plus E s t = Inr p \<and> is_string p (bs @ cs) \<and>
    str_concat E s t = Inr c \<and> is_string c (bs @ cs) \<and>
    str_substr E s i n = Inr u \<and> is_string u (let k = (if i < 0 then int (length bs) + i else i)
      in if 0 \<le> k \<and> 0 \<le> n then take (nat n) (drop (nat k) bs) else []) \<and>
    str_replace E s (int b) (int l) t = Inr r \<and> is_string r (take b bs @ cs @ drop (b + l) bs)"
proof -
  note T = is_stringD [OF assms(3)]
  have h: "holds (drop (nat 0) (sptr t)) cs" using T(4) by simp
  obtain c where "str_concat E s t = Inr c" "is_string c (bs @ cs)"
    using str_cat_ok [OF assms(1,2,4) h _ assms(5) T(1)] by (auto simp: str_concat_def)
  moreover obtain u where "str_substr E s i n = Inr u" "is_string u (let k = (if i < 0 then int (length bs) + i else i)
      in if 0 \<le> k \<and> 0 \<le> n then take (nat n) (drop (nat k) bs) else [])"
    using str_substr_ok [OF assms(1,2,6-8) refl] unfolding Let_def by blast
  ultimately show ?thesis
    using str_dup_ok [OF assms(1,2)] str_plus_ok [OF assms(1-3,5)] str_replace_ok [OF assms(1-3,9,5)] by blast
qed

definition sample_str_env :: str_env where
  "sample_str_env = \<lparr>s_safe_level = 0, s_malloc_ok = (\<lambda>_. True), ignorecase = False\<rparr>"

definition bytes_string :: "u8 list \<Rightarrow> rstring" where
  "bytes_string bs =
     \<lparr>slen = int (length bs), sptr = map Some (bs @ [0]), sorig = False, sfrozen = False, stainted = False\<rparr>"

lemma sample_str_env_ok: "s_usable sample_str_env"
  by (simp add: s_usable_def sample_str_env_def)

lemma bytes_string_ok: "length bs < 1073741824 \<Longrightarrow> is_string (bytes_string bs) bs" "\<not> sfrozen (bytes_string bs)"
  by (simp_all add: bytes_string_def is_string_def holds_def)

theorem string_operations_wf_witness:
  "\<exists>u r. str_substr sample_str_env (bytes_string [97, 98, 99]) (- 2) 5 = Inr u \<and> is_string u [98, 99] \<and>
     str_replace sample_str_env (bytes_string [97, 98, 99]) 1 1 (bytes_string [120, 121]) = Inr r \<and>
     is_string r [97, 120, 121, 99]"
  using string_operations_wf [OF sample_str_env_ok bytes_string_ok(1) bytes_string_ok(1) bytes_string_ok(2),
      of "[97, 98, 99]" "[120, 121]" "- 2" 5 1 1] by (auto simp: Let_def numeral_2_eq_2)

text \<open>
  C24: \<^verbatim>\<open>str_index(s, t, i)\<close> for an offset from 0 to the length of \<open>s\<close>. A pattern that is not empty and occurs at
  \<open>i\<close> or later is found at its first such place. When it does not occur there, has no zero byte and the block of
  \<open>s\<close> ends with the terminating zero, the result is \<open>- 1\<close> when the rest is shorter than the pattern or \<open>i\<close> is not
  larger than its length; otherwise the loop, whose end is computed from the offset, leaves the block (taking
  \<^verbatim>\<open>memcmp\<close> to stop at the first difference). The empty pattern is found at the first zero byte from \<open>i\<close> on, for
  a string without zero bytes its end.
\<close>
theorem str_index_first:
  assumes "is_string s bs" "is_string t cs" "i \<le> length bs"
  shows "(cs \<noteq> [] \<and> (\<exists>k\<ge>i. occurs_at bs cs k) \<longrightarrow> str_index s t (int i) = Inr (int (LEAST k. i \<le> k \<and> occurs_at bs cs k))) \<and>
    (cs \<noteq> [] \<and> (\<forall>k\<ge>i. \<not> occurs_at bs cs k) \<and> 0 \<notin> set cs \<and> length (sptr s) = length bs + 1 \<longrightarrow>
       str_index s t (int i) = (if length bs < i + length cs \<or> i \<le> length cs then Inr (- 1) else Inl OutOfBounds)) \<and>
    (cs = [] \<longrightarrow> str_index s t (int i) = Inr (int (LEAST k. i \<le> k \<and> (bs @ [0]) ! k = 0)))"
proof (intro conjI impI; (elim conjE)?)
  note S = is_stringD [OF assms(1)] and T = is_stringD [OF assms(2)]
  define k where k: "k = length bs - length cs + 1"
  have loop: "str_index s t (int i) = (if length bs < i + length cs then Inr (- 1)
      else index_loop (sptr s) (sptr t) (int (length cs)) (int i) k)"
    using assms(3) S(1,2) T(1) by (auto simp: str_index_def of_nat_diff nat_add_distrib nat_diff_distrib k)
  {
    assume c: "cs \<noteq> []" and "\<exists>k\<ge>i. occurs_at bs cs k"
    then obtain r where r: "i \<le> r" "occurs_at bs cs r" by blast
    then have "r < i + k" "\<not> length bs < i + length cs" by (auto simp: occurs_at_def k)
    then show "str_index s t (int i) = Inr (int (LEAST k. i \<le> k \<and> occurs_at bs cs k))"
      using loop index_loop_found [OF S(4) T(4) c r(2,1)] by simp
  next
    assume c: "cs \<noteq> []" "\<forall>k\<ge>i. \<not> occurs_at bs cs k" "0 \<notin> set cs" "length (sptr s) = length bs + 1"
    then show "str_index s t (int i) = (if length bs < i + length cs \<or> i \<le> length cs then Inr (- 1) else Inl OutOfBounds)"
      using loop index_loop_missing [OF S(3) c(4) T(4) c(1,3,2), of i k] assms(3) k by auto
  next
    assume c: "cs = []"
    then show "str_index s t (int i) = Inr (int (LEAST k. i \<le> k \<and> (bs @ [0]) ! k = 0))"
      using loop index_loop_zero [OF S(3), of "sptr t" i k] T(3) assms(3) k by simp
  }
qed

text \<open>The search of the byte \<^verbatim>\<open>x\<close> from offset 2 in \<^verbatim>\<open>abcd\<close> leaves the block.\<close>

theorem str_index_first_witness:
  "str_index (bytes_string [97, 98, 97, 98]) (bytes_string [98]) 2 = Inr 3 \<and>
   str_index (bytes_string [97, 98, 99, 100]) (bytes_string [120]) 2 = Inl OutOfBounds"
proof
  have o: "occurs_at [97, 98, 97, 98] [98] 3" by (simp add: occurs_at_def)
  have "\<not> occurs_at [97, 98, 97, 98] [98] 2" by (simp add: occurs_at_def numeral_2_eq_2)
  then have l: "(LEAST k. 2 \<le> k \<and> occurs_at [97, 98, 97, 98] [98] k) = 3"
    using o by (intro Least_equality) (auto simp: le_less_Suc_eq Suc_le_eq order_le_less numeral_2_eq_2 numeral_3_eq_3)
  have "\<exists>k\<ge>2. occurs_at [97, 98, 97, 98] [98] k" using o by (intro exI [of _ 3]) simp
  then show "str_index (bytes_string [97, 98, 97, 98]) (bytes_string [98]) 2 = Inr 3"
    using str_index_first [OF bytes_string_ok(1) bytes_string_ok(1), of "[97, 98, 97, 98]" "[98]" 2] l by simp
  have "\<forall>k\<ge>2. \<not> occurs_at [97, 98, 99, 100] [120] k"
    by (auto simp: occurs_at_def nth_Cons' take_Suc_conv_app_nth dest!: le_Suc_ex)
  then show "str_index (bytes_string [97, 98, 99, 100]) (bytes_string [120]) 2 = Inl OutOfBounds"
    using str_index_first [OF bytes_string_ok(1) bytes_string_ok(1), of "[97, 98, 99, 100]" "[120]" 2]
    by (simp add: bytes_string_def)
qed

end
