(* ===== verification/StrText.thy ===== *)
theory StrText
  imports RString
begin

text \<open>
  The operations of \<^verbatim>\<open>src/string.c\<close> that transform the contents of a string: successor, case
  conversion, \<^verbatim>\<open>tr\<close>, \<^verbatim>\<open>delete\<close> and \<^verbatim>\<open>squeeze\<close>, \<^verbatim>\<open>split\<close>, \<^verbatim>\<open>chop\<close> and \<^verbatim>\<open>strip\<close>, justification,
  checksums and \<^verbatim>\<open>inspect\<close>. They are functions of the contents, a list of bytes: the loops of
  the code write a byte only after they have read it, so an operation in place computes the
  same as one on a copy. What the code does to the block before and after is \<^verbatim>\<open>str_modify\<close> and
  the new length, as in \<open>in_place\<close>.
\<close>

section \<open>Contents\<close>

primrec read_bytes :: "u8 cells \<Rightarrow> int \<Rightarrow> nat \<Rightarrow> u8 list result" where
  "read_bytes p i 0 = Inr []"
| "read_bytes p i (Suc k) = bindR (get_cell p i) (\<lambda>c. bindR (read_bytes p (i + 1) k) (\<lambda>cs. Inr (c # cs)))"

primrec write_bytes :: "u8 cells \<Rightarrow> int \<Rightarrow> u8 list \<Rightarrow> u8 cells result" where
  "write_bytes p i [] = Inr p"
| "write_bytes p i (c # cs) = bindR (set_cell p i c) (\<lambda>p. write_bytes p (i + 1) cs)"

definition contents :: "rstring \<Rightarrow> u8 list result" where
  "contents str = read_bytes (sptr str) 0 (nat (slen str))"

text \<open>
  \<open>str_modify(str)\<close>, then the loop over the bytes, then the terminating byte and the new length.
\<close>

definition in_place :: "str_env \<Rightarrow> (u8 list \<Rightarrow> u8 list) \<Rightarrow> rstring \<Rightarrow> rstring result" where
  "in_place E f str =
     bindR (str_modify E str) (\<lambda>str.
     bindR (contents str) (\<lambda>bs.
     bindR (write_bytes (sptr str) 0 (f bs @ [0])) (\<lambda>p.
       Inr (str\<lparr>sptr := p, slen := int (length (f bs))\<rparr>))))"

section \<open>Character classes of the C locale\<close>

definition between :: "int \<Rightarrow> u8 \<Rightarrow> int \<Rightarrow> bool" where
  "between lo c hi \<longleftrightarrow> lo \<le> uint c \<and> uint c \<le> hi"

definition isdigit :: "u8 \<Rightarrow> bool" where "isdigit c \<longleftrightarrow> between 48 c 57"
definition islower :: "u8 \<Rightarrow> bool" where "islower c \<longleftrightarrow> between 97 c 122"
definition isupper :: "u8 \<Rightarrow> bool" where "isupper c \<longleftrightarrow> between 65 c 90"
definition isalnum :: "u8 \<Rightarrow> bool" where "isalnum c \<longleftrightarrow> isdigit c \<or> islower c \<or> isupper c"
definition isspace :: "u8 \<Rightarrow> bool" where "isspace c \<longleftrightarrow> c = 32 \<or> between 9 c 13"
definition isprint :: "u8 \<Rightarrow> bool" where "isprint c \<longleftrightarrow> between 32 c 126"
definition toupper :: "u8 \<Rightarrow> u8" where "toupper c = (if islower c then c - 32 else c)"
definition tolower :: "u8 \<Rightarrow> u8" where "tolower c = (if isupper c then c + 32 else c)"

section \<open>Successor\<close>

text \<open>The new character and the returned carry; 0 is no carry.\<close>

definition succ_char :: "u8 \<Rightarrow> u8 \<times> u8" where
  "succ_char c =
     (if between 48 c 56 then (c + 1, 0)
      else if c = 57 then (48, 49)
      else if between 97 c 121 then (c + 1, 0)
      else if c = 122 then (97, 97)
      else if between 65 c 89 then (c + 1, 0)
      else if c = 90 then (65, 65)
      else (c, 0))"

text \<open>
  The loop from the last byte to the first; \<open>k\<close> bytes are left. The result is the contents, the
  last carry (\<open>- 1\<close> when no letter or digit was seen) and whether the loop was left by \<^verbatim>\<open>break\<close>.
\<close>

fun succ_loop :: "nat \<Rightarrow> int \<Rightarrow> u8 list \<Rightarrow> u8 list \<times> int \<times> bool" where
  "succ_loop 0 c bs = (bs, c, False)"
| "succ_loop (Suc k) c bs =
     (if isalnum (bs ! k) then
        let (d, r) = succ_char (bs ! k) in
        if r = 0 then (bs[k := d], 0, True) else succ_loop k (uint r) (bs[k := d])
      else succ_loop k c bs)"

definition str_succ :: "u8 list \<Rightarrow> u8 list" where
  "str_succ bs =
     (let (bs', c, stopped) = succ_loop (length bs) (- 1) bs in
      if stopped then bs'
      else if c = - 1 \<and> bs' \<noteq> [] then bs'[length bs' - 1 := bs' ! (length bs' - 1) + 1]
      else word_of_int c # bs')"

text \<open>
  \<^verbatim>\<open>str_upto\<close>: the strings yielded; \<open>gt\<close> is the result of \<^verbatim>\<open>beg > end\<close>, \<open>eq\<close> is \<^verbatim>\<open>str_equal\<close> on
  contents.
\<close>

partial_function (option) upto_loop ::
  "(u8 list \<Rightarrow> u8 list \<Rightarrow> bool) \<Rightarrow> u8 list \<Rightarrow> u8 list \<Rightarrow> u8 list list \<Rightarrow> u8 list list option" where
  "upto_loop eq cur end' acc =
     (if eq cur end' then Some (acc @ [cur])
      else if length (str_succ cur) > length end' then Some (acc @ [cur])
      else upto_loop eq (str_succ cur) end' (acc @ [cur]))"

definition str_upto :: "(u8 list \<Rightarrow> u8 list \<Rightarrow> bool) \<Rightarrow> bool \<Rightarrow> u8 list \<Rightarrow> u8 list \<Rightarrow> u8 list list option" where
  "str_upto eq gt beg end' = (if gt then Some [] else upto_loop eq beg end' [])"

section \<open>Case\<close>

definition str_upcase_bang :: "str_env \<Rightarrow> rstring \<Rightarrow> rstring result" where
  "str_upcase_bang E = in_place E (map (\<lambda>c. if islower c then toupper c else c))"

definition str_downcase_bang :: "str_env \<Rightarrow> rstring \<Rightarrow> rstring result" where
  "str_downcase_bang E = in_place E (map (\<lambda>c. if isupper c then tolower c else c))"

definition str_swapcase_bang :: "str_env \<Rightarrow> rstring \<Rightarrow> rstring result" where
  "str_swapcase_bang E =
     in_place E (map (\<lambda>c. if isupper c then tolower c else if islower c then toupper c else c))"

text \<open>\<^verbatim>\<open>str_capitalize_bang\<close> looks at the first byte also of an empty string (the terminating zero).\<close>

definition str_capitalize_bang :: "str_env \<Rightarrow> rstring \<Rightarrow> rstring result" where
  "str_capitalize_bang E = in_place E (\<lambda>bs.
     case bs of
       [] \<Rightarrow> []
     | c # cs \<Rightarrow> (if islower c then toupper c else c) # map (\<lambda>c. if isupper c then tolower c else c) cs)"

definition str_upcase :: "str_env \<Rightarrow> rstring \<Rightarrow> rstring result" where
  "str_upcase E str = bindR (str_dup E str) (str_upcase_bang E)"

definition str_downcase :: "str_env \<Rightarrow> rstring \<Rightarrow> rstring result" where
  "str_downcase E str = bindR (str_dup E str) (str_downcase_bang E)"

definition str_capitalize :: "str_env \<Rightarrow> rstring \<Rightarrow> rstring result" where
  "str_capitalize E str = bindR (str_dup E str) (str_capitalize_bang E)"

definition str_swapcase :: "str_env \<Rightarrow> rstring \<Rightarrow> rstring result" where
  "str_swapcase E str = bindR (str_dup E str) (str_swapcase_bang E)"

section \<open>Translation\<close>

text \<open>\<^verbatim>\<open>struct tr\<close>: \<open>tp\<close> are the bytes from \<^verbatim>\<open>p\<close> to \<^verbatim>\<open>pend\<close>.\<close>

record tr =
  gen :: bool
  now :: int
  max_c :: int
  tp :: "u8 list"

definition tr_init :: "u8 list \<Rightarrow> tr" where
  "tr_init bs = \<lparr>gen = False, now = 0, max_c = 0, tp = bs\<rparr>"

text \<open>
  One call of \<^verbatim>\<open>trnext\<close>: the next character or \<open>- 1\<close>. The case \<^verbatim>\<open>continue\<close> drops a range whose ends
  are in the wrong order.
\<close>

fun tr_start :: "u8 list \<Rightarrow> tr \<Rightarrow> int \<times> tr" where
  "tr_start [] t = (- 1, t\<lparr>tp := []\<rparr>)"
| "tr_start [c] t = (uint c, t\<lparr>now := uint c, tp := []\<rparr>)"
| "tr_start [c, d] t =
     (if d = 45 then (uint c, t\<lparr>now := uint c, tp := []\<rparr>) else (uint c, t\<lparr>now := uint c, tp := [d]\<rparr>))"
| "tr_start (c # d # m # r) t =
     (if d = 45 then
        if uint c > uint m then tr_start r (t\<lparr>now := uint c\<rparr>)
        else (uint c, t\<lparr>now := uint c, gen := True, max_c := uint m, tp := r\<rparr>)
      else (uint c, t\<lparr>now := uint c, tp := d # m # r\<rparr>))"

definition trnext :: "tr \<Rightarrow> int \<times> tr" where
  "trnext t =
     (if \<not> gen t then tr_start (tp t) t
      else if now t + 1 < max_c t then (now t + 1, t\<lparr>now := now t + 1\<rparr>)
      else (max_c t, t\<lparr>now := now t + 1, gen := False\<rparr>))"

definition tr_measure :: "tr \<Rightarrow> nat \<times> nat" where
  "tr_measure t = (length (tp t), if gen t then Suc (nat (max_c t - now t)) else 0)"

lemma tr_start_shorter:
  "fst (tr_start bs t) \<ge> 0 \<Longrightarrow> length (tp (snd (tr_start bs t))) < length bs"
  by (induction bs t rule: tr_start.induct) (auto split: if_splits)

lemma trnext_decreases:
  "fst (trnext t) \<ge> 0 \<Longrightarrow> (tr_measure (snd (trnext t)), tr_measure t) \<in> less_than <*lex*> less_than"
  using tr_start_shorter [of "tp t" t] by (auto simp: trnext_def tr_measure_def)

text \<open>\<^verbatim>\<open>while ((c = trnext(&tr)) >= 0) table[c & 0xff] = v;\<close>\<close>

function tr_mark :: "'a \<Rightarrow> tr \<Rightarrow> (u8 \<Rightarrow> 'a) \<Rightarrow> (u8 \<Rightarrow> 'a)" where
  "tr_mark v t table =
     (if fst (trnext t) \<ge> 0 then tr_mark v (snd (trnext t)) (table(word_of_int (fst (trnext t)) := v)) else table)"
  by pat_completeness auto
termination
  by (relation "inv_image (less_than <*lex*> less_than) (\<lambda>(v, t, table). tr_measure t)")
    (auto simp: wf_lex_prod dest: trnext_decreases)

text \<open>
  The replacement character: the variable \<^verbatim>\<open>r\<close> is a signed \<^verbatim>\<open>char\<close>, so the byte 255 counts as the
  end, too; then the last character \<^verbatim>\<open>now\<close> is repeated.
\<close>

definition tr_repl :: "tr \<Rightarrow> u8 \<times> tr" where
  "tr_repl t = (let (r, t') = trnext t in (word_of_int (if r = - 1 \<or> r = 255 then now t' else r), t'))"

function tr_pairs :: "tr \<Rightarrow> tr \<Rightarrow> (u8 \<Rightarrow> u8) \<Rightarrow> (u8 \<Rightarrow> u8)" where
  "tr_pairs src repl tab =
     (if fst (trnext src) \<ge> 0
      then tr_pairs (snd (trnext src)) (snd (tr_repl repl)) (tab(word_of_int (fst (trnext src)) := fst (tr_repl repl)))
      else tab)"
  by pat_completeness auto
termination
  by (relation "inv_image (less_than <*lex*> less_than) (\<lambda>(src, repl, tab). tr_measure src)")
    (auto simp: wf_lex_prod dest: trnext_decreases)

declare tr_mark.simps [simp del] tr_pairs.simps [simp del]

text \<open>The complement: bytes that are not marked take the replacement characters in order.\<close>

fun tr_complement :: "(u8 \<Rightarrow> bool) \<Rightarrow> tr \<Rightarrow> u8 list \<Rightarrow> (u8 \<Rightarrow> u8) \<Rightarrow> (u8 \<Rightarrow> u8)" where
  "tr_complement marked repl [] tab = tab"
| "tr_complement marked repl (i # is) tab =
     (if marked i then tr_complement marked repl is (tab(i := i))
      else let (c, repl') = trnext repl
           in tr_complement marked repl' is (tab(i := word_of_int (if c = - 1 then now repl' else c))))"

definition all_bytes :: "u8 list" where
  "all_bytes = map word_of_nat [0..<256]"

definition tr_table :: "u8 list \<Rightarrow> u8 list \<Rightarrow> (u8 \<Rightarrow> u8)" where
  "tr_table src repl =
     (if length src > 2 \<and> src ! 0 = 94
      then tr_complement (tr_mark True (tr_init (tl src)) (\<lambda>_. False)) (tr_init repl) all_bytes (\<lambda>_. 1)
      else tr_pairs (tr_init src) (tr_init repl) id)"

fun tr_s_loop :: "(u8 \<Rightarrow> u8) \<Rightarrow> int \<Rightarrow> u8 list \<Rightarrow> u8 list" where
  "tr_s_loop tab c0 [] = []"
| "tr_s_loop tab c0 (b # bs) =
     (let c = tab b in
      if b = c \<or> uint c \<noteq> c0 then c # tr_s_loop tab (if b = c then - 1 else uint c) bs
      else tr_s_loop tab c0 bs)"

text \<open>\<^verbatim>\<open>tr_setup_table\<close>: the bytes of the set, or of its complement after \<^verbatim>\<open>^\<close>.\<close>

definition tr_setup_table :: "u8 list \<Rightarrow> (u8 \<Rightarrow> bool)" where
  "tr_setup_table bs =
     (let cflag = (length bs > 1 \<and> bs ! 0 = 94)
      in tr_mark (\<not> cflag) (tr_init (if cflag then tl bs else bs)) (\<lambda>_. cflag))"

definition str_delete_bang :: "str_env \<Rightarrow> rstring \<Rightarrow> u8 list \<Rightarrow> rstring result" where
  "str_delete_bang E str cset = in_place E (filter (\<lambda>c. \<not> tr_setup_table cset c)) str"

definition str_delete :: "str_env \<Rightarrow> rstring \<Rightarrow> u8 list \<Rightarrow> rstring result" where
  "str_delete E str cset = bindR (str_dup E str) (\<lambda>s. str_delete_bang E s cset)"

definition tr_trans :: "str_env \<Rightarrow> rstring \<Rightarrow> u8 list \<Rightarrow> u8 list \<Rightarrow> bool \<Rightarrow> rstring result" where
  "tr_trans E str src repl sflag =
     (if repl = [] then str_delete_bang E str src
      else if sflag then in_place E (tr_s_loop (tr_table src repl) (- 1)) str
      else in_place E (map (tr_table src repl)) str)"

definition str_tr_bang :: "str_env \<Rightarrow> rstring \<Rightarrow> u8 list \<Rightarrow> u8 list \<Rightarrow> rstring result" where
  "str_tr_bang E str src repl = tr_trans E str src repl False"

definition str_tr :: "str_env \<Rightarrow> rstring \<Rightarrow> u8 list \<Rightarrow> u8 list \<Rightarrow> rstring result" where
  "str_tr E str src repl = bindR (str_dup E str) (\<lambda>s. tr_trans E s src repl False)"

definition str_tr_s_bang :: "str_env \<Rightarrow> rstring \<Rightarrow> u8 list \<Rightarrow> u8 list \<Rightarrow> rstring result" where
  "str_tr_s_bang E str src repl = tr_trans E str src repl True"

definition str_tr_s :: "str_env \<Rightarrow> rstring \<Rightarrow> u8 list \<Rightarrow> u8 list \<Rightarrow> rstring result" where
  "str_tr_s E str src repl = bindR (str_dup E str) (\<lambda>s. str_tr_s_bang E s src repl)"

text \<open>\<^verbatim>\<open>tr_squeeze\<close>: \<^verbatim>\<open>save\<close> is a signed \<^verbatim>\<open>char\<close> that starts as \<open>- 1\<close>.\<close>

fun squeeze_loop :: "(u8 \<Rightarrow> bool) \<Rightarrow> int \<Rightarrow> u8 list \<Rightarrow> u8 list" where
  "squeeze_loop squeez save [] = []"
| "squeeze_loop squeez save (c # cs) =
     (if sint c \<noteq> save \<or> \<not> squeez c then c # squeeze_loop squeez (sint c) cs
      else squeeze_loop squeez save cs)"

definition tr_squeeze :: "str_env \<Rightarrow> rstring \<Rightarrow> u8 list option \<Rightarrow> rstring result" where
  "tr_squeeze E str arg =
     in_place E (squeeze_loop (case arg of None \<Rightarrow> (\<lambda>_. True) | Some cset \<Rightarrow> tr_setup_table cset) (- 1)) str"

definition str_squeeze_bang :: "str_env \<Rightarrow> rstring \<Rightarrow> u8 list option \<Rightarrow> rstring result" where
  "str_squeeze_bang E str arg = tr_squeeze E str arg"

definition str_squeeze :: "str_env \<Rightarrow> rstring \<Rightarrow> u8 list option \<Rightarrow> rstring result" where
  "str_squeeze E str arg = bindR (str_dup E str) (\<lambda>s. str_squeeze_bang E s arg)"

section \<open>Splitting and trimming\<close>

text \<open>
  \<^verbatim>\<open>split\<close> on a separator of one byte: a state with the indexes \<^verbatim>\<open>beg\<close>, \<^verbatim>\<open>end\<close>, the flag \<^verbatim>\<open>skip\<close> and the
  count \<^verbatim>\<open>i\<close>; the pieces are pairs of a start and a length. \<open>lim\<close> is \<open>None\<close> for no limit.
\<close>

fun awk_loop :: "int option \<Rightarrow> u8 list \<Rightarrow> bool \<Rightarrow> int \<Rightarrow> int \<Rightarrow> int \<Rightarrow> (int \<times> int) list \<times> int" where
  "awk_loop lim [] skip beg end' i = ([], beg)"
| "awk_loop lim (c # cs) skip beg end' i =
     (if skip then
        if isspace c then awk_loop lim cs True (beg + 1) end' i
        else awk_loop lim cs False beg (beg + 1) i
      else if isspace c then
        (case lim of
           Some l \<Rightarrow> if l \<le> i + 1 then ([(beg, end' - beg)], end' + 1)
             else let (ps, b) = awk_loop lim cs True (end' + 1) end' (i + 1) in ((beg, end' - beg) # ps, b)
         | None \<Rightarrow> let (ps, b) = awk_loop lim cs True (end' + 1) end' i in ((beg, end' - beg) # ps, b))
      else awk_loop lim cs False beg (end' + 1) i)"

text \<open>The separator is a signed \<^verbatim>\<open>char\<close> and is compared with an unsigned byte.\<close>

fun sep_loop :: "int option \<Rightarrow> u8 \<Rightarrow> u8 list \<Rightarrow> int \<Rightarrow> int \<Rightarrow> int \<Rightarrow> (int \<times> int) list \<times> int" where
  "sep_loop lim sep [] beg end' i = ([], beg)"
| "sep_loop lim sep (c # cs) beg end' i =
     (if uint c = sint sep then
        (case lim of
           Some l \<Rightarrow> if l \<le> i + 1 then ([(beg, end' - beg)], end' + 1)
             else let (ps, b) = sep_loop lim sep cs (end' + 1) (end' + 1) (i + 1) in ((beg, end' - beg) # ps, b)
         | None \<Rightarrow> let (ps, b) = sep_loop lim sep cs (end' + 1) (end' + 1) i in ((beg, end' - beg) # ps, b))
      else sep_loop lim sep cs beg (end' + 1) i)"

definition sub_bytes :: "u8 list \<Rightarrow> int \<Rightarrow> int \<Rightarrow> u8 list" where
  "sub_bytes bs start len = take (nat len) (drop (nat start) bs)"

text \<open>
  The pieces of \<^verbatim>\<open>str_split_method\<close> for a separator of one byte other than zero (\<^verbatim>\<open>' '\<close> splits at
  white space); \<open>limit\<close> is the second argument.
\<close>

definition str_split_char :: "int option \<Rightarrow> u8 \<Rightarrow> u8 list \<Rightarrow> u8 list list" where
  "str_split_char limit sep bs =
     (let lim = (if limit = Some 0 then None else limit) in
      if lim = Some 1 then [bs]
      else let (ps, beg) = (if sep = 32 then awk_loop lim bs True 0 0 1 else sep_loop lim sep bs 0 0 1)
           in map (\<lambda>(b, l). sub_bytes bs b l) ps @
              (if int (length bs) > beg then [sub_bytes bs beg (int (length bs) - beg)] else []))"

definition chop_bytes :: "u8 list \<Rightarrow> u8 list" where
  "chop_bytes bs =
     (if bs = [] then []
      else let bs' = butlast bs in
        if last bs = 10 \<and> bs' \<noteq> [] \<and> last bs' = 13 then butlast bs' else bs')"

definition str_chop_bang :: "str_env \<Rightarrow> rstring \<Rightarrow> rstring result" where
  "str_chop_bang E = in_place E chop_bytes"

definition str_chop :: "str_env \<Rightarrow> rstring \<Rightarrow> rstring result" where
  "str_chop E str = bindR (str_dup E str) (str_chop_bang E)"

definition strip_bytes :: "u8 list \<Rightarrow> u8 list" where
  "strip_bytes bs = rev (dropWhile isspace (rev (dropWhile isspace bs)))"

definition str_strip_bang :: "str_env \<Rightarrow> rstring \<Rightarrow> rstring result" where
  "str_strip_bang E = in_place E strip_bytes"

definition str_strip :: "str_env \<Rightarrow> rstring \<Rightarrow> rstring result" where
  "str_strip E str = bindR (str_dup E str) (str_strip_bang E)"

section \<open>Justification, sums, inspection\<close>

definition str_just ::
  "str_env \<Rightarrow> rstring \<Rightarrow> int \<Rightarrow> (int \<Rightarrow> u8 list \<Rightarrow> u8 list) \<Rightarrow> rstring result" where
  "str_just E str width lay =
     (if slen str \<ge> U32 width then Inr str
      else bindR (str_new E None width) (\<lambda>res.
           bindR (contents str) (\<lambda>bs.
           bindR (write_bytes (sptr res) 0 (lay (width - slen str) bs)) (\<lambda>p. Inr (res\<lparr>sptr := p\<rparr>)))))"

definition str_ljust :: "str_env \<Rightarrow> rstring \<Rightarrow> int \<Rightarrow> rstring result" where
  "str_ljust E str width = str_just E str width (\<lambda>n bs. bs @ replicate (nat n) 32)"

definition str_rjust :: "str_env \<Rightarrow> rstring \<Rightarrow> int \<Rightarrow> rstring result" where
  "str_rjust E str width = str_just E str width (\<lambda>n bs. replicate (nat n) 32 @ bs)"

definition str_center :: "str_env \<Rightarrow> rstring \<Rightarrow> int \<Rightarrow> rstring result" where
  "str_center E str width = str_just E str width (\<lambda>n bs.
     replicate (nat (n div 2)) 32 @ bs @ replicate (nat (n - n div 2)) 32)"

text \<open>
  \<^verbatim>\<open>str_sum\<close> for at most 32 bits; a shift by 32 is not defined in C and is left out.
\<close>

fun sum_loop :: "u32 \<Rightarrow> u32 \<Rightarrow> u8 list \<Rightarrow> u32 result" where
  "sum_loop mod' res [] = Inr res"
| "sum_loop mod' res (c # cs) =
     (if mod' = 0 then Inl (Fatal ''division by zero'') else sum_loop mod' ((res + ucast c) mod mod') cs)"

definition str_sum :: "nat \<Rightarrow> u8 list \<Rightarrow> u32 result" where
  "str_sum bits bs = sum_loop (push_bit bits 1 - 1) 0 bs"

text \<open>
  \<^verbatim>\<open>str_inspect\<close> into a buffer of 80 bytes: \<open>b\<close> is what was written. \<open>mb\<close> is \<^verbatim>\<open>ismbchar\<close>.
\<close>

definition octal3 :: "u8 \<Rightarrow> u8 list" where
  "octal3 c = map (\<lambda>k. word_of_int (48 + (uint c div 8 ^ k) mod 8)) [2, 1, 0]"

definition escape :: "u8 \<Rightarrow> u8 list" where
  "escape c =
     (if c = 34 then [92, 34]
      else if c = 92 then [92, 92]
      else if isprint c then [c]
      else if c = 10 then [92, 110]
      else if c = 13 then [92, 114]
      else if c = 9 then [92, 116]
      else if c = 12 then [92, 102]
      else if c = 11 then [92, 118]
      else if c = 7 then [92, 97]
      else if c = 27 then [92, 101]
      else 92 # octal3 c)"

fun inspect_loop :: "(u8 \<Rightarrow> bool) \<Rightarrow> u8 list \<Rightarrow> u8 list \<Rightarrow> u8 list" where
  "inspect_loop mb [] b = b"
| "inspect_loop mb [c] b =
     (if int (length b) + int (length (escape c)) > 80 - 4 then b @ [46, 46, 46] else b @ escape c)"
| "inspect_loop mb (c # d # cs) b =
     (let out = (if mb c then [c, d] else escape c); rest = (if mb c then cs else d # cs)
      in if int (length b) + int (length out) > 80 - 4 then b @ [46, 46, 46]
         else inspect_loop mb rest (b @ out))"

definition str_inspect :: "(u8 \<Rightarrow> bool) \<Rightarrow> u8 list \<Rightarrow> u8 list" where
  "str_inspect mb bs = inspect_loop mb bs [34] @ [34]"

text \<open>
  \<^verbatim>\<open>str_reverse\<close>, and \<^verbatim>\<open>str_reverse_bang\<close>, which fills a buffer on the stack and copies back from
  the pointer that the loop has moved to the end of the buffer.
\<close>

definition str_reverse :: "u8 list \<Rightarrow> u8 list" where
  "str_reverse bs = rev bs"

definition str_reverse_bang :: "rstring \<Rightarrow> rstring result" where
  "str_reverse_bang str =
     bindR (contents str) (\<lambda>bs.
     bindR (copy_cells (sptr str) 0 (map Some (rev bs)) (slen str) (slen str)) (\<lambda>p.
       Inr (str\<lparr>sptr := p\<rparr>)))"

section \<open>Operations in place\<close>

lemma read_bytes_ok: "holds (drop (nat i) p) bs \<Longrightarrow> 0 \<le> i \<Longrightarrow> read_bytes p i (length bs) = Inr bs"
proof (induction bs arbitrary: i)
  case (Cons c bs)
  note H = holds_drop_Cons [OF Cons.prems]
  show ?case using H(1) Cons.IH [OF H(2)] Cons.prems(2) by simp
qed simp

lemma write_bytes_ok:
  "holds p bs \<Longrightarrow> length bs + length cs \<le> length p \<Longrightarrow>
     \<exists>q. write_bytes p (int (length bs)) cs = Inr q \<and> length q = length p \<and> holds q (bs @ cs)"
proof (induction cs arbitrary: p bs)
  case (Cons c cs)
  have l: "length bs < length p" using Cons.prems(2) by simp
  have "set_cell p (int (length bs)) c = Inr (p[length bs := Some c])" using l by (simp add: set_cell_in)
  then show ?case
    using Cons.IH [OF holds_snoc [OF Cons.prems(1) l, of c]] Cons.prems(2) by (auto simp: add.commute)
qed simp

lemma in_place_ok:
  assumes "s_usable E" "is_string s bs" "\<not> sfrozen s" "length (f bs) \<le> length bs"
  shows "\<exists>s'. in_place E f s = Inr s' \<and> is_string s' (f bs) \<and> \<not> sfrozen s'"
proof -
  obtain t where t: "str_modify E s = Inr t" "is_string t bs" "\<not> sfrozen t" using str_modify_ok [OF assms(1-3)] by auto
  note T = is_stringD [OF t(2)]
  have c: "contents t = Inr bs" using read_bytes_ok [of 0 "sptr t" bs] T(4,6) by (simp add: contents_def)
  have "length [] + length (f bs @ [0]) \<le> length (sptr t)" using assms(4) T(5) by simp
  from write_bytes_ok [OF holds_Nil this] obtain q where q: "write_bytes (sptr t) 0 (f bs @ [0]) = Inr q" "holds q (f bs @ [0])"
    by auto
  show ?thesis using t(1,3) c q assms(4) T(2) by (simp add: in_place_def is_string_def)
qed

section \<open>Successor of decimal numbers\<close>

primrec dec_val :: "u8 list \<Rightarrow> int" where
  "dec_val [] = 0"
| "dec_val (c # cs) = (uint c - 48) * 10 ^ length cs + dec_val cs"

lemma dec_val_snoc: "dec_val (cs @ [c]) = dec_val cs * 10 + (uint c - 48)"
  by (induction cs) (auto simp: algebra_simps)

lemma dec_val_bounds: "list_all isdigit cs \<Longrightarrow> 0 \<le> dec_val cs \<and> dec_val cs < 10 ^ length cs"
proof (induction cs)
  case (Cons c cs)
  have "0 \<le> uint c - 48" "uint c - 48 \<le> 9" using Cons.prems by (simp_all add: isdigit_def between_def)
  then have "0 \<le> (uint c - 48) * 10 ^ length cs" "(uint c - 48) * 10 ^ length cs \<le> 9 * 10 ^ length cs"
    by (simp, intro mult_right_mono) simp_all
  moreover have "0 \<le> dec_val cs" "dec_val cs < 10 ^ length cs" using Cons by simp_all
  ultimately show ?case unfolding dec_val.simps length_Cons power_Suc by (intro conjI; linarith)
qed simp

lemma uint_inc: "uint (c :: u8) < 255 \<Longrightarrow> uint (c + 1) = uint c + 1"
  by (simp add: uint_word_ariths)

lemma succ_char_digit:
  "isdigit c \<Longrightarrow> succ_char c = (if uint c = 57 then (48, 49) else (c + 1, 0))"
  by (auto simp: succ_char_def isdigit_def between_def word_uint_eq_iff)

lemma succ_loop_digits:
  "list_all isdigit bs \<Longrightarrow> k \<le> length bs \<Longrightarrow> c = 49 \<or> 0 < k \<Longrightarrow>
     (case succ_loop k c bs of (bs', c', st) \<Rightarrow>
        length bs' = length bs \<and> list_all isdigit bs' \<and> drop k bs' = drop k bs \<and> (\<not> st \<longrightarrow> c' = 49) \<and>
        dec_val (take k bs') + (if st then 0 else 10 ^ k) = dec_val (take k bs) + 1)"
proof (induction k arbitrary: c bs)
  case (Suc k)
  let ?d = "bs ! k"
  have k: "k < length bs" using Suc.prems(2) by simp
  have dg: "isdigit ?d" using Suc.prems(1) k by (simp add: list_all_length)
  have a: "isalnum ?d" using dg by (simp add: isalnum_def)
  have tk: "dec_val (take (Suc k) cs) = dec_val (take k cs) * 10 + (uint (cs ! k) - 48)" if "k < length cs" for cs
    using that by (simp add: take_Suc_conv_app_nth dec_val_snoc)
  show ?case
  proof (cases "uint ?d = 57")
    case False
    have u: "uint (?d + 1) = uint ?d + 1" using dg False by (intro uint_inc) (simp add: isdigit_def between_def)
    then have "isdigit (?d + 1)" using dg False by (auto simp: isdigit_def between_def)
    then have "list_all isdigit (bs[k := ?d + 1])" using Suc.prems(1) k by (auto simp: list_all_length nth_list_update)
    then show ?thesis using a succ_char_digit [OF dg] False k u tk [of "bs[k := ?d + 1]"] tk [OF k]
      by (simp add: Let_def)
  next
    case True
    let ?bs = "bs[k := 48]"
    have z: "isdigit 48" by (simp add: isdigit_def between_def)
    have d: "list_all isdigit ?bs" using Suc.prems(1) k z by (auto simp: list_all_length nth_list_update)
    obtain bs' c' st where r: "succ_loop k 49 ?bs = (bs', c', st)" by (metis prod_cases3)
    have ih: "length bs' = length bs" "list_all isdigit bs'" "drop k bs' = drop k ?bs" "\<not> st \<longrightarrow> c' = 49"
      "dec_val (take k bs') + (if st then 0 else 10 ^ k) = dec_val (take k bs) + 1"
      using Suc.IH [OF d, of 49] r k by auto
    have n: "bs' ! k = 48" using ih(1,3) k by (metis hd_drop_conv_nth length_list_update nth_list_update_eq)
    have dr: "drop (Suc k) bs' = drop (Suc k) bs"
      using ih(3) by (metis drop_Suc drop_update_cancel lessI tl_drop drop_drop plus_1_eq_Suc add.commute)
    have "succ_loop (Suc k) c bs = (bs', c', st)" using a succ_char_digit [OF dg] True r by (simp add: Let_def)
    moreover have "dec_val (take (Suc k) bs') + (if st then 0 else 10 ^ Suc k) = dec_val (take (Suc k) bs) + 1"
      using tk [of bs'] tk [OF k] ih(1,5) k n True by (auto split: if_splits)
    ultimately show ?thesis using ih dr by simp
  qed
qed auto

text \<open>
  The successor of a string of decimal digits is the string of decimal digits of the next
  number: of the same length, or one longer when all digits are 9.
\<close>
theorem str_succ_decimal:
  assumes "list_all isdigit bs" "bs \<noteq> []"
  shows "list_all isdigit (str_succ bs) \<and> dec_val (str_succ bs) = dec_val bs + 1 \<and>
    length (str_succ bs) = length bs + (if dec_val bs + 1 = 10 ^ length bs then 1 else 0)"
proof -
  obtain bs' c st where r: "succ_loop (length bs) (- 1) bs = (bs', c, st)" by (metis prod_cases3)
  have h: "length bs' = length bs" "list_all isdigit bs'" "\<not> st \<longrightarrow> c = 49"
    "dec_val bs' + (if st then 0 else 10 ^ length bs) = dec_val bs + 1"
    using succ_loop_digits [OF assms(1), of "length bs" "- 1"] assms(2) r by auto
  have bound: "0 \<le> dec_val cs \<and> dec_val cs < 10 ^ length cs" if "list_all isdigit cs" for cs
    using that by (rule dec_val_bounds)
  have one: "isdigit 49" by (simp add: isdigit_def between_def)
  show ?thesis
  proof (cases st)
    case True
    then show ?thesis using r h bound [OF h(2)] by (simp add: str_succ_def)
  next
    case False
    then show ?thesis using r h bound [OF h(2)] bound [OF assms(1)] one by (simp add: str_succ_def)
  qed
qed

theorem str_succ_decimal_witness:
  "dec_val (str_succ [49, 57, 57]) = 200 \<and> length (str_succ [49, 57, 57]) = 3"
  using str_succ_decimal [of "[49, 57, 57]"] by (simp add: isdigit_def between_def)

section \<open>Translation of ranges\<close>

lemma trnext_gen:
  "gen t \<Longrightarrow> now t + 1 < max_c t \<Longrightarrow> trnext t = (now t + 1, t\<lparr>now := now t + 1\<rparr>)"
  "gen t \<Longrightarrow> now t + 1 = max_c t \<Longrightarrow> trnext t = (max_c t, t\<lparr>now := max_c t, gen := False\<rparr>)"
  by (simp_all add: trnext_def)

lemma word_of_int_eq_u8: "0 \<le> k \<Longrightarrow> k < 256 \<Longrightarrow> (c :: u8) = word_of_int k \<longleftrightarrow> uint c = k"
  by (auto simp: word_uint_eq_iff unsigned_of_int take_bit_int_eq_self)

lemma shifted_byte: "0 \<le> k \<Longrightarrow> k < 256 \<Longrightarrow> uint (c :: u8) = k \<Longrightarrow> (word_of_int (k - d) :: u8) = c - word_of_int d"
  by (metis word_of_int_uint wi_hom_sub)

text \<open>Two ranges of the same length that are being generated in step, \<open>d\<close> bytes apart.\<close>

lemma tr_pairs_range:
  assumes "0 < d"
  shows "a < m \<Longrightarrow> 0 \<le> a - d \<Longrightarrow> m < 256 \<Longrightarrow>
    tr_pairs \<lparr>gen = True, now = a, max_c = m, tp = []\<rparr> \<lparr>gen = True, now = a - d, max_c = m - d, tp = []\<rparr> tab =
      (\<lambda>c. if a < uint c \<and> uint c \<le> m then c - word_of_int d else tab c)"
proof (induction "nat (m - a)" arbitrary: a tab rule: less_induct)
  case less
  let ?s = "\<lparr>gen = True, now = a, max_c = m, tp = []\<rparr>" and ?r = "\<lparr>gen = True, now = a - d, max_c = m - d, tp = []\<rparr>"
  let ?tab = "tab(word_of_int (a + 1) := word_of_int (a + 1 - d))"
  have nd: "a + 1 - d < 255" using assms less.prems(1,3) by simp
  have u: "c = word_of_int (a + 1) \<longleftrightarrow> uint c = a + 1" for c :: u8
    using less.prems(1-3) assms by (intro word_of_int_eq_u8) simp_all
  have t: "?tab c = (if uint c = a + 1 then c - word_of_int d else tab c)" for c
    using shifted_byte [of "a + 1" c d] u [of c] less.prems(1-3) assms by auto
  show ?case
  proof (cases "a + 1 < m")
    case True
    have "tr_repl ?r = (word_of_int (a + 1 - d), ?r\<lparr>now := a + 1 - d\<rparr>)"
      using True nd less.prems(2) by (simp add: tr_repl_def trnext_def algebra_simps)
    then have "tr_pairs ?s ?r tab = tr_pairs (?s\<lparr>now := a + 1\<rparr>) (?r\<lparr>now := a + 1 - d\<rparr>) ?tab"
      using True less.prems(2) assms by (subst tr_pairs.simps) (simp add: trnext_gen(1))
    also have "\<dots> = (\<lambda>c. if a + 1 < uint c \<and> uint c \<le> m then c - word_of_int d else ?tab c)"
      using less.hyps [of "a + 1" ?tab] True less.prems by simp
    finally show ?thesis using t less.prems(1) by (auto simp: fun_eq_iff)
  next
    case False
    then have m: "m = a + 1" using less.prems(1) by simp
    have "tr_repl ?r = (word_of_int (a + 1 - d), ?r\<lparr>now := a + 1 - d, gen := False\<rparr>)"
      using nd less.prems(2) m by (simp add: tr_repl_def trnext_def algebra_simps)
    then have "tr_pairs ?s ?r tab = tr_pairs (?s\<lparr>now := a + 1, gen := False\<rparr>) (?r\<lparr>now := a + 1 - d, gen := False\<rparr>) ?tab"
      using less.prems(2) assms m by (subst tr_pairs.simps) (simp add: trnext_gen(2))
    also have "\<dots> = ?tab" by (subst tr_pairs.simps) (simp add: trnext_def)
    finally show ?thesis using t m by (auto simp: fun_eq_iff)
  qed
qed

lemma tr_table_ranges:
  assumes "uint lo < uint hi" "0 < d" "d \<le> uint lo" "lo \<noteq> 94"
  shows "tr_table [lo, 45, hi] [lo - word_of_int d, 45, hi - word_of_int d] =
    (\<lambda>c. if uint lo \<le> uint c \<and> uint c \<le> uint hi then c - word_of_int d else c)"
proof -
  have b: "uint hi < 256" "uint lo < 256" using uint_lt2p [of hi] uint_lt2p [of lo] by simp_all
  have sh: "uint (c - word_of_int d) = uint c - d" if "d \<le> uint c" for c :: u8
    using that assms(2) uint_lt2p [of c] by (simp add: uint_word_ariths uint_word_of_int_eq take_bit_eq_mod mod_simps)
  have ul: "uint (lo - word_of_int d) = uint lo - d" "uint (hi - word_of_int d) = uint hi - d"
    using sh [of lo] sh [of hi] assms by simp_all
  let ?s = "\<lparr>gen = True, now = uint lo, max_c = uint hi, tp = []\<rparr>"
  let ?r = "\<lparr>gen = True, now = uint lo - d, max_c = uint hi - d, tp = []\<rparr>"
  have n: "trnext (tr_init [lo, 45, hi]) = (uint lo, ?s)" using assms(1) by (simp add: trnext_def tr_init_def)
  have "trnext (tr_init [lo - word_of_int d, 45, hi - word_of_int d]) = (uint lo - d, ?r)"
    using assms(1) by (simp add: trnext_def tr_init_def ul)
  then have "tr_repl (tr_init [lo - word_of_int d, 45, hi - word_of_int d]) = (lo - word_of_int d, ?r)"
    using assms(2,3) b(2) shifted_byte [of "uint lo" lo d] by (simp add: tr_repl_def)
  then have "tr_table [lo, 45, hi] [lo - word_of_int d, 45, hi - word_of_int d] = tr_pairs ?s ?r (id(lo := lo - word_of_int d))"
    unfolding tr_table_def using assms(4) n by (subst tr_pairs.simps) simp
  also have "\<dots> = (\<lambda>c. if uint lo < uint c \<and> uint c \<le> uint hi then c - word_of_int d else (id(lo := lo - word_of_int d)) c)"
    using tr_pairs_range [OF assms(2), of "uint lo" "uint hi"] assms(1,3) b by simp
  also have "\<dots> = (\<lambda>c. if uint lo \<le> uint c \<and> uint c \<le> uint hi then c - word_of_int d else c)"
  proof
    fix c :: u8
    have "uint c = uint lo \<longleftrightarrow> c = lo" by (simp add: word_uint_eq_iff)
    then show "(if uint lo < uint c \<and> uint c \<le> uint hi then c - word_of_int d else (id(lo := lo - word_of_int d)) c) =
        (if uint lo \<le> uint c \<and> uint c \<le> uint hi then c - word_of_int d else c)"
      using assms(1) by (cases "c = lo") auto
  qed
  finally show ?thesis .
qed

text \<open>
  C25: \<^verbatim>\<open>tr('a-z', 'A-Z')\<close> is \<^verbatim>\<open>upcase\<close>, and \<^verbatim>\<open>upcase\<close> returns a well-formed string with the small letters
  replaced. A range with equal ends in the replacement is generated twice and then
  overrun: \<^verbatim>\<open>tr('abc', 'x-x')\<close> turns \<^verbatim>\<open>c\<close> into \<^verbatim>\<open>y\<close>.
\<close>
theorem tr_upcase:
  "str_tr E str [97, 45, 122] [65, 45, 90] = str_upcase E str \<and>
   (s_usable E \<and> is_string s bs \<longrightarrow> (\<exists>s'. str_upcase E s = Inr s' \<and> is_string s' (map toupper bs))) \<and>
   map (tr_table [97, 98, 99] [120, 45, 120]) [97, 98, 99] = [120, 120, 121]"
proof (intro conjI impI)
  have "tr_table [97, 45, 122] [65, 45, 90] = (\<lambda>c. if islower c then toupper c else c)"
    using tr_table_ranges [of 97 122 32] by (simp add: fun_eq_iff islower_def between_def toupper_def)
  then show "str_tr E str [97, 45, 122] [65, 45, 90] = str_upcase E str"
    by (simp add: str_tr_def str_upcase_def tr_trans_def str_upcase_bang_def)
  show "map (tr_table [97, 98, 99] [120, 45, 120]) [97, 98, 99] = [120, 120, 121]"
    by (simp add: tr_table_def tr_pairs.simps tr_repl_def trnext_def tr_init_def)
  assume a: "s_usable E \<and> is_string s bs"
  then obtain t where t: "str_dup E s = Inr t" "is_string t bs" "\<not> sfrozen t" using str_dup_ok by blast
  have "(\<lambda>c. if islower c then toupper c else c) = toupper" by (simp add: fun_eq_iff toupper_def)
  with t in_place_ok [OF _ t(2,3), of E "map toupper"] a show "\<exists>s'. str_upcase E s = Inr s' \<and> is_string s' (map toupper bs)"
    by (auto simp: str_upcase_def str_upcase_bang_def)
qed

theorem tr_upcase_witness:
  "\<exists>s'. str_tr sample_str_env (bytes_string [97, 66]) [97, 45, 122] [65, 45, 90] = Inr s' \<and> is_string s' [65, 66]"
  using tr_upcase [of sample_str_env "bytes_string [97, 66]" "bytes_string [97, 66]" "[97, 66]"]
    sample_str_env_ok bytes_string_ok(1) [of "[97, 66]"] by (simp add: toupper_def islower_def between_def)

section \<open>Inspection\<close>

lemma escape_length: "length (escape c) \<le> 4"
  by (simp add: escape_def octal3_def)

lemma inspect_loop_length: "length b \<le> 76 \<Longrightarrow> length (inspect_loop mb bs b) \<le> 79"
  by (induction mb bs b rule: inspect_loop.induct) (auto simp: Let_def)

lemma inspect_loop_short:
  "\<forall>c\<in>set bs. \<not> mb c \<Longrightarrow> length b + length (concat (map escape bs)) \<le> 76 \<Longrightarrow>
     inspect_loop mb bs b = b @ concat (map escape bs)"
  by (induction mb bs b rule: inspect_loop.induct) (auto simp: Let_def)

text \<open>
  \<^verbatim>\<open>inspect\<close> never writes more than the 80 bytes of its buffer, whatever the string; strings
  whose escaped bytes fit are shown completely between quotes.
\<close>
theorem str_inspect_bound:
  "length (str_inspect mb bs) \<le> 80 \<and>
   ((\<forall>c\<in>set bs. \<not> mb c) \<and> length (concat (map escape bs)) \<le> 75 \<longrightarrow>
      str_inspect mb bs = [34] @ concat (map escape bs) @ [34])"
  using inspect_loop_length [of "[34]" mb bs] inspect_loop_short [of bs mb "[34]"] by (simp add: str_inspect_def)

theorem str_inspect_bound_witness:
  "str_inspect (\<lambda>_. False) [97, 10, 1] = [34, 97, 92, 110, 92, 48, 48, 49, 34]"
proof -
  have e: "escape 97 = [97]" "escape 10 = [92, 110]" "escape 1 = [92, 48, 48, 49]"
    by (simp_all add: escape_def isprint_def between_def octal3_def)
  then show ?thesis using str_inspect_bound [of "\<lambda>_. False" "[97, 10, 1]"] by simp
qed

section \<open>Splitting at a byte\<close>

fun split_spec :: "u8 \<Rightarrow> u8 list \<Rightarrow> u8 list \<Rightarrow> u8 list list \<times> u8 list" where
  "split_spec sep cur [] = ([], cur)"
| "split_spec sep cur (c # cs) =
     (if c = sep then let (ps, r) = split_spec sep [] cs in (cur # ps, r) else split_spec sep (cur @ [c]) cs)"

lemma split_spec_join:
  "concat (map (\<lambda>p. p @ [sep]) (fst (split_spec sep cur cs))) @ snd (split_spec sep cur cs) = cur @ cs"
  by (induction sep cur cs rule: split_spec.induct) (auto simp: case_prod_unfold Let_def)

lemma split_spec_free:
  "sep \<notin> set cur \<Longrightarrow> (\<forall>p\<in>set (fst (split_spec sep cur cs)). sep \<notin> set p) \<and> sep \<notin> set (snd (split_spec sep cur cs))"
  by (induction sep cur cs rule: split_spec.induct) (auto simp: case_prod_unfold Let_def)

lemma sep_loop_spec:
  assumes "uint sep < 128"
  shows "bs = pre @ cs \<Longrightarrow> beg \<le> length pre \<Longrightarrow>
    (case sep_loop None sep cs (int beg) (int (length pre)) i of (ps, e) \<Rightarrow>
       (map (\<lambda>(b, l). sub_bytes bs b l) ps, drop (nat e) bs) = split_spec sep (drop beg pre) cs \<and> 0 \<le> e \<and> nat e \<le> length bs)"
proof (induction cs arbitrary: pre beg i)
  case (Cons c cs)
  have s: "sint sep = uint sep" using assms by (simp add: sint_eq_uint_if)
  have l: "int (length pre) + 1 = int (length (pre @ [c]))" by simp
  have bs: "bs = (pre @ [c]) @ cs" using Cons.prems(1) by simp
  show ?case
  proof (cases "c = sep")
    case True
    have p: "sub_bytes bs (int beg) (int (length pre) - int beg) = drop beg pre"
    proof -
      have "nat (int (length pre) - int beg) = length pre - beg" by linarith
      then show ?thesis using Cons.prems by (simp add: sub_bytes_def)
    qed
    have d: "drop (length (pre @ [c])) (pre @ [c]) = []" by (rule drop_all) simp
    let ?n = "int (length (pre @ [c]))"
    obtain ps e where r: "sep_loop None sep cs ?n ?n i = (ps, e)" by fastforce
    have ih: "(map (\<lambda>(b, l). sub_bytes bs b l) ps, drop (nat e) bs) = split_spec sep [] cs" "0 \<le> e" "nat e \<le> length bs"
      using Cons.IH [OF bs, of "length (pre @ [c])" i] unfolding r d by simp_all
    have "sep_loop None sep (c # cs) (int beg) (int (length pre)) i = ((int beg, int (length pre) - int beg) # ps, e)"
      using True s r unfolding sep_loop.simps l by simp
    moreover have "split_spec sep (drop beg pre) (c # cs) = (drop beg pre # map (\<lambda>(b, l). sub_bytes bs b l) ps, drop (nat e) bs)"
      using True by (simp flip: ih(1))
    ultimately show ?thesis using ih(2,3) p by simp
  next
    case False
    then have "uint c \<noteq> sint sep" using s by (simp add: word_uint_eq_iff)
    then show ?thesis
      using Cons.IH [OF bs, of beg i] False Cons.prems(2) unfolding sep_loop.simps l by simp
  qed
qed (simp add: sub_bytes_def)

text \<open>
  C15: Splitting at a byte below 128 other than zero and the space, without a limit, gives pieces that do not contain the
  byte, and joining the pieces with it gives the string back, up to one trailing separator.
  A separator of 128 or more never matches, so such a string is never split.
\<close>
theorem str_split_join:
  assumes "sep \<noteq> 32" "sep \<noteq> 0"
  shows "if uint sep < 128
    then (\<forall>p\<in>set (str_split_char None sep bs). sep \<notin> set p) \<and>
      concat (map (\<lambda>p. p @ [sep]) (str_split_char None sep bs)) = (if bs = [] \<or> last bs = sep then bs else bs @ [sep])
    else str_split_char None sep bs = (if bs = [] then [] else [bs])"
proof (cases "uint sep < 128")
  case True
  obtain ps e where r: "sep_loop None sep bs 0 0 1 = (ps, e)" by fastforce
  let ?S = "split_spec sep [] bs"
  have h: "(map (\<lambda>(b, l). sub_bytes bs b l) ps, drop (nat e) bs) = ?S" "0 \<le> e" "nat e \<le> length bs"
    using sep_loop_spec [OF True, of bs "[]" bs 0 1] r by simp_all
  have d: "snd ?S = drop (nat e) bs" using h(1) by (metis snd_conv)
  have rest: "sub_bytes bs e (int (length bs) - e) = snd ?S"
    using h(2,3) unfolding d by (simp add: sub_bytes_def nat_diff_distrib)
  have more: "int (length bs) > e \<longleftrightarrow> snd ?S \<noteq> []" using h(2,3) unfolding d by auto
  have res: "str_split_char None sep bs = fst ?S @ (if snd ?S = [] then [] else [snd ?S])"
  proof -
    have "map (\<lambda>(b, l). sub_bytes bs b l) ps = fst ?S" using h(1) by (metis fst_conv)
    then show ?thesis using assms(1) r rest more by (simp add: str_split_char_def)
  qed
  have j: "concat (map (\<lambda>p. p @ [sep]) (fst ?S)) @ snd ?S = bs" using split_spec_join [of sep "[]" bs] by simp
  have f: "\<forall>p\<in>set (fst ?S). sep \<notin> set p" "sep \<notin> set (snd ?S)" using split_spec_free [of sep "[]" bs] by auto
  have "snd ?S = [] \<longleftrightarrow> bs = [] \<or> last bs = sep"
  proof
    assume e: "snd ?S = []"
    show "bs = [] \<or> last bs = sep"
    proof (cases "fst ?S" rule: rev_cases)
      case (snoc qs q)
      then have "bs = (concat (map (\<lambda>p. p @ [sep]) qs) @ q) @ [sep]" using j e by simp
      then show ?thesis by simp
    qed (use j e in simp)
  next
    assume "bs = [] \<or> last bs = sep"
    then show "snd ?S = []" using j f(2) by (metis last_appendR last_in_set append_is_Nil_conv)
  qed
  then show ?thesis using True res j f by (auto simp: ac_simps)
next
  case False
  have s: "sint sep < 0" using False uint_lt2p [of sep] by (simp add: sint_eq_uint_if)
  have n: "uint c \<noteq> sint sep" for c :: u8 using s by (metis not_less uint_0_iff uint_ge_0)
  have "sep_loop None sep cs b e i = ([], b)" for cs b e i
    by (induction cs arbitrary: e) (simp_all add: n)
  then show ?thesis using False assms(1) by (simp add: str_split_char_def sub_bytes_def)
qed

theorem str_split_join_witness:
  "concat (map (\<lambda>p. p @ [44]) (str_split_char None 44 [97, 44, 98])) = [97, 44, 98, 44]"
  using str_split_join [of 44 "[97, 44, 98]"] by simp

end
