(* ===== verification/BigStr.thy ===== *)
theory BigStr
  imports BigDiv StrText
begin

text \<open>
  Integers and text: \<^verbatim>\<open>str2inum\<close>, \<^verbatim>\<open>big2str\<close> and \<^verbatim>\<open>fix2str\<close> of \<^verbatim>\<open>src/bignum.c\<close> and \<^verbatim>\<open>src/numeric.c\<close>, with
  \<^verbatim>\<open>strtoul\<close> of \<^verbatim>\<open>src/missing/strtoul.c\<close> and the digit scanners of \<^verbatim>\<open>src/util.c\<close>. A C string is the
  list of its bytes before the terminating zero.
\<close>

section \<open>Scanning digits\<close>

fun scan_oct_loop :: "nat \<Rightarrow> u8 list \<Rightarrow> u32 \<Rightarrow> nat \<Rightarrow> u32 \<times> nat" where
  "scan_oct_loop (Suc len) (c # cs) retval n =
     (if between 48 c 55 then scan_oct_loop len cs (push_bit 3 retval OR (ucast c - 48)) (Suc n) else (retval, n))"
| "scan_oct_loop _ _ retval n = (retval, n)"

definition scan_oct :: "u8 list \<Rightarrow> nat \<Rightarrow> u32 \<times> nat" where
  "scan_oct start len = scan_oct_loop len start 0 0"

text \<open>The position of the first occurrence in \<open>hexdigit\<close>, which ends with an \<^verbatim>\<open>x\<close>.\<close>

definition hexdigit_pos :: "u8 \<Rightarrow> u32 option" where
  "hexdigit_pos c =
     (if between 48 c 57 then Some (ucast c - 48)
      else if between 97 c 102 then Some (ucast c - 97 + 10)
      else if between 65 c 70 then Some (ucast c - 65 + 26)
      else if c = 120 then Some 32
      else None)"

fun scan_hex_loop :: "nat \<Rightarrow> u8 list \<Rightarrow> u32 \<Rightarrow> nat \<Rightarrow> u32 \<times> nat" where
  "scan_hex_loop (Suc len) (c # cs) retval n =
     (case hexdigit_pos c of
        Some p \<Rightarrow> scan_hex_loop len cs (push_bit 4 retval OR (p AND 15)) (Suc n)
      | None \<Rightarrow> (retval, n))"
| "scan_hex_loop _ _ retval n = (retval, n)"

definition scan_hex :: "u8 list \<Rightarrow> nat \<Rightarrow> u32 \<times> nat" where
  "scan_hex start len = scan_hex_loop len start 0 0"

section \<open>strtoul\<close>

text \<open>\<open>cvtIn\<close> on characters from \<^verbatim>\<open>'0'\<close> to \<^verbatim>\<open>'z'\<close>; 100 for characters that are no digits.\<close>

definition cvtIn :: "u8 \<Rightarrow> int" where
  "cvtIn c =
     (if between 48 c 57 then uint c - 48
      else if between 65 c 90 then uint c - 65 + 10
      else if between 97 c 122 then uint c - 97 + 10
      else 100)"

text \<open>
  The digit of a character in a base: the loops for 8 and 10 subtract \<^verbatim>\<open>'0'\<close>, the others use
  \<open>cvtIn\<close>.
\<close>

definition strtoul_digit :: "int \<Rightarrow> u8 \<Rightarrow> int option" where
  "strtoul_digit base c =
     (if base = 8 then (if between 48 c 55 then Some (uint c - 48) else None)
      else if base = 10 then (if between 48 c 57 then Some (uint c - 48) else None)
      else if cvtIn c < base then Some (cvtIn c) else None)"

fun strtoul_loop :: "int \<Rightarrow> u8 list \<Rightarrow> u32 \<Rightarrow> u32" where
  "strtoul_loop base [] res = res"
| "strtoul_loop base (c # cs) res =
     (case strtoul_digit base c of
        Some d \<Rightarrow> strtoul_loop base cs (res * word_of_int base + word_of_int d)
      | None \<Rightarrow> res)"

definition strtoul :: "u8 list \<Rightarrow> int \<Rightarrow> u32" where
  "strtoul s base =
     (let p = dropWhile isspace s in
      if base = 0 then
        (case p of
           c # p' \<Rightarrow>
             if c = 48 then
               (case p' of
                  d # p'' \<Rightarrow> if d = 120 then strtoul_loop 16 p'' 0 else strtoul_loop 8 p' 0
                | [] \<Rightarrow> strtoul_loop 8 p' 0)
             else strtoul_loop 10 p 0
         | [] \<Rightarrow> strtoul_loop 10 p 0)
      else if base = 16 then
        (case p of
           c # d # p' \<Rightarrow> if c = 48 \<and> d = 120 then strtoul_loop 16 p' 0 else strtoul_loop 16 p 0
         | _ \<Rightarrow> strtoul_loop 16 p 0)
      else strtoul_loop base p 0)"

section \<open>Reading integers\<close>

text \<open>The value of a character in the loop of \<^verbatim>\<open>str2inum\<close>; other characters end it.\<close>

definition inum_digit :: "u8 \<Rightarrow> int option" where
  "inum_digit c =
     (if between 48 c 57 then Some (uint c - 48)
      else if between 97 c 102 then Some (uint c - 97 + 10)
      else if between 65 c 70 then Some (uint c - 65 + 10)
      else None)"

text \<open>\<^verbatim>\<open>num += zds[i]*base; zds[i++] = BIGLO(num); num = BIGDN(num);\<close>\<close>

fun mul_add :: "u32 \<Rightarrow> u16 list \<Rightarrow> u32 \<Rightarrow> u16 list \<times> u32" where
  "mul_add base [] num = ([], num)"
| "mul_add base (d # ds) num =
     (let num = num + ucast d * base; (ts, r) = mul_add base ds (BIGDN num) in (BIGLO num # ts, r))"

text \<open>
  The digits above \<open>blen\<close> are zero: a carry takes another digit, of the \<open>cap\<close> that were
  allocated.
\<close>

function carry_out :: "nat \<Rightarrow> u16 list \<Rightarrow> u32 \<Rightarrow> u16 list result" where
  "carry_out cap ds num =
     (if num = 0 then Inr ds
      else if length ds < cap then carry_out cap (ds @ [BIGLO num]) (BIGDN num)
      else Inl OutOfBounds)"
  by pat_completeness auto
termination by (relation "measure (\<lambda>(cap, ds, num). cap - length ds)") auto

declare carry_out.simps [simp del]

fun inum_loop :: "int \<Rightarrow> nat \<Rightarrow> u8 list \<Rightarrow> u16 list \<Rightarrow> u16 list result" where
  "inum_loop base cap [] ds = Inr ds"
| "inum_loop base cap (c # cs) ds =
     (case inum_digit c of
        None \<Rightarrow> Inr ds
      | Some v \<Rightarrow>
          if v \<ge> base then Inr ds
          else let (ds', num) = mul_add (word_of_int base) ds (word_of_int v)
               in bindR (carry_out cap ds' num) (inum_loop base cap cs))"

text \<open>The prefix that selects the base when it is given as 0.\<close>

definition inum_base :: "u8 list \<Rightarrow> int \<Rightarrow> int \<times> u8 list \<times> bool" where
  "inum_base s base =
     (if base = 0 then
        (case s of
           c # s' \<Rightarrow>
             if c = 48 then
               let (b, s'') = (case s' of
                     d # s'' \<Rightarrow> if d = 120 \<or> d = 88 then (16, s'') else (8, s')
                   | [] \<Rightarrow> (8, s'))
               in (b, s'', s'' = [])
             else (10, s, False)
         | [] \<Rightarrow> (10, s, False))
      else (base, s, False))"

definition str2inum :: "u8 list \<Rightarrow> int \<Rightarrow> inum result" where
  "str2inum str base =
     (let s = dropWhile isspace str;
          neg = (s \<noteq> [] \<and> hd s = 45);
          s = (if neg then tl s else s);
          (base, s, zero) = inum_base s base;
          len = (if base = 8 then 3 else 4) * int (length s) mod 2 ^ 32
      in if zero then Inr (Fix (INT2FIX 0))
         else if len \<le> 32 then
           let val = strtoul s base in
           if uint val \<le> FIXNUM_MAX
           then Inr (Fix (INT2FIX (if neg then - val else val)))
           else Inr (Big ((uint2big val)\<lparr>bsign := \<not> neg\<rparr>))
         else
           let cap = nat (len div 16 + 1) in
           bindR (inum_loop base cap s [0]) (\<lambda>ds.
             Inr (bignorm (bignew (ds @ replicate (cap - length ds) 0) (\<not> neg)))))"

section \<open>Writing integers\<close>

definition hexmap :: "u32 \<Rightarrow> u8" where
  "hexmap c = (if uint c < 10 then 48 + ucast c else 87 + ucast c)"

text \<open>
  The four digits of a group, from the last; \<open>j\<close> is the index of the digit written last, \<open>out\<close>
  what stands from there on. \<open>zero\<close> says that no digits of the number are left.
\<close>

fun put_group :: "nat \<Rightarrow> u32 \<Rightarrow> bool \<Rightarrow> u32 \<Rightarrow> nat \<Rightarrow> u8 list \<Rightarrow> (nat \<times> u8 list) result" where
  "put_group 0 base zero num j out = Inr (j, out)"
| "put_group (Suc k) base zero num j out =
     (if j = 0 then Inl OutOfBounds
      else let out' = hexmap (num mod base) # out; num' = num div base
           in if zero \<and> num' = 0 then Inr (j - 1, out')
              else put_group k base zero num' (j - 1) out')"

lemma put_group_le: "put_group k base zero num j out = Inr (j', out') \<Longrightarrow> j' \<le> j"
  by (induction k arbitrary: num j out) (fastforce simp: Let_def split: if_splits)+

lemma put_group_less:
  assumes "put_group (Suc k) base zero num j out = Inr (j', out')"
  shows "j' < j"
proof -
  from assms have j: "0 < j" by (simp split: if_splits)
  with assms have "j' = j - 1 \<or> put_group k base zero (num div base) (j - 1) (hexmap (num mod base) # out) = Inr (j', out')"
    by (auto simp: Let_def split: if_splits)
  then have "j' \<le> j - 1" by (auto dest: put_group_le)
  with j show ?thesis by simp
qed

lemma put_group_4_less: "put_group 4 base zero num j out = Inr (j', out') \<Longrightarrow> j' < j"
  using put_group_less [of 3] by (simp del: put_group.simps)

function big2str_loop :: "u32 \<Rightarrow> u32 \<Rightarrow> u16 list \<Rightarrow> nat \<Rightarrow> nat \<Rightarrow> u8 list \<Rightarrow> (nat \<times> u8 list) result" where
  "big2str_loop base hbase ds i j out =
     (if i = 0 \<or> j = 0 then Inr (j, out)
      else let (ds', num) = div_digit hbase ds i 0;
               i' = (if ds' ! (i - 1) = 0 then i - 1 else i)
           in case put_group 4 base (i' = 0) num j out of
                Inl e \<Rightarrow> Inl e
              | Inr (j', out') \<Rightarrow> big2str_loop base hbase ds' i' j' out')"
  by pat_completeness auto
termination
  by (relation "measure (\<lambda>(base, hbase, ds, i, j, out). j)") (auto dest: put_group_4_less)

declare big2str_loop.simps [simp del]

text \<open>The size of the buffer and the divisor for four digits; \<^verbatim>\<open>sizeof(USHORT)*CHAR_BIT\<close> is 16.\<close>

definition str_room :: "nat \<Rightarrow> int \<Rightarrow> (nat \<times> u32) option" where
  "str_room i base =
     (if base = 10 then Some (16 * i * 241 mod 2 ^ 32 div 800 + 2, 10000)
      else if base = 16 then Some (16 * i mod 2 ^ 32 div 4 + 2, 65536)
      else if base = 8 then Some ((16 * i + 2) mod 2 ^ 32, 4096)
      else if base = 2 then Some ((16 * i + 2) mod 2 ^ 32, 16)
      else None)"

text \<open>
  At the end leading zeros are skipped and the text is moved behind the sign, which needs the
  first byte of the buffer.
\<close>

definition bignum2str :: "rbignum \<Rightarrow> int \<Rightarrow> u8 list result" where
  "bignum2str x base =
     (if blen x = 0 then Inr [48]
      else case str_room (blen x) base of
        None \<Rightarrow> Inl (Fail ''bignum cannot treat base %d'')
      | Some (j, hbase) \<Rightarrow>
          bindR (big2str_loop (word_of_int base) hbase (bds x) (blen x) j []) (\<lambda>(j', out).
            let out' = dropWhile (\<lambda>c. c = 48) out
            in if bsign x then Inr out'
               else if j' = 0 \<and> out' = out then Inl OutOfBounds
               else Inr (45 # out')))"

text \<open>
  \<^verbatim>\<open>fix2str\<close> prints with \<^verbatim>\<open>sprintf\<close>: \<^verbatim>\<open>%d\<close> signed, \<^verbatim>\<open>%x\<close> and \<^verbatim>\<open>%o\<close> the word as an unsigned number.
\<close>

fun digits_of :: "nat \<Rightarrow> nat \<Rightarrow> u8 list" where
  "digits_of base n =
     (if base \<le> 1 then []
      else if n < base then [hexmap (word_of_nat n)]
      else digits_of base (n div base) @ [hexmap (word_of_nat (n mod base))])"

declare digits_of.simps [simp del]

definition fix2str :: "u32 \<Rightarrow> int \<Rightarrow> u8 list result" where
  "fix2str x base =
     (let v = FIX2INT x in
      if base = 10 then Inr ((if sint v < 0 then [45] else []) @ digits_of 10 (nat \<bar>sint v\<bar>))
      else if base = 16 then Inr (digits_of 16 (unat v))
      else if base = 8 then Inr (digits_of 8 (unat v))
      else Inl (Fatal ''fixnum cannot treat base %d''))"

definition fix_to_s :: "u32 \<Rightarrow> u8 list result" where
  "fix_to_s x = fix2str x 10"

definition big2str :: "inum \<Rightarrow> int \<Rightarrow> u8 list result" where
  "big2str x base = (case x of Fix f \<Rightarrow> fix2str f base | Big x \<Rightarrow> bignum2str x base)"

definition big_to_s :: "inum \<Rightarrow> u8 list result" where
  "big_to_s x = big2str x 10"

section \<open>Strings as integers\<close>

definition str_to_i :: "rstring \<Rightarrow> inum result" where
  "str_to_i str = bindR (c_string (sptr str)) (\<lambda>s. str2inum s 10)"

definition str_hex :: "rstring \<Rightarrow> inum result" where
  "str_hex str = bindR (c_string (sptr str)) (\<lambda>s. str2inum s 16)"

definition str_oct :: "rstring \<Rightarrow> inum result" where
  "str_oct str = bindR (c_string (sptr str)) (\<lambda>s. str2inum s 8)"

lemma str_num_eq:
  assumes "is_string s cs" "0 \<notin> set cs"
  shows "str_to_i s = str2inum cs 10" "str_hex s = str2inum cs 16" "str_oct s = str2inum cs 8"
  using c_string_holds [of "sptr s" cs "[]"] assms
  by (simp_all add: is_string_def str_to_i_def str_hex_def str_oct_def)

section \<open>The number a text denotes\<close>

text \<open>
  \<open>text_val b cs\<close> reads the digits \<open>cs\<close> in base \<open>b\<close>, most significant first; \<open>is_text\<close> says that
  they are digits of that base.
\<close>

fun text_val :: "int \<Rightarrow> u8 list \<Rightarrow> int" where
  "text_val b [] = 0"
| "text_val b (c # cs) = the (inum_digit c) * b ^ length cs + text_val b cs"

definition is_text :: "int \<Rightarrow> u8 list \<Rightarrow> bool" where
  "is_text b cs \<longleftrightarrow> (\<forall>c\<in>set cs. case inum_digit c of None \<Rightarrow> False | Some v \<Rightarrow> v < b)"

lemma is_text_simps [simp]:
  "is_text b []"
  "is_text b (c # cs) \<longleftrightarrow> (\<exists>v. inum_digit c = Some v \<and> v < b) \<and> is_text b cs"
  "is_text b (cs @ cs') \<longleftrightarrow> is_text b cs \<and> is_text b cs'"
  by (auto simp: is_text_def split: option.splits)

lemma text_val_append: "text_val b (cs @ cs') = text_val b cs * b ^ length cs' + text_val b cs'"
  by (induction cs) (simp_all add: power_add algebra_simps)

lemma inum_digit_bounds: "inum_digit c = Some v \<Longrightarrow> 0 \<le> v \<and> v < 16"
  by (auto simp: inum_digit_def between_def split: if_splits)

lemma text_val_bounds: "is_text b cs \<Longrightarrow> 0 \<le> text_val b cs \<and> text_val b cs < b ^ length cs"
proof (induction cs)
  case (Cons c cs)
  then obtain v where v: "inum_digit c = Some v" "v + 1 \<le> b" by auto
  then have "0 \<le> v" using inum_digit_bounds by blast
  note v = v this
  have "(v + 1) * b ^ length cs \<le> b * b ^ length cs" using v by (intro mult_right_mono) auto
  moreover have "0 \<le> v * b ^ length cs" using v by simp
  ultimately show ?case using Cons v(1) by (auto simp: distrib_right)
qed simp

lemma is_text_nonzero: "is_text b cs \<Longrightarrow> 0 \<notin> set cs"
  by (auto simp: is_text_def inum_digit_def between_def)

lemma hexmap_digit: "uint d < 16 \<Longrightarrow> inum_digit (hexmap d) = Some (uint d)"
proof -
  assume d: "uint d < 16"
  have "uint (48 + ucast d :: u8) = 48 + uint d" "uint (87 + ucast d :: u8) = 87 + uint d"
    using d by (simp_all add: uint_word_ariths unsigned_ucast_eq take_bit_eq_mod)
  then show ?thesis using d by (simp add: hexmap_def inum_digit_def between_def)
qed

lemma hexmap_48: "uint d < 16 \<Longrightarrow> hexmap d = 48 \<longleftrightarrow> uint d = 0"
proof
  assume "uint d < 16" "hexmap d = 48"
  then have "inum_digit 48 = Some (uint d)" using hexmap_digit [of d] by simp
  then show "uint d = 0" by (simp add: inum_digit_def between_def)
next
  assume "uint d = 0"
  then have "d = 0" by (simp add: uint_0_iff)
  then show "hexmap d = 48" by (simp add: hexmap_def)
qed

section \<open>Writing\<close>

text \<open>
  A group is exactly four digits, or, when it is the last one, no more than its number needs.
\<close>

definition writes :: "int \<Rightarrow> bool \<Rightarrow> nat \<Rightarrow> int \<Rightarrow> u8 list \<Rightarrow> bool" where
  "writes b zero k n ds \<longleftrightarrow> is_text b ds \<and> ds \<noteq> [] \<and> length ds \<le> k \<and> text_val b ds = n \<and>
     (if zero then 0 < n \<longrightarrow> hd ds \<noteq> 48 else length ds = k)"

lemma writes_single:
  "uint d < b \<Longrightarrow> b \<le> 16 \<Longrightarrow> zero \<or> k = 1 \<Longrightarrow> 1 \<le> k \<Longrightarrow> writes b zero k (uint d) [hexmap d]"
  using hexmap_digit [of d] hexmap_48 [of d] by (auto simp: writes_def)

lemma writes_snoc:
  assumes "writes b zero k n ds" "uint d < b" "b \<le> 16" "zero \<Longrightarrow> 0 < n"
  shows "writes b zero (Suc k) (n * b + uint d) (ds @ [hexmap d])"
  using assms hexmap_digit [of d] by (auto simp: writes_def text_val_append)

lemma put_group_ok:
  assumes b: "2 \<le> uint b" "uint b \<le> 16"
  shows "uint num < uint b ^ Suc k \<Longrightarrow>
    \<exists>ds. writes (uint b) zero (Suc k) (uint num) ds \<and>
      (length ds \<le> j \<longrightarrow> put_group (Suc k) b zero num j out = Inr (j - length ds, ds @ out))"
proof (induction k arbitrary: num j out)
  case 0
  then have n: "num mod b = num" "num div b = 0"
    using b by (auto simp: word_uint_eq_iff uint_mod uint_div)
  show ?case using 0 b n writes_single [of num "uint b" zero 1]
    by (intro exI [of _ "[hexmap num]"]) (auto simp: Let_def)
next
  case (Suc k)
  let ?d = "num mod b" and ?n = "num div b"
  have d: "uint ?d < uint b" using b by (simp add: uint_mod)
  have num: "uint num = uint ?n * uint b + uint ?d" by (simp add: uint_div uint_mod)
  show ?case
  proof (cases "zero \<and> ?n = 0")
    case True
    then show ?thesis using d b num writes_single [of ?d "uint b" zero "Suc (Suc k)"]
      by (intro exI [of _ "[hexmap ?d]"]) (auto simp: Let_def)
  next
    case False
    have "uint ?n < uint b ^ Suc k"
      using Suc.prems b by (auto simp: uint_div mult.commute intro!: div_less_bound)
    then obtain ds where ds: "writes (uint b) zero (Suc k) (uint ?n) ds"
      "length ds \<le> j - 1 \<longrightarrow> put_group (Suc k) b zero ?n (j - 1) (hexmap ?d # out)
         = Inr (j - 1 - length ds, ds @ hexmap ?d # out)"
      using Suc.IH by blast
    have "0 < uint ?n" if zero using False that by (simp add: word_neq_0_conv word_less_def)
    then have "writes (uint b) zero (Suc (Suc k)) (uint num) (ds @ [hexmap ?d])"
      unfolding num using ds(1) d b by (intro writes_snoc) auto
    moreover have "put_group (Suc (Suc k)) b zero num j out
        = Inr (j - length (ds @ [hexmap ?d]), (ds @ [hexmap ?d]) @ out)" if "length (ds @ [hexmap ?d]) \<le> j"
    proof -
      have "put_group (Suc (Suc k)) b zero num j out = put_group (Suc k) b zero ?n (j - 1) (hexmap ?d # out)"
        using False that by (subst put_group.simps) (auto simp: Let_def simp del: put_group.simps)
      then show ?thesis using ds(2) that by simp
    qed
    ultimately show ?thesis by blast
  qed
qed

text \<open>
  Dividing by \<open>h \<le> 65536\<close> a number whose top digit is not zero clears at most the top digit.
\<close>

lemma div_digit_top:
  assumes h: "1 < uint h" "uint h \<le> 65536" and i: "0 < i" "i \<le> length ds" "ds ! (i - 1) \<noteq> 0"
    and d: "div_digit h ds i 0 = (ds', num)"
    and i': "i' = (if ds' ! (i - 1) = 0 then i - 1 else i)"
  shows "ds_val (take i' ds') = ds_val (take i ds) div uint h" "uint num = ds_val (take i ds) mod uint h"
    "i' \<le> length ds'" "i' \<noteq> 0 \<Longrightarrow> ds' ! (i' - 1) \<noteq> 0"
proof -
  let ?v = "ds_val (take i ds)" and ?q = "ds_val (take i ds')"
  have l: "length ds' = length ds" and r: "uint num < uint h" and v: "?v = uint h * ?q + uint num"
    using div_digit_val [OF _ h(2) i(2) _ d] h by auto
  obtain k where k: "i = Suc k" using i(1) by (cases i) auto
  have take_i: "?q = ds_val (take k ds') + 65536 ^ k * uint (ds' ! k)"
    using i(2) l k by (simp add: ds_val_take_Suc)
  then have q: "ds_val (take i' ds') = ?q" using i' k by auto
  show "ds_val (take i' ds') = ?v div uint h" "uint num = ?v mod uint h"
    using v r h unfolding q by auto
  show "i' \<le> length ds'" using i i' l by auto
  show "ds' ! (i' - 1) \<noteq> 0" if "i' \<noteq> 0"
  proof (cases "ds' ! k = 0")
    case True
    with that i' k obtain m where m: "k = Suc m" "i' = k" by (cases k) auto
    have "65536 ^ k \<le> ?v" using ds_val_top [of k ds] i k by simp
    then have "65536 * 65536 ^ m < uint h * (?q + 1)" using v r unfolding m distrib_left by simp
    also have "\<dots> \<le> 65536 * (?q + 1)"
      using h ds_val_nonneg [of "take i ds'"] by (intro mult_right_mono) auto
    finally have "65536 ^ m \<le> ?q" by simp
    moreover have "?q = ds_val (take m ds') + 65536 ^ m * uint (ds' ! m)"
      using take_i True m i(2) l k by (simp add: ds_val_take_Suc)
    moreover have "ds_val (take m ds') < 65536 ^ m"
      using ds_val_less [of "take m ds'"] i(2) l k m by simp
    ultimately have "ds' ! m \<noteq> 0" by auto
    then show ?thesis using m by simp
  qed (use i' k in auto)
qed

lemma writes_append:
  assumes "writes b True k n es" "writes b False m d gs" "0 < n"
  shows "writes b True (k + m) (n * b ^ m + d) (es @ gs)"
  using assms by (auto simp: writes_def text_val_append)

lemma writes_length:
  assumes "writes b True k n es" "0 < n" "n < b ^ j" "2 \<le> b"
  shows "length es \<le> j"
proof -
  obtain c cs where es: "es = c # cs" "c \<noteq> 48" "is_text b (c # cs)" "text_val b (c # cs) = n"
    using assms(1,2) by (cases es) (auto simp: writes_def)
  then obtain v where v: "inum_digit c = Some v" by auto
  have "v \<noteq> 0" using v es(2) by (auto simp: inum_digit_def between_def word_uint_eq_iff split: if_splits)
  with inum_digit_bounds [OF v] have "1 * b ^ length cs \<le> v * b ^ length cs"
    using assms(4) by (intro mult_right_mono) auto
  moreover have "0 \<le> text_val b cs" using es(3) text_val_bounds by auto
  ultimately have "b ^ length cs < b ^ j" using es(4) assms(3) v by simp
  then have "length cs < j" using assms(4) by (simp add: power_strict_increasing_iff)
  then show ?thesis using es(1) by simp
qed

lemma hbase_bounds:
  assumes "2 \<le> uint (base :: u32)" "uint base \<le> 16" "uint (hbase :: u32) = uint base ^ 4"
  shows "1 < uint hbase" "uint hbase \<le> 65536"
proof -
  have "uint base ^ 4 \<le> 16 ^ 4" "2 ^ 4 \<le> uint base ^ 4" using assms by (intro power_mono; simp)+
  then show "1 < uint hbase" "uint hbase \<le> 65536" unfolding assms(3) by auto
qed

lemma big2str_loop_step:
  assumes "0 < i" "0 < j" "div_digit hbase ds i 0 = (ds', num)" "i' = (if ds' ! (i - 1) = 0 then i - 1 else i)"
  shows "big2str_loop base hbase ds i j out =
      (case put_group 4 base (i' = 0) num j out of Inl e \<Rightarrow> Inl e
       | Inr (j', out') \<Rightarrow> big2str_loop base hbase ds' i' j' out')"
proof -
  have "\<not> (i = 0 \<or> j = 0)" using assms by simp
  then show ?thesis
    by (subst big2str_loop.simps) (simp only: if_False assms(3) Let_def prod.case assms(4) [symmetric])
qed

lemma big2str_loop_ok:
  assumes b: "2 \<le> uint base" "uint base \<le> 16" and h: "uint hbase = uint base ^ 4"
  shows "0 < i \<Longrightarrow> i \<le> length ds \<Longrightarrow> ds ! (i - 1) \<noteq> 0 \<Longrightarrow> ds_val (take i ds) < uint base ^ j \<Longrightarrow>
    \<exists>es. writes (uint base) True j (ds_val (take i ds)) es \<and>
      big2str_loop base hbase ds i j out = Inr (j - length es, es @ out)"
proof (induction j arbitrary: ds i out rule: less_induct)
  case (less j)
  let ?b = "uint base" and ?v = "ds_val (take i ds)"
  note hb = hbase_bounds [OF b h]
  have "0 < (65536 :: int) ^ (i - 1)" by simp
  also have "\<dots> \<le> ?v" using ds_val_top [of "i - 1" ds] less.prems by simp
  finally have v: "0 < ?v" .
  with less.prems(4) have j: "0 < j" by (cases j) auto
  obtain ds' num where d: "div_digit hbase ds i 0 = (ds', num)" by fastforce
  define i' where "i' = (if ds' ! (i - 1) = 0 then i - 1 else i)"
  note t = div_digit_top [OF hb less.prems(1-3) d i'_def]
  have num: "uint num < ?b ^ Suc 3" using t(2) hb h by (simp add: eval_nat_numeral)
  note step = big2str_loop_step [OF less.prems(1) j d i'_def]
  obtain gs where gs: "writes ?b (i' = 0) 4 (uint num) gs"
    "length gs \<le> j \<longrightarrow> put_group 4 base (i' = 0) num j out = Inr (j - length gs, gs @ out)"
    using put_group_ok [OF b num, of "i' = 0" j out] by (auto simp: numeral_eq_Suc simp del: put_group.simps)
  show ?case
  proof (cases "i' = 0")
    case True
    then have "?v div uint hbase = 0" using t(1) by simp
    then have n: "uint num = ?v" using t(2) v hb by (auto simp: div_eq_0_iff zdiv_eq_0_iff)
    then have len: "length gs \<le> j" using gs(1) True v less.prems(4) b writes_length by auto
    then have "writes ?b True j ?v gs" using gs(1) n True by (simp add: writes_def)
    moreover have "big2str_loop base hbase ds' 0 j' out' = Inr (j', out')" for j' out'
      by (subst big2str_loop.simps) simp
    ultimately show ?thesis using step gs(2) len True by auto
  next
    case False
    have "65536 ^ (i' - 1) \<le> ds_val (take i' ds')" using ds_val_top [of "i' - 1" ds'] t(3,4) False by simp
    moreover have "0 < (65536 :: int) ^ (i' - 1)" by simp
    ultimately have q: "0 < ?v div uint hbase" using t(1) by linarith
    then have "uint hbase \<le> ?v" using hb v by (simp add: pos_imp_zdiv_pos_iff)
    with less.prems(4) have "?b ^ 4 < ?b ^ j" unfolding h by linarith
    then have j4: "4 < j" using b by (simp add: power_strict_increasing_iff)
    then have "?b ^ j = ?b ^ (j - 4) * uint hbase" by (simp add: h flip: power_add)
    then have "?v div uint hbase < ?b ^ (j - 4)"
      using less.prems(4) hb by (intro div_less_bound) (auto simp: mult.commute)
    then obtain es where es: "writes ?b True (j - 4) (?v div uint hbase) es"
      "big2str_loop base hbase ds' i' (j - 4) (gs @ out) = Inr (j - 4 - length es, es @ gs @ out)"
      using less.IH [of "j - 4" i' ds' "gs @ out"] j4 False t(1,3,4) by auto
    have g4: "writes ?b False 4 (uint num) gs" "length gs = 4" using gs(1) False by (auto simp: writes_def)
    have "?v = ?v div uint hbase * ?b ^ 4 + uint num" unfolding t(2) by (simp flip: h)
    then have "writes ?b True j ?v (es @ gs)"
      using writes_append [OF es(1) g4(1) q] j4 by simp
    then show ?thesis using step gs(2) g4 j4 es(2) False by (intro exI [of _ "es @ gs"]) auto
  qed
qed

text \<open>The buffer has a byte for every digit and one for the sign: \<open>2 ^ 800 \<le> 10 ^ 241\<close>.\<close>

lemma room_10: "(65536 :: int) ^ i < 10 ^ (16 * i * 241 div 800 + 1)"
proof -
  define k where "k = 16 * i * 241 div 800"
  have k: "241 * (16 * i) < 800 * (k + 1)" by (simp add: k_def)
  have p: "(2 :: int) ^ 800 \<le> 10 ^ 241" by simp
  have "((65536 :: int) ^ i) ^ 800 = (2 ^ 800) ^ (16 * i)"
  proof -
    have "(65536 :: int) = 2 ^ 16" by simp
    then show ?thesis by (simp only: power_mult [symmetric]) (simp only: mult.commute mult.left_commute)
  qed
  also have "\<dots> \<le> (10 ^ 241) ^ (16 * i)" using p by (rule power_mono) simp
  also have "\<dots> < 10 ^ (800 * (k + 1))"
    unfolding power_mult [symmetric] using k by (intro power_strict_increasing) simp_all
  also have "\<dots> = (10 ^ (k + 1)) ^ 800" by (metis power_mult mult.commute)
  finally show ?thesis unfolding k_def by (rule power_less_imp_less_base) simp
qed

lemma str_room_ok:
  assumes "base \<in> {2, 8, 10, 16}" "0 < i" "i \<le> 1000000"
  shows "\<exists>j h. str_room i base = Some (Suc j, h) \<and> uint h = base ^ 4 \<and> (65536 :: int) ^ i < base ^ j"
proof -
  have "(2 :: int) ^ (16 * i) < 2 ^ (16 * i + 1)" by (rule power_strict_increasing) simp_all
  moreover have "(2 :: int) ^ (16 * i + 1) \<le> 8 ^ (16 * i + 1)" by (rule power_mono) simp_all
  moreover have "(65536 :: int) ^ i = 2 ^ (16 * i)" by (simp add: power_mult)
  ultimately have b2: "(65536 :: int) ^ i < 2 ^ (16 * i + 1)" and b8: "(65536 :: int) ^ i < 8 ^ (16 * i + 1)"
    by linarith+
  have "(16 :: int) ^ (4 * i) < 16 ^ (4 * i + 1)" by (rule power_strict_increasing) simp_all
  then have b16: "(65536 :: int) ^ i < 16 ^ (4 * i + 1)" by (simp add: power_mult)
  have wrap: "16 * i * 241 mod 2 ^ 32 = 16 * i * 241" "16 * i mod 2 ^ 32 = 4 * i * 4"
      "(16 * i + 2) mod 2 ^ 32 = 16 * i + 2"
    using assms(3) by simp_all
  have r: "str_room i 2 = Some (Suc (16 * i + 1), 16)" "str_room i 8 = Some (Suc (16 * i + 1), 4096)"
      "str_room i 10 = Some (Suc (16 * i * 241 div 800 + 1), 10000)" "str_room i 16 = Some (Suc (4 * i + 1), 65536)"
    unfolding str_room_def wrap by simp_all
  have h: "uint (16 :: u32) = 2 ^ 4" "uint (4096 :: u32) = 8 ^ 4" "uint (10000 :: u32) = 10 ^ 4"
      "uint (65536 :: u32) = 16 ^ 4" by simp_all
  consider "base = 2" | "base = 8" | "base = 10" | "base = 16" using assms(1) by auto
  then show ?thesis using r h b2 b8 room_10 [of i] b16 by cases blast+
qed

lemma bignum2str_writes:
  assumes "big_normal x" "0 < blen x" "blen x \<le> 1000000" "base \<in> {2, 8, 10, 16}"
  shows "\<exists>cs k. writes base True k (big_mag x) cs \<and> 0 < big_mag x \<and>
    bignum2str x base = Inr ((if bsign x then [] else [45]) @ cs)"
proof -
  let ?i = "blen x" and ?b = "word_of_int base :: u32"
  obtain j h where r: "str_room ?i base = Some (Suc j, h)" "uint h = base ^ 4" "(65536 :: int) ^ ?i < base ^ j"
    using str_room_ok [OF assms(4,2,3)] by blast
  have b: "uint ?b = base" "2 \<le> base" "base \<le> 16" using assms(4) by auto
  have wf: "length (bds x) = ?i" and ne: "bds x ! (?i - 1) \<noteq> 0"
    using assms(1,2) by (simp add: length_bds) (use assms(1,2) in \<open>simp add: big_normal_def bds_def\<close>)
  have "0 < (65536 :: int) ^ (?i - 1)" by simp
  also have "\<dots> \<le> big_mag x" using ds_val_top [OF _ ne] wf assms(2) by (simp add: big_mag_def)
  finally have pos: "0 < big_mag x" .
  have less: "big_mag x < base ^ j" using big_mag_less [of x] assms(1) r(3) by simp
  also have "\<dots> \<le> base ^ Suc j" using b by (intro power_increasing) auto
  finally have "ds_val (take ?i (bds x)) < uint ?b ^ Suc j" using wf by (simp add: big_mag_def b(1))
  then obtain es where es: "writes base True (Suc j) (big_mag x) es"
    "big2str_loop ?b h (bds x) ?i (Suc j) [] = Inr (Suc j - length es, es)"
    using big2str_loop_ok [of ?b h ?i "bds x" "Suc j" "[]"] b r(2) wf ne assms(2) by (auto simp: big_mag_def)
  have "length es \<le> j" using writes_length [OF es(1) pos less b(2)] .
  moreover have "dropWhile (\<lambda>c. c = 48) es = es"
    using es(1) pos by (cases es) (auto simp: writes_def)
  ultimately have "bignum2str x base = Inr ((if bsign x then [] else [45]) @ es)"
    using assms(2) r(1) es(2) by (simp add: bignum2str_def)
  then show ?thesis using es(1) pos by blast
qed

lemma digits_of_writes:
  assumes "2 \<le> b" "b \<le> 16"
  shows "\<exists>k. writes (int b) True k (int n) (digits_of b n)"
proof (induction n rule: less_induct)
  case (less n)
  have u: "uint (word_of_nat (n mod b) :: u32) = int (n mod b)"
  proof -
    have "n mod b < b" using assms(1) by simp
    then have "n mod b < 16" using assms(2) by simp
    then show ?thesis by (simp add: unsigned_of_nat take_bit_nat_eq_self)
  qed
  have d: "uint (word_of_nat (n mod b) :: u32) < int b" unfolding u using assms by simp
  show ?case
  proof (cases "n < b")
    case True
    then show ?thesis using assms d u writes_single [of "word_of_nat n" "int b" True 1]
      by (subst digits_of.simps) auto
  next
    case False
    then obtain k where "writes (int b) True k (int (n div b)) (digits_of b (n div b))"
      using less [of "n div b"] assms by auto
    then have "writes (int b) True (Suc k) (int (n div b) * int b + int (n mod b))
        (digits_of b (n div b) @ [hexmap (word_of_nat (n mod b))])"
      using writes_snoc [OF _ d] assms False unfolding u by (simp add: div_greater_zero_iff)
    then show ?thesis using False assms by (subst digits_of.simps) (auto simp flip: of_nat_mult of_nat_add)
  qed
qed

lemma fix_digits:
  assumes "base \<in> {2, 8, 10, 16 :: int}" "\<bar>v\<bar> \<le> 2 ^ 30"
  shows "is_text base (digits_of (nat base) (nat \<bar>v\<bar>))" "digits_of (nat base) (nat \<bar>v\<bar>) \<noteq> []"
    "text_val base (digits_of (nat base) (nat \<bar>v\<bar>)) = \<bar>v\<bar>" "length (digits_of (nat base) (nat \<bar>v\<bar>)) < 2 ^ 30"
proof -
  let ?cs = "digits_of (nat base) (nat \<bar>v\<bar>)"
  have b: "2 \<le> base" "base \<le> 16" using assms(1) by auto
  then have "2 \<le> nat base" "nat base \<le> 16" by auto
  from digits_of_writes [OF this, of "nat \<bar>v\<bar>"] b
  obtain k where w: "writes base True k \<bar>v\<bar> ?cs" by auto
  then show "is_text base ?cs" "?cs \<noteq> []" "text_val base ?cs = \<bar>v\<bar>" by (auto simp: writes_def)
  show "length ?cs < 2 ^ 30"
  proof (cases "v = 0")
    case True
    then show ?thesis using b by (subst digits_of.simps) simp
  next
    case False
    have "\<bar>v\<bar> < 2 ^ 31" using assms(2) by simp
    also have "\<dots> \<le> base ^ 31" using b by (intro power_mono) auto
    finally have "length ?cs \<le> 31" using writes_length [OF w] False b by simp
    then show ?thesis by simp
  qed
qed

lemma fix2str_eq:
  assumes "base = 10 \<or> base \<in> {8, 16} \<and> 0 \<le> sint (FIX2INT f)"
  shows "fix2str f base = Inr ((if sint (FIX2INT f) < 0 then [45] else []) @ digits_of (nat base) (nat \<bar>sint (FIX2INT f)\<bar>))"
proof -
  define v where "v = FIX2INT f"
  have u: "unat v = nat \<bar>sint v\<bar>" if "0 \<le> sint v"
  proof -
    have "sint v = uint v" using that sint_eq_uint_if [of v] uint_32_less [of v] by (simp split: if_splits)
    then show ?thesis by (simp only: unat_eq_nat_uint abs_of_nonneg uint_ge_0)
  qed
  show ?thesis
  proof (cases "base = 10")
    case True
    show ?thesis unfolding True fix2str_def Let_def v_def [symmetric] by simp
  next
    case False
    with assms have b: "base = 8 \<or> base = 16" and v: "0 \<le> sint v" by (auto simp: v_def)
    have "fix2str f base = Inr (digits_of (nat base) (unat v))"
      using b unfolding fix2str_def Let_def v_def [symmetric] by (elim disjE) simp_all
    then show ?thesis unfolding u [OF v] v_def [symmetric] using v by simp
  qed
qed

section \<open>Reading\<close>

text \<open>What ends a number in base \<open>b\<close>: the end of the text or a character that is no digit.\<close>

definition stops :: "int \<Rightarrow> u8 list \<Rightarrow> bool" where
  "stops b rest \<longleftrightarrow> (case rest of [] \<Rightarrow> True | c # _ \<Rightarrow> (case inum_digit c of None \<Rightarrow> True | Some v \<Rightarrow> b \<le> v))"

lemma strtoul_digit_eq:
  assumes "base \<in> {2, 8, 10, 16}"
  shows "strtoul_digit base c =
    (case inum_digit c of None \<Rightarrow> None | Some v \<Rightarrow> if v < base then Some v else None)"
  using assms by (auto simp: strtoul_digit_def inum_digit_def cvtIn_def between_def)

lemma strtoul_loop_val:
  assumes "base \<in> {2, 8, 10, 16}" "stops base rest"
  shows "is_text base cs \<Longrightarrow> uint res * base ^ length cs + text_val base cs < 2 ^ 32 \<Longrightarrow>
    uint (strtoul_loop base (cs @ rest) res) = uint res * base ^ length cs + text_val base cs"
proof (induction cs arbitrary: res)
  case Nil
  then show ?case using assms
    by (cases rest) (auto simp: stops_def strtoul_digit_eq split: option.splits)
next
  case (Cons c cs)
  then obtain v where v: "inum_digit c = Some v" "v < base" by auto
  let ?r = "res * word_of_int base + word_of_int v :: u32"
  have p: "(1 :: int) \<le> base ^ length cs" using assms(1) by auto
  have "0 \<le> text_val base cs" using Cons.prems(1) text_val_bounds by auto
  moreover have nn: "0 \<le> uint res * base + v" using inum_digit_bounds [OF v(1)] assms(1) by auto
  ultimately have "(uint res * base + v) * 1 < 2 ^ 32"
    using Cons.prems(2) v mult_left_mono [OF p nn] by (simp add: algebra_simps)
  then have r: "uint ?r = uint res * base + v"
    using nn by (simp add: uint_word_ariths uint_word_of_int mod_simps)
  then show ?case using Cons.IH [of ?r] Cons.prems v
    by (simp add: strtoul_digit_eq [OF assms(1)] algebra_simps)
qed

lemma mul_add_val:
  assumes "uint b \<le> 16"
  shows "uint num < 65536 \<Longrightarrow> mul_add b ds num = (ds', r) \<Longrightarrow>
    length ds' = length ds \<and> uint r < 65536 \<and>
    ds_val ds' + 65536 ^ length ds * uint r = uint b * ds_val ds + uint num"
proof (induction ds arbitrary: num ds')
  case (Cons d ds)
  define n where "n = num + ucast d * b"
  have "uint d * uint b \<le> 65535 * 16"
    using assms uint_16_bounds [of d] by (intro mult_mono) auto
  then have n: "uint n = uint num + uint d * uint b"
    unfolding n_def using Cons.prems(1) by (simp add: uint_word_ariths uint_ucast_16_32)
  have dn: "uint (BIGDN n) < 65536" using uint_32_less [of n] by (simp add: uint_BIGDN)
  obtain ts where ts: "mul_add b ds (BIGDN n) = (ts, r)" "ds' = BIGLO n # ts"
    using Cons.prems(2) by (auto simp: n_def Let_def split: prod.splits)
  note ih = Cons.IH [OF dn ts(1), unfolded uint_BIGDN]
  have "ds_val ds' + 65536 ^ length (d # ds) * uint r
      = uint n mod 65536 + 65536 * (ds_val ts + 65536 ^ length ds * uint r)"
    by (simp add: ts(2) uint_BIGLO algebra_simps)
  also have "\<dots> = 65536 * (uint b * ds_val ds) + (uint n mod 65536 + 65536 * (uint n div 65536))"
    using ih by (simp only: distrib_left add.assoc add.commute add.left_commute)
  also have "\<dots> = uint b * ds_val (d # ds) + uint num" by (simp add: n algebra_simps)
  finally show ?case using ih ts(2) by simp
qed simp

lemma carry_out_val:
  assumes "length ds \<le> cap" "uint r < 65536" "ds_val ds + 65536 ^ length ds * uint r < 65536 ^ cap"
  shows "\<exists>ds'. carry_out cap ds r = Inr ds' \<and> length ds' \<le> cap \<and>
    ds_val ds' = ds_val ds + 65536 ^ length ds * uint r"
proof (cases "r = 0")
  case True
  then show ?thesis using assms(1) by (subst carry_out.simps) simp
next
  case False
  then have "1 \<le> uint r" using uint_0_iff [of r] by (simp add: int_one_le_iff_zero_less order_less_le)
  then have "65536 ^ length ds * 1 \<le> 65536 ^ length ds * uint r" by (intro mult_left_mono) auto
  then have "(65536 :: int) ^ length ds < 65536 ^ cap" using assms(3) ds_val_nonneg [of ds] by linarith
  then have "length ds < cap" by (simp add: power_strict_increasing_iff)
  moreover have "uint (BIGDN r) = 0" using assms(2) by (simp add: uint_BIGDN)
  then have "BIGDN r = 0" by (simp add: uint_0_iff)
  moreover have "carry_out cap ds' 0 = Inr ds'" for ds' by (subst carry_out.simps) simp
  ultimately have "carry_out cap ds r = Inr (ds @ [BIGLO r])"
    using False by (subst carry_out.simps) simp
  then show ?thesis using \<open>length ds < cap\<close> assms(2) by (simp add: ds_val_append uint_BIGLO)
qed

lemma inum_loop_val:
  assumes base: "base \<in> {2, 8, 10, 16}" and "stops base rest"
  shows "is_text base cs \<Longrightarrow> length ds \<le> cap \<Longrightarrow>
    ds_val ds * base ^ length cs + text_val base cs < 65536 ^ cap \<Longrightarrow>
    \<exists>ds'. inum_loop base cap (cs @ rest) ds = Inr ds' \<and> length ds' \<le> cap \<and>
      ds_val ds' = ds_val ds * base ^ length cs + text_val base cs"
proof (induction cs arbitrary: ds)
  case Nil
  then show ?case using assms(2) by (cases rest) (auto simp: stops_def split: option.splits)
next
  case (Cons c cs)
  then obtain v where v: "inum_digit c = Some v" "v < base" by auto
  note v' = inum_digit_bounds [OF v(1)]
  let ?b = "word_of_int base :: u32" and ?v = "word_of_int v :: u32"
  define w where "w = ds_val ds * base + v"
  have u: "uint ?b = base" "uint ?v = v" using base v v' by (auto simp: uint_word_of_int)
  obtain ds1 r where m: "mul_add ?b ds ?v = (ds1, r)" by fastforce
  have m1: "length ds1 = length ds" "uint r < 65536" "ds_val ds1 + 65536 ^ length ds * uint r = w"
    using mul_add_val [OF _ _ m] base v' u by (auto simp: w_def mult.commute)
  have p: "(1 :: int) \<le> base ^ length cs" using base by auto
  have "0 \<le> w" unfolding w_def using v' base ds_val_nonneg [of ds] by auto
  then have "w * 1 \<le> w * base ^ length cs" using p by (intro mult_left_mono)
  moreover have "0 \<le> text_val base cs" using Cons.prems(1) text_val_bounds by auto
  moreover have eq: "ds_val ds * base ^ length (c # cs) + text_val base (c # cs) = w * base ^ length cs + text_val base cs"
    using v by (simp add: w_def algebra_simps)
  ultimately have "w < 65536 ^ cap" using Cons.prems(3) by linarith
  then obtain ds2 where c2: "carry_out cap ds1 r = Inr ds2" "length ds2 \<le> cap" "ds_val ds2 = w"
    using carry_out_val [of ds1 cap r] m1 Cons.prems(2) by auto
  have "inum_loop base cap ((c # cs) @ rest) ds = inum_loop base cap (cs @ rest) ds2"
    using v m c2(1) by simp
  then show ?case using Cons.IH [of ds2] Cons.prems c2 unfolding eq by auto
qed

text \<open>
  A digit takes four bits of the block, three in base 8, and the block has a further sixteen.
\<close>

lemma power_base_le:
  assumes "base \<in> {2, 8, 10, 16 :: int}"
  shows "base ^ n \<le> 2 ^ ((if base = 8 then 3 else 4) * n)"
proof -
  have "base ^ n \<le> (if base = 8 then 8 else 16) ^ n" using assms by (intro power_mono) auto
  also have "\<dots> = 2 ^ ((if base = 8 then 3 else 4) * n)" by (simp add: power_mult)
  finally show ?thesis .
qed

lemma text_val_less:
  assumes "base \<in> {2, 8, 10, 16}" "is_text base cs"
  shows "text_val base cs < 2 ^ ((if base = 8 then 3 else 4) * length (cs @ rest))"
proof -
  have "text_val base cs < base ^ length cs" using text_val_bounds [OF assms(2)] by simp
  also have "\<dots> \<le> base ^ length (cs @ rest)" using assms(1) by (intro power_increasing) auto
  also have "\<dots> \<le> 2 ^ ((if base = 8 then 3 else 4) * length (cs @ rest))"
    using assms(1) by (rule power_base_le)
  finally show ?thesis .
qed

lemma not_space_digit: "inum_digit c = Some v \<Longrightarrow> \<not> isspace c \<and> c \<noteq> 45 \<and> c \<noteq> 120"
  by (auto simp: inum_digit_def isspace_def between_def split: if_splits)

lemma strtoul_val:
  assumes "base \<in> {2, 8, 10, 16}" "is_text base cs" "cs \<noteq> []" "stops base rest" "rest = [] \<or> hd rest \<noteq> 120"
    "text_val base cs < 2 ^ 32"
  shows "uint (strtoul (cs @ rest) base) = text_val base cs"
proof -
  obtain c cs' v where c: "cs = c # cs'" "inum_digit c = Some v" using assms(2,3) by (cases cs) auto
  have sp: "dropWhile isspace (cs @ rest) = cs @ rest" using c not_space_digit by auto
  have "d \<noteq> 120" if "cs' @ rest = d # ds" for d ds
    using that assms(2,5) c not_space_digit by (cases cs') auto
  then have "(case cs @ rest of
      c # d # p' \<Rightarrow> if c = 48 \<and> d = 120 then strtoul_loop 16 p' 0 else strtoul_loop 16 (cs @ rest) 0
    | _ \<Rightarrow> strtoul_loop 16 (cs @ rest) 0) = strtoul_loop 16 (cs @ rest) 0"
    unfolding c(1) by (auto split: list.splits simp del: strtoul_loop.simps)
  then have "strtoul (cs @ rest) base = strtoul_loop base (cs @ rest) 0"
    using assms(1) unfolding strtoul_def Let_def sp by auto
  then show ?thesis using strtoul_loop_val [OF assms(1,4,2), of 0] assms(6) by simp
qed

lemma small_inum:
  assumes "z = (if uint val \<le> FIXNUM_MAX then Fix (INT2FIX (if neg then - val else val))
                else Big ((uint2big val)\<lparr>bsign := \<not> neg\<rparr>))"
  shows "inum_wf z \<and> inum_val z = (if neg then - uint val else uint val)"
proof (cases "uint val \<le> FIXNUM_MAX")
  case True
  then have s: "sint val = uint val" by (simp add: sint_eq_uint_if FIXNUM_MAX_def)
  moreover have "sint (0x80000000 :: u32) < 0" by simp
  ultimately have "val \<noteq> 0x80000000" by (metis uint_ge_0 not_less)
  then have "sint (if neg then - val else val) = (if neg then - uint val else uint val)"
    using sint_minus_u32 s by simp
  moreover have "FIXABLE (if neg then - uint val else uint val)"
  proof -
    have "0 \<le> uint val" by simp
    then show ?thesis unfolding FIXABLE_iff using True by (simp add: FIXNUM_MAX_def)
  qed
  ultimately show ?thesis using INT2FIX_val [of "if neg then - val else val"] assms True by simp
next
  case False
  then have "2 \<le> blen (uint2big val)"
    by (intro blen_ge_2) (simp_all add: uint2big_ok(1) big_mag_uint2big FIXNUM_MAX_def)
  then show ?thesis using assms False by (simp add: big_val_sign big_mag_uint2big uint2big_ok(1))
qed

lemma large_inum:
  assumes "base \<in> {2, 8, 10, 16}" "is_text base cs" "stops base rest"
    "len = (if base = 8 then 3 else 4) * int (length (cs @ rest))" "cap = nat (len div 16 + 1)"
  shows "\<exists>z. bindR (inum_loop base cap (cs @ rest) [0]) (\<lambda>ds.
      Inr (bignorm (bignew (ds @ replicate (cap - length ds) 0) (\<not> neg)))) = Inr z \<and>
    inum_wf z \<and> inum_val z = (if neg then - text_val base cs else text_val base cs)"
proof -
  let ?k = "(if base = 8 then 3 else 4) * length (cs @ rest)"
  have k: "len = int ?k" using assms(4) by simp
  then have cap: "cap = ?k div 16 + 1" using assms(5) by (simp add: nat_add_distrib nat_div_distrib del: of_nat_mult)
  have "text_val base cs < 2 ^ ?k" using assms(1,2) by (rule text_val_less)
  also have "\<dots> \<le> 2 ^ (16 * cap)" unfolding cap by (intro power_increasing) simp_all
  finally have "text_val base cs < 65536 ^ cap" by (simp add: power_mult)
  then obtain ds where ds: "inum_loop base cap (cs @ rest) [0] = Inr ds" "ds_val ds = text_val base cs"
    using inum_loop_val [OF assms(1,3,2), of "[0]" cap] cap by auto
  let ?x = "bignew (ds @ replicate (cap - length ds) 0) (\<not> neg)"
  have "big_val ?x = (if neg then - text_val base cs else text_val base cs)"
    using ds(2) by (simp add: ds_val_append)
  then show ?thesis using ds(1) bignorm_val [of ?x] bignorm_wf [of ?x] by simp
qed

lemma str2inum_val:
  assumes "base \<in> {2, 8, 10, 16}" "is_text base cs" "cs \<noteq> []" "stops base rest" "rest = [] \<or> hd rest \<noteq> 120"
    "length (cs @ rest) < 2 ^ 30" "\<forall>c\<in>set sp. isspace c"
  shows "\<exists>z. str2inum (sp @ (if neg then [45] else []) @ cs @ rest) base = Inr z \<and> inum_wf z \<and>
    inum_val z = (if neg then - text_val base cs else text_val base cs)"
proof -
  let ?s = "cs @ rest"
  define len where "len = (if base = 8 then 3 else 4) * int (length ?s)"
  have wrap: "(if base = 8 then 3 else 4) * int (length ?s) mod 2 ^ 32 = len"
    using assms(6) by (simp add: len_def)
  obtain c cs' v where c: "cs = c # cs'" "inum_digit c = Some v" using assms(2,3) by (cases cs) auto
  have "\<not> isspace 45" by (simp add: isspace_def between_def)
  then have sp: "dropWhile isspace (sp @ (if neg then [45] else []) @ ?s) = (if neg then [45] else []) @ ?s"
    using assms(7) c not_space_digit by simp
  have base: "inum_base ?s base = (base, ?s, False)" using assms(1) by (auto simp: inum_base_def)
  have eq: "str2inum (sp @ (if neg then [45] else []) @ ?s) base =
     (if len \<le> 32 then
        Inr (if uint (strtoul ?s base) \<le> FIXNUM_MAX then Fix (INT2FIX (if neg then - strtoul ?s base else strtoul ?s base))
             else Big ((uint2big (strtoul ?s base))\<lparr>bsign := \<not> neg\<rparr>))
      else bindR (inum_loop base (nat (len div 16 + 1)) ?s [0]) (\<lambda>ds.
             Inr (bignorm (bignew (ds @ replicate (nat (len div 16 + 1) - length ds) 0) (\<not> neg)))))"
    using base wrap c not_space_digit unfolding str2inum_def sp Let_def by (cases neg) auto
  show ?thesis
  proof (cases "len \<le> 32")
    case True
    then have "(if base = 8 then 3 else 4) * length ?s \<le> 32" by (auto simp: len_def split: if_splits)
    then have "(2 :: int) ^ ((if base = 8 then 3 else 4) * length ?s) \<le> 2 ^ 32" by (intro power_increasing) auto
    with text_val_less [OF assms(1,2), of rest] have "text_val base cs < 2 ^ 32" by linarith
    then have "uint (strtoul ?s base) = text_val base cs" using assms(1-5) by (intro strtoul_val)
    then show ?thesis using eq True small_inum [OF refl, of "strtoul ?s base" neg] by auto
  next
    case False
    then show ?thesis using eq large_inum [OF assms(1,2,4) len_def refl, of neg] by simp
  qed
qed

section \<open>The digit scanners\<close>

lemma push_bit_or_add:
  assumes "uint d < 2 ^ k"
  shows "push_bit k r OR d = 2 ^ k * r + (d :: u32)"
proof -
  have "\<not> bit d n" if "k \<le> n" for n
  proof -
    have "uint d < 2 ^ n" using assms power_increasing [OF that, of "2 :: int"] by linarith
    then have "\<not> bit (uint d) n" by (simp add: bit_iff_odd)
    then show ?thesis using bit_imp_le_length [of d n] by (auto simp: bit_uint_iff)
  qed
  then have "push_bit k r OR d = push_bit k r + d"
    by (intro disjunctive_add [symmetric]) (auto simp: bit_simps)
  then show ?thesis by (simp add: push_bit_eq_mult mult.commute)
qed

text \<open>
  \<open>scan_oct\<close> and \<open>scan_hex\<close> read the value of their digits modulo \<open>2 ^ 32\<close> and count them.
\<close>

lemma scan_oct_loop_val:
  "\<forall>c\<in>set cs. between 48 c 55 \<Longrightarrow>
    scan_oct_loop (length cs) cs r n = (r * 8 ^ length cs + word_of_int (text_val 8 cs), n + length cs)"
proof (induction cs arbitrary: r n)
  case (Cons c cs)
  then have c: "48 \<le> uint c" "uint c \<le> 55" by (auto simp: between_def)
  have "uint (ucast c - 48 :: u32) < 2 ^ 3"
    using c by (simp add: uint_word_ariths unsigned_ucast_eq take_bit_eq_mod)
  then have s: "push_bit 3 r OR (ucast c - 48) = 8 * r + (ucast c - 48)"
    using push_bit_or_add by fastforce
  have "inum_digit c = Some (uint c - 48)" using c by (simp add: inum_digit_def between_def)
  then show ?case using Cons c by (simp add: s between_def algebra_simps)
qed simp

lemma hexdigit_pos_val:
  assumes "inum_digit c = Some v"
  shows "\<exists>p. hexdigit_pos c = Some p \<and> p AND 15 = word_of_int v"
proof -
  have m: "p AND 15 = word_of_int (uint p mod 16)" for p :: u32
  proof -
    have "p AND 15 = take_bit 4 p" by (simp add: take_bit_eq_mask mask_eq_exp_minus_1)
    then show ?thesis by (simp add: word_uint_eq_iff take_bit_eq_mod uint_mod uint_word_of_int mod_simps)
  qed
  have u: "uint (ucast c :: u32) = uint c" by (simp add: unsigned_ucast_eq take_bit_int_eq_self_iff uint_lt2p less_le_trans [OF uint_lt2p])
  consider "between 48 c 57" "v = uint c - 48" | "between 97 c 102" "v = uint c - 97 + 10"
    | "between 65 c 70" "v = uint c - 65 + 10"
    using assms by (auto simp: inum_digit_def split: if_splits)
  moreover have "(uint c - 39) mod 16 = uint c - 55" if "between 65 c 70"
    using that unfolding between_def by presburger
  ultimately show ?thesis
    by cases (auto simp: hexdigit_pos_def between_def m u uint_word_ariths)
qed

lemma scan_hex_loop_val:
  "is_text 16 cs \<Longrightarrow>
    scan_hex_loop (length cs) cs r n = (r * 16 ^ length cs + word_of_int (text_val 16 cs), n + length cs)"
proof (induction cs arbitrary: r n)
  case (Cons c cs)
  then obtain v where v: "inum_digit c = Some v" by auto
  then obtain p where p: "hexdigit_pos c = Some p" "p AND 15 = word_of_int v" using hexdigit_pos_val by blast
  have "uint (word_of_int v :: u32) < 2 ^ 4" using inum_digit_bounds [OF v] by (simp add: uint_word_of_int)
  then have s: "push_bit 4 r OR word_of_int v = 16 * r + word_of_int v"
    using push_bit_or_add by fastforce
  show ?case using Cons v p by (simp add: s algebra_simps)
qed simp

lemma scan_digits_val:
  "\<forall>c\<in>set cs. between 48 c 55 \<Longrightarrow> scan_oct cs (length cs) = (word_of_int (text_val 8 cs), length cs)"
  "is_text 16 cs \<Longrightarrow> scan_hex cs (length cs) = (word_of_int (text_val 16 cs), length cs)"
  by (simp_all add: scan_oct_def scan_hex_def scan_oct_loop_val scan_hex_loop_val)

section \<open>Properties\<close>

text \<open>
  C26: \<^verbatim>\<open>str2inum\<close> skips blanks, takes a sign and reads the digits of its base up to the first
  character that is none, as a well-formed integer of that value; it stays inside the block it
  allocates. The letter that would make a prefix \<^verbatim>\<open>0x\<close> is excluded.
\<close>

theorem str2inum_reads:
  assumes "base \<in> {2, 8, 10, 16}" "is_text base cs" "cs \<noteq> []" "stops base rest" "rest = [] \<or> hd rest \<noteq> 120"
    "length (cs @ rest) < 2 ^ 30" "\<forall>c\<in>set sp. isspace c"
  shows "\<exists>z. str2inum (sp @ (if neg then [45] else []) @ cs @ rest) base = Inr z \<and> inum_wf z \<and>
    inum_val z = (if neg then - text_val base cs else text_val base cs)"
  using assms by (rule str2inum_val)

theorem str2inum_reads_witness:
  "\<exists>z. str2inum ([32] @ [45] @ [52, 50] @ [46, 53]) 10 = Inr z \<and> inum_wf z \<and> inum_val z = - 42"
  using str2inum_reads [of 10 "[52, 50]" "[46, 53]" "[32]" True]
  by (simp add: inum_digit_def between_def isspace_def stops_def)

text \<open>
  C7: a Bignum of up to a million digits written in base 2, 8, 10 or 16, any Fixnum written in base 10 and a
  nonnegative Fixnum written in base 8 or 16, read again, also by \<^verbatim>\<open>to_i\<close>, \<^verbatim>\<open>hex\<close> and \<^verbatim>\<open>oct\<close> of a string with that
  text, are the same integer; writing stays inside its buffer. Bases 8 and 16 write a negative Fixnum as an
  unsigned word, and base 2 is an error for Fixnums.
\<close>

theorem big2str_str2inum:
  assumes "inum_wf x" "base \<in> {2, 8, 10, 16}"
    "case x of Fix f \<Rightarrow> base = 10 \<or> base \<noteq> 2 \<and> 0 \<le> inum_val x | Big b \<Rightarrow> blen b \<le> 1000000"
  shows "\<exists>cs z. big2str x base = Inr cs \<and> str2inum cs base = Inr z \<and> inum_wf z \<and> inum_val z = inum_val x \<and>
    (\<forall>s. is_string s cs \<longrightarrow>
       (base = 10 \<longrightarrow> str_to_i s = Inr z) \<and> (base = 16 \<longrightarrow> str_hex s = Inr z) \<and> (base = 8 \<longrightarrow> str_oct s = Inr z))"
proof (cases x)
  case (Fix f)
  let ?cs = "digits_of (nat base) (nat \<bar>inum_val x\<bar>)" and ?neg = "inum_val x < 0"
  have b: "is_text base ?cs" "?cs \<noteq> []" "text_val base ?cs = \<bar>inum_val x\<bar>" "length ?cs < 2 ^ 30"
    using fix_digits [of base "inum_val x"] assms(2) FIX2INT_bounds [of f] Fix by (auto simp: FIXABLE_iff)
  have "big2str x base = Inr ((if ?neg then [45] else []) @ ?cs)"
    using fix2str_eq [of base f] assms(2,3) Fix by (auto simp: big2str_def)
  moreover have "0 \<notin> set ((if ?neg then [45] else []) @ ?cs)" using is_text_nonzero [OF b(1)] by simp
  moreover note str2inum_val [of base ?cs "[]" "[]" ?neg] assms(2) b
  ultimately show ?thesis
    by (intro exI [of _ "(if ?neg then [45] else []) @ ?cs"]) (auto simp: stops_def str_num_eq)
next
  case (Big b)
  obtain cs k where w: "writes base True k (big_mag b) cs" "0 < big_mag b"
    "big2str x base = Inr ((if bsign b then [] else [45]) @ cs)"
    using bignum2str_writes [of b base] assms Big by (auto simp: big2str_def)
  have "big_mag b < 2 ^ (16 * blen b)" using big_mag_less [of b] assms(1) Big by (simp add: power_mult)
  also have "\<dots> \<le> base ^ (16 * blen b)" using assms(2) by (intro power_mono) auto
  finally have "length cs \<le> 16 * blen b" using writes_length [OF w(1,2)] assms(2) by auto
  then have "length cs < 2 ^ 30" using assms(3) Big by simp
  moreover have t: "is_text base cs" "cs \<noteq> []" "text_val base cs = big_mag b" using w(1) by (auto simp: writes_def)
  moreover have "0 \<notin> set ((if bsign b then [] else [45]) @ cs)" using is_text_nonzero [OF t(1)] by simp
  moreover note str2inum_val [of base cs "[]" "[]" "\<not> bsign b"] assms(2) w(3) Big
  ultimately show ?thesis
    by (intro exI [of _ "(if bsign b then [] else [45]) @ cs"]) (auto simp: stops_def big_val_def str_num_eq)
qed

theorem big2str_str2inum_witness:
  "\<exists>cs z. big2str (Big (bignew [0, 0, 1] False)) 10 = Inr cs \<and> str2inum cs 10 = Inr z \<and>
     inum_wf z \<and> inum_val z = - (2 ^ 32)"
  using big2str_str2inum [of "Big (bignew [0, 0, 1] False)" 10] by (simp add: big_normal_def) blast

end
