(* ===== verification/Pack.thy ===== *)
theory Pack
  imports BigBits BigStr
begin

text \<open>
  \<^verbatim>\<open>Array#pack\<close> and \<^verbatim>\<open>String#unpack\<close>, \<^verbatim>\<open>src/pack.c\<close>: the template interpreter that writes values into a
  string and reads them back. The result and the source are strings with their blocks, so that
  every access outside a block shows; the template is given by its contents, which a zero byte ends,
  and the packed and unpacked values are lists.
\<close>

section \<open>Values and the host\<close>

datatype ('d, 'o) pvalue = PStr rstring | PVal "('d, 'o) rvalue"

text \<open>
  What the code takes from elsewhere: the strings and integers of the interpreter, \<^verbatim>\<open>obj_as_string\<close>
  on objects that are no strings, the byte order, and the bytes of a \<^verbatim>\<open>float\<close> and a \<^verbatim>\<open>double\<close>.
\<close>

record ('d, 'o) pack_env =
  p_str :: str_env
  p_int :: "('d, 'o) interp"
  p_to_s :: "('d, 'o) rvalue \<Rightarrow> rstring result"
  big_endian :: bool
  float_bytes :: "'d \<Rightarrow> u8 list"
  double_bytes :: "'d \<Rightarrow> u8 list"
  bytes_float :: "u8 list \<Rightarrow> 'd"
  bytes_double :: "u8 list \<Rightarrow> 'd"

definition obj_as_string :: "('d, 'o) pack_env \<Rightarrow> ('d, 'o) pvalue \<Rightarrow> rstring result" where
  "obj_as_string E v = (case v of PStr s \<Rightarrow> Inr s | PVal v \<Rightarrow> p_to_s E v)"

definition swaps :: "u16 \<Rightarrow> u16" where
  "swaps x = push_bit 8 (x AND 0xFF) + (drop_bit 8 x AND 0xFF)"

definition swapl :: "u32 \<Rightarrow> u32" where
  "swapl x = push_bit 24 (x AND 0xFF) + (drop_bit 24 x AND 0xFF)
     + push_bit 8 (x AND 0xFF00) + drop_bit 8 (x AND 0xFF0000)"

definition htons :: "bool \<Rightarrow> u16 \<Rightarrow> u16" where "htons be x = (if be then x else swaps x)"
definition htonl :: "bool \<Rightarrow> u32 \<Rightarrow> u32" where "htonl be x = (if be then x else swapl x)"
definition htovs :: "bool \<Rightarrow> u16 \<Rightarrow> u16" where "htovs be x = (if be then swaps x else x)"
definition htovl :: "bool \<Rightarrow> u32 \<Rightarrow> u32" where "htovl be x = (if be then swapl x else x)"

text \<open>The bytes of an integer in memory, and the integer in given bytes.\<close>

definition bytes2 :: "bool \<Rightarrow> u16 \<Rightarrow> u8 list" where
  "bytes2 be x = (let bs = [ucast x, ucast (drop_bit 8 x)] in if be then rev bs else bs)"

definition bytes4 :: "bool \<Rightarrow> u32 \<Rightarrow> u8 list" where
  "bytes4 be x =
     (let bs = [ucast x, ucast (drop_bit 8 x), ucast (drop_bit 16 x), ucast (drop_bit 24 x)]
      in if be then rev bs else bs)"

definition word2 :: "bool \<Rightarrow> u8 list \<Rightarrow> u16" where
  "word2 be bs = (let bs = (if be then rev bs else bs) in ucast (bs ! 0) + push_bit 8 (ucast (bs ! 1)))"

definition word4 :: "bool \<Rightarrow> u8 list \<Rightarrow> u32" where
  "word4 be bs =
     (let bs = (if be then rev bs else bs)
      in ucast (bs ! 0) + push_bit 8 (ucast (bs ! 1)) + push_bit 16 (ucast (bs ! 2)) + push_bit 24 (ucast (bs ! 3)))"

section \<open>Packing\<close>

text \<open>
  The count after a type: \<^verbatim>\<open>*\<close>, digits, or 1. \<^verbatim>\<open>strchr("@Xxu", type)\<close> also finds the byte zero.
\<close>

definition pack_count :: "u8 \<Rightarrow> u8 list \<Rightarrow> nat \<Rightarrow> int \<times> bool \<times> u8 list" where
  "pack_count t p items =
     (if p \<noteq> [] \<and> hd p = 42 then (if t \<in> {64, 88, 120, 117, 0} then 0 else int items, True, tl p)
      else if p \<noteq> [] \<and> isdigit (hd p) then (sint (strtoul p 10), False, dropWhile isdigit p)
      else (1, False, p))"

definition put_bytes :: "('d, 'o) pack_env \<Rightarrow> rstring \<Rightarrow> u8 list \<Rightarrow> rstring result" where
  "put_bytes E res bs = str_cat (p_str E) res (Some (map Some bs, 0)) (int (length bs))"

text \<open>Padding in steps of ten bytes, from the constants \<^verbatim>\<open>nul10\<close> and \<^verbatim>\<open>spc10\<close>.\<close>

function pad :: "('d, 'o) pack_env \<Rightarrow> u8 \<Rightarrow> int \<Rightarrow> rstring \<Rightarrow> rstring result" where
  "pad E c len res =
     (if len \<ge> 10 then bindR (put_bytes E res (replicate 10 c)) (\<lambda>res. pad E c (len - 10) res)
      else str_cat (p_str E) res (Some (map Some (replicate 10 c @ [0]), 0)) (U32 len))"
  by pat_completeness auto
termination by (relation "measure (\<lambda>(E, c, len, res). nat len)") auto

declare pad.simps [simp del]

text \<open>The bytes of the string for \<^verbatim>\<open>aAbBhH\<close>; nil has no block and no length.\<close>

definition src_of :: "('d, 'o) pack_env \<Rightarrow> ('d, 'o) pvalue \<Rightarrow> (u8 cells option \<times> int) result" where
  "src_of E v =
     (case v of
        PVal VNil \<Rightarrow> Inr (None, 0)
      | _ \<Rightarrow> bindR (obj_as_string E v) (\<lambda>s. Inr (Some (sptr s), S32 (slen s))))"

definition pack_a :: "('d, 'o) pack_env \<Rightarrow> u8 \<Rightarrow> u8 cells option \<Rightarrow> int \<Rightarrow> int \<Rightarrow> rstring \<Rightarrow> rstring result" where
  "pack_a E c ptr plen len res =
     (let src = map_option (\<lambda>p. (p, 0)) ptr in
      if plen \<ge> len then str_cat (p_str E) res src (U32 len)
      else bindR (str_cat (p_str E) res src (U32 plen)) (\<lambda>res. pad E c (len - plen) res))"

text \<open>
  The loops for bits and hexadecimal digits: a digit is added to the byte, which is shifted, or
  written when its group of \<open>g\<close> digits is complete. \<open>add\<close> is None for a character that is skipped.
\<close>

primrec pack_digits ::
  "('d, 'o) pack_env \<Rightarrow> nat \<Rightarrow> (u8 \<Rightarrow> u32 \<Rightarrow> u32 option) \<Rightarrow> (u32 \<Rightarrow> u32) \<Rightarrow> u8 cells \<Rightarrow>
     nat \<Rightarrow> nat \<Rightarrow> u32 \<Rightarrow> rstring \<Rightarrow> (u32 \<times> rstring) result" where
  "pack_digits E g add shift q 0 i byte res = Inr (byte, res)"
| "pack_digits E g add shift q (Suc k) i byte res =
     bindR (get_cell q (int i)) (\<lambda>c.
       case add c byte of
         None \<Rightarrow> pack_digits E g add shift q k (Suc i) byte res
       | Some byte \<Rightarrow>
           if Suc i mod g \<noteq> 0 then pack_digits E g add shift q k (Suc i) (shift byte) res
           else bindR (put_bytes E res [ucast byte]) (\<lambda>res. pack_digits E g add shift q k (Suc i) 0 res))"

definition isxdigit :: "u8 \<Rightarrow> bool" where
  "isxdigit c \<longleftrightarrow> between 48 c 57 \<or> between 65 c 70 \<or> between 97 c 102"

definition isalpha :: "u8 \<Rightarrow> bool" where "isalpha c \<longleftrightarrow> islower c \<or> isupper c"

definition hex_nibble :: "u8 \<Rightarrow> u32" where
  "hex_nibble c = (if isalpha c then (ucast (c AND 15) + 9) AND 15 else ucast (c AND 15))"

definition add_b :: "u8 \<Rightarrow> u32 \<Rightarrow> u32 option" where
  "add_b c byte = Some (if c AND 1 \<noteq> 0 then byte OR 128 else byte)"

definition add_B :: "u8 \<Rightarrow> u32 \<Rightarrow> u32 option" where
  "add_B c byte = Some (byte OR ucast (c AND 1))"

definition add_h :: "u8 \<Rightarrow> u32 \<Rightarrow> u32 option" where
  "add_h c byte = (if isxdigit c then Some (byte OR push_bit 4 (hex_nibble c)) else None)"

definition add_H :: "u8 \<Rightarrow> u32 \<Rightarrow> u32 option" where
  "add_H c byte = (if isxdigit c then Some (byte OR hex_nibble c) else None)"

definition pack_bits :: "('d, 'o) pack_env \<Rightarrow> u8 \<Rightarrow> u8 cells \<Rightarrow> int \<Rightarrow> rstring \<Rightarrow> rstring result" where
  "pack_bits E t q len res =
     (if t = 98 then
        bindR (pack_digits E 8 add_b (drop_bit 1) q (nat len) 0 0 res) (\<lambda>(byte, res).
          if len mod 8 \<noteq> 0 then put_bytes E res [ucast (drop_bit (nat (7 - len mod 8)) byte)] else Inr res)
      else if t = 66 then
        bindR (pack_digits E 8 add_B (push_bit 1) q (nat len) 0 0 res) (\<lambda>(byte, res).
          if len mod 8 \<noteq> 0 then put_bytes E res [ucast (push_bit (nat (7 - len mod 8)) byte)] else Inr res)
      else if t = 104 then
        bindR (pack_digits E 2 add_h (drop_bit 4) q (nat len) 0 0 res) (\<lambda>(byte, res).
          if len mod 2 \<noteq> 0 then put_bytes E res [ucast byte] else Inr res)
      else
        bindR (pack_digits E 2 add_H (push_bit 4) q (nat len) 0 0 res) (\<lambda>(byte, res).
          if len mod 2 \<noteq> 0 then put_bytes E res [ucast byte] else Inr res))"

section \<open>Numbers\<close>

definition next_from :: "'v list \<Rightarrow> ('v \<times> 'v list) result" where
  "next_from items = (case items of [] \<Rightarrow> Inl (ArgError ''too few arguments'') | v # vs \<Rightarrow> Inr (v, vs))"

text \<open>\<^verbatim>\<open>NUM2INT\<close> of a string calls its \<^verbatim>\<open>to_i\<close>.\<close>

definition elem_int :: "('d, 'o) pack_env \<Rightarrow> ('d, 'o) pvalue \<Rightarrow> u32 result" where
  "elem_int E v =
     (case v of
        PVal v \<Rightarrow> if v = VNil then Inr 0 else NUM2INT (p_int E) v
      | PStr s \<Rightarrow> bindR (str_to_i s) (\<lambda>z. NUM2INT (p_int E) (VInt z)))"

definition int_bytes :: "bool \<Rightarrow> u8 \<Rightarrow> u32 \<Rightarrow> u8 list" where
  "int_bytes be t w =
     (if t \<in> {99, 67} then [ucast w]
      else if t \<in> {115, 83} then bytes2 be (ucast w)
      else if t \<in> {105, 73, 108, 76} then bytes4 be w
      else if t = 110 then bytes2 be (htons be (ucast w))
      else if t = 78 then bytes4 be (htonl be w)
      else if t = 118 then bytes2 be (htovs be (ucast w))
      else bytes4 be (htovl be w))"

primrec pack_ints ::
  "('d, 'o) pack_env \<Rightarrow> u8 \<Rightarrow> nat \<Rightarrow> ('d, 'o) pvalue list \<Rightarrow> rstring \<Rightarrow> (('d, 'o) pvalue list \<times> rstring) result" where
  "pack_ints E t 0 items res = Inr (items, res)"
| "pack_ints E t (Suc len) items res =
     bindR (next_from items) (\<lambda>(from, items).
     bindR (elem_int E from) (\<lambda>w.
     bindR (put_bytes E res (int_bytes (big_endian E) t w)) (\<lambda>res. pack_ints E t len items res)))"

text \<open>The case for strings has no \<^verbatim>\<open>break\<close>, so the result of \<^verbatim>\<open>atof\<close> is overwritten.\<close>

definition elem_float :: "('d, 'o) pack_env \<Rightarrow> ('d, 'o) pvalue \<Rightarrow> 'd result" where
  "elem_float E v =
     (case v of
        PVal (VFloat d) \<Rightarrow> Inr d
      | _ \<Rightarrow> bindR (elem_int E v) (\<lambda>i. Inr (f_of_int (flo (p_int E)) (sint i))))"

primrec pack_floats ::
  "('d, 'o) pack_env \<Rightarrow> ('d \<Rightarrow> u8 list) \<Rightarrow> nat \<Rightarrow> ('d, 'o) pvalue list \<Rightarrow> rstring \<Rightarrow>
     (('d, 'o) pvalue list \<times> rstring) result" where
  "pack_floats E enc 0 items res = Inr (items, res)"
| "pack_floats E enc (Suc len) items res =
     bindR (next_from items) (\<lambda>(from, items).
     bindR (elem_float E from) (\<lambda>d.
     bindR (put_bytes E res (enc d)) (\<lambda>res. pack_floats E enc len items res)))"

section \<open>Uuencoding\<close>

definition hunk :: "u8 \<Rightarrow> u8 \<Rightarrow> u8 \<Rightarrow> u8 list" where
  "hunk a b c =
     [32 + (63 AND drop_bit 2 a),
      32 + (63 AND ((push_bit 4 a AND 48) OR (drop_bit 4 b AND 15))),
      32 + (63 AND ((push_bit 2 b AND 60) OR (drop_bit 6 c AND 3))),
      32 + (63 AND (c AND 63))]"

function encode_loop :: "('d, 'o) pack_env \<Rightarrow> u8 cells \<Rightarrow> int \<Rightarrow> int \<Rightarrow> rstring \<Rightarrow> rstring result" where
  "encode_loop E q s len res =
     (if len > 0 then
        bindR (get_cell q s) (\<lambda>a. bindR (get_cell q (s + 1)) (\<lambda>b. bindR (get_cell q (s + 2)) (\<lambda>c.
          bindR (put_bytes E res (hunk a b c)) (\<lambda>res. encode_loop E q (s + 3) (len - 3) res))))
      else Inr res)"
  by pat_completeness auto
termination by (relation "measure (\<lambda>(E, q, s, len, res). nat len)") auto

declare encode_loop.simps [simp del]

text \<open>Blanks become backquotes in the whole string, not only in the line just written.\<close>

definition backquote :: "u8 option \<Rightarrow> u8 option" where
  "backquote c = (if c = Some 32 then Some 96 else c)"

definition encodes :: "('d, 'o) pack_env \<Rightarrow> rstring \<Rightarrow> u8 cells \<Rightarrow> int \<Rightarrow> int \<Rightarrow> rstring result" where
  "encodes E str q s len =
     bindR (put_bytes E str [word_of_int (len + 32)]) (\<lambda>str.
     bindR (encode_loop E q s len str) (\<lambda>str.
       let n = nat (slen str)
       in put_bytes E (str\<lparr>sptr := map backquote (take n (sptr str)) @ drop n (sptr str)\<rparr>) [10]))"

text \<open>
  Every line makes the result longer by its count and its newline at least: \<^verbatim>\<open>str_cat\<close> returns only when the longer
  string fits its block, so 32 bits bound the number of lines.
\<close>

lemma copy_cells_bounds:
  "copy_cells d di s si n = Inr p \<Longrightarrow> n \<noteq> 0 \<Longrightarrow> 0 \<le> di \<and> di + n \<le> int (length d)"
  by (simp add: copy_cells_def split: if_splits)

lemma str_modify_len: "str_modify E r = Inr r' \<Longrightarrow> slen r' = slen r"
  by (auto simp: str_modify_def split: if_splits)

lemma put_bytes_grows:
  assumes "put_bytes E r bs = Inr r'" "bs \<noteq> []"
  shows "0 \<le> slen r \<and> slen r' = slen r + int (length bs) \<and> slen r' < 4294967296"
proof -
  let ?n = "int (length bs)"
  obtain r1 p p' where m: "str_modify (p_str E) r = Inr r1" and p: "realloc_chars (p_str E) (sptr r1) (slen r1 + ?n + 1) = Inr p"
    and c: "copy_cells p (slen r1) (map Some bs) 0 ?n = Inr p'" and r': "slen r' = U32 (slen r1 + ?n)"
    using assms by (auto simp: put_bytes_def str_cat_def)
  have "int (length p) < 4294967296"
    using p U32_bounds [of "slen r1 + ?n + 1"]
    by (auto simp: realloc_chars_def xrealloc_def Let_def split: if_splits)
  then show ?thesis using copy_cells_bounds [OF c] str_modify_len [OF m] assms(2) r' by simp
qed

lemma encode_loop_grows:
  "encode_loop E q s len r = Inr r' \<Longrightarrow> slen r \<le> slen r'"
proof (induction E q s len r rule: encode_loop.induct)
  case (1 E q s len r)
  show ?case
  proof (cases "len > 0")
    case True
    then obtain a b c r1 where g: "get_cell q s = Inr a" "get_cell q (s + 1) = Inr b" "get_cell q (s + 2) = Inr c"
      and p: "put_bytes E r (hunk a b c) = Inr r1" and l: "encode_loop E q (s + 3) (len - 3) r1 = Inr r'"
      using 1(2) by (subst (asm) encode_loop.simps) auto
    from 1(1) [OF True l] put_bytes_grows [OF p] show ?thesis by (simp add: hunk_def)
  next
    case False
    then show ?thesis using 1(2) by (subst (asm) encode_loop.simps) simp
  qed
qed

lemma encodes_grows:
  assumes "encodes E r q s len = Inr r'"
  shows "slen r + 2 \<le> slen r' \<and> slen r' < 4294967296"
proof -
  obtain r1 r2 where 1: "put_bytes E r [word_of_int (len + 32)] = Inr r1" and 2: "encode_loop E q s len r1 = Inr r2"
    and 3: "put_bytes E (r2\<lparr>sptr := map backquote (take (nat (slen r2)) (sptr r2)) @ drop (nat (slen r2)) (sptr r2)\<rparr>) [10] = Inr r'"
    using assms by (auto simp: encodes_def Let_def)
  show ?thesis using put_bytes_grows [OF 1] encode_loop_grows [OF 2] put_bytes_grows [OF 3] by simp
qed

lemma bindR_cong [fundef_cong]:
  "r = r' \<Longrightarrow> (\<And>x. r' = Inr x \<Longrightarrow> f x = g x) \<Longrightarrow> bindR r f = bindR r' g"
  by (cases r') auto

function uu_loop :: "('d, 'o) pack_env \<Rightarrow> u8 cells \<Rightarrow> int \<Rightarrow> int \<Rightarrow> int \<Rightarrow> rstring \<Rightarrow> rstring result" where
  "uu_loop E q s plen len res =
     (if plen > 0 then
        let todo = (if plen > len then len else plen)
        in bindR (encodes E res q s todo) (\<lambda>res. uu_loop E q (s + todo) (plen - todo) len res)
      else Inr res)"
  by pat_completeness auto
termination
  by (relation "measure (\<lambda>(E, q, s, plen, len, res). nat (4294967296 - slen res))") (auto dest: encodes_grows)

declare uu_loop.simps [simp del]

definition pack_u :: "('d, 'o) pack_env \<Rightarrow> rstring \<Rightarrow> int \<Rightarrow> rstring \<Rightarrow> rstring result" where
  "pack_u E from len res =
     uu_loop E (sptr from) 0 (S32 (slen from)) (if len \<le> 1 then 45 else len div 3 * 3) res"

section \<open>The template\<close>

definition shrink_res :: "rstring \<Rightarrow> int \<Rightarrow> rstring result" where
  "shrink_res res len =
     (if slen res < U32 len then Inl (ArgError ''X outside of string'')
      else bindR (set_cell (sptr res) (slen res - U32 len) 0) (\<lambda>p.
             Inr (res\<lparr>slen := slen res - U32 len, sptr := p\<rparr>)))"

definition pack_item ::
  "('d, 'o) pack_env \<Rightarrow> u8 \<Rightarrow> int \<Rightarrow> bool \<Rightarrow> ('d, 'o) pvalue list \<Rightarrow> rstring \<Rightarrow>
     (('d, 'o) pvalue list \<times> rstring) result" where
  "pack_item E t len star items res =
     (if t \<in> {65, 97, 66, 98, 72, 104} then
        bindR (next_from items) (\<lambda>(from, items).
        bindR (src_of E from) (\<lambda>(ptr, plen).
        let len = (if star then plen else len) in
        bindR (if t = 65 then pack_a E 32 ptr plen len res
               else if t = 97 then pack_a E 0 ptr plen len res
               else pack_bits E t (block ptr) len res) (\<lambda>res. Inr (items, res))))
      else if t \<in> {99, 67, 115, 83, 105, 73, 108, 76, 110, 78, 118, 86} then pack_ints E t (nat len) items res
      else if t \<in> {102, 70} then pack_floats E (float_bytes E) (nat len) items res
      else if t \<in> {100, 68} then pack_floats E (double_bytes E) (nat len) items res
      else if t = 120 then bindR (pad E 0 len res) (\<lambda>res. Inr (items, res))
      else if t = 88 then bindR (shrink_res res len) (\<lambda>res. Inr (items, res))
      else if t = 64 then
        let len = S32 (len - slen res) in
        if len > 0 then bindR (pad E 0 len res) (\<lambda>res. Inr (items, res))
        else if S32 (- len) > 0 then bindR (shrink_res res (S32 (- len))) (\<lambda>res. Inr (items, res))
        else Inr (items, res)
      else if t = 37 then Inl (ArgError ''% may only be used in unpack'')
      else if t = 117 then
        bindR (next_from items) (\<lambda>(from, items).
        bindR (obj_as_string E from) (\<lambda>from.
        bindR (pack_u E from len res) (\<lambda>res. Inr (items, res))))
      else Inr (items, res))"

lemma pack_count_shorter: "pack_count t p n = (len, star, p') \<Longrightarrow> length p' \<le> length p"
  by (auto simp: pack_count_def length_dropWhile_le split: if_splits)

function pack_loop ::
  "('d, 'o) pack_env \<Rightarrow> u8 list \<Rightarrow> ('d, 'o) pvalue list \<Rightarrow> rstring \<Rightarrow> rstring result" where
  "pack_loop E [] items res = Inr res"
| "pack_loop E (t # p) items res =
     (case pack_count t p (length items) of (len, star, p') \<Rightarrow>
        bindR (pack_item E t len star items res) (\<lambda>(items, res). pack_loop E p' items res))"
  by pat_completeness auto
termination
  by (relation "measure (\<lambda>(E, p, items, res). length p)") (auto dest: pack_count_shorter [OF sym])

definition pack_pack :: "('d, 'o) pack_env \<Rightarrow> ('d, 'o) pvalue list \<Rightarrow> u8 list \<Rightarrow> rstring result" where
  "pack_pack E ary fmt = bindR (str_new (p_str E) None 0) (\<lambda>res. pack_loop E fmt ary res)"

section \<open>Unpacking\<close>

text \<open>
  The source is \<open>str\<close>; \<open>s\<close> is the index of the next byte, which \<^verbatim>\<open>@\<close> and \<^verbatim>\<open>u\<close> can move behind the end
  \<^verbatim>\<open>send\<close>, the length of the string.
\<close>

definition unpack_count :: "u8 \<Rightarrow> u8 list \<Rightarrow> int \<Rightarrow> int \<times> bool \<times> u8 list" where
  "unpack_count t p rest =
     (if p \<noteq> [] \<and> hd p = 42 then (rest, True, tl p)
      else if p \<noteq> [] \<and> isdigit (hd p) then (sint (strtoul p 10), False, dropWhile isdigit p)
      else (if t \<noteq> 64 then 1 else 0, False, p))"

text \<open>\<^verbatim>\<open>while (t >= s) { if (*t != ' ' && *t != '\0') break; t--; len--; }\<close>\<close>

primrec trim_blanks :: "u8 cells \<Rightarrow> int \<Rightarrow> nat \<Rightarrow> nat result" where
  "trim_blanks q s 0 = Inr 0"
| "trim_blanks q s (Suc n) =
     bindR (get_cell q (s + int n)) (\<lambda>c. if c \<noteq> 32 \<and> c \<noteq> 0 then Inr (Suc n) else trim_blanks q s n)"

text \<open>The loops that write bits and hexadecimal digits: a byte is read for every \<open>g\<close> digits.\<close>

primrec unpack_digits ::
  "nat \<Rightarrow> (u32 \<Rightarrow> u32) \<Rightarrow> (u32 \<Rightarrow> u8) \<Rightarrow> u8 cells \<Rightarrow> nat \<Rightarrow> nat \<Rightarrow> int \<Rightarrow> u32 \<Rightarrow> (u8 list \<times> int) result" where
  "unpack_digits g shift out q 0 i s bits = Inr ([], s)"
| "unpack_digits g shift out q (Suc k) i s bits =
     bindR (if i mod g \<noteq> 0 then Inr (shift bits, s)
            else bindR (get_cell q s) (\<lambda>c. Inr (ucast c, s + 1))) (\<lambda>(bits, s).
     bindR (unpack_digits g shift out q k (Suc i) s bits) (\<lambda>(cs, s). Inr (out bits # cs, s)))"

definition out_b :: "u32 \<Rightarrow> u8" where "out_b bits = (if bits AND 1 \<noteq> 0 then 49 else 48)"
definition out_B :: "u32 \<Rightarrow> u8" where "out_B bits = (if bits AND 128 \<noteq> 0 then 49 else 48)"
definition out_h :: "u32 \<Rightarrow> u8" where "out_h bits = hexmap (bits AND 15)"
definition out_H :: "u32 \<Rightarrow> u8" where "out_H bits = hexmap (drop_bit 4 bits AND 15)"

text \<open>A new string of \<open>len\<close> bytes, filled from its first byte on.\<close>

definition fill_new :: "('d, 'o) pack_env \<Rightarrow> int \<Rightarrow> u8 list \<Rightarrow> rstring result" where
  "fill_new E len cs =
     bindR (str_new (p_str E) None len) (\<lambda>r.
     bindR (copy_cells (sptr r) 0 (map Some cs) 0 (int (length cs))) (\<lambda>p. Inr (r\<lparr>sptr := p\<rparr>)))"

definition unpack_bits ::
  "('d, 'o) pack_env \<Rightarrow> u8 \<Rightarrow> u8 cells \<Rightarrow> int \<Rightarrow> int \<Rightarrow> bool \<Rightarrow> int \<Rightarrow> (rstring \<times> int) result" where
  "unpack_bits E t q send s star len =
     (let g = (if t \<in> {98, 66} then 8 else 2);
          len = (if star \<or> len > S32 ((send - s) * g) then S32 ((send - s) * g) else len) in
      bindR (if t = 98 then unpack_digits 8 (drop_bit 1) out_b q (nat len) 0 s 0
             else if t = 66 then unpack_digits 8 (push_bit 1) out_B q (nat len) 0 s 0
             else if t = 104 then unpack_digits 2 (drop_bit 4) out_h q (nat len) 0 s 0
             else unpack_digits 2 (push_bit 4) out_H q (nat len) 0 s 0) (\<lambda>(cs, s).
      bindR (fill_new E len cs) (\<lambda>r. Inr (r, s))))"

text \<open>
  \<^verbatim>\<open>if (len >= (send - s) / sizeof(...))\<close> compares unsigned numbers. For a position behind the end
  the quotient is large, and the count is not reduced.
\<close>

definition clip :: "int \<Rightarrow> int \<Rightarrow> int \<Rightarrow> int" where
  "clip width rest len = (let m = U32 rest div width in if U32 len \<ge> m then S32 m else len)"

primrec get_bytes :: "u8 cells \<Rightarrow> int \<Rightarrow> nat \<Rightarrow> u8 list result" where
  "get_bytes q s 0 = Inr []"
| "get_bytes q s (Suc n) =
     bindR (get_cell q s) (\<lambda>c. bindR (get_bytes q (s + 1) n) (\<lambda>cs. Inr (c # cs)))"

primrec unpack_nums ::
  "nat \<Rightarrow> (u8 list \<Rightarrow> ('d, 'o) pvalue) \<Rightarrow> u8 cells \<Rightarrow> nat \<Rightarrow> int \<Rightarrow> (('d, 'o) pvalue list \<times> int) result" where
  "unpack_nums width dec q 0 s = Inr ([], s)"
| "unpack_nums width dec q (Suc len) s =
     bindR (get_bytes q s width) (\<lambda>bs.
     bindR (unpack_nums width dec q len (s + int width)) (\<lambda>(vs, s). Inr (dec bs # vs, s)))"

definition int_width :: "u8 \<Rightarrow> nat" where
  "int_width t =
     (if t \<in> {99, 67} then 1 else if t \<in> {115, 83, 110, 118} then 2 else 4)"

text \<open>\<^verbatim>\<open>I\<close> reads an \<^verbatim>\<open>unsigned int\<close> and passes it to \<^verbatim>\<open>int2inum\<close>, which takes an \<^verbatim>\<open>int\<close>.\<close>

definition bytes_int :: "bool \<Rightarrow> u8 \<Rightarrow> u8 list \<Rightarrow> inum" where
  "bytes_int be t bs =
     (if t = 99 then Fix (INT2FIX (let c = ucast (bs ! 0) in if uint c > 127 then c - 256 else c))
      else if t = 67 then Fix (INT2FIX (ucast (bs ! 0)))
      else if t = 115 then Fix (INT2FIX (word_of_int (sint (word2 be bs))))
      else if t = 83 then Fix (INT2FIX (ucast (word2 be bs)))
      else if t \<in> {105, 73, 108} then int2inum (word4 be bs)
      else if t = 76 then uint2inum (word4 be bs)
      else if t = 110 then uint2inum (ucast (htons be (word2 be bs)))
      else if t = 78 then uint2inum (htonl be (word4 be bs))
      else if t = 118 then uint2inum (ucast (htovs be (word2 be bs)))
      else uint2inum (htovl be (word4 be bs)))"

definition unpack_ints ::
  "('d, 'o) pack_env \<Rightarrow> u8 \<Rightarrow> u8 cells \<Rightarrow> int \<Rightarrow> int \<Rightarrow> int \<Rightarrow> (('d, 'o) pvalue list \<times> int) result" where
  "unpack_ints E t q send s len =
     (let len = (if t \<in> {99, 67} then if len > send - s then send - s else len
                 else clip (int (int_width t)) (send - s) len)
      in unpack_nums (int_width t) (\<lambda>bs. PVal (VInt (bytes_int (big_endian E) t bs))) q (nat len) s)"

definition unpack_floats ::
  "nat \<Rightarrow> (u8 list \<Rightarrow> 'd) \<Rightarrow> u8 cells \<Rightarrow> int \<Rightarrow> int \<Rightarrow> int \<Rightarrow> (('d, 'o) pvalue list \<times> int) result" where
  "unpack_floats width dec q send s len =
     unpack_nums width (\<lambda>bs. PVal (VFloat (dec bs))) q (nat (clip (int width) (send - s) len)) s"

section \<open>Uudecoding\<close>

text \<open>\<^verbatim>\<open>if (s < send && *s >= ' ') a = (*s++ - ' ') & 077; else a = 0;\<close>\<close>

definition sextet :: "u8 cells \<Rightarrow> int \<Rightarrow> int \<Rightarrow> (u8 \<times> int) result" where
  "sextet q send s =
     (if s < send then
        bindR (get_cell q s) (\<lambda>c. Inr (if uint c \<ge> 32 then ((c - 32) AND 63, s + 1) else (0, s)))
      else Inr (0, s))"

definition unhunk :: "u8 \<Rightarrow> u8 \<Rightarrow> u8 \<Rightarrow> u8 \<Rightarrow> u8 list" where
  "unhunk a b c d =
     [push_bit 2 a OR drop_bit 4 b, push_bit 4 b OR drop_bit 2 c, push_bit 6 c OR d]"

function decode_line :: "u8 cells \<Rightarrow> int \<Rightarrow> int \<Rightarrow> int \<Rightarrow> (u8 list \<times> int) result" where
  "decode_line q send s len =
     (if len > 0 then
        bindR (sextet q send s) (\<lambda>(a, s). bindR (sextet q send s) (\<lambda>(b, s).
        bindR (sextet q send s) (\<lambda>(c, s). bindR (sextet q send s) (\<lambda>(d, s).
        bindR (decode_line q send s (len - 3)) (\<lambda>(bs, s).
          Inr (take (nat len) (unhunk a b c d) @ bs, s))))))
      else Inr ([], s))"
  by pat_completeness auto
termination by (relation "measure (\<lambda>(q, send, s, len). nat len)") auto

declare decode_line.simps [simp del]

text \<open>The end of a line: \<^verbatim>\<open>\r\<close>, \<^verbatim>\<open>\n\<close>, or a checksum byte and \<^verbatim>\<open>\n\<close>.\<close>

definition line_end :: "u8 cells \<Rightarrow> int \<Rightarrow> int \<Rightarrow> int result" where
  "line_end q send s =
     bindR (get_cell q s) (\<lambda>c.
       let s = (if c = 13 then s + 1 else s) in
     bindR (get_cell q s) (\<lambda>c.
       if c = 10 then Inr (s + 1)
       else if s < send then
         if s + 1 = send then Inr (s + 2)
         else bindR (get_cell q (s + 1)) (\<lambda>c. Inr (if c = 10 then s + 2 else s))
       else Inr s))"

text \<open>
  The lines; \<open>room\<close> is the length of the new string and \<open>tot\<close> (\<^verbatim>\<open>total\<close>) what is decoded so far. The rounds
  are counted down in \<open>n\<close>, the number of bytes, as each takes at least its first byte.
\<close>

primrec decode_lines :: "nat \<Rightarrow> u8 cells \<Rightarrow> int \<Rightarrow> int \<Rightarrow> int \<Rightarrow> int \<Rightarrow> (u8 list \<times> int) result" where
  "decode_lines 0 q send room s tot = Inl Diverges"
| "decode_lines (Suc n) q send room s tot =
     (if s < send then
        bindR (get_cell q s) (\<lambda>c.
          if uint c > 32 \<and> uint c < 97 then
            let len = uint ((c - 32) AND 63);
                tot' = tot + len;
                len = (if tot' > room then len - (tot' - room) else len);
                tot' = (if tot' > room then room else tot')
            in bindR (decode_line q send (s + 1) len) (\<lambda>(bs, s).
               bindR (line_end q send s) (\<lambda>s.
               bindR (decode_lines n q send room s tot') (\<lambda>(cs, s). Inr (bs @ cs, s))))
          else Inr ([], s))
      else Inr ([], s))"

text \<open>The length becomes the number of bytes decoded; the terminating byte is not moved there.\<close>

definition unpack_u :: "('d, 'o) pack_env \<Rightarrow> u8 cells \<Rightarrow> int \<Rightarrow> int \<Rightarrow> (rstring \<times> int) result" where
  "unpack_u E q send s =
     (let room = S32 ((send - s) * 3);
          room = (if room < 0 then - (- room div 4) else room div 4) in
      bindR (str_new (p_str E) None room) (\<lambda>r.
      bindR (decode_lines (nat (send - s) + 1) q send (U32 room) s 0) (\<lambda>(bs, s).
      bindR (copy_cells (sptr r) 0 (map Some bs) 0 (int (length bs))) (\<lambda>p.
        Inr (r\<lparr>slen := int (length bs), sptr := p\<rparr>, s)))))"

section \<open>The template of unpack\<close>

definition unpack_A :: "('d, 'o) pack_env \<Rightarrow> u8 cells \<Rightarrow> int \<Rightarrow> int \<Rightarrow> int \<Rightarrow> (rstring \<times> int) result" where
  "unpack_A E q send s len =
     (let end' = (if len > send - s then send - s else len) in
      bindR (trim_blanks q s (nat end')) (\<lambda>n.
      bindR (str_new (p_str E) (Some (q, s)) (if end' > 0 then int n else end')) (\<lambda>r. Inr (r, s + end'))))"

definition unpack_a :: "('d, 'o) pack_env \<Rightarrow> u8 cells \<Rightarrow> int \<Rightarrow> int \<Rightarrow> int \<Rightarrow> (rstring \<times> int) result" where
  "unpack_a E q send s len =
     (let len = (if len > send - s then send - s else len) in
      bindR (str_new (p_str E) (Some (q, s)) len) (\<lambda>r. Inr (r, s + len)))"

definition unpack_item ::
  "('d, 'o) pack_env \<Rightarrow> u8 \<Rightarrow> int \<Rightarrow> bool \<Rightarrow> rstring \<Rightarrow> int \<Rightarrow> (('d, 'o) pvalue list \<times> int) result" where
  "unpack_item E t len star str s =
     (let q = sptr str; send = slen str in
      if t = 37 then Inl (ArgError ''% is not supported(yet)'')
      else if t = 65 then bindR (unpack_A E q send s len) (\<lambda>(r, s). Inr ([PStr r], s))
      else if t = 97 then bindR (unpack_a E q send s len) (\<lambda>(r, s). Inr ([PStr r], s))
      else if t \<in> {98, 66, 104, 72} then
        bindR (unpack_bits E t q send s star len) (\<lambda>(r, s). Inr ([PStr r], s))
      else if t \<in> {99, 67, 115, 83, 105, 73, 108, 76, 110, 78, 118, 86} then unpack_ints E t q send s len
      else if t \<in> {102, 70} then unpack_floats 4 (bytes_float E) q send s len
      else if t \<in> {100, 68} then unpack_floats 8 (bytes_double E) q send s len
      else if t = 117 then bindR (unpack_u E q send s) (\<lambda>(r, s). Inr ([PStr r], s))
      else if t = 64 then Inr ([], len)
      else if t = 88 then
        if len > s then Inl (ArgError ''X outside of string'') else Inr ([], s - len)
      else if t = 120 then
        if len > send - s then Inl (ArgError ''x outside of string'') else Inr ([], s + len)
      else Inr ([], s))"

lemma unpack_count_shorter: "unpack_count t p n = (len, star, p') \<Longrightarrow> length p' \<le> length p"
  by (auto simp: unpack_count_def length_dropWhile_le split: if_splits)

function unpack_loop ::
  "('d, 'o) pack_env \<Rightarrow> rstring \<Rightarrow> u8 list \<Rightarrow> int \<Rightarrow> ('d, 'o) pvalue list \<Rightarrow> ('d, 'o) pvalue list result" where
  "unpack_loop E str [] s ary = Inr ary"
| "unpack_loop E str (t # p) s ary =
     (case unpack_count t p (slen str - s) of (len, star, p') \<Rightarrow>
        bindR (unpack_item E t len star str s) (\<lambda>(vs, s). unpack_loop E str p' s (ary @ vs)))"
  by pat_completeness auto
termination
  by (relation "measure (\<lambda>(E, str, p, s, ary). length p)") (auto dest: unpack_count_shorter [OF sym])

definition pack_unpack :: "('d, 'o) pack_env \<Rightarrow> rstring \<Rightarrow> u8 list \<Rightarrow> ('d, 'o) pvalue list result" where
  "pack_unpack E str fmt = unpack_loop E str fmt 0 []"

section \<open>Bytes and words\<close>

definition w2 :: "u8 \<Rightarrow> u8 \<Rightarrow> u16" where
  "w2 a b = ucast a + push_bit 8 (ucast b)"

definition w4 :: "u8 \<Rightarrow> u8 \<Rightarrow> u8 \<Rightarrow> u8 \<Rightarrow> u32" where
  "w4 a b c d = ucast a + push_bit 8 (ucast b) + push_bit 16 (ucast c) + push_bit 24 (ucast d)"

lemma uint_8_bounds: "0 \<le> uint (a :: u8)" "uint (a :: u8) < 256"
  using uint_lt2p [of a] by simp_all

lemma uint_w2: "uint (w2 a b) = uint a + 256 * uint b"
  using uint_8_bounds [of a] uint_8_bounds [of b]
  by (simp add: w2_def uint_word_ariths push_bit_eq_mult unsigned_ucast_eq take_bit_eq_mod)

lemma uint_w4: "uint (w4 a b c d) = uint a + 256 * uint b + 65536 * uint c + 16777216 * uint d"
  using uint_8_bounds [of a] uint_8_bounds [of b] uint_8_bounds [of c] uint_8_bounds [of d]
  by (simp add: w4_def uint_word_ariths push_bit_eq_mult unsigned_ucast_eq take_bit_eq_mod)

lemma uint_low: "uint (ucast x :: u8) = uint x mod 256" for x :: u32
  by (simp add: unsigned_ucast_eq take_bit_eq_mod)

lemma uint_drop:
  "uint (drop_bit 8 y) = uint y div 256" "uint (drop_bit 8 x) = uint x div 256"
  "uint (drop_bit 16 x) = uint x div 65536" "uint (drop_bit 24 x) = uint x div 16777216" for x :: u32 and y :: u16
  by (simp_all add: drop_bit_eq_div uint_div)

lemma div_256: "y div 65536 = y div 256 div 256" "y div 16777216 = y div 256 div 256 div 256" for y :: int
  by (simp_all add: zdiv_zmult2_eq [symmetric])

lemma and_255: "uint (x AND 0xFF) = uint x mod 256" "uint (y AND 0xFF) = uint y mod 256" for x :: u32 and y :: u16
  using take_bit_eq_mask [of 8 "uint x"] take_bit_eq_mask [of 8 "uint y"]
  by (simp_all add: unsigned_and_eq mask_eq_exp_minus_1 take_bit_eq_mod)

lemma w2_bytes: "ucast (w2 a b) = a" "ucast (drop_bit 8 (w2 a b)) = b"
  using uint_8_bounds [of a] uint_8_bounds [of b]
  by (simp_all add: word_uint_eq_iff [where 'a = 8] unsigned_ucast_eq take_bit_eq_mod uint_w2 drop_bit_eq_div uint_div)

lemma w2_split: "w2 (ucast x) (ucast (drop_bit 8 x)) = x"
proof -
  have "0 \<le> uint x" "uint x < 65536" using uint_lt2p [of x] by simp_all
  then have "uint x div 256 mod 256 = uint x div 256" by (intro mod_pos_pos_trivial) linarith+
  then show ?thesis
    by (simp add: word_uint_eq_iff uint_w2 unsigned_ucast_eq take_bit_eq_mod drop_bit_eq_div uint_div)
qed

lemma low_byte: "0 \<le> a \<Longrightarrow> a < 256 \<Longrightarrow> (a + 256 * k) mod 256 = (a :: int)"
  "0 \<le> a \<Longrightarrow> a < 256 \<Longrightarrow> (a + 256 * k) div 256 = (k :: int)"
  by (simp_all add: mod_mult_self2)

lemma w4_bytes:
  "ucast (w4 a b c d) = a" "ucast (drop_bit 8 (w4 a b c d)) = b"
  "ucast (drop_bit 16 (w4 a b c d)) = c" "ucast (drop_bit 24 (w4 a b c d)) = d"
proof -
  note bounds = uint_8_bounds [of a] uint_8_bounds [of b] uint_8_bounds [of c] uint_8_bounds [of d]
  have x: "uint (w4 a b c d) = uint a + 256 * (uint b + 256 * (uint c + 256 * uint d))" by (simp add: uint_w4)
  have "uint d mod 256 = uint d" using bounds by simp
  then show "ucast (w4 a b c d) = a" "ucast (drop_bit 8 (w4 a b c d)) = b"
    "ucast (drop_bit 16 (w4 a b c d)) = c" "ucast (drop_bit 24 (w4 a b c d)) = d"
    using bounds by (simp_all only: word_uint_eq_iff [where 'a = 8] uint_low uint_drop div_256 x low_byte)
qed

lemma w4_split: "w4 (ucast x) (ucast (drop_bit 8 x)) (ucast (drop_bit 16 x)) (ucast (drop_bit 24 x)) = x"
proof -
  have "uint x < 4294967296" using uint_lt2p [of x] by simp
  then have "uint x div 16777216 mod 256 = uint x div 16777216" by (intro mod_pos_pos_trivial) (simp add: pos_imp_zdiv_nonneg_iff, linarith)
  moreover have "y = y mod 256 + 256 * (y div 256)" for y :: int by simp
  note this [of "uint x"] this [of "uint x div 256"] this [of "uint x div 256 div 256"]
  ultimately have "uint x mod 256 + 256 * (uint x div 256 mod 256) + 65536 * (uint x div 65536 mod 256)
      + 16777216 * (uint x div 16777216 mod 256) = uint x"
    unfolding div_256 by linarith
  then show ?thesis
    by (simp only: word_uint_eq_iff [where 'a = 32] uint_w4 uint_low uint_drop)
qed

lemma swaps_w2: "swaps (w2 a b) = w2 b a"
proof -
  have "uint (w2 a b) mod 256 = uint a" "uint (w2 a b) div 256 = uint b" "uint b mod 256 = uint b"
    using uint_8_bounds [of a] uint_8_bounds [of b] by (simp_all add: uint_w2)
  then show ?thesis using uint_8_bounds [of a] uint_8_bounds [of b]
    by (simp add: swaps_def word_uint_eq_iff [where 'a = 16] uint_word_ariths push_bit_eq_mult uint_w2 and_255 uint_drop)
qed

lemma and_shifted: "x AND 0xFF00 = push_bit 8 (drop_bit 8 x AND 0xFF)" "x AND 0xFF0000 = push_bit 16 (drop_bit 16 x AND 0xFF)"
  for x :: u32
proof -
  have "x AND push_bit n m = push_bit n (drop_bit n x AND m)" for n and m :: u32
    by (rule bit_word_eqI) (auto simp: bit_simps)
  from this [of 8 255] this [of 16 255] show "x AND 0xFF00 = push_bit 8 (drop_bit 8 x AND 0xFF)"
    "x AND 0xFF0000 = push_bit 16 (drop_bit 16 x AND 0xFF)"
    by simp_all
qed

lemma swapl_w4: "swapl (w4 a b c d) = w4 d c b a"
proof -
  note bounds = uint_8_bounds [of a] uint_8_bounds [of b] uint_8_bounds [of c] uint_8_bounds [of d]
  let ?x = "w4 a b c d"
  have byte: "y AND 0xFF = ucast (ucast y :: u8)" for y :: u32
    by (simp add: word_uint_eq_iff [where 'a = 32] and_255 uint_mod unsigned_ucast_eq take_bit_eq_mod)
  have "drop_bit 8 (push_bit 16 (ucast c :: u32)) = push_bit 8 (ucast c)"
    using bounds by (simp add: word_uint_eq_iff [where 'a = 32] uint_drop push_bit_eq_mult uint_word_ariths unsigned_ucast_eq take_bit_eq_mod)
  then have "swapl ?x = push_bit 24 (ucast a) + ucast d + push_bit 8 (push_bit 8 (ucast b)) + push_bit 8 (ucast c)"
    by (simp only: swapl_def and_shifted byte w4_bytes)
  then show ?thesis by (simp add: w4_def push_bit_eq_mult)
qed

text \<open>Both byte orders are decoded by their own inverse; a swap changes the one into the other.\<close>

lemma word2_bytes2 [simp]: "word2 be (bytes2 be x) = x"
  using w2_split [of x] by (simp add: word2_def bytes2_def Let_def w2_def)

lemma word4_bytes4 [simp]: "word4 be (bytes4 be x) = x"
  using w4_split [of x] by (simp add: word4_def bytes4_def Let_def w4_def)

lemma bytes2_swaps: "bytes2 be (swaps x) = bytes2 (\<not> be) x"
proof -
  have "swaps x = w2 (ucast (drop_bit 8 x)) (ucast x)"
    using swaps_w2 [of "ucast x" "ucast (drop_bit 8 x)"] unfolding w2_split .
  then show ?thesis by (simp only: bytes2_def Let_def w2_bytes) simp
qed

lemma bytes4_swapl: "bytes4 be (swapl x) = bytes4 (\<not> be) x"
proof -
  have "swapl x = w4 (ucast (drop_bit 24 x)) (ucast (drop_bit 16 x)) (ucast (drop_bit 8 x)) (ucast x)"
    using swapl_w4 [of "ucast x" "ucast (drop_bit 8 x)" "ucast (drop_bit 16 x)" "ucast (drop_bit 24 x)"]
    unfolding w4_split .
  then show ?thesis by (simp only: bytes4_def Let_def w4_bytes) simp
qed

lemma swap_twice [simp]: "swaps (swaps x) = x" "swapl (swapl y) = y"
  using word2_bytes2 [of True "swaps (swaps x)"] word4_bytes4 [of True "swapl (swapl y)"]
  by (simp_all add: bytes2_swaps bytes4_swapl)

text \<open>\<open>wire_bytes\<close>: network order for \<^verbatim>\<open>n\<close> and \<^verbatim>\<open>N\<close>, VAX order for \<^verbatim>\<open>v\<close> and \<^verbatim>\<open>V\<close>, else that of the host.\<close>

definition wire_bytes :: "bool \<Rightarrow> u8 \<Rightarrow> u32 \<Rightarrow> u8 list" where
  "wire_bytes be t w =
     (let be = (if t \<in> {110, 78} then True else if t \<in> {118, 86} then False else be)
      in if int_width t = 1 then [ucast w]
         else if int_width t = 2 then bytes2 be (ucast w) else bytes4 be w)"

lemma int_bytes_wire:
  "t \<in> {99, 67, 115, 83, 105, 73, 108, 76, 110, 78, 118, 86} \<Longrightarrow> int_bytes be t w = wire_bytes be t w"
  by (auto simp: int_bytes_def wire_bytes_def int_width_def htons_def htonl_def htovs_def htovl_def
      bytes2_swaps bytes4_swapl)

text \<open>The number that a type keeps of a word: signed for \<^verbatim>\<open>c\<close>, \<^verbatim>\<open>s\<close>, \<^verbatim>\<open>i\<close>, \<^verbatim>\<open>l\<close>, and for \<^verbatim>\<open>I\<close>.\<close>

definition num_val :: "u8 \<Rightarrow> u32 \<Rightarrow> int" where
  "num_val t w =
     (if t = 99 then sint (ucast w :: u8) else if t = 67 then uint (ucast w :: u8)
      else if t = 115 then sint (ucast w :: u16) else if t \<in> {83, 110, 118} then uint (ucast w :: u16)
      else if t \<in> {105, 73, 108} then sint w else uint w)"

lemma INT2FIX_small:
  assumes "- (2 ^ 30) \<le> v" "v < 2 ^ 30" "w = word_of_int v"
  shows "sint (FIX2INT (INT2FIX w)) = v"
proof -
  have "sint w = v"
    unfolding assms(3) using assms(1,2) by (simp add: sint_sbintrunc' signed_take_bit_int_eq_self)
  then show ?thesis using assms INT2FIX_val [of w] by (simp add: FIXABLE_iff)
qed

lemma length_wire_bytes: "length (wire_bytes be t w) = int_width t"
  by (auto simp: wire_bytes_def Let_def bytes2_def bytes4_def int_width_def)

lemma sint_8: "sint (c :: u8) = (if uint c > 127 then uint c - 256 else uint c)"
  by (simp add: sint_eq_uint_if)

lemma host_twice [simp]: "htons be (htons be x) = x" "htonl be (htonl be y) = y" "htovs be (htovs be x) = x"
  "htovl be (htovl be y) = y"
  by (simp_all add: htons_def htonl_def htovs_def htovl_def)

lemma bytes_int_char: "inum_val (bytes_int be 99 [c]) = sint c" "inum_val (bytes_int be 67 [c]) = uint c"
proof -
  let ?w = "ucast c :: u32"
  have u: "uint ?w = uint c" using uint_8_bounds [of c] by (simp add: unsigned_ucast_eq take_bit_eq_mod)
  have w: "(if uint ?w > 127 then ?w - 256 else ?w) = word_of_int (sint c)"
    unfolding sint_8 u by simp
  have "- 256 \<le> sint c" "sint c < 256" unfolding sint_8 using uint_8_bounds [of c] by auto
  then show "inum_val (bytes_int be 99 [c]) = sint c"
    using INT2FIX_small [OF _ _ w] by (simp add: bytes_int_def Let_def)
  show "inum_val (bytes_int be 67 [c]) = uint c"
    using INT2FIX_small [of "uint c" ?w] uint_8_bounds [of c] by (simp add: bytes_int_def)
qed

lemma bytes_int_short:
  "inum_val (bytes_int be 115 (bytes2 be x)) = sint x" "inum_val (bytes_int be 83 (bytes2 be x)) = uint x"
proof -
  have "- (2 ^ 15) \<le> sint x" "sint x < 2 ^ 15" using sint_greater_eq [of x] sint_lt [of x] by simp_all
  then show "inum_val (bytes_int be 115 (bytes2 be x)) = sint x"
    using INT2FIX_small [OF _ _ refl, of "sint x"] by (simp add: bytes_int_def)
  show "inum_val (bytes_int be 83 (bytes2 be x)) = uint x"
    using INT2FIX_small [of "uint x" "ucast x"] uint_16_bounds [of x] by (simp add: bytes_int_def)
qed

lemma bytes_int_wire:
  assumes "t \<in> {99, 67, 115, 83, 105, 73, 108, 76, 110, 78, 118, 86}"
  shows "inum_wf (bytes_int be t (wire_bytes be t w))" "inum_val (bytes_int be t (wire_bytes be t w)) = num_val t w"
proof -
  show "inum_wf (bytes_int be t (wire_bytes be t w))"
    using int2inum_ok(1) uint2inum_ok(1) by (simp add: bytes_int_def)
  have "inum_val (bytes_int be t (int_bytes be t w)) = num_val t w"
    using assms bytes_int_char [of be "ucast w"] bytes_int_short [of be "ucast w"]
    by (elim insertE) (simp_all add: int_bytes_def num_val_def bytes_int_def int2inum_ok uint2inum_ok uint_ucast_16_32)
  then show "inum_val (bytes_int be t (wire_bytes be t w)) = num_val t w" using int_bytes_wire [OF assms] by simp
qed

section \<open>Packing numbers\<close>

definition p_usable :: "('d, 'o) pack_env \<Rightarrow> bool" where
  "p_usable E \<longleftrightarrow> s_usable (p_str E)"

lemma put_bytes_ok:
  assumes "p_usable E" "is_string r bs" "\<not> sfrozen r" "length bs + length cs < 1073741824"
  shows "\<exists>r'. put_bytes E r cs = Inr r' \<and> is_string r' (bs @ cs) \<and> \<not> sfrozen r'"
  using str_cat_ok [of "p_str E" r bs 0 "map Some cs" cs "int (length cs)"] assms
  by (simp add: put_bytes_def p_usable_def holds_def)

lemma pack_ints_ok:
  assumes "p_usable E" "t \<in> {99, 67, 115, 83, 105, 73, 108, 76, 110, 78, 118, 86}"
  shows "list_all2 (\<lambda>v w. elem_int E v = Inr w) vs ws \<Longrightarrow> is_string r bs \<Longrightarrow> \<not> sfrozen r \<Longrightarrow>
    length bs + int_width t * length ws < 1073741824 \<Longrightarrow>
    \<exists>r'. pack_ints E t (length vs) vs r = Inr ([], r') \<and>
      is_string r' (bs @ concat (map (wire_bytes (big_endian E) t) ws)) \<and> \<not> sfrozen r'"
proof (induction vs ws arbitrary: r bs rule: list_all2_induct)
  case (Cons v vs w ws)
  let ?b = "wire_bytes (big_endian E) t w"
  obtain r1 where r1: "put_bytes E r ?b = Inr r1" "is_string r1 (bs @ ?b)" "\<not> sfrozen r1"
    using put_bytes_ok [OF assms(1) Cons.prems(1,2), of ?b] Cons.prems(3) by (auto simp: length_wire_bytes)
  then obtain r2 where "pack_ints E t (length vs) vs r1 = Inr ([], r2)"
      "is_string r2 ((bs @ ?b) @ concat (map (wire_bytes (big_endian E) t) ws))" "\<not> sfrozen r2"
    using Cons.IH [OF r1(2,3)] Cons.prems(3) by (auto simp: length_wire_bytes)
  then show ?case using r1(1) Cons.hyps by (simp add: next_from_def int_bytes_wire [OF assms(2)])
qed simp

lemma get_bytes_ok: "holds (drop (nat s) q) (bs @ cs) \<Longrightarrow> 0 \<le> s \<Longrightarrow> get_bytes q s (length bs) = Inr bs"
proof (induction bs arbitrary: s)
  case (Cons b bs)
  note h = holds_drop_Cons [OF Cons.prems(1) [simplified] Cons.prems(2)]
  then show ?case using Cons.IH [of "s + 1"] Cons.prems(2) by simp
qed simp

lemma unpack_nums_ok:
  assumes "\<And>w. length (f w) = width"
  shows "holds (drop (nat s) q) (concat (map f ws)) \<Longrightarrow> 0 \<le> s \<Longrightarrow>
    unpack_nums width dec q (length ws) s = Inr (map (\<lambda>w. dec (f w)) ws, s + int width * int (length ws))"
proof (induction ws arbitrary: s)
  case (Cons w ws)
  have g: "get_bytes q s width = Inr (f w)"
    using get_bytes_ok [of s q "f w"] Cons.prems assms by simp
  have "holds (drop (nat (s + int width)) q) (concat (map f ws))"
    using holds_drop_append [of s q "f w" "concat (map f ws)"] Cons.prems assms by simp
  then show ?case using Cons.IH [of "s + int width"] Cons.prems(2) g by (simp add: algebra_simps)
qed simp

lemma clip_all:
  assumes "width = 2 \<or> width = 4" "width * n < 1073741824"
  shows "clip (int width) (int (width * n)) (int (width * n)) = int n"
proof -
  have "U32 (int (width * n)) = int width * int n" "S32 (int n) = int n" using assms by auto
  then show ?thesis using assms by (auto simp: clip_def Let_def)
qed

lemma star_template:
  "pack_loop E [t, 42] items res =
     bindR (pack_item E t (if t \<in> {64, 88, 120, 117, 0} then 0 else int (length items)) True items res)
       (\<lambda>(items, res). Inr res)"
  "unpack_loop E str [t, 42] 0 [] = bindR (unpack_item E t (slen str) True str 0) (\<lambda>(vs, s). Inr vs)"
proof -
  have "pack_loop E [] = (\<lambda>items res. Inr res)" "unpack_loop E str [] = (\<lambda>s ary. Inr ary)"
    by (simp_all add: fun_eq_iff)
  then show "pack_loop E [t, 42] items res =
     bindR (pack_item E t (if t \<in> {64, 88, 120, 117, 0} then 0 else int (length items)) True items res)
       (\<lambda>(items, res). Inr res)"
    "unpack_loop E str [t, 42] 0 [] = bindR (unpack_item E t (slen str) True str 0) (\<lambda>(vs, s). Inr vs)"
    by (simp_all add: pack_count_def unpack_count_def)
qed

lemma unpack_ints_ok:
  assumes "t \<in> {99, 67, 115, 83, 105, 73, 108, 76, 110, 78, 118, 86}"
    "is_string r (concat (map (wire_bytes (big_endian E) t) ws))"
  shows "\<exists>zs s. unpack_ints E t (sptr r) (slen r) 0 (slen r) = Inr (map (\<lambda>z. PVal (VInt z)) zs, s) \<and>
    list_all inum_wf zs \<and> map inum_val zs = map (num_val t) ws"
proof -
  let ?f = "wire_bytes (big_endian E) t" and ?n = "length ws"
  have len: "length (concat (map ?f ws)) = int_width t * ?n"
    by (induction ws) (simp_all add: length_wire_bytes)
  note S = is_stringD [OF assms(2)]
  have "(if t \<in> {99, 67} then if slen r > slen r - 0 then slen r - 0 else slen r
      else clip (int (int_width t)) (slen r - 0) (slen r)) = int ?n"
  proof (cases "t \<in> {99, 67}")
    case True
    then show ?thesis using S(1) len by (auto simp: int_width_def)
  next
    case False
    then have "int_width t = 2 \<or> int_width t = 4" by (auto simp: int_width_def)
    then show ?thesis using False S(1,2) len clip_all [of "int_width t" ?n] by simp
  qed
  then have "unpack_ints E t (sptr r) (slen r) 0 (slen r) =
      Inr (map (\<lambda>w. PVal (VInt (bytes_int (big_endian E) t (?f w)))) ws, 0 + int (int_width t) * int ?n)"
    using unpack_nums_ok [of ?f "int_width t" 0 "sptr r" ws] S(4) length_wire_bytes
    by (simp add: unpack_ints_def Let_def)
  then show ?thesis using bytes_int_wire [OF assms(1)]
    by (intro exI [of _ "map (\<lambda>w. bytes_int (big_endian E) t (?f w)) ws"]) (auto simp: list_all_iff)
qed

section \<open>Properties\<close>

text \<open>
  C8: \<^verbatim>\<open>pack\<close> with an integer type and a star writes every element in the byte order of the type, on
  hosts of either byte order, and \<^verbatim>\<open>unpack\<close> with the same template reads back what the type keeps of
  each element: it wraps, and is signed for \<^verbatim>\<open>c\<close>, \<^verbatim>\<open>s\<close>, \<^verbatim>\<open>i\<close>, \<^verbatim>\<open>l\<close> and also for \<^verbatim>\<open>I\<close>.
\<close>

theorem pack_unpack_ints:
  assumes "p_usable E" "t \<in> {99, 67, 115, 83, 105, 73, 108, 76, 110, 78, 118, 86}"
    "list_all2 (\<lambda>v w. elem_int E v = Inr w) vs ws" "int_width t * length ws < 1073741824"
  shows "\<exists>r zs. pack_pack E vs [t, 42] = Inr r \<and>
    is_string r (concat (map (wire_bytes (big_endian E) t) ws)) \<and>
    pack_unpack E r [t, 42] = Inr (map (\<lambda>z. PVal (VInt z)) zs) \<and>
    list_all inum_wf zs \<and> map inum_val zs = map (num_val t) ws"
proof -
  obtain r0 where r0: "str_new (p_str E) None 0 = Inr r0" "is_string r0 []" "\<not> sfrozen r0"
    using empty_string assms(1) by (auto simp: p_usable_def)
  obtain r where r: "pack_ints E t (length vs) vs r0 = Inr ([], r)"
      "is_string r (concat (map (wire_bytes (big_endian E) t) ws))"
    using pack_ints_ok [OF assms(1-3) r0(2,3)] assms(4) by auto
  obtain zs s where z: "unpack_ints E t (sptr r) (slen r) 0 (slen r) = Inr (map (\<lambda>z. PVal (VInt z)) zs, s)"
      "list_all inum_wf zs" "map inum_val zs = map (num_val t) ws"
    using unpack_ints_ok [OF assms(2) r(2)] by blast
  have "pack_item E t (int (length vs)) True vs r0 = pack_ints E t (length vs) vs r0"
    "unpack_item E t (slen r) True r 0 = unpack_ints E t (sptr r) (slen r) 0 (slen r)"
    using assms(2) by (auto simp: pack_item_def unpack_item_def Let_def)
  moreover have "t \<notin> {64, 88, 120, 117, 0}" using assms(2) by auto
  ultimately have "pack_pack E vs [t, 42] = Inr r" "pack_unpack E r [t, 42] = Inr (map (\<lambda>z. PVal (VInt z)) zs)"
    using r0(1) r(1) z(1) by (simp_all add: pack_pack_def pack_unpack_def star_template del: pack_loop.simps unpack_loop.simps)
  then show ?thesis using r(2) z(2,3) by blast
qed

definition sample_flo :: "int float_ops" where
  "sample_flo =
     \<lparr>f_of_int = (\<lambda>i. i), f_to_long = word_of_int, f_neg = uminus, f_add = (+), f_sub = (-), f_mul = (*),
      f_div = (div), f_pow = (\<lambda>x y. x ^ nat y), f_fmod = (mod), f_abs = abs, f_floor = (\<lambda>x. x),
      f_lt = (<), f_le = (\<le>), f_eq = (=)\<rparr>"

definition sample_pack_env :: "(int, unit) pack_env" where
  "sample_pack_env =
     \<lparr>p_str = sample_str_env,
      p_int = \<lparr>flo = sample_flo, rb_funcall = (\<lambda>_ _ _. Inl (Fail ''no method'')), word_of = \<lambda>_. 4\<rparr>,
      p_to_s = (\<lambda>_. Inl (Fail ''no method'')), big_endian = False,
      float_bytes = (\<lambda>d. bytes4 False (word_of_int d)), double_bytes = (\<lambda>d. bytes4 False (word_of_int d) @ [0, 0, 0, 0]),
      bytes_float = (\<lambda>bs. sint (word4 False bs)), bytes_double = (\<lambda>bs. sint (word4 False (take 4 bs)))\<rparr>"

lemma sample_pack_env_ok: "p_usable sample_pack_env" "big_endian sample_pack_env = False"
  using sample_str_env_ok by (simp_all add: p_usable_def sample_pack_env_def)

theorem pack_unpack_ints_witness:
  "\<exists>r zs. pack_pack sample_pack_env [PVal (VFix 258), PVal (VFix 65535)] [110, 42] = Inr r \<and>
     is_string r [1, 2, 255, 255] \<and>
     pack_unpack sample_pack_env r [110, 42] = Inr (map (\<lambda>z. PVal (VInt z)) zs) \<and> map inum_val zs = [258, 65535]"
proof -
  have f: "FIX2INT (INT2FIX 258) = 258" "FIX2INT (INT2FIX 65535) = 65535" by code_simp+
  have e: "concat (map (wire_bytes False 110) [258, 65535]) = [1, 2, 255, 255]"
    "map (num_val 110) [258, 65535] = [258, 65535]" by code_simp+
  have "list_all2 (\<lambda>v w. elem_int sample_pack_env v = Inr w) [PVal (VFix 258), PVal (VFix 65535)] [258, 65535]"
    by (simp add: elem_int_def f)
  moreover have "(110 :: u8) \<in> {99, 67, 115, 83, 105, 73, 108, 76, 110, 78, 118, 86}"
    "int_width 110 * length [258, 65535 :: u32] < 1073741824"
    by (simp_all add: int_width_def)
  ultimately show ?thesis
    using pack_unpack_ints [OF sample_pack_env_ok(1), unfolded sample_pack_env_ok(2), of 110] unfolding e [symmetric]
    by blast
qed

end
