(* ===== verification/PackText.thy ===== *)
theory PackText
  imports Pack
begin

text \<open>
  The text encodings of \<^verbatim>\<open>src/pack.c\<close>: bit strings (\<^verbatim>\<open>b\<close>, \<^verbatim>\<open>B\<close>), hexadecimal strings (\<^verbatim>\<open>h\<close>, \<^verbatim>\<open>H\<close>) and
  uuencoding (\<^verbatim>\<open>u\<close>). What the four digit types share is a locale, interpreted on each of them.
\<close>

section \<open>Digits in a byte\<close>

text \<open>The byte that the digits of a group give, and the states from which its digits are written.\<close>

fun gather_digits :: "(u8 \<Rightarrow> u32 \<Rightarrow> u32 option) \<Rightarrow> (u32 \<Rightarrow> u32) \<Rightarrow> u8 list \<Rightarrow> u32 \<Rightarrow> u32" where
  "gather_digits add shift [] byte = byte"
| "gather_digits add shift (c # cs) byte =
     (let b = the (add c byte) in if cs = [] then b else gather_digits add shift cs (shift b))"

primrec spread_digits :: "(u32 \<Rightarrow> u32) \<Rightarrow> nat \<Rightarrow> u32 \<Rightarrow> u32 list" where
  "spread_digits shift 0 bits = []"
| "spread_digits shift (Suc n) bits = bits # spread_digits shift n (shift bits)"

lemma shift_pow: "(push_bit 1 ^^ k) x = push_bit k x" "(drop_bit 1 ^^ k) x = drop_bit k x" for x :: u32
  by (induction k) (simp_all add: push_bit_push_bit drop_bit_drop_bit del: drop_bit_Suc)

lemma spread_digits_nth: "length (spread_digits shift n bits) = n"
  "k < n \<Longrightarrow> spread_digits shift n bits ! k = (shift ^^ k) bits"
  by (induction n arbitrary: k bits) (auto simp: nth_Cons funpow_swap1 split: nat.splits)

lemma gather_B_bit:
  "cs \<noteq> [] \<Longrightarrow> \<not> bit byte 0 \<Longrightarrow> m < 32 \<Longrightarrow>
   bit (gather_digits add_B (push_bit 1) cs byte) m =
     (if m < length cs then odd (cs ! (length cs - 1 - m)) else bit byte (m - (length cs - 1)))"
proof (induction cs arbitrary: byte)
  case (Cons c cs)
  define b where "b = byte OR ucast (c AND 1)"
  have b: "bit b j = (if j = 0 then odd c else bit byte j)" if "j < 32" for j
    using that Cons.prems(2) by (auto simp: b_def bit_simps bit_1_iff bit_0)
  show ?case
  proof (cases cs)
    case Nil
    then show ?thesis using b [OF Cons.prems(3)] Cons.prems by (auto simp: add_B_def b_def)
  next
    case (Cons c' cs')
    define b' where "b' = push_bit 1 b"
    have b': "bit b' j = (if j = 0 then False else if j = 1 then odd c else bit byte (j - 1))" if "j < 32" for j
      unfolding b'_def bit_push_bit_iff using that b [of "j - 1"] by auto
    have g: "gather_digits add_B (push_bit 1) (c # cs) byte = gather_digits add_B (push_bit 1) cs b'"
      unfolding Cons
      by (subst gather_digits.simps) (simp only: Let_def add_B_def option.sel list.distinct if_False b'_def b_def)
    have ne: "cs \<noteq> []" "\<not> bit b' 0" using Cons b' [of 0] by simp_all
    obtain l where l: "length cs = Suc l" using ne(1) by (cases cs) auto
    note ih = Cons.IH [OF ne Cons.prems(3), unfolded l]
    have "bit b' (m - l) = (if m - l = 0 then False else if m - l = 1 then odd c else bit byte (m - l - 1))"
      using b' Cons.prems(3) by simp
    then show ?thesis unfolding g ih using l by (cases "m = Suc l") (auto simp: nth_Cons' Suc_diff_le)
  qed
qed simp

lemma gather_b_bit:
  "cs \<noteq> [] \<Longrightarrow> (\<forall>j\<ge>7. \<not> bit byte j) \<Longrightarrow> length cs = Suc k \<Longrightarrow> k \<le> 7 \<Longrightarrow>
   bit (gather_digits add_b (drop_bit 1) cs byte) m =
     (if m \<le> 7 \<and> 7 \<le> m + k then odd (cs ! (m + k - 7)) else bit byte (m + k))"
proof (induction cs arbitrary: byte k)
  case (Cons c cs)
  define b where "b = (if c AND 1 \<noteq> 0 then byte OR 128 else byte)"
  have o: "c AND 1 \<noteq> 0 \<longleftrightarrow> odd c" by (simp add: and_one_eq odd_iff_mod_2_eq_one)
  have b: "bit b j = (if j = 7 then odd c else bit byte j)" for j
    using Cons.prems(2) bit_exp_iff [where 'a = u32, of 7 j] unfolding b_def o by (auto simp: bit_or_iff)
  show ?case
  proof (cases cs)
    case Nil
    then show ?thesis using b Cons.prems by (auto simp: add_b_def b_def)
  next
    case (Cons c' cs')
    then obtain l where k: "k = Suc l" "length cs = Suc l" using Cons.prems(3) by simp
    define b' where "b' = drop_bit 1 b"
    have b': "bit b' j = (if j = 6 then odd c else bit byte (Suc j))" for j
      using b by (simp add: b'_def bit_drop_bit_eq)
    have g: "gather_digits add_b (drop_bit 1) (c # cs) byte = gather_digits add_b (drop_bit 1) cs b'"
      by (simp add: Cons add_b_def b'_def b_def)
    have "\<forall>j\<ge>7. \<not> bit b' j" using b' Cons.prems(2) by auto
    then have "bit (gather_digits add_b (drop_bit 1) cs b') m =
       (if m \<le> 7 \<and> 7 \<le> m + l then odd (cs ! (m + l - 7)) else bit b' (m + l))"
      using Cons.IH [of b' l] Cons k Cons.prems(4) by simp
    then show ?thesis unfolding g b' k(1) using Cons.prems(4) k
      by (cases "m + l = 6") (auto simp: nth_Cons' Suc_diff_le)
  qed
qed simp

lemma bit_nibble: "bit n j \<Longrightarrow> uint n < 16 \<Longrightarrow> j < 4" for n :: u32
proof (rule ccontr)
  assume n: "bit n j" "uint n < 16" "\<not> j < 4"
  then have "(2 :: int) ^ 4 \<le> 2 ^ j" by (intro power_increasing) auto
  then have "uint n < 2 ^ j" using n(2) by simp
  then have "\<not> bit (uint n) j" by (simp add: bit_iff_odd)
  then show False using n(1) bit_imp_le_length [OF n(1)] by (simp add: bit_uint_iff)
qed

lemma nibbles:
  fixes n m :: u32
  assumes "uint n < 16" "uint m < 16"
  shows "drop_bit 4 (ucast (ucast (push_bit 4 n OR m) :: u8)) AND 15 = n" (is ?A)
    "drop_bit 4 (push_bit 4 (ucast (ucast (push_bit 4 n OR m) :: u8))) AND 15 = m" (is ?B)
    "ucast (ucast (push_bit 4 n OR m) :: u8) AND 15 = m" (is ?C)
proof -
  have m15: "(15 :: u32) = mask 4" by (simp add: mask_eq_exp_minus_1)
  have n: "bit n j \<Longrightarrow> j < 4" "bit m j \<Longrightarrow> j < 4" for j using assms bit_nibble by blast+
  have l: "bit n j \<Longrightarrow> j < 8" "bit n j \<Longrightarrow> j < 28" "bit m j \<Longrightarrow> j < 8" "bit m j \<Longrightarrow> j < 28" for j
    using n by fastforce+
  show ?A ?B ?C unfolding m15 using n l by (intro bit_word_eqI; auto simp: bit_simps)+
qed

definition hex_digits :: "u8 set" where
  "hex_digits = {48, 49, 50, 51, 52, 53, 54, 55, 56, 57, 97, 98, 99, 100, 101, 102}"

lemma hex_nibble_inverse:
  assumes "c \<in> hex_digits"
  shows "isxdigit c" "hexmap (hex_nibble c) = c" "uint (hex_nibble c) < 16"
proof -
  have "list_all (\<lambda>c. isxdigit c \<and> hexmap (hex_nibble c) = c \<and> uint (hex_nibble c) < 16)
      [48, 49, 50, 51, 52, 53, 54, 55, 56, 57, 97, 98, 99, 100, 101, 102]" by code_simp
  then show "isxdigit c" "hexmap (hex_nibble c) = c" "uint (hex_nibble c) < 16"
    using assms unfolding list_all_iff hex_digits_def by auto
qed

text \<open>
  What the loops need of a type: characters of \<open>D\<close> are added, and the digits of a byte are those
  that were gathered in it.
\<close>

locale digit_codec =
  fixes g :: nat and add :: "u8 \<Rightarrow> u32 \<Rightarrow> u32 option" and shift ushift :: "u32 \<Rightarrow> u32"
    and out :: "u32 \<Rightarrow> u8" and D :: "u8 set"
  assumes group_pos: "0 < g"
    and add_digit: "c \<in> D \<Longrightarrow> \<exists>b. add c byte = Some b"
    and inverse: "length cs = g \<Longrightarrow> set cs \<subseteq> D \<Longrightarrow>
      map out (spread_digits ushift g (ucast (ucast (gather_digits add shift cs 0) :: u8))) = cs"
begin

definition group_byte :: "u8 list \<Rightarrow> u8" where
  "group_byte cs = ucast (gather_digits add shift cs 0)"

lemma pack_group:
  "cs \<noteq> [] \<Longrightarrow> i mod g + length cs = g \<Longrightarrow> set cs \<subseteq> D \<Longrightarrow> holds (drop i q) (cs @ rest) \<Longrightarrow>
    pack_digits E g add shift q (length cs + k) i byte res =
      bindR (put_bytes E res [ucast (gather_digits add shift cs byte)])
        (\<lambda>res. pack_digits E g add shift q k (i + length cs) 0 res)"
proof (induction cs arbitrary: i byte)
  case (Cons c cs)
  have get: "get_cell q (int i) = Inr c" "holds (drop (Suc i) q) (cs @ rest)"
    using holds_drop_Cons [of "int i" q c "cs @ rest"] Cons.prems(4) by simp_all
  obtain b where b: "add c byte = Some b" using add_digit Cons.prems(3) by fastforce
  show ?case
  proof (cases "cs = []")
    case True
    then have "Suc i mod g = 0" using Cons.prems(2) by (simp add: mod_Suc)
    then show ?thesis using True get b by simp
  next
    case False
    then have m: "Suc i mod g = Suc (i mod g)" using Cons.prems(2) group_pos
      by (cases cs) (auto simp: mod_Suc)
    then show ?thesis using Cons.IH [OF False _ _ get(2), of "shift b"] Cons.prems(2,3) get b False by simp
  qed
qed simp

lemma pack_groups:
  "\<forall>cs\<in>set gs. length cs = g \<and> set cs \<subseteq> D \<Longrightarrow> holds (drop i q) (concat gs) \<Longrightarrow> i mod g = 0 \<Longrightarrow>
    p_usable E \<Longrightarrow> is_string r bs \<Longrightarrow> \<not> sfrozen r \<Longrightarrow> length bs + length gs < 1073741824 \<Longrightarrow>
    \<exists>r'. pack_digits E g add shift q (length (concat gs)) i 0 r = Inr (0, r') \<and>
      is_string r' (bs @ map group_byte gs) \<and> \<not> sfrozen r'"
proof (induction gs arbitrary: i r bs)
  case (Cons cs gs)
  obtain r1 where r1: "put_bytes E r [group_byte cs] = Inr r1" "is_string r1 (bs @ [group_byte cs])" "\<not> sfrozen r1"
    using put_bytes_ok [OF Cons.prems(4-6), of "[group_byte cs]"] Cons.prems(7) by auto
  have cs: "cs \<noteq> []" "length cs = g" "set cs \<subseteq> D" using Cons.prems(1) group_pos by auto
  have m: "(i + g) mod g = 0" using Cons.prems(3) by simp
  have h: "holds (drop (i + g) q) (concat gs)"
    using holds_drop_append [of "int i" q cs "concat gs"] Cons.prems(2) cs(2) by (simp add: nat_int_add)
  obtain r2 where "pack_digits E g add shift q (length (concat gs)) (i + g) 0 r1 = Inr (0, r2)"
      "is_string r2 ((bs @ [group_byte cs]) @ map group_byte gs)" "\<not> sfrozen r2"
    using Cons.IH [OF _ h m Cons.prems(4) r1(2,3)] Cons.prems(1,7) by auto
  then show ?case
    using pack_group [OF cs(1) _ cs(3), of i q "concat gs" E "length (concat gs)" 0 r] Cons.prems(2,3) r1(1) cs(2)
    by (simp flip: group_byte_def)
qed simp

lemma unpack_rest:
  "i mod g \<noteq> 0 \<Longrightarrow> i mod g + n = g \<Longrightarrow>
    unpack_digits g ushift out q (n + k) i s bits =
      bindR (unpack_digits g ushift out q k (i + n) s ((ushift ^^ n) bits))
        (\<lambda>(cs, s). Inr (map out (spread_digits ushift n (ushift bits)) @ cs, s))"
proof (induction n arbitrary: i bits)
  case (Suc n)
  show ?case
  proof (cases n)
    case 0
    then show ?thesis using Suc.prems by simp
  next
    case (Suc m)
    then have "Suc i mod g = Suc (i mod g)" using Suc.prems by (auto simp: mod_Suc)
    then show ?thesis using Suc.IH [of "Suc i" "ushift bits"] Suc.prems
      by (cases "unpack_digits g ushift out q k (i + Suc n) s ((ushift ^^ n) (ushift bits))")
        (auto simp: funpow_swap1)
  qed
qed simp

lemma unpack_groups:
  "\<forall>cs\<in>set gs. length cs = g \<and> set cs \<subseteq> D \<Longrightarrow> holds (drop (nat s) q) (map group_byte gs) \<Longrightarrow> 0 \<le> s \<Longrightarrow>
    i mod g = 0 \<Longrightarrow>
    unpack_digits g ushift out q (length (concat gs)) i s bits = Inr (concat gs, s + int (length gs))"
proof (induction gs arbitrary: i s bits)
  case (Cons cs gs)
  have cs: "length cs = g" "set cs \<subseteq> D" using Cons.prems(1) by auto
  obtain n where n: "g = Suc n" using group_pos by (cases g) auto
  note h = holds_drop_Cons [OF Cons.prems(2) [simplified] Cons.prems(3)]
  define b where "b = (ucast (group_byte cs) :: u32)"
  have sp: "map out (spread_digits ushift g b) = cs" using inverse [OF cs] by (simp add: b_def group_byte_def)
  have IH: "unpack_digits g ushift out q (length (concat gs)) (i + g) (s + 1) ((ushift ^^ n) b) =
      Inr (concat gs, s + 1 + int (length gs))"
    using Cons.IH [OF _ h(2)] Cons.prems(1,3,4) by simp
  have "unpack_digits g ushift out q (n + length (concat gs)) (Suc i) (s + 1) b =
      Inr (map out (spread_digits ushift n (ushift b)) @ concat gs, s + 1 + int (length gs))"
  proof (cases "n = 0")
    case True
    then show ?thesis using IH n by simp
  next
    case False
    then have "Suc i mod g = 1" using Cons.prems(4) n by (simp add: mod_Suc)
    then show ?thesis using unpack_rest [of "Suc i" n] IH n by simp
  qed
  then show ?case using h(1) Cons.prems(4) cs n sp by (simp add: b_def)
qed simp

lemma digits_round_trip:
  assumes "\<forall>cs\<in>set gs. length cs = g \<and> set cs \<subseteq> D" "is_string s (concat gs)" "p_usable E"
    "is_string r0 []" "\<not> sfrozen r0"
  shows "\<exists>r s'. pack_digits E g add shift (sptr s) (length (concat gs)) 0 0 r0 = Inr (0, r) \<and>
    is_string r (map group_byte gs) \<and>
    unpack_digits g ushift out (sptr r) (length (concat gs)) 0 0 0 = Inr (concat gs, s')"
proof -
  have "length gs \<le> length (concat gs)" using assms(1) group_pos by (induction gs) auto
  then have "length gs < 1073741824" using is_stringD(2) [OF assms(2)] by linarith
  then obtain r where r: "pack_digits E g add shift (sptr s) (length (concat gs)) 0 0 r0 = Inr (0, r)"
      "is_string r (map group_byte gs)"
    using pack_groups [OF assms(1) _ _ assms(3-5), of 0 "sptr s"] is_stringD(4) [OF assms(2)] by auto
  then show ?thesis using unpack_groups [OF assms(1), of 0 "sptr r" 0 0] is_stringD(4) [OF r(2)] by auto
qed

end

lemma two_digits:
  assumes "length cs = 2" "set cs \<subseteq> D"
  obtains a b where "cs = [a, b]" "a \<in> D" "b \<in> D"
  using assms by (cases cs; cases "tl cs") auto

interpretation codec_H: digit_codec 2 add_H "push_bit 4" "push_bit 4" out_H hex_digits
proof unfold_locales
  fix cs assume cs: "length cs = 2" "set cs \<subseteq> hex_digits"
  then obtain a b where ab: "cs = [a, b]" "a \<in> hex_digits" "b \<in> hex_digits" by (rule two_digits)
  note h = hex_nibble_inverse [OF ab(2)] hex_nibble_inverse [OF ab(3)]
  show "map out_H (spread_digits (push_bit 4) 2 (ucast (ucast (gather_digits add_H (push_bit 4) cs 0) :: u8))) = cs"
    using nibbles [OF h(3,6)] h by (simp add: ab add_H_def numeral_2_eq_2 out_H_def)
qed (auto simp: add_H_def dest: hex_nibble_inverse)

interpretation codec_h: digit_codec 2 add_h "drop_bit 4" "drop_bit 4" out_h hex_digits
proof unfold_locales
  fix cs assume cs: "length cs = 2" "set cs \<subseteq> hex_digits"
  then obtain a b where ab: "cs = [a, b]" "a \<in> hex_digits" "b \<in> hex_digits" by (rule two_digits)
  note h = hex_nibble_inverse [OF ab(2)] hex_nibble_inverse [OF ab(3)]
  have s: "drop_bit 4 (push_bit 4 (hex_nibble a)) = hex_nibble a"
    using bit_nibble [OF _ h(3)] by (intro bit_word_eqI) (auto simp: bit_simps, fastforce)
  show "map out_h (spread_digits (drop_bit 4) 2 (ucast (ucast (gather_digits add_h (drop_bit 4) cs 0) :: u8))) = cs"
    using nibbles [OF h(6,3)] h by (simp add: ab add_h_def numeral_2_eq_2 out_h_def s or.commute)
qed (auto simp: add_h_def dest: hex_nibble_inverse)

definition bit_digits_set :: "u8 set" where
  "bit_digits_set = {48, 49}"

lemma bit_digit: "c \<in> bit_digits_set \<Longrightarrow> (if odd c then 49 else 48) = c"
  by (auto simp: bit_digits_set_def)

lemma bit_of_byte: "j < 8 \<Longrightarrow> bit (ucast (ucast x :: u8) :: u32) j = bit (x :: u32) j"
  by (simp add: bit_simps)

interpretation codec_B: digit_codec 8 add_B "push_bit 1" "push_bit 1" out_B bit_digits_set
proof unfold_locales
  fix cs assume cs: "length cs = 8" "set cs \<subseteq> bit_digits_set"
  let ?x = "gather_digits add_B (push_bit 1) cs 0"
  have ne: "cs \<noteq> []" using cs(1) by auto
  have o: "out_B y = (if bit y 7 then 49 else 48)" for y
    using and_exp_eq_0_iff_not_bit [of y 7] by (simp add: out_B_def)
  have "out_B ((push_bit 1 ^^ k) (ucast (ucast ?x :: u8))) = cs ! k" if "k < 8" for k
  proof -
    have k: "cs ! k \<in> bit_digits_set" using cs that nth_mem [of k cs] by auto
    have "7 - k < 8" "7 - k < 32" "8 - 1 - (7 - k) = k" using that by auto
    note bt = gather_B_bit [OF ne _ this(2), of 0, unfolded cs(1) this(3)] this(1)
    have "bit (push_bit k (ucast (ucast ?x :: u8) :: u32)) 7 = bit (ucast (ucast ?x :: u8) :: u32) (7 - k)"
      using that by (simp add: bit_push_bit_iff)
    also have "\<dots> = odd (cs ! k)"
      using bt by (subst bit_of_byte) simp_all
    finally show ?thesis unfolding o shift_pow using bit_digit [OF k] by simp
  qed
  then show "map out_B (spread_digits (push_bit 1) 8 (ucast (ucast ?x :: u8))) = cs"
    using cs(1) by (intro nth_equalityI) (simp_all add: spread_digits_nth)
qed (simp_all add: add_B_def)

interpretation codec_b: digit_codec 8 add_b "drop_bit 1" "drop_bit 1" out_b bit_digits_set
proof unfold_locales
  fix cs assume cs: "length cs = 8" "set cs \<subseteq> bit_digits_set"
  let ?x = "gather_digits add_b (drop_bit 1) cs 0"
  have ne: "cs \<noteq> []" using cs(1) by auto
  have o: "out_b y = (if bit y 0 then 49 else 48)" for y
    using and_exp_eq_0_iff_not_bit [of y 0] by (simp add: out_b_def)
  have "out_b ((drop_bit 1 ^^ k) (ucast (ucast ?x :: u8))) = cs ! k" if "k < 8" for k
  proof -
    have k: "cs ! k \<in> bit_digits_set" using cs that nth_mem [of k cs] by auto
    have "bit (drop_bit k (ucast (ucast ?x :: u8) :: u32)) 0 = bit (ucast (ucast ?x :: u8) :: u32) k"
      by (simp add: bit_drop_bit_eq)
    also have "\<dots> = odd (cs ! k)"
      using that gather_b_bit [OF ne, of 0 7 k] cs(1) by (subst bit_of_byte) simp_all
    finally show ?thesis unfolding o shift_pow using bit_digit [OF k] by simp
  qed
  then show "map out_b (spread_digits (drop_bit 1) 8 (ucast (ucast ?x :: u8))) = cs"
    using cs(1) by (intro nth_equalityI) (simp_all add: spread_digits_nth)
qed (simp_all add: add_b_def)

section \<open>Whole templates\<close>

definition group_size :: "u8 \<Rightarrow> nat" where
  "group_size t = (if t \<in> {98, 66} then 8 else 2)"

definition digit_set :: "u8 \<Rightarrow> u8 set" where
  "digit_set t = (if t \<in> {98, 66} then bit_digits_set else hex_digits)"

lemma split_groups:
  "length cs = n * g \<Longrightarrow> set cs \<subseteq> D \<Longrightarrow> \<exists>gs. concat gs = cs \<and> length gs = n \<and> (\<forall>x\<in>set gs. length x = g \<and> set x \<subseteq> D)"
proof (induction n arbitrary: cs)
  case (Suc n)
  have "set (take g cs) \<subseteq> D" "set (drop g cs) \<subseteq> D"
    using Suc.prems(2) set_take_subset [of g cs] set_drop_subset [of g cs] by auto
  with Suc.IH [of "drop g cs"] Suc.prems(1) obtain gs where
    "concat gs = drop g cs" "length gs = n" "\<forall>x\<in>set gs. length x = g \<and> set x \<subseteq> D" by auto
  with \<open>set (take g cs) \<subseteq> D\<close> show ?case using Suc.prems(1) by (intro exI [of _ "take g cs # gs"]) auto
qed simp

lemma new_buffer:
  assumes "p_usable E" "n = int k" "k < 1073741824"
  shows "str_new (p_str E) None n = Inr \<lparr>slen = n, sptr = replicate k None @ [Some 0], sorig = False,
    sfrozen = False, stainted = s_safe_level (p_str E) \<ge> 3\<rparr>"
proof -
  have "(replicate (k + 1) None :: u8 cells)[k := Some 0] = replicate k None @ [Some 0]"
    by (rule nth_equalityI) (auto simp: nth_list_update nth_append nth_Cons' less_Suc_eq simp del: replicate.simps)
  then show ?thesis using assms alloc_chars_ok [of "p_str E" "n + 1"]
    by (simp add: str_new_def p_usable_def set_cell_in)
qed

lemma fill_new_ok:
  assumes "p_usable E" "n = int (length cs)" "length cs < 1073741824"
  shows "\<exists>r. fill_new E n cs = Inr r \<and> is_string r cs"
  using copy_cells_nat [of 0 "length cs" "replicate (length cs) None @ [Some 0]" 0 "map Some cs"] assms
    new_buffer [OF assms]
  by (auto simp: fill_new_def is_string_def holds_def)

text \<open>A codec together with the branch of \<^verbatim>\<open>pack\<close> and \<^verbatim>\<open>unpack\<close> for a type \<open>t\<close> that runs it.\<close>

locale digit_type = digit_codec g add shift ushift out D
  for g :: nat and add :: "u8 \<Rightarrow> u32 \<Rightarrow> u32 option" and shift ushift :: "u32 \<Rightarrow> u32"
    and out :: "u32 \<Rightarrow> u8" and D :: "u8 set" +
  fixes t :: u8 and fin :: "int \<Rightarrow> u32 \<Rightarrow> u8" and E :: "('d, 'o) pack_env"
  assumes pack_branch: "pack_bits E t q len res =
      bindR (pack_digits E g add shift q (nat len) 0 0 res) (\<lambda>(byte, res).
        if len mod int g \<noteq> 0 then put_bytes E res [fin len byte] else Inr res)"
    and unpack_branch: "unpack_bits E t q send s star len =
      (let len = (if star \<or> len > S32 ((send - s) * int g) then S32 ((send - s) * int g) else len) in
       bindR (unpack_digits g ushift out q (nat len) 0 s 0) (\<lambda>(cs, s).
       bindR (fill_new E len cs) (\<lambda>r. Inr (r, s))))"
begin

lemma bits_round_trip:
  assumes "p_usable E" "is_string s cs" "set cs \<subseteq> D" "length cs = n * g" "is_string r0 []" "\<not> sfrozen r0"
  shows "\<exists>r u s'. pack_bits E t (sptr s) (int (length cs)) r0 = Inr r \<and> slen r = int n \<and>
    (\<forall>l. unpack_bits E t (sptr r) (slen r) 0 True l = Inr (u, s')) \<and> is_string u cs"
proof -
  obtain gs where gs: "concat gs = cs" "length gs = n" "\<forall>x\<in>set gs. length x = g \<and> set x \<subseteq> D"
    using split_groups [OF assms(4,3)] by blast
  note S = is_stringD [OF assms(2)]
  obtain u where u: "fill_new E (int (length cs)) cs = Inr u" "is_string u cs"
    using fill_new_ok [OF assms(1) refl S(2)] by blast
  have wrap: "S32 (int n * int g) = int (length cs)"
    using S(2) unfolding assms(4) by (simp flip: of_nat_mult)
  have m: "int (length cs) mod int g = 0" using assms(4) by simp
  from digits_round_trip [of gs s E r0] obtain r s' where
    "pack_digits E g add shift (sptr s) (length cs) 0 0 r0 = Inr (0, r)"
    "is_string r (map group_byte gs)"
    "unpack_digits g ushift out (sptr r) (length cs) 0 0 0 = Inr (cs, s')"
    using gs assms by auto
  then show ?thesis using u wrap m is_stringD(1) [of r] gs(2)
    by (auto simp: pack_branch unpack_branch Let_def)
qed

end

interpretation type_b: digit_type 8 add_b "drop_bit 1" "drop_bit 1" out_b bit_digits_set 98
    "\<lambda>len byte. ucast (drop_bit (nat (7 - len mod 8)) byte)" E for E :: "('d, 'o) pack_env"
  by unfold_locales (simp_all add: pack_bits_def unpack_bits_def)

interpretation type_B: digit_type 8 add_B "push_bit 1" "push_bit 1" out_B bit_digits_set 66
    "\<lambda>len byte. ucast (push_bit (nat (7 - len mod 8)) byte)" E for E :: "('d, 'o) pack_env"
  by unfold_locales (simp_all add: pack_bits_def unpack_bits_def)

interpretation type_h: digit_type 2 add_h "drop_bit 4" "drop_bit 4" out_h hex_digits 104
    "\<lambda>len byte. ucast byte" E for E :: "('d, 'o) pack_env"
  by unfold_locales (simp_all add: pack_bits_def unpack_bits_def)

interpretation type_H: digit_type 2 add_H "push_bit 4" "push_bit 4" out_H hex_digits 72
    "\<lambda>len byte. ucast byte" E for E :: "('d, 'o) pack_env"
  by unfold_locales (simp_all add: pack_bits_def unpack_bits_def)

lemma digit_items:
  assumes "t \<in> {98, 66, 104, 72}"
  shows "pack_item E t len star items res =
      bindR (next_from items) (\<lambda>(from, items). bindR (src_of E from) (\<lambda>(ptr, plen).
      bindR (pack_bits E t (block ptr) (if star then plen else len) res) (\<lambda>res. Inr (items, res))))"
    "unpack_item E t len star str s =
      bindR (unpack_bits E t (sptr str) (slen str) s star len) (\<lambda>(r, s). Inr ([PStr r], s))"
  using assms by (elim insertE; simp add: pack_item_def unpack_item_def Let_def)+

lemma star_string:
  assumes "is_string s cs" "t \<in> {98, 66, 104, 72}"
  shows "pack_loop E [t, 42] [PStr s] res = pack_bits E t (sptr s) (int (length cs)) res"
    "unpack_bits E t (sptr r) (slen r) 0 True (slen r) = Inr (u, s') \<Longrightarrow> unpack_loop E r [t, 42] 0 [] = Inr [PStr u]"
proof -
  have "S32 (slen s) = int (length cs)" using is_stringD(1,2) [OF assms(1)] by simp
  then show "pack_loop E [t, 42] [PStr s] res = pack_bits E t (sptr s) (int (length cs)) res"
    unfolding star_template digit_items [OF assms(2)]
    by (cases "pack_bits E t (sptr s) (int (length cs)) res")
      (simp_all add: next_from_def src_of_def obj_as_string_def)
qed (simp add: star_template digit_items [OF assms(2)] del: unpack_loop.simps)

text \<open>
  The digit that \<^verbatim>\<open>unpack\<close> writes for a character that \<^verbatim>\<open>pack\<close> took: for bits it is the last bit of any
  character, and a hexadecimal digit comes back in lower case.
\<close>

definition digit_back :: "u8 \<Rightarrow> u8 \<Rightarrow> u8" where
  "digit_back t c = (if t \<in> {98, 66} then if odd c then 49 else 48 else tolower c)"

definition takes_digit :: "u8 \<Rightarrow> u8 \<Rightarrow> bool" where
  "takes_digit t c \<longleftrightarrow> t \<in> {98, 66} \<or> isxdigit c"

lemma hex_lower:
  assumes "isxdigit c"
  shows "tolower c \<in> hex_digits" "hex_nibble (tolower c) = hex_nibble c"
proof -
  let ?is = "[48, 49, 50, 51, 52, 53, 54, 55, 56, 57, 65, 66, 67, 68, 69, 70, 97, 98, 99, 100, 101, 102] :: int list"
  have "uint c \<in> set ?is" using assms unfolding isxdigit_def between_def by simp presburger
  then have c: "c \<in> set (map word_of_int ?is)" by (metis (no_types) image_eqI list.set_map word_of_int_uint)
  have "list_all (\<lambda>c. tolower c \<in> {48, 49, 50, 51, 52, 53, 54, 55, 56, 57, 97, 98, 99, 100, 101, 102} \<and>
      hex_nibble (tolower c) = hex_nibble c) (map word_of_int ?is)" by code_simp
  with c show "tolower c \<in> hex_digits" "hex_nibble (tolower c) = hex_nibble c"
    unfolding hex_digits_def list_all_iff by blast+
qed

lemma digit_back_add:
  "add_b c = add_b (digit_back 98 c)" "add_B c = add_B (digit_back 66 c)"
  "isxdigit c \<Longrightarrow> t \<notin> {98, 66} \<Longrightarrow> add_h c = add_h (digit_back t c) \<and> add_H c = add_H (digit_back t c)"
proof -
  have "c AND 1 = (if odd c then 49 else 48 :: u8) AND 1" by (simp add: and_one_eq odd_iff_mod_2_eq_one)
  then show "add_b c = add_b (digit_back 98 c)" "add_B c = add_B (digit_back 66 c)"
    by (auto simp: digit_back_def add_b_def add_B_def fun_eq_iff)
  assume "isxdigit c" "t \<notin> {98, 66}"
  then show "add_h c = add_h (digit_back t c) \<and> add_H c = add_H (digit_back t c)"
    using hex_lower [of c] hex_nibble_inverse(1) [of "tolower c"]
    by (auto simp: digit_back_def add_h_def add_H_def fun_eq_iff)
qed

lemma pack_digits_back:
  "holds (drop i q) cs \<Longrightarrow> holds (drop i q') (map f cs) \<Longrightarrow> (\<And>c. c \<in> set cs \<Longrightarrow> add c = add (f c)) \<Longrightarrow>
     pack_digits E g add shift q (length cs) i byte res = pack_digits E g add shift q' (length cs) i byte res"
proof (induction cs arbitrary: i byte res)
  case (Cons c cs)
  have h: "holds (drop (nat (int i)) q) (c # cs)" "holds (drop (nat (int i)) q') (f c # map f cs)"
    using Cons.prems(1,2) by simp_all
  note a = holds_drop_Cons [OF h(1) of_nat_0_le_iff] and b = holds_drop_Cons [OF h(2) of_nat_0_le_iff]
  have n: "nat (int i + 1) = Suc i" by simp
  have "pack_digits E g add shift q (length cs) (Suc i) = pack_digits E g add shift q' (length cs) (Suc i)"
    using Cons.IH [of "Suc i"] a(2) b(2) Cons.prems(3) unfolding n by (intro ext) auto
  then show ?case using a(1) b(1) Cons.prems(3) [of c]
    by (cases "add (f c) byte") (simp_all cong: if_cong)
qed simp

lemma pack_bits_back:
  assumes "t \<in> {98, 66, 104, 72}" "holds q cs" "holds q' (map (digit_back t) cs)" "\<forall>c\<in>set cs. takes_digit t c"
  shows "pack_bits E t q (int (length cs)) res = pack_bits E t q' (int (length cs)) res"
proof -
  have p: "pack_digits E g add shift q (length cs) 0 0 res = pack_digits E g add shift q' (length cs) 0 0 res"
    if "\<forall>c\<in>set cs. add c = add (digit_back t c)" for g add shift
    using pack_digits_back [of 0 q cs q' "digit_back t" add] assms(2,3) that by simp
  have "\<forall>c\<in>set cs. add_b c = add_b (digit_back t c)" "\<forall>c\<in>set cs. add_B c = add_B (digit_back t c)" if "t \<in> {98, 66}"
    using that digit_back_add(1,2) by (auto simp: digit_back_def)
  moreover have "\<forall>c\<in>set cs. add_h c = add_h (digit_back t c)" "\<forall>c\<in>set cs. add_H c = add_H (digit_back t c)" if "t \<notin> {98, 66}"
    using that digit_back_add(3) [OF _ that] assms(4) by (auto simp: takes_digit_def)
  ultimately show ?thesis using assms(1) p by (elim insertE) (simp_all add: pack_bits_def)
qed

lemma digit_back_set: "\<forall>c\<in>set cs. takes_digit t c \<Longrightarrow> set (map (digit_back t) cs) \<subseteq> digit_set t"
  using hex_lower(1) by (auto simp: takes_digit_def digit_back_def digit_set_def bit_digits_set_def)

lemma digits_round_trips:
  assumes "p_usable E" "t \<in> {98, 66, 104, 72}" "is_string s cs" "set cs \<subseteq> digit_set t" "length cs = n * group_size t"
    and "is_string r0 []" "\<not> sfrozen r0"
  shows "\<exists>r u s'. pack_bits E t (sptr s) (int (length cs)) r0 = Inr r \<and> slen r = int n \<and>
    (\<forall>l. unpack_bits E t (sptr r) (slen r) 0 True l = Inr (u, s')) \<and> is_string u cs"
  using assms(2,4,5) type_b.bits_round_trip [OF assms(1,3) _ _ assms(6,7), of n]
    type_B.bits_round_trip [OF assms(1,3) _ _ assms(6,7), of n]
    type_h.bits_round_trip [OF assms(1,3) _ _ assms(6,7), of n]
    type_H.bits_round_trip [OF assms(1,3) _ _ assms(6,7), of n]
  by (elim insertE) (simp_all add: digit_set_def group_size_def)

text \<open>
  C27: A string that fills its last byte, of any characters for \<^verbatim>\<open>b\<close> and \<^verbatim>\<open>B\<close> and of hexadecimal digits in either
  case for \<^verbatim>\<open>h\<close> and \<^verbatim>\<open>H\<close>, is packed into one byte for every eight or two characters. \<^verbatim>\<open>unpack\<close> returns a string
  of the same length: for \<^verbatim>\<open>b\<close> and \<^verbatim>\<open>B\<close> the digit 0 or 1 that is the last bit of the character, for \<^verbatim>\<open>h\<close> and \<^verbatim>\<open>H\<close>
  the digit in lower case.
\<close>

theorem pack_unpack_digits:
  assumes "p_usable E" "t \<in> {98, 66, 104, 72}" "is_string s cs" "\<forall>c\<in>set cs. takes_digit t c" "length cs = n * group_size t"
  shows "\<exists>r u. pack_pack E [PStr s] [t, 42] = Inr r \<and> slen r = int n \<and>
    pack_unpack E r [t, 42] = Inr [PStr u] \<and> is_string u (map (digit_back t) cs)"
proof -
  obtain r0 where r0: "str_new (p_str E) None 0 = Inr r0" "is_string r0 []" "\<not> sfrozen r0"
    using empty_string assms(1) by (auto simp: p_usable_def)
  let ?ds = "map (digit_back t) cs"
  define s0 where "s0 = s\<lparr>sptr := map Some (?ds @ [0])\<rparr>"
  have s0: "is_string s0 ?ds" using assms(3) by (simp add: s0_def is_string_def holds_def)
  have q: "pack_bits E t (sptr s) (int (length cs)) r0 = pack_bits E t (sptr s0) (int (length ?ds)) r0"
    using pack_bits_back [OF assms(2) is_stringD(4) [OF assms(3)] is_stringD(4) [OF s0] assms(4)] by simp
  obtain r u s' where r: "pack_bits E t (sptr s) (int (length cs)) r0 = Inr r" "slen r = int n"
      "unpack_bits E t (sptr r) (slen r) 0 True (slen r) = Inr (u, s')" "is_string u ?ds"
    using digits_round_trips [OF assms(1,2) s0 digit_back_set [OF assms(4)], of n r0] r0(2,3) assms(5) unfolding q by auto
  have "pack_pack E [PStr s] [t, 42] = Inr r" "pack_unpack E r [t, 42] = Inr [PStr u]"
    using r0(1) r(1) star_string(1) [OF assms(3,2), of E] star_string(2) [OF assms(3,2) r(3)]
    by (simp_all add: pack_pack_def pack_unpack_def del: pack_loop.simps unpack_loop.simps)
  then show ?thesis using r(2,4) by blast
qed

theorem pack_unpack_digits_witness:
  "\<exists>r u. pack_pack sample_pack_env [PStr (bytes_string [49, 70, 97, 48])] [72, 42] = Inr r \<and> slen r = 2 \<and>
     pack_unpack sample_pack_env r [72, 42] = Inr [PStr u] \<and> is_string u [49, 102, 97, 48]"
proof -
  have "\<forall>c\<in>set [49, 70, 97, 48]. takes_digit 72 c" "map (digit_back 72) [49, 70, 97, 48] = [49, 102, 97, 48]"
    by (simp_all add: takes_digit_def isxdigit_def between_def digit_back_def tolower_def isupper_def)
  then show ?thesis
    using pack_unpack_digits [OF sample_pack_env_ok(1) _ bytes_string_ok(1), of 72 "[49, 70, 97, 48]" 2]
    by (simp add: group_size_def)
qed

section \<open>Uuencoding\<close>

text \<open>
  \<open>hunks k xs\<close> encodes the first \<open>k\<close> groups of three bytes; \<open>uu_text n xs\<close> is the text for the first \<open>n\<close> of the
  bytes \<open>xs\<close>, in lines of 45, where \<open>xs\<close> goes on far enough to fill the last group.
\<close>

definition bq :: "u8 \<Rightarrow> u8" where
  "bq c = (if c = 32 then 96 else c)"

fun hunks :: "nat \<Rightarrow> u8 list \<Rightarrow> u8 list" where
  "hunks (Suc k) (a # b # c # xs) = hunk a b c @ hunks k xs"
| "hunks _ _ = []"

function uu_text :: "nat \<Rightarrow> u8 list \<Rightarrow> u8 list" where
  "uu_text n xs =
     (if n = 0 then []
      else let m = min n 45
           in map bq (word_of_nat (m + 32) # hunks ((m + 2) div 3) xs) @ 10 # uu_text (n - m) (drop m xs))"
  by pat_completeness auto
termination by (relation "measure fst") auto

declare uu_text.simps [simp del]

lemma bit_cases_8: "n < LENGTH(8) \<Longrightarrow> n = 0 \<or> n = 1 \<or> n = 2 \<or> n = 3 \<or> n = 4 \<or> n = 5 \<or> n = 6 \<or> n = (7 :: nat)"
  by simp linarith

lemma masks: "(63 :: u8) = mask 6" "(48 :: u8) = push_bit 4 (mask 2)" "(15 :: u8) = mask 4"
  "(60 :: u8) = push_bit 2 (mask 4)" "(3 :: u8) = mask 2"
  by (simp_all add: mask_eq_exp_minus_1)

definition sextets :: "u8 \<Rightarrow> u8 \<Rightarrow> u8 \<Rightarrow> u8 list" where
  "sextets a b c =
     [63 AND drop_bit 2 a, 63 AND ((push_bit 4 a AND 48) OR (drop_bit 4 b AND 15)),
      63 AND ((push_bit 2 b AND 60) OR (drop_bit 6 c AND 3)), 63 AND (c AND 63)]"

lemma hunk_sextets: "hunk a b c = map ((+) 32) (sextets a b c)"
  by (simp add: hunk_def sextets_def)

lemma and_63_less: "uint (63 AND x) < 64" for x :: u8
proof -
  have "63 AND x = take_bit 6 x" unfolding masks by (simp add: take_bit_eq_mask and.commute)
  then show ?thesis by (simp add: uint_mod take_bit_eq_mod)
qed

lemma regroup:
  "push_bit 2 (63 AND drop_bit 2 a) OR drop_bit 4 (63 AND ((push_bit 4 a AND 48) OR (drop_bit 4 b AND 15))) = a"
  "push_bit 4 (63 AND ((push_bit 4 a AND 48) OR (drop_bit 4 b AND 15))) OR
     drop_bit 2 (63 AND ((push_bit 2 b AND 60) OR (drop_bit 6 c AND 3))) = b"
  "push_bit 6 (63 AND ((push_bit 2 b AND 60) OR (drop_bit 6 c AND 3))) OR (63 AND (c AND 63)) = c" for a b c :: u8
  unfolding masks
  subgoal by (rule bit_word_eqI, drule bit_cases_8) (auto simp: bit_simps; simp add: eval_nat_numeral)
  subgoal by (rule bit_word_eqI, drule bit_cases_8) (auto simp: bit_simps; simp add: eval_nat_numeral)
  subgoal by (rule bit_word_eqI, drule bit_cases_8) (auto simp: bit_simps; simp add: eval_nat_numeral)
  done

lemma and_63: "uint (x AND 63) = uint x mod 64" for x :: u8
proof -
  have "x AND 63 = take_bit 6 x" unfolding masks by (simp add: take_bit_eq_mask)
  then show ?thesis by (simp add: uint_mod take_bit_eq_mod)
qed

lemma unhunk_sextets:
  "unhunk (sextets a b c ! 0) (sextets a b c ! 1) (sextets a b c ! 2) (sextets a b c ! 3) = [a, b, c]"
proof -
  have "unhunk w x y z = [push_bit 2 w OR drop_bit 4 x, push_bit 4 x OR drop_bit 2 y, push_bit 6 y OR z]" for w x y z
    by (simp only: unhunk_def)
  moreover have "sextets a b c ! 0 = 63 AND drop_bit 2 a"
    "sextets a b c ! 1 = 63 AND ((push_bit 4 a AND 48) OR (drop_bit 4 b AND 15))"
    "sextets a b c ! 2 = 63 AND ((push_bit 2 b AND 60) OR (drop_bit 6 c AND 3))"
    "sextets a b c ! 3 = 63 AND (c AND 63)"
    by (simp_all only: sextets_def nth_Cons_0 nth_Cons_Suc One_nat_def numeral_2_eq_2 numeral_3_eq_3)
  ultimately show ?thesis by (simp only: regroup)
qed

text \<open>Writing.\<close>

lemma encode_loop_ok:
  assumes "p_usable E"
  shows "n \<le> 3 * k \<Longrightarrow> 3 * k < n + 3 \<Longrightarrow> 3 * k \<le> length xs \<Longrightarrow> holds (drop (nat s) q) xs \<Longrightarrow> 0 \<le> s \<Longrightarrow>
    is_string r bs \<Longrightarrow> \<not> sfrozen r \<Longrightarrow> length bs + 4 * k < 1073741824 \<Longrightarrow>
    \<exists>r'. encode_loop E q s (int n) r = Inr r' \<and> is_string r' (bs @ hunks k xs) \<and> \<not> sfrozen r'"
proof (induction k arbitrary: n xs s r bs)
  case 0
  then show ?case by (subst encode_loop.simps) simp
next
  case (Suc k)
  obtain a b c ys where xs: "xs = a # b # c # ys"
    using Suc.prems(3) by (cases xs; cases "tl xs"; cases "tl (tl xs)") auto
  note h1 = holds_drop_Cons [OF Suc.prems(4) [unfolded xs] Suc.prems(5)]
  note h2 = holds_drop_Cons [OF h1(2)]
  note h3 = holds_drop_Cons [OF h2(2)]
  have g: "get_cell q s = Inr a" "get_cell q (s + 1) = Inr b" "get_cell q (s + 2) = Inr c"
    "holds (drop (nat (s + 3)) q) ys"
    using h1(1) h2(1) h3(1,2) Suc.prems(5) by (simp_all add: add.assoc)
  have len: "length (hunk a b c) = 4" by (simp add: hunk_def)
  obtain r1 where r1: "put_bytes E r (hunk a b c) = Inr r1" "is_string r1 (bs @ hunk a b c)" "\<not> sfrozen r1"
    using put_bytes_ok [OF assms Suc.prems(6,7), of "hunk a b c"] Suc.prems(8) len by auto
  have n: "0 < n" using Suc.prems(2) by simp
  have "n - 3 \<le> 3 * k" "3 * k < n - 3 + 3" "3 * k \<le> length ys" "length (bs @ hunk a b c) + 4 * k < 1073741824"
    using Suc.prems(1-3,8) len xs by auto
  from Suc.IH [OF this(1-3) g(4) _ r1(2,3) this(4)] Suc.prems(5) obtain r2 where r2:
    "encode_loop E q (s + 3) (int (n - 3)) r1 = Inr r2" "is_string r2 ((bs @ hunk a b c) @ hunks k ys)" "\<not> sfrozen r2"
    by auto
  have "encode_loop E q (s + 3) (int n - 3) r1 = encode_loop E q (s + 3) (int (n - 3)) r1"
  proof (cases "3 \<le> n")
    case False
    then show ?thesis by (simp add: encode_loop.simps)
  qed (simp add: of_nat_diff)
  then show ?case using n g r1(1) r2 xs by (subst encode_loop.simps) simp
qed

lemma backquotes:
  assumes "is_string r bs"
  shows "is_string (r\<lparr>sptr := map backquote (take (nat (slen r)) (sptr r)) @ drop (nat (slen r)) (sptr r)\<rparr>) (map bq bs)"
proof -
  note S = is_stringD [OF assms]
  have p: "sptr r = map Some (bs @ [0]) @ drop (length bs + 1) (sptr r)" using holds_split [OF S(3)] by simp
  have "map backquote (map Some bs) = map Some (map bq bs)" by (auto simp: backquote_def bq_def)
  then have "map backquote (take (length bs) (sptr r)) @ drop (length bs) (sptr r)
      = map Some (map bq bs @ [0]) @ drop (length bs + 1) (sptr r)"
    by (subst (1 2) p) simp
  then show ?thesis using assms S(1,2) by (simp add: is_string_def holds_def)
qed

lemma encodes_ok:
  assumes "p_usable E" "n \<le> 3 * k" "3 * k < n + 3" "3 * k \<le> length xs" "holds (drop (nat s) q) xs" "0 \<le> s"
    "is_string r bs" "\<not> sfrozen r" "length bs + 4 * k + 2 < 1073741824"
  shows "\<exists>r'. encodes E r q s (int n) = Inr r' \<and> \<not> sfrozen r' \<and>
    is_string r' (map bq (bs @ word_of_nat (n + 32) # hunks k xs) @ [10])"
proof -
  have w: "(word_of_int (int n + 32) :: u8) = word_of_nat (n + 32)" by simp
  obtain r1 where r1: "put_bytes E r [word_of_nat (n + 32)] = Inr r1"
    "is_string r1 (bs @ [word_of_nat (n + 32)])" "\<not> sfrozen r1"
    using put_bytes_ok [OF assms(1,7,8), of "[word_of_nat (n + 32)]"] assms(9) by auto
  obtain r2 where r2: "encode_loop E q s (int n) r1 = Inr r2"
    "is_string r2 ((bs @ [word_of_nat (n + 32)]) @ hunks k xs)" "\<not> sfrozen r2"
    using encode_loop_ok [OF assms(1-6) r1(2,3)] assms(9) by auto
  have len: "length (hunks k xs) = 4 * k"
    using assms(4) by (induction k xs rule: hunks.induct) (auto simp: hunk_def)
  obtain r3 where "put_bytes E (r2\<lparr>sptr := map backquote (take (nat (slen r2)) (sptr r2)) @ drop (nat (slen r2)) (sptr r2)\<rparr>) [10] = Inr r3"
    "is_string r3 (map bq ((bs @ [word_of_nat (n + 32)]) @ hunks k xs) @ [10])" "\<not> sfrozen r3"
    using put_bytes_ok [OF assms(1) backquotes [OF r2(2)], of "[10]"] r2(3) assms(9) len by auto
  then show ?thesis using r1(1) r2(1) by (simp add: encodes_def Let_def w)
qed

lemma bq_no_blank: "32 \<notin> set (map bq bs)" "32 \<notin> set bs \<Longrightarrow> map bq bs = bs"
  by (auto simp: bq_def intro!: map_idI)

lemma length_hunks: "3 * k \<le> length xs \<Longrightarrow> length (hunks k xs) = 4 * k"
  by (induction k xs rule: hunks.induct) (auto simp: hunk_def)

lemma uu_text_0 [simp]: "uu_text 0 xs = []"
  by (subst uu_text.simps) simp

lemma uu_text_line:
  "n \<noteq> 0 \<Longrightarrow> m = min n 45 \<Longrightarrow> uu_text n xs =
     map bq (word_of_nat (m + 32) # hunks ((m + 2) div 3) xs) @ 10 # uu_text (n - m) (drop m xs)"
  by (subst uu_text.simps) (simp only: Let_def if_False)

lemma uu_loop_ok:
  assumes "p_usable E"
  shows "3 * ((n + 2) div 3) \<le> length xs \<Longrightarrow> holds (drop (nat s) q) xs \<Longrightarrow> 0 \<le> s \<Longrightarrow>
    is_string r bs \<Longrightarrow> \<not> sfrozen r \<Longrightarrow> 32 \<notin> set bs \<Longrightarrow> length bs + length (uu_text n xs) < 1073741824 \<Longrightarrow>
    \<exists>r'. uu_loop E q s (int n) 45 r = Inr r' \<and> is_string r' (bs @ uu_text n xs)"
proof (induction n arbitrary: xs s r bs rule: less_induct)
  case (less n)
  show ?case
  proof (cases "n = 0")
    case True
    then show ?thesis using less.prems(4) by (subst uu_loop.simps) simp
  next
    case False
    define m where "m = min n 45"
    let ?k = "(m + 2) div 3" and ?l = "map bq (word_of_nat (m + 32) # hunks ((m + 2) div 3) xs)"
    note tx = uu_text_line [OF False m_def, of xs]
    have k: "m \<le> 3 * ?k" "3 * ?k < m + 3" "3 * ?k \<le> length xs" using less.prems(1) by (auto simp: m_def min_def)
    have room: "length bs + 4 * ?k + 2 < 1073741824"
      using less.prems(7) length_hunks [OF k(3)] unfolding tx by simp
    obtain r1 where r1: "encodes E r q s (int m) = Inr r1" "\<not> sfrozen r1" "is_string r1 (bs @ ?l @ [10])"
      using encodes_ok [OF assms k less.prems(2-5) room] bq_no_blank(2) [OF less.prems(6)] by auto
    have m: "n - m < n" "m \<le> n" using False by (auto simp: m_def)
    have "(n + 2) div 3 = (n - 45 + 2) div 3 + 15" if "45 < n" using that by presburger
    then have "3 * ((n - m + 2) div 3) \<le> length (drop m xs)" using less.prems(1) by (auto simp: m_def min_def)
    moreover have "holds (drop (nat (s + int m)) q) (drop m xs)"
    proof -
      have "m \<le> length xs" using k by linarith
      then show ?thesis using holds_drop_append [of s q "take m xs" "drop m xs"] less.prems(2,3) by simp
    qed
    moreover have "32 \<notin> set (bs @ ?l @ [10])" using less.prems(6) bq_no_blank(1) [of "word_of_nat (m + 32) # hunks ?k xs"] by simp
    ultimately obtain r2 where r2: "uu_loop E q (s + int m) (int (n - m)) 45 r1 = Inr r2"
      "is_string r2 ((bs @ ?l @ [10]) @ uu_text (n - m) (drop m xs))"
      using less.IH [OF m(1) _ _ _ r1(3,2)] less.prems(3,7) unfolding tx by fastforce
    have "uu_loop E q s (int n) 45 r = bindR (encodes E r q s (int m)) (\<lambda>res. uu_loop E q (s + int m) (int n - int m) 45 res)"
      using False by (subst uu_loop.simps) (simp add: Let_def m_def min_def)
    then show ?thesis using r1(1) r2 m(2) unfolding tx by (simp add: of_nat_diff)
  qed
qed

text \<open>Reading.\<close>

lemma sextet_ok:
  assumes "holds (drop (nat s) q) (bq (32 + v) # ys)" "uint v < 64" "0 \<le> s" "s < send"
  shows "sextet q send s = Inr (v, s + 1)"
proof -
  have a: "v AND 63 = v"
  proof -
    have "v AND 63 = take_bit 6 v" unfolding masks by (simp add: take_bit_eq_mask)
    then show ?thesis using assms(2) by (simp add: word_uint_eq_iff [where 'a = 8] uint_mod take_bit_eq_mod)
  qed
  have u: "uint (32 + v) = 32 + uint v" using assms(2) by (simp add: uint_word_ariths)
  have "uint (bq (32 + v)) \<ge> 32" using u by (simp add: bq_def)
  moreover have "(bq (32 + v) - 32) AND 63 = v" using a by (auto simp: bq_def)
  ultimately show ?thesis using holds_drop_Cons(1) [OF assms(1,3)] assms(4) by (simp add: sextet_def)
qed

lemma sextets_less: "x \<in> set (sextets a b c) \<Longrightarrow> uint x < 64"
  using and_63_less by (auto simp: sextets_def)

lemma sextets_nth: "sextets a b c = [sextets a b c ! 0, sextets a b c ! 1, sextets a b c ! 2, sextets a b c ! 3]"
  by (simp add: sextets_def)

lemma read_hunk:
  assumes "holds (drop (nat s) q) (map bq (hunk a b c) @ ys)" "0 \<le> s" "s + 4 \<le> send" "0 < n"
  shows "decode_line q send s n =
    bindR (decode_line q send (s + 4) (n - 3)) (\<lambda>(bs, s). Inr (take (nat n) [a, b, c] @ bs, s))"
proof -
  let ?x = "sextets a b c"
  have "map bq (hunk a b c) = map (\<lambda>v. bq (32 + v)) ?x" by (simp add: hunk_sextets)
  also have "\<dots> = [bq (32 + ?x ! 0), bq (32 + ?x ! 1), bq (32 + ?x ! 2), bq (32 + ?x ! 3)]"
    by (subst sextets_nth) simp
  finally have h0: "holds (drop (nat s) q) (bq (32 + ?x ! 0) # bq (32 + ?x ! 1) # bq (32 + ?x ! 2) # bq (32 + ?x ! 3) # ys)"
    using assms(1) by simp
  note h1 = holds_drop_Cons(2) [OF h0 assms(2)]
  note h2 = holds_drop_Cons(2) [OF h1]
  note h3 = holds_drop_Cons(2) [OF h2]
  have l: "uint (?x ! i) < 64" if "i < 4" for i using that by (intro sextets_less [of _ a b c] nth_mem) (simp add: sextets_def)
  have "sextet q send s = Inr (?x ! 0, s + 1)" using sextet_ok [OF h0 l assms(2)] assms(3) by simp
  moreover have "sextet q send (s + 1) = Inr (?x ! 1, s + 2)"
    using sextet_ok [OF h1 l] assms(2,3) by (simp add: add.assoc)
  moreover have "sextet q send (s + 2) = Inr (?x ! 2, s + 3)"
    using sextet_ok [OF h2 l] assms(2,3) by (simp add: add.assoc)
  moreover have "sextet q send (s + 3) = Inr (?x ! 3, s + 4)"
    using sextet_ok [OF h3 l] assms(2,3) by (simp add: add.assoc)
  ultimately show ?thesis using assms(4) by (subst decode_line.simps) (simp add: unhunk_sextets [unfolded One_nat_def])
qed

lemma decode_line_ok:
  "n \<le> 3 * k \<Longrightarrow> 3 * k < n + 3 \<Longrightarrow> 3 * k \<le> length xs \<Longrightarrow> holds (drop (nat s) q) (map bq (hunks k xs) @ ys) \<Longrightarrow>
    0 \<le> s \<Longrightarrow> s + 4 * int k \<le> send \<Longrightarrow> decode_line q send s (int n) = Inr (take n xs, s + 4 * int k)"
proof (induction k arbitrary: n xs s)
  case 0
  then show ?case by (subst decode_line.simps) simp
next
  case (Suc k)
  obtain a b c zs where xs: "xs = a # b # c # zs"
    using Suc.prems(3) by (cases xs; cases "tl xs"; cases "tl (tl xs)") auto
  have n: "0 < n" using Suc.prems(2) by simp
  have h: "holds (drop (nat s) q) (map bq (hunk a b c) @ map bq (hunks k zs) @ ys)"
    using Suc.prems(4) by (simp add: xs)
  have "length (map bq (hunk a b c)) = 4" by (simp add: hunk_def)
  then have h4: "holds (drop (nat (s + 4)) q) (map bq (hunks k zs) @ ys)"
    using holds_drop_append [OF h Suc.prems(5)] by simp
  have "n - 3 \<le> 3 * k" "3 * k < n - 3 + 3" "3 * k \<le> length zs" using Suc.prems(1-3) xs by auto
  from Suc.IH [OF this h4] Suc.prems(5,6)
  have ih: "decode_line q send (s + 4) (int (n - 3)) = Inr (take (n - 3) zs, s + 4 + 4 * int k)" by simp
  have "decode_line q send (s + 4) (int n - 3) = decode_line q send (s + 4) (int (n - 3))"
    by (cases "3 \<le> n") (simp_all add: of_nat_diff decode_line.simps)
  then have "decode_line q send s (int n) = Inr (take n [a, b, c] @ take (n - 3) zs, s + 4 + 4 * int k)"
    using read_hunk [OF h Suc.prems(5), of send "int n"] Suc.prems(6) n ih by simp
  moreover have "take n [a, b, c] @ take (n - 3) zs = take n xs"
    using take_append [of n "[a, b, c]" zs] by (simp add: xs numeral_3_eq_3)
  ultimately show ?case by simp
qed

lemma decode_lines_ok:
  "3 * ((n + 2) div 3) \<le> length xs \<Longrightarrow> holds (drop (nat s) q) (uu_text n xs @ [0]) \<Longrightarrow> 0 \<le> s \<Longrightarrow>
    send = s + int (length (uu_text n xs)) \<Longrightarrow> tot + int n \<le> room \<Longrightarrow> n < fuel \<Longrightarrow>
    decode_lines fuel q send room s tot = Inr (take n xs, send)"
proof (induction fuel arbitrary: n xs s tot)
  case (Suc fuel)
  show ?case
  proof (cases "n = 0")
    case True
    then show ?thesis using Suc.prems(4) by simp
  next
    case False
    define m where "m = min n 45"
    let ?k = "(m + 2) div 3"
    define c where "c = (word_of_nat (m + 32) :: u8)"
    note tx = uu_text_line [OF False m_def, of xs]
    have m: "0 < m" "m \<le> 45" "m \<le> n" using False by (auto simp: m_def)
    have k: "m \<le> 3 * ?k" "3 * ?k < m + 3" "3 * ?k \<le> length xs" using Suc.prems(1) by (auto simp: m_def min_def)
    have u: "uint c = int m + 32" using m by (simp add: c_def unsigned_of_nat take_bit_nat_eq_self del: of_nat_add)
    have "c \<noteq> 32" using u m(1) by auto
    then have bc: "bq c = c" by (simp add: bq_def)
    have cm: "uint ((c - 32) AND 63) = int m"
    proof -
      have "uint (c - 32) = int m" using u m(2) by (simp add: uint_word_ariths)
      then show ?thesis using m and_63 [of "c - 32"] by simp
    qed
    have h: "holds (drop (nat s) q) (c # map bq (hunks ?k xs) @ 10 # uu_text (n - m) (drop m xs) @ [0])"
      using Suc.prems(2) unfolding tx c_def [symmetric] by (simp add: bc)
    note h1 = holds_drop_Cons [OF h Suc.prems(3)]
    have len: "length (map bq (hunks ?k xs)) = 4 * ?k" using length_hunks [OF k(3)] by simp
    have send: "send = s + 2 + 4 * int ?k + int (length (uu_text (n - m) (drop m xs)))"
      using Suc.prems(4) unfolding tx using len by simp
    have line: "decode_line q send (s + 1) (int m) = Inr (take m xs, s + 1 + 4 * int ?k)"
      using decode_line_ok [OF k h1(2)] Suc.prems(3) send by simp
    have h2: "holds (drop (nat (s + 1 + 4 * int ?k)) q) (10 # uu_text (n - m) (drop m xs) @ [0])"
      using holds_drop_append [OF h1(2)] Suc.prems(3) len by simp
    note h3 = holds_drop_Cons [OF h2]
    have eol: "line_end q send (s + 1 + 4 * int ?k) = Inr (s + 2 + 4 * int ?k)"
      using h3(1) Suc.prems(3) by (simp add: line_end_def Let_def)
    have "(n + 2) div 3 = (n - 45 + 2) div 3 + 15" if "45 < n" using that by presburger
    then have "3 * ((n - m + 2) div 3) \<le> length (drop m xs)" using Suc.prems(1) by (auto simp: m_def min_def)
    moreover have "holds (drop (nat (s + 2 + 4 * int ?k)) q) (uu_text (n - m) (drop m xs) @ [0])"
      using h3(2) Suc.prems(3) by (simp add: algebra_simps)
    ultimately have "decode_lines fuel q send room (s + 2 + 4 * int ?k) (tot + int m) = Inr (take (n - m) (drop m xs), send)"
      using Suc.IH [of "n - m" "drop m xs" "s + 2 + 4 * int ?k" "tot + int m"] Suc.prems(3,5,6) send m by simp
    moreover have "take m xs @ take (n - m) (drop m xs) = take n xs" using m(3) by (simp add: take_add [symmetric])
    ultimately show ?thesis using h1(1) line eol u cm m Suc.prems(3,5) send by (simp add: Let_def)
  qed
qed simp

lemma length_uu_text:
  "3 * ((n + 2) div 3) \<le> length xs \<Longrightarrow> 4 * n \<le> 3 * length (uu_text n xs) \<and> length (uu_text n xs) \<le> 2 * n + 4"
proof (induction n arbitrary: xs rule: less_induct)
  case (less n)
  show ?case
  proof (cases "n = 0")
    case False
    define m where "m = min n 45"
    have k: "3 * ((m + 2) div 3) \<le> length xs" using less.prems by (auto simp: m_def min_def)
    have "(n + 2) div 3 = (n - 45 + 2) div 3 + 15" if "45 < n" using that by presburger
    then have "3 * ((n - m + 2) div 3) \<le> length (drop m xs)" using less.prems by (auto simp: m_def min_def)
    then have ih: "4 * (n - m) \<le> 3 * length (uu_text (n - m) (drop m xs))"
      "length (uu_text (n - m) (drop m xs)) \<le> 2 * (n - m) + 4"
      using less.IH [of "n - m" "drop m xs"] False by (auto simp: m_def)
    have l: "length (uu_text n xs) = 2 + 4 * ((m + 2) div 3) + length (uu_text (n - m) (drop m xs))"
      using uu_text_line [OF False m_def, of xs] length_hunks [OF k] by simp
    show ?thesis
    proof (cases "n \<le> 45")
      case True
      then show ?thesis using l by (simp add: m_def) linarith
    next
      case False
      then have "m = 45" by (simp add: m_def)
      then show ?thesis using ih l False by simp linarith
    qed
  qed simp
qed

lemma unpack_u_ok:
  assumes "p_usable E" "is_string r (uu_text n xs)" "3 * ((n + 2) div 3) \<le> length xs" "n \<le> 300000000"
  shows "\<exists>u s. unpack_u E (sptr r) (slen r) 0 = Inr (u, s) \<and> slen u = int n \<and> holds (sptr u) (take n xs)"
proof -
  note S = is_stringD [OF assms(2)]
  let ?t = "length (uu_text n xs)"
  have len: "4 * n \<le> 3 * ?t" "?t \<le> 2 * n + 4" using length_uu_text [OF assms(3)] by auto
  define room where "room = int (3 * ?t div 4)"
  have t3: "S32 (slen r * 3) = int (3 * ?t)" using S(1) len(2) assms(4) by simp
  have rm: "(if int (3 * ?t) < 0 then - (- int (3 * ?t) div 4) else int (3 * ?t) div 4) = room" "U32 room = room"
    using len(2) assms(4) by (simp_all add: room_def zdiv_int)
  have n: "int n \<le> room" "n \<le> length xs" using len(1) assms(3) unfolding room_def by linarith+
  have "n < nat (slen r) + 1" using S(6) len(1) by linarith
  then have dec: "decode_lines (nat (slen r) + 1) (sptr r) (slen r) room 0 0 = Inr (take n xs, slen r)"
    using decode_lines_ok [OF assms(3), of 0 "sptr r" "slen r" 0 room] S(1,3) n(1) by (simp del: decode_lines.simps)
  obtain u where u: "str_new (p_str E) None room = Inr u" "room < int (length (sptr u))"
    using new_buffer [OF assms(1) room_def] len(2) assms(4) by (auto simp: room_def)
  have "\<exists>p. copy_cells (sptr u) 0 (map Some (take n xs)) 0 (int (length (take n xs))) = Inr p \<and> holds p (take n xs)"
    using u(2) n copy_cells_nat [of 0 n "sptr u" 0 "map Some (take n xs)"] by (auto simp: min_def holds_def)
  then obtain p where p: "copy_cells (sptr u) 0 (map Some (take n xs)) 0 (int (length (take n xs))) = Inr p"
    "holds p (take n xs)" by blast
  have "unpack_u E (sptr r) (slen r) 0 = Inr (u\<lparr>slen := int (length (take n xs)), sptr := p\<rparr>, slen r)"
    unfolding unpack_u_def Let_def diff_zero t3 rm u(1) bindR.simps dec prod.case p(1) by (rule refl)
  then show ?thesis using p(2) n(2) by (simp add: min_def)
qed

lemma u_items:
  "pack_loop E [117] [PStr s] res = pack_u E s 1 res"
  "pack_loop E [117, 50] [PStr s] res = pack_u E s 2 res"
  "unpack_u E (sptr r) (slen r) 0 = Inr (u, s') \<Longrightarrow> unpack_loop E r [117] 0 [] = Inr [PStr u]"
proof -
  have st: "strtoul [50] 10 = 2" by code_simp
  have "pack_loop E [] = (\<lambda>items res. Inr res)" by (simp add: fun_eq_iff)
  then show "pack_loop E [117] [PStr s] res = pack_u E s 1 res"
    "pack_loop E [117, 50] [PStr s] res = pack_u E s 2 res"
    by (cases "pack_u E s 1 res"; simp add: pack_count_def pack_item_def next_from_def obj_as_string_def)
      (cases "pack_u E s 2 res"; simp add: st pack_count_def pack_item_def next_from_def obj_as_string_def isdigit_def between_def)
  show "unpack_u E (sptr r) (slen r) 0 = Inr (u, s') \<Longrightarrow> unpack_loop E r [117] 0 [] = Inr [PStr u]"
    by (simp add: unpack_count_def unpack_item_def Let_def)
qed

text \<open>
  C28: A string of up to 300000000 bytes that \<^verbatim>\<open>pack\<close> uuencodes, \<^verbatim>\<open>unpack\<close> decodes to the same bytes. When the
  length is 1 modulo 3 the string must have a byte behind its terminating zero, which strings made by
  \<^verbatim>\<open>str_new\<close> do not have: for them \<open>pack_uu_reads_behind\<close> holds.
\<close>

theorem pack_unpack_uu:
  assumes "p_usable E" "is_string s bs" "length bs \<le> 300000000"
    "length bs mod 3 = 1 \<longrightarrow> (\<exists>g. holds (sptr s) (bs @ [0, g]))"
  shows "\<exists>r u. pack_pack E [PStr s] [117] = Inr r \<and> pack_unpack E r [117] = Inr [PStr u] \<and>
    slen u = int (length bs) \<and> holds (sptr u) bs"
proof -
  note S = is_stringD [OF assms(2)]
  let ?n = "length bs"
  obtain ys where ys: "holds (sptr s) (bs @ ys)" "3 * ((?n + 2) div 3) \<le> length (bs @ ys)"
  proof (cases "?n mod 3 = 1")
    case True
    with assms(4) obtain g where "holds (sptr s) (bs @ [0, g])" by blast
    with that show ?thesis by fastforce
  next
    case False
    then have "3 * ((?n + 2) div 3) \<le> ?n + 1" by presburger
    then show ?thesis using that [of "[0]"] S(3) by simp
  qed
  obtain r0 where r0: "str_new (p_str E) None 0 = Inr r0" "is_string r0 []" "\<not> sfrozen r0"
    using empty_string assms(1) by (auto simp: p_usable_def)
  have len: "length (uu_text ?n (bs @ ys)) < 1073741824" using length_uu_text [OF ys(2)] assms(3) by linarith
  obtain r where r: "uu_loop E (sptr s) 0 (int ?n) 45 r0 = Inr r" "is_string r (uu_text ?n (bs @ ys))"
    using uu_loop_ok [OF assms(1) ys(2), of 0 "sptr s" r0 "[]"] r0(2,3) ys(1) len by auto
  obtain u s' where u: "unpack_u E (sptr r) (slen r) 0 = Inr (u, s')" "slen u = int ?n" "holds (sptr u) bs"
    using unpack_u_ok [OF assms(1) r(2) ys(2) assms(3)] by auto
  have "pack_u E s 1 r0 = Inr r" using r(1) S(1,2) by (simp add: pack_u_def)
  then have "pack_pack E [PStr s] [117] = Inr r" using r0(1) u_items(1) [of E s r0] by (simp add: pack_pack_def del: pack_loop.simps)
  moreover have "pack_unpack E r [117] = Inr [PStr u]" using u_items(3) [OF u(1)] by (simp add: pack_unpack_def)
  ultimately show ?thesis using u(2,3) by blast
qed

theorem pack_unpack_uu_witness:
  "\<exists>r u. pack_pack sample_pack_env [PStr (bytes_string [99, 97, 116])] [117] = Inr r \<and>
     pack_unpack sample_pack_env r [117] = Inr [PStr u] \<and> slen u = 3 \<and> holds (sptr u) [99, 97, 116]"
  using pack_unpack_uu [OF sample_pack_env_ok(1) bytes_string_ok(1), of "[99, 97, 116]"] by simp

text \<open>
  A string that may be written and whose block an allocator with a limit has served.
\<close>

definition growing :: "rstring \<Rightarrow> bool" where
  "growing r \<longleftrightarrow> 0 \<le> slen r \<and> slen r < int (length (sptr r)) \<and> \<not> sfrozen r \<and> \<not> sorig r"

lemma put_byte_limit:
  assumes "s_safe_level (p_str E) < 5" "\<forall>n>0. s_malloc_ok (p_str E) n \<longleftrightarrow> n \<le> limit" "limit < 4294967295"
    and "growing r" "slen r < limit"
  shows "if slen r + 2 \<le> limit then \<exists>r'. put_bytes E r [b] = Inr r' \<and> growing r' \<and> slen r' = slen r + 1
    else put_bytes E r [b] = Inl (Fatal ''failed to allocate memory(realloc)'')"
proof -
  let ?n = "slen r + 2"
  have g: "0 \<le> slen r" "slen r < int (length (sptr r))" "\<not> sfrozen r" "\<not> sorig r" using assms(4) by (simp_all add: growing_def)
  have m: "str_modify (p_str E) r = Inr r" using assms(1) g by (simp add: str_modify_def)
  have u: "U32 ?n = ?n" "slen r + 1 + 1 = ?n" using g(1) assms(3,5) by simp_all
  have ok: "s_malloc_ok (p_str E) ?n \<longleftrightarrow> ?n \<le> limit" using assms(2) g(1) by simp
  show ?thesis
  proof (cases "?n \<le> limit")
    case True
    obtain p where p: "realloc_chars (p_str E) (sptr r) (slen r + 1 + 1) = Inr p" "length p = nat ?n"
      unfolding u(2) realloc_chars_def u(1) xrealloc_def using True ok by (simp add: Let_def)
    define c where "c = take (nat (slen r)) p @ [Some b] @ drop (nat (slen r + 1)) p"
    have c: "copy_cells p (slen r) (map Some [b]) 0 1 = Inr c"
      using g(1) unfolding copy_cells_def p(2) c_def by simp
    have lc: "length c = nat ?n" using g(1) p(2) unfolding c_def by simp
    have s: "set_cell c (U32 (slen r + 1)) 0 = Inr (c[nat (slen r + 1) := Some 0])"
      using g(1) u lc assms(3,5) by (simp add: set_cell_in)
    have "put_bytes E r [b] = Inr (r\<lparr>slen := U32 (slen r + 1), sptr := c[nat (slen r + 1) := Some 0]\<rparr>)"
      using m p(1) c s by (simp add: put_bytes_def str_cat_def)
    then show ?thesis using True g u lc assms(3,5) by (simp add: growing_def)
  next
    case False
    then have "realloc_chars (p_str E) (sptr r) (slen r + 1 + 1) = Inl (Fatal ''failed to allocate memory(realloc)'')"
      unfolding u(2) realloc_chars_def u(1) xrealloc_def using ok g(1) by simp
    then show ?thesis using m False by (simp add: put_bytes_def str_cat_def)
  qed
qed

lemma growing_backquotes:
  "growing r \<Longrightarrow> growing (r\<lparr>sptr := map backquote (take (nat (slen r)) (sptr r)) @ drop (nat (slen r)) (sptr r)\<rparr>)"
  by (auto simp: growing_def min_def)

lemma empty_lines_fail:
  assumes "s_safe_level (p_str E) < 5" "\<forall>n>0. s_malloc_ok (p_str E) n \<longleftrightarrow> n \<le> limit" "limit < 4294967295" "0 < plen"
  shows "growing r \<Longrightarrow> slen r < limit \<Longrightarrow> uu_loop E q s plen 0 r = Inl (Fatal ''failed to allocate memory(realloc)'')"
proof (induction "nat (limit - slen r)" arbitrary: r rule: less_induct)
  case less
  let ?e = "Fatal ''failed to allocate memory(realloc)''" and ?u = "uu_loop E q s plen 0"
  note put = put_byte_limit [OF assms(1-3)]
  have rec: "?u r = bindR (encodes E r q s 0) ?u" using assms(4) by (subst uu_loop.simps) (simp add: Let_def)
  show ?case
  proof (cases "slen r + 2 \<le> limit")
    case True
    then obtain r1 where 1: "put_bytes E r [32] = Inr r1" "growing r1" "slen r1 = slen r + 1"
      using put [OF less.prems, of 32] by auto
    define r2 where "r2 = r1\<lparr>sptr := map backquote (take (nat (slen r1)) (sptr r1)) @ drop (nat (slen r1)) (sptr r1)\<rparr>"
    have 2: "growing r2" "slen r2 = slen r + 1" using growing_backquotes [OF 1(2)] 1(3) by (simp_all add: r2_def)
    have e: "encodes E r q s 0 = put_bytes E r2 [10]"
      using 1(1) by (simp add: encodes_def encode_loop.simps Let_def r2_def)
    show ?thesis
    proof (cases "slen r + 3 \<le> limit")
      case more: True
      then obtain r3 where 3: "put_bytes E r2 [10] = Inr r3" "growing r3" "slen r3 = slen r + 2"
        using put [OF 2(1), of 10] 2(2) by auto
      then have "?u r3 = Inl ?e" using less.hyps [of r3] more by simp
      with rec e 3(1) show ?thesis by simp
    next
      case False
      then have "put_bytes E r2 [10] = Inl ?e" using put [OF 2(1), of 10] 2(2) True by simp
      with rec e show ?thesis by simp
    qed
  next
    case False
    then have "put_bytes E r [32] = Inl ?e" using put [OF less.prems, of 32] by simp
    with rec show ?thesis by (simp add: encodes_def)
  qed
qed

text \<open>
  C40: Uuencoding with a count of 2. The count becomes a line length of 0 (2 / 3 * 3), and every round of the
  loop appends a line of two bytes and takes none from the string: for every string that is not empty and every
  allocator that serves sizes up to a limit below 2 ^ 32 - 1, the loop ends only when the allocator fails, with a
  fatal error, whatever the limit is. With any other allocator there is no result either.
\<close>

theorem pack_uu_exhausts_memory:
  assumes "s_safe_level (p_str E) < 5" "\<forall>n>0. s_malloc_ok (p_str E) n \<longleftrightarrow> n \<le> limit" "0 < limit" "limit < 4294967295"
    and "is_string s bs" "bs \<noteq> []"
  shows "pack_pack E [PStr s] [117, 50] = Inl (Fatal ''failed to allocate memory(realloc)'')"
proof -
  note S = is_stringD [OF assms(5)]
  have m: "s_malloc_ok (p_str E) n \<longleftrightarrow> n \<le> limit" if "0 < n" for n using assms(2) that by blast
  obtain r0 where r0: "str_new (p_str E) None 0 = Inr r0" "growing r0" "slen r0 = 0"
    using assms(3) m [of 1] by (simp add: str_new_def alloc_chars_def xmalloc_def set_cell_in growing_def)
  have "pack_u E s 2 r0 = Inl (Fatal ''failed to allocate memory(realloc)'')"
    using empty_lines_fail [OF assms(1,2,4) _ r0(2), of "slen s"] r0(3) assms(3,6) S(1,2) by (simp add: pack_u_def)
  then show ?thesis using r0(1) u_items(2) [of E s r0] by (simp add: pack_pack_def del: pack_loop.simps)
qed

theorem pack_uu_exhausts_memory_witness:
  "pack_pack (sample_pack_env\<lparr>p_str := sample_str_env\<lparr>s_malloc_ok := \<lambda>n. n \<le> 1000000\<rparr>\<rparr>)
     [PStr (bytes_string [65])] [117, 50] = Inl (Fatal ''failed to allocate memory(realloc)'')"
  by (rule pack_uu_exhausts_memory [where limit = 1000000 and bs = "[65]"])
    (simp_all add: sample_str_env_def bytes_string_ok(1))

text \<open>
  The last group of a string of 3 * k + 1 bytes in a block that ends with the terminating zero.
\<close>

lemma encode_loop_behind:
  assumes "p_usable E"
  shows "length xs = 3 * k + 2 \<Longrightarrow> holds (drop (nat s) q) xs \<Longrightarrow> 0 \<le> s \<Longrightarrow> int (length q) = s + int (length xs) \<Longrightarrow>
    is_string r bs \<Longrightarrow> \<not> sfrozen r \<Longrightarrow> length bs + 4 * k < 1073741824 \<Longrightarrow>
    encode_loop E q s (3 * int k + 1) r = Inl OutOfBounds"
proof (induction k arbitrary: xs s r bs)
  case 0
  obtain a b where xs: "xs = [a, b]" using 0(1) by (cases xs; cases "tl xs") auto
  note h1 = holds_drop_Cons [OF 0(2) [unfolded xs] 0(3)]
  note h2 = holds_drop_Cons [OF h1(2)]
  have "get_cell q (s + 2) = Inl OutOfBounds" using 0(4) xs by (simp add: get_cell_def arr_get_def in_block_def)
  then show ?case using h1(1) h2(1) 0(3) by (subst encode_loop.simps) simp
next
  case (Suc k)
  obtain a b c ys where xs: "xs = a # b # c # ys"
    using Suc.prems(1) by (cases xs; cases "tl xs"; cases "tl (tl xs)") auto
  note h1 = holds_drop_Cons [OF Suc.prems(2) [unfolded xs] Suc.prems(3)]
  note h2 = holds_drop_Cons [OF h1(2)]
  note h3 = holds_drop_Cons [OF h2(2)]
  have g: "get_cell q s = Inr a" "get_cell q (s + 1) = Inr b" "get_cell q (s + 2) = Inr c"
    "holds (drop (nat (s + 3)) q) ys"
    using h1(1) h2(1) h3(1,2) Suc.prems(3) by (simp_all add: add.assoc)
  have len: "length (hunk a b c) = 4" by (simp add: hunk_def)
  obtain r1 where r1: "put_bytes E r (hunk a b c) = Inr r1" "is_string r1 (bs @ hunk a b c)" "\<not> sfrozen r1"
    using put_bytes_ok [OF assms Suc.prems(5,6), of "hunk a b c"] Suc.prems(7) len by auto
  have "encode_loop E q (s + 3) (3 * int k + 1) r1 = Inl OutOfBounds"
    using Suc.IH [OF _ g(4) _ _ r1(2,3)] Suc.prems(1,3,4,7) xs len by simp
  then show ?case using g(1-3) r1(1) by (subst encode_loop.simps) (simp add: add.commute)
qed

lemma uu_loop_behind:
  assumes "p_usable E"
  shows "length xs = 3 * k + 2 \<Longrightarrow> holds (drop (nat s) q) xs \<Longrightarrow> 0 \<le> s \<Longrightarrow> int (length q) = s + int (length xs) \<Longrightarrow>
    is_string r bs \<Longrightarrow> \<not> sfrozen r \<Longrightarrow> 32 \<notin> set bs \<Longrightarrow> length bs + 6 * k + 6 < 1073741824 \<Longrightarrow>
    uu_loop E q s (3 * int k + 1) 45 r = Inl OutOfBounds"
proof (induction k arbitrary: xs s r bs rule: less_induct)
  case (less k)
  show ?case
  proof (cases "k < 15")
    case True
    let ?b = "[word_of_int (3 * int k + 1 + 32)]"
    obtain r1 where r1: "put_bytes E r ?b = Inr r1" "is_string r1 (bs @ ?b)" "\<not> sfrozen r1"
      using put_bytes_ok [OF assms less.prems(5,6), of ?b] less.prems(8) by auto
    have "encode_loop E q s (3 * int k + 1) r1 = Inl OutOfBounds"
      by (rule encode_loop_behind [OF assms less.prems(1-4) r1(2,3)]) (use less.prems(8) in simp)
    then show ?thesis using True r1(1) by (subst uu_loop.simps) (simp add: Let_def encodes_def)
  next
    case False
    have k: "45 \<le> 3 * (15 :: nat)" "3 * (15 :: nat) < 45 + 3" "3 * 15 \<le> length xs" using less.prems(1) False by auto
    have room: "length bs + 4 * 15 + 2 < 1073741824" using less.prems(8) False by simp
    let ?l = "map bq (word_of_nat (45 + 32) # hunks 15 xs)"
    obtain r1 where r1: "encodes E r q s (int 45) = Inr r1" "\<not> sfrozen r1" "is_string r1 (bs @ ?l @ [10])"
      using encodes_ok [OF assms k less.prems(2,3,5,6) room] bq_no_blank(2) [OF less.prems(7)] by auto
    have l: "length ?l = 61" using length_hunks [OF k(3)] by simp
    have ns: "32 \<notin> set (bs @ ?l @ [10])"
      using less.prems(7) bq_no_blank(1) [of "word_of_nat (45 + 32) # hunks 15 xs"] by simp
    have "holds (drop (nat (s + 45)) q) (drop 45 xs)"
      using holds_drop_append [of s q "take 45 xs" "drop 45 xs"] less.prems(2,3) k(3) by simp
    then have "uu_loop E q (s + 45) (3 * int (k - 15) + 1) 45 r1 = Inl OutOfBounds"
      using less.IH [of "k - 15" "drop 45 xs" "s + 45", OF _ _ _ _ _ r1(3,2) ns] less.prems(1,3,4,8) False l by simp
    moreover have "3 * int k + 1 - 45 = 3 * int (k - 15) + 1" using False by (simp add: of_nat_diff)
    ultimately show ?thesis using False r1(1) by (subst uu_loop.simps) (simp add: Let_def)
  qed
qed

text \<open>
  C39: \<^verbatim>\<open>u\<close> on a string of 3 * k + 1 bytes whose block ends with the terminating zero, as \<^verbatim>\<open>str_new\<close> makes it,
  reads one byte behind the block for the third byte of the last group.
\<close>

theorem pack_uu_reads_behind:
  assumes "p_usable E" "is_string s bs" "length bs mod 3 = 1" "length bs \<le> 300000000" "length (sptr s) = length bs + 1"
  shows "pack_pack E [PStr s] [117] = Inl OutOfBounds"
proof -
  note S = is_stringD [OF assms(2)]
  obtain k where k: "length bs = 3 * k + 1" using assms(3) by (metis mult.commute mult_div_mod_eq)
  obtain r0 where r0: "str_new (p_str E) None 0 = Inr r0" "is_string r0 []" "\<not> sfrozen r0"
    using empty_string assms(1) by (auto simp: p_usable_def)
  have "uu_loop E (sptr s) 0 (3 * int k + 1) 45 r0 = Inl OutOfBounds"
    by (rule uu_loop_behind [OF assms(1), where xs = "bs @ [0]", OF _ _ _ _ r0(2,3)]) (use S(3) k assms(4,5) in simp_all)
  moreover have "S32 (slen s) = 3 * int k + 1" using S(1,2) k by simp
  ultimately have "pack_u E s 1 r0 = Inl OutOfBounds" by (simp add: pack_u_def)
  then show ?thesis
    using r0(1) u_items(1) [of E s r0] by (simp add: pack_pack_def del: pack_loop.simps)
qed

theorem pack_uu_reads_behind_witness:
  "pack_pack sample_pack_env [PStr (bytes_string [65, 66, 67, 68])] [117] = Inl OutOfBounds"
  by (rule pack_uu_reads_behind [OF sample_pack_env_ok(1) bytes_string_ok(1)]) (simp_all add: bytes_string_def)

end
