(* ===== verification/RHash.thy ===== *)
theory RHash
  imports St RArray RString BigBase
begin

text \<open>
  The class Hash, \<^verbatim>\<open>src/hash.c\<close>: the table of \<open>St\<close> with keys and records that are Ruby values,
  behind \<^verbatim>\<open>any_cmp\<close> and \<^verbatim>\<open>any_hash\<close>. Method calls on other objects (\<^verbatim>\<open>eql?\<close>, \<^verbatim>\<open>hash\<close>, \<^verbatim>\<open>==\<close>,
  \<^verbatim>\<open>inspect\<close>) run in the evaluator and are a field of the record \<open>hash_env\<close>. A block is a function
  on its own state that returns a value or raises; it does not change the hash that is iterated.
  The locale \<open>key_objects\<close> says what hashes need of the methods of objects.
\<close>

section \<open>Values\<close>

text \<open>
  \<open>RPair\<close> is the array of two elements that \<^verbatim>\<open>assoc_new\<close> makes; \<open>RObj\<close> is any other object.
\<close>

datatype 'o rval =
    RNil
  | RTrue
  | RFalse
  | RFix u32
  | RStr rstring
  | RPair "'o rval" "'o rval"
  | RObj 'o

text \<open>
  \<open>address\<close> is the word of a value that is an object; \<open>funcall\<close> is \<^verbatim>\<open>rb_funcall\<close> and \<open>inspect\<close>
  is \<^verbatim>\<open>rb_inspect\<close>; \<open>num2int\<close> is \<^verbatim>\<open>NUM2INT\<close>.
\<close>

record 'o hash_env =
  h_str :: str_env
  h_ary :: "'o rval ary_env"
  address :: "'o rval \<Rightarrow> u32"
  funcall :: "string \<Rightarrow> 'o rval \<Rightarrow> 'o rval list \<Rightarrow> 'o rval result"
  inspect :: "'o rval \<Rightarrow> rstring result"
  num2int :: "'o rval \<Rightarrow> int result"

fun word_of :: "'o hash_env \<Rightarrow> 'o rval \<Rightarrow> u32" where
  "word_of E RFalse = 0"
| "word_of E RTrue = 2"
| "word_of E RNil = 4"
| "word_of E (RFix w) = w"
| "word_of E v = address E v"

definition rb_secure :: "'o hash_env \<Rightarrow> int \<Rightarrow> unit result" where
  "rb_secure E level =
     (if level \<le> s_safe_level (h_str E) then Inl (SecurityError ''Insecure operation `%s' for level %d'')
      else Inr ())"

definition rb_equal_obj :: "'o hash_env \<Rightarrow> 'o rval \<Rightarrow> 'o rval \<Rightarrow> bool result" where
  "rb_equal_obj E obj1 obj2 =
     bindR (funcall E ''=='' obj1 [obj2]) (\<lambda>r. Inr (r \<noteq> RFalse \<and> r \<noteq> RNil))"

text \<open>\<^verbatim>\<open>rb_eql\<close> returns the value of \<^verbatim>\<open>eql?\<close> as a C integer: only \<^verbatim>\<open>false\<close> is 0.\<close>

definition rb_eql :: "'o hash_env \<Rightarrow> 'o rval \<Rightarrow> 'o rval \<Rightarrow> u32 result" where
  "rb_eql E obj1 obj2 = bindR (funcall E ''eql?'' obj1 [obj2]) (\<lambda>r. Inr (word_of E r))"

definition rb_hash :: "'o hash_env \<Rightarrow> 'o rval \<Rightarrow> 'o rval result" where
  "rb_hash E obj = funcall E ''hash'' obj []"

section \<open>The key type\<close>

fun any_cmp :: "'o hash_env \<Rightarrow> 'o rval \<Rightarrow> 'o rval \<Rightarrow> int result" where
  "any_cmp E (RFix a) (RFix b) = Inr (if a \<noteq> b then 1 else 0)"
| "any_cmp E (RStr a) (RStr b) = str_cmp (h_str E) a b"
| "any_cmp E a b = bindR (rb_eql E a b) (\<lambda>r. Inr (if r = 0 then 1 else 0))"

text \<open>The default branch of \<^verbatim>\<open>any_hash\<close>: a hash value that is no Fixnum is reduced by \<^verbatim>\<open>%\<close>.\<close>

definition obj_hash :: "'o hash_env \<Rightarrow> 'o rval \<Rightarrow> u32 result" where
  "obj_hash E a =
     bindR (funcall E ''hash'' a []) (\<lambda>hval.
     bindR (case hval of RFix _ \<Rightarrow> Inr hval | _ \<Rightarrow> funcall E ''%'' hval [RFix (INT2FIX 65439)]) (\<lambda>hval.
       Inr (FIX2INT (word_of E hval))))"

text \<open>
  The remainder is unsigned; \<^verbatim>\<open>mod\<close> is a number of bins, a positive \<^verbatim>\<open>int\<close>, so the conversions of
  \<^verbatim>\<open>mod\<close> and of the result do not change them.
\<close>

definition any_hash :: "'o hash_env \<Rightarrow> 'o rval \<Rightarrow> int \<Rightarrow> int result" where
  "any_hash E a modulus =
     bindR (case a of RFix w \<Rightarrow> Inr w | RStr s \<Rightarrow> str_hash (h_str E) s | _ \<Rightarrow> obj_hash E a) (\<lambda>hval.
       Inr (uint hval mod modulus))"

text \<open>
  The callbacks of a table are total functions; \<open>returned\<close> is the value of one that returns. An
  exception leaves the operation, and the properties are about keys whose comparison and hash
  value return (\<open>hash_key\<close> below).
\<close>

definition returned :: "int result \<Rightarrow> int" where
  "returned r = (case r of Inl _ \<Rightarrow> - 1 | Inr x \<Rightarrow> x)"

definition objhash :: "'o hash_env \<Rightarrow> 'o rval st_hash_type" where
  "objhash E = \<lparr>compare = (\<lambda>a b. returned (any_cmp E a b)), hash = (\<lambda>a m. returned (any_hash E a m))\<rparr>"

type_synonym 'o obj_table = "('o rval, 'o rval) st_table"

record 'o rhash =
  klass :: nat
  iter_lev :: int
  status :: u32
  tbl :: "'o obj_table"

definition HASH_DELETED :: u32 where
  "HASH_DELETED = 1"

definition HASH_REHASHED :: u32 where
  "HASH_REHASHED = 2"

section \<open>Blocks and iteration\<close>

text \<open>
  A callback of \<^verbatim>\<open>st_foreach\<close> that raises leaves the loop with the cells as they are, like
  \<^verbatim>\<open>ST_STOP\<close>; the exception is part of the state that \<open>foreach_with\<close> returns.
\<close>

type_synonym ('o, 's) ruby_block = "('o rval \<Rightarrow> 's \<Rightarrow> 'o rval result \<times> 's) option"

type_synonym ('o, 's) iter_fun = "'o rval \<Rightarrow> 'o rval \<Rightarrow> 's \<Rightarrow> st_retval result \<times> 's"

definition rb_yield :: "('o, 's) ruby_block \<Rightarrow> 'o rval \<Rightarrow> 's \<Rightarrow> 'o rval result \<times> 's" where
  "rb_yield blk v s =
     (case blk of None \<Rightarrow> (Inl (LocalJumpError ''yield called out of iterator''), s) | Some f \<Rightarrow> f v s)"

definition raising ::
    "('o, 's) iter_fun \<Rightarrow> 'o rval \<Rightarrow> 'o rval \<Rightarrow> 's \<times> rb_error option \<Rightarrow> st_retval \<times> ('s \<times> rb_error option)" where
  "raising func key value sx =
     (case func key value (fst sx) of
        (Inr r, s') \<Rightarrow> (r, s', None)
      | (Inl e, s') \<Rightarrow> (ST_STOP, s', Some e))"

definition foreach_with :: "'o obj_table \<Rightarrow> ('o, 's) iter_fun \<Rightarrow> 's \<Rightarrow> 'o obj_table \<times> 's \<times> rb_error option" where
  "foreach_with t func s = st_foreach t (raising func) (s, None)"

text \<open>A callback that works on an object and returns it, or raises.\<close>

definition working :: "('o rval \<Rightarrow> 'o rval \<Rightarrow> 's \<Rightarrow> 's result) \<Rightarrow> ('o, 's) iter_fun" where
  "working f key value s = (case f key value s of Inl e \<Rightarrow> (Inl e, s) | Inr s' \<Rightarrow> (Inr ST_CONTINUE, s'))"

definition collect_with :: "'o obj_table \<Rightarrow> ('o rval \<Rightarrow> 'o rval \<Rightarrow> 's \<Rightarrow> 's result) \<Rightarrow> 's \<Rightarrow> 's result" where
  "collect_with t f s =
     (case foreach_with t (working f) s of (_, s', None) \<Rightarrow> Inr s' | (_, _, Some e) \<Rightarrow> Inl e)"

definition hash_foreach_iter :: "'o rhash \<Rightarrow> ('o, 's) iter_fun \<Rightarrow> ('o, 's) iter_fun" where
  "hash_foreach_iter h func key value s =
     (if key = RNil then (Inr ST_CONTINUE, s)
      else case func key value s of
             (Inl e, s') \<Rightarrow> (Inl e, s')
           | (Inr st, s') \<Rightarrow> (Inr (if status h AND HASH_REHASHED \<noteq> 0 then ST_STOP else st), s'))"

definition hash_delete_nil :: "'o rval \<Rightarrow> 'o rval \<Rightarrow> unit \<Rightarrow> st_retval \<times> unit" where
  "hash_delete_nil key value s = (if key = RNil then ST_DELETE else ST_CONTINUE, s)"

definition hash_foreach_ensure :: "'o rhash \<Rightarrow> 'o rhash" where
  "hash_foreach_ensure h =
     (let h = h\<lparr>iter_lev := iter_lev h - 1\<rparr> in
      if iter_lev h = 0 then
        (if status h AND HASH_DELETED \<noteq> 0 then h\<lparr>tbl := fst (st_foreach (tbl h) hash_delete_nil ())\<rparr> else h)
        \<lparr>status := 0\<rparr>
      else h)"

text \<open>\<^verbatim>\<open>rb_ensure\<close> runs \<^verbatim>\<open>hash_foreach_ensure\<close> also when the callback raised.\<close>

definition hash_foreach :: "'o rhash \<Rightarrow> ('o, 's) iter_fun \<Rightarrow> 's \<Rightarrow> 'o rhash \<times> 's \<times> unit result" where
  "hash_foreach h func s =
     (let h = h\<lparr>iter_lev := iter_lev h + 1\<rparr> in
      case foreach_with (tbl h) (hash_foreach_iter h func) s of (t, s', x) \<Rightarrow>
        (hash_foreach_ensure (h\<lparr>tbl := t\<rparr>), s', case x of None \<Rightarrow> Inr () | Some e \<Rightarrow> Inl e))"

section \<open>Creation\<close>

definition new_hash :: "nat \<Rightarrow> 'o obj_table \<Rightarrow> 'o rhash" where
  "new_hash class t = \<lparr>klass = class, iter_lev = 0, status = 0, tbl = t\<rparr>"

definition hash_s_new :: "'o hash_env \<Rightarrow> 'o rval list \<Rightarrow> nat \<Rightarrow> 'o rhash result" where
  "hash_s_new E argv class =
     (if length argv > 1 then Inl (ArgError ''Wrong # of arguments (%d for %d)'')
      else bindR (case argv of [] \<Rightarrow> Inr 0 | sz # _ \<Rightarrow> if sz = RNil then Inr 0 else num2int E sz) (\<lambda>sz.
             Inr (new_hash class (st_init_table_with_size (objhash E) sz))))"

definition hash_new2 :: "'o hash_env \<Rightarrow> nat \<Rightarrow> 'o rhash result" where
  "hash_new2 E class = hash_s_new E [] class"

text \<open>The class Hash itself is number 0.\<close>

definition hash_new :: "'o hash_env \<Rightarrow> 'o rhash result" where
  "hash_new E = hash_new2 E 0"

fun insert_args :: "'o rval list \<Rightarrow> 'o obj_table \<Rightarrow> 'o obj_table result" where
  "insert_args (k # v # argv) t = bindR (st_insert t k v) (\<lambda>(t', _). insert_args argv t')"
| "insert_args argv t = Inr t"

text \<open>The arguments of \<^verbatim>\<open>Hash[...]\<close>: a single hash, or any other list.\<close>

datatype 'o create_args = HashArg "'o rhash" | Args "'o rval list"

definition hash_s_create :: "'o hash_env \<Rightarrow> 'o create_args \<Rightarrow> nat \<Rightarrow> 'o rhash result" where
  "hash_s_create E args class =
     (case args of
        HashArg h \<Rightarrow> Inr (if class = klass h then h else new_hash class (st_copy (tbl h)))
      | Args argv \<Rightarrow>
          if length argv mod 2 \<noteq> 0 then Inl (ArgError ''odd number args for Hash'')
          else bindR (hash_new2 E class) (\<lambda>h.
               bindR (insert_args argv (tbl h)) (\<lambda>t. Inr (h\<lparr>tbl := t\<rparr>))))"

definition hash_clone :: "'o rhash \<Rightarrow> 'o rhash" where
  "hash_clone h = new_hash (klass h) (st_copy (tbl h))"

definition hash_rehash_i :: "'o rval \<Rightarrow> 'o rval \<Rightarrow> 'o obj_table \<Rightarrow> 'o obj_table result" where
  "hash_rehash_i key value t =
     (if key \<noteq> RNil then bindR (st_insert t key value) (\<lambda>(t', _). Inr t') else Inr t)"

definition hash_rehash :: "'o hash_env \<Rightarrow> 'o rhash \<Rightarrow> 'o rhash result" where
  "hash_rehash E h =
     bindR (collect_with (tbl h) hash_rehash_i
              (st_init_table_with_size (objhash E) (num_entries (tbl h)))) (\<lambda>t.
       Inr (h\<lparr>tbl := t, status := (if iter_lev h > 0 then status h OR HASH_REHASHED else status h)\<rparr>))"

section \<open>Access\<close>

definition hash_aref :: "'o rhash \<Rightarrow> 'o rval \<Rightarrow> 'o rval result" where
  "hash_aref h key =
     bindR (st_lookup (tbl h) key) (\<lambda>r. Inr (case r of None \<Rightarrow> RNil | Some val \<Rightarrow> val))"

primrec indexes_fill :: "'o rhash \<Rightarrow> 'o rval list \<Rightarrow> int \<Rightarrow> 'o rval cells \<Rightarrow> 'o rval cells result" where
  "indexes_fill h [] i p = Inr p"
| "indexes_fill h (k # argv) i p =
     bindR (hash_aref h k) (\<lambda>v. bindR (set_cell p i v) (\<lambda>p. indexes_fill h argv (i + 1) p))"

definition hash_indexes :: "'o hash_env \<Rightarrow> 'o rhash \<Rightarrow> 'o rval list \<Rightarrow> 'o rval rarray result" where
  "hash_indexes E h argv =
     bindR (ary_new2 (h_ary E) (int (length argv))) (\<lambda>a.
     bindR (indexes_fill h argv 0 (block (ptr a))) (\<lambda>p.
       Inr ((with_ptr a p)\<lparr>alen := int (length argv)\<rparr>)))"

text \<open>The record that a deletion has stored through its pointer argument.\<close>

fun out_value :: "'o rval st_out \<Rightarrow> 'o rval" where
  "out_value (Out v) = v"
| "out_value _ = RNil"

definition hash_delete ::
    "'o hash_env \<Rightarrow> ('o, 's) ruby_block \<Rightarrow> 'o rhash \<Rightarrow> 'o rval \<Rightarrow> 's \<Rightarrow> 'o rhash \<times> 's \<times> 'o rval result" where
  "hash_delete E blk h key s =
     (case rb_secure E 5 of
        Inl e \<Rightarrow> (h, s, Inl e)
      | Inr _ \<Rightarrow>
          (case (if iter_lev h > 0 then st_delete_safe (tbl h) key RNil else Inr (tbl h, False, key, Untouched)) of
             Inl e \<Rightarrow> (h, s, Inl e)
           | Inr (t, True, _, out) \<Rightarrow> (h\<lparr>tbl := t\<rparr>, s, Inr (out_value out))
           | Inr (_, False, _, _) \<Rightarrow>
               (case st_delete (tbl h) key of
                  Inl e \<Rightarrow> (h, s, Inl e)
                | Inr (t, True, _, out) \<Rightarrow> (h\<lparr>tbl := t\<rparr>, s, Inr (out_value out))
                | Inr (_, False, _, _) \<Rightarrow>
                    if blk = None then (h, s, Inr RNil)
                    else case rb_yield blk key s of (r, s') \<Rightarrow> (h, s', bindR r (\<lambda>_. Inr RNil)))))"

definition shift_i ::
    "'o rval \<Rightarrow> 'o rval \<Rightarrow> ('o rval \<times> 'o rval) option \<Rightarrow> st_retval \<times> ('o rval \<times> 'o rval) option" where
  "shift_i key value var =
     (if key = RNil then (ST_CONTINUE, var)
      else if var \<noteq> None then (ST_STOP, var)
      else (ST_DELETE, Some (key, value)))"

definition hash_shift :: "'o hash_env \<Rightarrow> 'o rhash \<Rightarrow> ('o rhash \<times> 'o rval) result" where
  "hash_shift E h =
     bindR (rb_secure E 5) (\<lambda>_.
       case st_foreach (tbl h) shift_i None of (t, var) \<Rightarrow>
         Inr (h\<lparr>tbl := t\<rparr>, case var of None \<Rightarrow> RNil | Some (k, v) \<Rightarrow> RPair k v))"

definition delete_if_i :: "('o, 's) ruby_block \<Rightarrow> ('o, 's) iter_fun" where
  "delete_if_i blk key value s =
     (if key = RNil then (Inr ST_CONTINUE, s)
      else case rb_yield blk (RPair key value) s of
             (Inl e, s') \<Rightarrow> (Inl e, s')
           | (Inr r, s') \<Rightarrow> (Inr (if r \<noteq> RFalse then ST_DELETE else ST_CONTINUE), s'))"

definition hash_delete_if ::
    "'o hash_env \<Rightarrow> ('o, 's) ruby_block \<Rightarrow> 'o rhash \<Rightarrow> 's \<Rightarrow> 'o rhash \<times> 's \<times> unit result" where
  "hash_delete_if E blk h s =
     (case rb_secure E 5 of Inl e \<Rightarrow> (h, s, Inl e) | Inr _ \<Rightarrow> hash_foreach h (delete_if_i blk) s)"

definition clear_i :: "'o rval \<Rightarrow> 'o rval \<Rightarrow> unit \<Rightarrow> st_retval \<times> unit" where
  "clear_i key value s = (ST_DELETE, s)"

definition hash_clear :: "'o hash_env \<Rightarrow> 'o rhash \<Rightarrow> 'o rhash result" where
  "hash_clear E h = bindR (rb_secure E 5) (\<lambda>_. Inr (h\<lparr>tbl := fst (st_foreach (tbl h) clear_i ())\<rparr>))"

text \<open>\<^verbatim>\<open>hash_aset\<close>: storing \<^verbatim>\<open>nil\<close> deletes the key, and a String key is copied and frozen.\<close>

definition hash_aset ::
    "'o hash_env \<Rightarrow> ('o, 's) ruby_block \<Rightarrow> 'o rhash \<Rightarrow> 'o rval \<Rightarrow> 'o rval \<Rightarrow> 's \<Rightarrow> 'o rhash \<times> 's \<times> 'o rval result" where
  "hash_aset E blk h key val s =
     (case rb_secure E 5 of
        Inl e \<Rightarrow> (h, s, Inl e)
      | Inr _ \<Rightarrow>
          if val = RNil then
            (case hash_delete E blk h key s of (h', s', r) \<Rightarrow> (h', s', bindR r (\<lambda>_. Inr RNil)))
          else
            (case bindR (case key of RStr str \<Rightarrow> bindR (str_dup_freezed (h_str E) str) (\<lambda>d. Inr (RStr d))
                         | _ \<Rightarrow> Inr key) (\<lambda>key. st_insert (tbl h) key val) of
               Inl e \<Rightarrow> (h, s, Inl e)
             | Inr (t, _) \<Rightarrow> (h\<lparr>tbl := t\<rparr>, s, Inr val)))"

definition hash_length :: "'o rhash \<Rightarrow> int" where
  "hash_length h = num_entries (tbl h)"

definition hash_empty_p :: "'o rhash \<Rightarrow> bool" where
  "hash_empty_p h \<longleftrightarrow> num_entries (tbl h) = 0"

section \<open>Iteration\<close>

definition yielding :: "('o, 's) ruby_block \<Rightarrow> ('o rval \<Rightarrow> 'o rval \<Rightarrow> 'o rval) \<Rightarrow> ('o, 's) iter_fun" where
  "yielding blk what key value s =
     (if key = RNil then (Inr ST_CONTINUE, s)
      else case rb_yield blk (what key value) s of (r, s') \<Rightarrow> (bindR r (\<lambda>_. Inr ST_CONTINUE), s'))"

definition each_value_i :: "('o, 's) ruby_block \<Rightarrow> ('o, 's) iter_fun" where
  "each_value_i blk = yielding blk (\<lambda>key value. value)"

definition hash_each_value :: "('o, 's) ruby_block \<Rightarrow> 'o rhash \<Rightarrow> 's \<Rightarrow> 'o rhash \<times> 's \<times> unit result" where
  "hash_each_value blk h s = hash_foreach h (each_value_i blk) s"

definition each_key_i :: "('o, 's) ruby_block \<Rightarrow> ('o, 's) iter_fun" where
  "each_key_i blk = yielding blk (\<lambda>key value. key)"

definition hash_each_key :: "('o, 's) ruby_block \<Rightarrow> 'o rhash \<Rightarrow> 's \<Rightarrow> 'o rhash \<times> 's \<times> unit result" where
  "hash_each_key blk h s = hash_foreach h (each_key_i blk) s"

definition each_pair_i :: "('o, 's) ruby_block \<Rightarrow> ('o, 's) iter_fun" where
  "each_pair_i blk = yielding blk RPair"

definition hash_each_pair :: "('o, 's) ruby_block \<Rightarrow> 'o rhash \<Rightarrow> 's \<Rightarrow> 'o rhash \<times> 's \<times> unit result" where
  "hash_each_pair blk h s = hash_foreach h (each_pair_i blk) s"

definition to_a_i :: "'o hash_env \<Rightarrow> 'o rval \<Rightarrow> 'o rval \<Rightarrow> 'o rval rarray \<Rightarrow> 'o rval rarray result" where
  "to_a_i E key value a = (if key = RNil then Inr a else ary_push (h_ary E) a (RPair key value))"

definition hash_to_a :: "'o hash_env \<Rightarrow> 'o rhash \<Rightarrow> 'o rval rarray result" where
  "hash_to_a E h = bindR (ary_new (h_ary E)) (\<lambda>a. collect_with (tbl h) (to_a_i E) a)"

definition keys_i :: "'o hash_env \<Rightarrow> 'o rval \<Rightarrow> 'o rval \<Rightarrow> 'o rval rarray \<Rightarrow> 'o rval rarray result" where
  "keys_i E key value a = (if key = RNil then Inr a else ary_push (h_ary E) a key)"

definition hash_keys :: "'o hash_env \<Rightarrow> 'o rhash \<Rightarrow> 'o rval rarray result" where
  "hash_keys E h = bindR (ary_new (h_ary E)) (\<lambda>a. collect_with (tbl h) (keys_i E) a)"

definition values_i :: "'o hash_env \<Rightarrow> 'o rval \<Rightarrow> 'o rval \<Rightarrow> 'o rval rarray \<Rightarrow> 'o rval rarray result" where
  "values_i E key value a = (if key = RNil then Inr a else ary_push (h_ary E) a value)"

definition hash_values :: "'o hash_env \<Rightarrow> 'o rhash \<Rightarrow> 'o rval rarray result" where
  "hash_values E h = bindR (ary_new (h_ary E)) (\<lambda>a. collect_with (tbl h) (values_i E) a)"

text \<open>A C string literal as a block.\<close>

definition c_lit :: "string \<Rightarrow> u8 cells" where
  "c_lit s = map (\<lambda>c. Some (of_nat (of_char c))) s @ [Some 0]"

definition inspect_i :: "'o hash_env \<Rightarrow> 'o rval \<Rightarrow> 'o rval \<Rightarrow> rstring \<Rightarrow> rstring result" where
  "inspect_i E key value str =
     (if key = RNil then Inr str
      else bindR (if slen str > 1 then str_cat (h_str E) str (Some (c_lit '', '', 0)) 2 else Inr str) (\<lambda>str.
           bindR (inspect E key) (\<lambda>str2.
           bindR (str_cat (h_str E) str (Some (sptr str2, 0)) (slen str2)) (\<lambda>str.
           bindR (str_cat (h_str E) str (Some (c_lit ''=>'', 0)) 2) (\<lambda>str.
           bindR (inspect E value) (\<lambda>str2.
             str_cat (h_str E) str (Some (sptr str2, 0)) (slen str2)))))))"

definition hash_inspect :: "'o hash_env \<Rightarrow> 'o rhash \<Rightarrow> rstring result" where
  "hash_inspect E h =
     bindR (str_new (h_str E) (Some (c_lit ''{'', 0)) 1) (\<lambda>str.
     bindR (collect_with (tbl h) (inspect_i E) str) (\<lambda>str.
       str_cat (h_str E) str (Some (c_lit ''}'', 0)) 1))"

section \<open>Queries and comparison\<close>

definition hash_has_key :: "'o rhash \<Rightarrow> 'o rval \<Rightarrow> bool result" where
  "hash_has_key h key = bindR (st_lookup (tbl h) key) (\<lambda>r. Inr (r \<noteq> None))"

definition hash_search_value :: "'o hash_env \<Rightarrow> 'o rval \<Rightarrow> ('o, bool) iter_fun" where
  "hash_search_value E val key value data =
     (if key = RNil then (Inr ST_CONTINUE, data)
      else case rb_equal_obj E value val of
             Inl e \<Rightarrow> (Inl e, data)
           | Inr True \<Rightarrow> (Inr ST_STOP, True)
           | Inr False \<Rightarrow> (Inr ST_CONTINUE, data))"

definition hash_has_value :: "'o hash_env \<Rightarrow> 'o rhash \<Rightarrow> 'o rval \<Rightarrow> bool result" where
  "hash_has_value E h val =
     (case foreach_with (tbl h) (hash_search_value E val) False of
        (_, data, None) \<Rightarrow> Inr data
      | (_, _, Some e) \<Rightarrow> Inl e)"

definition equal_i :: "'o hash_env \<Rightarrow> 'o obj_table \<Rightarrow> ('o, bool) iter_fun" where
  "equal_i E t key val1 data =
     (if key = RNil then (Inr ST_CONTINUE, data)
      else case st_lookup t key of
             Inl e \<Rightarrow> (Inl e, data)
           | Inr None \<Rightarrow> (Inr ST_STOP, False)
           | Inr (Some val2) \<Rightarrow>
               (case rb_equal_obj E val1 val2 of
                  Inl e \<Rightarrow> (Inl e, data)
                | Inr False \<Rightarrow> (Inr ST_STOP, False)
                | Inr True \<Rightarrow> (Inr ST_CONTINUE, data)))"

text \<open>The argument is \<open>None\<close> when it is no hash.\<close>

definition hash_equal :: "'o hash_env \<Rightarrow> 'o rhash \<Rightarrow> 'o rhash option \<Rightarrow> bool result" where
  "hash_equal E hash1 arg =
     (case arg of
        None \<Rightarrow> Inr False
      | Some hash2 \<Rightarrow>
          if num_entries (tbl hash1) \<noteq> num_entries (tbl hash2) then Inr False
          else case foreach_with (tbl hash1) (equal_i E (tbl hash2)) True of
                 (_, result, None) \<Rightarrow> Inr result
               | (_, _, Some e) \<Rightarrow> Inl e)"

definition hash_invert_i :: "'o hash_env \<Rightarrow> 'o rval \<Rightarrow> 'o rval \<Rightarrow> 'o rhash \<Rightarrow> 'o rhash result" where
  "hash_invert_i E key value h =
     (if key = RNil then Inr h
      else case hash_aset E None h value key () of (h', _, Inr _) \<Rightarrow> Inr h' | (_, _, Inl e) \<Rightarrow> Inl e)"

definition hash_invert :: "'o hash_env \<Rightarrow> 'o rhash \<Rightarrow> 'o rhash result" where
  "hash_invert E h = bindR (hash_new E) (\<lambda>h'. collect_with (tbl h) (hash_invert_i E) h')"

section \<open>What hashes need of their keys\<close>

text \<open>
  Keys are Fixnums, Strings without zero bytes (\<^verbatim>\<open>str_cmp\<close> takes a zero byte for the end of the
  string), and the objects that satisfy \<open>P\<close>. Their \<^verbatim>\<open>eql?\<close> is an equivalence that never relates
  them to a Fixnum or a String, equal objects have the same \<^verbatim>\<open>hash\<close>, and neither method raises.
  The hash value is an unsigned number, so every key stays inside the bins.
\<close>

definition hash_key :: "('o rval \<Rightarrow> bool) \<Rightarrow> 'o rval \<Rightarrow> bool" where
  "hash_key P x =
     (case x of
        RFix w \<Rightarrow> True
      | RStr s \<Rightarrow> \<exists>bs. is_string s bs \<and> 0 \<notin> set bs
      | _ \<Rightarrow> P x)"

definition plain_kind :: "'o rval \<Rightarrow> nat" where
  "plain_kind x = (case x of RFix _ \<Rightarrow> 0 | RStr _ \<Rightarrow> 1 | _ \<Rightarrow> 2)"

text \<open>\<open>eql_true E x y\<close>: the method \<^verbatim>\<open>eql?\<close> of \<open>x\<close> returns something else than \<^verbatim>\<open>false\<close>.\<close>

definition eql_true :: "'o hash_env \<Rightarrow> 'o rval \<Rightarrow> 'o rval \<Rightarrow> bool" where
  "eql_true E x y \<longleftrightarrow> (\<exists>r. rb_eql E x y = Inr r \<and> r \<noteq> 0)"

locale key_objects =
  fixes E :: "'o hash_env" and P :: "'o rval \<Rightarrow> bool"
  assumes case_matters: "\<not> ignorecase (h_str E)"
    and eql_returns: "hash_key P x \<Longrightarrow> hash_key P y \<Longrightarrow> plain_kind x = 2 \<or> plain_kind x \<noteq> plain_kind y \<Longrightarrow>
      \<exists>r. rb_eql E x y = Inr r"
    and eql_kinds: "hash_key P x \<Longrightarrow> hash_key P y \<Longrightarrow> eql_true E x y \<Longrightarrow> plain_kind x = plain_kind y"
    and eql_refl: "plain_kind x = 2 \<Longrightarrow> P x \<Longrightarrow> eql_true E x x"
    and eql_sym: "plain_kind x = 2 \<Longrightarrow> plain_kind y = 2 \<Longrightarrow> P x \<Longrightarrow> P y \<Longrightarrow> eql_true E x y \<Longrightarrow> eql_true E y x"
    and eql_trans: "plain_kind x = 2 \<Longrightarrow> plain_kind y = 2 \<Longrightarrow> plain_kind z = 2 \<Longrightarrow> P x \<Longrightarrow> P y \<Longrightarrow> P z \<Longrightarrow>
      eql_true E x y \<Longrightarrow> eql_true E y z \<Longrightarrow> eql_true E x z"
    and hash_returns: "plain_kind x = 2 \<Longrightarrow> P x \<Longrightarrow> \<exists>w. obj_hash E x = Inr w"
    and hash_eql: "plain_kind x = 2 \<Longrightarrow> plain_kind y = 2 \<Longrightarrow> P x \<Longrightarrow> P y \<Longrightarrow> eql_true E x y \<Longrightarrow>
      obj_hash E x = obj_hash E y"

lemma str_cmp_same:
  assumes "\<not> ignorecase E" "is_string s bs" "is_string t cs" "0 \<notin> set bs" "0 \<notin> set cs"
  shows "\<exists>c. str_cmp E s t = Inr c \<and> (c = 0 \<longleftrightarrow> bs = cs)"
proof -
  note S = is_stringD [OF assms(2)] and T = is_stringD [OF assms(3)]
  let ?n = "min (length bs) (length cs)"
  have n: "min (slen s) (slen t) = int ?n" using S(1) T(1) by simp
  have h: "holds (drop (nat 0) (sptr s)) (take ?n bs)" "holds (drop (nat 0) (sptr t)) (take ?n cs)"
    using holds_prefix [of "sptr s" "take ?n bs" "drop ?n bs"] holds_prefix [of "sptr t" "take ?n cs" "drop ?n cs"]
      S(4) T(4) by simp_all
  have l: "length (take ?n bs) = length (take ?n cs)" by simp
  have m: "mem_compare (sptr s) 0 (sptr t) 0 ?n = Inr (bytes_diff (take ?n bs) (take ?n cs))"
    using mem_compare_ok [OF l h] by simp
  have x: "get_cell (sptr s) (int ?n) = Inr ((bs @ [0]) ! ?n)" "get_cell (sptr t) (int ?n) = Inr ((cs @ [0]) ! ?n)"
    using get_cell_holds [OF S(3), of "int ?n"] get_cell_holds [OF T(3), of "int ?n"] by auto
  have e: "(bs @ [0]) ! ?n = (cs @ [0]) ! ?n \<longleftrightarrow> length bs = length cs" if "take ?n bs = take ?n cs"
  proof (cases "length bs" "length cs" rule: linorder_cases)
    case less
    then have "cs ! length bs \<in> set cs" by simp
    then have "cs ! length bs \<noteq> 0" using assms(5) by metis
    with less show ?thesis by (auto simp: nth_append)
  next
    case greater
    then have "bs ! length cs \<in> set bs" by simp
    then have "bs ! length cs \<noteq> 0" using assms(4) by metis
    with greater show ?thesis by (auto simp: nth_append)
  qed (simp add: nth_append)
  have "bs = cs \<longleftrightarrow> take ?n bs = take ?n cs \<and> length bs = length cs" by auto
  then show ?thesis
    using e m x n assms(1) bytes_diff_0 [OF l] by (auto simp: str_cmp_def Let_def word_uint_eq_iff)
qed

lemma str_hash_contents:
  assumes "\<not> ignorecase E" "is_string s bs" "is_string t bs"
  shows "\<exists>w. str_hash E s = Inr w \<and> str_hash E t = Inr w"
proof -
  have "holds (drop (nat i) p) bs \<Longrightarrow> 0 \<le> i \<Longrightarrow>
      str_hash_loop id p i (length bs) k = Inr (fold (\<lambda>c k. k * 65599 + ucast c) bs k)" for p i k
  proof (induction bs arbitrary: i k)
    case (Cons b bs)
    from holds_drop_Cons [OF Cons.prems] Cons.IH [of "i + 1"] Cons.prems(2) show ?case by simp
  qed simp
  from this [of 0] show ?thesis
    using assms is_stringD [OF assms(2)] is_stringD [OF assms(3)] by (simp add: str_hash_def)
qed

lemma plain_kind_2: "plain_kind x = 2 \<longleftrightarrow> (\<forall>w. x \<noteq> RFix w) \<and> (\<forall>s. x \<noteq> RStr s)"
  by (auto simp: plain_kind_def split: rval.splits)

lemma hash_key_other: "plain_kind x = 2 \<Longrightarrow> hash_key P x = P x"
  by (auto simp: hash_key_def plain_kind_def split: rval.splits)

lemma any_cmp_other:
  "plain_kind x = 2 \<or> plain_kind x \<noteq> plain_kind y \<Longrightarrow>
     any_cmp E x y = bindR (rb_eql E x y) (\<lambda>r. Inr (if r = 0 then 1 else 0))"
  by (cases "(E, x, y)" rule: any_cmp.cases) (auto simp: plain_kind_def)

lemma any_hash_other:
  "plain_kind x = 2 \<Longrightarrow> any_hash E x m = bindR (obj_hash E x) (\<lambda>h. Inr (uint h mod m))"
  by (auto simp: any_hash_def plain_kind_2 split: rval.splits)

context key_objects
begin

lemma any_cmp_kinds:
  assumes "hash_key P x" "hash_key P y" "plain_kind x \<noteq> plain_kind y"
  shows "\<exists>c. any_cmp E x y = Inr c \<and> c \<noteq> 0"
proof -
  obtain r where r: "rb_eql E x y = Inr r" using eql_returns assms by blast
  with eql_kinds [OF assms(1,2)] assms(3) have "r = 0" by (auto simp: eql_true_def)
  with r show ?thesis using any_cmp_other [of x y E] assms(3) by simp
qed

text \<open>The three ways in which two keys are equal for the table.\<close>

lemma EQUAL_num: "EQUAL (objhash E) (RFix a) (RFix b) \<longleftrightarrow> a = b"
  by (simp add: EQUAL_def objhash_def returned_def)

lemma EQUAL_str:
  assumes "hash_key P (RStr s)" "hash_key P (RStr t)"
  shows "EQUAL (objhash E) (RStr s) (RStr t) \<longleftrightarrow> (\<exists>bs. is_string s bs \<and> is_string t bs)"
proof -
  from assms obtain bs cs where b: "is_string s bs" "0 \<notin> set bs" "is_string t cs" "0 \<notin> set cs"
    by (auto simp: hash_key_def)
  from str_cmp_same [OF case_matters b(1,3,2,4)] obtain c where
    "str_cmp (h_str E) s t = Inr c" "c = 0 \<longleftrightarrow> bs = cs" by blast
  then have "EQUAL (objhash E) (RStr s) (RStr t) \<longleftrightarrow> bs = cs"
    by (simp add: EQUAL_def objhash_def returned_def)
  also have "\<dots> \<longleftrightarrow> (\<exists>bs. is_string s bs \<and> is_string t bs)"
    using b is_string_unique by metis
  finally show ?thesis .
qed

lemma EQUAL_other:
  assumes "hash_key P x" "hash_key P y" "plain_kind x = 2"
  shows "EQUAL (objhash E) x y \<longleftrightarrow> eql_true E x y"
proof -
  obtain r where "rb_eql E x y = Inr r" using eql_returns assms by blast
  then show ?thesis
    using assms(3) by (simp add: EQUAL_def objhash_def returned_def any_cmp_other eql_true_def)
qed

lemma EQUAL_kinds:
  assumes "hash_key P x" "hash_key P y" "EQUAL (objhash E) x y"
  shows "plain_kind x = plain_kind y"
proof (rule ccontr)
  assume "plain_kind x \<noteq> plain_kind y"
  from any_cmp_kinds [OF assms(1,2) this] assms(3) show False
    by (auto simp: EQUAL_def objhash_def returned_def)
qed

lemma EQUAL_cases:
  assumes "hash_key P x" "hash_key P y" "EQUAL (objhash E) x y"
  obtains (num) a where "x = RFix a" "y = RFix a"
  | (str) s t bs where "x = RStr s" "y = RStr t" "is_string s bs" "is_string t bs"
  | (other) "plain_kind x = 2" "plain_kind y = 2" "P x" "P y" "eql_true E x y"
proof -
  note kinds = EQUAL_kinds [OF assms]
  consider (n) a where "x = RFix a" | (s) s where "x = RStr s" | (o) "plain_kind x = 2"
    by (auto simp: plain_kind_2)
  then show thesis
  proof cases
    case n
    with kinds obtain b where "y = RFix b" by (auto simp: plain_kind_def split: rval.splits)
    with n assms(3) num show thesis by (simp add: EQUAL_num)
  next
    case (s s')
    with kinds obtain t where "y = RStr t" by (auto simp: plain_kind_def split: rval.splits)
    with s assms str EQUAL_str show thesis by blast
  next
    case o
    with kinds EQUAL_other [OF assms(1,2)] assms other hash_key_other show thesis by metis
  qed
qed

lemma any_hash_returns:
  assumes "hash_key P x"
  shows "\<exists>w. \<forall>m. any_hash E x m = Inr (uint (w :: u32) mod m)"
proof (cases "plain_kind x = 2")
  case True
  with hash_returns [OF True] assms obtain w where "obj_hash E x = Inr w" by (auto simp: hash_key_other)
  with True show ?thesis by (auto simp: any_hash_other)
next
  case False
  then consider (num) w where "x = RFix w" | (str) s where "x = RStr s" by (auto simp: plain_kind_2)
  then show ?thesis
  proof cases
    case num
    then show ?thesis by (auto simp: any_hash_def)
  next
    case str
    with assms obtain bs where "is_string s bs" by (auto simp: hash_key_def)
    with str_hash_contents [OF case_matters this this] str show ?thesis by (auto simp: any_hash_def)
  qed
qed

lemma any_hash_equal:
  assumes "hash_key P x" "hash_key P y" "EQUAL (objhash E) x y"
  shows "any_hash E x m = any_hash E y m"
  using assms
proof (cases rule: EQUAL_cases)
  case (str s t bs)
  with str_hash_contents [OF case_matters str(3,4)] show ?thesis by (auto simp: any_hash_def)
next
  case other
  with hash_eql show ?thesis by (simp add: any_hash_other)
qed simp

lemma EQUAL_refl_key:
  assumes "hash_key P x" shows "EQUAL (objhash E) x x"
proof (cases "plain_kind x = 2")
  case True
  then show ?thesis using EQUAL_other [OF assms assms] eql_refl [OF True] assms hash_key_other by blast
next
  case False
  then consider (num) w where "x = RFix w" | (str) s where "x = RStr s" by (auto simp: plain_kind_2)
  then show ?thesis
  proof cases
    case str
    then show ?thesis using EQUAL_str assms by (fastforce simp: hash_key_def)
  qed (simp add: EQUAL_num)
qed

lemma EQUAL_sym_key:
  assumes "hash_key P x" "hash_key P y" "EQUAL (objhash E) x y"
  shows "EQUAL (objhash E) y x"
  using assms
proof (cases rule: EQUAL_cases)
  case (str s t bs)
  then show ?thesis using EQUAL_str assms by blast
next
  case other
  then show ?thesis using EQUAL_other [OF assms(2,1)] eql_sym by blast
qed (simp add: EQUAL_num)

lemma EQUAL_trans_key:
  assumes "hash_key P x" "hash_key P y" "hash_key P z" "EQUAL (objhash E) x y" "EQUAL (objhash E) y z"
  shows "EQUAL (objhash E) x z"
  using assms(1,2,4)
proof (cases rule: EQUAL_cases)
  case (num a)
  then show ?thesis using assms(5) by simp
next
  case (str s t bs)
  from assms(2,3,5) str(2) obtain u cs where "z = RStr u" "is_string t cs" "is_string u cs"
    by (cases rule: EQUAL_cases) (auto simp: plain_kind_def)
  then show ?thesis using EQUAL_str is_string_unique [OF str(4)] str(1,3) assms(1,3) by blast
next
  case other
  from assms(2,3,5) other(2) have "plain_kind z = 2" "P z" "eql_true E y z"
    by (cases rule: EQUAL_cases; simp add: plain_kind_def)+
  then show ?thesis using other EQUAL_other [OF assms(1,3)] eql_trans by blast
qed

end

sublocale key_objects \<subseteq> hash_type "objhash E" "hash_key P"
proof
  fix x and m :: int
  assume x: "hash_key P x"
  show "EQUAL (objhash E) x x" by (rule EQUAL_refl_key [OF x])
  obtain w where w: "\<forall>m. any_hash E x m = Inr (uint (w :: u32) mod m)" using any_hash_returns [OF x] by blast
  show "0 < m \<Longrightarrow> 0 \<le> hash (objhash E) x m \<and> hash (objhash E) x m < m"
    using w by (simp add: objhash_def returned_def)
next
  fix x y and m :: int
  assume xy: "hash_key P x" "hash_key P y" "EQUAL (objhash E) x y"
  then show "EQUAL (objhash E) y x" by (rule EQUAL_sym_key)
  show "hash (objhash E) x m = hash (objhash E) y m"
    using any_hash_equal [OF xy] by (simp add: objhash_def)
next
  fix x y z
  assume "hash_key P x" "hash_key P y" "hash_key P z" "EQUAL (objhash E) x y" "EQUAL (objhash E) y z"
  then show "EQUAL (objhash E) x z" by (rule EQUAL_trans_key)
qed

section \<open>Iteration as a fold over the cells\<close>

fun fold_cells :: "('k \<Rightarrow> 'v \<Rightarrow> 's \<Rightarrow> 's result) \<Rightarrow> ('k \<times> 'v) list \<Rightarrow> 's \<Rightarrow> 's result" where
  "fold_cells f [] s = Inr s"
| "fold_cells f ((k, v) # es) s = bindR (f k v s) (fold_cells f es)"

lemma fold_cells_append: "fold_cells f (xs @ ys) s = bindR (fold_cells f xs s) (fold_cells f ys)"
proof (induction xs arbitrary: s)
  case (Cons e xs)
  then show ?case by (cases e; cases "f (fst e) (snd e) s") auto
qed simp

lemma foreach_chain_working:
  "(\<exists>s'. fold_cells f c s = Inr s' \<and> foreach_chain (raising (working f)) c (s, None) = (c, 0, (s', None), False)) \<or>
   (\<exists>e s'. fold_cells f c s = Inl e \<and> foreach_chain (raising (working f)) c (s, None) = (c, 0, (s', Some e), True))"
proof (induction c arbitrary: s)
  case (Cons e c)
  obtain k v where e: "e = (k, v)" by (cases e)
  show ?case
  proof (cases "f k v s")
    case (Inr s1)
    then show ?thesis using Cons.IH [of s1] e by (auto simp: raising_def working_def)
  qed (simp add: e raising_def working_def)
qed simp

lemma foreach_bins_working:
  "(\<exists>s'. fold_cells f (concat cs) s = Inr s' \<and> foreach_bins (raising (working f)) cs (s, None) = (cs, 0, (s', None))) \<or>
   (\<exists>e s'. fold_cells f (concat cs) s = Inl e \<and> foreach_bins (raising (working f)) cs (s, None) = (cs, 0, (s', Some e)))"
proof (induction cs arbitrary: s)
  case (Cons c cs)
  from foreach_chain_working [of f c s] show ?case
  proof
    assume "\<exists>s'. fold_cells f c s = Inr s' \<and> foreach_chain (raising (working f)) c (s, None) = (c, 0, (s', None), False)"
    then obtain s1 where "fold_cells f c s = Inr s1" "foreach_chain (raising (working f)) c (s, None) = (c, 0, (s1, None), False)"
      by blast
    then show ?thesis using Cons.IH [of s1] by (auto simp: fold_cells_append)
  qed (auto simp: fold_cells_append)
qed simp

lemma collect_with_fold: "collect_with t f s = fold_cells f (concat (bins t)) s"
  using foreach_bins_working [of f "bins t" s] by (auto simp: collect_with_def foreach_with_def st_foreach_def)

lemma fold_cells_skip:
  assumes "\<And>k v s. \<not> Q k \<Longrightarrow> f k v s = Inr s"
  shows "fold_cells f es s = fold_cells f (filter (Q \<circ> fst) es) s"
proof (induction es arbitrary: s)
  case (Cons e es)
  obtain k v where e: "e = (k, v)" by (cases e)
  show ?case
  proof (cases "Q k")
    case True
    then show ?thesis using Cons.IH e by (cases "f k v s") auto
  next
    case False
    then show ?thesis using Cons.IH e assms by simp
  qed
qed simp

text \<open>The cells that iteration shows: \<^verbatim>\<open>nil\<close> keys are taken for deleted cells.\<close>

definition hash_cells :: "'o rhash \<Rightarrow> ('o rval \<times> 'o rval) list" where
  "hash_cells h = filter ((\<lambda>k. k \<noteq> RNil) \<circ> fst) (concat (bins (tbl h)))"

definition is_hash :: "'o hash_env \<Rightarrow> ('o rval \<Rightarrow> bool) \<Rightarrow> 'o rhash \<Rightarrow> bool" where
  "is_hash E P h \<longleftrightarrow> key_table (objhash E) (hash_key P) (tbl h)"

definition h_usable :: "'o hash_env \<Rightarrow> bool" where
  "h_usable E \<longleftrightarrow> s_usable (h_str E) \<and> usable (h_ary E)"

lemma rb_secure_ok [simp]: "h_usable E \<Longrightarrow> rb_secure E 5 = Inr ()"
  by (simp add: rb_secure_def h_usable_def s_usable_def)

text \<open>The value that \<^verbatim>\<open>[]\<close> shows for an entry that may be absent.\<close>

definition or_nil :: "'o rval option \<Rightarrow> 'o rval" where
  "or_nil r = (case r of None \<Rightarrow> RNil | Some v \<Rightarrow> v)"

lemma or_nil_simps [simp]: "or_nil None = RNil" "or_nil (Some v) = v"
  by (simp_all add: or_nil_def)

lemma hash_key_RNil: "hash_key P RNil = P RNil"
  by (simp add: hash_key_def)

lemma hash_cells_all:
  assumes "is_hash E P h" "\<not> P RNil"
  shows "hash_cells h = concat (bins (tbl h))"
proof -
  have "list_all (\<lambda>e. hash_key P (fst e)) (concat (bins (tbl h)))"
    using assms(1) by (fastforce simp: is_hash_def key_table_def st_wf_def list_all_iff in_set_conv_nth [of _ "bins (tbl h)"])
  then show ?thesis
    using assms(2) hash_key_RNil by (force simp: hash_cells_def list_all_iff intro!: filter_True)
qed

context key_objects
begin

lemma hash_lookup:
  assumes "is_hash E P h" "hash_key P k"
  shows "st_lookup (tbl h) k = Inr (st_assoc (tbl h) k)"
  using assms by (simp add: lookup_assoc is_hash_def key_table_def)

lemma hash_bin: "is_hash E P h \<Longrightarrow> hash_key P k \<Longrightarrow> in_block (bins (tbl h)) (do_hash k (tbl h))"
  by (simp add: is_hash_def key_table_def wf_hash)

lemma hash_aref_assoc:
  "is_hash E P h \<Longrightarrow> hash_key P k \<Longrightarrow> hash_aref h k = Inr (or_nil (st_assoc (tbl h) k))"
  by (simp add: hash_aref_def hash_lookup or_nil_def)

lemma new_is_hash: "is_hash E P (new_hash c (st_init_table_with_size (objhash E) n))"
  by (simp add: is_hash_def new_hash_def key_table_def st_init_table_with_size_def Let_def empty_table_ok)

lemma insert_cells:
  assumes "key_table (objhash E) (hash_key P) t" "list_all (\<lambda>e. hash_key P (fst e)) es"
  shows "\<exists>t'. fold_cells (\<lambda>k v t. bindR (st_insert t k v) (\<lambda>(t', _). Inr t')) es t = Inr t' \<and>
    key_table (objhash E) (hash_key P) t' \<and>
    (\<forall>k. hash_key P k \<longrightarrow> st_assoc t' k =
       (case first_record (filter (matches (objhash E) k) (rev es)) of None \<Rightarrow> st_assoc t k | Some v \<Rightarrow> Some v))"
  using assms
proof (induction es arbitrary: t)
  case (Cons e es)
  obtain k v where e: "e = (k, v)" by (cases e)
  have t: "st_wf (hash_key P) t" "type_of t = objhash E" "st_unique t" and k: "hash_key P k"
    using Cons.prems e by (simp_all add: key_table_def)
  from insert_refines [OF t k, of v] obtain t1 where t1: "st_insert t k v = Inr (t1, st_assoc t k \<noteq> None)"
    "key_table (objhash E) (hash_key P) t1"
    "\<forall>k'. hash_key P k' \<longrightarrow> st_assoc t1 k' = (if EQUAL (objhash E) k' k then Some v else st_assoc t k')"
    by (auto simp: key_table_def)
  from Cons.IH [OF t1(2)] Cons.prems(2) obtain t' where t':
    "fold_cells (\<lambda>k v t. bindR (st_insert t k v) (\<lambda>(t', _). Inr t')) es t1 = Inr t'"
    "key_table (objhash E) (hash_key P) t'"
    "\<forall>k'. hash_key P k' \<longrightarrow> st_assoc t' k' =
       (case first_record (filter (matches (objhash E) k') (rev es)) of None \<Rightarrow> st_assoc t1 k' | Some v \<Rightarrow> Some v)" by auto
  have f: "first_record (xs @ ys) = (case first_record xs of None \<Rightarrow> first_record ys | Some v \<Rightarrow> Some v)"
    for xs ys :: "('k \<times> 'v) list" by (cases xs) auto
  show ?case
    using t1(1,3) t' matches_def [of "objhash E" _ "(k, v)"] by (auto simp: e f split: option.splits)
qed simp

lemma rehash_ok_hash:
  assumes "list_all (\<lambda>e. hash_key P (fst e)) (hash_cells h)"
  shows "\<exists>h'. hash_rehash E h = Inr h' \<and> is_hash E P h' \<and> iter_lev h' = iter_lev h \<and>
    (\<forall>k. hash_key P k \<longrightarrow> st_assoc (tbl h') k = first_record (filter (matches (objhash E) k) (rev (hash_cells h))))"
proof -
  let ?t = "st_init_table_with_size (objhash E) (num_entries (tbl h)) :: 'o obj_table"
  let ?f = "\<lambda>k v t. bindR (st_insert t k v) (\<lambda>(t', _). Inr t')"
  have t: "key_table (objhash E) (hash_key P) ?t" "\<And>k. st_assoc ?t k = None"
    by (simp_all add: key_table_def st_init_table_with_size_def Let_def empty_table_ok)
  have "collect_with (tbl h) hash_rehash_i ?t = fold_cells hash_rehash_i (hash_cells h) ?t"
    unfolding collect_with_fold hash_cells_def by (rule fold_cells_skip) (simp add: hash_rehash_i_def)
  also have "\<dots> = fold_cells ?f (hash_cells h) ?t"
  proof -
    have "\<forall>e\<in>set es. fst e \<noteq> RNil \<Longrightarrow> fold_cells hash_rehash_i es t = fold_cells ?f es t" for es and t :: "'o obj_table"
      by (induction es arbitrary: t rule: list.induct)
        (auto simp: hash_rehash_i_def fun_eq_iff intro!: arg_cong2 [where f = bindR])
    then show ?thesis by (simp add: hash_cells_def)
  qed
  finally show ?thesis
    using insert_cells [OF t(1) assms] t(2) by (auto simp: hash_rehash_def is_hash_def split: option.splits)
qed

end

section \<open>Hashes implement maps\<close>

text \<open>
  A client's calls. The specification is a map on keys in which equal keys share an entry:
  \<open>map_put\<close> changes the entry of every key that is equal to \<open>k\<close>.
\<close>

datatype 'o hash_op = Aset "'o rval" "'o rval" | Remove "'o rval" | Clear | Rehash | Clone

fun hash_do :: "'o hash_env \<Rightarrow> 'o rhash \<Rightarrow> 'o hash_op \<Rightarrow> 'o rhash result" where
  "hash_do E h (Aset k v) = (case hash_aset E None h k v () of (h', _, r) \<Rightarrow> bindR r (\<lambda>_. Inr h'))"
| "hash_do E h (Remove k) = (case hash_delete E None h k () of (h', _, r) \<Rightarrow> bindR r (\<lambda>_. Inr h'))"
| "hash_do E h Clear = hash_clear E h"
| "hash_do E h Rehash = hash_rehash E h"
| "hash_do E h Clone = Inr (hash_clone h)"

fun hash_run :: "'o hash_env \<Rightarrow> 'o rhash \<Rightarrow> 'o hash_op list \<Rightarrow> 'o rhash result" where
  "hash_run E h [] = Inr h"
| "hash_run E h (x # xs) = bindR (hash_do E h x) (\<lambda>h'. hash_run E h' xs)"

definition map_put ::
    "'o hash_env \<Rightarrow> ('o rval \<Rightarrow> 'o rval option) \<Rightarrow> 'o rval \<Rightarrow> 'o rval option \<Rightarrow> 'o rval \<Rightarrow> 'o rval option" where
  "map_put E m k v = (\<lambda>k'. if EQUAL (objhash E) k' k then v else m k')"

fun map_do :: "'o hash_env \<Rightarrow> ('o rval \<Rightarrow> 'o rval option) \<Rightarrow> 'o hash_op \<Rightarrow> 'o rval \<Rightarrow> 'o rval option" where
  "map_do E m (Aset k v) = map_put E m k (if v = RNil then None else Some v)"
| "map_do E m (Remove k) = map_put E m k None"
| "map_do E m Clear = (\<lambda>_. None)"
| "map_do E m Rehash = m"
| "map_do E m Clone = m"

fun op_ok :: "('o rval \<Rightarrow> bool) \<Rightarrow> 'o hash_op \<Rightarrow> bool" where
  "op_ok P (Aset k v) = hash_key P k"
| "op_ok P (Remove k) = hash_key P k"
| "op_ok P _ = True"

text \<open>\<open>h\<close> is a hash that is not iterated and stands for the map \<open>m\<close>.\<close>

definition stands_for :: "'o hash_env \<Rightarrow> ('o rval \<Rightarrow> bool) \<Rightarrow> 'o rhash \<Rightarrow> ('o rval \<Rightarrow> 'o rval option) \<Rightarrow> bool" where
  "stands_for E P h m \<longleftrightarrow> is_hash E P h \<and> iter_lev h = 0 \<and> (\<forall>k. hash_key P k \<longrightarrow> st_assoc (tbl h) k = m k)"

lemma st_foreach_clear:
  "st_foreach t clear_i () = (t\<lparr>bins := map (\<lambda>_. []) (bins t), num_entries := num_entries t - int (length (concat (bins t)))\<rparr>, ())"
  using st_foreach_filter [of clear_i "\<lambda>_ _. True" "\<lambda>_ s. s" t "()"] by (simp add: clear_i_def case_prod_beta')

context key_objects
begin

lemma delete_stands:
  assumes "stands_for E P h m" "hash_key P k" "h_usable E"
  shows "\<exists>h'. hash_delete E None h k s = (h', s, Inr (or_nil (m k))) \<and> stands_for E P h' (map_put E m k None)"
proof -
  have t: "st_wf (hash_key P) (tbl h)" "type_of (tbl h) = objhash E" "st_unique (tbl h)"
    using assms(1) by (simp_all add: stands_for_def is_hash_def key_table_def)
  from delete_refines [OF t assms(2)] obtain t' key' out where d:
    "st_delete (tbl h) k = Inr (t', st_assoc (tbl h) k \<noteq> None, key', out)"
    "key_table (objhash E) (hash_key P) t'"
    "\<forall>k'. hash_key P k' \<longrightarrow> st_assoc t' k' = (if EQUAL (objhash E) k' k then None else st_assoc (tbl h) k')"
    "\<forall>v. st_assoc (tbl h) k = Some v \<longrightarrow> out = Out v" by (auto simp: key_table_def)
  have m: "st_assoc (tbl h) k = m k" and i: "iter_lev h = 0" using assms(1,2) by (simp_all add: stands_for_def)
  show ?thesis
  proof (cases "m k")
    case None
    have none: "m k' = None" if "hash_key P k'" "EQUAL (objhash E) k' k" for k'
    proof -
      have "list_all (\<lambda>e. hash_key P (fst e)) (concat (bins (tbl h)))" using wf_keys [OF t(1)] .
      from filter_matches_cong [OF this that(1) assms(2) that(2)] have "st_assoc (tbl h) k' = st_assoc (tbl h) k"
        by (simp add: st_assoc_def t(2))
      then show ?thesis using None m that(1) assms(1) by (simp add: stands_for_def)
    qed
    then have "stands_for E P h (map_put E m k None)" using assms(1) by (auto simp: stands_for_def map_put_def)
    with None show ?thesis using d(1) m assms(3) i by (auto simp: hash_delete_def)
  next
    case (Some v)
    then have "stands_for E P (h\<lparr>tbl := t'\<rparr>) (map_put E m k None)"
      using assms(1) d(2,3) by (auto simp: stands_for_def is_hash_def map_put_def)
    with Some show ?thesis using d(1,4) m assms(3) i by (auto simp: hash_delete_def)
  qed
qed

lemma aset_stands:
  assumes "stands_for E P h m" "hash_key P k" "h_usable E" "v \<noteq> RNil"
  shows "\<exists>h'. hash_aset E None h k v s = (h', s, Inr v) \<and> stands_for E P h' (map_put E m k (Some v))"
proof -
  obtain k1 where k1: "(case k of RStr str \<Rightarrow> bindR (str_dup_freezed (h_str E) str) (\<lambda>d. Inr (RStr d)) | _ \<Rightarrow> Inr k) = Inr k1"
    "hash_key P k1" "EQUAL (objhash E) k k1"
  proof (cases k)
    case (RStr str)
    with assms(2) obtain bs where bs: "is_string str bs" "0 \<notin> set bs" by (auto simp: hash_key_def)
    from str_dup_ok [of "h_str E" str bs] bs assms(3) obtain d where
      "str_dup (h_str E) str = Inr d" "is_string d bs" by (auto simp: h_usable_def)
    then have d: "str_dup_freezed (h_str E) str = Inr (str_freeze d)" "is_string (str_freeze d) bs"
      by (simp_all add: str_dup_freezed_def str_freeze_def is_string_def)
    then have "hash_key P (RStr (str_freeze d))" using bs by (auto simp: hash_key_def)
    with d RStr that [of "RStr (str_freeze d)"] EQUAL_str assms(2) bs show thesis by auto
  qed (use assms(2) EQUAL_refl_key [OF assms(2)] that in auto)
  have t: "st_wf (hash_key P) (tbl h)" "type_of (tbl h) = objhash E" "st_unique (tbl h)"
    using assms(1) by (simp_all add: stands_for_def is_hash_def key_table_def)
  from insert_refines [OF t k1(2), of v] obtain t' where t':
    "st_insert (tbl h) k1 v = Inr (t', st_assoc (tbl h) k1 \<noteq> None)" "key_table (objhash E) (hash_key P) t'"
    "\<forall>k'. hash_key P k' \<longrightarrow> st_assoc t' k' = (if EQUAL (objhash E) k' k1 then Some v else st_assoc (tbl h) k')"
    by (auto simp: key_table_def)
  have "EQUAL (objhash E) k' k1 \<longleftrightarrow> EQUAL (objhash E) k' k" if "hash_key P k'" for k'
    using that k1 assms(2) EQUAL_trans_key EQUAL_sym_key by blast
  then have "stands_for E P (h\<lparr>tbl := t'\<rparr>) (map_put E m k (Some v))"
    using assms(1) t' by (auto simp: stands_for_def is_hash_def map_put_def)
  then show ?thesis using assms(3,4) k1(1) t'(1) by (simp add: hash_aset_def)
qed

lemma clear_stands:
  assumes "stands_for E P h m" "h_usable E"
  shows "\<exists>h'. hash_clear E h = Inr h' \<and> stands_for E P h' (\<lambda>_. None)"
proof -
  let ?t = "fst (st_foreach (tbl h) clear_i ())"
  have f: "st_foreach (tbl h) clear_i () = (?t, ())" by (simp add: prod_eq_iff)
  have "key_table (objhash E) (hash_key P) ?t"
    using st_foreach_wf [OF _ f] st_foreach_unique [OF _ f] assms(1)
    by (auto simp: stands_for_def is_hash_def key_table_def)
  moreover have "concat (bins ?t) = []" by (simp add: st_foreach_clear)
  then have "st_assoc ?t k = None" for k unfolding st_assoc_def by (simp only: filter.simps first_record_simps)
  ultimately show ?thesis using assms by (simp add: hash_clear_def stands_for_def is_hash_def)
qed

lemma unique_last:
  assumes "is_hash E P h" "\<not> P RNil" "hash_key P k"
  shows "first_record (filter (matches (objhash E) k) (rev (hash_cells h))) = st_assoc (tbl h) k"
proof -
  let ?es = "concat (bins (tbl h))"
  have t: "st_wf (hash_key P) (tbl h)" "type_of (tbl h) = objhash E" "st_unique (tbl h)"
    using assms(1) by (simp_all add: is_hash_def key_table_def)
  have "length (filter (matches (objhash E) k) ?es) \<le> 1"
    using unique_iff [OF wf_keys [OF t(1)]] t(3) assms(3) by (simp add: st_unique_def t(2))
  then have "filter (matches (objhash E) k) (rev ?es) = filter (matches (objhash E) k) ?es"
    by (cases "filter (matches (objhash E) k) ?es") (auto simp flip: rev_filter)
  then show ?thesis by (simp add: hash_cells_all [OF assms(1,2)] st_assoc_def t(2))
qed

lemma rehash_stands:
  assumes "stands_for E P h m" "\<not> P RNil"
  shows "\<exists>h'. hash_rehash E h = Inr h' \<and> stands_for E P h' m"
proof -
  have h: "is_hash E P h" using assms(1) by (simp add: stands_for_def)
  then have "st_wf (hash_key P) (tbl h)" by (simp add: is_hash_def key_table_def)
  from wf_keys [OF this] have "list_all (\<lambda>e. hash_key P (fst e)) (hash_cells h)"
    by (simp add: hash_cells_all [OF h assms(2)])
  from rehash_ok_hash [OF this] show ?thesis
    using assms(1) unique_last [OF h assms(2)] by (auto simp: stands_for_def)
qed

lemma clone_stands: "stands_for E P h m \<Longrightarrow> stands_for E P (hash_clone h) m"
  using copy_refines [of "tbl h"] by (simp add: stands_for_def hash_clone_def new_hash_def is_hash_def key_table_def)

lemma run_stands:
  assumes "stands_for E P h m" "h_usable E" "\<not> P RNil" "list_all (op_ok P) xs"
  shows "\<exists>h'. hash_run E h xs = Inr h' \<and> stands_for E P h' (foldl (map_do E) m xs)"
  using assms(1,4)
proof (induction xs arbitrary: h m)
  case (Cons x xs)
  have "\<exists>h'. hash_do E h x = Inr h' \<and> stands_for E P h' (map_do E m x)"
  proof (cases x)
    case (Aset k v)
    then have k: "hash_key P k" using Cons.prems by simp
    show ?thesis
    proof (cases "v = RNil")
      case True
      from delete_stands [OF Cons.prems(1) k assms(2), of "()"] show ?thesis
        using Aset True assms(2) by (auto simp: hash_aset_def)
    next
      case False
      from aset_stands [OF Cons.prems(1) k assms(2) False, of "()"] show ?thesis using Aset False by auto
    qed
  next
    case (Remove k)
    with delete_stands [OF Cons.prems(1) _ assms(2), of k "()"] Cons.prems show ?thesis by auto
  qed (use clear_stands [OF Cons.prems(1) assms(2)] rehash_stands [OF Cons.prems(1) assms(3)]
        clone_stands [OF Cons.prems(1)] in auto)
  then obtain h' where "hash_do E h x = Inr h'" "stands_for E P h' (map_do E m x)" by blast
  with Cons.IH [OF this(2)] Cons.prems(2) show ?case by simp
qed simp

end

section \<open>Cells and comparison\<close>

lemma short_list_eq: "length xs \<le> 1 \<Longrightarrow> x \<in> set xs \<Longrightarrow> y \<in> set xs \<Longrightarrow> x = y"
  by (cases xs) auto

text \<open>A callback that goes on at the cells that satisfy \<open>good\<close> and stops with the answer \<open>x\<close> at others.\<close>

lemma foreach_chain_search:
  assumes "\<And>k v d. (k, v) \<in> set c \<Longrightarrow> func k v d = (if good (k, v) then (Inr ST_CONTINUE, d) else (Inr ST_STOP, x))"
  shows "foreach_chain (raising func) c (d, None) = (c, 0, (if list_all good c then d else x, None), \<not> list_all good c)"
  using assms
proof (induction c)
  case (Cons e c)
  obtain k v where e: "e = (k, v)" by (cases e)
  have "foreach_chain (raising func) c (d, None) = (c, 0, (if list_all good c then d else x, None), \<not> list_all good c)"
    using Cons by auto
  then show ?case using Cons.prems [of k v d] e by (auto simp: raising_def [of _ k])
qed simp

lemma foreach_search:
  assumes "\<And>k v d. (k, v) \<in> set (concat (bins t)) \<Longrightarrow>
      func k v d = (if good (k, v) then (Inr ST_CONTINUE, d) else (Inr ST_STOP, x))"
  shows "foreach_with t func d = (t, if list_all good (concat (bins t)) then d else x, None)"
proof -
  have "\<forall>k v d. (k, v) \<in> set (concat cs) \<longrightarrow>
      func k v d = (if good (k, v) then (Inr ST_CONTINUE, d) else (Inr ST_STOP, x)) \<Longrightarrow>
    foreach_bins (raising func) cs (d, None) = (cs, 0, (if list_all good (concat cs) then d else x, None))" for cs
  proof (induction cs)
    case (Cons c cs)
    have "foreach_chain (raising func) c (d, None) = (c, 0, (if list_all good c then d else x, None), \<not> list_all good c)"
      by (rule foreach_chain_search) (use Cons.prems in auto)
    then show ?case using Cons by auto
  qed simp
  with assms show ?thesis by (simp add: foreach_with_def st_foreach_def)
qed

context key_objects
begin

lemma is_hashD:
  assumes "is_hash E P h"
  shows "list_all (\<lambda>e. hash_key P (fst e)) (concat (bins (tbl h)))" "type_of (tbl h) = objhash E"
    "num_entries (tbl h) = int (length (concat (bins (tbl h))))" "distinct (concat (bins (tbl h)))"
proof -
  have t: "st_wf (hash_key P) (tbl h)" "type_of (tbl h) = objhash E" "st_unique (tbl h)"
    using assms by (simp_all add: is_hash_def key_table_def)
  show k: "list_all (\<lambda>e. hash_key P (fst e)) (concat (bins (tbl h)))" by (rule wf_keys [OF t(1)])
  show "type_of (tbl h) = objhash E" by (rule t(2))
  show "num_entries (tbl h) = int (length (concat (bins (tbl h))))" using t(1) by (simp add: st_wf_def)
  let ?es = "concat (bins (tbl h))"
  have "?es ! i \<noteq> ?es ! j" if "i < j" "j < length ?es" for i j
  proof
    assume "?es ! i = ?es ! j"
    moreover have "\<not> matches (objhash E) (fst (?es ! i)) (?es ! j)"
      using t(3) that by (simp add: st_unique_def t(2) sorted_wrt_iff_nth_less)
    moreover have "hash_key P (fst (?es ! j))" using k that by (simp add: list_all_length)
    ultimately show False using EQUAL_refl_key by (simp add: matches_def)
  qed
  then show "distinct ?es" unfolding distinct_conv_nth by (metis linorder_neqE_nat)
qed

lemma cells_unique:
  assumes "is_hash E P h" "e \<in> set (concat (bins (tbl h)))" "e' \<in> set (concat (bins (tbl h)))"
    "EQUAL (objhash E) (fst e) (fst e')"
  shows "e = e'"
proof -
  let ?es = "concat (bins (tbl h))"
  have k: "hash_key P (fst e)" using is_hashD(1) [OF assms(1)] assms(2) by (simp only: list_all_iff)
  have "st_unique (tbl h)" using assms(1) by (simp add: is_hash_def key_table_def)
  then have "length (filter (matches (objhash E) (fst e)) ?es) \<le> 1"
    using unique_iff [OF is_hashD(1) [OF assms(1)]] k by (simp add: st_unique_def is_hashD(2) [OF assms(1)])
  moreover have "e \<in> set (filter (matches (objhash E) (fst e)) ?es)" "e' \<in> set (filter (matches (objhash E) (fst e)) ?es)"
    using assms(2-4) EQUAL_refl_key [OF k] by (auto simp: matches_def)
  ultimately show ?thesis by (rule short_list_eq)
qed

lemma assoc_cell:
  assumes "is_hash E P h" "hash_key P k"
  shows "st_assoc (tbl h) k = Some v \<longleftrightarrow> (\<exists>e\<in>set (concat (bins (tbl h))). EQUAL (objhash E) k (fst e) \<and> snd e = v)"
proof -
  let ?es = "concat (bins (tbl h))"
  note H = is_hashD [OF assms(1)]
  have eq: "e = e'" if "e \<in> set ?es" "e' \<in> set ?es" "EQUAL (objhash E) k (fst e)" "EQUAL (objhash E) k (fst e')" for e e'
  proof -
    have "hash_key P (fst e)" "hash_key P (fst e')" using H(1) that(1,2) by (simp_all only: list_all_iff)
    then have "EQUAL (objhash E) (fst e) (fst e')" using that assms(2) EQUAL_sym_key EQUAL_trans_key by blast
    then show ?thesis using cells_unique [OF assms(1) that(1,2)] by blast
  qed
  show ?thesis
  proof (cases "filter (matches (objhash E) k) ?es")
    case Nil
    then show ?thesis by (auto simp: st_assoc_def H(2) filter_empty_conv matches_def)
  next
    case (Cons e r)
    then have "e \<in> set (filter (matches (objhash E) k) ?es)" by simp
    then have e: "e \<in> set ?es" "EQUAL (objhash E) k (fst e)" by (auto simp: matches_def)
    have "st_assoc (tbl h) k = Some (snd e)" using Cons by (simp add: st_assoc_def H(2))
    with e eq [OF e(1) _ e(2)] show ?thesis by (metis option.inject)
  qed
qed

text \<open>When every key of \<open>h1\<close> is in \<open>h2\<close>, and they have as many cells, every key of \<open>h2\<close> is in \<open>h1\<close>.\<close>

lemma cells_pigeon:
  assumes "is_hash E P h1" "is_hash E P h2"
    "\<forall>e\<in>set (concat (bins (tbl h1))). \<exists>e'\<in>set (concat (bins (tbl h2))). EQUAL (objhash E) (fst e) (fst e')"
  shows "num_entries (tbl h1) \<le> num_entries (tbl h2)"
    "num_entries (tbl h1) = num_entries (tbl h2) \<Longrightarrow>
     \<forall>e'\<in>set (concat (bins (tbl h2))). \<exists>e\<in>set (concat (bins (tbl h1))). EQUAL (objhash E) (fst e) (fst e')"
proof -
  let ?A = "set (concat (bins (tbl h1)))" and ?B = "set (concat (bins (tbl h2)))"
  note H1 = is_hashD [OF assms(1)] and H2 = is_hashD [OF assms(2)]
  have k: "\<And>e. e \<in> ?A \<Longrightarrow> hash_key P (fst e)" "\<And>e. e \<in> ?B \<Longrightarrow> hash_key P (fst e)"
    using H1(1) H2(1) by (simp_all only: list_all_iff)
  obtain g where g: "\<And>e. e \<in> ?A \<Longrightarrow> g e \<in> ?B \<and> EQUAL (objhash E) (fst e) (fst (g e))" using assms(3) by metis
  have "inj_on g ?A"
  proof (rule inj_onI)
    fix e e' assume e: "e \<in> ?A" "e' \<in> ?A" "g e = g e'"
    have "EQUAL (objhash E) (fst (g e)) (fst e')" using g [OF e(2)] k e EQUAL_sym_key by metis
    then have "EQUAL (objhash E) (fst e) (fst e')" using g [OF e(1)] k e EQUAL_trans_key by metis
    then show "e = e'" using cells_unique [OF assms(1) e(1,2)] by blast
  qed
  then have c: "card (g ` ?A) = card ?A" by (rule card_image)
  have s: "g ` ?A \<subseteq> ?B" using g by blast
  have "card ?A \<le> card ?B" using card_mono [OF _ s] c by simp
  moreover have n: "num_entries (tbl h1) = int (card ?A)" "num_entries (tbl h2) = int (card ?B)"
    using H1(3,4) H2(3,4) distinct_card by metis+
  ultimately show "num_entries (tbl h1) \<le> num_entries (tbl h2)" by simp
  assume "num_entries (tbl h1) = num_entries (tbl h2)"
  then have "g ` ?A = ?B" using card_subset_eq [OF _ s] c n by simp
  then show "\<forall>e'\<in>?B. \<exists>e\<in>?A. EQUAL (objhash E) (fst e) (fst e')" using g by (metis imageE)
qed

end

text \<open>\<^verbatim>\<open>hash_foreach\<close> without exception: the callback decides with \<open>D\<close> which cells go and changes its state with \<open>g\<close>.\<close>

lemma hash_foreach_filter:
  assumes "\<And>k v s. k \<noteq> RNil \<Longrightarrow> func k v s = (Inr (if D k v then ST_DELETE else ST_CONTINUE), g (k, v) s)"
    and "status h = 0"
  shows "foreach_with (tbl h) (hash_foreach_iter h func) s =
    ((tbl h)\<lparr>bins := map (filter (\<lambda>(k, v). k = RNil \<or> \<not> D k v)) (bins (tbl h)),
       num_entries := num_entries (tbl h) - int (length (filter (\<lambda>(k, v). D k v) (hash_cells h)))\<rparr>,
     fold g (hash_cells h) s, None)"
proof -
  let ?g = "\<lambda>e sx. (if fst e = RNil then fst sx else g e (fst sx), None)"
  have "raising (hash_foreach_iter h func) k v sx = (if k \<noteq> RNil \<and> D k v then ST_DELETE else ST_CONTINUE, ?g (k, v) sx)"
    for k v and sx :: "'b \<times> rb_error option"
    using assms by (simp add: raising_def hash_foreach_iter_def)
  from st_foreach_filter [of "raising (hash_foreach_iter h func)", OF this, of "tbl h" "(s, None)"]
  have "foreach_with (tbl h) (hash_foreach_iter h func) s =
    ((tbl h)\<lparr>bins := map (filter (\<lambda>(k, v). \<not> (k \<noteq> RNil \<and> D k v))) (bins (tbl h)),
       num_entries := num_entries (tbl h) - int (length (filter (\<lambda>(k, v). k \<noteq> RNil \<and> D k v) (concat (bins (tbl h)))))\<rparr>,
     fold ?g (concat (bins (tbl h))) (s, None))" by (simp only: foreach_with_def)
  moreover have "filter (\<lambda>(k, v). k \<noteq> RNil \<and> D k v) es = filter (\<lambda>(k, v). D k v) (filter ((\<lambda>k. k \<noteq> RNil) \<circ> fst) es)" for es
    by (induction es) auto
  moreover have "fold ?g es (s, None) = (fold g (filter ((\<lambda>k. k \<noteq> RNil) \<circ> fst) es) s, None)" for es
    by (induction es arbitrary: s) auto
  ultimately show ?thesis by (simp add: hash_cells_def imp_conv_disj [symmetric] disj_imp)
qed

lemma hash_foreach_ensure_idle:
  assumes "status h = 0"
  shows "tbl (hash_foreach_ensure h) = tbl h" "iter_lev (hash_foreach_ensure h) = iter_lev h - 1"
    "status (hash_foreach_ensure h) = 0"
  using assms by (auto simp: hash_foreach_ensure_def Let_def)

text \<open>Iteration with any callback, also one that raises.\<close>

lemma hash_foreach_keeps:
  assumes "is_hash E P h" "status h = 0" "hash_foreach h func s = (h', s', r)"
  shows "is_hash E P h' \<and> iter_lev h' = iter_lev h \<and> status h' = 0 \<and>
    set (concat (bins (tbl h'))) \<subseteq> set (concat (bins (tbl h)))"
proof -
  obtain t sx where f: "st_foreach (tbl h) (raising (hash_foreach_iter (h\<lparr>iter_lev := iter_lev h + 1\<rparr>) func)) (s, None) = (t, sx)"
    by (meson surj_pair)
  with assms(3) have h': "h' = hash_foreach_ensure (h\<lparr>iter_lev := iter_lev h + 1, tbl := t\<rparr>)"
    by (auto simp: hash_foreach_def foreach_with_def Let_def split: prod.splits)
  have "is_hash E P (h\<lparr>tbl := t\<rparr>)"
    using st_foreach_wf [OF _ f] st_foreach_unique [OF _ f] assms(1) by (auto simp: is_hash_def key_table_def)
  then show ?thesis
    using h' assms(2) st_foreach_subset [OF f] by (simp add: hash_foreach_ensure_idle is_hash_def)
qed

context key_objects
begin

lemma hash_equal_cells:
  assumes "is_hash E P h1" "is_hash E P h2" "\<not> P RNil" "\<forall>x\<in>snd ` set (hash_cells h1). \<forall>y\<in>snd ` set (hash_cells h2). rb_equal_obj E x y = Inr (eqv x y)"
  shows "hash_equal E h1 (Some h2) = Inr (num_entries (tbl h1) = num_entries (tbl h2) \<and>
    (\<forall>e\<in>set (concat (bins (tbl h1))). \<exists>w. st_assoc (tbl h2) (fst e) = Some w \<and> eqv (snd e) w))"
proof -
  let ?good = "\<lambda>e. \<exists>w. st_assoc (tbl h2) (fst e) = Some w \<and> eqv (snd e) w"
  have f: "equal_i E (tbl h2) k v d = (if ?good (k, v) then (Inr ST_CONTINUE, d) else (Inr ST_STOP, False))"
    if kv: "(k, v) \<in> set (concat (bins (tbl h1)))" for k v d
  proof -
    have k: "hash_key P k" using is_hashD(1) [OF assms(1)] kv by (simp only: list_all_iff) force
    then have "k \<noteq> RNil" using assms(3) hash_key_RNil by blast
    moreover have "rb_equal_obj E v w = Inr (eqv v w)" if w: "st_assoc (tbl h2) k = Some w" for w
    proof -
      from w obtain e where "e \<in> set (concat (bins (tbl h2)))" "snd e = w" using assoc_cell [OF assms(2) k] by blast
      then have "w \<in> snd ` set (hash_cells h2)" using hash_cells_all [OF assms(2,3)] by (metis imageI)
      moreover have "v \<in> snd ` set (hash_cells h1)"
        using hash_cells_all [OF assms(1,3)] imageI [of "(k, v)" _ snd] kv by (metis snd_conv)
      ultimately show ?thesis using assms(4) by blast
    qed
    ultimately show ?thesis using hash_lookup [OF assms(2) k]
      by (cases "st_assoc (tbl h2) k") (auto simp: equal_i_def)
  qed
  have "foreach_with (tbl h1) (equal_i E (tbl h2)) True =
      (tbl h1, if list_all ?good (concat (bins (tbl h1))) then True else False, None)"
    by (rule foreach_search) (use f in blast)
  then show ?thesis by (simp only: hash_equal_def) (auto simp: list_all_iff simp del: set_concat)
qed

lemma cell_keys: "is_hash E P h \<Longrightarrow> e \<in> set (concat (bins (tbl h))) \<Longrightarrow> hash_key P (fst e)"
  using is_hashD(1) by (simp only: list_all_iff)

lemma assoc_self: "is_hash E P h \<Longrightarrow> e \<in> set (concat (bins (tbl h))) \<Longrightarrow> st_assoc (tbl h) (fst e) = Some (snd e)"
  using assoc_cell cell_keys EQUAL_refl_key by blast

lemma assoc_same:
  assumes "is_hash E P h" "hash_key P j" "hash_key P k" "EQUAL (objhash E) j k"
  shows "st_assoc (tbl h) j = st_assoc (tbl h) k"
  using filter_matches_cong [OF is_hashD(1) [OF assms(1)] assms(2,3,4)]
  by (simp add: st_assoc_def is_hashD(2) [OF assms(1)])

lemma equal_maps_if:
  assumes "is_hash E P h1" "is_hash E P h2" "num_entries (tbl h1) = num_entries (tbl h2)"
    "\<forall>e\<in>set (concat (bins (tbl h1))). \<exists>w. st_assoc (tbl h2) (fst e) = Some w \<and> eqv (snd e) w"
    and x: "hash_key P x"
  shows "rel_option eqv (st_assoc (tbl h1) x) (st_assoc (tbl h2) x)"
proof (cases "st_assoc (tbl h1) x")
  case (Some v)
  then obtain e where e: "e \<in> set (concat (bins (tbl h1)))" "EQUAL (objhash E) x (fst e)" "snd e = v"
    using assoc_cell [OF assms(1) x] by blast
  obtain w where "st_assoc (tbl h2) (fst e) = Some w" "eqv (snd e) w" using assms(4) e(1) by blast
  with e Some assoc_same [OF assms(2) x cell_keys [OF assms(1) e(1)] e(2)] show ?thesis by simp
next
  case None
  have sub: "\<forall>e\<in>set (concat (bins (tbl h1))). \<exists>e'\<in>set (concat (bins (tbl h2))). EQUAL (objhash E) (fst e) (fst e')"
    using assms(4) assoc_cell [OF assms(2) cell_keys [OF assms(1)]] by blast
  note converse = cells_pigeon(2) [OF assms(1,2) sub assms(3)]
  have "st_assoc (tbl h2) x = None"
  proof (rule ccontr)
    assume "st_assoc (tbl h2) x \<noteq> None"
    then obtain e' where e': "e' \<in> set (concat (bins (tbl h2)))" "EQUAL (objhash E) x (fst e')"
      using assoc_cell [OF assms(2) x] by blast
    then obtain e where e: "e \<in> set (concat (bins (tbl h1)))" "EQUAL (objhash E) (fst e) (fst e')"
      using converse by blast
    have "EQUAL (objhash E) x (fst e)"
      using e e' x cell_keys [OF assms(1)] cell_keys [OF assms(2)] EQUAL_sym_key EQUAL_trans_key by metis
    then show False using assoc_cell [OF assms(1) x, of "snd e"] e(1) None by auto
  qed
  with None show ?thesis by simp
qed

lemma equal_maps_only_if:
  assumes "is_hash E P h1" "is_hash E P h2"
    "\<forall>k. hash_key P k \<longrightarrow> rel_option eqv (st_assoc (tbl h1) k) (st_assoc (tbl h2) k)"
  shows "num_entries (tbl h1) = num_entries (tbl h2)"
    "\<forall>e\<in>set (concat (bins (tbl h1))). \<exists>w. st_assoc (tbl h2) (fst e) = Some w \<and> eqv (snd e) w"
proof -
  show 1: "\<forall>e\<in>set (concat (bins (tbl h1))). \<exists>w. st_assoc (tbl h2) (fst e) = Some w \<and> eqv (snd e) w"
    using assms(3) assoc_self [OF assms(1)] cell_keys [OF assms(1)] by (metis option_rel_Some1)
  have 2: "\<forall>e\<in>set (concat (bins (tbl h2))). \<exists>v. st_assoc (tbl h1) (fst e) = Some v"
    using assms(3) assoc_self [OF assms(2)] cell_keys [OF assms(2)] by (metis option_rel_Some2)
  have "num_entries (tbl h1) \<le> num_entries (tbl h2)"
    by (rule cells_pigeon(1) [OF assms(1,2)]) (use 1 assoc_cell [OF assms(2) cell_keys [OF assms(1)]] in blast)
  moreover have "num_entries (tbl h2) \<le> num_entries (tbl h1)"
    by (rule cells_pigeon(1) [OF assms(2,1)]) (use 2 assoc_cell [OF assms(1) cell_keys [OF assms(2)]] in blast)
  ultimately show "num_entries (tbl h1) = num_entries (tbl h2)" by simp
qed

lemma hash_equal_maps:
  assumes "is_hash E P h1" "is_hash E P h2" "\<not> P RNil" "\<forall>x\<in>snd ` set (hash_cells h1). \<forall>y\<in>snd ` set (hash_cells h2). rb_equal_obj E x y = Inr (eqv x y)"
  shows "hash_equal E h1 (Some h2) =
    Inr (\<forall>k. hash_key P k \<longrightarrow> rel_option eqv (st_assoc (tbl h1) k) (st_assoc (tbl h2) k))"
  using hash_equal_cells [OF assms] equal_maps_if [OF assms(1,2), of eqv] equal_maps_only_if [OF assms(1,2), of eqv]
  by auto

end

section \<open>The methods of the core classes\<close>

text \<open>
  \<^verbatim>\<open>eql?\<close>, \<^verbatim>\<open>==\<close> and \<^verbatim>\<open>hash\<close> as the interpreter defines them for objects without methods of
  their own: \<^verbatim>\<open>obj_equal\<close> compares the objects themselves and \<^verbatim>\<open>obj_id\<close> is the address with the
  tag of a Fixnum; a String has \<^verbatim>\<open>str_equal\<close> and a Fixnum \<^verbatim>\<open>num_eql\<close>, which compares class and
  value. Objects are named by their addresses.
\<close>

definition obj_equal :: "'o rval \<Rightarrow> 'o rval \<Rightarrow> bool" where
  "obj_equal obj1 obj2 \<longleftrightarrow> obj1 = obj2"

definition obj_id :: "u32 \<Rightarrow> u32" where
  "obj_id obj = obj OR 1"

fun core_address :: "u32 rval \<Rightarrow> u32" where
  "core_address (RObj a) = a"
| "core_address _ = 8"

fun core_eql :: "str_env \<Rightarrow> u32 rval \<Rightarrow> u32 rval \<Rightarrow> bool result" where
  "core_eql S (RStr s) v = str_equal S s (case v of RStr t \<Rightarrow> Some t | _ \<Rightarrow> None)"
| "core_eql S u v = Inr (obj_equal u v)"

fun core_word :: "u32 rval \<Rightarrow> u32" where
  "core_word RFalse = 0"
| "core_word RTrue = 2"
| "core_word RNil = 4"
| "core_word (RFix w) = w"
| "core_word v = core_address v"

definition core_funcall :: "str_env \<Rightarrow> string \<Rightarrow> u32 rval \<Rightarrow> u32 rval list \<Rightarrow> u32 rval result" where
  "core_funcall S mid recv args =
     (if (mid = ''eql?'' \<or> mid = ''=='') \<and> length args = 1
      then bindR (core_eql S recv (hd args)) (\<lambda>b. Inr (if b then RTrue else RFalse))
      else if mid = ''hash'' \<and> args = [] then Inr (RFix (obj_id (core_word recv)))
      else Inl (Fail ''undefined method `%s' for %s(%s)''))"

definition core_ary_env :: "u32 rval ary_env" where
  "core_ary_env =
     \<lparr>Qnil = RNil, safe_level = 0, malloc_ok = (\<lambda>_. True), num2int_of = (\<lambda>_. Inr 0), fixnum_of = (\<lambda>_. None),
      bignum_p = (\<lambda>_. False), range_ends = (\<lambda>_. Inr None),
      equal_of = core_eql sample_str_env, eql_of = core_eql sample_str_env, hash_of = (\<lambda>v. Inr (uint (core_word v)))\<rparr>"

definition core_env :: "u32 hash_env" where
  "core_env =
     \<lparr>h_str = sample_str_env, h_ary = core_ary_env, address = core_address, funcall = core_funcall sample_str_env,
      inspect = (\<lambda>_. Inr (bytes_string [])), num2int = (\<lambda>_. Inr 0)\<rparr>"

fun core_object :: "u32 rval \<Rightarrow> bool" where
  "core_object (RObj a) = True"
| "core_object RTrue = True"
| "core_object RFalse = True"
| "core_object _ = False"

lemma core_env_ok: "h_usable core_env" "\<not> core_object RNil" "\<not> ignorecase (h_str core_env)"
  by (simp_all add: h_usable_def core_env_def sample_str_env_ok usable_def core_ary_env_def)
    (simp add: sample_str_env_def)

lemma core_rb_eql:
  "plain_kind x = 2 \<or> plain_kind x \<noteq> plain_kind y \<Longrightarrow> rb_eql core_env x y = Inr (if x = y then 2 else 0)"
  by (cases x; cases y)
    (auto simp: rb_eql_def core_env_def core_funcall_def obj_equal_def str_equal_def plain_kind_def)

lemma core_eql_true:
  "plain_kind x = 2 \<or> plain_kind x \<noteq> plain_kind y \<Longrightarrow> eql_true core_env x y \<longleftrightarrow> x = y"
  by (simp add: eql_true_def core_rb_eql)

lemma core_obj_hash: "plain_kind x = 2 \<Longrightarrow> \<exists>w. obj_hash core_env x = Inr w"
  by (simp add: obj_hash_def core_env_def core_funcall_def)

interpretation core: key_objects core_env core_object
proof
  show "\<not> ignorecase (h_str core_env)" by (rule core_env_ok(3))
  fix x y z :: "u32 rval"
  show "plain_kind x = 2 \<or> plain_kind x \<noteq> plain_kind y \<Longrightarrow> \<exists>r. rb_eql core_env x y = Inr r"
    by (simp add: core_rb_eql)
  show "eql_true core_env x y \<Longrightarrow> plain_kind x = plain_kind y"
    using core_eql_true [of x y] by blast
  show "plain_kind x = 2 \<Longrightarrow> eql_true core_env x x" by (simp add: core_eql_true)
  show "plain_kind x = 2 \<Longrightarrow> plain_kind y = 2 \<Longrightarrow> eql_true core_env x y \<Longrightarrow> eql_true core_env y x"
    by (simp add: core_eql_true)
  show "plain_kind x = 2 \<Longrightarrow> plain_kind y = 2 \<Longrightarrow> eql_true core_env x y \<Longrightarrow> eql_true core_env y z \<Longrightarrow> eql_true core_env x z"
    by (simp add: core_eql_true)
  show "plain_kind x = 2 \<Longrightarrow> \<exists>w. obj_hash core_env x = Inr w" by (rule core_obj_hash)
  show "plain_kind x = 2 \<Longrightarrow> eql_true core_env x y \<Longrightarrow> obj_hash core_env x = obj_hash core_env y"
    by (simp add: core_eql_true)
qed

lemma core_EQUAL:
  assumes "hash_key core_object x" "hash_key core_object y"
  shows "EQUAL (objhash core_env) x y \<longleftrightarrow> x = y \<or> (\<exists>s t bs. x = RStr s \<and> y = RStr t \<and> is_string s bs \<and> is_string t bs)"
proof
  assume "EQUAL (objhash core_env) x y"
  with assms show "x = y \<or> (\<exists>s t bs. x = RStr s \<and> y = RStr t \<and> is_string s bs \<and> is_string t bs)"
    by (cases rule: core.EQUAL_cases) (auto simp: core_eql_true)
next
  assume "x = y \<or> (\<exists>s t bs. x = RStr s \<and> y = RStr t \<and> is_string s bs \<and> is_string t bs)"
  then show "EQUAL (objhash core_env) x y"
    using core.EQUAL_refl_key [OF assms(1)] core.EQUAL_str assms by blast
qed

section \<open>Properties of hashes\<close>

text \<open>
  C6: whatever sequence of \<^verbatim>\<open>[]=\<close>, \<^verbatim>\<open>delete\<close>, \<^verbatim>\<open>clear\<close>, \<^verbatim>\<open>rehash\<close> and \<^verbatim>\<open>clone\<close> a program makes on a
  hash that it is not iterating, every access stays inside the bins and the hash stands for the map of the same
  operations, in which equal keys share their entry and storing \<^verbatim>\<open>nil\<close> removes it; \<^verbatim>\<open>[]\<close> and \<^verbatim>\<open>has_key?\<close> answer
  from that map. The keys are Fixnums, strings without zero bytes, and objects other than \<^verbatim>\<open>nil\<close> whose \<^verbatim>\<open>eql?\<close>
  and \<^verbatim>\<open>hash\<close> return and are consistent, with \<^verbatim>\<open>$=\<close> off (\<open>key_objects\<close>): \<^verbatim>\<open>nil\<close> marks deleted entries, and
  \<^verbatim>\<open>rehash\<close> would lose an entry with that key.
\<close>

theorem hash_implements_map:
  assumes "key_objects E P" and "h_usable E" and "\<not> P RNil"
    and "stands_for E P h m" and "list_all (op_ok P) xs"
  shows "\<exists>h'. hash_run E h xs = Inr h' \<and> stands_for E P h' (foldl (map_do E) m xs)
    \<and> (\<forall>k. hash_key P k \<longrightarrow>
         hash_aref h' k = Inr (or_nil (foldl (map_do E) m xs k)) \<and>
         hash_has_key h' k = Inr (foldl (map_do E) m xs k \<noteq> None))"
proof -
  from key_objects.run_stands [OF assms(1,4,2,3,5)] obtain h' where
    h': "hash_run E h xs = Inr h'" "stands_for E P h' (foldl (map_do E) m xs)" by blast
  then have "is_hash E P h'" "\<And>k. hash_key P k \<Longrightarrow> st_assoc (tbl h') k = foldl (map_do E) m xs k"
    by (simp_all add: stands_for_def)
  with h' show ?thesis
    using key_objects.hash_aref_assoc [OF assms(1)] key_objects.hash_lookup [OF assms(1)]
    by (simp add: hash_has_key_def)
qed

text \<open>A string key, and the empty hash of the core classes.\<close>

definition key_a :: "u32 rval" where
  "key_a = RStr (bytes_string [97])"

definition empty_hash :: "u32 rhash" where
  "empty_hash = new_hash 0 (st_init_table_with_size (objhash core_env) 0)"

lemma key_a_ok: "hash_key core_object key_a"
  using bytes_string_ok(1) [of "[97]"] by (auto simp: key_a_def hash_key_def)

lemma key_fix_ok: "hash_key P (RFix w)"
  by (simp add: hash_key_def)

lemma empty_hash_stands: "stands_for core_env core_object empty_hash (\<lambda>_. None)"
  using core.new_is_hash [of 0 0]
  by (simp add: stands_for_def empty_hash_def new_hash_def st_assoc_def st_init_table_with_size_def)

lemma core_EQUAL_samples:
  "EQUAL (objhash core_env) key_a key_a" "EQUAL (objhash core_env) (RFix v) (RFix w) \<longleftrightarrow> v = w"
  "\<not> EQUAL (objhash core_env) key_a (RFix w)" "\<not> EQUAL (objhash core_env) (RFix w) key_a"
  using core_EQUAL key_a_ok key_fix_ok by (auto simp: key_a_def core.EQUAL_num)

theorem hash_implements_map_witness:
  "\<exists>h'. hash_run core_env empty_hash [Aset (RFix 3) (RFix 5), Aset key_a RTrue, Rehash, Aset (RFix 3) RNil] = Inr h'
    \<and> hash_aref h' key_a = Inr RTrue \<and> hash_aref h' (RFix 3) = Inr RNil \<and> hash_has_key h' (RFix 3) = Inr False"
proof -
  let ?ops = "[Aset (RFix 3) (RFix 5), Aset key_a RTrue, Rehash, Aset (RFix 3) RNil]"
  have "list_all (op_ok core_object) ?ops" by (simp add: key_a_ok key_fix_ok)
  from hash_implements_map [OF core.key_objects_axioms core_env_ok(1,2) empty_hash_stands this]
  obtain h' where "hash_run core_env empty_hash ?ops = Inr h'"
    "\<forall>k. hash_key core_object k \<longrightarrow>
       hash_aref h' k = Inr (or_nil (foldl (map_do core_env) (\<lambda>_. None) ?ops k)) \<and>
       hash_has_key h' k = Inr (foldl (map_do core_env) (\<lambda>_. None) ?ops k \<noteq> None)" by blast
  then show ?thesis using key_a_ok key_fix_ok [of core_object 3] by (auto simp: map_put_def core_EQUAL_samples)
qed

text \<open>
  C29: \<^verbatim>\<open>rehash\<close> repairs a hash whose keys were changed after they were stored, so that cells lie in
  the wrong bins or became equal: whatever the bins and the count are, the result is well formed,
  and for every key it has the record of the last cell with an equal key. Cells with the key
  \<^verbatim>\<open>nil\<close> are dropped.
\<close>

theorem hash_rehash_repairs:
  assumes "key_objects E P" and "list_all (\<lambda>e. hash_key P (fst e)) (hash_cells h)"
  shows "\<exists>h'. hash_rehash E h = Inr h' \<and> is_hash E P h'
    \<and> (\<forall>k. hash_key P k \<longrightarrow>
         hash_aref h' k = Inr (or_nil (first_record (filter (\<lambda>e. EQUAL (objhash E) k (fst e)) (rev (hash_cells h))))))"
proof -
  from key_objects.rehash_ok_hash [OF assms] obtain h' where h': "hash_rehash E h = Inr h'" "is_hash E P h'"
    "\<forall>k. hash_key P k \<longrightarrow> st_assoc (tbl h') k = first_record (filter (matches (objhash E) k) (rev (hash_cells h)))"
    by blast
  then show ?thesis
    using key_objects.hash_aref_assoc [OF assms(1) h'(2)] by (simp add: matches_def [abs_def])
qed

text \<open>A hash with one bin that holds two equal keys and a deleted cell, and a wrong count.\<close>

definition stale_hash :: "u32 rhash" where
  "stale_hash =
     new_hash 0 \<lparr>type_of = objhash core_env, num_bins = 11, num_entries = 1,
       bins = [[(RFix 3, RTrue), (RNil, RNil)], [(RFix 3, RFalse), (key_a, RFix 7)], [], [], [], [], [], [], [], [], []]\<rparr>"

lemma stale_hash_cells: "hash_cells stale_hash = [(RFix 3, RTrue), (RFix 3, RFalse), (key_a, RFix 7)]"
  by (simp add: stale_hash_def hash_cells_def new_hash_def key_a_def)

theorem hash_rehash_repairs_witness:
  "\<exists>h'. hash_rehash core_env stale_hash = Inr h' \<and> is_hash core_env core_object h'
    \<and> hash_aref h' (RFix 3) = Inr RFalse \<and> hash_aref h' key_a = Inr (RFix 7) \<and> hash_aref h' (RFix 9) = Inr RNil"
proof -
  have "list_all (\<lambda>e. hash_key core_object (fst e)) (hash_cells stale_hash)"
    by (simp add: stale_hash_cells key_a_ok key_fix_ok)
  from hash_rehash_repairs [OF core.key_objects_axioms this] obtain h' where
    "hash_rehash core_env stale_hash = Inr h'" "is_hash core_env core_object h'"
    "\<forall>k. hash_key core_object k \<longrightarrow>
       hash_aref h' k = Inr (or_nil (first_record (filter (\<lambda>e. EQUAL (objhash core_env) k (fst e)) (rev (hash_cells stale_hash)))))"
    by blast
  then show ?thesis using key_a_ok key_fix_ok [of core_object 3] key_fix_ok [of core_object 9]
    by (auto simp: stale_hash_cells core_EQUAL_samples)
qed

text \<open>
  C30: \<^verbatim>\<open>==\<close> of two hashes compares the counts and looks up every key of the first hash in the second
  one. It decides whether both have the same keys, up to \<^verbatim>\<open>eql?\<close>, with records that are \<^verbatim>\<open>==\<close>, also
  for the keys that only the second one has. The key \<^verbatim>\<open>nil\<close> is not covered.
\<close>

theorem hash_equal_decides:
  assumes "key_objects E P" and "\<not> P RNil" and "is_hash E P h1" and "is_hash E P h2"
    and "\<forall>x\<in>snd ` set (hash_cells h1). \<forall>y\<in>snd ` set (hash_cells h2). rb_equal_obj E x y = Inr (eqv x y)"
  shows "hash_equal E h1 (Some h2) =
    Inr (\<forall>k. hash_key P k \<longrightarrow> rel_option eqv (st_assoc (tbl h1) k) (st_assoc (tbl h2) k))"
  by (rule key_objects.hash_equal_maps [OF assms(1,3,4,2,5)])

lemma hash_delete_if_total:
  assumes "is_hash E P h" and "h_usable E" and "status h = 0"
  shows "\<exists>h'. hash_delete_if E (Some (\<lambda>v s. (Inr (answer v), step v s))) h s =
      (h', fold (\<lambda>(k, v). step (RPair k v)) (hash_cells h) s, Inr ()) \<and> is_hash E P h' \<and>
    hash_cells h' = filter (\<lambda>(k, v). answer (RPair k v) = RFalse) (hash_cells h)"
proof -
  let ?b = "Some (\<lambda>v s. (Inr (answer v), step v s))" and ?i = "h\<lparr>iter_lev := iter_lev h + 1\<rparr>"
  have i: "delete_if_i ?b k v s = (Inr (if answer (RPair k v) \<noteq> RFalse then ST_DELETE else ST_CONTINUE),
      (\<lambda>(k, v). step (RPair k v)) (k, v) s)" if "k \<noteq> RNil" for k v s
    using that by (simp add: delete_if_i_def rb_yield_def)
  obtain h' s' r where f: "hash_foreach h (delete_if_i ?b) s = (h', s', r)" by (rule prod_cases3)
  note k = hash_foreach_keeps [OF assms(1,3) f]
  have cells: "hash_cells ?i = hash_cells h" by (simp add: hash_cells_def)
  have "foreach_with (tbl ?i) (hash_foreach_iter ?i (delete_if_i ?b)) s =
    ((tbl ?i)\<lparr>bins := map (filter (\<lambda>(k, v). k = RNil \<or> \<not> answer (RPair k v) \<noteq> RFalse)) (bins (tbl ?i)),
       num_entries := num_entries (tbl ?i) - int (length (filter (\<lambda>(k, v). answer (RPair k v) \<noteq> RFalse) (hash_cells ?i)))\<rparr>,
     fold (\<lambda>(k, v). step (RPair k v)) (hash_cells ?i) s, None)"
    by (rule hash_foreach_filter) (simp_all add: i assms(3))
  with f assms(3) have r: "r = Inr ()" "s' = fold (\<lambda>(k, v). step (RPair k v)) (hash_cells h) s"
    and b: "bins (tbl h') = map (filter (\<lambda>(k, v). k = RNil \<or> \<not> answer (RPair k v) \<noteq> RFalse)) (bins (tbl h))"
    by (auto simp: hash_foreach_def cells Let_def hash_foreach_ensure_idle)
  have "hash_cells h' = filter (\<lambda>(k, v). answer (RPair k v) = RFalse) (hash_cells h)"
    unfolding hash_cells_def b by (simp add: filter_concat [symmetric] conj_commute) (rule filter_cong; auto)
  then show ?thesis using f r k assms(2) by (simp add: hash_delete_if_def)
qed

text \<open>
  C31: \<^verbatim>\<open>delete_if\<close> leaves a well-formed hash of some of the old entries, that is not being iterated
  any more, whatever the block does, also when it raises. A block that returns is called once
  with every pair, in the order of the cells, and exactly the pairs remain for which it returns
  \<^verbatim>\<open>false\<close>: \<^verbatim>\<open>nil\<close> deletes like a true value. The key \<^verbatim>\<open>nil\<close> and blocks that change the hash are not covered.
\<close>

theorem hash_delete_if_filters:
  assumes "is_hash E P h" and "\<not> P RNil" and "h_usable E" and "status h = 0"
  shows "(\<exists>h' s' r. hash_delete_if E blk h s = (h', s', r) \<and> is_hash E P h' \<and> iter_lev h' = iter_lev h \<and>
      status h' = 0 \<and> set (hash_cells h') \<subseteq> set (hash_cells h)) \<and>
    (\<exists>h'. hash_delete_if E (Some (\<lambda>v s. (Inr (answer v), step v s))) h s =
        (h', fold (\<lambda>(k, v). step (RPair k v)) (hash_cells h) s, Inr ()) \<and> is_hash E P h' \<and>
      hash_cells h' = filter (\<lambda>(k, v). answer (RPair k v) = RFalse) (hash_cells h))"
proof
  obtain h' s' r where f: "hash_delete_if E blk h s = (h', s', r)" by (metis prod_cases3)
  then have "hash_foreach h (delete_if_i blk) s = (h', s', r)" using assms(3) by (simp add: hash_delete_if_def)
  note k = hash_foreach_keeps [OF assms(1,4) this]
  then have a: "is_hash E P h'" "iter_lev h' = iter_lev h" "status h' = 0" by (simp_all only:)
  have sub: "set (hash_cells h') \<subseteq> set (hash_cells h)"
    using k by (simp only: hash_cells_all [OF conjunct1 [OF k] assms(2)] hash_cells_all [OF assms(1,2)])
  show "\<exists>h' s' r. hash_delete_if E blk h s = (h', s', r) \<and> is_hash E P h' \<and> iter_lev h' = iter_lev h \<and>
      status h' = 0 \<and> set (hash_cells h') \<subseteq> set (hash_cells h)"
    by (intro exI conjI, rule f, rule a(1), rule a(2), rule a(3), rule sub)
qed (rule hash_delete_if_total [OF assms(1,3,4)])

text \<open>
  Deleting a key while its hash is iterated, when the key is in the first cell of its chain,
  returns the record and counts the entry off, but the cell stays: \<^verbatim>\<open>HASH_DELETED\<close> is never set, so
  the end of the iteration does not remove it. A following \<^verbatim>\<open>clear\<close> counts it again and leaves the
  length \<open>- 1\<close>, for which \<^verbatim>\<open>empty?\<close> is false.
\<close>

theorem hash_delete_in_iteration:
  assumes "key_objects E P" and "is_hash E P h" and "h_usable E" and "iter_lev h = 1" and "status h = 0"
    and "hash_key P k" and "bins (tbl h) ! nat (do_hash k (tbl h)) = (k', v) # chain" and "EQUAL (objhash E) k k'"
  shows "\<exists>h1 h2. hash_delete E blk h k s = (h1, s, Inr v) \<and> hash_length h1 = hash_length h - 1 \<and>
    length (concat (bins (tbl (hash_foreach_ensure h1)))) = length (concat (bins (tbl h))) \<and>
    hash_clear E (hash_foreach_ensure h1) = Inr h2 \<and> hash_length h2 = - 1 \<and> \<not> hash_empty_p h2"
proof -
  have t: "st_wf (hash_key P) (tbl h)" "type_of (tbl h) = objhash E"
    using assms(2) by (simp_all add: is_hash_def key_table_def)
  let ?i = "nat (do_hash k (tbl h))" and ?bs = "(bins (tbl h))[nat (do_hash k (tbl h)) := (RNil, RNil) # chain]"
  let ?h1 = "h\<lparr>tbl := (tbl h)\<lparr>bins := ?bs, num_entries := num_entries (tbl h) - 1\<rparr>\<rparr>"
  have b: "in_block (bins (tbl h)) (do_hash k (tbl h))"
    by (rule key_objects.hash_bin [OF assms(1,2,6)])
  have d: "hash_delete E blk h k s = (?h1, s, Inr v)"
    using assms(3,4,7,8) b t(2) by (simp add: hash_delete_def st_delete_safe_def Let_def)
  have "map length ?bs = map length (bins (tbl h))"
    using assms(7) in_block_nat [OF b] by (simp add: map_update list_update_same_conv)
  then have l: "length (concat ?bs) = length (concat (bins (tbl h)))" by (simp only: length_concat)
  have "num_entries (tbl h) = int (length (concat (bins (tbl h))))" using t(1) by (simp add: st_wf_def)
  then have "hash_length (?h1\<lparr>tbl := fst (st_foreach (tbl (hash_foreach_ensure ?h1)) clear_i ())\<rparr>) = - 1"
    using assms(5) l by (simp add: hash_length_def hash_foreach_ensure_idle st_foreach_clear)
  then show ?thesis
    using d l assms(3,5) by (simp add: hash_clear_def hash_length_def hash_empty_p_def hash_foreach_ensure_idle)
qed

text \<open>A hash with the keys 3 (a tagged word) and \<open>key_a\<close>, in the bins 3 and 9.\<close>

definition pair_hash :: "u32 rval \<Rightarrow> u32 rhash" where
  "pair_hash v =
     new_hash 0 \<lparr>type_of = objhash core_env, num_bins = 11, num_entries = 2,
       bins = [[], [], [], [(RFix 3, v)], [], [], [], [], [], [(key_a, RTrue)], []]\<rparr>"

lemma pair_hash_bins:
  "do_hash (RFix 3) (tbl (pair_hash v)) = 3" "do_hash key_a (tbl (pair_hash v)) = 9"
  by (simp_all add: pair_hash_def new_hash_def do_hash_def objhash_def any_hash_def returned_def key_a_def core_env_def
      sample_str_env_def str_hash_def bytes_string_def get_cell_def in_block_def)

lemma pair_hash_ok: "is_hash core_env core_object (pair_hash v)"
proof -
  have "list_all (\<lambda>e. hash_key core_object (fst e) \<and> do_hash (fst e) (tbl (pair_hash v)) = int i) (bins (tbl (pair_hash v)) ! i)"
    if "i < 11" for i
    using that pair_hash_bins [of v] key_a_ok key_fix_ok [of core_object 3]
    by (auto simp: less_Suc_eq eval_nat_numeral pair_hash_def new_hash_def)
  then have "st_wf (hash_key core_object) (tbl (pair_hash v))"
    by (simp add: st_wf_def pair_hash_def new_hash_def)
  then show ?thesis
    by (simp add: is_hash_def key_table_def st_unique_def matches_def core_EQUAL_samples pair_hash_def new_hash_def)
qed

lemma pair_hash_cells: "hash_cells (pair_hash v) = [(RFix 3, v), (key_a, RTrue)]"
  by (simp add: pair_hash_def new_hash_def hash_cells_def key_a_def)

lemma pair_hash_assoc:
  "hash_key core_object k \<Longrightarrow> st_assoc (tbl (pair_hash v)) k =
     (if EQUAL (objhash core_env) k (RFix 3) then Some v else if EQUAL (objhash core_env) k key_a then Some RTrue else None)"
  by (simp add: st_assoc_def pair_hash_def new_hash_def matches_def)

theorem hash_equal_decides_witness:
  "hash_equal core_env (pair_hash RFalse) (Some (pair_hash RFalse)) = Inr True \<and>
   hash_equal core_env (pair_hash RFalse) (Some (pair_hash RTrue)) = Inr False"
proof -
  have e: "\<forall>x\<in>snd ` set (hash_cells (pair_hash RFalse)). \<forall>y\<in>snd ` set (hash_cells (pair_hash v)).
      rb_equal_obj core_env x y = Inr (x = y)" if "v \<in> {RTrue, RFalse}" for v
    using that by (auto simp: pair_hash_cells rb_equal_obj_def core_env_def core_funcall_def obj_equal_def)
  have eq: "hash_equal core_env (pair_hash RFalse) (Some (pair_hash v)) =
      Inr (\<forall>k. hash_key core_object k \<longrightarrow>
        rel_option (=) (st_assoc (tbl (pair_hash RFalse)) k) (st_assoc (tbl (pair_hash v)) k))"
    if "v \<in> {RTrue, RFalse}" for v
    by (rule hash_equal_decides [OF core.key_objects_axioms core_env_ok(2) pair_hash_ok pair_hash_ok e [OF that]])
  have "\<not> rel_option (=) (st_assoc (tbl (pair_hash RFalse)) (RFix 3)) (st_assoc (tbl (pair_hash RTrue)) (RFix 3))"
    using pair_hash_assoc [OF key_fix_ok] by (simp add: core_EQUAL_samples)
  then show ?thesis using eq [of RFalse] eq [of RTrue] key_fix_ok [of core_object 3] by (auto simp: option.rel_eq)
qed

theorem hash_delete_if_filters_witness:
  "\<exists>h'. hash_delete_if core_env (Some (\<lambda>v s. (Inr (if v = RPair key_a RTrue then RFalse else RNil), v # s)))
      (pair_hash (RFix 7)) [] = (h', [RPair key_a RTrue, RPair (RFix 3) (RFix 7)], Inr ()) \<and>
    hash_cells h' = [(key_a, RTrue)]"
proof -
  have s: "status (pair_hash (RFix 7)) = 0" by (simp add: pair_hash_def new_hash_def)
  show ?thesis
    using conjunct2 [OF hash_delete_if_filters [OF pair_hash_ok core_env_ok(2,1) s, where blk = None and s = "[]"
        and answer = "\<lambda>v. if v = RPair key_a RTrue then RFalse else RNil" and step = "\<lambda>v s. v # s"]]
    by (auto simp: pair_hash_cells key_a_def)
qed

theorem hash_delete_in_iteration_witness:
  "\<exists>h1 h2. hash_delete core_env None ((pair_hash RTrue)\<lparr>iter_lev := 1\<rparr>) (RFix 3) () = (h1, (), Inr RTrue) \<and>
    hash_clear core_env (hash_foreach_ensure h1) = Inr h2 \<and> hash_length h2 = - 1"
proof -
  let ?h = "(pair_hash RTrue)\<lparr>iter_lev := 1\<rparr>"
  have h: "is_hash core_env core_object ?h" using pair_hash_ok [of RTrue] by (simp add: is_hash_def)
  have s: "iter_lev ?h = 1" "status ?h = 0" by (simp_all add: pair_hash_def new_hash_def)
  have "bins (tbl ?h) ! nat (do_hash (RFix 3) (tbl ?h)) = (RFix 3, RTrue) # []"
    using pair_hash_bins(1) [of RTrue] by (simp add: pair_hash_def new_hash_def)
  from hash_delete_in_iteration [OF core.key_objects_axioms h core_env_ok(1) s key_fix_ok this, of None "()"] show ?thesis
    by (auto simp: core_EQUAL_samples)
qed

lemma push_cells:
  assumes "usable E" "\<And>k v a. (k, v) \<in> set es \<Longrightarrow> f k v a = ary_push E a (w (k, v))"
    and "is_array a xs" "\<not> frozen a" "length xs + length es < 1073741824 - 16"
  shows "\<exists>a'. fold_cells f es a = Inr a' \<and> is_array a' (xs @ map w es)"
  using assms(2-5)
proof (induction es arbitrary: a xs)
  case (Cons e es)
  obtain k v where e: "e = (k, v)" by (cases e)
  from ary_push_ok [OF assms(1) Cons.prems(2,3), of "w e"] Cons.prems(4) obtain a1 where
    a1: "ary_push E a (w e) = Inr a1" "is_array a1 (xs @ [w e])" "\<not> frozen a1" by auto
  from Cons.IH [OF _ a1(2,3)] Cons.prems(1,4) obtain a' where
    "fold_cells f es a1 = Inr a'" "is_array a' ((xs @ [w e]) @ map w es)" by auto
  with a1(1) Cons.prems(1) [of k v a] show ?case by (simp add: e)
qed auto

lemma collect_array:
  assumes "h_usable E" "length (hash_cells h) < 1073741824 - 16"
    and "\<And>k v a. f k v a = (if k = RNil then Inr a else ary_push (h_ary E) a (w (k, v)))"
  shows "\<exists>a. bindR (ary_new (h_ary E)) (\<lambda>a. collect_with (tbl h) f a) = Inr a \<and> is_array a (map w (hash_cells h))"
proof -
  have u: "usable (h_ary E)" using assms(1) by (simp add: h_usable_def)
  from ary_new2_ok [OF u, of ARY_DEFAULT_SIZE] obtain a where
    a: "ary_new (h_ary E) = Inr a" "is_array a []" "\<not> frozen a" by (auto simp: ary_new_def ARY_DEFAULT_SIZE_def)
  have "collect_with (tbl h) f a = fold_cells f (hash_cells h) a"
    unfolding collect_with_fold hash_cells_def by (rule fold_cells_skip) (simp add: assms(3))
  moreover have "\<exists>a'. fold_cells f (hash_cells h) a = Inr a' \<and> is_array a' ([] @ map w (hash_cells h))"
    by (rule push_cells [OF u _ a(2,3)]) (use assms(2,3) in \<open>auto simp: hash_cells_def\<close>)
  ultimately show ?thesis using a(1) by simp
qed

text \<open>
  C32: \<^verbatim>\<open>keys\<close>, \<^verbatim>\<open>values\<close> and \<^verbatim>\<open>to_a\<close> return arrays of the same length in the same order, which is the
  length of the hash; every pair of \<^verbatim>\<open>to_a\<close> is a key with the value that \<^verbatim>\<open>[]\<close> returns for it, the
  keys are pairwise different for \<^verbatim>\<open>eql?\<close>, and a key that is not among them is absent. The key \<^verbatim>\<open>nil\<close> is not
  covered.
\<close>

theorem hash_lists_entries:
  assumes "key_objects E P" and "h_usable E" and "\<not> P RNil" and "is_hash E P h" and "hash_length h < 1000000000"
  shows "\<exists>ks vs ps cells. hash_keys E h = Inr ks \<and> hash_values E h = Inr vs \<and> hash_to_a E h = Inr ps \<and>
    is_array ks (map fst cells) \<and> is_array vs (map snd cells) \<and> is_array ps (map (\<lambda>(k, v). RPair k v) cells) \<and>
    int (length cells) = hash_length h \<and>
    sorted_wrt (\<lambda>e e'. \<not> EQUAL (objhash E) (fst e) (fst e')) cells \<and>
    (\<forall>k. hash_key P k \<longrightarrow> hash_aref h k = Inr (or_nil (first_record (filter (\<lambda>e. EQUAL (objhash E) k (fst e)) cells))))"
proof -
  note H = key_objects.is_hashD [OF assms(1,4)] and C = hash_cells_all [OF assms(4,3)]
  have l: "int (length (hash_cells h)) = hash_length h" using H(3) C by (simp add: hash_length_def)
  then have n: "length (hash_cells h) < 1073741824 - 16" using assms(5) by simp
  have "sorted_wrt (\<lambda>e e'. \<not> EQUAL (objhash E) (fst e) (fst e')) (hash_cells h)"
    using assms(4) H(2) C by (simp add: is_hash_def key_table_def st_unique_def matches_def)
  moreover have "hash_aref h k = Inr (or_nil (first_record (filter (\<lambda>e. EQUAL (objhash E) k (fst e)) (hash_cells h))))"
    if "hash_key P k" for k
    using key_objects.hash_aref_assoc [OF assms(1,4) that] H(2) C by (simp add: st_assoc_def matches_def [abs_def])
  ultimately show ?thesis
    using collect_array [OF assms(2) n, of "keys_i E" fst] collect_array [OF assms(2) n, of "values_i E" snd]
      collect_array [OF assms(2) n, of "to_a_i E" "\<lambda>(k, v). RPair k v"] l
    by (fastforce simp: hash_keys_def hash_values_def hash_to_a_def keys_i_def values_i_def to_a_i_def)
qed

theorem hash_lists_entries_witness:
  "\<exists>ks vs. hash_keys core_env (pair_hash RFalse) = Inr ks \<and> hash_values core_env (pair_hash RFalse) = Inr vs \<and>
     alen ks = 2 \<and> alen vs = 2"
proof -
  have l: "hash_length (pair_hash RFalse) = 2" by (simp add: hash_length_def pair_hash_def new_hash_def)
  then have "hash_length (pair_hash RFalse) < 1000000000" by simp
  from hash_lists_entries [OF core.key_objects_axioms core_env_ok(1,2) pair_hash_ok this] l show ?thesis
    using is_arrayD(1) by fastforce
qed

end
