(* ===== verification/Environ.thy ===== *)
theory Environ
  imports RHash
begin

text \<open>
  The object ENV of \<^verbatim>\<open>src/hash.c\<close> and \<^verbatim>\<open>src/missing/setenv.c\<close>. The environment is the list of the
  C strings of \<^verbatim>\<open>environ\<close>, without their terminating zero bytes; \<^verbatim>\<open>env_path_tainted\<close> is the flag of
  the same name. \<^verbatim>\<open>getenv\<close> is the function of the C library.
\<close>

section \<open>The environment\<close>

record env_state =
  environ :: "u8 list list"
  env_path_tainted :: bool

text \<open>
  \<open>has_name nam e\<close>: \<^verbatim>\<open>strncmp(e, nam, len) == 0 && e[len] == '='\<close>; the entry is at least as long as
  the name when the first \<open>len\<close> bytes agree, since the name has no zero byte.
\<close>

definition has_name :: "u8 list \<Rightarrow> u8 list \<Rightarrow> bool" where
  "has_name nam e \<longleftrightarrow> take (length nam) e = nam \<and> length nam < length e \<and> e ! length nam = 61"

fun getenv :: "u8 list list \<Rightarrow> u8 list \<Rightarrow> u8 list option" where
  "getenv [] nam = None"
| "getenv (e # es) nam = (if has_name nam e then Some (drop (length nam + 1) e) else getenv es nam)"

definition PATH :: "u8 list" where
  "PATH = [80, 65, 84, 72]"

text \<open>\<^verbatim>\<open>str_new2\<close> of a C string, and \<^verbatim>\<open>Check_Type(v, T_STRING)\<close>.\<close>

definition str_new2 :: "str_env \<Rightarrow> u8 list \<Rightarrow> rstring result" where
  "str_new2 S bs = str_new S (Some (map Some (bs @ [0]), 0)) (int (length bs))"

fun check_string :: "'o rval \<Rightarrow> rstring result" where
  "check_string (RStr s) = Inr s"
| "check_string _ = Inl (TypeError ''wrong argument type %s (expected %s)'')"

definition rb_check_safe_str :: "'o hash_env \<Rightarrow> 'o rval \<Rightarrow> rstring result" where
  "rb_check_safe_str E x =
     (case x of
        RStr s \<Rightarrow>
          if s_safe_level (h_str E) > 0 \<and> str_tainted s then Inl (SecurityError ''Insecure operation - %s'') else Inr s
      | _ \<Rightarrow> Inl (TypeError ''wrong argument type %s (expected String)''))"

section \<open>Reading and changing variables\<close>

text \<open>The loops of \<^verbatim>\<open>env_delete\<close>: the value of the first entry of that name, and the entries without it.\<close>

fun delete_entry :: "u8 list \<Rightarrow> u8 list list \<Rightarrow> u8 list option \<times> u8 list list" where
  "delete_entry nam [] = (None, [])"
| "delete_entry nam (e # es) =
     (if has_name nam e then (Some (drop (length nam + 1) e), es)
      else case delete_entry nam es of (v, es') \<Rightarrow> (v, e # es'))"

definition env_delete :: "'o hash_env \<Rightarrow> env_state \<Rightarrow> 'o rval \<Rightarrow> (env_state \<times> 'o rval) result" where
  "env_delete E st name =
     bindR (rb_secure E 4) (\<lambda>_.
     bindR (check_string name) (\<lambda>s.
     bindR (c_string (sptr s)) (\<lambda>nam.
       let tainted = (if nam = PATH then False else env_path_tainted st) in
       case delete_entry nam (environ st) of (v, es) \<Rightarrow>
         let st' = \<lparr>environ = es, env_path_tainted = tainted\<rparr> in
         case v of None \<Rightarrow> Inr (st', RNil) | Some v \<Rightarrow> bindR (str_new2 (h_str E) v) (\<lambda>r. Inr (st', RStr r)))))"

definition f_getenv :: "'o hash_env \<Rightarrow> env_state \<Rightarrow> 'o rval \<Rightarrow> 'o rval result" where
  "f_getenv E st name =
     bindR (check_string name) (\<lambda>s.
     bindR (c_string (sptr s)) (\<lambda>nam.
       if int (length nam) \<noteq> slen s then Inl (ArgError ''Bad environment name'')
       else case getenv (environ st) nam of
              None \<Rightarrow> Inr RNil
            | Some env \<Rightarrow>
                bindR (str_new2 (h_str E) env) (\<lambda>r.
                  Inr (RStr (if nam = PATH \<and> \<not> env_path_tainted st then r else str_taint r)))))"

text \<open>\<^verbatim>\<open>setenv\<close> of \<^verbatim>\<open>missing/setenv.c\<close>; a null value removes the variable.\<close>

fun envix :: "u8 list \<Rightarrow> u8 list list \<Rightarrow> nat" where
  "envix nam [] = 0"
| "envix nam (e # es) = (if has_name nam e then 0 else Suc (envix nam es))"

definition setenv :: "u8 list \<Rightarrow> u8 list option \<Rightarrow> u8 list list \<Rightarrow> u8 list list" where
  "setenv nam val es =
     (let i = envix nam es in
      case val of
        None \<Rightarrow> take i es @ drop (i + 1) es
      | Some v \<Rightarrow> if i = length es then es @ [nam @ 61 # v] else es[i := nam @ 61 # v])"

definition f_setenv :: "'o hash_env \<Rightarrow> env_state \<Rightarrow> 'o rval \<Rightarrow> 'o rval \<Rightarrow> (env_state \<times> 'o rval) result" where
  "f_setenv E st name value =
     (if s_safe_level (h_str E) \<ge> 4 then Inl (SecurityError ''cannot change environment variable'')
      else bindR (rb_check_safe_str E name) (\<lambda>s.
           if value = RNil then bindR (env_delete E st name) (\<lambda>(st', _). Inr (st', RNil))
           else bindR (rb_check_safe_str E value) (\<lambda>t.
                bindR (c_string (sptr s)) (\<lambda>nam.
                if int (length nam) \<noteq> slen s then Inl (ArgError ''Bad environment name'')
                else bindR (c_string (sptr t)) (\<lambda>val.
                  if int (length val) \<noteq> slen t then Inl (ArgError ''Bad environment value'')
                  else Inr (\<lparr>environ = setenv nam (Some val) (environ st),
                             env_path_tainted = (if nam = PATH then False else env_path_tainted st)\<rparr>, RTrue))))))"

section \<open>Listing\<close>

text \<open>
  \<^verbatim>\<open>strchr(*env, '=')\<close> splits an entry; without the character it is a null pointer, and the address
  and the length that are computed from it are wild.
\<close>

fun split_entry :: "u8 list \<Rightarrow> (u8 list \<times> u8 list) option" where
  "split_entry [] = None"
| "split_entry (c # cs) = (if c = 61 then Some ([], cs) else map_option (\<lambda>(n, v). (c # n, v)) (split_entry cs))"

definition entry_parts :: "u8 list \<Rightarrow> (u8 list \<times> u8 list) result" where
  "entry_parts e = (case split_entry e of None \<Rightarrow> Inl OutOfBounds | Some p \<Rightarrow> Inr p)"

definition tainted_new :: "str_env \<Rightarrow> u8 list \<Rightarrow> rstring result" where
  "tainted_new S bs = bindR (str_new2 S bs) (\<lambda>s. Inr (str_taint s))"

fun push_entries :: "'o hash_env \<Rightarrow> (u8 list \<times> u8 list \<Rightarrow> 'o rval result) \<Rightarrow> u8 list list \<Rightarrow> 'o rval rarray \<Rightarrow> 'o rval rarray result" where
  "push_entries E f [] a = Inr a"
| "push_entries E f (e # es) a =
     bindR (entry_parts e) (\<lambda>p. bindR (f p) (\<lambda>v. bindR (ary_push (h_ary E) a v) (push_entries E f es)))"

definition env_keys :: "'o hash_env \<Rightarrow> env_state \<Rightarrow> 'o rval rarray result" where
  "env_keys E st =
     bindR (ary_new (h_ary E)) (\<lambda>a.
       push_entries E (\<lambda>p. bindR (tainted_new (h_str E) (fst p)) (\<lambda>s. Inr (RStr s))) (environ st) a)"

definition env_values :: "'o hash_env \<Rightarrow> env_state \<Rightarrow> 'o rval rarray result" where
  "env_values E st =
     bindR (ary_new (h_ary E)) (\<lambda>a.
       push_entries E (\<lambda>p. bindR (tainted_new (h_str E) (snd p)) (\<lambda>s. Inr (RStr s))) (environ st) a)"

definition env_to_a :: "'o hash_env \<Rightarrow> env_state \<Rightarrow> 'o rval rarray result" where
  "env_to_a E st =
     bindR (ary_new (h_ary E)) (\<lambda>a.
       push_entries E (\<lambda>p. bindR (tainted_new (h_str E) (fst p)) (\<lambda>s.
                           bindR (tainted_new (h_str E) (snd p)) (\<lambda>t. Inr (RPair (RStr s) (RStr t))))) (environ st) a)"

text \<open>The values that are passed to the block one after the other.\<close>

definition env_each_key :: "'o hash_env \<Rightarrow> env_state \<Rightarrow> 'o rval list result" where
  "env_each_key E st = bindR (env_keys E st) ary_each"

definition env_each_value :: "'o hash_env \<Rightarrow> env_state \<Rightarrow> 'o rval list result" where
  "env_each_value E st = bindR (env_values E st) ary_each"

text \<open>\<^verbatim>\<open>env_each\<close>: the block does not change the environment.\<close>

fun each_loop ::
    "'o hash_env \<Rightarrow> env_state \<Rightarrow> ('o, 's) ruby_block \<Rightarrow> 'o rval list \<Rightarrow> 's \<Rightarrow> 's \<times> unit result" where
  "each_loop E st blk [] s = (s, Inr ())"
| "each_loop E st blk (k # ks) s =
     (case f_getenv E st k of
        Inl e \<Rightarrow> (s, Inl e)
      | Inr val \<Rightarrow>
          if val = RNil then each_loop E st blk ks s
          else case rb_yield blk (RPair k val) s of
                 (Inl e, s') \<Rightarrow> (s', Inl e)
               | (Inr _, s') \<Rightarrow> each_loop E st blk ks s')"

definition env_each :: "'o hash_env \<Rightarrow> env_state \<Rightarrow> ('o, 's) ruby_block \<Rightarrow> 's \<Rightarrow> 's \<times> unit result" where
  "env_each E st blk s =
     (case env_each_key E st of Inl e \<Rightarrow> (s, Inl e) | Inr ks \<Rightarrow> each_loop E st blk ks s)"

definition rtest :: "'o rval \<Rightarrow> bool" where
  "rtest v \<longleftrightarrow> v \<noteq> RNil \<and> v \<noteq> RFalse"

fun delete_if_loop ::
    "'o hash_env \<Rightarrow> ('o, 's) ruby_block \<Rightarrow> 'o rval list \<Rightarrow> env_state \<Rightarrow> 's \<Rightarrow> env_state \<times> 's \<times> unit result" where
  "delete_if_loop E blk [] st s = (st, s, Inr ())"
| "delete_if_loop E blk (k # ks) st s =
     (case f_getenv E st k of
        Inl e \<Rightarrow> (st, s, Inl e)
      | Inr val \<Rightarrow>
          if val = RNil then delete_if_loop E blk ks st s
          else case rb_yield blk (RPair k val) s of
                 (Inl e, s') \<Rightarrow> (st, s', Inl e)
               | (Inr r, s') \<Rightarrow>
                   if rtest r then
                     (case env_delete E st k of
                        Inl e \<Rightarrow> (st, s', Inl e)
                      | Inr (st', _) \<Rightarrow> delete_if_loop E blk ks st' s')
                   else delete_if_loop E blk ks st s')"

definition env_delete_if ::
    "'o hash_env \<Rightarrow> env_state \<Rightarrow> ('o, 's) ruby_block \<Rightarrow> 's \<Rightarrow> env_state \<times> 's \<times> unit result" where
  "env_delete_if E st blk s =
     (case env_each_key E st of Inl e \<Rightarrow> (st, s, Inl e) | Inr ks \<Rightarrow> delete_if_loop E blk ks st s)"

definition env_to_s :: "'o hash_env \<Rightarrow> rstring result" where
  "env_to_s E = str_new2 (h_str E) [69, 78, 86]"

definition env_size :: "env_state \<Rightarrow> int" where
  "env_size st = int (length (environ st))"

definition env_empty_p :: "env_state \<Rightarrow> bool" where
  "env_empty_p st \<longleftrightarrow> environ st = []"

definition env_has_key :: "env_state \<Rightarrow> 'o rval \<Rightarrow> bool result" where
  "env_has_key st key =
     (case key of
        RStr s \<Rightarrow> bindR (c_string (sptr s)) (\<lambda>nam. Inr (getenv (environ st) nam \<noteq> None))
      | _ \<Rightarrow> Inr False)"

text \<open>\<^verbatim>\<open>strncmp(s, value, strlen(s)) == 0\<close>, up to the zero byte that ends \<open>value\<close>.\<close>

fun has_value_loop :: "u8 list \<Rightarrow> u8 list list \<Rightarrow> bool result" where
  "has_value_loop val [] = Inr False"
| "has_value_loop val (e # es) =
     bindR (entry_parts e) (\<lambda>p. if take (length (snd p)) val = snd p then Inr True else has_value_loop val es)"

definition env_has_value :: "env_state \<Rightarrow> 'o rval \<Rightarrow> bool result" where
  "env_has_value st value =
     (case value of
        RStr s \<Rightarrow> bindR (c_string (sptr s)) (\<lambda>val. has_value_loop val (environ st))
      | _ \<Rightarrow> Inr False)"

fun env_index :: "'o hash_env \<Rightarrow> env_state \<Rightarrow> 'o rval \<Rightarrow> 'o rval result" where
  "env_index E st (RStr s) =
     bindR (c_string (sptr s)) (\<lambda>nam.
       case getenv (environ st) nam of
         None \<Rightarrow> Inr RNil
       | Some v \<Rightarrow> bindR (str_new2 (h_str E) v) (\<lambda>r. Inr (RStr r)))"
| "env_index E st _ = Inr RNil"

fun env_indexes_loop :: "'o hash_env \<Rightarrow> env_state \<Rightarrow> 'o rval list \<Rightarrow> int \<Rightarrow> 'o rval rarray \<Rightarrow> 'o rval rarray result" where
  "env_indexes_loop E st [] i a = Inr a"
| "env_indexes_loop E st (k # argv) i a =
     bindR (env_index E st k) (\<lambda>v.
     bindR (set_cell (block (ptr a)) i v) (\<lambda>p.
       env_indexes_loop E st argv (i + 1) ((with_ptr a p)\<lparr>alen := i + 1\<rparr>)))"

definition env_indexes :: "'o hash_env \<Rightarrow> env_state \<Rightarrow> 'o rval list \<Rightarrow> 'o rval rarray result" where
  "env_indexes E st argv =
     bindR (ary_new2 (h_ary E) (int (length argv))) (\<lambda>a. env_indexes_loop E st argv 0 a)"

section \<open>The environment as a map\<close>

text \<open>
  A name has no \<^verbatim>\<open>=\<close> and no zero byte. In a well-formed environment every entry has a name, no
  two entries the same one, and no entry contains a zero byte.
\<close>

definition is_name :: "u8 list \<Rightarrow> bool" where
  "is_name n \<longleftrightarrow> 61 \<notin> set n \<and> 0 \<notin> set n"

definition environ_wf :: "u8 list list \<Rightarrow> bool" where
  "environ_wf es \<longleftrightarrow> (\<forall>e\<in>set es. split_entry e \<noteq> None \<and> 0 \<notin> set e) \<and>
     distinct (map (map_option fst \<circ> split_entry) es)"

lemma split_entry_Some: "split_entry e = Some (n, v) \<longleftrightarrow> e = n @ 61 # v \<and> 61 \<notin> set n"
proof (induction e arbitrary: n)
  case (Cons c e)
  then show ?case by (cases n) auto
qed simp

lemma has_name_iff: "61 \<notin> set n \<Longrightarrow> has_name n e \<longleftrightarrow> (\<exists>v. split_entry e = Some (n, v))"
proof -
  assume n: "61 \<notin> set n"
  have "has_name n e \<longleftrightarrow> (\<exists>v. e = n @ 61 # v)"
  proof
    assume h: "has_name n e"
    then have "e = take (length n) e @ e ! length n # drop (Suc (length n)) e"
      unfolding has_name_def using id_take_nth_drop by blast
    with h show "\<exists>v. e = n @ 61 # v" by (metis has_name_def)
  qed (auto simp: has_name_def)
  with n show ?thesis by (simp add: split_entry_Some)
qed

lemma getenv_map_of:
  assumes "61 \<notin> set n" "\<forall>e\<in>set es. split_entry e \<noteq> None"
  shows "getenv es n = map_of (map (the \<circ> split_entry) es) n"
  using assms(2)
proof (induction es)
  case (Cons e es)
  then obtain m v where e: "split_entry e = Some (m, v)" by auto
  then have "drop (length m + 1) e = v" by (simp add: split_entry_Some)
  with Cons e show ?case by (auto simp: has_name_iff [OF assms(1)])
qed simp

lemma environ_wf_parts:
  assumes "environ_wf es"
  shows "\<forall>e\<in>set es. split_entry e \<noteq> None" "distinct (map fst (map (the \<circ> split_entry) es))"
proof -
  show a: "\<forall>e\<in>set es. split_entry e \<noteq> None" using assms by (simp add: environ_wf_def)
  then have "map (map_option fst \<circ> split_entry) es = map Some (map fst (map (the \<circ> split_entry) es))" by auto
  then show "distinct (map fst (map (the \<circ> split_entry) es))"
    using assms by (simp add: environ_wf_def distinct_map del: map_map)
qed

lemma envix_length: "envix n es \<le> length es"
  by (induction es) auto

lemma envix_found: "envix n es < length es \<Longrightarrow> has_name n (es ! envix n es)"
  by (induction es) auto

lemma envix_missing: "envix n es = length es \<longleftrightarrow> (\<forall>e\<in>set es. \<not> has_name n e)"
  by (induction es) auto

lemma getenv_append: "getenv (xs @ ys) m = (case getenv xs m of None \<Rightarrow> getenv ys m | Some v \<Rightarrow> Some v)"
  by (induction xs) auto

lemma split_new [simp]: "61 \<notin> set n \<Longrightarrow> split_entry (n @ 61 # v) = Some (n, v)"
  by (simp add: split_entry_Some)

lemma getenv_setenv:
  assumes "61 \<notin> set n" "61 \<notin> set m"
  shows "getenv (setenv n (Some v) es) m = (if m = n then Some v else getenv es m)"
proof (induction es)
  case Nil
  then show ?case using assms by (auto simp: setenv_def has_name_iff)
next
  case (Cons e es)
  show ?case
  proof (cases "has_name n e")
    case True
    then show ?thesis using assms by (auto simp: setenv_def has_name_iff)
  next
    case False
    then have "setenv n (Some v) (e # es) = e # setenv n (Some v) es"
      using envix_length [of n es] by (auto simp: setenv_def Let_def)
    then show ?thesis using Cons False by auto
  qed
qed

lemma setenv_wf:
  assumes "environ_wf es" "is_name n" "0 \<notin> set v"
  shows "environ_wf (setenv n (Some v) es)"
proof (cases "envix n es = length es")
  case True
  then have "\<forall>e\<in>set es. map_option fst (split_entry e) \<noteq> Some n"
    using envix_missing [of n es] has_name_iff [of n] assms(2) by (auto simp: is_name_def)
  then show ?thesis
    using True assms by (auto simp: setenv_def environ_wf_def is_name_def)
next
  case False
  let ?i = "envix n es"
  have i: "?i < length es" using False envix_length [of n es] by simp
  then obtain w where "split_entry (es ! ?i) = Some (n, w)"
    using envix_found [of n es] has_name_iff [of n] assms(2) by (auto simp: is_name_def)
  then have "map (map_option fst \<circ> split_entry) (es[?i := n @ 61 # v]) = map (map_option fst \<circ> split_entry) es"
    using i assms(2) by (simp add: map_update is_name_def list_update_same_conv)
  then have "distinct (map (map_option fst \<circ> split_entry) (es[?i := n @ 61 # v]))"
    using assms(1) by (simp add: environ_wf_def)
  then show ?thesis
    using False assms by (auto simp: setenv_def Let_def environ_wf_def is_name_def dest!: set_update_subset_insert [THEN subsetD])
qed

lemma delete_entry_fst: "fst (delete_entry n es) = getenv es n"
  by (induction es) (auto split: prod.splits)

lemma delete_entry_filter:
  assumes "environ_wf es" "is_name n"
  shows "snd (delete_entry n es) = filter (\<lambda>e. \<not> has_name n e) es"
  using assms(1)
proof (induction es)
  case (Cons e es)
  have wf: "environ_wf es" using Cons.prems by (simp add: environ_wf_def)
  show ?case
  proof (cases "has_name n e")
    case True
    then have "map_option fst (split_entry e) = Some n" using has_name_iff [of n e] assms(2) by (auto simp: is_name_def)
    then have "\<forall>e'\<in>set es. \<not> has_name n e'"
      using Cons.prems has_name_iff [of n] assms(2) by (force simp: environ_wf_def is_name_def)
    then show ?thesis using True by simp
  next
    case False
    then show ?thesis using Cons.IH [OF wf] by (simp add: case_prod_beta)
  qed
qed simp

lemma filter_wf: "environ_wf es \<Longrightarrow> environ_wf (filter P es)"
  by (auto simp: environ_wf_def distinct_map_filter)

lemma getenv_filter:
  assumes "61 \<notin> set n" "61 \<notin> set m"
  shows "getenv (filter (\<lambda>e. \<not> has_name n e) es) m = (if m = n then None else getenv es m)"
  using assms by (induction es) (auto simp: has_name_iff)

section \<open>Properties\<close>

lemma string_c_string: "is_string s bs \<Longrightarrow> 0 \<notin> set bs \<Longrightarrow> c_string (sptr s) = Inr bs"
  using c_string_holds [of "sptr s" bs "[]"] by (simp add: is_string_def)

lemma str_new2_ok:
  assumes "s_usable S" "length bs < 1073741824"
  shows "\<exists>s. str_new2 S bs = Inr s \<and> is_string s bs"
  using str_new_ok [OF assms(1) _ _ assms(2) refl, of 0 "map Some (bs @ [0])"]
  by (auto simp: str_new2_def holds_def)

lemma f_getenv_value:
  assumes "s_usable (h_str E)" "is_string ns n" "is_name n" "getenv (environ st) n = Some v" "length v < 1073741824"
  shows "\<exists>r. f_getenv E st (RStr ns) = Inr (RStr r) \<and> is_string r v \<and> (n \<noteq> PATH \<or> env_path_tainted st \<longrightarrow> stainted r)"
proof -
  obtain r where r: "str_new2 (h_str E) v = Inr r" "is_string r v" using str_new2_ok [OF assms(1,5)] by blast
  have "c_string (sptr ns) = Inr n" using string_c_string [OF assms(2)] assms(3) by (simp add: is_name_def)
  then show ?thesis
    using r assms(4) is_stringD(1) [OF assms(2)] by (auto simp: f_getenv_def str_taint_def is_string_def)
qed

lemma env_delete_ok:
  assumes "s_usable (h_str E)" "s_safe_level (h_str E) < 4" "is_string ns n" "is_name n" "environ_wf (environ st)"
    "\<forall>v. getenv (environ st) n = Some v \<longrightarrow> length v < 1073741824"
  shows "\<exists>st' v. env_delete E st (RStr ns) = Inr (st', v) \<and> environ (st') = filter (\<lambda>e. \<not> has_name n e) (environ st)"
proof -
  have c: "c_string (sptr ns) = Inr n" using string_c_string [OF assms(3)] assms(4) by (simp add: is_name_def)
  obtain o' es where d: "delete_entry n (environ st) = (o', es)" by fastforce
  then have e: "es = filter (\<lambda>e. \<not> has_name n e) (environ st)" "o' = getenv (environ st) n"
    using delete_entry_filter [OF assms(5,4)] delete_entry_fst [of n "environ st"] by simp_all
  show ?thesis
  proof (cases o')
    case (Some v)
    then obtain r where "str_new2 (h_str E) v = Inr r" using str_new2_ok [OF assms(1)] assms(6) e(2) by metis
    then show ?thesis using c d e(1) assms(2) Some by (simp add: env_delete_def rb_secure_def Let_def)
  qed (use c d e(1) assms(2) in \<open>simp add: env_delete_def rb_secure_def Let_def\<close>)
qed

lemma take_prefix: "take (length w) v = w \<longleftrightarrow> prefix w v"
  by (metis append_eq_conv_conj prefix_def take_is_prefix)

lemma has_value_loop_ok:
  "\<forall>e\<in>set es. split_entry e \<noteq> None \<Longrightarrow>
     has_value_loop v es = Inr (\<exists>e\<in>set es. prefix (snd (the (split_entry e))) v)"
proof (induction es)
  case (Cons e es)
  then obtain n w where e: "split_entry e = Some (n, w)" by auto
  have "has_value_loop v (e # es) = (if prefix w v then Inr True else has_value_loop v es)"
    unfolding has_value_loop.simps entry_parts_def e by (simp add: take_prefix)
  with Cons e show ?case by (cases "prefix w v") simp_all
qed simp

text \<open>
  C33: ENV is a map of names to values. After \<^verbatim>\<open>ENV[name] = value\<close> every name reads as before but
  this one, which reads as the value, as a tainted string unless the name is \<^verbatim>\<open>PATH\<close>; then
  \<^verbatim>\<open>ENV[name] = nil\<close> removes it and leaves all others. The environment stays well formed.
\<close>

theorem env_implements_map:
  assumes "s_usable (h_str E)" and "s_safe_level (h_str E) = 0" and "environ_wf (environ st)"
    and "is_string ns n" and "is_name n" and "is_string vs v" and "0 \<notin> set v"
  shows "\<exists>st' st'' r. f_setenv E st (RStr ns) (RStr vs) = Inr (st', RTrue) \<and> environ_wf (environ st') \<and>
    (\<forall>m. is_name m \<longrightarrow> getenv (environ st') m = (if m = n then Some v else getenv (environ st) m)) \<and>
    f_getenv E st' (RStr ns) = Inr (RStr r) \<and> is_string r v \<and> (n \<noteq> PATH \<longrightarrow> stainted r) \<and>
    f_setenv E st' (RStr ns) RNil = Inr (st'', RNil) \<and> environ_wf (environ st'') \<and>
    (\<forall>m. is_name m \<longrightarrow> getenv (environ st'') m = (if m = n then None else getenv (environ st) m)) \<and>
    f_getenv E st'' (RStr ns) = Inr RNil"
proof -
  note n = assms(5) [unfolded is_name_def]
  have c: "c_string (sptr ns) = Inr n" "c_string (sptr vs) = Inr v"
    using string_c_string [OF assms(4)] string_c_string [OF assms(6,7)] n by simp_all
  define st' where "st' = \<lparr>environ = setenv n (Some v) (environ st), env_path_tainted = (if n = PATH then False else env_path_tainted st)\<rparr>"
  have set: "f_setenv E st (RStr ns) (RStr vs) = Inr (st', RTrue)"
    using c assms(2) is_stringD(1) [OF assms(4)] is_stringD(1) [OF assms(6)]
    by (simp add: f_setenv_def rb_check_safe_str_def st'_def)
  have wf: "environ_wf (environ st')" using setenv_wf [OF assms(3,5,7)] by (simp add: st'_def)
  have get: "\<forall>m. is_name m \<longrightarrow> getenv (environ st') m = (if m = n then Some v else getenv (environ st) m)"
    using getenv_setenv n by (simp add: st'_def is_name_def)
  then have gn: "getenv (environ st') n = Some v" using assms(5) by simp
  have l: "length v < 1073741824" by (rule is_stringD(2) [OF assms(6)])
  obtain st'' w where del: "env_delete E st' (RStr ns) = Inr (st'', w)"
    "environ st'' = filter (\<lambda>e. \<not> has_name n e) (environ st')"
    using env_delete_ok [OF assms(1) _ assms(4,5) wf] assms(2) gn l by auto
  have "\<forall>m. is_name m \<longrightarrow> getenv (environ st'') m = (if m = n then None else getenv (environ st) m)"
    using get getenv_filter n del(2) by (simp add: is_name_def)
  moreover from this have "f_getenv E st'' (RStr ns) = Inr RNil"
    using c(1) assms(5) is_stringD(1) [OF assms(4)] by (simp add: f_getenv_def)
  moreover have "f_setenv E st' (RStr ns) RNil = Inr (st'', RNil)"
    using del(1) assms(2) by (simp add: f_setenv_def rb_check_safe_str_def)
  ultimately show ?thesis
    using set wf get filter_wf [OF wf] del(2) f_getenv_value [OF assms(1,4,5) gn l] by auto
qed

theorem env_implements_map_witness:
  "\<exists>st' r. f_setenv core_env \<lparr>environ = [[65, 61, 49]], env_path_tainted = True\<rparr>
      (RStr (bytes_string PATH)) (RStr (bytes_string [47])) = Inr (st', RTrue) \<and>
    f_getenv core_env st' (RStr (bytes_string PATH)) = Inr (RStr r) \<and> is_string r [47] \<and>
    getenv (environ st') [65] = Some [49]"
proof -
  let ?st = "\<lparr>environ = [[65, 61, 49]], env_path_tainted = True\<rparr>"
  have e: "s_usable (h_str core_env)" "s_safe_level (h_str core_env) = 0"
    by (simp_all add: core_env_def sample_str_env_ok) (simp add: sample_str_env_def)
  have w: "environ_wf (environ ?st)" by (simp add: environ_wf_def)
  have p: "is_string (bytes_string PATH) PATH" "is_name PATH" "is_string (bytes_string [47]) [47]" "0 \<notin> set [47 :: u8]"
    by (simp_all add: bytes_string_ok PATH_def is_name_def)
  have "is_name [65]" "[65] \<noteq> PATH" by (simp_all add: is_name_def PATH_def)
  with env_implements_map [OF e w p] show ?thesis by (auto simp: has_name_def)
qed

text \<open>
  \<^verbatim>\<open>ENV.has_value?\<close> compares as many bytes as the value of the variable has, so it answers
  whether the value of some variable is a prefix of the argument; with a variable whose value
  is empty every string is found.
\<close>

theorem env_has_value_prefix:
  assumes "environ_wf (environ st)" and "is_string vs v" and "0 \<notin> set v"
  shows "env_has_value st (RStr vs) = Inr (\<exists>n w. getenv (environ st) n = Some w \<and> 61 \<notin> set n \<and> prefix w v)"
proof -
  note W = environ_wf_parts [OF assms(1)]
  have "env_has_value st (RStr vs) = Inr (\<exists>e\<in>set (environ st). prefix (snd (the (split_entry e))) v)"
    using string_c_string [OF assms(2,3)] has_value_loop_ok [OF W(1)] by (simp add: env_has_value_def)
  moreover have "(\<exists>e\<in>set (environ st). prefix (snd (the (split_entry e))) v) \<longleftrightarrow>
      (\<exists>n w. getenv (environ st) n = Some w \<and> 61 \<notin> set n \<and> prefix w v)"
  proof
    assume "\<exists>e\<in>set (environ st). prefix (snd (the (split_entry e))) v"
    then obtain e n w where e: "e \<in> set (environ st)" "split_entry e = Some (n, w)" "prefix w v"
      using W(1) by force
    then have "61 \<notin> set n" by (simp add: split_entry_Some)
    moreover have "getenv (environ st) n = Some w"
      using getenv_map_of [OF \<open>61 \<notin> set n\<close> W(1)] map_of_is_SomeI [OF W(2), of n w] e(1,2) by force
    ultimately show "\<exists>n w. getenv (environ st) n = Some w \<and> 61 \<notin> set n \<and> prefix w v" using e(3) by blast
  next
    assume "\<exists>n w. getenv (environ st) n = Some w \<and> 61 \<notin> set n \<and> prefix w v"
    then obtain n w where w: "getenv (environ st) n = Some w" "61 \<notin> set n" "prefix w v" by blast
    then have "(n, w) \<in> set (map (the \<circ> split_entry) (environ st))"
      using getenv_map_of [OF w(2) W(1)] map_of_SomeD by metis
    then show "\<exists>e\<in>set (environ st). prefix (snd (the (split_entry e))) v" using w(3) by (auto, metis snd_conv)
  qed
  ultimately show ?thesis by simp
qed

theorem env_has_value_prefix_witness:
  "env_has_value \<lparr>environ = [[65, 61]], env_path_tainted = True\<rparr> (RStr (bytes_string [47])) = Inr True"
proof -
  let ?st = "\<lparr>environ = [[65, 61]], env_path_tainted = True\<rparr>"
  have w: "environ_wf (environ ?st)" by (simp add: environ_wf_def)
  have p: "is_string (bytes_string [47]) [47]" "0 \<notin> set [47 :: u8]" by (simp_all add: bytes_string_ok)
  have "\<exists>n w. getenv (environ ?st) n = Some w \<and> 61 \<notin> set n \<and> prefix w [47]"
    by (intro exI [of _ "[65]"] exI [of _ "[]"]) (simp add: has_name_def)
  then show ?thesis using env_has_value_prefix [OF w p] by (simp only:)
qed

end
