(* ===== verification/Fnmatch.thy ===== *)
theory Fnmatch
  imports Prelude "HOL-Library.Sublist"
begin

text \<open>
  File name patterns, \<^verbatim>\<open>src/fnmatch.c\<close>. A C string is the list of its bytes with the terminating
  zero byte, and a pointer into it is a suffix; reading the empty list is reading behind the
  string. The result 0 is a match and \<open>FNM_NOMATCH\<close> is 1. The meaning of patterns is the inductive
  relation \<open>glob\<close>, against which the matcher is verified.
\<close>

section \<open>The matcher\<close>

type_synonym c_chars = "u8 list"

definition FNM_PATHNAME :: u32 where "FNM_PATHNAME = 1"
definition FNM_NOESCAPE :: u32 where "FNM_NOESCAPE = 2"
definition FNM_PERIOD :: u32 where "FNM_PERIOD = 4"
definition FNM_FLAGS :: u32 where "FNM_FLAGS = 7"
definition FNM_NOMATCH :: int where "FNM_NOMATCH = 1"

definition flag :: "u32 \<Rightarrow> u32 \<Rightarrow> bool" where
  "flag flags b \<longleftrightarrow> flags AND b \<noteq> 0"

text \<open>\<open>deref p\<close> is \<^verbatim>\<open>*p\<close> and \<open>fetch p\<close> is \<^verbatim>\<open>*p++\<close>, the character and the pointer behind it.\<close>

fun deref :: "c_chars \<Rightarrow> u8 result" where
  "deref [] = Inl OutOfBounds"
| "deref (c # p) = Inr c"

fun fetch :: "c_chars \<Rightarrow> (u8 \<times> c_chars) result" where
  "fetch [] = Inl OutOfBounds"
| "fetch (c # p) = Inr (c, p)"

text \<open>
  \<open>before\<close> is the character \<^verbatim>\<open>n[-1]\<close>, absent at the start of the string. The test of the leading
  period, given the current character.
\<close>

definition leading_period :: "u32 \<Rightarrow> u8 option \<Rightarrow> u8 \<Rightarrow> bool" where
  "leading_period flags before x \<longleftrightarrow>
     flag flags FNM_PERIOD \<and> x = 46 \<and> (before = None \<or> flag flags FNM_PATHNAME \<and> before = Some 47)"

text \<open>The scan for a closing bracket, up to the end of the pattern.\<close>

fun find_close :: "c_chars \<Rightarrow> bool result" where
  "find_close [] = Inl OutOfBounds"
| "find_close (c # np) = (if c = 0 then Inr False else if c = 93 then Inr True else find_close np)"

text \<open>\<open>escaped\<close>: a backslash takes the next character, unless the flags forbid it.\<close>

definition escaped :: "u32 \<Rightarrow> u8 \<Rightarrow> c_chars \<Rightarrow> (u8 \<times> c_chars) result" where
  "escaped flags c p = (if \<not> flag flags FNM_NOESCAPE \<and> c = 92 then fetch p else Inr (c, p))"

text \<open>
  One round of the loop over the members of a class, up to the comparison: the ends of the range,
  the next character and the pointer behind it; \<open>None\<close> is a return of \<open>FNM_NOMATCH\<close>.
\<close>

definition class_member :: "u32 \<Rightarrow> u8 \<Rightarrow> c_chars \<Rightarrow> (u8 \<times> u8 \<times> u8 \<times> c_chars) option result" where
  "class_member flags c p =
     bindR (escaped flags c p) (\<lambda>(cstart, p).
       if c = 0 then Inr None
       else bindR (fetch p) (\<lambda>(c, p).
         if flag flags FNM_PATHNAME \<and> c = 47 then Inr None
         else bindR (if c = 45 then bindR (deref p) (\<lambda>q. Inr (q \<noteq> 93)) else Inr False) (\<lambda>range.
           if range then
             bindR (fetch p) (\<lambda>(cend, p).
             bindR (escaped flags cend p) (\<lambda>(cend, p).
               if cend = 0 then Inr None
               else bindR (fetch p) (\<lambda>(c, p). Inr (Some (cstart, cend, c, p)))))
           else Inr (Some (cstart, cstart, c, p)))))"

lemma fetch_shorter: "fetch p = Inr (c, p') \<Longrightarrow> length p' < length p"
  by (cases p) auto

lemma escaped_shorter: "escaped flags c p = Inr (c', p') \<Longrightarrow> length p' \<le> length p"
  using fetch_shorter [of p c' p'] by (auto simp: escaped_def split: if_splits)

lemma class_member_shorter: "class_member flags c p = Inr (Some (s, e, c', p')) \<Longrightarrow> length p' < length p"
  by (fastforce simp: class_member_def split: if_splits dest!: escaped_shorter fetch_shorter)

text \<open>
  The loop: \<open>Matched c p\<close> leaves at the label \<^verbatim>\<open>matched\<close>, \<open>Closed p\<close> ends at the closing bracket, and
  \<open>Loses\<close> is a return of \<open>FNM_NOMATCH\<close>. Characters are signed in the comparison.
\<close>

datatype class_end = Matched u8 c_chars | Closed c_chars | Loses

function class_loop :: "u32 \<Rightarrow> u8 \<Rightarrow> u8 \<Rightarrow> c_chars \<Rightarrow> class_end result" where
  "class_loop flags x c p =
     (case class_member flags c p of
        Inl e \<Rightarrow> Inl e
      | Inr None \<Rightarrow> Inr Loses
      | Inr (Some (cstart, cend, c', p')) \<Rightarrow>
          if cstart \<le>s x \<and> x \<le>s cend then Inr (Matched c' p')
          else if c' = 93 then Inr (Closed p')
          else class_loop flags x c' p')"
  by pat_completeness auto
termination by (relation "measure (\<lambda>(flags, x, c, p). length p)") (auto dest: class_member_shorter)

declare class_loop.simps [simp del]

text \<open>The loop at \<^verbatim>\<open>matched\<close>, which skips the rest of the class.\<close>

function skip_class :: "u32 \<Rightarrow> u8 \<Rightarrow> c_chars \<Rightarrow> c_chars option result" where
  "skip_class flags c p =
     (if c = 93 then Inr (Some p)
      else if c = 0 then Inr None
      else (case fetch p of
              Inl e \<Rightarrow> Inl e
            | Inr (c', p') \<Rightarrow> skip_class flags c' (if \<not> flag flags FNM_NOESCAPE \<and> c' = 92 then tl p' else p')))"
  by pat_completeness auto
termination
  by (relation "measure (\<lambda>(flags, c, p). length p)") (auto dest: fetch_shorter)

declare skip_class.simps [simp del]

text \<open>
  \<open>bracket flags x p\<close>: the case of \<^verbatim>\<open>[\<close> for the character \<open>x\<close>, with \<open>p\<close> behind the bracket. \<open>Some p'\<close> goes on
  behind the class (or behind the bracket itself, when nothing closes it), \<open>None\<close> does not match.
\<close>

definition bracket :: "u32 \<Rightarrow> u8 \<Rightarrow> c_chars \<Rightarrow> c_chars option result" where
  "bracket flags x p =
     bindR (find_close p) (\<lambda>closes.
       if \<not> closes then Inr (if x \<noteq> 91 then None else Some p)
       else bindR (deref p) (\<lambda>q.
         let not = (q = 33 \<or> q = 94) in
         bindR (fetch (if not then tl p else p)) (\<lambda>(c, p).
         bindR (class_loop flags x c p) (\<lambda>r.
           case r of
             Loses \<Rightarrow> Inr None
           | Closed p' \<Rightarrow> Inr (if not then Some p' else None)
           | Matched c p' \<Rightarrow>
               bindR (skip_class flags c p') (\<lambda>s. Inr (if not then None else s))))))"

text \<open>
  The loop behind a \<^verbatim>\<open>*\<close> over further stars and question marks, each of which moves \<open>n\<close> by one
  character; \<open>None\<close> does not match, otherwise the next character, and the pointers behind it.
\<close>

fun skip_stars :: "u32 \<Rightarrow> c_chars \<Rightarrow> c_chars \<Rightarrow> (u8 \<times> c_chars \<times> c_chars) option result" where
  "skip_stars flags [] n = Inl OutOfBounds"
| "skip_stars flags (c # p) n =
     (if c = 63 \<or> c = 42 then
        bindR (if flag flags FNM_PATHNAME then bindR (deref n) (\<lambda>x. Inr (x = 47)) else Inr False) (\<lambda>slash.
        bindR (if slash then Inr True else if c = 63 then bindR (deref n) (\<lambda>x. Inr (x = 0)) else Inr False) (\<lambda>fails.
          if fails then Inr None else skip_stars flags p (tl n)))
      else Inr (Some (c, p, n)))"

text \<open>The loop that tries the rest of the pattern at every position where it can start.\<close>

fun first_match :: "(u8 \<Rightarrow> bool) \<Rightarrow> (c_chars \<Rightarrow> int result) \<Rightarrow> c_chars \<Rightarrow> int result" where
  "first_match starts m [] = Inl OutOfBounds"
| "first_match starts m (x # n) =
     (if x = 0 then Inr FNM_NOMATCH
      else if starts x then
        bindR (m (x # n)) (\<lambda>r. if r = 0 then Inr 0 else first_match starts m n)
      else first_match starts m n)"

lemma class_loop_shorter:
  "class_loop flags x c p = Inr r \<Longrightarrow>
     (case r of Matched c' p' \<Rightarrow> length p' < length p | Closed p' \<Rightarrow> length p' < length p | Loses \<Rightarrow> True)"
proof (induction flags x c p rule: class_loop.induct)
  case (1 flags x c p)
  then show ?case
    by (subst (asm) (2) class_loop.simps)
      (force split: sum.splits option.splits prod.splits if_splits class_end.splits dest: class_member_shorter)
qed

lemma skip_class_shorter: "skip_class flags c p = Inr (Some p') \<Longrightarrow> length p' \<le> length p"
proof (induction flags c p rule: skip_class.induct)
  case (1 flags c p)
  then show ?case
    by (subst (asm) (2) skip_class.simps) (force split: sum.splits prod.splits if_splits dest: fetch_shorter)
qed

lemma bracket_shorter:
  assumes "bracket flags x p = Inr (Some p')" shows "length p' \<le> length p"
proof -
  from assms obtain closes where c: "find_close p = Inr closes" by (auto simp: bracket_def)
  show ?thesis
  proof (cases closes)
    case False
    then show ?thesis using assms c by (simp add: bracket_def split: if_splits)
  next
    case True
    from assms c True obtain q c' p1 r where q: "fetch (if q = (33 :: u8) \<or> q = 94 then tl p else p) = Inr (c', p1)"
      "class_loop flags x c' p1 = Inr r"
      "(case r of Loses \<Rightarrow> Inr None
        | Closed p' \<Rightarrow> Inr (if q = 33 \<or> q = 94 then Some p' else None)
        | Matched c p' \<Rightarrow> bindR (skip_class flags c p') (\<lambda>s. Inr (if q = 33 \<or> q = 94 then None else s))) = Inr (Some p')"
      by (auto simp: bracket_def Let_def)
    have "length p1 \<le> length p" using fetch_shorter [OF q(1)] by (cases p) (auto split: if_splits)
    then show ?thesis
      using class_loop_shorter [OF q(2)] q(3)
      by (cases r) (auto split: if_splits dest: skip_class_shorter)
  qed
qed

lemma skip_stars_shorter: "skip_stars flags p n = Inr (Some (c, p', n')) \<Longrightarrow> length p' < length p"
proof (induction flags p n rule: skip_stars.induct)
  case (2 flags c p n)
  then show ?case by (fastforce split: if_splits)
qed simp

text \<open>
  \<^verbatim>\<open>fnmatch\<close> from \<open>p\<close> and \<open>n\<close> on; the test of the flags is in \<open>fnmatch\<close>. The character \<^verbatim>\<open>*n\<close> is read
  first: \<open>n\<close> leaves its string only together with \<open>p\<close> (a backslash that ends the pattern), so this reading
  fails only where the one of \<^verbatim>\<open>*p++\<close> failed before.
\<close>

function match_from :: "u32 \<Rightarrow> u8 option \<Rightarrow> c_chars \<Rightarrow> c_chars \<Rightarrow> int result" where
  "match_from flags before p n =
     (case fetch p of
        Inl e \<Rightarrow> Inl e
      | Inr (c, p) \<Rightarrow>
          (case deref n of
             Inl e \<Rightarrow> Inl e
           | Inr x \<Rightarrow>
               if c = 0 then Inr (if x = 0 then 0 else FNM_NOMATCH)
               else if c = 63 then
                 (if x = 0 \<or> flag flags FNM_PATHNAME \<and> x = 47 \<or> leading_period flags before x then Inr FNM_NOMATCH
                  else match_from flags (Some x) p (tl n))
               else if c = 92 then
                 (case (if \<not> flag flags FNM_NOESCAPE then fetch p else Inr (c, p)) of
                    Inl e \<Rightarrow> Inl e
                  | Inr (c', p') \<Rightarrow> if x \<noteq> c' then Inr FNM_NOMATCH else match_from flags (Some x) p' (tl n))
               else if c = 42 then
                 (if leading_period flags before x then Inr FNM_NOMATCH
                  else (case skip_stars flags p n of
                          Inl e \<Rightarrow> Inl e
                        | Inr None \<Rightarrow> Inr FNM_NOMATCH
                        | Inr (Some (c', p', n')) \<Rightarrow>
                            if c' = 0 then Inr 0
                            else (case (if \<not> flag flags FNM_NOESCAPE \<and> c' = 92 then deref p' else Inr c') of
                                    Inl e \<Rightarrow> Inl e
                                  | Inr c1 \<Rightarrow>
                                      first_match (\<lambda>y. c' = 91 \<or> y = c1)
                                        (\<lambda>m. match_from (flags AND NOT FNM_PERIOD) None (c' # p') m) n')))
               else if c = 91 then
                 (if x = 0 \<or> leading_period flags before x then Inr FNM_NOMATCH
                  else (case bracket flags x p of
                          Inl e \<Rightarrow> Inl e
                        | Inr None \<Rightarrow> Inr FNM_NOMATCH
                        | Inr (Some p') \<Rightarrow> match_from flags (Some x) p' (tl n)))
               else if c \<noteq> x then Inr FNM_NOMATCH
               else match_from flags (Some x) p (tl n)))"
  by pat_completeness auto
termination
  by (relation "measure (\<lambda>(flags, before, p, n). length p)")
    (force dest: fetch_shorter bracket_shorter skip_stars_shorter split: if_splits)+

declare match_from.simps [simp del]

text \<open>The result \<open>- 1\<close> reports unknown flags.\<close>

definition fnmatch :: "c_chars \<Rightarrow> c_chars \<Rightarrow> u32 \<Rightarrow> int result" where
  "fnmatch pattern string flags =
     (if flags AND NOT FNM_FLAGS \<noteq> 0 then Inr (- 1) else match_from flags None pattern string)"

section \<open>What patterns mean\<close>

datatype class_item = is_One: One u8 | Range u8 u8

datatype glob_token = Lit u8 | Quoted u8 | AnyChar | Star | Class bool "class_item list"

fun in_item :: "class_item \<Rightarrow> u8 \<Rightarrow> bool" where
  "in_item (One a) x \<longleftrightarrow> x = a"
| "in_item (Range a b) x \<longleftrightarrow> a \<le>s x \<and> x \<le>s b"

definition in_class :: "bool \<Rightarrow> class_item list \<Rightarrow> u8 \<Rightarrow> bool" where
  "in_class neg rs x \<longleftrightarrow> (\<exists>i\<in>set rs. in_item i x) \<noteq> neg"

inductive glob :: "glob_token list \<Rightarrow> u8 list \<Rightarrow> bool" where
  glob_end: "glob [] []"
| glob_lit: "glob ts s \<Longrightarrow> glob (Lit c # ts) (c # s)"
| glob_quoted: "glob ts s \<Longrightarrow> glob (Quoted c # ts) (c # s)"
| glob_any: "glob ts s \<Longrightarrow> glob (AnyChar # ts) (x # s)"
| glob_class: "in_class neg rs x \<Longrightarrow> glob ts s \<Longrightarrow> glob (Class neg rs # ts) (x # s)"
| glob_star_none: "glob ts s \<Longrightarrow> glob (Star # ts) s"
| glob_star_more: "glob (Star # ts) s \<Longrightarrow> glob (Star # ts) (x # s)"

inductive_simps glob_simps [simp]: "glob [] s" "glob (Lit c # ts) s" "glob (Quoted c # ts) s" "glob (AnyChar # ts) s" "glob (Class neg rs # ts) s"
inductive_cases glob_starE: "glob (Star # ts) s"

text \<open>The text of a pattern: a quoted character has a backslash before it.\<close>

fun render_item :: "class_item \<Rightarrow> u8 list" where
  "render_item (One a) = [a]"
| "render_item (Range a b) = [a, 45, b]"

definition render_items :: "class_item list \<Rightarrow> u8 list" where
  "render_items rs = concat (map render_item rs)"

fun render_token :: "glob_token \<Rightarrow> u8 list" where
  "render_token (Lit c) = [c]"
| "render_token (Quoted c) = [92, c]"
| "render_token AnyChar = [63]"
| "render_token Star = [42]"
| "render_token (Class neg rs) = 91 # (if neg then [33] else []) @ render_items rs @ [93]"

definition render :: "glob_token list \<Rightarrow> u8 list" where
  "render ts = concat (map render_token ts)"

text \<open>
  Tokens that can be written this way: plain characters other than the special ones, any quoted character, and
  classes, also negated ones, with at least one member, none of which has a backslash, a closing bracket or (as
  its first character) an exclamation mark or a caret; a single member before a minus sign would start a range.
  In a pattern, a character or class that must be matched stands between a star and the next star.
\<close>

fun item_ok :: "class_item \<Rightarrow> bool" where
  "item_ok (One a) \<longleftrightarrow> a \<notin> {0, 92, 93, 33, 94}"
| "item_ok (Range a b) \<longleftrightarrow> a \<notin> {0, 92, 93, 33, 94} \<and> b \<notin> {0, 92, 93}"

fun items_ok :: "class_item list \<Rightarrow> bool" where
  "items_ok [] \<longleftrightarrow> True"
| "items_ok (i # rs) \<longleftrightarrow> item_ok i \<and> (is_One i \<and> rs \<noteq> [] \<longrightarrow> hd (render_items rs) \<noteq> 45) \<and> items_ok rs"

fun token_ok :: "glob_token \<Rightarrow> bool" where
  "token_ok (Lit c) = (c \<notin> {0, 63, 42, 91, 92})"
| "token_ok (Quoted c) = (c \<noteq> 0)"
| "token_ok (Class neg rs) = (rs \<noteq> [] \<and> items_ok rs)"
| "token_ok _ = True"

fun starless :: "glob_token list \<Rightarrow> bool" where
  "starless (Star # ts) = False"
| "starless (AnyChar # ts) = starless ts"
| "starless _ = True"

fun pattern_ok :: "glob_token list \<Rightarrow> bool" where
  "pattern_ok [] = True"
| "pattern_ok (t # ts) = (token_ok t \<and> (t = Star \<longrightarrow> starless ts) \<and> pattern_ok ts)"

definition answer :: "bool \<Rightarrow> int result" where
  "answer b = Inr (if b then 0 else FNM_NOMATCH)"

lemma flag_0 [simp]: "flag 0 b = False"
  by (simp add: flag_def)

lemma leading_period_0 [simp]: "leading_period 0 before x = False"
  by (simp add: leading_period_def)

lemma render_simps [simp]: "render [] = []" "render (t # ts) = render_token t @ render ts"
  by (simp_all add: render_def)

lemma render_items_simps [simp]:
  "render_items [] = []" "render_items (r # rs) = render_item r @ render_items rs"
  by (simp_all add: render_items_def)

lemma in_class_simps [simp]:
  "in_class neg [] x \<longleftrightarrow> neg" "in_class neg (r # rs) x \<longleftrightarrow> (if in_item r x then \<not> neg else in_class neg rs x)"
  by (auto simp: in_class_def)

text \<open>The matcher on one token that is not a star.\<close>

lemma match_any:
  "0 \<notin> set s \<Longrightarrow> match_from 0 before (63 # p) (s @ [0]) =
     (case s of [] \<Rightarrow> answer False | x # s' \<Rightarrow> match_from 0 (Some x) p (s' @ [0]))"
  by (subst match_from.simps) (auto simp: answer_def split: list.splits)

lemma match_lit:
  assumes "token_ok (Lit c)"
  shows "match_from 0 before (c # p) (s @ [0]) =
    (case s of [] \<Rightarrow> answer False | x # s' \<Rightarrow> if x = c then match_from 0 (Some x) p (s' @ [0]) else answer False)"
  using assms by (subst match_from.simps) (auto simp: answer_def split: list.splits)

lemma match_quoted:
  assumes "c \<noteq> 0"
  shows "match_from 0 before (92 # c # p) (s @ [0]) =
    (case s of [] \<Rightarrow> answer False | x # s' \<Rightarrow> if x = c then match_from 0 (Some x) p (s' @ [0]) else answer False)"
  using assms by (subst match_from.simps) (auto simp: answer_def split: list.splits)

text \<open>The members of a class: the character behind a member is \<open>c\<close>, the first one of the next member or the bracket.\<close>

abbreviation item_char :: "class_item \<Rightarrow> u8" where "item_char i \<equiv> hd (render_item i)"
abbreviation item_rest :: "class_item \<Rightarrow> u8 list" where "item_rest i \<equiv> tl (render_item i)"

lemma item_char_ok: "item_ok i \<Longrightarrow> item_char i \<notin> {0, 92, 93, 33, 94}"
  by (cases i) simp_all

lemma signed_eq: "(a :: u8) \<le>s x \<and> x \<le>s a \<longleftrightarrow> x = a"
proof -
  have "a \<le>s x \<and> x \<le>s a \<longleftrightarrow> sint x = sint a" by (auto simp: word_sle_eq)
  then show ?thesis by (metis signed_word_eqI)
qed

lemma class_member_item:
  assumes "item_ok i" "is_One i \<longrightarrow> c \<noteq> 45"
  obtains lo hi where "class_member 0 (item_char i) (item_rest i @ c # p) = Inr (Some (lo, hi, c, p))"
    "\<And>x. in_item i x \<longleftrightarrow> lo \<le>s x \<and> x \<le>s hi"
proof (cases i)
  case (One a)
  then have "class_member 0 a (c # p) = Inr (Some (a, a, c, p))"
    using assms by (simp add: class_member_def escaped_def del: bindR_Inr_conv)
  then show ?thesis using that [of a a] One by (simp add: signed_eq)
next
  case (Range a b)
  then have "class_member 0 a (45 # b # c # p) = Inr (Some (a, b, c, p))"
    using assms by (simp add: class_member_def escaped_def del: bindR_Inr_conv)
  then show ?thesis using that [of a b] Range by simp
qed

lemma skip_item:
  assumes "item_ok i" "c \<noteq> 92"
  shows "skip_class 0 (item_char i) (item_rest i @ c # p) = skip_class 0 c p"
proof (cases i)
  case (One a)
  then show ?thesis using assms by (simp add: skip_class.simps [of 0 a])
next
  case (Range a b)
  then show ?thesis using assms
    by (simp add: skip_class.simps [of 0 a] skip_class.simps [of 0 45] skip_class.simps [of 0 b])
qed

lemma find_close_items: "items_ok rs \<Longrightarrow> find_close (render_items rs @ 93 # p) = Inr True"
proof (induction rs)
  case (Cons i rs)
  then show ?case by (cases i) simp_all
qed simp

text \<open>What follows a member: the rest of the class.\<close>

lemma class_rest:
  assumes "items_ok (i # rs)"
  obtains c q where "render_items rs @ 93 # p = c # q" "is_One i \<longrightarrow> c \<noteq> 45" "c \<noteq> 92"
    "rs = [] \<Longrightarrow> c = 93 \<and> q = p" "rs \<noteq> [] \<Longrightarrow> c \<noteq> 93 \<and> c = item_char (hd rs) \<and> q = item_rest (hd rs) @ render_items (tl rs) @ 93 # p"
proof (cases rs)
  case Nil
  then show ?thesis using that by simp
next
  case (Cons j js)
  then have ok: "items_ok (j # js)" "is_One i \<longrightarrow> hd (render_items (j # js)) \<noteq> 45" using assms by simp_all
  have c: "item_char j \<notin> {0, 92, 93, 33, 94}" by (rule item_char_ok) (use ok(1) in simp)
  have "hd (render_items (j # js)) = item_char j" by (cases j) simp_all
  with ok(2) have o: "is_One i \<longrightarrow> item_char j \<noteq> 45" by metis
  have e: "render_items rs @ 93 # p = item_char j # item_rest j @ render_items js @ 93 # p"
    unfolding Cons by (cases j) simp_all
  show ?thesis by (rule that [OF e o]) (use c Cons in simp_all)
qed

lemma skip_class_items:
  "items_ok (i # rs) \<Longrightarrow> skip_class 0 (item_char i) (item_rest i @ render_items rs @ 93 # p) = Inr (Some p)"
proof (induction rs arbitrary: i)
  case Nil
  then show ?case using skip_item [of i 93 p] by (simp add: skip_class.simps [of 0 93])
next
  case (Cons j js)
  obtain c q where c: "render_items (j # js) @ 93 # p = c # q" "c \<noteq> 92" "c = item_char j"
    "q = item_rest j @ render_items js @ 93 # p"
    by (rule class_rest [OF Cons.prems, of p]) auto
  then show ?case using skip_item [of i c q] Cons by (simp del: render_items_simps)
qed

lemma class_loop_items:
  "items_ok (i # rs) \<Longrightarrow> \<exists>r. class_loop 0 x (item_char i) (item_rest i @ render_items rs @ 93 # p) = Inr r \<and>
    (case r of Loses \<Rightarrow> False
     | Closed p' \<Rightarrow> p' = p \<and> in_class True (i # rs) x
     | Matched c p' \<Rightarrow> skip_class 0 c p' = Inr (Some p) \<and> in_class False (i # rs) x)"
proof (induction rs arbitrary: i)
  case Nil
  then have ok: "item_ok i" by simp
  obtain lo hi where m: "class_member 0 (item_char i) (item_rest i @ 93 # p) = Inr (Some (lo, hi, 93, p))"
    "\<And>x. in_item i x \<longleftrightarrow> lo \<le>s x \<and> x \<le>s hi" using class_member_item [OF ok, of 93 p] by auto
  then have "class_loop 0 x (item_char i) (item_rest i @ 93 # p) = Inr (if in_item i x then Matched 93 p else Closed p)"
    by (subst class_loop.simps) simp
  then show ?case by (simp add: skip_class.simps [of 0 93])
next
  case (Cons j js)
  obtain c q where c: "render_items (j # js) @ 93 # p = c # q" "is_One i \<longrightarrow> c \<noteq> 45" "c \<noteq> 92" "c \<noteq> 93" "c = item_char j"
    "q = item_rest j @ render_items js @ 93 # p"
    by (rule class_rest [OF Cons.prems, of p]) auto
  have ok: "item_ok i" "items_ok (j # js)" using Cons.prems by simp_all
  obtain lo hi where m: "class_member 0 (item_char i) (item_rest i @ c # q) = Inr (Some (lo, hi, c, q))"
    "\<And>x. in_item i x \<longleftrightarrow> lo \<le>s x \<and> x \<le>s hi" using class_member_item [OF ok(1) c(2), of q] by auto
  have l: "class_loop 0 x (item_char i) (item_rest i @ c # q) =
      (if in_item i x then Inr (Matched c q) else class_loop 0 x c q)"
    using m c(4) by (subst class_loop.simps) simp
  have s: "skip_class 0 c q = Inr (Some p)" using skip_class_items [OF ok(2), of p] c(5,6) by simp
  show ?case
  proof (cases "in_item i x")
    case True
    then show ?thesis unfolding c(1) using l s by simp
  next
    case False
    then have n: "in_class neg (i # j # js) x = in_class neg (j # js) x" for neg by simp
    show ?thesis unfolding c(1) n using l False Cons.IH [OF ok(2)] c(5,6) by simp
  qed
qed

lemma match_class:
  assumes "rs \<noteq> []" "items_ok rs" "0 \<notin> set s"
  shows "match_from 0 before (render_token (Class neg rs) @ p) (s @ [0]) =
    (case s of [] \<Rightarrow> answer False
     | x # s' \<Rightarrow> if in_class neg rs x then match_from 0 (Some x) p (s' @ [0]) else answer False)"
proof (cases s)
  case Nil
  then show ?thesis by (subst match_from.simps) (simp add: answer_def)
next
  case (Cons x s')
  obtain i rs' where rs: "rs = i # rs'" using assms(1) by (cases rs) auto
  define a where "a = item_char i"
  define q where "q = item_rest i @ render_items rs' @ 93 # p"
  have e: "render_items rs @ 93 # p = a # q" using rs by (cases i) (simp_all add: a_def q_def)
  have a: "a \<notin> {33, 94}" using assms(2) rs item_char_ok [of i] by (auto simp: a_def)
  obtain r where r: "class_loop 0 x a q = Inr r"
    "(case r of Loses \<Rightarrow> False
      | Closed p' \<Rightarrow> p' = p \<and> in_class True rs x
      | Matched c p' \<Rightarrow> skip_class 0 c p' = Inr (Some p) \<and> in_class False rs x)"
    using class_loop_items [of i rs' x p] assms(2) rs by (auto simp: a_def q_def)
  have f: "find_close (a # q) = Inr True" using find_close_items [OF assms(2), of p] e by simp
  have "bracket 0 x ((if neg then [33] else []) @ a # q) = Inr (if in_class neg rs x then Some p else None)"
    using f r a by (cases r; cases neg) (auto simp: bracket_def in_class_def)
  then show ?thesis using Cons assms(3) e by (subst match_from.simps) (auto simp: answer_def)
qed

section \<open>Stars\<close>

lemma glob_star_iff: "glob (Star # ts) s \<longleftrightarrow> (\<exists>k\<le>length s. glob ts (drop k s))"
proof
  show "glob (Star # ts) s \<Longrightarrow> \<exists>k\<le>length s. glob ts (drop k s)"
  proof (induction s)
    case Nil
    then show ?case by (auto elim: glob_starE)
  next
    case (Cons x s)
    from Cons.prems show ?case
    proof (rule glob_starE)
      assume "glob ts (x # s)"
      then show ?thesis by (intro exI [of _ 0]) simp
    next
      fix x' s' assume "x # s = x' # s'" "glob (Star # ts) s'"
      with Cons.IH obtain k where "k \<le> length s" "glob ts (drop k s)" by auto
      then show ?thesis by (intro exI [of _ "Suc k"]) simp
    qed
  qed
next
  have "glob ts (drop k s) \<Longrightarrow> k \<le> length s \<Longrightarrow> glob (Star # ts) s" for k
    by (induction k arbitrary: s) (auto intro: glob.intros simp: Suc_le_length_iff)
  then show "\<exists>k\<le>length s. glob ts (drop k s) \<Longrightarrow> glob (Star # ts) s" by blast
qed

lemma glob_anys: "glob (replicate k AnyChar @ ts) s \<longleftrightarrow> k \<le> length s \<and> glob ts (drop k s)"
proof (induction k arbitrary: s)
  case (Suc k)
  then show ?case by (cases s) auto
qed simp

lemma glob_star_anys: "glob (Star # replicate k AnyChar @ ts) s \<longleftrightarrow> k \<le> length s \<and> glob (Star # ts) (drop k s)"
proof
  assume "glob (Star # replicate k AnyChar @ ts) s"
  then obtain j where "j \<le> length s" "k \<le> length s - j" "glob ts (drop (k + j) s)"
    by (auto simp: glob_star_iff glob_anys)
  then show "k \<le> length s \<and> glob (Star # ts) (drop k s)"
    by (auto simp: glob_star_iff add.commute intro!: exI [of _ j])
next
  assume "k \<le> length s \<and> glob (Star # ts) (drop k s)"
  then obtain j where "k \<le> length s" "j \<le> length s - k" "glob ts (drop (j + k) s)"
    by (auto simp: glob_star_iff)
  then show "glob (Star # replicate k AnyChar @ ts) s"
    by (auto simp: glob_star_iff glob_anys add.commute intro!: exI [of _ j])
qed

text \<open>The tokens behind a star: question marks, then the end or a token that needs a character.\<close>

lemma starless_split:
  "starless ts \<Longrightarrow> \<exists>k us. ts = replicate k AnyChar @ us \<and>
     (us = [] \<or> (\<exists>c us'. us = Lit c # us') \<or> (\<exists>c us'. us = Quoted c # us') \<or> (\<exists>neg rs us'. us = Class neg rs # us'))"
proof (induction ts rule: starless.induct)
  case (2 ts)
  then obtain k us where "ts = replicate k AnyChar @ us"
    "us = [] \<or> (\<exists>c us'. us = Lit c # us') \<or> (\<exists>c us'. us = Quoted c # us') \<or> (\<exists>neg rs us'. us = Class neg rs # us')"
    by auto
  then show ?case by (intro exI [of _ "Suc k"] exI [of _ us]) simp
qed (simp_all add: exI [of _ "0 :: nat"])

lemma skip_anys:
  assumes "0 \<notin> set s" "p \<noteq> []" "hd p \<notin> {63, 42}"
  shows "skip_stars 0 (replicate k 63 @ p) (s @ [0]) =
    Inr (if k \<le> length s then Some (hd p, tl p, drop k s @ [0]) else None)"
  using assms(1)
proof (induction k arbitrary: s)
  case 0
  then show ?case using assms(2,3) by (cases p) auto
next
  case (Suc k)
  then show ?case by (cases s) auto
qed

lemma render_anys: "render (replicate k AnyChar @ us) = replicate k 63 @ render us"
  by (induction k) simp_all

lemma ex_nat_le_Suc: "(\<exists>k\<le>Suc n. Q k) \<longleftrightarrow> Q 0 \<or> (\<exists>k\<le>n. Q (Suc k))"
  using Suc_le_mono by (metis not0_implies_Suc zero_le)

text \<open>Trying every position finds a match when there is one, if the filter on the first character is sound.\<close>

lemma first_match_ok:
  assumes "0 \<notin> set s" "\<And>k. k < length s \<Longrightarrow> m (drop k s @ [0]) = answer (G (drop k s))"
    and "\<not> G []" "\<And>x s'. G (x # s') \<Longrightarrow> starts x"
  shows "first_match starts m (s @ [0]) = answer (\<exists>k\<le>length s. G (drop k s))"
  using assms(1,2)
proof (induction s)
  case Nil
  then show ?case using assms(3) by (simp add: answer_def)
next
  case (Cons x s)
  have ex: "(\<exists>k\<le>length (x # s). G (drop k (x # s))) \<longleftrightarrow> G (x # s) \<or> (\<exists>k\<le>length s. G (drop k s))"
    using ex_nat_le_Suc [of "length s" "\<lambda>k. G (drop k (x # s))"] by simp
  have m: "m (x # s @ [0]) = answer (G (x # s))" using Cons.prems(2) [of 0] by simp
  have IH: "first_match starts m (s @ [0]) = answer (\<exists>k\<le>length s. G (drop k s))"
    using Cons.IH Cons.prems(1) Cons.prems(2) [of "Suc _"] by auto
  show ?case
    unfolding ex using m IH Cons.prems(1) assms(4) [of x s]
    by (cases "starts x"; cases "G (x # s)") (auto simp: answer_def FNM_NOMATCH_def)
qed

section \<open>Properties\<close>

definition needs_char :: "glob_token list \<Rightarrow> bool" where
  "needs_char us \<longleftrightarrow> (\<exists>c us'. us = Lit c # us') \<or> (\<exists>c us'. us = Quoted c # us') \<or> (\<exists>neg rs us'. us = Class neg rs # us')"

lemma no_period_flag [simp]: "(0 :: u32) AND NOT FNM_PERIOD = 0"
  by simp

text \<open>A star before a token that needs a character, given that the rest of the pattern is matched correctly.\<close>

lemma match_star_rest:
  assumes "needs_char us" "pattern_ok us" "0 \<notin> set s"
    and IH: "\<And>s. 0 \<notin> set s \<Longrightarrow> match_from 0 None (render us @ [0]) (s @ [0]) = answer (glob us s)"
  shows "match_from 0 before (42 # replicate k 63 @ render us @ [0]) (s @ [0]) =
    answer (glob (Star # replicate k AnyChar @ us) s)"
proof -
  obtain c p where p: "render us @ [0] = c # p" by (cases "render us @ [0]") auto
  have c: "c \<notin> {63, 42, 0}" "c = 92 \<Longrightarrow> p \<noteq> []"
    using p assms(1,2) by (auto simp: needs_char_def split: if_splits)
  let ?st = "\<lambda>c1 y. c = 91 \<or> y = c1"
  have st: "c = 91 \<or> x = (if c = 92 then hd p else c)" if "glob us (x # s')" for x s'
    using that p assms(1,2) by (auto simp: needs_char_def split: if_splits)
  have n: "\<not> glob us []" using assms(1) by (auto simp: needs_char_def)
  have f: "first_match (?st (if c = 92 then hd p else c)) (match_from 0 None (c # p)) (t @ [0]) =
      answer (\<exists>j\<le>length t. glob us (drop j t))" if "0 \<notin> set t" for t
  proof (rule first_match_ok [where G = "glob us"])
    show "0 \<notin> set t" by (rule that)
    show "\<not> glob us []" by (rule n)
    show "match_from 0 None (c # p) (drop j t @ [0]) = answer (glob us (drop j t))" for j
      using IH [of "drop j t"] p that by (auto dest: in_set_dropD)
  qed (use st in blast)
  obtain x where x: "deref (s @ [0]) = Inr x" by (cases s) auto
  have sk: "skip_stars 0 (replicate k 63 @ c # p) (s @ [0]) =
      Inr (if k \<le> length s then Some (c, p, drop k s @ [0]) else None)"
    using skip_anys [OF assms(3), of "c # p"] c by simp
  have d: "c = 92 \<Longrightarrow> deref p = Inr (hd p)" using c(2) by (cases p) auto
  have step: "match_from 0 before (42 # replicate k 63 @ c # p) (s @ [0]) =
      (if k \<le> length s
       then first_match (?st (if c = 92 then hd p else c)) (match_from 0 None (c # p)) (drop k s @ [0])
       else answer False)"
    using sk d c(1) x by (subst match_from.simps) (cases "c = 92"; cases "k \<le> length s"; simp add: answer_def)
  have "0 \<notin> set (drop k s)" using assms(3) by (auto dest: in_set_dropD)
  from f [OF this] show ?thesis unfolding p step
    by (cases "k \<le> length s") (simp_all only: glob_star_anys glob_star_iff [of us] if_True if_False simp_thms)
qed

lemma match_star_end:
  assumes "0 \<notin> set s"
  shows "match_from 0 before (42 # replicate k 63 @ [0]) (s @ [0]) = answer (glob (Star # replicate k AnyChar) s)"
proof -
  obtain x where x: "deref (s @ [0]) = Inr x" by (cases s) auto
  have "glob (Star # replicate k AnyChar) s \<longleftrightarrow> k \<le> length s"
    using glob_star_anys [of k "[]" s] by (auto simp: glob_star_iff intro!: exI [of _ "length s - k"])
  then show ?thesis
    using skip_anys [OF assms, of "[0]" k] by (subst match_from.simps) (simp add: x answer_def)
qed

lemma match_from_glob:
  "pattern_ok ts \<Longrightarrow> 0 \<notin> set s \<Longrightarrow> match_from 0 before (render ts @ [0]) (s @ [0]) = answer (glob ts s)"
proof (induction ts arbitrary: before s rule: measure_induct_rule [where f = length])
  case (less ts)
  show ?case
  proof (cases ts)
    case Nil
    then show ?thesis using less.prems by (subst match_from.simps) (cases s; auto simp: answer_def)
  next
    case (Cons t us)
    have IH: "match_from 0 b (render us @ [0]) (s' @ [0]) = answer (glob us s')" if "0 \<notin> set s'" for b s'
      using less.IH [of us s' b] less.prems(1) Cons that by simp
    show ?thesis
    proof (cases t)
      case (Lit c)
      then show ?thesis using Cons less.prems IH match_lit [of c before "render us @ [0]" s]
        by (auto simp: answer_def split: list.splits)
    next
      case (Quoted c)
      then show ?thesis using Cons less.prems IH match_quoted [of c before "render us @ [0]" s]
        by (auto simp: answer_def split: list.splits)
    next
      case AnyChar
      then show ?thesis using Cons less.prems IH match_any [of s before "render us @ [0]"]
        by (auto simp: answer_def split: list.splits)
    next
      case (Class neg rs)
      then show ?thesis using Cons less.prems IH match_class [of rs s before neg "render us @ [0]"]
        by (auto simp: answer_def split: list.splits simp del: render_token.simps)
    next
      case Star
      then obtain k vs where vs: "us = replicate k AnyChar @ vs" "vs = [] \<or> needs_char vs"
        using starless_split [of us] Cons less.prems(1) by (auto simp: needs_char_def)
      have ok: "pattern_ok us" using less.prems(1) Cons by simp
      have "pattern_ok (replicate k AnyChar @ vs) = pattern_ok vs" by (induction k) auto
      then have ok: "pattern_ok vs" using ok vs(1) by simp
      show ?thesis
      proof (cases "vs = []")
        case True
        then show ?thesis using match_star_end [OF less.prems(2), of before k] Cons Star vs(1) render_anys [of k "[]"]
          by simp
      next
        case False
        have "length vs < length ts" using Cons vs(1) by simp
        then have "match_from 0 None (render vs @ [0]) (s' @ [0]) = answer (glob vs s')" if "0 \<notin> set s'" for s'
          using less.IH [OF _ ok that] by blast
        from match_star_rest [OF _ ok less.prems(2) this, of before k] show ?thesis
          using False vs Cons Star by (simp add: render_anys)
      qed
    qed
  qed
qed

text \<open>
  C34: For a pattern of plain and quoted characters, question marks, stars and classes (plain or negated, of single
  characters and ranges, written as \<open>token_ok\<close> says) in which a character or class that must be matched stands
  between any two stars (so neither \<^verbatim>\<open>**\<close> nor \<^verbatim>\<open>*?*\<close> occurs), \<^verbatim>\<open>fnmatch\<close> without flags matches a string without zero
  bytes if and only if the string is what the pattern means, and reads neither behind the pattern nor the string.
\<close>

theorem fnmatch_glob:
  assumes "pattern_ok ts" and "0 \<notin> set s"
  shows "fnmatch (render ts @ [0]) (s @ [0]) 0 = Inr (if glob ts s then 0 else FNM_NOMATCH)"
  using match_from_glob [OF assms] by (simp add: fnmatch_def answer_def)

theorem fnmatch_glob_witness:
  "fnmatch ([42, 46, 91, 97, 45, 99, 93] @ [0]) ([120, 121, 46, 98] @ [0]) 0 = Inr 0"
proof -
  let ?ts = "[Star, Lit 46, Class False [Range 97 99]]"
  have "pattern_ok ?ts" "0 \<notin> set [120, 121, 46, 98 :: u8]" by simp_all
  moreover have "glob ?ts [120, 121, 46, 98]"
    by (intro glob_star_more glob_star_none) (simp add: word_sle_eq)
  moreover have "render ?ts = [42, 46, 91, 97, 45, 99, 93]" by (simp add: render_def)
  ultimately show ?thesis using fnmatch_glob [of ?ts "[120, 121, 46, 98]"] by simp
qed

text \<open>
  Where the matcher departs from the meaning of patterns. Of two stars in a row the second one
  takes a character, also behind a question mark, so \<^verbatim>\<open>**a\<close> does not match \<^verbatim>\<open>a\<close> and \<^verbatim>\<open>*?*a\<close> not \<^verbatim>\<open>xa\<close>, and on the
  empty string it runs behind the end;
  a pattern that ends with a backslash is read behind its end; and with \<open>FNM_PATHNAME\<close>, under which no
  wildcard can match a slash, a star matches it.
\<close>

theorem fnmatch_departures:
  "glob [Star, Star, Lit 97] [97] \<and> fnmatch [42, 42, 97, 0] [97, 0] 0 = Inr FNM_NOMATCH \<and>
   glob [Star, AnyChar, Star, Lit 97] [120, 97] \<and> fnmatch [42, 63, 42, 97, 0] [120, 97, 0] 0 = Inr FNM_NOMATCH \<and>
   fnmatch [42, 42, 97, 0] [0] 0 = Inl OutOfBounds \<and>
   fnmatch [97, 92, 0] [97, 0] 0 = Inl OutOfBounds \<and>
   fnmatch [42, 98, 0] [97, 47, 98, 0] FNM_PATHNAME = Inr 0 \<and> fnmatch [42, 0] [97, 47, 98, 0] FNM_PATHNAME = Inr 0"
proof -
  have g: "glob [Star, Star, Lit 97] [97]" "glob [Star, AnyChar, Star, Lit 97] [120, 97]"
    by (intro glob_star_none glob_any glob_lit glob_end)+
  show ?thesis
    by (simp add: g fnmatch_def match_from.simps flag_def FNM_PATHNAME_def FNM_NOESCAPE_def FNM_PERIOD_def
        FNM_FLAGS_def leading_period_def)
qed

end
