(* ===== verification/Marshal.thy ===== *)
theory Marshal
  imports RHash
begin

text \<open>
  Marshalling, \<^verbatim>\<open>src/ext/marshal/marshal.c\<close>, to and from strings. Objects live in a heap and are
  named by the word of their \<^verbatim>\<open>VALUE\<close>, so that sharing and cycles are those of the program; the tables
  of symbols and of objects are the number tables of \<open>St\<close>. The string that is written is kept as its
  contents (it grows by \<^verbatim>\<open>str_cat\<close>), the string that is read as the bytes from \<^verbatim>\<open>arg->ptr\<close> to
  \<^verbatim>\<open>arg->end\<close>. What other parts of the interpreter do is in the record \<open>marshal_env\<close>: names of
  symbols and classes, the hooks \<^verbatim>\<open>_dump_to\<close> and \<^verbatim>\<open>_load_from\<close>, the text of floats, allocation.
\<close>

section \<open>Objects\<close>

datatype mval = MNil | MTrue | MFalse | MFix u32 | MRef u32

text \<open>
  The first argument of an object is its class. A struct has its members, an object its table of
  instance variables (when it has one), a regular expression its source and \<open>FL_USER1\<close>.
\<close>

datatype 'd mobj =
    OFloat 'd
  | OBignum rbignum
  | OString u32 rstring
  | ORegexp u32 "u8 list" bool
  | OArray u32 "mval rarray"
  | OHash u32 "(mval, mval) st_table"
  | OStruct u32 "mval list"
  | OObject u32 "(u32, mval) st_table option"
  | OModule "u8 list"
  | OData u32

type_synonym 'd heap = "u32 \<Rightarrow> 'd mobj option"

record 'd marshal_env =
  m_str :: str_env
  m_ary :: "mval ary_env"
  m_hash :: "u32 hash_env"
  id2name :: "u32 \<Rightarrow> u8 list"
  intern :: "u8 list \<Rightarrow> u32"
  class2name :: "u32 \<Rightarrow> u8 list"
  path2class :: "u8 list \<Rightarrow> u32 result"
  path2value :: "u8 list \<Rightarrow> mval result"
  cString :: u32
  cRegexp :: u32
  cArray :: u32
  cHash :: u32
  cFloat :: u32
  cBignum :: u32
  class_of_module :: "u8 list \<Rightarrow> u32"
  singleton_p :: "u32 \<Rightarrow> bool"
  struct_members :: "u32 \<Rightarrow> u32 list option"
  struct_size :: "u32 \<Rightarrow> int"
  dump_hook :: "u32 \<Rightarrow> (int \<Rightarrow> rstring option result) option"
  load_hook :: "u32 \<Rightarrow> (rstring \<Rightarrow> mval result) option"
  float_text :: "'d \<Rightarrow> u8 list"
  atof :: "u8 list \<Rightarrow> 'd"
  newobj :: "(u32 \<Rightarrow> 'd mobj option) \<Rightarrow> u32 result"
  alloca_size :: "int \<Rightarrow> int"

section \<open>Writing\<close>

record dump_arg =
  dstr :: "u8 list"
  dsymbol :: "(u32, u32) st_table"
  ddata :: "(u32, u32) st_table"

definition w_byte :: "u8 \<Rightarrow> dump_arg \<Rightarrow> dump_arg" where
  "w_byte c arg = arg\<lparr>dstr := dstr arg @ [c]\<rparr>"

text \<open>
  The loop of \<^verbatim>\<open>w_long\<close>: the header (the number of bytes, negative for a negative number) and the
  bytes. A word has four bytes, after which it is 0 or \<open>- 1\<close>.
\<close>

primrec long_loop :: "nat \<Rightarrow> int \<Rightarrow> u32 \<Rightarrow> int \<times> u8 list" where
  "long_loop 0 i x = (i, [])"
| "long_loop (Suc k) i x =
     (let b = ucast x; x = signed_drop_bit 8 x in
      if x = 0 then (i, [b])
      else if x = - 1 then (- i, [b])
      else case long_loop k (i + 1) x of (h, bs) \<Rightarrow> (h, b # bs))"

definition w_long :: "u32 \<Rightarrow> dump_arg \<Rightarrow> dump_arg" where
  "w_long x arg =
     (if x = 0 then w_byte 0 arg
      else case long_loop 4 1 x of (h, bs) \<Rightarrow> fold w_byte (word_of_int h # bs) arg)"

definition w_bytes :: "u8 list \<Rightarrow> dump_arg \<Rightarrow> dump_arg" where
  "w_bytes s arg = fold w_byte s (w_long (of_nat (length s)) arg)"

definition w_short :: "u16 \<Rightarrow> dump_arg \<Rightarrow> dump_arg" where
  "w_short x arg = w_byte (ucast (drop_bit 8 x)) (w_byte (ucast x) arg)"

definition w_float :: "'d marshal_env \<Rightarrow> 'd \<Rightarrow> dump_arg \<Rightarrow> dump_arg" where
  "w_float E d arg = w_bytes (float_text E d) arg"

definition w_symbol :: "'d marshal_env \<Rightarrow> u32 \<Rightarrow> dump_arg \<Rightarrow> dump_arg result" where
  "w_symbol E ident arg =
     bindR (st_lookup (dsymbol arg) ident) (\<lambda>r.
       case r of
         Some num \<Rightarrow> Inr (w_long num (w_byte 59 arg))
       | None \<Rightarrow>
           let arg = w_bytes (id2name E ident) (w_byte 58 arg) in
           bindR (st_insert (dsymbol arg) ident (word_of_int (num_entries (dsymbol arg)))) (\<lambda>(t, _).
             Inr (arg\<lparr>dsymbol := t\<rparr>)))"

definition w_unique :: "'d marshal_env \<Rightarrow> u8 list \<Rightarrow> dump_arg \<Rightarrow> dump_arg result" where
  "w_unique E s arg = w_symbol E (intern E s) arg"

definition w_uclass :: "'d marshal_env \<Rightarrow> u32 \<Rightarrow> u32 \<Rightarrow> dump_arg \<Rightarrow> dump_arg result" where
  "w_uclass E class_of class arg =
     (if class_of \<noteq> class then w_unique E (class2name E class_of) (w_byte 67 arg) else Inr arg)"

text \<open>The writer of the objects inside an object, \<open>w_object\<close> one level deeper.\<close>

type_synonym writer = "mval \<Rightarrow> int \<Rightarrow> dump_arg \<Rightarrow> dump_arg result"

primrec w_items :: "writer \<Rightarrow> int \<Rightarrow> mval list \<Rightarrow> dump_arg \<Rightarrow> dump_arg result" where
  "w_items w limit [] arg = Inr arg"
| "w_items w limit (v # vs) arg = bindR (w v limit arg) (w_items w limit vs)"

definition hash_each :: "writer \<Rightarrow> int \<Rightarrow> mval \<Rightarrow> mval \<Rightarrow> dump_arg result \<Rightarrow> st_retval \<times> dump_arg result" where
  "hash_each w limit key value arg =
     (ST_CONTINUE, bindR arg (\<lambda>arg. bindR (w key limit arg) (w value limit)))"

definition obj_each :: "'d marshal_env \<Rightarrow> writer \<Rightarrow> int \<Rightarrow> u32 \<Rightarrow> mval \<Rightarrow> dump_arg result \<Rightarrow> st_retval \<times> dump_arg result" where
  "obj_each E w limit ident value arg =
     (ST_CONTINUE, bindR arg (\<lambda>arg. bindR (w_symbol E ident arg) (w value limit)))"

text \<open>The members of a struct and their names; a class with fewer names is read behind its array.\<close>

fun w_members :: "'d marshal_env \<Rightarrow> writer \<Rightarrow> int \<Rightarrow> u32 list \<Rightarrow> mval list \<Rightarrow> dump_arg \<Rightarrow> dump_arg result" where
  "w_members E w limit mem [] arg = Inr arg"
| "w_members E w limit [] (v # vs) arg = Inl OutOfBounds"
| "w_members E w limit (m # mem) (v # vs) arg =
     bindR (w_symbol E m arg) (\<lambda>arg. bindR (w v limit arg) (w_members E w limit mem vs))"

definition w_bignum :: "rbignum \<Rightarrow> dump_arg \<Rightarrow> dump_arg" where
  "w_bignum x arg =
     fold w_short (take (blen x) (bdigits x))
       (w_long (of_nat (blen x)) (w_byte (if bsign x then 43 else 45) arg))"

definition w_body :: "'d marshal_env \<Rightarrow> writer \<Rightarrow> 'd mobj \<Rightarrow> int \<Rightarrow> dump_arg \<Rightarrow> dump_arg result" where
  "w_body E w ob limit arg =
     (case ob of
        OModule path \<Rightarrow> Inr (w_bytes path (w_byte 77 arg))
      | OFloat d \<Rightarrow> Inr (w_float E d (w_byte 102 arg))
      | OBignum x \<Rightarrow> Inr (w_bignum x (w_byte 108 arg))
      | OString c s \<Rightarrow>
          bindR (w_uclass E c (cString E) arg) (\<lambda>arg.
          bindR (read_cells (sptr s) 0 (nat (slen s))) (\<lambda>bs. Inr (w_bytes bs (w_byte 34 arg))))
      | ORegexp c src ci \<Rightarrow>
          bindR (w_uclass E c (cRegexp E) arg) (\<lambda>arg.
            Inr (w_byte (ucast (if ci then 4096 else 0 :: u32)) (w_bytes src (w_byte 47 arg))))
      | OArray c a \<Rightarrow>
          bindR (w_uclass E c (cArray E) arg) (\<lambda>arg.
          bindR (read_cells (block (ptr a)) 0 (nat (alen a))) (\<lambda>vs.
            w_items w limit vs (w_long (word_of_int (alen a)) (w_byte 91 arg))))
      | OHash c t \<Rightarrow>
          bindR (w_uclass E c (cHash E) arg) (\<lambda>arg.
            snd (st_foreach t (hash_each w limit) (Inr (w_long (word_of_int (num_entries t)) (w_byte 123 arg)))))
      | OStruct c vs \<Rightarrow>
          bindR (w_unique E (class2name E c) (w_byte 83 arg)) (\<lambda>arg.
            case struct_members E c of
              None \<Rightarrow> Inl (Fatal ''non-initialized struct'')
            | Some mem \<Rightarrow> w_members E w limit mem vs (w_long (of_nat (length vs)) arg))
      | OObject c ivs \<Rightarrow>
          if singleton_p E c then Inl (TypeError ''singleton can't be dumped'')
          else bindR (w_unique E (class2name E c) (w_byte 111 arg)) (\<lambda>arg.
            case ivs of
              None \<Rightarrow> Inr (w_long 0 arg)
            | Some t \<Rightarrow>
                snd (st_foreach t (obj_each E w limit) (Inr (w_long (word_of_int (num_entries t)) arg))))
      | OData c \<Rightarrow> Inl (TypeError ''can't dump %s''))"

definition class_of_obj :: "'d marshal_env \<Rightarrow> 'd mobj \<Rightarrow> u32" where
  "class_of_obj E ob =
     (case ob of OFloat _ \<Rightarrow> cFloat E | OBignum _ \<Rightarrow> cBignum E | OModule path \<Rightarrow> class_of_module E path
      | OString c _ \<Rightarrow> c | ORegexp c _ _ \<Rightarrow> c | OArray c _ \<Rightarrow> c | OHash c _ \<Rightarrow> c
      | OStruct c _ \<Rightarrow> c | OObject c _ \<Rightarrow> c | OData c \<Rightarrow> c)"

definition w_ref :: "'d marshal_env \<Rightarrow> 'd heap \<Rightarrow> writer \<Rightarrow> u32 \<Rightarrow> int \<Rightarrow> dump_arg \<Rightarrow> dump_arg result" where
  "w_ref E H w obj limit arg =
     bindR (st_lookup (ddata arg) obj) (\<lambda>r.
       case r of
         Some num \<Rightarrow> Inr (w_long num (w_byte 64 arg))
       | None \<Rightarrow>
           bindR (st_insert (ddata arg) obj (word_of_int (num_entries (ddata arg)))) (\<lambda>(t, _).
             let arg = arg\<lparr>ddata := t\<rparr> in
             case H obj of
               None \<Rightarrow> Inl OutOfBounds
             | Some ob \<Rightarrow>
                 (case dump_hook E obj of
                    Some hook \<Rightarrow>
                      bindR (w_unique E (class2name E (class_of_obj E ob)) (w_byte 117 arg)) (\<lambda>arg.
                      bindR (hook limit) (\<lambda>v.
                        case v of
                          None \<Rightarrow> Inl (TypeError ''_dump_to must return String'')
                        | Some s \<Rightarrow> bindR (read_cells (sptr s) 0 (nat (slen s))) (\<lambda>bs. Inr (w_bytes bs arg))))
                  | None \<Rightarrow> w_body E w ob limit arg)))"

text \<open>
  \<open>w_object\<close> recurses to the depth that the stack permits, its first argument; beyond it the model
  gives \<open>Diverges\<close>.
\<close>

primrec w_object :: "nat \<Rightarrow> 'd marshal_env \<Rightarrow> 'd heap \<Rightarrow> mval \<Rightarrow> int \<Rightarrow> dump_arg \<Rightarrow> dump_arg result" where
  "w_object 0 E H obj limit arg = Inl Diverges"
| "w_object (Suc depth) E H obj limit arg =
     (if limit = 0 then Inl (Fail ''exceed depth limit'')
      else case obj of
             MNil \<Rightarrow> Inr (w_byte 48 arg)
           | MTrue \<Rightarrow> Inr (w_byte 84 arg)
           | MFalse \<Rightarrow> Inr (w_byte 70 arg)
           | MFix w \<Rightarrow> Inr (w_long (FIX2INT w) (w_byte 105 arg))
           | MRef a \<Rightarrow> w_ref E H (w_object depth E H) a (limit - 1) arg)"

definition marshal_dump :: "nat \<Rightarrow> 'd marshal_env \<Rightarrow> 'd heap \<Rightarrow> mval \<Rightarrow> int \<Rightarrow> u8 list result" where
  "marshal_dump depth E H obj limit =
     bindR (w_object depth E H obj limit
       (w_byte 0 (w_byte 4 \<lparr>dstr = [], dsymbol = st_init_numtable, ddata = st_init_numtable\<rparr>)))
       (\<lambda>arg. Inr (dstr arg))"

section \<open>Reading\<close>

record 'd load_arg =
  lptr :: "u8 list"
  lsymbol :: "(u32, u32) st_table"
  ldata :: "(u32, mval) st_table"
  lheap :: "'d heap"

text \<open>\<^verbatim>\<open>r_byte\<close> returns an unsigned byte, or \<^verbatim>\<open>EOF\<close>, which is \<open>- 1\<close>.\<close>

definition r_byte :: "'d load_arg \<Rightarrow> int \<times> 'd load_arg" where
  "r_byte arg = (case lptr arg of [] \<Rightarrow> (- 1, arg) | b # bs \<Rightarrow> (uint b, arg\<lparr>lptr := bs\<rparr>))"

definition r_short :: "'d load_arg \<Rightarrow> u16 \<times> 'd load_arg" where
  "r_short arg =
     (case r_byte arg of (b0, arg) \<Rightarrow> case r_byte arg of (b1, arg) \<Rightarrow>
        (word_of_int b0 OR push_bit 8 (word_of_int b1), arg))"

text \<open>The two loops of \<^verbatim>\<open>r_long\<close> over the bytes; the first one starts with \<open>x = 0\<close>, the second with \<open>x = - 1\<close>.\<close>

primrec long_bytes :: "nat \<Rightarrow> nat \<Rightarrow> bool \<Rightarrow> u32 \<Rightarrow> 'd load_arg \<Rightarrow> u32 \<times> 'd load_arg" where
  "long_bytes 0 i neg x arg = (x, arg)"
| "long_bytes (Suc k) i neg x arg =
     (case r_byte arg of (b, arg) \<Rightarrow>
        long_bytes k (Suc i) neg
          ((if neg then x AND NOT (push_bit (8 * i) 0xff) else x) OR push_bit (8 * i) (word_of_int b)) arg)"

definition r_long :: "'d load_arg \<Rightarrow> (u32 \<times> 'd load_arg) result" where
  "r_long arg =
     (case r_byte arg of (c, arg) \<Rightarrow>
        if c = 0 then Inr (0, arg)
        else if (if c < 0 then - c else c) > 4
        then Inl (TypeError ''long too big for this architecture (size %d, given %d)'')
        else Inr (long_bytes (nat (if c < 0 then - c else c)) 0 (c < 0) (if c < 0 then - 1 else 0) arg))"

text \<open>
  \<^verbatim>\<open>r_bytes\<close> copies into a block of \<^verbatim>\<open>alloca\<close> and ends the copy with a zero byte, one byte behind the
  length that it asked for. The bytes that were read are the result.
\<close>

definition r_bytes0 :: "'d marshal_env \<Rightarrow> int \<Rightarrow> 'd load_arg \<Rightarrow> (u8 list \<times> 'd load_arg) result" where
  "r_bytes0 E len arg =
     (let n = int (length (lptr arg)); len' = (if len > n then n else len) in
      if len' < 0 \<or> alloca_size E len \<le> len' then Inl OutOfBounds
      else Inr (take (nat len') (lptr arg), arg\<lparr>lptr := drop (nat len') (lptr arg)\<rparr>))"

definition r_bytes :: "'d marshal_env \<Rightarrow> 'd load_arg \<Rightarrow> (u8 list \<times> 'd load_arg) result" where
  "r_bytes E arg = bindR (r_long arg) (\<lambda>(s, arg). r_bytes0 E (sint s) arg)"

text \<open>A C string is read up to the first zero byte.\<close>

definition c_part :: "u8 list \<Rightarrow> u8 list" where
  "c_part bs = takeWhile (\<lambda>b. b \<noteq> 0) bs"

definition r_symbol :: "'d marshal_env \<Rightarrow> 'd load_arg \<Rightarrow> (u32 \<times> 'd load_arg) result" where
  "r_symbol E arg =
     (case r_byte arg of (type, arg) \<Rightarrow>
        if type = 59 then
          bindR (r_long arg) (\<lambda>(num, arg).
          bindR (st_lookup (lsymbol arg) num) (\<lambda>r.
            case r of Some ident \<Rightarrow> Inr (ident, arg) | None \<Rightarrow> Inl (TypeError ''bad symbol'')))
        else
          bindR (r_bytes E arg) (\<lambda>(buf, arg).
            let ident = intern E (c_part buf) in
            bindR (st_insert (lsymbol arg) (word_of_int (num_entries (lsymbol arg))) ident) (\<lambda>(t, _).
              Inr (ident, arg\<lparr>lsymbol := t\<rparr>))))"

definition r_unique :: "'d marshal_env \<Rightarrow> 'd load_arg \<Rightarrow> (u8 list \<times> 'd load_arg) result" where
  "r_unique E arg = bindR (r_symbol E arg) (\<lambda>(ident, arg). Inr (id2name E ident, arg))"

definition r_string :: "'d marshal_env \<Rightarrow> 'd load_arg \<Rightarrow> (rstring \<times> 'd load_arg) result" where
  "r_string E arg =
     bindR (r_bytes E arg) (\<lambda>(buf, arg).
     bindR (str_new (m_str E) (Some (map Some buf, 0)) (int (length buf))) (\<lambda>s. Inr (str_taint s, arg)))"

definition r_regist :: "mval \<Rightarrow> 'd load_arg \<Rightarrow> (mval \<times> 'd load_arg) result" where
  "r_regist v arg =
     bindR (st_insert (ldata arg) (word_of_int (num_entries (ldata arg))) v) (\<lambda>(t, _). Inr (v, arg\<lparr>ldata := t\<rparr>))"

definition new_object :: "'d marshal_env \<Rightarrow> 'd mobj \<Rightarrow> 'd load_arg \<Rightarrow> (u32 \<times> 'd load_arg) result" where
  "new_object E ob arg =
     bindR (newobj E (lheap arg)) (\<lambda>a. Inr (a, arg\<lparr>lheap := (lheap arg)(a \<mapsto> ob)\<rparr>))"

definition r_new :: "'d marshal_env \<Rightarrow> 'd mobj \<Rightarrow> 'd load_arg \<Rightarrow> (mval \<times> 'd load_arg) result" where
  "r_new E ob arg = bindR (new_object E ob arg) (\<lambda>(a, arg). r_regist (MRef a) arg)"

definition set_class :: "u32 \<Rightarrow> 'd mobj \<Rightarrow> 'd mobj" where
  "set_class c ob =
     (case ob of OString _ s \<Rightarrow> OString c s | ORegexp _ s ci \<Rightarrow> ORegexp c s ci | OArray _ a \<Rightarrow> OArray c a
      | OHash _ t \<Rightarrow> OHash c t | OStruct _ vs \<Rightarrow> OStruct c vs | OObject _ ivs \<Rightarrow> OObject c ivs | OData _ \<Rightarrow> OData c
      | _ \<Rightarrow> ob)"

text \<open>Loops over the elements of an array, the pairs of a hash, struct members and instance variables.\<close>

type_synonym 'd reader = "'d load_arg \<Rightarrow> (mval \<times> 'd load_arg) result"

primrec r_items :: "'d marshal_env \<Rightarrow> 'd reader \<Rightarrow> u32 \<Rightarrow> nat \<Rightarrow> 'd load_arg \<Rightarrow> 'd load_arg result" where
  "r_items E r v 0 arg = Inr arg"
| "r_items E r v (Suc len) arg =
     bindR (r arg) (\<lambda>(x, arg).
       case lheap arg v of
         Some (OArray c a) \<Rightarrow>
           bindR (ary_push (m_ary E) a x) (\<lambda>a. r_items E r v len (arg\<lparr>lheap := (lheap arg)(v \<mapsto> OArray c a)\<rparr>))
       | _ \<Rightarrow> Inl OutOfBounds)"

text \<open>\<^verbatim>\<open>hash_aset\<close> on a hash of the heap: the keys are seen as the values of \<open>RHash\<close>.\<close>

definition view :: "'d heap \<Rightarrow> mval \<Rightarrow> u32 rval" where
  "view H v =
     (case v of MNil \<Rightarrow> RNil | MTrue \<Rightarrow> RTrue | MFalse \<Rightarrow> RFalse | MFix w \<Rightarrow> RFix w
      | MRef a \<Rightarrow> (case H a of Some (OString _ s) \<Rightarrow> RStr s | _ \<Rightarrow> RObj a))"

definition view_type :: "'d marshal_env \<Rightarrow> 'd heap \<Rightarrow> mval st_hash_type" where
  "view_type E H =
     \<lparr>compare = (\<lambda>a b. compare (objhash (m_hash E)) (view H a) (view H b)),
      hash = (\<lambda>a m. hash (objhash (m_hash E)) (view H a) m)\<rparr>"

definition aset_in ::
    "'d marshal_env \<Rightarrow> u32 \<Rightarrow> mval \<Rightarrow> mval \<Rightarrow> 'd load_arg \<Rightarrow> 'd load_arg result" where
  "aset_in E h key val arg =
     bindR (rb_secure (m_hash E) 5) (\<lambda>_.
     case lheap arg h of
       Some (OHash c t) \<Rightarrow>
         if val = MNil then
           bindR (st_delete (t\<lparr>type_of := view_type E (lheap arg)\<rparr>) key) (\<lambda>(t, _).
             Inr (arg\<lparr>lheap := (lheap arg)(h \<mapsto> OHash c t)\<rparr>))
         else
           bindR (case key of
                    MRef a \<Rightarrow>
                      (case lheap arg a of
                         Some (OString _ s) \<Rightarrow>
                           bindR (str_dup_freezed (m_str E) s) (\<lambda>d.
                           bindR (new_object E (OString (cString E) d) arg) (\<lambda>(b, arg). Inr (MRef b, arg)))
                       | _ \<Rightarrow> Inr (key, arg))
                  | _ \<Rightarrow> Inr (key, arg)) (\<lambda>(key, arg).
           bindR (st_insert (t\<lparr>type_of := view_type E (lheap arg)\<rparr>) key val) (\<lambda>(t, _).
             Inr (arg\<lparr>lheap := (lheap arg)(h \<mapsto> OHash c t)\<rparr>)))
     | _ \<Rightarrow> Inl OutOfBounds)"

primrec r_pairs :: "'d marshal_env \<Rightarrow> 'd reader \<Rightarrow> u32 \<Rightarrow> nat \<Rightarrow> 'd load_arg \<Rightarrow> 'd load_arg result" where
  "r_pairs E r h 0 arg = Inr arg"
| "r_pairs E r h (Suc len) arg =
     bindR (r arg) (\<lambda>(key, arg). bindR (r arg) (\<lambda>(val, arg).
     bindR (aset_in E h key val arg) (\<lambda>arg. r_pairs E r h len arg)))"

primrec r_members ::
    "'d marshal_env \<Rightarrow> 'd reader \<Rightarrow> u32 \<Rightarrow> u32 list \<Rightarrow> nat \<Rightarrow> nat \<Rightarrow> 'd load_arg \<Rightarrow> 'd load_arg result" where
  "r_members E r v mem i 0 arg = Inr arg"
| "r_members E r v mem i (Suc len) arg =
     bindR (r_symbol E arg) (\<lambda>(slot, arg).
       if length mem \<le> i then Inl OutOfBounds
       else if mem ! i \<noteq> slot then Inl (TypeError ''struct not compatible'')
       else bindR (r arg) (\<lambda>(x, arg).
         case lheap arg v of
           Some (OStruct c vs) \<Rightarrow>
             if length vs \<le> i then Inl (IndexError ''offset %d too large for struct(size:%d)'')
             else r_members E r v mem (Suc i) len (arg\<lparr>lheap := (lheap arg)(v \<mapsto> OStruct c (vs[i := x]))\<rparr>)
         | _ \<Rightarrow> Inl OutOfBounds))"

definition rb_ivar_set :: "'d marshal_env \<Rightarrow> u32 \<Rightarrow> u32 \<Rightarrow> mval \<Rightarrow> 'd load_arg \<Rightarrow> 'd load_arg result" where
  "rb_ivar_set E obj ident val arg =
     (if s_safe_level (m_str E) \<ge> 5 then Inl (SecurityError ''cannot change object status'')
      else case lheap arg obj of
             Some (OObject c ivs) \<Rightarrow>
               bindR (st_insert (case ivs of None \<Rightarrow> st_init_numtable | Some t \<Rightarrow> t) ident val) (\<lambda>(t, _).
                 Inr (arg\<lparr>lheap := (lheap arg)(obj \<mapsto> OObject c (Some t))\<rparr>))
           | _ \<Rightarrow> Inl (TypeError ''class %s can not have instance variables''))"

primrec r_ivars :: "'d marshal_env \<Rightarrow> 'd reader \<Rightarrow> u32 \<Rightarrow> nat \<Rightarrow> 'd load_arg \<Rightarrow> 'd load_arg result" where
  "r_ivars E r v 0 arg = Inr arg"
| "r_ivars E r v (Suc len) arg =
     bindR (r_symbol E arg) (\<lambda>(ident, arg). bindR (r arg) (\<lambda>(x, arg).
     bindR (rb_ivar_set E v ident x arg) (\<lambda>arg. r_ivars E r v len arg)))"

primrec r_digits :: "nat \<Rightarrow> 'd load_arg \<Rightarrow> u16 list \<times> 'd load_arg" where
  "r_digits 0 arg = ([], arg)"
| "r_digits (Suc len) arg =
     (case r_short arg of (d, arg) \<Rightarrow> case r_digits len arg of (ds, arg) \<Rightarrow> (d # ds, arg))"

definition r_bignum :: "'d marshal_env \<Rightarrow> 'd load_arg \<Rightarrow> (mval \<times> 'd load_arg) result" where
  "r_bignum E arg =
     (case r_byte arg of (s, arg) \<Rightarrow>
        bindR (r_long arg) (\<lambda>(len, arg).
          bindR (xmalloc (s_malloc_ok (m_str E)) 2 (U32 (2 * sint len)) :: u16 cells result) (\<lambda>_.
          if sint len < 0 then Inl OutOfBounds
          else case r_digits (nat (sint len)) arg of (ds, arg) \<Rightarrow>
            (case bignorm \<lparr>bsign = (s = 43), blen = nat (sint len), bdigits = ds\<rparr> of
               Fix w \<Rightarrow> Inr (MFix w, arg)
             | Big x \<Rightarrow> r_new E (OBignum x) arg))))"

text \<open>Loops of the form \<^verbatim>\<open>while (len--)\<close> run 2 to the power of 32 less rounds for a negative \<open>len\<close>.\<close>

definition rounds :: "u32 \<Rightarrow> nat" where
  "rounds len = unat len"

definition r_struct :: "'d marshal_env \<Rightarrow> 'd reader \<Rightarrow> 'd load_arg \<Rightarrow> (mval \<times> 'd load_arg) result" where
  "r_struct E r arg =
     bindR (r_unique E arg) (\<lambda>(name, arg).
     bindR (path2class E name) (\<lambda>class.
       case struct_members E class of
         None \<Rightarrow> Inl (Fatal ''non-initialized struct'')
       | Some mem \<Rightarrow>
           bindR (r_long arg) (\<lambda>(len, arg).
             if struct_size E class < sint len then Inl (ArgError ''struct size differs'')
             else bindR (new_object E (OStruct class (replicate (nat (struct_size E class)) MNil)) arg) (\<lambda>(a, arg).
                  bindR (r_regist (MRef a) arg) (\<lambda>(v, arg).
                  bindR (r_members E r a mem 0 (nat (sint len)) arg) (\<lambda>arg. Inr (v, arg)))))))"

definition r_plain :: "'d marshal_env \<Rightarrow> 'd reader \<Rightarrow> 'd load_arg \<Rightarrow> (mval \<times> 'd load_arg) result" where
  "r_plain E r arg =
     bindR (r_unique E arg) (\<lambda>(name, arg).
     bindR (path2class E name) (\<lambda>class.
     bindR (r_long arg) (\<lambda>(len, arg).
     bindR (new_object E (OObject class None) arg) (\<lambda>(a, arg).
     bindR (r_regist (MRef a) arg) (\<lambda>(v, arg).
       if sint len > 0 then bindR (r_ivars E r a (nat (sint len)) arg) (\<lambda>arg. Inr (v, arg))
       else Inr (v, arg))))))"

definition r_userdef :: "'d marshal_env \<Rightarrow> 'd load_arg \<Rightarrow> (mval \<times> 'd load_arg) result" where
  "r_userdef E arg =
     bindR (r_unique E arg) (\<lambda>(name, arg).
     bindR (path2class E name) (\<lambda>class.
       case load_hook E class of
         None \<Rightarrow> Inl (TypeError ''class %s needs to have method _load_from'')
       | Some hook \<Rightarrow> bindR (r_string E arg) (\<lambda>(s, arg). bindR (hook s) (\<lambda>v. r_regist v arg))))"

definition r_uclass :: "'d marshal_env \<Rightarrow> 'd reader \<Rightarrow> 'd load_arg \<Rightarrow> (mval \<times> 'd load_arg) result" where
  "r_uclass E r arg =
     bindR (r_unique E arg) (\<lambda>(name, arg).
     bindR (path2class E name) (\<lambda>c.
     bindR (r arg) (\<lambda>(v, arg).
       case v of
         MRef a \<Rightarrow> Inr (v, arg\<lparr>lheap := (lheap arg)(a := map_option (set_class c) (lheap arg a))\<rparr>)
       | _ \<Rightarrow> Inl (ArgError ''dump format error (user class)''))))"

definition r_array :: "'d marshal_env \<Rightarrow> 'd reader \<Rightarrow> 'd load_arg \<Rightarrow> (mval \<times> 'd load_arg) result" where
  "r_array E r arg =
     bindR (r_long arg) (\<lambda>(len, arg).
     bindR (ary_new2 (m_ary E) (sint len)) (\<lambda>a.
     bindR (new_object E (OArray (cArray E) a) arg) (\<lambda>(b, arg).
     bindR (r_regist (MRef b) arg) (\<lambda>(v, arg).
     bindR (r_items E r b (rounds len) arg) (\<lambda>arg. Inr (v, arg))))))"

definition r_hash :: "'d marshal_env \<Rightarrow> 'd reader \<Rightarrow> 'd load_arg \<Rightarrow> (mval \<times> 'd load_arg) result" where
  "r_hash E r arg =
     bindR (r_long arg) (\<lambda>(len, arg).
     bindR (new_object E (OHash (cHash E) (st_init_table_with_size (view_type E (lheap arg)) 0)) arg) (\<lambda>(b, arg).
     bindR (r_regist (MRef b) arg) (\<lambda>(v, arg).
     bindR (r_pairs E r b (rounds len) arg) (\<lambda>arg. Inr (v, arg)))))"

definition r_link :: "'d load_arg \<Rightarrow> (mval \<times> 'd load_arg) result" where
  "r_link arg =
     bindR (r_long arg) (\<lambda>(num, arg).
     bindR (st_lookup (ldata arg) num) (\<lambda>r.
       case r of Some v \<Rightarrow> Inr (v, arg) | None \<Rightarrow> Inl (ArgError ''dump format error (unlinked)'')))"

primrec r_object :: "nat \<Rightarrow> 'd marshal_env \<Rightarrow> 'd load_arg \<Rightarrow> (mval \<times> 'd load_arg) result" where
  "r_object 0 E arg = Inl Diverges"
| "r_object (Suc depth) E arg =
     (case r_byte arg of (type, arg) \<Rightarrow>
        if type = - 1 then Inl (EOFError ''End of file reached'')
        else if type = 64 then r_link arg
        else if type = 67 then r_uclass E (r_object depth E) arg
        else if type = 48 then Inr (MNil, arg)
        else if type = 84 then Inr (MTrue, arg)
        else if type = 70 then Inr (MFalse, arg)
        else if type = 105 then bindR (r_long arg) (\<lambda>(i, arg). Inr (MFix (INT2FIX i), arg))
        else if type = 102 then
          bindR (r_bytes E arg) (\<lambda>(buf, arg). r_new E (OFloat (atof E (c_part buf))) arg)
        else if type = 108 then r_bignum E arg
        else if type = 34 then bindR (r_string E arg) (\<lambda>(s, arg). r_new E (OString (cString E) s) arg)
        else if type = 47 then
          bindR (r_bytes E arg) (\<lambda>(buf, arg). case r_byte arg of (ci, arg) \<Rightarrow>
            r_new E (ORegexp (cRegexp E) buf (ci \<noteq> 0)) arg)
        else if type = 91 then r_array E (r_object depth E) arg
        else if type = 123 then r_hash E (r_object depth E) arg
        else if type = 83 then r_struct E (r_object depth E) arg
        else if type = 117 then r_userdef E arg
        else if type = 111 then r_plain E (r_object depth E) arg
        else if type = 77 then bindR (r_bytes E arg) (\<lambda>(buf, arg). bindR (path2value E (c_part buf)) (\<lambda>v. Inr (v, arg)))
        else Inl (ArgError ''dump format error(0x%x)''))"

text \<open>\<^verbatim>\<open>marshal_load\<close> of a string; a minor version other than 0 only gives a warning.\<close>

definition marshal_load :: "nat \<Rightarrow> 'd marshal_env \<Rightarrow> 'd heap \<Rightarrow> u8 list \<Rightarrow> (mval \<times> 'd heap) result" where
  "marshal_load depth E H str =
     (case r_byte \<lparr>lptr = str, lsymbol = st_init_numtable, ldata = st_init_numtable, lheap = H\<rparr> of (major, arg) \<Rightarrow>
        if major = 4 then
          (case r_byte arg of (minor, arg) \<Rightarrow>
             bindR (r_object depth E arg) (\<lambda>(v, arg). Inr (v, lheap arg)))
        else Inl (TypeError ''Old marshal file format (can't read)''))"

end
