(* ===== verification/MarshalSteps.thy ===== *)
theory MarshalSteps
  imports Marshal
begin

text \<open>
  Writing and reading in step (\<^verbatim>\<open>src/ext/marshal/marshal.c\<close>): the bytes of integers and strings, the tables
  that number symbols and objects on both sides, and the relation \<open>reads\<close> between what a writer
  appended and what a reader makes of it, with its rules for sequences, symbols, items and instance variables
  and for making an object.
\<close>

section \<open>Integers and bytes on the wire\<close>

definition long_code :: "u32 \<Rightarrow> u8 list" where
  "long_code x = (if x = 0 then [0] else case long_loop 4 1 x of (h, bs) \<Rightarrow> word_of_int h # bs)"

lemma fold_w_byte [simp]: "fold w_byte bs arg = arg\<lparr>dstr := dstr arg @ bs\<rparr>"
  by (induction bs arbitrary: arg) (simp_all add: w_byte_def)

lemma w_long_code [simp]: "w_long x arg = arg\<lparr>dstr := dstr arg @ long_code x\<rparr>"
  by (simp add: w_long_def long_code_def w_byte_def split: prod.splits)

lemma w_byte_code [simp]: "w_byte c arg = arg\<lparr>dstr := dstr arg @ [c]\<rparr>"
  by (simp add: w_byte_def)

lemma w_bytes_code [simp]: "w_bytes s arg = arg\<lparr>dstr := dstr arg @ long_code (of_nat (length s)) @ s\<rparr>"
  by (simp add: w_bytes_def)

lemma r_byte_Cons: "lptr arg = b # bs \<Longrightarrow> r_byte arg = (uint b, arg\<lparr>lptr := bs\<rparr>)"
  by (simp add: r_byte_def)

lemma uint_drop_8: "uint (drop_bit 8 (x :: u32)) = uint x div 256"
  by (simp add: unsigned_drop_bit_eq) (simp add: drop_bit_eq_div)

lemma drop_nonneg:
  assumes "0 \<le> sint (x :: u32)"
  shows "signed_drop_bit 8 x = drop_bit 8 x" "0 \<le> sint (drop_bit 8 x)"
proof -
  have u: "uint x < 2147483648" using assms uint_32_less [of x] by (simp add: sint_eq_uint_if split: if_splits)
  then have d: "uint (drop_bit 8 x) < 2147483648" by (simp add: uint_drop_8)
  then show n: "0 \<le> sint (drop_bit 8 x)" by (simp add: sint_eq_uint_if)
  have "sint (signed_drop_bit 8 x) = sint x div 256" by (simp add: sint_signed_drop_bit_eq drop_bit_eq_div)
  also have "\<dots> = sint (drop_bit 8 x)"
    using u d by (simp add: sint_eq_uint_if uint_drop_8)
  finally show "signed_drop_bit 8 x = drop_bit 8 x" by (rule signed_word_eqI)
qed

lemma byte_split:
  "push_bit (8 * j) (word_of_int (uint (ucast (x :: u32) :: u8))) OR push_bit (8 * Suc j) (drop_bit 8 x) = push_bit (8 * j) x"
proof (rule bit_word_eqI)
  fix n assume n: "n < LENGTH(32)"
  show "bit (push_bit (8 * j) (word_of_int (uint (ucast x :: u8))) OR push_bit (8 * Suc j) (drop_bit 8 x)) n \<longleftrightarrow>
      bit (push_bit (8 * j) x) n"
  proof (cases "8 * j + 8 \<le> n")
    case True
    then obtain m where "n = 8 * j + 8 + m" by (metis le_Suc_ex)
    then show ?thesis using n by (auto simp: bit_simps add.commute)
  qed (use n in \<open>auto simp: bit_simps\<close>)
qed

lemma long_loop_read:
  assumes "0 \<le> sint x" "uint x < 256 ^ k" "0 < k" "long_loop k i x = (h, bs)" "lptr arg = bs @ rest"
  shows "bs \<noteq> [] \<and> length bs \<le> k \<and> h = i + int (length bs) - 1 \<and>
    long_bytes (length bs) j False acc arg = (acc OR push_bit (8 * j) x, arg\<lparr>lptr := rest\<rparr>)"
  using assms
proof (induction k arbitrary: i x h bs arg j acc)
  case (Suc k)
  let ?x = "drop_bit 8 x"
  have d: "signed_drop_bit 8 x = ?x" "0 \<le> sint ?x" using drop_nonneg [OF Suc.prems(1)] by simp_all
  have m: "?x \<noteq> - 1" using d(2) by auto
  show ?case
  proof (cases "?x = 0")
    case True
    then have "(i, [ucast x]) = (h, bs)" using Suc.prems(4) d(1) by (simp add: Let_def)
    moreover have "push_bit (8 * j) (word_of_int (uint (ucast x :: u8))) = push_bit (8 * j) x"
      using byte_split [of j x] True by simp
    ultimately show ?thesis using Suc.prems(5) by (auto simp: r_byte_Cons)
  next
    case False
    obtain bs1 where b: "long_loop k (i + 1) ?x = (h, bs1)" "bs = ucast x # bs1"
      using Suc.prems(4) d(1) False m by (auto simp: Let_def split: prod.splits)
    have u: "uint ?x < 256 ^ k"
      using Suc.prems(2) by (simp add: uint_drop_8 div_less_iff_less_mult mult.commute)
    have k: "0 < k"
    proof (rule ccontr)
      assume "\<not> 0 < k"
      then have "uint ?x < 1" using u by simp
      moreover have "0 \<le> uint ?x" by simp
      ultimately have "uint ?x = 0" by linarith
      then show False using False by (simp add: word_uint_eq_iff)
    qed
    let ?arg = "arg\<lparr>lptr := bs1 @ rest\<rparr>"
    note IH = Suc.IH [OF d(2) u k b(1), of ?arg "Suc j" "acc OR push_bit (8 * j) (word_of_int (uint (ucast x :: u8)))"]
    then have "long_bytes (length bs1) (Suc j) False (acc OR push_bit (8 * j) (word_of_int (uint (ucast x :: u8)))) ?arg =
        (acc OR push_bit (8 * j) x, arg\<lparr>lptr := rest\<rparr>)"
      using byte_split [of j x] by (simp add: or.assoc)
    then show ?thesis using IH b(2) Suc.prems(5) by (simp add: r_byte_Cons)
  qed
qed simp

lemma r_long_code:
  assumes "0 \<le> sint x" "lptr arg = long_code x @ rest"
  shows "r_long arg = Inr (x, arg\<lparr>lptr := rest\<rparr>)"
proof (cases "x = 0")
  case True
  then show ?thesis using assms(2) by (simp add: r_long_def long_code_def r_byte_Cons)
next
  case False
  obtain h bs where l: "long_loop 4 1 x = (h, bs)" by fastforce
  let ?arg = "arg\<lparr>lptr := bs @ rest\<rparr>"
  have "uint x < 256 ^ 4" using uint_32_less [of x] by simp
  from long_loop_read [OF assms(1) this _ l, of ?arg rest 0 0]
  have r: "bs \<noteq> []" "length bs \<le> 4" "h = int (length bs)"
    "long_bytes (length bs) 0 False 0 ?arg = (x, arg\<lparr>lptr := rest\<rparr>)" by simp_all
  have "uint (word_of_int h :: u8) = h" using r(2,3) by (simp add: unsigned_of_nat take_bit_nat_eq_self)
  then have "r_byte arg = (h, ?arg)" using assms(2) False l by (simp add: long_code_def r_byte_Cons)
  then show ?thesis using r by (simp add: r_long_def)
qed

lemma sint_small: "n < 2147483648 \<Longrightarrow> sint (of_nat n :: u32) = int n"
  by (simp add: sint_eq_uint_if uint_nat unat_of_nat)

text \<open>
  \<^verbatim>\<open>alloca(len)\<close> gives at least \<open>len\<close> bytes, often more because it rounds up. \<open>room\<close> says that it leaves a
  byte for the zero that \<^verbatim>\<open>r_bytes0\<close> writes behind the bytes.
\<close>

definition room :: "'d marshal_env \<Rightarrow> u8 list \<Rightarrow> bool" where
  "room E bs \<longleftrightarrow> int (length bs) < alloca_size E (int (length bs))"

lemma r_bytes_code:
  assumes "lptr arg = long_code (of_nat (length s)) @ s @ rest" "length s < 2147483648" "room E s"
  shows "r_bytes E arg = Inr (s, arg\<lparr>lptr := rest\<rparr>)"
proof -
  have "r_long arg = Inr (of_nat (length s), arg\<lparr>lptr := s @ rest\<rparr>)"
    by (rule r_long_code) (use assms(1) sint_small [OF assms(2)] in simp_all)
  moreover have "\<not> alloca_size E (int (length s)) \<le> int (length s)" using assms(3) by (simp add: room_def)
  ultimately show ?thesis using sint_small [OF assms(2)] by (simp add: r_bytes_def r_bytes0_def)
qed

lemma r_bytes_overflow:
  assumes "lptr arg = long_code (of_nat (length s)) @ s @ rest" "length s < 2147483648" "\<not> room E s"
  shows "r_bytes E arg = Inl OutOfBounds"
proof -
  have "r_long arg = Inr (of_nat (length s), arg\<lparr>lptr := s @ rest\<rparr>)"
    by (rule r_long_code) (use assms(1) sint_small [OF assms(2)] in simp_all)
  then show ?thesis using sint_small [OF assms(2)] assms(3) by (simp add: r_bytes_def r_bytes0_def room_def)
qed

section \<open>The tables of the writer and of the reader\<close>

text \<open>
  After the same objects, the writer's table numbers the list \<open>xs\<close> of what it has seen and the reader's
  table holds the list \<open>ys\<close> of what it has made, under the same numbers.
\<close>

definition numbers :: "(u32, u32) st_table \<Rightarrow> u32 list \<Rightarrow> bool" where
  "numbers t xs \<longleftrightarrow> num_table t \<and> distinct xs \<and> list_all num_key xs \<and> dom (num_map t) = set xs \<and>
     (\<forall>i<length xs. num_map t (xs ! i) = Some (of_nat i))"

definition holds_list :: "(u32, 'v) st_table \<Rightarrow> 'v list \<Rightarrow> bool" where
  "holds_list t ys \<longleftrightarrow> num_table t \<and> length ys \<le> 2147483648 \<and> dom (num_map t) = of_nat ` {..<length ys} \<and>
     (\<forall>i<length ys. num_map t (of_nat i) = Some (ys ! i))"

lemma num_key_less: "num_key x \<longleftrightarrow> unat x < 2147483648"
proof -
  have "num_key x \<longleftrightarrow> uint x < 2147483648"
    using uint_32_less [of x] by (simp add: num_key_def sint_eq_uint_if)
  also have "\<dots> \<longleftrightarrow> nat (uint x) < 2147483648" by (simp only: nat_less_iff unsigned_greater_eq of_nat_numeral)
  finally show ?thesis by (simp only: unat_eq_nat_uint)
qed

lemma num_keys_bound:
  assumes "distinct xs" "list_all num_key xs"
  shows "length xs \<le> 2147483648"
proof -
  have "unat ` set xs \<subseteq> {..<2147483648}" using assms(2) by (auto simp: num_key_less list_all_iff)
  then have "card (unat ` set xs) \<le> 2147483648" using card_mono [of "{..<2147483648 :: nat}"] by fastforce
  moreover have "card (unat ` set xs) = card (set xs)" by (intro card_image inj_onI) (erule unsigned_word_eqI)
  ultimately show ?thesis using distinct_card [OF assms(1)] by simp
qed

lemma of_nat_inj: "i < 4294967296 \<Longrightarrow> j < 4294967296 \<Longrightarrow> (of_nat i :: u32) = of_nat j \<longleftrightarrow> i = j"
  by (simp add: word_of_nat_eq_iff take_bit_nat_eq_self)

lemma num_key_of_nat: "n < 2147483648 \<Longrightarrow> num_key (of_nat n)"
  by (simp add: num_key_less unat_of_nat)

lemma numbers_count: "numbers t xs \<Longrightarrow> num_entries t = int (length xs)"
  using num.map_card [of t] by (simp add: numbers_def distinct_card)

lemma holds_list_count:
  assumes "holds_list t ys" shows "num_entries t = int (length ys)"
proof -
  have "inj_on (of_nat :: nat \<Rightarrow> u32) {..<length ys}"
    using assms by (intro inj_onI) (auto simp: holds_list_def of_nat_inj)
  then show ?thesis using num.map_card [of t] assms by (simp add: holds_list_def card_image)
qed

lemma numbers_init: "numbers st_init_numtable []"
  by (simp add: numbers_def)

lemma holds_list_init: "holds_list st_init_numtable []"
  by (simp add: holds_list_def)

lemma numbers_lookup:
  assumes "numbers t xs" "num_key x"
  shows "x \<notin> set xs \<Longrightarrow> st_lookup t x = Inr None"
    "i < length xs \<Longrightarrow> xs ! i = x \<Longrightarrow> st_lookup t x = Inr (Some (of_nat i))"
  using num.map_lookup [of t x] assms by (auto simp: numbers_def domIff)

lemma numbers_insert:
  assumes "numbers t xs" "num_key x" "x \<notin> set xs"
  shows "\<exists>t' b. st_insert t x (word_of_int (num_entries t)) = Inr (t', b) \<and> numbers t' (xs @ [x])"
proof -
  from num.map_insert [of t x "word_of_int (num_entries t)"] assms obtain t' b where
    t': "st_insert t x (word_of_int (num_entries t)) = Inr (t', b)" "num_table t'"
      "num_map t' = (num_map t)(x \<mapsto> word_of_int (num_entries t))" by (auto simp: numbers_def)
  have "num_map t' ((xs @ [x]) ! i) = Some (of_nat i)" if "i < length (xs @ [x])" for i
    using that assms t'(3) numbers_count [OF assms(1)]
    by (auto simp: numbers_def nth_append less_Suc_eq)
  then have "numbers t' (xs @ [x])" using assms t'(2,3) by (auto simp: numbers_def)
  with t'(1) show ?thesis by blast
qed

lemma holds_list_lookup:
  assumes "holds_list t ys" "i < length ys"
  shows "st_lookup t (of_nat i) = Inr (Some (ys ! i))"
  using num.map_lookup [of t "of_nat i"] num_key_of_nat [of i] assms by (simp add: holds_list_def)

lemma holds_list_insert:
  assumes "holds_list t ys" "length ys < 2147483648"
  shows "\<exists>t' b. st_insert t (word_of_int (num_entries t)) y = Inr (t', b) \<and> holds_list t' (ys @ [y])"
proof -
  have n: "word_of_int (num_entries t) = (of_nat (length ys) :: u32)" using holds_list_count [OF assms(1)] by simp
  from num.map_insert [of t "of_nat (length ys)" y] num_key_of_nat [OF assms(2)] assms(1) obtain t' b where
    t': "st_insert t (of_nat (length ys)) y = Inr (t', b)" "num_table t'"
      "num_map t' = (num_map t)(of_nat (length ys) \<mapsto> y)" by (auto simp: holds_list_def)
  have "num_map t' (of_nat i) = Some ((ys @ [y]) ! i)" if "i < length (ys @ [y])" for i
    using that assms t'(3) by (auto simp: holds_list_def nth_append less_Suc_eq of_nat_inj)
  moreover have "dom (num_map t') = of_nat ` {..<length (ys @ [y])}"
    using assms(1) t'(3) by (auto simp: holds_list_def lessThan_Suc)
  ultimately have "holds_list t' (ys @ [y])" using assms t'(2) by (simp add: holds_list_def)
  with t'(1) n show ?thesis by metis
qed

section \<open>Corresponding values and objects\<close>

fun same_val :: "(u32 \<rightharpoonup> u32) \<Rightarrow> mval \<Rightarrow> mval \<Rightarrow> bool" where
  "same_val \<rho> (MRef a) w = (\<exists>b. \<rho> a = Some b \<and> w = MRef b)"
| "same_val \<rho> v w = (w = v)"

definition ivs_map :: "(u32, mval) st_table option \<Rightarrow> u32 \<rightharpoonup> mval" where
  "ivs_map ivs = (case ivs of None \<Rightarrow> Map.empty | Some t \<Rightarrow> num_map t)"

definition same_ivars :: "(u32 \<rightharpoonup> u32) \<Rightarrow> (u32 \<rightharpoonup> mval) \<Rightarrow> (u32 \<rightharpoonup> mval) \<Rightarrow> bool" where
  "same_ivars \<rho> m m' \<longleftrightarrow> (\<forall>i. rel_option (same_val \<rho>) (m i) (m' i))"

text \<open>
  \<open>same_obj \<rho> ob ob'\<close>: objects of the same class with the same contents, in which the references correspond by \<open>\<rho>\<close>.
\<close>

fun same_obj :: "(u32 \<rightharpoonup> u32) \<Rightarrow> 'd mobj \<Rightarrow> 'd mobj \<Rightarrow> bool" where
  "same_obj \<rho> (OBignum x) ob' = (ob' = OBignum x)"
| "same_obj \<rho> (OString c s) ob' = (\<exists>s' bs. ob' = OString c s' \<and> is_string s bs \<and> is_string s' bs)"
| "same_obj \<rho> (OArray c a) ob' =
     (\<exists>a' vs ws. ob' = OArray c a' \<and> is_array a vs \<and> is_array a' ws \<and> list_all2 (same_val \<rho>) vs ws)"
| "same_obj \<rho> (OObject c ivs) ob' = (\<exists>ivs'. ob' = OObject c ivs' \<and> same_ivars \<rho> (ivs_map ivs) (ivs_map ivs'))"
| "same_obj \<rho> _ _ = False"

lemma same_val_mono: "\<rho> \<subseteq>\<^sub>m \<rho>' \<Longrightarrow> same_val \<rho> v w \<Longrightarrow> same_val \<rho>' v w"
  by (cases v) (auto simp: map_le_def dom_def)

lemma same_vals_mono: "\<rho> \<subseteq>\<^sub>m \<rho>' \<Longrightarrow> list_all2 (same_val \<rho>) vs ws \<Longrightarrow> list_all2 (same_val \<rho>') vs ws"
  by (erule list_all2_mono) (rule same_val_mono)

lemma same_ivars_mono: "\<rho> \<subseteq>\<^sub>m \<rho>' \<Longrightarrow> same_ivars \<rho> t t' \<Longrightarrow> same_ivars \<rho>' t t'"
  unfolding same_ivars_def by (metis option.rel_mono_strong same_val_mono)

lemma same_obj_mono: "\<rho> \<subseteq>\<^sub>m \<rho>' \<Longrightarrow> same_obj \<rho> ob ob' \<Longrightarrow> same_obj \<rho>' ob ob'"
  by (cases ob) (auto dest: same_vals_mono same_ivars_mono)

text \<open>
  Graphs that can be written and read: symbols and classes that have names, nonnegative Fixnums, no hooks, and
  names and strings of lengths for which \<^verbatim>\<open>alloca\<close> leaves room for the final zero.
\<close>

definition symbol_ok :: "'d marshal_env \<Rightarrow> u32 \<Rightarrow> bool" where
  "symbol_ok E i \<longleftrightarrow> num_key i \<and> length (id2name E i) < 2147483648 \<and> 0 \<notin> set (id2name E i) \<and> room E (id2name E i) \<and>
     intern E (id2name E i) = i"

definition class_ok :: "'d marshal_env \<Rightarrow> u32 \<Rightarrow> bool" where
  "class_ok E c \<longleftrightarrow> (let i = intern E (class2name E c) in symbol_ok E i \<and> path2class E (id2name E i) = Inr c)"

fun value_ok :: "'d heap \<Rightarrow> mval \<Rightarrow> bool" where
  "value_ok H (MFix w) \<longleftrightarrow> odd w \<and> 0 \<le> sint (FIX2INT w)"
| "value_ok H (MRef a) \<longleftrightarrow> a \<in> dom H"
| "value_ok H _ \<longleftrightarrow> True"

fun object_ok :: "'d marshal_env \<Rightarrow> 'd heap \<Rightarrow> 'd mobj \<Rightarrow> bool" where
  "object_ok E H (OBignum x) \<longleftrightarrow> bignorm x = Big x \<and> length (bdigits x) = blen x \<and> blen x < 1073741824"
| "object_ok E H (OString c s) \<longleftrightarrow> class_ok E c \<and> (\<exists>bs. is_string s bs \<and> room E bs)"
| "object_ok E H (OArray c a) \<longleftrightarrow> class_ok E c \<and>
     (\<exists>vs. is_array a vs \<and> length vs < 1073741808 \<and> list_all (value_ok H) vs)"
| "object_ok E H (OObject c ivs) \<longleftrightarrow> class_ok E c \<and> \<not> singleton_p E c \<and>
     (case ivs of None \<Rightarrow> True
      | Some t \<Rightarrow> num_table t \<and> num_entries t < 2147483648 \<and>
          list_all (\<lambda>(i, v). symbol_ok E i \<and> value_ok H v) (concat (bins t)))"
| "object_ok E H _ \<longleftrightarrow> False"

definition graph_ok :: "'d marshal_env \<Rightarrow> 'd heap \<Rightarrow> bool" where
  "graph_ok E H \<longleftrightarrow> finite (dom H) \<and> (\<forall>a ob. H a = Some ob \<longrightarrow> num_key a \<and> dump_hook E a = None \<and> object_ok E H ob)"

text \<open>The interpreter that reads: memory for \<open>M\<close> objects.\<close>

definition reader_ok :: "nat \<Rightarrow> 'd marshal_env \<Rightarrow> bool" where
  "reader_ok M E \<longleftrightarrow> s_usable (m_str E) \<and> usable (m_ary E) \<and>
     (\<forall>h. finite (dom h) \<longrightarrow> card (dom h) < M \<longrightarrow> (\<exists>a. newobj E h = Inr a \<and> h a = None))"

section \<open>Writing and reading the same objects\<close>

text \<open>
  The writer has numbered the objects \<open>as\<close> and the symbols \<open>ss\<close>; the reader has made the objects at
  \<open>adrs\<close> for them, and has room for the rest of \<open>N\<close> objects.
\<close>

definition written :: "dump_arg \<Rightarrow> u32 list \<Rightarrow> u32 list \<Rightarrow> bool" where
  "written D as ss \<longleftrightarrow> numbers (ddata D) as \<and> numbers (dsymbol D) ss"

definition linked :: "nat \<Rightarrow> nat \<Rightarrow> u32 list \<Rightarrow> u32 list \<Rightarrow> u32 list \<Rightarrow> 'd load_arg \<Rightarrow> bool" where
  "linked M N as ss adrs L \<longleftrightarrow> holds_list (ldata L) (map MRef adrs) \<and> length adrs = length as \<and>
     holds_list (lsymbol L) ss \<and> finite (dom (lheap L)) \<and> length as \<le> N \<and> card (dom (lheap L)) + N \<le> M + length as"

definition grown :: "u32 set \<Rightarrow> 'd heap \<Rightarrow> 'd heap \<Rightarrow> u32 list \<Rightarrow> bool" where
  "grown X h h' new \<longleftrightarrow> (\<forall>x\<in>dom h - X. h' x = h x) \<and> dom h' = dom h \<union> set new \<and> distinct new \<and> set new \<inter> dom h = {}"

definition complete :: "(u32 \<rightharpoonup> u32) \<Rightarrow> 'd heap \<Rightarrow> 'd heap \<Rightarrow> u32 list \<Rightarrow> u32 list \<Rightarrow> bool" where
  "complete \<rho> H h as adrs \<longleftrightarrow>
     list_all2 (\<lambda>a b. \<exists>ob ob'. H a = Some ob \<and> h b = Some ob' \<and> same_obj \<rho> ob ob') as adrs"

abbreviation links :: "u32 list \<Rightarrow> u32 list \<Rightarrow> u32 \<rightharpoonup> u32" where
  "links as adrs \<equiv> map_of (zip as adrs)"

text \<open>
  \<open>reads\<close>: from the bytes \<open>bs\<close> the reader \<open>rd\<close> makes copies of the objects \<open>as'\<close> that the writer numbered
  while it wrote them, and changes no other object but those in \<open>X\<close>.
\<close>

definition reads ::
    "nat \<Rightarrow> nat \<Rightarrow> 'd heap \<Rightarrow> u32 list \<Rightarrow> u32 list \<Rightarrow> u8 list \<Rightarrow> u32 list \<Rightarrow> u32 list \<Rightarrow> u32 set \<Rightarrow>
     ((u32 \<rightharpoonup> u32) \<Rightarrow> 'd heap \<Rightarrow> bool) \<Rightarrow> ('d load_arg \<Rightarrow> ('x \<times> 'd load_arg) result) \<Rightarrow>
     ((u32 \<rightharpoonup> u32) \<Rightarrow> 'x \<Rightarrow> 'd heap \<Rightarrow> bool) \<Rightarrow> bool" where
  "reads M N H as ss bs as' ss' X P rd Q \<longleftrightarrow>
     (\<forall>L rest adrs. linked M N as ss adrs L \<and> lptr L = bs @ rest \<and> X \<subseteq> dom (lheap L) \<and> P (links as adrs) (lheap L) \<longrightarrow>
       (\<exists>x L' new. rd L = Inr (x, L') \<and> lptr L' = rest \<and> linked M N (as @ as') (ss @ ss') (adrs @ new) L' \<and>
          grown X (lheap L) (lheap L') new \<and> complete (links (as @ as') (adrs @ new)) H (lheap L') as' new \<and>
          Q (links (as @ as') (adrs @ new)) x (lheap L')))"

lemma links_mono: "length as = length adrs \<Longrightarrow> links as adrs \<subseteq>\<^sub>m links (as @ as') (adrs @ new)"
  by (simp add: map_of_append map_le_map_add)

lemma complete_mono:
  assumes "complete \<rho> H h as adrs" "\<rho> \<subseteq>\<^sub>m \<rho>'" "\<And>b. b \<in> set adrs \<Longrightarrow> h' b = h b"
  shows "complete \<rho>' H h' as adrs"
  using assms unfolding complete_def
  by (auto simp: list_all2_conv_all_nth) (metis assms(2) nth_mem same_obj_mono)

lemma complete_append:
  "complete \<rho> H h as adrs \<Longrightarrow> complete \<rho> H h as' adrs' \<Longrightarrow> complete \<rho> H h (as @ as') (adrs @ adrs')"
  unfolding complete_def by (rule list_all2_appendI)

lemma complete_length: "complete \<rho> H h as adrs \<Longrightarrow> length as = length adrs"
  unfolding complete_def by (rule list_all2_lengthD)

lemma complete_cong: "complete \<rho> H h as adrs \<Longrightarrow> (\<And>a. a \<in> set as \<Longrightarrow> H' a = H a) \<Longrightarrow> complete \<rho> H' h as adrs"
  unfolding complete_def by (auto simp: list_all2_conv_all_nth)

lemma grown_keeps: "grown X h h' new \<Longrightarrow> x \<in> dom h \<Longrightarrow> x \<notin> X \<Longrightarrow> h' x = h x"
  by (simp add: grown_def)

lemma grown_trans:
  assumes "grown X h h1 new1" "grown X h1 h2 new2" "X \<subseteq> dom h"
  shows "grown X h h2 (new1 @ new2)"
  using assms unfolding grown_def by (auto; blast)

lemma reads_seq:
  assumes r1: "reads M N H as ss bs1 as1 ss1 X P rd1 Q1"
    and r2: "\<And>x. reads M N H (as @ as1) (ss @ ss1) bs2 as2 ss2 X (\<lambda>\<rho> h. Q1 \<rho> x h) (rd2 x) Q2"
  shows "reads M N H as ss (bs1 @ bs2) (as1 @ as2) (ss1 @ ss2) X P (\<lambda>L. bindR (rd1 L) (\<lambda>(x, L). rd2 x L)) Q2"
  unfolding reads_def
proof (intro allI impI, elim conjE)
  fix L rest adrs assume L: "linked M N as ss adrs L" "lptr L = (bs1 @ bs2) @ rest" "X \<subseteq> dom (lheap L)" "P (links as adrs) (lheap L)"
  obtain x L1 new1 where 1: "rd1 L = Inr (x, L1)" "lptr L1 = bs2 @ rest" "linked M N (as @ as1) (ss @ ss1) (adrs @ new1) L1"
    "grown X (lheap L) (lheap L1) new1" "complete (links (as @ as1) (adrs @ new1)) H (lheap L1) as1 new1"
    "Q1 (links (as @ as1) (adrs @ new1)) x (lheap L1)"
    using r1 [unfolded reads_def, rule_format, of adrs L "bs2 @ rest"] L by auto
  have X1: "X \<subseteq> dom (lheap L1)" using L(3) 1(4) by (auto simp: grown_def)
  obtain y L2 new2 where 2: "rd2 x L1 = Inr (y, L2)" "lptr L2 = rest"
    "linked M N ((as @ as1) @ as2) ((ss @ ss1) @ ss2) ((adrs @ new1) @ new2) L2" "grown X (lheap L1) (lheap L2) new2"
    "complete (links ((as @ as1) @ as2) ((adrs @ new1) @ new2)) H (lheap L2) as2 new2"
    "Q2 (links ((as @ as1) @ as2) ((adrs @ new1) @ new2)) y (lheap L2)"
    using r2 [of x, unfolded reads_def, rule_format, of "adrs @ new1" L1 rest] 1 X1 by auto
  have m: "links (as @ as1) (adrs @ new1) \<subseteq>\<^sub>m links ((as @ as1) @ as2) ((adrs @ new1) @ new2)"
    by (rule links_mono) (use 1(3) in \<open>simp add: linked_def\<close>)
  have "lheap L2 b = lheap L1 b" if "b \<in> set new1" for b
  proof (rule grown_keeps [OF 2(4)])
    show "b \<in> dom (lheap L1)" "b \<notin> X" using that 1(4) L(3) unfolding grown_def by blast+
  qed
  from complete_mono [OF 1(5) m this] 2(5)
  have "complete (links ((as @ as1) @ as2) ((adrs @ new1) @ new2)) H (lheap L2) (as1 @ as2) (new1 @ new2)"
    by (intro complete_append)
  then show "\<exists>x L' new. bindR (rd1 L) (\<lambda>(x, L). rd2 x L) = Inr (x, L') \<and> lptr L' = rest \<and>
      linked M N (as @ as1 @ as2) (ss @ ss1 @ ss2) (adrs @ new) L' \<and> grown X (lheap L) (lheap L') new \<and>
      complete (links (as @ as1 @ as2) (adrs @ new)) H (lheap L') (as1 @ as2) new \<and>
      Q2 (links (as @ as1 @ as2) (adrs @ new)) x (lheap L')"
    using 1(1) 2 grown_trans [OF 1(4) 2(4) L(3)] by (intro exI [of _ y] exI [of _ L2] exI [of _ "new1 @ new2"]) simp
qed

lemma linked_lptr [simp]: "linked M N as ss adrs (L\<lparr>lptr := bs\<rparr>) = linked M N as ss adrs L"
  by (simp add: linked_def)

lemma linked_heap: "dom h = dom (lheap L) \<Longrightarrow> linked M N as ss adrs (L\<lparr>lheap := h\<rparr>) = linked M N as ss adrs L"
  by (simp add: linked_def)

lemma grown_refl [simp]: "grown X h h []"
  by (simp add: grown_def)

lemma complete_Nil [simp]: "complete \<rho> H h [] []"
  by (simp add: complete_def)

text \<open>A reader that only takes bytes.\<close>

lemma reads_bytes:
  assumes "\<And>L rest adrs. linked M N as ss adrs L \<Longrightarrow> lptr L = bs @ rest \<Longrightarrow> P (links as adrs) (lheap L) \<Longrightarrow>
    \<exists>x. rd L = Inr (x, L\<lparr>lptr := rest\<rparr>) \<and> Q (links as adrs) x (lheap L)"
  shows "reads M N H as ss bs [] [] X P rd Q"
  unfolding reads_def
proof (intro allI impI, elim conjE)
  fix L rest adrs assume L: "linked M N as ss adrs L" "lptr L = bs @ rest" "P (links as adrs) (lheap L)"
  from assms [OF L] obtain x where x: "rd L = Inr (x, L\<lparr>lptr := rest\<rparr>)" "Q (links as adrs) x (lheap L)" by blast
  then show "\<exists>x L' new. rd L = Inr (x, L') \<and> lptr L' = rest \<and> linked M N (as @ []) (ss @ []) (adrs @ new) L' \<and>
      grown X (lheap L) (lheap L') new \<and> complete (links (as @ []) (adrs @ new)) H (lheap L') [] new \<and>
      Q (links (as @ []) (adrs @ new)) x (lheap L')"
    using L(1) by (intro exI [of _ x] exI [of _ "L\<lparr>lptr := rest\<rparr>"] exI [of _ "[]"]) simp
qed

lemma reads_cong:
  assumes "reads M N H as ss bs as' ss' X P rd Q" and H: "\<And>a. a \<in> set as' \<Longrightarrow> H' a = H a"
  shows "reads M N H' as ss bs as' ss' X P rd Q"
proof -
  have "complete \<rho> H h as' adrs \<Longrightarrow> complete \<rho> H' h as' adrs" for \<rho> h adrs
    by (erule complete_cong) (rule H)
  with assms(1) show ?thesis unfolding reads_def by blast
qed

lemma reads_weaken:
  assumes "reads M N H as ss bs as' ss' X P rd Q" "\<And>\<rho> h. P' \<rho> h \<Longrightarrow> P \<rho> h" "\<And>\<rho> x h. Q \<rho> x h \<Longrightarrow> Q' \<rho> x h"
  shows "reads M N H as ss bs as' ss' X P' rd Q'"
  using assms unfolding reads_def by blast

lemma reads_if: "(p \<Longrightarrow> reads M N H as ss bs as' ss' X P rd Q) \<Longrightarrow> reads M N H as ss bs as' ss' X (\<lambda>\<rho> h. p \<and> P \<rho> h) rd Q"
  unfolding reads_def by blast

text \<open>A reader that changes no object keeps what is known of the objects in \<open>X\<close>.\<close>

definition stable :: "u32 set \<Rightarrow> ((u32 \<rightharpoonup> u32) \<Rightarrow> 'd heap \<Rightarrow> bool) \<Rightarrow> bool" where
  "stable X P \<longleftrightarrow> (\<forall>\<rho> \<rho>' h h'. P \<rho> h \<longrightarrow> \<rho> \<subseteq>\<^sub>m \<rho>' \<longrightarrow> (\<forall>x\<in>X. h' x = h x) \<longrightarrow> P \<rho>' h')"

lemma reads_frame:
  assumes "reads M N H as ss bs as' ss' {} (\<lambda>_ _. True) rd Q" "stable X P"
  shows "reads M N H as ss bs as' ss' X P rd (\<lambda>\<rho> x h. P \<rho> h \<and> Q \<rho> x h)"
  unfolding reads_def
proof (intro allI impI, elim conjE)
  fix L rest adrs
  assume L: "linked M N as ss adrs L" "lptr L = bs @ rest" "X \<subseteq> dom (lheap L)" "P (links as adrs) (lheap L)"
  obtain x L' new where r: "rd L = Inr (x, L')" "lptr L' = rest" "linked M N (as @ as') (ss @ ss') (adrs @ new) L'"
    "grown {} (lheap L) (lheap L') new" "complete (links (as @ as') (adrs @ new)) H (lheap L') as' new"
    "Q (links (as @ as') (adrs @ new)) x (lheap L')"
    using assms(1) [unfolded reads_def, rule_format, of adrs L rest] L by auto
  have "links as adrs \<subseteq>\<^sub>m links (as @ as') (adrs @ new)" using L(1) by (intro links_mono) (simp add: linked_def)
  moreover have "\<forall>x\<in>X. lheap L' x = lheap L x" using r(4) L(3) by (auto simp: grown_def)
  ultimately have "P (links (as @ as') (adrs @ new)) (lheap L')" using assms(2) L(4) unfolding stable_def by blast
  moreover have "grown X (lheap L) (lheap L') new" using r(4) by (auto simp: grown_def)
  ultimately show "\<exists>x L' new. rd L = Inr (x, L') \<and> lptr L' = rest \<and> linked M N (as @ as') (ss @ ss') (adrs @ new) L' \<and>
      grown X (lheap L) (lheap L') new \<and> complete (links (as @ as') (adrs @ new)) H (lheap L') as' new \<and>
      P (links (as @ as') (adrs @ new)) (lheap L') \<and> Q (links (as @ as') (adrs @ new)) x (lheap L')"
    using r by blast
qed

text \<open>A reader that only changes the objects in \<open>X\<close>.\<close>

lemma reads_local:
  assumes "\<And>L \<rho>. P \<rho> (lheap L) \<Longrightarrow> \<exists>h'. rd L = Inr (x, L\<lparr>lheap := h'\<rparr>) \<and> Q \<rho> x h' \<and> dom h' = dom (lheap L) \<and>
      (\<forall>y. y \<notin> X \<longrightarrow> h' y = lheap L y)"
  shows "reads M N H as ss [] [] [] X P rd Q"
  unfolding reads_def
proof (intro allI impI, elim conjE)
  fix L rest adrs assume L: "linked M N as ss adrs L" "lptr L = [] @ rest" "P (links as adrs) (lheap L)"
  from assms [OF L(3)] obtain h' where h: "rd L = Inr (x, L\<lparr>lheap := h'\<rparr>)" "Q (links as adrs) x h'"
    "dom h' = dom (lheap L)" "\<forall>y. y \<notin> X \<longrightarrow> h' y = lheap L y" by blast
  then show "\<exists>x L' new. rd L = Inr (x, L') \<and> lptr L' = rest \<and> linked M N (as @ []) (ss @ []) (adrs @ new) L' \<and>
      grown X (lheap L) (lheap L') new \<and> complete (links (as @ []) (adrs @ new)) H (lheap L') [] new \<and>
      Q (links (as @ []) (adrs @ new)) x (lheap L')"
    using L(1,2) by (intro exI [of _ x] exI [of _ "L\<lparr>lheap := h'\<rparr>"] exI [of _ "[]"]) (simp add: linked_heap grown_def)
qed

section \<open>Steps of the writer and the reader\<close>

text \<open>
  \<open>step\<close>: whatever the writer \<open>wr\<close> appends, the reader \<open>rd\<close> reads back. The parameter \<open>y\<close> of the reader is
  what it has read before, on which the writer does not depend.
\<close>

definition step ::
    "nat \<Rightarrow> nat \<Rightarrow> 'd heap \<Rightarrow> u32 list \<Rightarrow> u32 list \<Rightarrow> (dump_arg \<Rightarrow> dump_arg result) \<Rightarrow> ('y \<Rightarrow> u32 set) \<Rightarrow>
     ('y \<Rightarrow> (u32 \<rightharpoonup> u32) \<Rightarrow> 'd heap \<Rightarrow> bool) \<Rightarrow> ('y \<Rightarrow> 'd load_arg \<Rightarrow> ('x \<times> 'd load_arg) result) \<Rightarrow>
     ('y \<Rightarrow> (u32 \<rightharpoonup> u32) \<Rightarrow> 'x \<Rightarrow> 'd heap \<Rightarrow> bool) \<Rightarrow> bool" where
  "step M N H as ss wr X P rd Q \<longleftrightarrow>
     (\<forall>D. written D as ss \<longrightarrow>
       (\<exists>D' bs as' ss'. wr D = Inr D' \<and> dstr D' = dstr D @ bs \<and> written D' (as @ as') (ss @ ss') \<and>
          set as' \<subseteq> dom H \<and> (\<forall>y. reads M N H as ss bs as' ss' (X y) (P y) (rd y) (Q y))))"

lemma stepE:
  assumes "step M N H as ss wr X P rd Q" "written D as ss"
  obtains D' bs as' ss' where "wr D = Inr D'" "dstr D' = dstr D @ bs" "written D' (as @ as') (ss @ ss')"
    "set as' \<subseteq> dom H" "\<forall>y. reads M N H as ss bs as' ss' (X y) (P y) (rd y) (Q y)"
  using assms unfolding step_def by blast

lemma step_reader:
  assumes "step M N H as ss wr X P rd Q"
    and "\<And>bs as' ss' z. (\<And>y. reads M N H as ss bs as' ss' (X y) (P y) (rd y) (Q y)) \<Longrightarrow>
      reads M N H as ss bs as' ss' (X' z) (P' z) (rd' z) (Q' z)"
  shows "step M N H as ss wr X' P' rd' Q'"
  unfolding step_def
proof (intro allI impI)
  fix D assume "written D as ss"
  with assms(1) obtain D' bs as' ss' where "wr D = Inr D'" "dstr D' = dstr D @ bs"
    "written D' (as @ as') (ss @ ss')" "set as' \<subseteq> dom H"
    and r: "\<forall>y. reads M N H as ss bs as' ss' (X y) (P y) (rd y) (Q y)" by (rule stepE)
  moreover have "\<forall>z. reads M N H as ss bs as' ss' (X' z) (P' z) (rd' z) (Q' z)" using assms(2) [OF r [rule_format]] by blast
  ultimately show "\<exists>D' bs as' ss'. wr D = Inr D' \<and> dstr D' = dstr D @ bs \<and> written D' (as @ as') (ss @ ss') \<and>
      set as' \<subseteq> dom H \<and> (\<forall>z. reads M N H as ss bs as' ss' (X' z) (P' z) (rd' z) (Q' z))" by blast
qed

lemma step_frame:
  assumes "step M N H as ss wr (\<lambda>_ :: unit. {}) (\<lambda>_ _ _. True) (\<lambda>_. rd) (\<lambda>_. Q)" "\<And>y. stable (X y) (P y)"
  shows "step M N H as ss wr X P (\<lambda>_. rd) (\<lambda>y \<rho> x h. P y \<rho> h \<and> Q \<rho> x h)"
  using assms(1) by (rule step_reader) (rule reads_frame [OF _ assms(2)])

lemma step_local:
  assumes "\<And>y. reads M N H as ss [] [] [] (X y) (P y) (rd y) (Q y)"
  shows "step M N H as ss Inr X P rd Q"
  unfolding step_def
proof (intro allI impI)
  fix D assume "written D as ss"
  then show "\<exists>D' bs as' ss'. Inr D = Inr D' \<and> dstr D' = dstr D @ bs \<and> written D' (as @ as') (ss @ ss') \<and>
      set as' \<subseteq> dom H \<and> (\<forall>y. reads M N H as ss bs as' ss' (X y) (P y) (rd y) (Q y))"
    using assms by (intro exI [of _ D] exI [of _ "[]"]) simp
qed

lemma step_weaken:
  assumes "step M N H as ss wr X P rd Q" "\<And>y \<rho> h. P' y \<rho> h \<Longrightarrow> P y \<rho> h" "\<And>y \<rho> x h. Q y \<rho> x h \<Longrightarrow> Q' y \<rho> x h"
  shows "step M N H as ss wr X P' rd Q'"
  using assms(1) by (rule step_reader) (rule reads_weaken, assumption, erule assms(2), erule assms(3))

section \<open>Symbols\<close>

lemma symbol_again:
  assumes "numbers (dsymbol D) ss" "k < length ss"
  shows "w_symbol E (ss ! k) D = Inr (D\<lparr>dstr := dstr D @ 59 # long_code (of_nat k)\<rparr>)"
    "reads M N H as ss (59 # long_code (of_nat k)) [] [] X P (r_symbol E) (\<lambda>\<rho> x h. x = ss ! k \<and> P \<rho> h)"
proof -
  have key: "num_key (ss ! k)" "k < 2147483648"
    using assms num_keys_bound [of ss] by (auto simp: numbers_def list_all_length)
  show "w_symbol E (ss ! k) D = Inr (D\<lparr>dstr := dstr D @ 59 # long_code (of_nat k)\<rparr>)"
    using numbers_lookup(2) [OF assms(1) key(1) assms(2)] by (simp add: w_symbol_def)
  show "reads M N H as ss (59 # long_code (of_nat k)) [] [] X P (r_symbol E) (\<lambda>\<rho> x h. x = ss ! k \<and> P \<rho> h)"
  proof (rule reads_bytes)
    fix L :: "'a load_arg" and rest adrs
    assume L: "linked M N as ss adrs L" "lptr L = (59 # long_code (of_nat k)) @ rest" "P (links as adrs) (lheap L)"
    let ?L = "L\<lparr>lptr := long_code (of_nat k) @ rest\<rparr>"
    have "r_long ?L = Inr (of_nat k, L\<lparr>lptr := rest\<rparr>)"
      using r_long_code [of "of_nat k" ?L rest] sint_small [OF key(2)] by simp
    moreover have "st_lookup (lsymbol L) (of_nat k) = Inr (Some (ss ! k))"
      by (rule holds_list_lookup [OF _ assms(2)]) (use L(1) in \<open>simp add: linked_def\<close>)
    ultimately have "r_symbol E L = Inr (ss ! k, L\<lparr>lptr := rest\<rparr>)"
      using r_byte_Cons [of L 59 "long_code (of_nat k) @ rest"] L(2) by (simp add: r_symbol_def)
    with L(3) show "\<exists>x. r_symbol E L = Inr (x, L\<lparr>lptr := rest\<rparr>) \<and> x = ss ! k \<and> P (links as adrs) (lheap L)" by simp
  qed
qed

lemma c_part_name: "0 \<notin> set bs \<Longrightarrow> c_part bs = bs"
  unfolding c_part_def by (auto simp: takeWhile_eq_all_conv)

lemma symbol_new:
  assumes "numbers (dsymbol D) ss" "i \<notin> set ss" "symbol_ok E i"
  defines "bs \<equiv> 58 # long_code (of_nat (length (id2name E i))) @ id2name E i"
  shows "\<exists>t. w_symbol E i D = Inr (D\<lparr>dstr := dstr D @ bs, dsymbol := t\<rparr>) \<and> numbers t (ss @ [i])"
    "reads M N H as ss bs [] [i] X P (r_symbol E) (\<lambda>\<rho> x h. x = i \<and> P \<rho> h)"
proof -
  have i: "num_key i" "length (id2name E i) < 2147483648" "0 \<notin> set (id2name E i)" "intern E (id2name E i) = i"
    "room E (id2name E i)"
    using assms(3) by (simp_all add: symbol_ok_def)
  obtain t b where t: "st_insert (dsymbol D) i (word_of_int (num_entries (dsymbol D))) = Inr (t, b)" "numbers t (ss @ [i])"
    using numbers_insert [OF assms(1) i(1) assms(2)] by blast
  then show "\<exists>t. w_symbol E i D = Inr (D\<lparr>dstr := dstr D @ bs, dsymbol := t\<rparr>) \<and> numbers t (ss @ [i])"
    using numbers_lookup(1) [OF assms(1) i(1) assms(2)]
    by (intro exI [of _ t]) (simp add: w_symbol_def bs_def)
  have len: "length ss < 2147483648" using t(2) num_keys_bound [of "ss @ [i]"] by (simp add: numbers_def)
  show "reads M N H as ss bs [] [i] X P (r_symbol E) (\<lambda>\<rho> x h. x = i \<and> P \<rho> h)"
    unfolding reads_def
  proof (intro allI impI, elim conjE)
    fix L :: "'a load_arg" and rest adrs
    assume L: "linked M N as ss adrs L" "lptr L = bs @ rest" "P (links as adrs) (lheap L)"
    let ?L = "L\<lparr>lptr := long_code (of_nat (length (id2name E i))) @ id2name E i @ rest\<rparr>"
    have b: "r_byte L = (58, ?L)" using r_byte_Cons [of L 58] L(2) by (simp add: bs_def)
    have n: "r_bytes E ?L = Inr (id2name E i, L\<lparr>lptr := rest\<rparr>)"
      using r_bytes_code [of ?L _ rest E] i(2,5) by simp
    have s: "holds_list (lsymbol L) ss" using L(1) by (simp add: linked_def)
    obtain t b where t: "st_insert (lsymbol L) (word_of_int (num_entries (lsymbol L))) i = Inr (t, b)" "holds_list t (ss @ [i])"
      using holds_list_insert [OF s len] by blast
    have "r_symbol E L = Inr (i, L\<lparr>lptr := rest, lsymbol := t\<rparr>)"
      using b n t(1) i(4) by (simp add: r_symbol_def c_part_name [OF i(3)])
    moreover have "linked M N as (ss @ [i]) adrs (L\<lparr>lptr := rest, lsymbol := t\<rparr>)" using L(1) t(2) by (simp add: linked_def)
    ultimately show "\<exists>x L' new. r_symbol E L = Inr (x, L') \<and> lptr L' = rest \<and> linked M N (as @ []) (ss @ [i]) (adrs @ new) L' \<and>
        grown X (lheap L) (lheap L') new \<and> complete (links (as @ []) (adrs @ new)) H (lheap L') [] new \<and>
        x = i \<and> P (links (as @ []) (adrs @ new)) (lheap L')"
      using L(3) by (intro exI [of _ i] exI [of _ "L\<lparr>lptr := rest, lsymbol := t\<rparr>"] exI [of _ "[]"]) simp
  qed
qed

text \<open>The object table has no part in a symbol, so the reader may be behind the writer by an object.\<close>

lemma symbol_writes:
  assumes "numbers (dsymbol D) ss" "symbol_ok E i"
  shows "\<exists>D' bs ss'. w_symbol E i D = Inr D' \<and> dstr D' = dstr D @ bs \<and> ddata D' = ddata D \<and> numbers (dsymbol D') (ss @ ss') \<and>
    (\<forall>M N H as X P. reads M N H as ss bs [] ss' X P (r_symbol E) (\<lambda>\<rho> x h. x = i \<and> P \<rho> h))"
proof (cases "i \<in> set ss")
  case True
  then obtain k where k: "k < length ss" "i = ss ! k" by (auto simp: in_set_conv_nth)
  then show ?thesis
    using symbol_again [OF assms(1) k(1), where E = E] assms(1)
    by (intro exI [of _ "D\<lparr>dstr := dstr D @ 59 # long_code (of_nat k)\<rparr>"] exI [of _ "59 # long_code (of_nat k)"] exI [of _ "[]"]) simp
next
  case False
  from symbol_new(1) [OF assms(1) False assms(2)] obtain t where
    "w_symbol E i D = Inr (D\<lparr>dstr := dstr D @ 58 # long_code (of_nat (length (id2name E i))) @ id2name E i, dsymbol := t\<rparr>)"
    "numbers t (ss @ [i])" by blast
  then show ?thesis
    using symbol_new(2) [OF assms(1) False assms(2)]
    by (intro exI [of _ "D\<lparr>dstr := dstr D @ 58 # long_code (of_nat (length (id2name E i))) @ id2name E i, dsymbol := t\<rparr>"]
        exI [of _ "58 # long_code (of_nat (length (id2name E i))) @ id2name E i"] exI [of _ "[i]"]) simp
qed

lemma symbol_step:
  assumes "symbol_ok E i"
  shows "step M N H as ss (w_symbol E i) X P (\<lambda>_. r_symbol E) (\<lambda>y \<rho> x h. x = i \<and> P y \<rho> h)"
  unfolding step_def
proof (intro allI impI)
  fix D assume D: "written D as ss"
  with symbol_writes [OF _ assms, of D ss] obtain D' bs ss' where s: "w_symbol E i D = Inr D'" "dstr D' = dstr D @ bs"
    "ddata D' = ddata D" "numbers (dsymbol D') (ss @ ss')"
    "\<forall>M N H as X P. reads M N H as ss bs [] ss' X P (r_symbol E) (\<lambda>\<rho> x h. x = i \<and> P \<rho> h)" by (auto simp: written_def)
  then show "\<exists>D' bs as' ss'. w_symbol E i D = Inr D' \<and> dstr D' = dstr D @ bs \<and> written D' (as @ as') (ss @ ss') \<and>
      set as' \<subseteq> dom H \<and> (\<forall>y. reads M N H as ss bs as' ss' (X y) (P y) (r_symbol E) (\<lambda>\<rho> x h. x = i \<and> P y \<rho> h))"
    using D by (intro exI [of _ D'] exI [of _ bs] exI [of _ "[]"] exI [of _ ss']) (simp add: written_def)
qed

section \<open>Items and instance variables\<close>

definition push_item :: "'d marshal_env \<Rightarrow> u32 \<Rightarrow> mval \<Rightarrow> 'd load_arg \<Rightarrow> (unit \<times> 'd load_arg) result" where
  "push_item E b x L =
     (case lheap L b of
        Some (OArray c a) \<Rightarrow> bindR (ary_push (m_ary E) a x) (\<lambda>a. Inr ((), L\<lparr>lheap := (lheap L)(b \<mapsto> OArray c a)\<rparr>))
      | _ \<Rightarrow> Inl OutOfBounds)"

definition unit_rd :: "('d load_arg \<Rightarrow> 'd load_arg result) \<Rightarrow> 'd load_arg \<Rightarrow> (unit \<times> 'd load_arg) result" where
  "unit_rd f L = bindR (f L) (\<lambda>L. Inr ((), L))"

lemma unit_items:
  "unit_rd (r_items E r b 0) = (\<lambda>L. Inr ((), L))"
  "unit_rd (r_items E r b (Suc n)) =
     (\<lambda>L. bindR (r L) (\<lambda>(x, L). bindR (push_item E b x L) (\<lambda>(u, L). unit_rd (r_items E r b n) L)))"
  by (auto simp: unit_rd_def push_item_def bindR_assoc fun_eq_iff split: option.split mobj.split intro!: arg_cong2 [of _ _ _ _ bindR])

definition has_items :: "u32 \<Rightarrow> (u32 \<rightharpoonup> u32) \<Rightarrow> mval list \<Rightarrow> 'd mobj option \<Rightarrow> bool" where
  "has_items c \<rho> us ob \<longleftrightarrow> (\<exists>a ws. ob = Some (OArray c a) \<and> is_array a ws \<and> \<not> frozen a \<and> list_all2 (same_val \<rho>) us ws)"

lemma stable_items: "stable {b} (\<lambda>\<rho> h. has_items c \<rho> us (h b))"
  unfolding stable_def has_items_def by (auto dest: same_vals_mono)

lemma push_item_ok:
  assumes "has_items c \<rho> us (lheap L b)" "same_val \<rho> v x" "usable (m_ary E)" "length us < 1073741824 - 16"
  shows "\<exists>ob. push_item E b x L = Inr ((), L\<lparr>lheap := (lheap L)(b \<mapsto> ob)\<rparr>) \<and> has_items c \<rho> (us @ [v]) (Some ob)"
proof -
  obtain a ws where a: "lheap L b = Some (OArray c a)" "is_array a ws" "\<not> frozen a" "list_all2 (same_val \<rho>) us ws"
    using assms(1) by (auto simp: has_items_def)
  have "length ws < 1073741824 - 16" using a(4) assms(4) by (simp add: list_all2_lengthD)
  from ary_push_ok [OF assms(3) a(2,3) this, of x] obtain a' where
    "ary_push (m_ary E) a x = Inr a'" "is_array a' (ws @ [x])" "\<not> frozen a'" by blast
  moreover have "list_all2 (same_val \<rho>) (us @ [v]) (ws @ [x])"
    by (rule list_all2_appendI [OF a(4)]) (simp add: assms(2))
  ultimately show ?thesis using a(1)
    by (intro exI [of _ "OArray c a'"]) (auto simp: push_item_def has_items_def)
qed

lemma push_item_reads:
  fixes E :: "'d marshal_env"
  assumes "usable (m_ary E)" "length us < 1073741824 - 16"
  shows "reads M N H as ss [] [] [] {b} (\<lambda>\<rho> h. has_items c \<rho> us (h b) \<and> same_val \<rho> v x) (push_item E b x)
    (\<lambda>\<rho> _ h. has_items c \<rho> (us @ [v]) (h b))"
proof (rule reads_local, elim conjE)
  fix L :: "'d load_arg" and \<rho> assume p: "has_items c \<rho> us (lheap L b)" "same_val \<rho> v x"
  from push_item_ok [OF p assms] obtain ob where
    "push_item E b x L = Inr ((), L\<lparr>lheap := (lheap L)(b \<mapsto> ob)\<rparr>)" "has_items c \<rho> (us @ [v]) (Some ob)" by blast
  then show "\<exists>h'. push_item E b x L = Inr ((), L\<lparr>lheap := h'\<rparr>) \<and> has_items c \<rho> (us @ [v]) (h' b) \<and>
      dom h' = dom (lheap L) \<and> (\<forall>y. y \<notin> {b} \<longrightarrow> h' y = lheap L y)"
    using p(1) by (intro exI [of _ "(lheap L)(b \<mapsto> ob)"]) (auto simp: has_items_def)
qed

lemma items_step:
  assumes w: "\<And>as ss v. A \<subseteq> set as \<Longrightarrow> set as \<subseteq> dom H \<Longrightarrow> v \<in> set vs \<Longrightarrow>
      step M N H as ss (w v limit) (\<lambda>_ :: unit. {}) (\<lambda>_ _ _. True) (\<lambda>_. r) (\<lambda>_ \<rho> x h. same_val \<rho> v x)"
    and "usable (m_ary E)" "length us + length vs < 1073741824 - 16" "A \<subseteq> set as" "set as \<subseteq> dom H"
  shows "step M N H as ss (w_items w limit vs) (\<lambda>b. {b}) (\<lambda>b \<rho> h. has_items c \<rho> us (h b))
    (\<lambda>b. unit_rd (r_items E r b (length vs))) (\<lambda>b \<rho> _ h. has_items c \<rho> (us @ vs) (h b))"
  using assms
proof (induction vs arbitrary: us as ss)
  case Nil
  have "unit_rd (r_items E r b 0) L = Inr ((), L\<lparr>lheap := lheap L\<rparr>)" for b L
    by (simp add: unit_rd_def)
  then have "reads M N H as ss [] [] [] {b} (\<lambda>\<rho> h. has_items c \<rho> us (h b)) (unit_rd (r_items E r b 0))
      (\<lambda>\<rho> _ h. has_items c \<rho> us (h b))" for b by (intro reads_local) blast
  from step_local [OF this] show ?case by (simp only: w_items.simps list.size append_Nil2 ext)
next
  case (Cons v vs)
  let ?P = "\<lambda>us b \<rho> h. has_items c \<rho> us (h b)"
  show ?case
    unfolding step_def
  proof (intro allI impI)
    fix D assume "written D as ss"
    with Cons.prems(1) [of as v ss] Cons.prems(4,5) obtain D1 bs1 as1 ss1 where 1: "w v limit D = Inr D1" "dstr D1 = dstr D @ bs1"
      "written D1 (as @ as1) (ss @ ss1)" "set as1 \<subseteq> dom H"
      "reads M N H as ss bs1 as1 ss1 {} (\<lambda>_ _. True) r (\<lambda>\<rho> x h. same_val \<rho> v x)"
      by (auto elim: stepE)
    have "step M N H (as @ as1) (ss @ ss1) (w_items w limit vs) (\<lambda>b. {b}) (?P (us @ [v]))
        (\<lambda>b. unit_rd (r_items E r b (length vs))) (\<lambda>b \<rho> _. ?P ((us @ [v]) @ vs) b \<rho>)"
      by (rule Cons.IH) (use Cons.prems 1(4) in auto)
    with 1(3) obtain D2 bs2 as2 ss2 where 2: "w_items w limit vs D1 = Inr D2" "dstr D2 = dstr D1 @ bs2"
      "written D2 ((as @ as1) @ as2) ((ss @ ss1) @ ss2)" "set as2 \<subseteq> dom H"
      "\<And>b. reads M N H (as @ as1) (ss @ ss1) bs2 as2 ss2 {b} (?P (us @ [v]) b) (unit_rd (r_items E r b (length vs)))
        (\<lambda>\<rho> _. ?P ((us @ [v]) @ vs) b \<rho>)" by (auto elim: stepE)
    have p: "reads M N H (as @ as1) (ss @ ss1) [] [] [] {b} (\<lambda>\<rho> h. ?P us b \<rho> h \<and> same_val \<rho> v x) (push_item E b x)
        (\<lambda>\<rho> _. ?P (us @ [v]) b \<rho>)" for b x
      by (rule push_item_reads) (use Cons.prems(2,3) in simp_all)
    have "reads M N H as ss (bs1 @ [] @ bs2) (as1 @ [] @ as2) (ss1 @ [] @ ss2) {b} (?P us b)
        (unit_rd (r_items E r b (length (v # vs)))) (\<lambda>\<rho> _. ?P ((us @ [v]) @ vs) b \<rho>)" for b
      unfolding list.size add_0_right add_Suc_right One_nat_def unit_items(2)
      by (rule reads_seq [OF reads_frame [OF 1(5) stable_items]], rule reads_seq [OF p]) (use 2(5) in simp)
    then show "\<exists>D' bs as' ss'. w_items w limit (v # vs) D = Inr D' \<and> dstr D' = dstr D @ bs \<and> written D' (as @ as') (ss @ ss') \<and>
        set as' \<subseteq> dom H \<and> (\<forall>b. reads M N H as ss bs as' ss' {b} (?P us b) (unit_rd (r_items E r b (length (v # vs))))
          (\<lambda>\<rho> _. ?P (us @ v # vs) b \<rho>))"
      using 1 2 by (intro exI [of _ D2] exI [of _ "bs1 @ bs2"] exI [of _ "as1 @ as2"] exI [of _ "ss1 @ ss2"]) simp
  qed
qed

lemma unit_ivars:
  "unit_rd (r_ivars E r b (Suc n)) =
     (\<lambda>L. bindR (r_symbol E L) (\<lambda>(i, L). bindR (r L) (\<lambda>(x, L).
        bindR (unit_rd (rb_ivar_set E b i x) L) (\<lambda>(u, L). unit_rd (r_ivars E r b n) L))))"
  by (auto simp: unit_rd_def bindR_assoc fun_eq_iff intro!: arg_cong2 [of _ _ _ _ bindR])

definition has_ivars :: "u32 \<Rightarrow> (u32 \<rightharpoonup> u32) \<Rightarrow> (u32 \<times> mval) list \<Rightarrow> 'd mobj option \<Rightarrow> bool" where
  "has_ivars c \<rho> es ob \<longleftrightarrow> (\<exists>ivs. ob = Some (OObject c ivs) \<and> same_ivars \<rho> (map_of es) (ivs_map ivs) \<and>
     (\<forall>t. ivs = Some t \<longrightarrow> num_table t))"

lemma stable_ivars: "stable {b} (\<lambda>\<rho> h. has_ivars c \<rho> es (h b))"
  unfolding stable_def has_ivars_def by (auto dest: same_ivars_mono)

lemma map_of_snoc: "i \<notin> fst ` set es \<Longrightarrow> map_of (es @ [(i, v)]) = (map_of es)(i \<mapsto> v)"
  by (induction es) (auto simp: fun_eq_iff)

lemma ivar_reads:
  fixes E :: "'d marshal_env"
  assumes "s_usable (m_str E)" "num_key i" "i \<notin> fst ` set es"
  shows "reads M N H as ss [] [] [] {b} (\<lambda>\<rho> h. has_ivars c \<rho> es (h b) \<and> same_val \<rho> v x) (unit_rd (rb_ivar_set E b i x))
    (\<lambda>\<rho> _ h. has_ivars c \<rho> (es @ [(i, v)]) (h b))"
proof (rule reads_local, elim conjE)
  fix L :: "'d load_arg" and \<rho> assume p: "has_ivars c \<rho> es (lheap L b)" "same_val \<rho> v x"
  then obtain ivs where o: "lheap L b = Some (OObject c ivs)" "same_ivars \<rho> (map_of es) (ivs_map ivs)"
    "\<forall>t. ivs = Some t \<longrightarrow> num_table t" by (auto simp: has_ivars_def)
  let ?t = "case ivs of None \<Rightarrow> st_init_numtable | Some t \<Rightarrow> t"
  have t: "num_table ?t" "num_map ?t = ivs_map ivs" using o(3) by (auto simp: ivs_map_def split: option.splits)
  from num.map_insert [OF t(1) assms(2), of x] t(2) obtain t' f where
    t': "st_insert ?t i x = Inr (t', f)" "num_table t'" "num_map t' = (ivs_map ivs)(i \<mapsto> x)" by auto
  have "same_ivars \<rho> (map_of (es @ [(i, v)])) (num_map t')"
    unfolding map_of_snoc [OF assms(3)] t'(3) using o(2) p(2) by (simp add: same_ivars_def)
  then have "has_ivars c \<rho> (es @ [(i, v)]) (Some (OObject c (Some t')))" using t'(2) by (simp add: has_ivars_def ivs_map_def)
  moreover have "unit_rd (rb_ivar_set E b i x) L = Inr ((), L\<lparr>lheap := (lheap L)(b \<mapsto> OObject c (Some t'))\<rparr>)"
    using o(1) t'(1) assms(1) by (simp add: unit_rd_def rb_ivar_set_def s_usable_def)
  ultimately show "\<exists>h'. unit_rd (rb_ivar_set E b i x) L = Inr ((), L\<lparr>lheap := h'\<rparr>) \<and> has_ivars c \<rho> (es @ [(i, v)]) (h' b) \<and>
      dom h' = dom (lheap L) \<and> (\<forall>y. y \<notin> {b} \<longrightarrow> h' y = lheap L y)"
    using o(1) by (intro exI [of _ "(lheap L)(b \<mapsto> OObject c (Some t'))"]) auto
qed

definition w_ivar :: "'d marshal_env \<Rightarrow> writer \<Rightarrow> int \<Rightarrow> u32 \<Rightarrow> mval \<Rightarrow> dump_arg \<Rightarrow> dump_arg result" where
  "w_ivar E w limit i v arg = bindR (w_symbol E i arg) (w v limit)"

lemma obj_each_ivar: "obj_each E w limit i v s = (ST_CONTINUE, bindR s (w_ivar E w limit i v))"
  by (simp add: obj_each_def w_ivar_def [abs_def])

lemma fold_cells_fun: "fold_cells f [] = Inr" "fold_cells f ((k, v) # es) = (\<lambda>s. bindR (f k v s) (fold_cells f es))"
  by (simp_all add: fun_eq_iff)

lemma obj_each_chain:
  "\<exists>c' n. foreach_chain (obj_each E w limit) c s = (c', n, bindR s (fold_cells (w_ivar E w limit) c), False)"
proof (induction c arbitrary: s)
  case (Cons e c)
  obtain i v where e: "e = (i, v)" by (cases e)
  from Cons.IH [of "bindR s (w_ivar E w limit i v)"] show ?case
    by (auto simp: e obj_each_ivar bindR_assoc fold_cells_fun)
qed (simp add: fold_cells_fun)

lemma obj_each_bins:
  "\<exists>cs' n. foreach_bins (obj_each E w limit) cs s = (cs', n, bindR s (fold_cells (w_ivar E w limit) (concat cs)))"
proof (induction cs arbitrary: s)
  case (Cons c cs)
  from obj_each_chain [of E w limit c s] obtain c' n where c:
    "foreach_chain (obj_each E w limit) c s = (c', n, bindR s (fold_cells (w_ivar E w limit) c), False)" by blast
  let ?s = "bindR s (fold_cells (w_ivar E w limit) c)"
  from Cons.IH [of ?s] obtain cs' m where
    "foreach_bins (obj_each E w limit) cs ?s = (cs', m, bindR ?s (fold_cells (w_ivar E w limit) (concat cs)))" by blast
  moreover have "bindR ?s (fold_cells (w_ivar E w limit) (concat cs)) =
      bindR s (fold_cells (w_ivar E w limit) (c @ concat cs))"
    by (simp add: bindR_assoc fold_cells_append [abs_def])
  ultimately show ?case using c by simp
qed (simp add: fold_cells_fun)

lemma obj_each_fold:
  "snd (st_foreach t (obj_each E w limit) (Inr arg)) = fold_cells (w_ivar E w limit) (concat (bins t)) arg"
proof -
  from obj_each_bins [of E w limit "bins t" "Inr arg"] obtain cs' n where
    "foreach_bins (obj_each E w limit) (bins t) (Inr arg) = (cs', n, fold_cells (w_ivar E w limit) (concat (bins t)) arg)" by auto
  then show ?thesis by (simp add: st_foreach_def)
qed

lemma ivars_step:
  fixes E :: "'d marshal_env"
  assumes w: "\<And>as ss v. A \<subseteq> set as \<Longrightarrow> set as \<subseteq> dom H \<Longrightarrow> v \<in> snd ` set es \<Longrightarrow>
      step M N H as ss (w v limit) (\<lambda>_ :: unit. {}) (\<lambda>_ _ _. True) (\<lambda>_. r) (\<lambda>_ \<rho> x h. same_val \<rho> v x)"
    and "s_usable (m_str E)" "A \<subseteq> set as" "set as \<subseteq> dom H"
    and "distinct (map fst (us @ es))" "\<forall>i \<in> fst ` set es. symbol_ok E i"
  shows "step M N H as ss (fold_cells (w_ivar E w limit) es) (\<lambda>b. {b}) (\<lambda>b \<rho> h. has_ivars c \<rho> us (h b))
    (\<lambda>b. unit_rd (r_ivars E r b (length es))) (\<lambda>b \<rho> _ h. has_ivars c \<rho> (us @ es) (h b))"
  using assms
proof (induction es arbitrary: us as ss)
  case Nil
  have "unit_rd (r_ivars E r b 0) L = Inr ((), L\<lparr>lheap := lheap L\<rparr>)" for b L
    by (simp add: unit_rd_def)
  then have "reads M N H as ss [] [] [] {b} (\<lambda>\<rho> h. has_ivars c \<rho> us (h b)) (unit_rd (r_ivars E r b 0))
      (\<lambda>\<rho> _ h. has_ivars c \<rho> us (h b))" for b by (intro reads_local) blast
  from step_local [OF this] show ?case by (simp only: fold_cells.simps list.size append_Nil2 ext)
next
  case (Cons e es)
  obtain i v where e: "e = (i, v)" by (cases e)
  let ?P = "\<lambda>us b \<rho> h. has_ivars c \<rho> us (h b)"
  have i: "symbol_ok E i" "num_key i" "i \<notin> fst ` set us" using Cons.prems(5,6) e by (auto simp: symbol_ok_def)
  show ?case
    unfolding step_def
  proof (intro allI impI)
    fix D assume D: "written D as ss"
    then obtain D0 bs0 ss0 where 0: "w_symbol E i D = Inr D0" "dstr D0 = dstr D @ bs0" "written D0 as (ss @ ss0)"
      "\<And>b. reads M N H as ss bs0 [] ss0 {b} (?P us b) (r_symbol E) (\<lambda>\<rho> x h. x = i \<and> ?P us b \<rho> h)"
      using symbol_writes [OF _ i(1), of D ss] by (auto simp: written_def)
    with Cons.prems(1) [of as v "ss @ ss0"] Cons.prems(3,4) e obtain D1 bs1 as1 ss1 where 1: "w v limit D0 = Inr D1" "dstr D1 = dstr D0 @ bs1"
      "written D1 (as @ as1) ((ss @ ss0) @ ss1)" "set as1 \<subseteq> dom H"
      "reads M N H as (ss @ ss0) bs1 as1 ss1 {} (\<lambda>_ _. True) r (\<lambda>\<rho> x h. same_val \<rho> v x)"
      by (auto elim: stepE)
    have "step M N H (as @ as1) ((ss @ ss0) @ ss1) (fold_cells (w_ivar E w limit) es) (\<lambda>b. {b}) (?P (us @ [e]))
        (\<lambda>b. unit_rd (r_ivars E r b (length es))) (\<lambda>b \<rho> _. ?P ((us @ [e]) @ es) b \<rho>)"
      by (rule Cons.IH) (use Cons.prems 1(4) in auto)
    with 1(3) obtain D2 bs2 as2 ss2 where 2: "fold_cells (w_ivar E w limit) es D1 = Inr D2" "dstr D2 = dstr D1 @ bs2"
      "written D2 ((as @ as1) @ as2) (((ss @ ss0) @ ss1) @ ss2)" "set as2 \<subseteq> dom H"
      "\<And>b. reads M N H (as @ as1) ((ss @ ss0) @ ss1) bs2 as2 ss2 {b} (?P (us @ [e]) b) (unit_rd (r_ivars E r b (length es)))
        (\<lambda>\<rho> _. ?P ((us @ [e]) @ es) b \<rho>)" by (auto elim: stepE)
    have r: "reads M N H as (ss @ ss0) (bs1 @ [] @ bs2) (as1 @ [] @ as2) (ss1 @ [] @ ss2) {b} (?P us b)
        (\<lambda>L. bindR (r L) (\<lambda>(x, L). bindR (unit_rd (rb_ivar_set E b i x) L) (\<lambda>(u, L). unit_rd (r_ivars E r b (length es)) L)))
        (\<lambda>\<rho> _. ?P ((us @ [e]) @ es) b \<rho>)" for b
      unfolding e by (rule reads_seq [OF reads_frame [OF 1(5) stable_ivars]], rule reads_seq [OF ivar_reads [OF Cons.prems(2) i(2,3)]])
        (use 2(5) e in simp)
    have "reads M N H as ss (bs0 @ bs1 @ [] @ bs2) ([] @ as1 @ [] @ as2) (ss0 @ ss1 @ [] @ ss2) {b} (?P us b)
        (unit_rd (r_ivars E r b (length (e # es)))) (\<lambda>\<rho> _. ?P ((us @ [e]) @ es) b \<rho>)" for b
      unfolding list.size add_0_right add_Suc_right One_nat_def unit_ivars
      by (rule reads_seq [OF 0(4)], rule reads_if) (use r in simp)
    then show "\<exists>D' bs as' ss'. fold_cells (w_ivar E w limit) (e # es) D = Inr D' \<and> dstr D' = dstr D @ bs \<and> written D' (as @ as') (ss @ ss') \<and>
        set as' \<subseteq> dom H \<and> (\<forall>b. reads M N H as ss bs as' ss' {b} (?P us b) (unit_rd (r_ivars E r b (length (e # es))))
          (\<lambda>\<rho> _. ?P (us @ e # es) b \<rho>))"
      using 0 1 2 by (intro exI [of _ D2] exI [of _ "bs0 @ bs1 @ bs2"] exI [of _ "as1 @ as2"] exI [of _ "ss0 @ ss1 @ ss2"])
        (simp add: e w_ivar_def)
  qed
qed

section \<open>Making an object\<close>

lemma links_at:
  "length as = length adrs \<Longrightarrow> a \<notin> set as \<Longrightarrow> links (as @ a # as') (adrs @ b # new) a = Some b"
  by (simp add: map_of_append map_add_def map_of_eq_None_iff split: option.split)
     (metis fst_conv in_set_zipE map_of_SomeD)

definition opened :: "'d marshal_env \<Rightarrow> 'd mobj \<Rightarrow> (u32 \<Rightarrow> 'd load_arg \<Rightarrow> (unit \<times> 'd load_arg) result) \<Rightarrow> 'd load_arg \<Rightarrow> (mval \<times> 'd load_arg) result" where
  "opened E ob rd L =
     bindR (new_object E ob L) (\<lambda>(b, L). bindR (r_regist (MRef b) L) (\<lambda>(v, L). bindR (rd b L) (\<lambda>(_, L). Inr (v, L))))"

lemma open_object:
  fixes E :: "'d marshal_env"
  assumes "reader_ok M E" "linked M N as ss adrs L" "length as < N" "N \<le> 2147483648"
  shows "\<exists>b L'. opened E ob rd L = bindR (rd b L') (\<lambda>(_, L). Inr (MRef b, L)) \<and> lptr L' = lptr L \<and> lheap L b = None \<and>
    lheap L' = (lheap L)(b \<mapsto> ob) \<and> linked M N (as @ [a]) ss (adrs @ [b]) L'"
proof -
  have l: "finite (dom (lheap L))" "card (dom (lheap L)) < M" "holds_list (ldata L) (map MRef adrs)" "length adrs = length as"
    using assms(2,3) by (auto simp: linked_def)
  obtain b where b: "newobj E (lheap L) = Inr b" "lheap L b = None"
    using assms(1) l(1,2) unfolding reader_ok_def by blast
  obtain t f where t: "st_insert (ldata L) (word_of_int (num_entries (ldata L))) (MRef b) = Inr (t, f)"
    "holds_list t (map MRef adrs @ [MRef b])"
    using holds_list_insert [OF l(3), of "MRef b"] l(4) assms(3,4) by auto
  let ?L = "L\<lparr>lheap := (lheap L)(b \<mapsto> ob), ldata := t\<rparr>"
  have "b \<notin> dom (lheap L)" using b(2) by auto
  then have "linked M N (as @ [a]) ss (adrs @ [b]) ?L"
    using assms(2,3) t(2) by (auto simp: linked_def)
  then show ?thesis using b t(1)
    by (intro exI [of _ b] exI [of _ ?L]) (simp add: opened_def new_object_def r_regist_def)
qed

lemma reads_open:
  fixes E :: "'d marshal_env"
  assumes inner: "\<And>b. reads M N H (as @ [a]) ss bs as' ss' {b} (\<lambda>\<rho> h. h b = Some ob0) (rd b)
      (\<lambda>\<rho> _ h. \<exists>ob ob'. H a = Some ob \<and> h b = Some ob' \<and> same_obj \<rho> ob ob')"
    and "a \<notin> set as" "length as < N" "N \<le> 2147483648" "reader_ok M E"
  shows "reads M N H as ss bs (a # as') ss' {} P (opened E ob0 rd) (\<lambda>\<rho> x h. same_val \<rho> (MRef a) x)"
  unfolding reads_def
proof (intro allI impI, elim conjE)
  fix L :: "'d load_arg" and rest adrs assume L: "linked M N as ss adrs L" "lptr L = bs @ rest"
  from open_object [OF assms(5) L(1) assms(3,4), of ob0 rd a] obtain b L1 where
    1: "opened E ob0 rd L = bindR (rd b L1) (\<lambda>(_, L). Inr (MRef b, L))" "lptr L1 = lptr L" "lheap L b = None"
      "lheap L1 = (lheap L)(b \<mapsto> ob0)" "linked M N (as @ [a]) ss (adrs @ [b]) L1" by blast
  obtain u L2 new where 2: "rd b L1 = Inr (u, L2)" "lptr L2 = rest" "linked M N ((as @ [a]) @ as') (ss @ ss') ((adrs @ [b]) @ new) L2"
    "grown {b} (lheap L1) (lheap L2) new" "complete (links ((as @ [a]) @ as') ((adrs @ [b]) @ new)) H (lheap L2) as' new"
    "\<exists>ob ob'. H a = Some ob \<and> lheap L2 b = Some ob' \<and> same_obj (links ((as @ [a]) @ as') ((adrs @ [b]) @ new)) ob ob'"
    using inner [of b, unfolded reads_def, rule_format, of "adrs @ [b]" L1 rest] 1 L(2) by auto
  have "complete (links (as @ a # as') (adrs @ b # new)) H (lheap L2) (a # as') (b # new)"
    using 2(5,6) by (simp add: complete_def)
  moreover have "grown {} (lheap L) (lheap L2) (b # new)"
    using 2(4) 1(3) unfolding grown_def 1(4) by auto
  moreover have "links (as @ a # as') (adrs @ b # new) a = Some b"
    using L(1) assms(2) by (intro links_at) (simp_all add: linked_def)
  ultimately show "\<exists>x L' new. opened E ob0 rd L = Inr (x, L') \<and> lptr L' = rest \<and> linked M N (as @ a # as') (ss @ ss') (adrs @ new) L' \<and>
      grown {} (lheap L) (lheap L') new \<and> complete (links (as @ a # as') (adrs @ new)) H (lheap L') (a # as') new \<and>
      same_val (links (as @ a # as') (adrs @ new)) (MRef a) x"
    using 1(1) 2 by (intro exI [of _ "MRef b"] exI [of _ L2] exI [of _ "b # new"]) simp
qed

text \<open>
  \<open>body_step\<close>: the writer has numbered the object \<open>a\<close>, the reader makes it from what follows.
\<close>

definition body_step ::
    "nat \<Rightarrow> nat \<Rightarrow> 'd heap \<Rightarrow> u32 list \<Rightarrow> u32 \<Rightarrow> u32 list \<Rightarrow> (dump_arg \<Rightarrow> dump_arg result) \<Rightarrow>
     ('d load_arg \<Rightarrow> (mval \<times> 'd load_arg) result) \<Rightarrow> bool" where
  "body_step M N H as a ss wr rd \<longleftrightarrow>
     (\<forall>D. written D (as @ [a]) ss \<longrightarrow>
       (\<exists>D' bs as' ss'. wr D = Inr D' \<and> dstr D' = dstr D @ bs \<and> written D' (as @ a # as') (ss @ ss') \<and>
          set as' \<subseteq> dom H \<and> reads M N H as ss bs (a # as') ss' {} (\<lambda>_ _. True) rd (\<lambda>\<rho> x h. same_val \<rho> (MRef a) x)))"

lemma body_stepE:
  assumes "body_step M N H as a ss wr rd" "written D (as @ [a]) ss"
  obtains D' bs as' ss' where "wr D = Inr D'" "dstr D' = dstr D @ bs" "written D' (as @ a # as') (ss @ ss')"
    "set as' \<subseteq> dom H" "reads M N H as ss bs (a # as') ss' {} (\<lambda>_ _. True) rd (\<lambda>\<rho> x h. same_val \<rho> (MRef a) x)"
  using assms unfolding body_step_def by blast

lemma reads_after:
  assumes "\<And>L rest. lptr L = pre @ rest \<Longrightarrow> rd L = rd' (L\<lparr>lptr := rest\<rparr>)" "reads M N H as ss bs as' ss' X P rd' Q"
  shows "reads M N H as ss (pre @ bs) as' ss' X P rd Q"
  unfolding reads_def
proof (intro allI impI, elim conjE)
  fix L rest adrs assume L: "linked M N as ss adrs L" "lptr L = (pre @ bs) @ rest" "X \<subseteq> dom (lheap L)" "P (links as adrs) (lheap L)"
  then have "rd L = rd' (L\<lparr>lptr := bs @ rest\<rparr>)" by (intro assms(1)) simp
  with assms(2) [unfolded reads_def, rule_format, of adrs "L\<lparr>lptr := bs @ rest\<rparr>" rest] L
  show "\<exists>x L' new. rd L = Inr (x, L') \<and> lptr L' = rest \<and> linked M N (as @ as') (ss @ ss') (adrs @ new) L' \<and>
      grown X (lheap L) (lheap L') new \<and> complete (links (as @ as') (adrs @ new)) H (lheap L') as' new \<and>
      Q (links (as @ as') (adrs @ new)) x (lheap L')" by simp
qed

text \<open>The class of an object that the reader made as one of a built-in class.\<close>

definition reclass :: "u32 \<Rightarrow> mval \<Rightarrow> 'd load_arg \<Rightarrow> (mval \<times> 'd load_arg) result" where
  "reclass c v L =
     (case v of
        MRef a \<Rightarrow> Inr (v, L\<lparr>lheap := (lheap L)(a := map_option (set_class c) (lheap L a))\<rparr>)
      | _ \<Rightarrow> Inl (ArgError ''dump format error (user class)''))"

lemma reads_reclass:
  assumes r: "reads M N (H(a \<mapsto> set_class c0 ob)) as ss bs (a # as') ss' {} P rd (\<lambda>\<rho> x h. same_val \<rho> (MRef a) x)"
    and "H a = Some ob" "a \<notin> set as" "a \<notin> set as'"
    and same: "\<And>\<rho> ob'. same_obj \<rho> (set_class c0 ob) ob' \<Longrightarrow> same_obj \<rho> ob (set_class c ob')"
  shows "reads M N H as ss bs (a # as') ss' {} P (\<lambda>L. bindR (rd L) (\<lambda>(v, L). reclass c v L)) (\<lambda>\<rho> x h. same_val \<rho> (MRef a) x)"
  unfolding reads_def
proof (intro allI impI, elim conjE)
  fix L rest adrs assume L: "linked M N as ss adrs L" "lptr L = bs @ rest" "P (links as adrs) (lheap L)"
  let ?H = "H(a \<mapsto> set_class c0 ob)"
  obtain x L1 new1 where 1: "rd L = Inr (x, L1)" "lptr L1 = rest" "linked M N (as @ a # as') (ss @ ss') (adrs @ new1) L1"
    "grown {} (lheap L) (lheap L1) new1" "complete (links (as @ a # as') (adrs @ new1)) ?H (lheap L1) (a # as') new1"
    "same_val (links (as @ a # as') (adrs @ new1)) (MRef a) x"
    using r [unfolded reads_def, rule_format, of adrs L rest] L by auto
  from 1(5) obtain b new ob' where n: "new1 = b # new" "lheap L1 b = Some ob'"
    "same_obj (links (as @ a # as') (adrs @ b # new)) (set_class c0 ob) ob'"
    "complete (links (as @ a # as') (adrs @ b # new)) ?H (lheap L1) as' new"
    by (auto simp: complete_def list_all2_Cons1)
  have "links (as @ a # as') (adrs @ b # new) a = Some b"
    using L(1) assms(3) by (intro links_at) (simp_all add: linked_def)
  then have x: "x = MRef b" using 1(6) n(1) by simp
  let ?h = "(lheap L1)(b \<mapsto> set_class c ob')"
  have d: "dom ?h = dom (lheap L1)" using n(2) by auto
  have b: "b \<notin> set new" "b \<notin> dom (lheap L)" using 1(4) n(1) by (auto simp: grown_def)
  have c: "complete (links (as @ a # as') (adrs @ b # new)) H ?h as' new"
    by (rule complete_mono [OF complete_cong [OF n(4)] map_le_refl]) (use assms(4) b(1) in auto)
  have "complete (links (as @ a # as') (adrs @ b # new)) H ?h (a # as') (b # new)"
    using c assms(2) same [OF n(3)] by (simp add: complete_def)
  moreover have "reclass c x L1 = Inr (x, L1\<lparr>lheap := ?h\<rparr>)" by (simp add: reclass_def x n(2))
  moreover have "grown {} (lheap L) ?h (b # new)" using 1(4) b d unfolding grown_def n(1) by auto
  ultimately show "\<exists>x L' new. bindR (rd L) (\<lambda>(v, L). reclass c v L) = Inr (x, L') \<and> lptr L' = rest \<and>
      linked M N (as @ a # as') (ss @ ss') (adrs @ new) L' \<and> grown {} (lheap L) (lheap L') new \<and>
      complete (links (as @ a # as') (adrs @ new)) H (lheap L') (a # as') new \<and>
      same_val (links (as @ a # as') (adrs @ new)) (MRef a) x"
    using 1 n(1) by (intro exI [of _ x] exI [of _ "L1\<lparr>lheap := ?h\<rparr>"] exI [of _ "b # new"]) (simp add: linked_heap [OF d])
qed

lemma r_uclass_symbol:
  "r_uclass E rd = (\<lambda>L. bindR (r_symbol E L) (\<lambda>(i, L).
     bindR (path2class E (id2name E i)) (\<lambda>c. bindR (rd L) (\<lambda>(v, L). reclass c v L))))"
  by (simp add: fun_eq_iff r_uclass_def r_unique_def bindR_assoc reclass_def case_prod_beta' cong: mval.case_cong)

lemma r_object_tag:
  assumes "lptr L = [67] @ rest" shows "r_object (Suc e) E L = r_uclass E (r_object e E) (L\<lparr>lptr := rest\<rparr>)"
  using assms r_byte_Cons [of L 67 rest] by simp

lemma class_okD:
  assumes "class_ok E c"
  shows "symbol_ok E (intern E (class2name E c))" "path2class E (id2name E (intern E (class2name E c))) = Inr c"
  using assms by (simp_all add: class_ok_def Let_def)

lemma uclass_body:
  assumes core: "\<And>ss e'. e \<le> e' \<Longrightarrow> body_step M N (H(a \<mapsto> set_class c0 ob)) as a ss wr (r_object e' E)"
    and a: "H a = Some ob" "a \<notin> set as" and c: "class_ok E c" "c = c0 \<Longrightarrow> set_class c0 ob = ob"
    and "e < e'"
    and same: "\<And>\<rho> ob'. same_obj \<rho> (set_class c0 ob) ob' \<Longrightarrow> same_obj \<rho> ob (set_class c ob')"
  shows "body_step M N H as a ss (\<lambda>D. bindR (w_uclass E c c0 D) wr) (r_object e' E)"
proof (cases "c = c0")
  case True
  have "H(a \<mapsto> set_class c0 ob) = H" using a(1) c(2) [OF True] by (simp add: fun_upd_idem)
  then show ?thesis using core [of e' ss] \<open>e < e'\<close> True by (simp add: w_uclass_def)
next
  case False
  obtain e1 where e1: "e' = Suc e1" "e \<le> e1" using \<open>e < e'\<close> by (cases e') auto
  let ?i = "intern E (class2name E c)"
  show ?thesis
    unfolding body_step_def
  proof (intro allI impI)
    fix D assume D: "written D (as @ [a]) ss"
    then have "numbers (dsymbol (w_byte 67 D)) ss" by (simp add: written_def)
    from symbol_writes [OF this class_okD(1) [OF c(1)]] obtain D1 bs0 ss0 where
      0: "w_symbol E ?i (w_byte 67 D) = Inr D1" "dstr D1 = dstr D @ 67 # bs0" "ddata D1 = ddata D" "numbers (dsymbol D1) (ss @ ss0)"
      and rs: "\<forall>M N H as X P. reads M N H as ss bs0 [] ss0 X P (r_symbol E) (\<lambda>\<rho> x h. x = ?i \<and> P \<rho> h)" by auto
    have r0: "reads M N H as ss bs0 [] ss0 {} (\<lambda>_ _. True) (r_symbol E) (\<lambda>\<rho> x h. x = ?i \<and> True)"
      using rs [rule_format, where P = "\<lambda>_ _. True"] .
    have "written D1 (as @ [a]) (ss @ ss0)" using D 0 by (simp add: written_def)
    with core [OF e1(2), of "ss @ ss0"] obtain D2 bs as' ss' where 1: "wr D1 = Inr D2" "dstr D2 = dstr D1 @ bs"
      "written D2 (as @ a # as') ((ss @ ss0) @ ss')" "set as' \<subseteq> dom (H(a \<mapsto> set_class c0 ob))"
      "reads M N (H(a \<mapsto> set_class c0 ob)) as (ss @ ss0) bs (a # as') ss' {} (\<lambda>_ _. True) (r_object e1 E) (\<lambda>\<rho> x h. same_val \<rho> (MRef a) x)"
      by (rule body_stepE)
    have "a \<notin> set as'" using 1(3) by (simp add: written_def numbers_def)
    note r1 = reads_reclass [OF 1(5) a(1,2) this same]
    have "reads M N H as ss (bs0 @ bs) ([] @ a # as') (ss0 @ ss') {} (\<lambda>_ _. True) (r_uclass E (r_object e1 E)) (\<lambda>\<rho> x h. same_val \<rho> (MRef a) x)"
      unfolding r_uclass_symbol
      by (rule reads_seq [OF r0], rule reads_if) (use r1 class_okD(2) [OF c(1)] in simp)
    with r_object_tag have "reads M N H as ss ([67] @ bs0 @ bs) ([] @ a # as') (ss0 @ ss') {} (\<lambda>_ _. True) (r_object e' E) (\<lambda>\<rho> x h. same_val \<rho> (MRef a) x)"
      unfolding e1(1) by (rule reads_after)
    moreover have "dom (H(a \<mapsto> set_class c0 ob)) = dom H" using a(1) by auto
    ultimately show "\<exists>D' bs as' ss'. bindR (w_uclass E c c0 D) wr = Inr D' \<and> dstr D' = dstr D @ bs \<and> written D' (as @ a # as') (ss @ ss') \<and>
        set as' \<subseteq> dom H \<and> reads M N H as ss bs (a # as') ss' {} (\<lambda>_ _. True) (r_object e' E) (\<lambda>\<rho> x h. same_val \<rho> (MRef a) x)"
      using 0 1 False by (intro exI [of _ D2] exI [of _ "67 # bs0 @ bs"] exI [of _ as'] exI [of _ "ss0 @ ss'"])
        (simp add: w_uclass_def w_unique_def)
  qed
qed

section \<open>The kinds of objects\<close>

lemma r_new_opened: "r_new E ob = opened E ob (\<lambda>b L. Inr ((), L))"
  by (simp add: fun_eq_iff r_new_def opened_def)

lemma reads_nothing:
  assumes "\<And>\<rho> h. P \<rho> h \<Longrightarrow> Q \<rho> () h"
  shows "reads M N H as ss [] [] [] X P (\<lambda>L. Inr ((), L)) Q"
proof (rule reads_local)
  fix L :: "'a load_arg" and \<rho> assume p: "P \<rho> (lheap L)"
  show "\<exists>h'. Inr ((), L) = Inr ((), L\<lparr>lheap := h'\<rparr>) \<and> Q \<rho> () h' \<and> dom h' = dom (lheap L) \<and>
      (\<forall>y. y \<notin> X \<longrightarrow> h' y = lheap L y)"
    by (rule exI [of _ "lheap L"]) (simp add: assms [OF p])
qed

lemma string_body:
  fixes E :: "'d marshal_env"
  assumes E: "reader_ok M E" and a: "a \<notin> set as" "length as < N" "N \<le> 2147483648" "H a = Some (OString (cString E) s)"
    and s: "is_string s bs" "room E bs"
  shows "body_step M N H as a ss (\<lambda>D. bindR (read_cells (sptr s) 0 (nat (slen s))) (\<lambda>bs. Inr (w_bytes bs (w_byte 34 D)))) (r_object (Suc e) E)"
  unfolding body_step_def
proof (intro allI impI)
  fix D assume D: "written D (as @ [a]) ss"
  note s1 = is_stringD [OF s(1)]
  have w: "read_cells (sptr s) 0 (nat (slen s)) = Inr bs"
    using read_cells_ok [of 0 "sptr s" bs] s1 by (simp add: holds_prefix)
  let ?bs = "34 # long_code (of_nat (length bs)) @ bs"
  have r: "reads M N H as ss (long_code (of_nat (length bs)) @ bs) [] [] {} (\<lambda>_ _. True) (r_string E) (\<lambda>\<rho> s' h. is_string s' bs \<and> True)"
  proof (rule reads_bytes)
    fix L :: "'d load_arg" and rest assume L: "lptr L = (long_code (of_nat (length bs)) @ bs) @ rest"
    have "r_bytes E L = Inr (bs, L\<lparr>lptr := rest\<rparr>)"
      using r_bytes_code [of L bs rest E] L s1 s(2) by (simp add: reader_ok_def)
    moreover obtain s' where "str_new (m_str E) (Some (map Some bs, 0)) (int (length bs)) = Inr s'" "is_string s' bs"
      using str_new_ok [of "m_str E" 0 "map Some bs" bs] s1 E by (auto simp: reader_ok_def holds_def)
    ultimately show "\<exists>x. r_string E L = Inr (x, L\<lparr>lptr := rest\<rparr>) \<and> is_string x bs \<and> True"
      by (intro exI [of _ "str_taint s'"]) (simp add: r_string_def is_string_def str_taint_def)
  qed
  have o: "reads M N H as ss [] [a] [] {} (\<lambda>_ _. True) (r_new E (OString (cString E) s')) (\<lambda>\<rho> x h. same_val \<rho> (MRef a) x)"
    if "is_string s' bs" for s'
    unfolding r_new_opened by (rule reads_open [OF reads_nothing a(1-3) E]) (use a(4) s that in auto)
  have "reads M N H as ss ((long_code (of_nat (length bs)) @ bs) @ []) ([] @ [a]) ([] @ []) {} (\<lambda>_ _. True)
      (\<lambda>L. bindR (r_string E L) (\<lambda>(s, L). r_new E (OString (cString E) s) L)) (\<lambda>\<rho> x h. same_val \<rho> (MRef a) x)"
    by (rule reads_seq [OF r], rule reads_if) (simp only: append_Nil2 o)
  then have "reads M N H as ss ([34] @ (long_code (of_nat (length bs)) @ bs) @ []) ([] @ [a]) ([] @ []) {} (\<lambda>_ _. True)
      (r_object (Suc e) E) (\<lambda>\<rho> x h. same_val \<rho> (MRef a) x)"
    by (rule reads_after [rotated]) (simp add: r_byte_Cons)
  then show "\<exists>D' bs' as' ss'. bindR (read_cells (sptr s) 0 (nat (slen s))) (\<lambda>bs. Inr (w_bytes bs (w_byte 34 D))) = Inr D' \<and>
      dstr D' = dstr D @ bs' \<and> written D' (as @ a # as') (ss @ ss') \<and> set as' \<subseteq> dom H \<and>
      reads M N H as ss bs' (a # as') ss' {} (\<lambda>_ _. True) (r_object (Suc e) E) (\<lambda>\<rho> x h. same_val \<rho> (MRef a) x)"
    using D w by (intro exI [of _ "D\<lparr>dstr := dstr D @ ?bs\<rparr>"] exI [of _ ?bs] exI [of _ "[]"]) (simp add: written_def)
qed

end
