(* ===== verification/MarshalTrip.thy ===== *)
theory MarshalTrip
  imports MarshalSteps
begin

text \<open>
  The round trip of Marshal (\<^verbatim>\<open>src/ext/marshal/marshal.c\<close>): every kind of object of a graph of integers, strings, arrays and
  plain objects is read back as it was written, so that the graph that is loaded corresponds to the
  one that was dumped, with its sharing and its cycles. Negative Fixnums are written but cannot be read.
\<close>

section \<open>Bignums, strings, arrays and objects\<close>

lemma body_stepI:
  assumes "\<And>D. written D (as @ [a]) ss \<Longrightarrow> \<exists>D' bs as' ss'. wr D = Inr D' \<and> dstr D' = dstr D @ bs \<and>
      written D' (as @ a # as') (ss @ ss') \<and> set as' \<subseteq> dom H \<and>
      reads M N H as ss bs (a # as') ss' {} (\<lambda>_ _. True) rd (\<lambda>\<rho> x h. same_val \<rho> (MRef a) x)"
  shows "body_step M N H as a ss wr rd"
  using assms by (simp add: body_step_def)

definition short_code :: "u16 \<Rightarrow> u8 list" where
  "short_code d = [ucast d, ucast (drop_bit 8 d)]"

lemma fold_w_short: "fold w_short ds D = D\<lparr>dstr := dstr D @ concat (map short_code ds)\<rparr>"
  by (induction ds arbitrary: D) (simp_all add: w_short_def short_code_def)

lemma short_value: "word_of_int (uint (ucast (d :: u16) :: u8)) OR push_bit 8 (word_of_int (uint (ucast (drop_bit 8 d) :: u8))) = d"
proof (rule bit_word_eqI)
  fix n assume n: "n < LENGTH(16)"
  show "bit (word_of_int (uint (ucast d :: u8)) OR push_bit 8 (word_of_int (uint (ucast (drop_bit 8 d) :: u8))) :: u16) n = bit d n"
  proof (cases "8 \<le> n")
    case True
    then obtain m where "n = 8 + m" by (metis le_Suc_ex)
    then show ?thesis using n by (auto simp: bit_simps)
  qed (use n in \<open>auto simp: bit_simps\<close>)
qed

lemma r_digits_code:
  "lptr L = concat (map short_code ds) @ rest \<Longrightarrow> r_digits (length ds) L = (ds, L\<lparr>lptr := rest\<rparr>)"
proof (induction ds arbitrary: L)
  case (Cons d ds)
  have "r_short L = (d, L\<lparr>lptr := concat (map short_code ds) @ rest\<rparr>)"
    using Cons.prems short_value [of d] by (simp add: r_short_def short_code_def [of d] r_byte_Cons)
  then show ?case using Cons.IH [of "L\<lparr>lptr := concat (map short_code ds) @ rest\<rparr>"] by simp
qed simp

definition big_code :: "rbignum \<Rightarrow> u8 list" where
  "big_code x = (if bsign x then 43 else 45) # long_code (of_nat (blen x)) @ concat (map short_code (bdigits x))"

lemma r_bignum_code:
  assumes "bignorm x = Big x" "length (bdigits x) = blen x" "blen x < 1073741824" "s_usable (m_str E)"
    and L: "lptr L = big_code x @ rest"
  shows "r_bignum E L = r_new E (OBignum x) (L\<lparr>lptr := rest\<rparr>)"
proof -
  let ?L = "L\<lparr>lptr := long_code (of_nat (blen x)) @ concat (map short_code (bdigits x)) @ rest\<rparr>"
  let ?L1 = "L\<lparr>lptr := concat (map short_code (bdigits x)) @ rest\<rparr>"
  have b: "r_byte L = ((if bsign x then 43 else 45), ?L)" using L by (simp add: big_code_def r_byte_Cons)
  have n: "sint (of_nat (blen x) :: u32) = int (blen x)" using assms(3) by (simp add: sint_small)
  have l: "r_long ?L = Inr (of_nat (blen x), ?L1)" by (rule r_long_code [THEN trans]) (simp_all add: n)
  have d: "r_digits (blen x) ?L1 = (bdigits x, L\<lparr>lptr := rest\<rparr>)"
    using r_digits_code [of ?L1 "bdigits x" rest] assms(2) by simp
  have m: "(xmalloc (s_malloc_ok (m_str E)) 2 (U32 (2 * int (blen x))) :: u16 cells result) \<noteq> Inl e" for e
    using assms(3,4) by (simp add: xmalloc_def s_usable_def)
  then obtain p where p: "(xmalloc (s_malloc_ok (m_str E)) 2 (U32 (2 * int (blen x))) :: u16 cells result) = Inr p"
    by (meson old.sum.exhaust)
  have x: "\<lparr>bsign = ((if bsign x then 43 else 45 :: int) = 43), blen = blen x, bdigits = bdigits x\<rparr> = x" by (cases "bsign x") simp_all
  show ?thesis unfolding r_bignum_def b prod.case l bindR.simps n p nat_int d x assms(1) by simp
qed

lemma bignum_body:
  fixes E :: "'d marshal_env"
  assumes E: "reader_ok M E" and a: "a \<notin> set as" "length as < N" "N \<le> 2147483648" "H a = Some (OBignum x)"
    and x: "bignorm x = Big x" "length (bdigits x) = blen x" "blen x < 1073741824"
  shows "body_step M N H as a ss (\<lambda>D. Inr (w_bignum x (w_byte 108 D))) (r_object (Suc e) E)"
proof (rule body_stepI)
  fix D assume D: "written D (as @ [a]) ss"
  have o: "reads M N H as ss [] [a] [] {} (\<lambda>_ _. True) (r_new E (OBignum x)) (\<lambda>\<rho> v h. same_val \<rho> (MRef a) v)"
    unfolding r_new_opened by (rule reads_open [OF reads_nothing a(1-3) E]) (use a(4) in auto)
  have "reads M N H as ss ((108 # big_code x) @ []) [a] [] {} (\<lambda>_ _. True) (r_object (Suc e) E) (\<lambda>\<rho> v h. same_val \<rho> (MRef a) v)"
  proof (rule reads_after [OF _ o])
    fix L :: "'d load_arg" and rest assume "lptr L = (108 # big_code x) @ rest"
    then show "r_object (Suc e) E L = r_new E (OBignum x) (L\<lparr>lptr := rest\<rparr>)"
      using r_bignum_code [OF x, of E "L\<lparr>lptr := big_code x @ rest\<rparr>" rest] E by (simp add: r_byte_Cons reader_ok_def)
  qed
  moreover have "w_bignum x (w_byte 108 D) = D\<lparr>dstr := dstr D @ 108 # big_code x\<rparr>"
    using x(2) by (simp add: w_bignum_def fold_w_short big_code_def)
  ultimately show "\<exists>D' bs as' ss'. Inr (w_bignum x (w_byte 108 D)) = Inr D' \<and> dstr D' = dstr D @ bs \<and>
      written D' (as @ a # as') (ss @ ss') \<and> set as' \<subseteq> dom H \<and>
      reads M N H as ss bs (a # as') ss' {} (\<lambda>_ _. True) (r_object (Suc e) E) (\<lambda>\<rho> x h. same_val \<rho> (MRef a) x)"
    using D by (intro exI [of _ "D\<lparr>dstr := dstr D @ 108 # big_code x\<rparr>"] exI [of _ "108 # big_code x"] exI [of _ "[]"])
      (simp add: written_def)
qed

lemma r_array_opened:
  "r_array E r = (\<lambda>L. bindR (r_long L) (\<lambda>(len, L). bindR (ary_new2 (m_ary E) (sint len)) (\<lambda>a.
     opened E (OArray (cArray E) a) (\<lambda>b. unit_rd (r_items E r b (rounds len))) L)))"
  by (simp add: fun_eq_iff r_array_def opened_def unit_rd_def bindR_assoc case_prod_beta')

lemma w_items_read:
  assumes "is_array arr vs"
  shows "read_cells (block (ptr arr)) 0 (nat (alen arr)) = Inr vs" "word_of_int (alen arr) = (of_nat (length vs) :: u32)"
  using read_cells_ok [of 0 "block (ptr arr)" vs] is_arrayD [OF assms] by simp_all

lemma array_reads:
  fixes E :: "'d marshal_env"
  assumes E: "reader_ok M E" and a: "a \<notin> set as" "length as < N" "N \<le> 2147483648"
    and arr: "is_array arr vs" "length vs < 1073741824 - 16" "a \<notin> set as'"
    and r: "\<And>b. reads M N H (as @ [a]) ss bs as' ss' {b} (\<lambda>\<rho> h. has_items (cArray E) \<rho> [] (h b))
      (unit_rd (r_items E r b (length vs))) (\<lambda>\<rho> _ h. has_items (cArray E) \<rho> vs (h b))"
  shows "reads M N (H(a \<mapsto> OArray (cArray E) arr)) as ss (long_code (of_nat (length vs)) @ bs) (a # as') ss' {} (\<lambda>_ _. True)
    (r_array E r) (\<lambda>\<rho> x h. same_val \<rho> (MRef a) x)"
proof -
  have n: "sint (of_nat (length vs) :: u32) = int (length vs)" "rounds (of_nat (length vs)) = length vs"
    using arr(2) by (simp_all add: sint_small rounds_def unat_of_nat)
  obtain a0 where a0: "ary_new2 (m_ary E) (int (length vs)) = Inr a0" "is_array a0 []" "\<not> frozen a0"
    using ary_new2_ok [of "m_ary E" "int (length vs)"] E arr(2) by (auto simp: reader_ok_def)
  let ?H = "H(a \<mapsto> OArray (cArray E) arr)"
  have "reads M N ?H (as @ [a]) ss bs as' ss' {b} (\<lambda>\<rho> h. h b = Some (OArray (cArray E) a0))
      (unit_rd (r_items E r b (length vs))) (\<lambda>\<rho> _ h. \<exists>ob ob'. ?H a = Some ob \<and> h b = Some ob' \<and> same_obj \<rho> ob ob')" for b
    by (rule reads_weaken [OF reads_cong [OF r [of b]]]) (use arr a0(2,3) in \<open>auto simp: has_items_def\<close>)
  from reads_open [OF this a E]
  have o: "reads M N ?H as ss bs (a # as') ss' {} (\<lambda>_ _. True)
      (opened E (OArray (cArray E) a0) (\<lambda>b. unit_rd (r_items E r b (length vs)))) (\<lambda>\<rho> x h. same_val \<rho> (MRef a) x)" .
  show ?thesis
  proof (rule reads_after [OF _ o])
    fix L :: "'d load_arg" and rest assume L: "lptr L = long_code (of_nat (length vs)) @ rest"
    have "r_long L = Inr (of_nat (length vs), L\<lparr>lptr := rest\<rparr>)"
      by (rule r_long_code [OF _ L]) (simp add: n)
    then show "r_array E r L =
        opened E (OArray (cArray E) a0) (\<lambda>b. unit_rd (r_items E r b (length vs))) (L\<lparr>lptr := rest\<rparr>)"
      by (simp add: r_array_opened n a0(1))
  qed
qed

lemma array_body:
  fixes E :: "'d marshal_env"
  assumes E: "reader_ok M E" and a: "a \<notin> set as" "length as < N" "N \<le> 2147483648" "set (as @ [a]) \<subseteq> dom H"
    and arr: "is_array arr vs" "length vs < 1073741824 - 16"
    and w: "\<And>as1 ss v. set (as @ [a]) \<subseteq> set as1 \<Longrightarrow> set as1 \<subseteq> dom H \<Longrightarrow> v \<in> set vs \<Longrightarrow>
      step M N H as1 ss (w v limit) (\<lambda>_ :: unit. {}) (\<lambda>_ _ _. True) (\<lambda>_. r_object e E) (\<lambda>_ \<rho> x h. same_val \<rho> v x)"
  shows "body_step M N (H(a \<mapsto> OArray (cArray E) arr)) as a ss
    (\<lambda>D. bindR (read_cells (block (ptr arr)) 0 (nat (alen arr))) (\<lambda>vs. w_items w limit vs (w_long (word_of_int (alen arr)) (w_byte 91 D))))
    (r_object (Suc e) E)"
proof (rule body_stepI)
  let ?H = "H(a \<mapsto> OArray (cArray E) arr)"
  let ?n = "long_code (of_nat (length vs))"
  fix D assume D: "written D (as @ [a]) ss"
  let ?D = "D\<lparr>dstr := dstr D @ 91 # ?n\<rparr>"
  have "usable (m_ary E)" using E by (simp add: reader_ok_def)
  from items_step [of "set (as @ [a])" H vs M N w limit "r_object e E" E "[]" "as @ [a]" ss "cArray E", OF w this] arr(2) a(4)
  have "step M N H (as @ [a]) ss (w_items w limit vs) (\<lambda>b. {b}) (\<lambda>b \<rho> h. has_items (cArray E) \<rho> [] (h b))
      (\<lambda>b. unit_rd (r_items E (r_object e E) b (length vs))) (\<lambda>b \<rho> _ h. has_items (cArray E) \<rho> vs (h b))" by simp
  moreover have "written ?D (as @ [a]) ss" using D by (simp add: written_def)
  ultimately obtain D2 bs as' ss' where 2: "w_items w limit vs ?D = Inr D2" "dstr D2 = dstr ?D @ bs"
    "written D2 ((as @ [a]) @ as') (ss @ ss')" "set as' \<subseteq> dom H"
    and r: "\<And>b. reads M N H (as @ [a]) ss bs as' ss' {b} (\<lambda>\<rho> h. has_items (cArray E) \<rho> [] (h b))
      (unit_rd (r_items E (r_object e E) b (length vs))) (\<lambda>\<rho> _ h. has_items (cArray E) \<rho> vs (h b))"
    by (auto elim: stepE)
  have "a \<notin> set as'" using 2(3) by (simp add: written_def numbers_def)
  note reads = array_reads [OF E a(1-3) arr this r]
  have "reads M N ?H as ss ([91] @ ?n @ bs) (a # as') ss' {} (\<lambda>_ _. True) (r_object (Suc e) E) (\<lambda>\<rho> x h. same_val \<rho> (MRef a) x)"
    by (rule reads_after [OF _ reads]) (simp add: r_byte_Cons)
  then show "\<exists>D' bs as' ss'. bindR (read_cells (block (ptr arr)) 0 (nat (alen arr)))
        (\<lambda>vs. w_items w limit vs (w_long (word_of_int (alen arr)) (w_byte 91 D))) = Inr D' \<and> dstr D' = dstr D @ bs \<and>
      written D' (as @ a # as') (ss @ ss') \<and> set as' \<subseteq> dom ?H \<and>
      reads M N ?H as ss bs (a # as') ss' {} (\<lambda>_ _. True) (r_object (Suc e) E) (\<lambda>\<rho> x h. same_val \<rho> (MRef a) x)"
    using 2 w_items_read [OF arr(1)] by (intro exI [of _ D2] exI [of _ "[91] @ ?n @ bs"] exI [of _ as'] exI [of _ ss']) auto
qed

definition ivar_list :: "(u32, mval) st_table option \<Rightarrow> (u32 \<times> mval) list" where
  "ivar_list ivs = (case ivs of None \<Rightarrow> [] | Some t \<Rightarrow> concat (bins t))"

lemma num_EQUAL: "EQUAL type_numhash = (=)"
  by (simp add: fun_eq_iff EQUAL_def type_numhash_def numcmp_def)

lemma map_of_first: "first_record (filter (\<lambda>e. k = fst e) es) = map_of es k"
  by (induction es) auto

lemma distinct_keys: "sorted_wrt (\<lambda>e e'. fst e \<noteq> fst e') es \<longleftrightarrow> distinct (map fst es)"
  by (induction es) (auto simp: image_iff)

lemma num_table_list:
  assumes "num_table t"
  shows "num_entries t = int (length (concat (bins t)))" "distinct (map fst (concat (bins t)))"
    "num_map t = map_of (concat (bins t))"
proof -
  have wf: "st_wf num_key t" "type_of t = type_numhash" "st_unique t" using assms by (simp_all add: key_table_def)
  then show "num_entries t = int (length (concat (bins t)))" by (simp add: st_wf_def)
  have m: "matches type_numhash = (\<lambda>k e. k = fst e)" by (simp add: fun_eq_iff matches_def num_EQUAL)
  show "distinct (map fst (concat (bins t)))"
    using wf(2,3) by (simp add: st_unique_def m distinct_keys)
  have keys: "list_all (\<lambda>e. num_key (fst e)) (concat (bins t))" by (rule num.wf_keys [OF wf(1)])
  show "num_map t = map_of (concat (bins t))"
  proof
    fix k
    have "st_assoc t k = map_of (concat (bins t)) k" using wf(2) by (simp add: st_assoc_def m map_of_first)
    moreover have "num_key k" if "map_of (concat (bins t)) k = Some v" for v
      using keys map_of_SomeD [OF that] by (force simp: list_all_iff)
    ultimately show "num_map t k = map_of (concat (bins t)) k"
      by (cases "map_of (concat (bins t)) k") (auto simp: key_map_def)
  qed
qed

lemma r_plain_opened:
  "r_plain E r = (\<lambda>L. bindR (r_symbol E L) (\<lambda>(i, L). bindR (path2class E (id2name E i)) (\<lambda>class.
     bindR (r_long L) (\<lambda>(len, L). opened E (OObject class None) (\<lambda>b. unit_rd (r_ivars E r b (nat (sint len)))) L))))"
  by (auto simp: fun_eq_iff r_plain_def r_unique_def opened_def unit_rd_def bindR_assoc case_prod_beta'
      intro!: arg_cong2 [of _ _ _ _ bindR])

lemma ivars_reads:
  fixes E :: "'d marshal_env"
  assumes E: "reader_ok M E" and a: "a \<notin> set as" "length as < N" "N \<le> 2147483648" "H a = Some (OObject c ivs)"
    and t: "\<And>t. ivs = Some t \<Longrightarrow> num_table t" "length (ivar_list ivs) < 2147483648"
    and r: "\<And>b. reads M N H (as @ [a]) ss bs as' ss' {b} (\<lambda>\<rho> h. has_ivars c \<rho> [] (h b))
      (unit_rd (r_ivars E r b (length (ivar_list ivs)))) (\<lambda>\<rho> _ h. has_ivars c \<rho> (ivar_list ivs) (h b))"
  shows "reads M N H as ss (long_code (of_nat (length (ivar_list ivs))) @ bs) (a # as') ss' {} (\<lambda>_ _. True)
    (\<lambda>L. bindR (r_long L) (\<lambda>(len, L). opened E (OObject c None) (\<lambda>b. unit_rd (r_ivars E r b (nat (sint len)))) L))
    (\<lambda>\<rho> x h. same_val \<rho> (MRef a) x)"
proof -
  let ?n = "length (ivar_list ivs)"
  have n: "sint (of_nat ?n :: u32) = int ?n" using t(2) by (simp add: sint_small)
  have m: "ivs_map ivs = map_of (ivar_list ivs)"
    using num_table_list(3) [OF t(1)] by (cases ivs) (simp_all add: ivs_map_def ivar_list_def)
  have "reads M N H (as @ [a]) ss bs as' ss' {b} (\<lambda>\<rho> h. h b = Some (OObject c None))
      (unit_rd (r_ivars E r b ?n)) (\<lambda>\<rho> _ h. \<exists>ob ob'. H a = Some ob \<and> h b = Some ob' \<and> same_obj \<rho> ob ob')" for b
    by (rule reads_weaken [OF r [of b]]) (use a(4) m in \<open>auto simp: has_ivars_def same_ivars_def ivs_map_def\<close>)
  from reads_open [OF this a(1-3) E]
  have o: "reads M N H as ss bs (a # as') ss' {} (\<lambda>_ _. True)
      (opened E (OObject c None) (\<lambda>b. unit_rd (r_ivars E r b ?n))) (\<lambda>\<rho> x h. same_val \<rho> (MRef a) x)" .
  show ?thesis
  proof (rule reads_after [OF _ o])
    fix L :: "'d load_arg" and rest assume L: "lptr L = long_code (of_nat ?n) @ rest"
    have "r_long L = Inr (of_nat ?n, L\<lparr>lptr := rest\<rparr>)" by (rule r_long_code [OF _ L]) (simp add: n)
    then show "bindR (r_long L) (\<lambda>(len, L). opened E (OObject c None) (\<lambda>b. unit_rd (r_ivars E r b (nat (sint len)))) L) =
        opened E (OObject c None) (\<lambda>b. unit_rd (r_ivars E r b ?n)) (L\<lparr>lptr := rest\<rparr>)"
      by (simp add: n)
  qed
qed

lemma object_writes:
  assumes "\<And>t. ivs = Some t \<Longrightarrow> num_table t" "\<not> singleton_p E c"
  shows "w_body E w (OObject c ivs) limit = (\<lambda>D. bindR (w_unique E (class2name E c) (w_byte 111 D)) (\<lambda>D.
    fold_cells (w_ivar E w limit) (ivar_list ivs) (w_long (of_nat (length (ivar_list ivs))) D)))"
proof (cases ivs)
  case None
  then show ?thesis using assms(2) by (simp add: fun_eq_iff w_body_def ivar_list_def fold_cells_fun)
next
  case (Some t)
  have "word_of_int (num_entries t) = (of_nat (length (ivar_list ivs)) :: u32)"
    using num_table_list(1) [OF assms(1) [OF Some]] Some by (simp add: ivar_list_def)
  then show ?thesis using assms(2) Some by (simp add: fun_eq_iff w_body_def obj_each_fold del: w_long_code) (simp add: ivar_list_def)
qed

lemma object_body:
  fixes E :: "'d marshal_env"
  assumes E: "reader_ok M E"
    and a: "a \<notin> set as" "length as < N" "N \<le> 2147483648" "H a = Some (OObject c ivs)" "set (as @ [a]) \<subseteq> dom H"
    and c: "class_ok E c" "\<not> singleton_p E c"
    and t: "\<And>t. ivs = Some t \<Longrightarrow> num_table t" "length (ivar_list ivs) < 2147483648" "\<forall>i\<in>fst ` set (ivar_list ivs). symbol_ok E i"
    and w: "\<And>as1 ss v. set (as @ [a]) \<subseteq> set as1 \<Longrightarrow> set as1 \<subseteq> dom H \<Longrightarrow> v \<in> snd ` set (ivar_list ivs) \<Longrightarrow>
      step M N H as1 ss (w v limit) (\<lambda>_ :: unit. {}) (\<lambda>_ _ _. True) (\<lambda>_. r_object e E) (\<lambda>_ \<rho> x h. same_val \<rho> v x)"
  shows "body_step M N H as a ss (w_body E w (OObject c ivs) limit) (r_object (Suc e) E)"
proof (rule body_stepI)
  let ?es = "ivar_list ivs"
  let ?n = "long_code (of_nat (length ?es))"
  let ?i = "intern E (class2name E c)"
  have su: "s_usable (m_str E)" using E by (simp add: reader_ok_def)
  fix D assume D: "written D (as @ [a]) ss"
  then have "numbers (dsymbol (w_byte 111 D)) ss" by (simp add: written_def)
  from symbol_writes [OF this class_okD(1) [OF c(1)]] obtain D1 bs0 ss0 where
    0: "w_symbol E ?i (w_byte 111 D) = Inr D1" "dstr D1 = dstr D @ 111 # bs0" "ddata D1 = ddata D" "numbers (dsymbol D1) (ss @ ss0)"
    and rs: "\<forall>M N H as X P. reads M N H as ss bs0 [] ss0 X P (r_symbol E) (\<lambda>\<rho> x h. x = ?i \<and> P \<rho> h)" by auto
  have r0: "reads M N H as ss bs0 [] ss0 {} (\<lambda>_ _. True) (r_symbol E) (\<lambda>\<rho> x h. x = ?i \<and> True)"
    using rs [rule_format, where P = "\<lambda>_ _. True"] .
  have d: "distinct (map fst ([] @ ?es))" using num_table_list(2) [OF t(1)] by (cases ivs) (simp_all add: ivar_list_def)
  have "step M N H (as @ [a]) (ss @ ss0) (fold_cells (w_ivar E w limit) ?es) (\<lambda>b. {b}) (\<lambda>b \<rho> h. has_ivars c \<rho> [] (h b))
      (\<lambda>b. unit_rd (r_ivars E (r_object e E) b (length ?es))) (\<lambda>b \<rho> _ h. has_ivars c \<rho> ([] @ ?es) (h b))"
    by (rule ivars_step [where A = "set (as @ [a])", OF _ su _ a(5) d t(3)]) (rule w, assumption+, simp)
  moreover have "written (w_long (of_nat (length ?es)) D1) (as @ [a]) (ss @ ss0)" using D 0 by (simp add: written_def)
  ultimately obtain D2 bs as' ss' where 2: "fold_cells (w_ivar E w limit) ?es (w_long (of_nat (length ?es)) D1) = Inr D2"
    "dstr D2 = dstr D1 @ ?n @ bs" "written D2 ((as @ [a]) @ as') ((ss @ ss0) @ ss')" "set as' \<subseteq> dom H"
    and r: "\<And>b. reads M N H (as @ [a]) (ss @ ss0) bs as' ss' {b} (\<lambda>\<rho> h. has_ivars c \<rho> [] (h b))
      (unit_rd (r_ivars E (r_object e E) b (length ?es))) (\<lambda>\<rho> _ h. has_ivars c \<rho> ?es (h b))"
    by (auto elim: stepE)
  note r1 = ivars_reads [OF E a(1-4) t(1,2) r]
  have r2: "reads M N H as ss (bs0 @ ?n @ bs) ([] @ a # as') (ss0 @ ss') {} (\<lambda>_ _. True) (r_plain E (r_object e E)) (\<lambda>\<rho> x h. same_val \<rho> (MRef a) x)"
    unfolding r_plain_opened
    by (rule reads_seq [OF r0], rule reads_if) (use r1 class_okD(2) [OF c(1)] in simp)
  have "reads M N H as ss ([111] @ bs0 @ ?n @ bs) ([] @ a # as') (ss0 @ ss') {} (\<lambda>_ _. True) (r_object (Suc e) E) (\<lambda>\<rho> x h. same_val \<rho> (MRef a) x)"
    by (rule reads_after [OF _ r2]) (simp add: r_byte_Cons)
  then show "\<exists>D' bs as' ss'. w_body E w (OObject c ivs) limit D = Inr D' \<and> dstr D' = dstr D @ bs \<and>
      written D' (as @ a # as') (ss @ ss') \<and> set as' \<subseteq> dom H \<and>
      reads M N H as ss bs (a # as') ss' {} (\<lambda>_ _. True) (r_object (Suc e) E) (\<lambda>\<rho> x h. same_val \<rho> (MRef a) x)"
    using 0 2 by (intro exI [of _ D2] exI [of _ "[111] @ bs0 @ ?n @ bs"] exI [of _ as'] exI [of _ "ss0 @ ss'"])
      (simp add: object_writes [OF t(1) c(2)] w_unique_def del: w_long_code)
qed

section \<open>Whole graphs\<close>

lemma stepI:
  assumes "\<And>D. written D as ss \<Longrightarrow> \<exists>D' bs as' ss'. wr D = Inr D' \<and> dstr D' = dstr D @ bs \<and>
      written D' (as @ as') (ss @ ss') \<and> set as' \<subseteq> dom H \<and> (\<forall>y. reads M N H as ss bs as' ss' (X y) (P y) (rd y) (Q y))"
  shows "step M N H as ss wr X P rd Q"
  using assms by (simp add: step_def)

lemma bytes_step:
  assumes "\<And>D. wr D = Inr (D\<lparr>dstr := dstr D @ bs\<rparr>)" "\<And>L rest. lptr L = bs @ rest \<Longrightarrow> rd L = Inr (x, L\<lparr>lptr := rest\<rparr>)"
    and "\<And>\<rho> h. Q \<rho> x h"
  shows "step M N H as ss wr X P (\<lambda>_. rd) (\<lambda>_. Q)"
proof (rule stepI)
  fix D assume D: "written D as ss"
  have "reads M N H as ss bs [] [] (X y) (P y) rd Q" for y
    by (rule reads_bytes) (use assms(2,3) in blast)
  then show "\<exists>D' bs as' ss'. wr D = Inr D' \<and> dstr D' = dstr D @ bs \<and> written D' (as @ as') (ss @ ss') \<and>
      set as' \<subseteq> dom H \<and> (\<forall>y. reads M N H as ss bs as' ss' (X y) (P y) rd Q)"
    using D by (intro exI [of _ "D\<lparr>dstr := dstr D @ bs\<rparr>"] exI [of _ bs] exI [of _ "[]"]) (simp add: assms(1) written_def)
qed

lemma fix_step:
  assumes "odd w" "0 \<le> sint (FIX2INT w)" "limit \<noteq> 0"
  shows "step M N H as ss (w_object (Suc d) E H' (MFix w) limit) X P (\<lambda>_. r_object (Suc e) E) (\<lambda>_ \<rho> x h. same_val \<rho> (MFix w) x)"
proof (rule bytes_step [where x = "MFix w"])
  show "w_object (Suc d) E H' (MFix w) limit D = Inr (D\<lparr>dstr := dstr D @ 105 # long_code (FIX2INT w)\<rparr>)" for D
    using assms(3) by simp
  fix L :: "'a load_arg" and rest assume "lptr L = (105 # long_code (FIX2INT w)) @ rest"
  then show "r_object (Suc e) E L = Inr (MFix w, L\<lparr>lptr := rest\<rparr>)"
    using r_long_code [OF assms(2), of "L\<lparr>lptr := long_code (FIX2INT w) @ rest\<rparr>" rest] assms(1)
    by (simp add: r_byte_Cons INT2FIX_FIX2INT)
qed simp

lemma plain_step:
  assumes "limit \<noteq> 0" "v = MNil \<or> v = MTrue \<or> v = MFalse"
  shows "step M N H as ss (w_object (Suc d) E H' v limit) X P (\<lambda>_. r_object (Suc e) E) (\<lambda>_ \<rho> x h. same_val \<rho> v x)"
  by (rule bytes_step [where x = v and bs = "[if v = MNil then 48 else if v = MTrue then 84 else 70]"])
    (use assms in \<open>auto simp: r_byte_Cons\<close>)

text \<open>An object that was written before.\<close>

lemma link_step:
  assumes D: "written D as ss" and a: "a \<in> set as" "num_key a"
  shows "\<exists>bs. w_ref E H w a limit D = Inr (D\<lparr>dstr := dstr D @ bs\<rparr>) \<and>
    reads M N H as ss bs [] [] X P (r_object (Suc e) E) (\<lambda>\<rho> x h. same_val \<rho> (MRef a) x)"
proof -
  obtain k where k: "k < length as" "as ! k = a" using a(1) by (auto simp: in_set_conv_nth)
  have n: "numbers (ddata D) as" using D by (simp add: written_def)
  then have dis: "distinct as" and k2: "k < 2147483648"
    using num_keys_bound [of as] k(1) by (auto simp: numbers_def)
  let ?bs = "64 # long_code (of_nat k)"
  have "reads M N H as ss ?bs [] [] X P (r_object (Suc e) E) (\<lambda>\<rho> x h. same_val \<rho> (MRef a) x)"
  proof (rule reads_bytes)
    fix L :: "'a load_arg" and rest adrs
    assume L: "linked M N as ss adrs L" "lptr L = ?bs @ rest"
    have len: "length adrs = length as" and t: "holds_list (ldata L) (map MRef adrs)" using L(1) by (simp_all add: linked_def)
    have "r_long (L\<lparr>lptr := long_code (of_nat k) @ rest\<rparr>) = Inr (of_nat k, L\<lparr>lptr := rest\<rparr>)"
      by (rule r_long_code [THEN trans]) (simp_all add: sint_small [OF k2])
    moreover have "st_lookup (ldata L) (of_nat k) = Inr (Some (MRef (adrs ! k)))"
      using holds_list_lookup [OF t, of k] k(1) len by simp
    ultimately have "r_object (Suc e) E L = Inr (MRef (adrs ! k), L\<lparr>lptr := rest\<rparr>)"
      using L(2) by (simp add: r_byte_Cons r_link_def)
    moreover have "links as adrs a = Some (adrs ! k)"
      using k len dis map_of_zip_nth [of as adrs k] by auto
    ultimately show "\<exists>x. r_object (Suc e) E L = Inr (x, L\<lparr>lptr := rest\<rparr>) \<and> same_val (links as adrs) (MRef a) x" by simp
  qed
  moreover have "w_ref E H w a limit D = Inr (D\<lparr>dstr := dstr D @ ?bs\<rparr>)"
    using numbers_lookup(2) [OF n a(2) k] by (simp add: w_ref_def)
  ultimately show ?thesis by blast
qed

text \<open>An object that is written for the first time.\<close>

lemma new_step:
  assumes body: "body_step M N H as a ss (w_body E w ob limit) rd"
    and D: "written D as ss" and a: "a \<notin> set as" "num_key a" "H a = Some ob" "dump_hook E a = None"
  shows "\<exists>D' bs as' ss'. w_ref E H w a limit D = Inr D' \<and> dstr D' = dstr D @ bs \<and> written D' (as @ as') (ss @ ss') \<and>
    set as' \<subseteq> dom H \<and> reads M N H as ss bs as' ss' {} (\<lambda>_ _. True) rd (\<lambda>\<rho> x h. same_val \<rho> (MRef a) x)"
proof -
  have n: "numbers (ddata D) as" using D by (simp add: written_def)
  obtain t f where t: "st_insert (ddata D) a (word_of_int (num_entries (ddata D))) = Inr (t, f)" "numbers t (as @ [a])"
    using numbers_insert [OF n a(2,1)] by blast
  have "written (D\<lparr>ddata := t\<rparr>) (as @ [a]) ss" using D t(2) by (simp add: written_def)
  with body obtain D' bs as' ss' where "w_body E w ob limit (D\<lparr>ddata := t\<rparr>) = Inr D'" "dstr D' = dstr (D\<lparr>ddata := t\<rparr>) @ bs"
    "written D' (as @ a # as') (ss @ ss')" "set as' \<subseteq> dom H"
    "reads M N H as ss bs (a # as') ss' {} (\<lambda>_ _. True) rd (\<lambda>\<rho> x h. same_val \<rho> (MRef a) x)" by (rule body_stepE)
  then show ?thesis
    using numbers_lookup(1) [OF n a(2,1)] t(1) a(3,4)
    by (intro exI [of _ D'] exI [of _ bs] exI [of _ "a # as'"] exI [of _ ss']) (auto simp: w_ref_def)
qed

lemma classed_string:
  fixes E :: "'d marshal_env"
  assumes E: "reader_ok M E" and ob: "H a = Some (OString c s)" "class_ok E c" "is_string s bs" "room E bs"
    and a: "a \<notin> set as" "length as < N" "N \<le> 2147483648" and e: "2 \<le> e"
  shows "body_step M N H as a ss (w_body E w (OString c s) limit) (r_object e E)"
proof -
  let ?wr = "\<lambda>D. bindR (read_cells (sptr s) 0 (nat (slen s))) (\<lambda>bs. Inr (w_bytes bs (w_byte 34 D)))"
  have core: "body_step M N (H(a \<mapsto> set_class (cString E) (OString c s))) as a ss ?wr (r_object e' E)" if "1 \<le> e'" for ss e'
    using that string_body [OF E a _ ob(3,4), of "H(a \<mapsto> OString (cString E) s)" ss "e' - 1"] by (simp add: set_class_def)
  have "body_step M N H as a ss (\<lambda>D. bindR (w_uclass E c (cString E) D) ?wr) (r_object e E)"
    by (rule uclass_body [where e = 1, OF core _ a(1) ob(2)]) (use ob(1) e in \<open>auto simp: set_class_def\<close>)
  then show ?thesis by (simp add: w_body_def [abs_def])
qed

lemma classed_array:
  fixes E :: "'d marshal_env"
  assumes E: "reader_ok M E" and ob: "H a = Some (OArray c arr)" "class_ok E c" "is_array arr vs" "length vs < 1073741824 - 16"
    and a: "a \<notin> set as" "length as < N" "N \<le> 2147483648" "set (as @ [a]) \<subseteq> dom H"
    and w: "\<And>as1 ss v e. set (as @ [a]) \<subseteq> set as1 \<Longrightarrow> set as1 \<subseteq> dom H \<Longrightarrow> v \<in> set vs \<Longrightarrow> d \<le> e \<Longrightarrow>
      step M N H as1 ss (w v limit) (\<lambda>_ :: unit. {}) (\<lambda>_ _ _. True) (\<lambda>_. r_object e E) (\<lambda>_ \<rho> x h. same_val \<rho> v x)"
    and e: "d + 2 \<le> e"
  shows "body_step M N H as a ss (w_body E w (OArray c arr) limit) (r_object e E)"
proof -
  let ?wr = "\<lambda>D. bindR (read_cells (block (ptr arr)) 0 (nat (alen arr)))
    (\<lambda>vs. w_items w limit vs (w_long (word_of_int (alen arr)) (w_byte 91 D)))"
  have core: "body_step M N (H(a \<mapsto> set_class (cArray E) (OArray c arr))) as a ss ?wr (r_object e' E)" if e': "Suc d \<le> e'" for ss e'
  proof -
    obtain e3 where e3: "e' = Suc e3" "d \<le> e3" using e' by (cases e') auto
    show ?thesis unfolding e3(1) set_class_def mobj.case
      by (rule array_body [OF E a ob(3,4)]) (use w e3(2) in simp)
  qed
  have same: "same_obj \<rho> (set_class (cArray E) (OArray c arr)) ob' \<Longrightarrow> same_obj \<rho> (OArray c arr) (set_class c ob')" for \<rho> ob'
    by (auto simp: set_class_def) blast
  have "body_step M N H as a ss (\<lambda>D. bindR (w_uclass E c (cArray E) D) ?wr) (r_object e E)"
    by (rule uclass_body [where e = "Suc d", OF core _ a(1) ob(2) _ _ same]) (use ob(1) e in \<open>auto simp: set_class_def\<close>)
  then show ?thesis by (simp add: w_body_def [abs_def])
qed

lemma any_body:
  fixes E :: "'d marshal_env"
  assumes E: "reader_ok M E" and ob: "H a = Some ob" "object_ok E H ob"
    and a: "a \<notin> set as" "length as < N" "N \<le> 2147483648" "set (as @ [a]) \<subseteq> dom H"
    and w: "\<And>as1 ss v e. set (as @ [a]) \<subseteq> set as1 \<Longrightarrow> set as1 \<subseteq> dom H \<Longrightarrow> value_ok H v \<Longrightarrow> d \<le> e \<Longrightarrow>
      step M N H as1 ss (w v limit) (\<lambda>_ :: unit. {}) (\<lambda>_ _ _. True) (\<lambda>_. r_object e E) (\<lambda>_ \<rho> x h. same_val \<rho> v x)"
    and e: "d + 2 \<le> e"
  shows "body_step M N H as a ss (w_body E w ob limit) (r_object e E)"
proof -
  from e obtain e2 where e2: "e = Suc e2" "d + 1 \<le> e2" by (cases e) auto
  consider (big) x where "ob = OBignum x" | (str) c s where "ob = OString c s" | (arr) c arr where "ob = OArray c arr"
    | (obj) c ivs where "ob = OObject c ivs" using ob(2) by (cases ob) auto
  then show ?thesis
  proof cases
    case big
    then have x: "bignorm x = Big x" "length (bdigits x) = blen x" "blen x < 1073741824" using ob(2) by simp_all
    show ?thesis using bignum_body [OF E a(1-3) _ x, of H ss e2] ob(1)
      by (simp add: big e2(1) w_body_def [abs_def])
  next
    case str
    then obtain bs where s: "class_ok E c" "is_string s bs" "room E bs" using ob(2) by auto
    show ?thesis unfolding str
      by (rule classed_string [where bs = bs, OF E]) (use ob(1) str s a e in simp_all)
  next
    case arr
    then obtain vs where s: "class_ok E c" "is_array arr vs" "length vs < 1073741824 - 16" "list_all (value_ok H) vs"
      using ob(2) by auto
    show ?thesis unfolding arr
    proof (rule classed_array [where vs = vs and d = d, OF E])
      show "H a = Some (OArray c arr)" using ob(1) arr by simp
    qed (use s a e w in \<open>simp_all add: list_all_iff\<close>)
  next
    case obj
    then have o: "class_ok E c" "\<not> singleton_p E c" "\<And>t. ivs = Some t \<Longrightarrow> num_table t"
      "\<forall>i\<in>fst ` set (ivar_list ivs). symbol_ok E i" "\<forall>v\<in>snd ` set (ivar_list ivs). value_ok H v"
      using ob(2) by (fastforce simp: ivar_list_def list_all_iff split: option.splits)+
    have "length (ivar_list ivs) < 2147483648"
      using ob(2) obj num_table_list(1) by (fastforce simp: ivar_list_def split: option.splits)
    from object_body [OF E a(1-3) _ a(4) o(1-3) this o(4), where w = w and limit = limit and e = e2 and ss = ss] show ?thesis
      using w o(5) e2 ob(1) unfolding obj by auto
  qed
qed

lemma graph_card:
  assumes "graph_ok E H" shows "card (dom H) \<le> 2147483648"
proof -
  obtain xs where "set xs = dom H" "distinct xs" using assms finite_distinct_list [of "dom H"] by (auto simp: graph_ok_def)
  then show ?thesis using num_keys_bound [of xs] assms distinct_card [of xs]
    by (auto simp: graph_ok_def list_all_iff domIff)
qed

lemma ref_step:
  fixes E :: "'d marshal_env"
  assumes E: "reader_ok M E" and G: "graph_ok E H" and N: "N = card (dom H)"
    and a: "a \<in> dom H" "set as \<subseteq> dom H"
    and w: "\<And>as1 ss1 v1 e2. a \<notin> set as \<Longrightarrow> set (as @ [a]) \<subseteq> set as1 \<Longrightarrow> set as1 \<subseteq> dom H \<Longrightarrow> value_ok H v1 \<Longrightarrow> d \<le> e2 \<Longrightarrow>
      step M N H as1 ss1 (w v1 limit) (\<lambda>_ :: unit. {}) (\<lambda>_ _ _. True) (\<lambda>_. r_object e2 E) (\<lambda>_ \<rho> x h. same_val \<rho> v1 x)"
    and e: "d + 2 \<le> e"
  shows "step M N H as ss (w_ref E H w a limit) (\<lambda>_ :: unit. {}) (\<lambda>_ _ _. True) (\<lambda>_. r_object e E)
    (\<lambda>_ \<rho> x h. same_val \<rho> (MRef a) x)"
proof (rule stepI)
  obtain ob where ob: "H a = Some ob" "num_key a" "dump_hook E a = None" "object_ok E H ob"
    using a(1) G by (auto simp: graph_ok_def)
  obtain e1 where e1: "e = Suc e1" using e by (cases e) auto
  fix D assume D: "written D as ss"
  show "\<exists>D' bs as' ss'. w_ref E H w a limit D = Inr D' \<and> dstr D' = dstr D @ bs \<and>
      written D' (as @ as') (ss @ ss') \<and> set as' \<subseteq> dom H \<and>
      (\<forall>_ :: unit. reads M N H as ss bs as' ss' {} (\<lambda>_ _. True) (r_object e E) (\<lambda>\<rho> x h. same_val \<rho> (MRef a) x))"
  proof (cases "a \<in> set as")
    case True
    from link_step [OF D this ob(2), where E = E and H = H and w = w and limit = limit and X = "{}"
        and P = "\<lambda>_ _. True" and e = e1, folded e1]
    obtain bs where l: "w_ref E H w a limit D = Inr (D\<lparr>dstr := dstr D @ bs\<rparr>)"
      "reads M N H as ss bs [] [] {} (\<lambda>_ _. True) (r_object e E) (\<lambda>\<rho> x h. same_val \<rho> (MRef a) x)" by blast
    moreover have "written (D\<lparr>dstr := dstr D @ bs\<rparr>) (as @ []) (ss @ [])" using D by (simp add: written_def)
    ultimately show ?thesis
      by (intro exI [of _ "D\<lparr>dstr := dstr D @ bs\<rparr>"] exI [of _ bs] exI [of _ "[]"] conjI allI) simp_all
  next
    case False
    have fin: "finite (dom H)" using G by (simp add: graph_ok_def)
    have dis: "distinct as" using D by (simp add: written_def numbers_def)
    have "set as \<subset> dom H" using a False by auto
    then have len: "length as < N" using psubset_card_mono [OF fin] distinct_card [OF dis] N by metis
    have "body_step M N H as a ss (w_body E w ob limit) (r_object e E)"
    proof (rule any_body [OF E ob(1,4) False len])
      show "N \<le> 2147483648" "set (as @ [a]) \<subseteq> dom H" using graph_card [OF G] N a by auto
    qed (rule w [OF False], assumption+, rule e)
    from new_step [OF this D False ob(2,1,3)] show ?thesis by simp
  qed
qed

lemma w_object_step:
  fixes E :: "'d marshal_env"
  assumes E: "reader_ok M E" and G: "graph_ok E H" and N: "N = card (dom H)"
  shows "set as \<subseteq> dom H \<Longrightarrow> value_ok H v \<Longrightarrow> limit < 0 \<Longrightarrow> card (dom H - set as) < d \<Longrightarrow> 2 * d \<le> e \<Longrightarrow>
    step M N H as ss (w_object d E H v limit) (\<lambda>_ :: unit. {}) (\<lambda>_ _ _. True) (\<lambda>_. r_object e E) (\<lambda>_ \<rho> x h. same_val \<rho> v x)"
proof (induction d arbitrary: as ss v limit e)
  case (Suc d)
  obtain e1 where e1: "e = Suc e1" using Suc.prems(5) by (cases e) auto
  have plain: "v = MNil \<or> v = MTrue \<or> v = MFalse \<Longrightarrow> step M N H as ss (w_object (Suc d) E H v limit) (\<lambda>_ :: unit. {}) (\<lambda>_ _ _. True)
      (\<lambda>_. r_object e E) (\<lambda>_ \<rho> x h. same_val \<rho> v x)"
    unfolding e1 by (rule plain_step) (use Suc.prems(3) in simp)
  show ?case
  proof (cases v)
    case (MRef a)
    then have a: "a \<in> dom H" using Suc.prems(2) by simp
    have "w_object (Suc d) E H v limit = w_ref E H (w_object d E H) a (limit - 1)"
      using Suc.prems(3) by (simp add: fun_eq_iff MRef)
    moreover have "step M N H as ss (w_ref E H (w_object d E H) a (limit - 1)) (\<lambda>_ :: unit. {}) (\<lambda>_ _ _. True) (\<lambda>_. r_object e E)
        (\<lambda>_ \<rho> x h. same_val \<rho> (MRef a) x)"
    proof (rule ref_step [OF E G N a Suc.prems(1)])
      fix as1 ss1 v1 e2
      assume 1: "a \<notin> set as" "set (as @ [a]) \<subseteq> set as1" "set as1 \<subseteq> dom H" "value_ok H v1" "2 * d \<le> e2"
      have fin: "finite (dom H)" using G by (simp add: graph_ok_def)
      have "dom H - set as1 \<subset> dom H - set as" using 1(1,2) a by auto
      then have "card (dom H - set as1) < card (dom H - set as)" using fin by (intro psubset_card_mono) auto
      then have "card (dom H - set as1) < d" using Suc.prems(4) by simp
      then show "step M N H as1 ss1 (w_object d E H v1 (limit - 1)) (\<lambda>_ :: unit. {}) (\<lambda>_ _ _. True) (\<lambda>_. r_object e2 E)
          (\<lambda>_ \<rho> x h. same_val \<rho> v1 x)"
        by (intro Suc.IH 1) (use Suc.prems(3) in simp)
    qed (use Suc.prems(5) in simp)
    ultimately show ?thesis by (simp add: MRef)
  next
    case (MFix w)
    have "odd w" "0 \<le> sint (FIX2INT w)" "limit \<noteq> 0" using Suc.prems(2,3) MFix by simp_all
    then show ?thesis unfolding MFix e1 by (rule fix_step)
  qed (rule plain, simp)+
qed simp

section \<open>Round trip\<close>

lemma links_nth: "length as = length adrs \<Longrightarrow> distinct as \<Longrightarrow> i < length as \<Longrightarrow> links as adrs (as ! i) = Some (adrs ! i)"
  using map_of_zip_nth [of as adrs i] by simp

lemma links_inj:
  assumes "length as = length adrs" "distinct as" "distinct adrs"
  shows "inj_on (links as adrs) (dom (links as adrs))"
proof (rule inj_onI)
  fix a b assume ab: "a \<in> dom (links as adrs)" "b \<in> dom (links as adrs)" "links as adrs a = links as adrs b"
  then obtain i j where "i < length as" "a = as ! i" "j < length as" "b = as ! j" using assms(1) by (auto simp: in_set_conv_nth)
  then show "a = b" using ab(3) assms links_nth [of as adrs i] links_nth [of as adrs j]
    by (simp add: nth_eq_iff_index_eq)
qed

lemma complete_links:
  assumes "complete \<rho> H h as adrs" "distinct as"
  shows "\<forall>a\<in>dom (links as adrs). \<exists>ob ob' b. links as adrs a = Some b \<and> H a = Some ob \<and> h b = Some ob' \<and> same_obj \<rho> ob ob'"
proof
  note len = complete_length [OF assms(1)]
  fix a assume "a \<in> dom (links as adrs)"
  then obtain i where i: "i < length as" "a = as ! i" using len by (auto simp: in_set_conv_nth)
  then show "\<exists>ob ob' b. links as adrs a = Some b \<and> H a = Some ob \<and> h b = Some ob' \<and> same_obj \<rho> ob ob'"
    using list_all2_nthD [OF assms(1) [unfolded complete_def] i(1)] links_nth [OF len assms(2) i(1)] by auto
qed

text \<open>
  C2: For a graph of nil, true, false, nonnegative Fixnums, Bignums, strings, arrays and objects with instance
  variables (also of subclasses of String and Array) dumped without a depth limit, loading what was dumped makes
  a copy. Negative Fixnums, Floats, hashes, structs, Regexps, modules and objects with \<^verbatim>\<open>_dump\<close> hooks are not
  covered, and \<^verbatim>\<open>alloca\<close> must leave a byte behind every string and every symbol name of the graph (\<open>room\<close>; the
  reader writes a zero there without asking for it). Then there is a one-to-one correspondence \<open>\<rho>\<close> from the dumped objects to new objects of
  the same class with the same contents, whose references correspond under \<open>\<rho>\<close>, so sharing and cycles
  are preserved; no existing object changes. Both functions return when the recursion may be one deeper
  than the number of objects (twice that for the reader).
\<close>

theorem marshal_round_trip:
  assumes "graph_ok E H" and "value_ok H v" and "reader_ok M E" and "limit < 0" and "card (dom H) < depth"
    and "finite (dom h)" and "card (dom h) + card (dom H) \<le> M"
  shows "\<exists>str w h' \<rho>. marshal_dump depth E H v limit = Inr str \<and> marshal_load (2 * depth) E h str = Inr (w, h') \<and>
    same_val \<rho> v w \<and> (\<forall>a\<in>dom \<rho>. \<exists>ob ob' b. \<rho> a = Some b \<and> H a = Some ob \<and> h' b = Some ob' \<and> same_obj \<rho> ob ob') \<and>
    inj_on \<rho> (dom \<rho>) \<and> ran \<rho> \<inter> dom h = {} \<and> dom h' = dom h \<union> ran \<rho> \<and> (\<forall>x\<in>dom h. h' x = h x)"
proof -
  let ?D = "\<lparr>dstr = [4, 0], dsymbol = st_init_numtable, ddata = st_init_numtable\<rparr>"
  have "step M (card (dom H)) H [] [] (w_object depth E H v limit) (\<lambda>_ :: unit. {}) (\<lambda>_ _ _. True)
      (\<lambda>_. r_object (2 * depth) E) (\<lambda>_ \<rho> x h. same_val \<rho> v x)"
    by (rule w_object_step [OF assms(3,1)]) (use assms(2,4,5) in simp_all)
  moreover have "written ?D [] []" by (simp add: written_def numbers_init)
  ultimately obtain D bs as ss where D: "w_object depth E H v limit ?D = Inr D" "dstr D = 4 # 0 # bs" "written D as ss"
    and r: "reads M (card (dom H)) H [] [] bs as ss {} (\<lambda>_ _. True) (r_object (2 * depth) E) (\<lambda>\<rho> x h. same_val \<rho> v x)"
    by (auto elim: stepE)
  let ?L = "\<lparr>lptr = bs, lsymbol = st_init_numtable, ldata = st_init_numtable, lheap = h\<rparr>"
  have "linked M (card (dom H)) [] [] [] ?L" using assms(6,7) by (simp add: linked_def holds_list_init)
  then obtain w L adrs where L: "r_object (2 * depth) E ?L = Inr (w, L)" "same_val (links as adrs) v w"
    "grown {} h (lheap L) adrs" "complete (links as adrs) H (lheap L) as adrs"
    using r [unfolded reads_def, rule_format, of "[]" ?L "[]"] by auto
  have len: "length as = length adrs" and dis: "distinct as" "distinct adrs"
    using complete_length [OF L(4)] D(3) L(3) by (simp_all add: written_def numbers_def grown_def)
  have dump: "marshal_dump depth E H v limit = Inr (4 # 0 # bs)" using D(1,2) by (simp add: marshal_dump_def)
  have load: "marshal_load (2 * depth) E h (4 # 0 # bs) = Inr (w, lheap L)"
    using L(1) by (simp add: marshal_load_def r_byte_def)
  note objs = complete_links [OF L(4) dis(1)]
  have "ran (links as adrs) = set adrs" using ran_map_of_zip [OF len dis(1)] .
  moreover have "inj_on (links as adrs) (dom (links as adrs))" using links_inj [OF len dis] .
  moreover have "\<forall>x\<in>dom h. lheap L x = h x" "dom (lheap L) = dom h \<union> set adrs" "set adrs \<inter> dom h = {}"
    using L(3) by (simp_all add: grown_def)
  ultimately show ?thesis using dump load objs L(2)
    by (intro exI [of _ "4 # 0 # bs"] exI [of _ w] exI [of _ "lheap L"] exI [of _ "links as adrs"] conjI) simp_all
qed

section \<open>Negative numbers\<close>

lemma negative_header:
  assumes "sint x < 0" "- (256 ^ k) \<le> sint x" "long_loop k i x = (h, bs)" "0 < k"
  shows "\<exists>n. h = - (i + int n) \<and> n < k"
  using assms
proof (induction k arbitrary: i x bs)
  case (Suc k)
  let ?x = "signed_drop_bit 8 x"
  have d: "sint ?x = sint x div 256" by (simp add: sint_signed_drop_bit_eq drop_bit_eq_div)
  have n: "sint ?x < 0" "- (256 ^ k) \<le> sint ?x" using Suc.prems(1,2) by (simp_all add: d)
  then have nz: "?x \<noteq> 0" by auto
  show ?case
  proof (cases "?x = - 1")
    case True
    then show ?thesis using Suc.prems(3) by (intro exI [of _ 0]) (auto simp: Let_def)
  next
    case False
    have k: "0 < k"
    proof (rule ccontr)
      assume "\<not> 0 < k"
      then have "sint ?x = - 1" using n by simp
      then have "?x = - 1" by (intro signed_word_eqI) simp
      with False show False by simp
    qed
    obtain bs1 where "long_loop k (i + 1) ?x = (h, bs1)"
      using Suc.prems(3) nz False by (auto simp: Let_def split: prod.splits)
    from Suc.IH [OF n this k] obtain m where "h = - (i + 1 + int m)" "m < k" by blast
    then show ?thesis by (intro exI [of _ "Suc m"]) simp
  qed
qed simp

text \<open>
  C35: A negative Fixnum is dumped but can never be loaded: its header is a negative \<^verbatim>\<open>char\<close>, which \<^verbatim>\<open>r_byte\<close>
  returns as a number from 252 to 255, so \<^verbatim>\<open>r_long\<close> raises a TypeError and its loop for negative numbers is
  only reached at the end of the input.
\<close>

theorem marshal_negative:
  fixes E :: "'d marshal_env"
  assumes "sint (FIX2INT w) < 0" and "limit \<noteq> 0"
  shows "\<exists>str. marshal_dump (Suc d) E H (MFix w) limit = Inr str \<and>
    marshal_load (Suc e) E h str = Inl (TypeError ''long too big for this architecture (size %d, given %d)'')"
proof -
  let ?x = "FIX2INT w"
  obtain hd bs where l: "long_loop 4 1 ?x = (hd, bs)" by fastforce
  have "- (256 ^ 4) \<le> sint ?x" using sint_32_bounds [of ?x] by simp
  from negative_header [OF assms(1) this l] obtain n where n: "hd = - (1 + int n)" "n < 4" by auto
  then have "n = 0 \<or> n = 1 \<or> n = 2 \<or> n = 3" by auto
  then have u: "uint (word_of_int hd :: u8) \<ge> 252"
    using n(1) by (auto simp: unsigned_minus_1_eq_mask mask_eq_exp_minus_1)
  have x: "?x \<noteq> 0" using assms(1) by auto
  have dump: "marshal_dump (Suc d) E H (MFix w) limit = Inr ([4, 0, 105] @ long_code ?x)"
    using assms(2) by (simp add: marshal_dump_def)
  have "r_long L = Inl (TypeError ''long too big for this architecture (size %d, given %d)'')"
    if "lptr L = long_code ?x" for L :: "'d load_arg"
    using that x l u by (simp add: r_long_def long_code_def r_byte_Cons)
  then have "marshal_load (Suc e) E h ([4, 0, 105] @ long_code ?x) =
      Inl (TypeError ''long too big for this architecture (size %d, given %d)'')"
    by (simp add: marshal_load_def r_byte_def)
  with dump show ?thesis by blast
qed

section \<open>The byte behind the block\<close>

text \<open>
  A String whose length \<^verbatim>\<open>alloca\<close> serves without a spare byte (it has at least the bytes asked for, and may
  have no more) is dumped, but loading the dump writes outside of the block: \<^verbatim>\<open>r_bytes0\<close> stores a zero behind
  the bytes without having asked for room.
\<close>

theorem marshal_string_overflow:
  fixes E :: "'d marshal_env"
  assumes "H a = Some (OString (cString E) s)" and "is_string s bs" and "num_key a" and "dump_hook E a = None"
    and "limit \<noteq> 0" and "alloca_size E (int (length bs)) = int (length bs)"
  shows "\<exists>str. marshal_dump (Suc d) E H (MRef a) limit = Inr str \<and> marshal_load (Suc e) E h str = Inl OutOfBounds"
proof -
  note s = is_stringD [OF assms(2)]
  have w: "read_cells (sptr s) 0 (nat (slen s)) = Inr bs"
    using read_cells_ok [of 0 "sptr s" bs] s by (simp add: holds_prefix)
  have n: "numbers st_init_numtable []" by (rule numbers_init)
  have entries: "num_entries (st_init_numtable :: (u32, u32) st_table) = 0"
    by (simp add: st_init_numtable_def st_init_table_def st_init_table_with_size_def Let_def)
  obtain t b where t: "st_insert (st_init_numtable :: (u32, u32) st_table) a 0 = Inr (t, b)"
    using numbers_insert [OF n assms(3)] by (auto simp: entries)
  have l: "st_lookup (st_init_numtable :: (u32, u32) st_table) a = Inr None"
    using numbers_lookup(1) [OF n assms(3)] by simp
  have "marshal_dump (Suc d) E H (MRef a) limit = Inr ([4, 0, 34] @ long_code (of_nat (length bs)) @ bs)"
    using assms(1,4,5) w l t entries by (simp add: marshal_dump_def w_ref_def w_body_def w_uclass_def)
  moreover have "r_bytes E L = Inl OutOfBounds" if "lptr L = long_code (of_nat (length bs)) @ bs" for L
    using r_bytes_overflow [of L bs "[]" E] that s assms(6) by (simp add: room_def)
  then have "marshal_load (Suc e) E h ([4, 0, 34] @ long_code (of_nat (length bs)) @ bs) = Inl OutOfBounds"
    by (simp add: marshal_load_def r_byte_def r_string_def)
  ultimately show ?thesis by blast
qed

section \<open>An array that contains itself\<close>

definition find_free :: "(u32 \<Rightarrow> 'd mobj option) \<Rightarrow> u32 result" where
  "find_free h =
     (case List.find (\<lambda>a. h a = None) (map of_nat [8..<16]) of None \<Rightarrow> Inl (Fatal ''out of memory'') | Some a \<Rightarrow> Inr a)"

definition sample_marshal_env :: "unit marshal_env" where
  "sample_marshal_env =
     \<lparr>m_str = sample_str_env,
      m_ary = \<lparr>Qnil = MNil, safe_level = 0, malloc_ok = (\<lambda>_. True), num2int_of = (\<lambda>_. Inl (TypeError [])),
        fixnum_of = (\<lambda>_. None), bignum_p = (\<lambda>_. False), range_ends = (\<lambda>_. Inr None),
        equal_of = (\<lambda>x y. Inr (x = y)), eql_of = (\<lambda>x y. Inr (x = y)), hash_of = (\<lambda>_. Inr 0)\<rparr>,
      m_hash = core_env, id2name = (\<lambda>_. [65]), intern = (\<lambda>_. 8), class2name = (\<lambda>_. [65]),
      path2class = (\<lambda>_. Inr 24), path2value = (\<lambda>_. Inr MNil), cString = 16, cRegexp = 17, cArray = 18, cHash = 19,
      cFloat = 20, cBignum = 21, class_of_module = (\<lambda>_. 22), singleton_p = (\<lambda>_. False), struct_members = (\<lambda>_. None),
      struct_size = (\<lambda>_. 0), dump_hook = (\<lambda>_. None), load_hook = (\<lambda>_. None), float_text = (\<lambda>_. []),
      atof = (\<lambda>_. ()), newobj = find_free, alloca_size = (\<lambda>n. (n + 15) div 16 * 16)\<rparr>"

definition sample_items :: "mval rarray" where
  "sample_items = \<lparr>alen = 3, capa = 4, ptr = Some [Some (MRef 8), Some (MFix 7), Some (MRef 8), None], frozen = False\<rparr>"

definition sample_graph :: "unit heap" where
  "sample_graph = [8 \<mapsto> OArray 24 sample_items]"

lemma find_fresh:
  assumes "finite (dom h)" "card (dom h) < card (set xs)"
  shows "\<exists>a. List.find (\<lambda>a. h a = None) xs = Some a \<and> h a = None"
proof -
  have "\<not> set xs \<subseteq> dom h" using card_mono [OF assms(1), of "set xs"] assms(2) by linarith
  then have "List.find (\<lambda>a. h a = None) xs \<noteq> None" unfolding find_None_iff by auto
  then obtain b where b: "List.find (\<lambda>a. h a = None) xs = Some b" by blast
  then have "h b = None" unfolding find_Some_iff by blast
  with b show ?thesis by blast
qed

lemma find_free_ok:
  assumes "finite (dom h)" "card (dom h) < 8" shows "\<exists>a. find_free h = Inr a \<and> h a = None"
proof -
  have "card (set (map of_nat [8..<16] :: u32 list)) = 8" by (simp add: upt_rec)
  then obtain a where "List.find (\<lambda>a. h a = None) (map of_nat [8..<16]) = Some a" "h a = None"
    using find_fresh [OF assms(1), of "map of_nat [8..<16]"] assms(2) by auto
  then show ?thesis by (simp only: find_free_def option.case) blast
qed

lemma sample_reader_ok: "reader_ok 8 sample_marshal_env"
  using sample_str_env_ok find_free_ok by (auto simp: reader_ok_def sample_marshal_env_def usable_def)

lemma sample_items_ok: "is_array sample_items [MRef 8, MFix 7, MRef 8]"
  by (simp add: sample_items_def is_array_def holds_def block_def)

lemma sample_graph_ok: "graph_ok sample_marshal_env sample_graph" "value_ok sample_graph (MRef 8)"
proof -
  have "class_ok sample_marshal_env 24"
    by (simp add: class_ok_def symbol_ok_def room_def sample_marshal_env_def num_key_def)
  moreover have "list_all (value_ok sample_graph) [MRef 8, MFix 7, MRef 8]"
    by (simp add: sample_graph_def FIX2INT_def)
  ultimately have "object_ok sample_marshal_env sample_graph (OArray 24 sample_items)"
    using sample_items_ok by (auto intro!: exI [of _ "[MRef 8, MFix 7, MRef 8]"])
  then show "graph_ok sample_marshal_env sample_graph"
    by (simp add: graph_ok_def sample_graph_def sample_marshal_env_def num_key_def)
  show "value_ok sample_graph (MRef 8)" by (simp add: sample_graph_def)
qed

theorem marshal_round_trip_witness:
  "\<exists>str b h' items. marshal_dump 2 sample_marshal_env sample_graph (MRef 8) (- 1) = Inr str \<and>
     marshal_load 4 sample_marshal_env Map.empty str = Inr (MRef b, h') \<and>
     h' b = Some (OArray 24 items) \<and> is_array items [MRef b, MFix 7, MRef b]"
proof -
  have "card (dom sample_graph) < 2" "finite (dom (Map.empty :: unit heap))"
    "card (dom (Map.empty :: unit heap)) + card (dom sample_graph) \<le> 8" "(- 1 :: int) < 0"
    by (simp_all add: sample_graph_def)
  from marshal_round_trip [OF sample_graph_ok sample_reader_ok this(4,1,2,3)]
  obtain str w h' \<rho> where r: "marshal_dump 2 sample_marshal_env sample_graph (MRef 8) (- 1) = Inr str"
    "marshal_load (2 * 2) sample_marshal_env Map.empty str = Inr (w, h')" "same_val \<rho> (MRef 8) w"
    "\<forall>a\<in>dom \<rho>. \<exists>ob ob' b. \<rho> a = Some b \<and> sample_graph a = Some ob \<and> h' b = Some ob' \<and> same_obj \<rho> ob ob'" by blast
  from r(3) obtain b where b: "\<rho> 8 = Some b" "w = MRef b" by auto
  then have "same_obj \<rho> (OArray 24 sample_items) (the (h' b))" "h' b \<noteq> None"
    using bspec [OF r(4) domI [of \<rho> 8 b]] by (auto simp: sample_graph_def) blast
  then obtain a' vs ws where a': "h' b = Some (OArray 24 a')" "is_array sample_items vs" "is_array a' ws" "list_all2 (same_val \<rho>) vs ws"
    by auto
  have "vs = [MRef 8, MFix 7, MRef 8]" using is_array_unique [OF a'(2) sample_items_ok] .
  then have "ws = [MRef b, MFix 7, MRef b]" using a'(4) b(1) by (auto simp: list_all2_Cons1)
  then show ?thesis using r(1,2) b(2) a'(1,3) by auto
qed

theorem marshal_negative_witness:
  "\<exists>str. marshal_dump (Suc 0) sample_marshal_env Map.empty (MFix (INT2FIX (- 1))) (- 1) = Inr str \<and>
    marshal_load (Suc 0) sample_marshal_env Map.empty str = Inl (TypeError ''long too big for this architecture (size %d, given %d)'')"
  by (rule marshal_negative) (simp_all add: FIX2INT_def INT2FIX_def)

definition sixteen_bytes :: rstring where
  "sixteen_bytes = \<lparr>slen = 16, sptr = map Some (replicate 16 65 @ [0]), sorig = False, sfrozen = False, stainted = False\<rparr>"

theorem marshal_string_overflow_witness:
  "\<exists>str. marshal_dump 1 sample_marshal_env [8 \<mapsto> OString 16 sixteen_bytes] (MRef 8) (- 1) = Inr str \<and>
    marshal_load 1 sample_marshal_env Map.empty str = Inl OutOfBounds"
proof -
  have "is_string sixteen_bytes (replicate 16 65)" by (simp add: sixteen_bytes_def is_string_def holds_def)
  then show ?thesis
    using marshal_string_overflow [of "[8 \<mapsto> OString 16 sixteen_bytes]" 8 sample_marshal_env sixteen_bytes "replicate 16 65" "- 1" 0 0]
    by (simp add: sample_marshal_env_def num_key_def)
qed

end
