(* ===== verification/Classes.thy ===== *)
theory Classes
  imports St
begin

text \<open>
  Classes and modules (\<^verbatim>\<open>src/class.c\<close>, the method tables and the method cache of \<^verbatim>\<open>src/eval.c\<close>, the class functions of
  \<^verbatim>\<open>src/object.c\<close>). A class is a cell of a heap with its superclass and with the address of its method
  table, which the cells of included modules share; method tables are the tables of \<open>St\<close>. The syntax
  trees of method bodies (type \<open>'s\<close>) and fresh addresses are parameters.
\<close>

section \<open>The heap of classes\<close>

text \<open>
  Nodes that can be bodies of methods. \<open>Fbody\<close> is the body of an alias: the method, its name and
  the class that defined it.
\<close>

datatype 's node = Cfunc u32 int | Ivar u32 | Attrset u32 | Zsuper | Fbody "'s node" u32 u32 | Rfunc 's

record 's nmethod =
  nd_noex :: u32
  nd_body :: "'s node option"

definition NOEX_PUBLIC :: u32 where "NOEX_PUBLIC = 0"
definition NOEX_PRIVATE :: u32 where "NOEX_PRIVATE = 1"

datatype class_type = T_CLASS | T_MODULE | T_ICLASS

text \<open>The address 0 is the null pointer: no superclass, no table of instance variables.\<close>

record rclass =
  ctype :: class_type
  csingleton :: bool
  csuper :: u32
  cm_tbl :: u32
  civ_tbl :: u32

record 's cache_entry =
  ent_mid :: u32
  ent_mid0 :: u32
  ent_class :: u32
  ent_origin :: u32
  ent_method :: "'s node option"
  ent_noex :: u32

text \<open>\<open>basic\<close> is the class pointer of every object, classes included.\<close>

record 's world =
  klass :: "u32 \<Rightarrow> rclass option"
  basic :: "u32 \<Rightarrow> u32"
  m_tbls :: "u32 \<Rightarrow> (u32, 's nmethod) st_table option"
  mcache :: "nat \<Rightarrow> 's cache_entry"

record 's class_env =
  cObject :: u32
  cClass :: u32
  cModule :: u32
  mKernel :: u32
  new_cell :: "'s world \<Rightarrow> u32 result"
  new_tbl :: "'s world \<Rightarrow> u32 result"
  special_const :: "u32 \<Rightarrow> bool"
  rfunc_u2 :: "'s \<Rightarrow> u32"
  rfunc_u3 :: "'s \<Rightarrow> u32"

definition RCLASS :: "'s world \<Rightarrow> u32 \<Rightarrow> rclass result" where
  "RCLASS w c = (case klass w c of None \<Rightarrow> Inl OutOfBounds | Some k \<Rightarrow> Inr k)"

definition M_TBL :: "'s world \<Rightarrow> u32 \<Rightarrow> (u32, 's nmethod) st_table result" where
  "M_TBL w c =
     bindR (RCLASS w c) (\<lambda>k. case m_tbls w (cm_tbl k) of None \<Rightarrow> Inl OutOfBounds | Some t \<Rightarrow> Inr t)"

definition set_m_tbl :: "'s world \<Rightarrow> u32 \<Rightarrow> (u32, 's nmethod) st_table \<Rightarrow> 's world result" where
  "set_m_tbl w c t = bindR (RCLASS w c) (\<lambda>k. Inr (w\<lparr>m_tbls := (m_tbls w)(cm_tbl k \<mapsto> t)\<rparr>))"

section \<open>Making classes and modules\<close>

definition new_class_cell :: "'s class_env \<Rightarrow> rclass \<Rightarrow> u32 \<Rightarrow> 's world \<Rightarrow> (u32 \<times> 's world) result" where
  "new_class_cell E k class w =
     bindR (new_cell E w) (\<lambda>a. Inr (a, w\<lparr>klass := (klass w)(a \<mapsto> k), basic := (basic w)(a := class)\<rparr>))"

definition new_idhash_tbl :: "'s class_env \<Rightarrow> 's world \<Rightarrow> (u32 \<times> 's world) result" where
  "new_idhash_tbl E w =
     bindR (new_tbl E w) (\<lambda>t. Inr (t, w\<lparr>m_tbls := (m_tbls w)(t \<mapsto> st_init_numtable)\<rparr>))"

text \<open>The cell is allocated first and then its table; between the two \<^verbatim>\<open>m_tbl\<close> is 0.\<close>

definition class_cell_with_table ::
    "'s class_env \<Rightarrow> rclass \<Rightarrow> u32 \<Rightarrow> 's world \<Rightarrow> (u32 \<times> 's world) result" where
  "class_cell_with_table E k class w =
     bindR (new_class_cell E (k\<lparr>cm_tbl := 0\<rparr>) class w) (\<lambda>(a, w).
     bindR (new_idhash_tbl E w) (\<lambda>(t, w).
       Inr (a, w\<lparr>klass := (klass w)(a \<mapsto> k\<lparr>cm_tbl := t\<rparr>)\<rparr>)))"

definition class_new :: "'s class_env \<Rightarrow> u32 \<Rightarrow> 's world \<Rightarrow> (u32 \<times> 's world) result" where
  "class_new E super w =
     class_cell_with_table E \<lparr>ctype = T_CLASS, csingleton = False, csuper = super, cm_tbl = 0, civ_tbl = 0\<rparr> (cClass E) w"

definition module_new :: "'s class_env \<Rightarrow> 's world \<Rightarrow> (u32 \<times> 's world) result" where
  "module_new E w =
     class_cell_with_table E \<lparr>ctype = T_MODULE, csingleton = False, csuper = 0, cm_tbl = 0, civ_tbl = 0\<rparr> (cModule E) w"

definition singleton_class_new :: "'s class_env \<Rightarrow> u32 \<Rightarrow> 's world \<Rightarrow> (u32 \<times> 's world) result" where
  "singleton_class_new E super w =
     bindR (class_new E super w) (\<lambda>(c, w).
     bindR (RCLASS w c) (\<lambda>k. Inr (c, w\<lparr>klass := (klass w)(c \<mapsto> k\<lparr>csingleton := True\<rparr>)\<rparr>)))"

text \<open>\<open>clone_method\<close> makes a new method with the same body; the tables have the same entries.\<close>

definition clone_method ::
    "u32 \<Rightarrow> 's nmethod \<Rightarrow> (u32, 's nmethod) st_table result \<Rightarrow> st_retval \<times> (u32, 's nmethod) st_table result" where
  "clone_method mid body tbl =
     (ST_CONTINUE,
      bindR tbl (\<lambda>t. bindR (st_insert t mid \<lparr>nd_noex = nd_noex body, nd_body = nd_body body\<rparr>) (\<lambda>(t, _). Inr t)))"

definition singleton_class_clone :: "'s class_env \<Rightarrow> u32 \<Rightarrow> 's world \<Rightarrow> (u32 \<times> 's world) result" where
  "singleton_class_clone E class w =
     bindR (RCLASS w class) (\<lambda>k.
       if \<not> csingleton k then Inr (class, w)
       else bindR (class_cell_with_table E (k\<lparr>civ_tbl := 0\<rparr>) (basic w class) w) (\<lambda>(clone, w).
            bindR (M_TBL w class) (\<lambda>t. bindR (M_TBL w clone) (\<lambda>t'.
            bindR (snd (st_foreach t clone_method (Inr t'))) (\<lambda>t'.
            bindR (set_m_tbl w clone t') (\<lambda>w. Inr (clone, w)))))))"

text \<open>\<^verbatim>\<open>rb_define_class_id\<close> without \<^verbatim>\<open>rb_name_class\<close>: the class and its metaclass.\<close>

definition define_class :: "'s class_env \<Rightarrow> u32 \<Rightarrow> 's world \<Rightarrow> (u32 \<times> 's world) result" where
  "define_class E super w =
     (let super = (if super = 0 then cClass E else super) in
      bindR (class_new E super w) (\<lambda>(cls, w).
      bindR (singleton_class_new E (basic w super) w) (\<lambda>(meta, w).
        Inr (cls, w\<lparr>basic := (basic w)(cls := meta)\<rparr>))))"

definition rb_singleton_class :: "'s class_env \<Rightarrow> u32 \<Rightarrow> 's world \<Rightarrow> (u32 \<times> 's world) result" where
  "rb_singleton_class E obj w =
     (if special_const E obj then Inl (TypeError ''cannot define singleton'')
      else bindR (RCLASS w (basic w obj)) (\<lambda>k.
        if csingleton k then Inr (basic w obj, w)
        else bindR (singleton_class_new E (basic w obj) w) (\<lambda>(c, w). Inr (c, w\<lparr>basic := (basic w)(obj := c)\<rparr>))))"

section \<open>Methods and the method cache\<close>

definition EXPR1 :: "u32 \<Rightarrow> u32 \<Rightarrow> nat" where
  "EXPR1 c m = unat ((signed_drop_bit 3 c XOR m) AND 0x1ff)"

definition rb_clear_cache :: "'s world \<Rightarrow> 's world" where
  "rb_clear_cache w = w\<lparr>mcache := (\<lambda>i. if i < 0x200 then (mcache w i)\<lparr>ent_mid := 0\<rparr> else mcache w i)\<rparr>"

definition rb_add_method ::
    "'s class_env \<Rightarrow> u32 \<Rightarrow> u32 \<Rightarrow> 's node option \<Rightarrow> u32 \<Rightarrow> 's world \<Rightarrow> 's world result" where
  "rb_add_method E class mid node noex w =
     (let class = (if class = 4 then cObject E else class) in
      bindR (M_TBL w class) (\<lambda>t.
      bindR (st_insert t mid \<lparr>nd_noex = noex, nd_body = node\<rparr>) (\<lambda>(t, _). set_m_tbl w class t)))"

text \<open>
  The loop of \<^verbatim>\<open>search_method\<close> over the superclasses; more rounds than there are addresses means that
  the superclasses form a cycle.
\<close>

primrec search_from :: "nat \<Rightarrow> 's world \<Rightarrow> u32 \<Rightarrow> u32 \<Rightarrow> ('s nmethod \<times> u32) option result" where
  "search_from 0 w class mid = Inl Diverges"
| "search_from (Suc n) w class mid =
     bindR (RCLASS w class) (\<lambda>k. bindR (M_TBL w class) (\<lambda>t. bindR (st_lookup t mid) (\<lambda>r.
       case r of
         Some body \<Rightarrow> Inr (Some (body, class))
       | None \<Rightarrow> if csuper k = 0 then Inr None else search_from n w (csuper k) mid)))"

definition search_method :: "'s world \<Rightarrow> u32 \<Rightarrow> u32 \<Rightarrow> ('s nmethod \<times> u32) option result" where
  "search_method w class mid = search_from 4294967296 w class mid"

text \<open>The entry for what was found, for an alias the method under its own name and class.\<close>

definition found_entry :: "u32 \<Rightarrow> u32 \<Rightarrow> u32 \<Rightarrow> u32 \<Rightarrow> 's node \<Rightarrow> 's cache_entry" where
  "found_entry class mid origin noex body =
     (case body of
        Fbody head mid0 orig \<Rightarrow>
          \<lparr>ent_mid = mid, ent_mid0 = mid0, ent_class = class, ent_origin = orig, ent_method = Some head, ent_noex = noex\<rparr>
      | _ \<Rightarrow>
          \<lparr>ent_mid = mid, ent_mid0 = mid, ent_class = class, ent_origin = origin, ent_method = Some body, ent_noex = noex\<rparr>)"

definition rb_get_method_body :: "u32 \<Rightarrow> u32 \<Rightarrow> 's world \<Rightarrow> ('s cache_entry option \<times> 's world) result" where
  "rb_get_method_body class mid w =
     bindR (search_method w class mid) (\<lambda>r.
       case r of
         None \<Rightarrow> Inr (None, w)
       | Some (body, origin) \<Rightarrow>
           (case nd_body body of
              None \<Rightarrow> Inr (None, w)
            | Some b \<Rightarrow>
                let e = found_entry class mid origin (nd_noex body) b in
                Inr (Some e, w\<lparr>mcache := (mcache w)(EXPR1 class mid := e)\<rparr>)))"

text \<open>The first lines of \<^verbatim>\<open>rb_call\<close>: the cache, or the tables.\<close>

definition find_call :: "u32 \<Rightarrow> u32 \<Rightarrow> 's world \<Rightarrow> ('s cache_entry option \<times> 's world) result" where
  "find_call class mid w =
     (let ent = mcache w (EXPR1 class mid) in
      if ent_mid ent = mid \<and> ent_class ent = class then Inr (Some ent, w)
      else rb_get_method_body class mid w)"

definition method_boundp :: "u32 \<Rightarrow> u32 \<Rightarrow> u32 \<Rightarrow> 's world \<Rightarrow> (bool \<times> 's world) result" where
  "method_boundp class mid ex w =
     bindR (rb_get_method_body class mid w) (\<lambda>(r, w).
       case r of
         Some e \<Rightarrow> Inr (\<not> (ex \<noteq> 0 \<and> ent_noex e = NOEX_PRIVATE), w)
       | None \<Rightarrow> Inr (False, w))"

text \<open>
  \<^verbatim>\<open>nd_mid\<close> and \<^verbatim>\<open>nd_orig\<close> are the second and third word of any node; the words of a tree are
  parameters.
\<close>

definition node_u2 :: "'s class_env \<Rightarrow> 's node \<Rightarrow> u32" where
  "node_u2 E b = (case b of Cfunc _ argc \<Rightarrow> word_of_int argc | Fbody _ mid _ \<Rightarrow> mid | Rfunc s \<Rightarrow> rfunc_u2 E s | _ \<Rightarrow> 0)"

definition node_u3 :: "'s class_env \<Rightarrow> 's node \<Rightarrow> u32" where
  "node_u3 E b = (case b of Fbody _ _ orig \<Rightarrow> orig | Rfunc s \<Rightarrow> rfunc_u3 E s | _ \<Rightarrow> 0)"

definition is_module :: "'s world \<Rightarrow> u32 \<Rightarrow> bool" where
  "is_module w c = (case klass w c of Some k \<Rightarrow> ctype k = T_MODULE | None \<Rightarrow> False)"

text \<open>Methods of a class or, for a module, of Object; \<open>undefd\<close> says whether an undefined method counts as one.\<close>

definition search_or_object ::
    "'s class_env \<Rightarrow> ('s nmethod \<Rightarrow> bool) \<Rightarrow> 's world \<Rightarrow> u32 \<Rightarrow> u32 \<Rightarrow> ('s nmethod \<times> u32) option result" where
  "search_or_object E good w class mid =
     bindR (search_method w class mid) (\<lambda>r.
     bindR (if (case r of Some (m, _) \<Rightarrow> good m | None \<Rightarrow> False) then Inr r
            else if is_module w class then search_method w (cObject E) mid else Inr r) (\<lambda>r.
       Inr (case r of Some (m, o') \<Rightarrow> if good m then Some (m, o') else None | None \<Rightarrow> None)))"

definition rb_alias :: "'s class_env \<Rightarrow> u32 \<Rightarrow> u32 \<Rightarrow> u32 \<Rightarrow> 's world \<Rightarrow> 's world result" where
  "rb_alias E class name def w =
     (if name = def then Inr w
      else bindR (search_or_object E (\<lambda>m. nd_body m \<noteq> None) w class def) (\<lambda>r.
        case r of
          None \<Rightarrow> Inl (NameError ''undefined method %s for %s'')
        | Some (orig, origin) \<Rightarrow>
            (case nd_body orig of
               None \<Rightarrow> Inl OutOfBounds
             | Some body \<Rightarrow>
                 let (body, def, origin) =
                   (case body of Fbody head _ _ \<Rightarrow> (head, node_u2 E head, node_u3 E head) | _ \<Rightarrow> (body, def, origin)) in
                 bindR (M_TBL w class) (\<lambda>t.
                 bindR (st_insert t name \<lparr>nd_noex = nd_noex orig, nd_body = Some (Fbody body def origin)\<rparr>) (\<lambda>(t, _).
                   set_m_tbl w class t)))))"

text \<open>\<^verbatim>\<open>body->nd_noex = noex\<close> changes the method in the table of its class.\<close>

definition rb_export_method :: "'s class_env \<Rightarrow> u32 \<Rightarrow> u32 \<Rightarrow> u32 \<Rightarrow> 's world \<Rightarrow> 's world result" where
  "rb_export_method E class name noex w =
     bindR (search_or_object E (\<lambda>_. True) w class name) (\<lambda>r.
       case r of
         None \<Rightarrow> Inl (NameError ''undefined method %s for %s'')
       | Some (body, origin) \<Rightarrow>
           if nd_noex body = noex then Inr w
           else if class = origin then
             bindR (M_TBL w origin) (\<lambda>t. bindR (st_insert t name (body\<lparr>nd_noex := noex\<rparr>)) (\<lambda>(t, _). set_m_tbl w origin t))
           else rb_add_method E class name (Some Zsuper) noex (rb_clear_cache w))"


text \<open>
  Definitions in a program: \<^verbatim>\<open>def\<close> in the class or module \<open>the_class\<close> (\<open>NODE_DEFN\<close>; \<open>noex\<close> is the visibility of
  the place), \<^verbatim>\<open>def\<close> on an object (\<open>NODE_DEFS\<close>; the hook \<^verbatim>\<open>singleton_method_added\<close> is a parameter) and \<^verbatim>\<open>undef\<close>.
\<close>

definition eval_defn :: "'s class_env \<Rightarrow> u32 \<Rightarrow> u32 \<Rightarrow> 's node \<Rightarrow> u32 \<Rightarrow> 's world \<Rightarrow> 's world result" where
  "eval_defn E the_class mid defn noex w =
     bindR (search_method w the_class mid) (\<lambda>r.
       case r of
         Some (body, _) \<Rightarrow> rb_add_method E the_class mid (Some defn) (nd_noex body) (rb_clear_cache w)
       | None \<Rightarrow> rb_add_method E the_class mid (Some defn) noex w)"

definition eval_defs ::
    "'s class_env \<Rightarrow> ('s world \<Rightarrow> 's world result) \<Rightarrow> u32 \<Rightarrow> u32 \<Rightarrow> 's node \<Rightarrow> 's world \<Rightarrow> 's world result" where
  "eval_defs E added recv mid defn w =
     (if special_const E recv then Inl (TypeError ''Can't define method'')
      else bindR (rb_singleton_class E recv w) (\<lambda>(class, w).
           bindR (added (rb_clear_cache w)) (\<lambda>w. rb_add_method E class mid (Some defn) NOEX_PUBLIC w)))"

definition eval_undef :: "'s class_env \<Rightarrow> u32 \<Rightarrow> u32 \<Rightarrow> 's world \<Rightarrow> 's world result" where
  "eval_undef E the_class mid w =
     bindR (search_method w the_class mid) (\<lambda>r.
       if (case r of Some (body, _) \<Rightarrow> nd_body body = None | None \<Rightarrow> True)
       then Inl (NameError ''undefined method %s for class %s'')
       else rb_add_method E the_class mid None NOEX_PUBLIC (rb_clear_cache w))"

definition rb_undef_method :: "'s class_env \<Rightarrow> u32 \<Rightarrow> u32 \<Rightarrow> 's world \<Rightarrow> 's world result" where
  "rb_undef_method E class mid w = rb_add_method E class mid None NOEX_PUBLIC w"

definition rb_define_method_id :: "'s class_env \<Rightarrow> u32 \<Rightarrow> u32 \<Rightarrow> u32 \<Rightarrow> int \<Rightarrow> 's world \<Rightarrow> 's world result" where
  "rb_define_method_id E class name func argc w = rb_add_method E class name (Some (Cfunc func argc)) NOEX_PUBLIC w"

definition rb_define_private_method :: "'s class_env \<Rightarrow> u32 \<Rightarrow> u32 \<Rightarrow> u32 \<Rightarrow> int \<Rightarrow> 's world \<Rightarrow> 's world result" where
  "rb_define_private_method E class name func argc w = rb_add_method E class name (Some (Cfunc func argc)) NOEX_PRIVATE w"

definition rb_define_singleton_method :: "'s class_env \<Rightarrow> u32 \<Rightarrow> u32 \<Rightarrow> u32 \<Rightarrow> int \<Rightarrow> 's world \<Rightarrow> 's world result" where
  "rb_define_singleton_method E obj name func argc w =
     bindR (rb_singleton_class E obj w) (\<lambda>(c, w). rb_define_method_id E c name func argc w)"

definition rb_define_module_function :: "'s class_env \<Rightarrow> u32 \<Rightarrow> u32 \<Rightarrow> u32 \<Rightarrow> int \<Rightarrow> 's world \<Rightarrow> 's world result" where
  "rb_define_module_function E module name func argc w =
     bindR (rb_define_private_method E module name func argc w) (rb_define_singleton_method E module name func argc)"

definition rb_define_global_function :: "'s class_env \<Rightarrow> u32 \<Rightarrow> u32 \<Rightarrow> int \<Rightarrow> 's world \<Rightarrow> 's world result" where
  "rb_define_global_function E name func argc w = rb_define_private_method E (mKernel E) name func argc w"

text \<open>\<^verbatim>\<open>attr\<close>: the reader and, on demand, the writer of an instance variable; the names are parameters.\<close>

definition rb_define_attr :: "'s class_env \<Rightarrow> u32 \<Rightarrow> u32 \<Rightarrow> u32 \<Rightarrow> u32 \<Rightarrow> bool \<Rightarrow> 's world \<Rightarrow> 's world result" where
  "rb_define_attr E class attr attreq attriv pub w =
     bindR (method_boundp class attr NOEX_PRIVATE w) (\<lambda>(bound, w).
     bindR (if \<not> bound then rb_add_method E class attr (Some (Ivar attriv)) 0 w else Inr w) (\<lambda>w.
       if \<not> pub then Inr w
       else bindR (method_boundp class attreq NOEX_PRIVATE w) (\<lambda>(bound, w).
            if \<not> bound then rb_add_method E class attreq (Some (Attrset attriv)) 0 w else Inr w)))"

primrec set_method_visibility :: "'s class_env \<Rightarrow> u32 \<Rightarrow> u32 list \<Rightarrow> u32 \<Rightarrow> 's world \<Rightarrow> 's world result" where
  "set_method_visibility E self [] ex w = Inr w"
| "set_method_visibility E self (m # ms) ex w =
     bindR (rb_export_method E self m ex w) (set_method_visibility E self ms ex)"

primrec modfunc_loop :: "'s class_env \<Rightarrow> u32 \<Rightarrow> u32 list \<Rightarrow> 's world \<Rightarrow> 's world result" where
  "modfunc_loop E module [] w = Inr w"
| "modfunc_loop E module (m # ms) w =
     bindR (search_method w module m) (\<lambda>r.
       case r of
         None \<Rightarrow> Inl (NameError ''undefined method %s for module %s'')
       | Some (body, _) \<Rightarrow>
           if nd_body body = None then Inl (NameError ''undefined method %s for module %s'')
           else bindR (rb_singleton_class E module w) (\<lambda>(c, w).
                bindR (rb_add_method E c m (nd_body body) NOEX_PUBLIC w) (modfunc_loop E module ms)))"

definition mod_modfunc :: "'s class_env \<Rightarrow> u32 \<Rightarrow> u32 list \<Rightarrow> 's world \<Rightarrow> 's world result" where
  "mod_modfunc E module ms w =
     bindR (set_method_visibility E module ms NOEX_PRIVATE (rb_clear_cache w)) (modfunc_loop E module ms)"

section \<open>Including modules\<close>

definition include_class_new :: "'s class_env \<Rightarrow> u32 \<Rightarrow> u32 \<Rightarrow> 's world \<Rightarrow> (u32 \<times> 's world) result" where
  "include_class_new E module super w =
     bindR (RCLASS w module) (\<lambda>m.
       new_class_cell E
         \<lparr>ctype = T_ICLASS, csingleton = False, csuper = super, cm_tbl = cm_tbl m, civ_tbl = civ_tbl m\<rparr>
         (if ctype m = T_ICLASS then basic w module else module) w)"

text \<open>The loop over \<^verbatim>\<open>p\<close>: is there a cell of an included module with this method table?\<close>

primrec included_from :: "nat \<Rightarrow> 's world \<Rightarrow> u32 \<Rightarrow> u32 \<Rightarrow> bool result" where
  "included_from 0 w p tbl = Inl Diverges"
| "included_from (Suc n) w p tbl =
     (if p = 0 then Inr False
      else bindR (RCLASS w p) (\<lambda>k.
        if ctype k = T_ICLASS \<and> cm_tbl k = tbl then Inr True else included_from n w (csuper k) tbl))"

primrec include_loop :: "nat \<Rightarrow> 's class_env \<Rightarrow> u32 \<Rightarrow> u32 \<Rightarrow> 's world \<Rightarrow> 's world result" where
  "include_loop 0 E class module w = Inl Diverges"
| "include_loop (Suc n) E class module w =
     (if module = 0 then Inr w
      else bindR (RCLASS w class) (\<lambda>k. bindR (RCLASS w module) (\<lambda>m.
           bindR (included_from 4294967296 w (csuper k) (cm_tbl m)) (\<lambda>found.
             if found then Inr w
             else bindR (include_class_new E module (csuper k) w) (\<lambda>(c, w).
                  let w = w\<lparr>klass := (klass w)(class \<mapsto> k\<lparr>csuper := c\<rparr>)\<rparr> in
                  include_loop n E c (csuper m) w)))))"

definition rb_include_module :: "'s class_env \<Rightarrow> u32 \<Rightarrow> u32 \<Rightarrow> 's world \<Rightarrow> 's world result" where
  "rb_include_module E class module w =
     (if module = 4 then Inr w
      else bindR (RCLASS w module) (\<lambda>m.
        if ctype m = T_ICLASS then Inl (TypeError ''wrong argument type %s (expected %s)'')
        else if class = module then Inr w
        else include_loop 4294967296 E class module (rb_clear_cache w)))"

definition rb_extend_object :: "'s class_env \<Rightarrow> u32 \<Rightarrow> u32 \<Rightarrow> 's world \<Rightarrow> 's world result" where
  "rb_extend_object E obj module w =
     bindR (rb_singleton_class E obj w) (\<lambda>(c, w). rb_include_module E c module w)"

section \<open>Questions about classes\<close>

primrec kind_loop :: "nat \<Rightarrow> 's world \<Rightarrow> u32 \<Rightarrow> u32 \<Rightarrow> u32 \<Rightarrow> bool result" where
  "kind_loop 0 w class c tbl = Inl Diverges"
| "kind_loop (Suc n) w class c tbl =
     (if class = 0 then Inr False
      else bindR (RCLASS w class) (\<lambda>k.
        if class = c \<or> cm_tbl k = tbl then Inr True else kind_loop n w (csuper k) c tbl))"

text \<open>The arguments are an object, its class, and a class, a module or one of nil, false and true (4, 0 and 2).\<close>

definition class_question :: "'s world \<Rightarrow> u32 \<Rightarrow> u32 \<Rightarrow> (rclass \<Rightarrow> bool result) \<Rightarrow> bool result" where
  "class_question w obj c test =
     (if c = 4 then Inr (obj = 4)
      else if c = 0 then Inr (obj = 0)
      else if c = 2 then Inr (obj \<noteq> 0)
      else case klass w c of
        None \<Rightarrow> Inl (TypeError ''class or module required'')
      | Some k \<Rightarrow> if ctype k = T_ICLASS then Inl (TypeError ''class or module required'') else test k)"

definition obj_is_kind_of :: "'s world \<Rightarrow> u32 \<Rightarrow> u32 \<Rightarrow> u32 \<Rightarrow> bool result" where
  "obj_is_kind_of w obj class c = class_question w obj c (\<lambda>k. kind_loop 4294967296 w class c (cm_tbl k))"

primrec skip_cells :: "nat \<Rightarrow> (rclass \<Rightarrow> bool) \<Rightarrow> 's world \<Rightarrow> u32 \<Rightarrow> u32 result" where
  "skip_cells 0 P w class = Inl Diverges"
| "skip_cells (Suc n) P w class =
     bindR (RCLASS w class) (\<lambda>k. if P k then skip_cells n P w (csuper k) else Inr class)"

definition obj_is_instance_of :: "'s world \<Rightarrow> u32 \<Rightarrow> u32 \<Rightarrow> u32 \<Rightarrow> bool result" where
  "obj_is_instance_of w obj class c =
     class_question w obj c (\<lambda>_. bindR (skip_cells 4294967296 csingleton w class) (\<lambda>cl. Inr (c = cl)))"

section \<open>Calls\<close>

datatype 's call = Undefined | PrivateCalled | Invoke "'s node" u32 u32

primrec share_tbl :: "nat \<Rightarrow> 's world \<Rightarrow> u32 \<Rightarrow> u32 \<Rightarrow> u32 result" where
  "share_tbl 0 w class tbl = Inl Diverges"
| "share_tbl (Suc n) w class tbl =
     (if class = 0 then Inr 0
      else bindR (RCLASS w class) (\<lambda>k. if cm_tbl k = tbl then Inr class else share_tbl n w (csuper k) tbl))"

text \<open>
  What \<^verbatim>\<open>rb_call\<close> invokes: the body, the class it comes from and its name. \<open>scope\<close> is 0 for a call with a
  receiver; a method whose visibility was changed below its class is called in the superclass.
\<close>

primrec rb_call_target :: "nat \<Rightarrow> u32 \<Rightarrow> u32 \<Rightarrow> u32 \<Rightarrow> nat \<Rightarrow> 's world \<Rightarrow> ('s call \<times> 's world) result" where
  "rb_call_target 0 recv class mid scope w = Inl Diverges"
| "rb_call_target (Suc n) recv class mid scope w =
     bindR (find_call class mid w) (\<lambda>(r, w).
       case r of
         None \<Rightarrow> Inr (Undefined, w)
       | Some e \<Rightarrow>
           if ent_noex e = NOEX_PRIVATE \<and> scope = 0 then Inr (PrivateCalled, w)
           else case ent_method e of
                  None \<Rightarrow> Inl OutOfBounds
                | Some body \<Rightarrow>
                    if body = Zsuper then
                      bindR (RCLASS w (ent_origin e)) (\<lambda>k.
                      bindR (if csuper k = 0 then share_tbl 4294967296 w (basic w recv) (cm_tbl k) else Inr (csuper k)) (\<lambda>c.
                        rb_call_target n recv c (ent_mid0 e) (if scope = 0 then 1 else scope) w))
                    else Inr (Invoke body (ent_origin e) (ent_mid0 e), w))"

text \<open>
  The arguments that a C function receives: an array of all of them (\<open>- 2\<close>), a count and a vector
  (\<open>- 1\<close>), or so many words. \<open>word_indices\<close> is the switch: for every declared count, the indices of the words of the call.
\<close>

datatype 'v c_args = ArgArray "'v list" | ArgVector "'v list" | ArgWords "'v list"

definition word_indices :: "int \<Rightarrow> nat list option" where
  "word_indices len =
     (if len = 0 then Some []
      else if len = 1 then Some [0]
      else if len = 2 then Some [0, 1]
      else if len = 3 then Some [0, 1, 2]
      else if len = 4 then Some [0, 1, 2, 3]
      else if len = 5 then Some [0, 1, 2, 3, 4]
      else if len = 6 then Some [0, 1, 2, 3, 4, 5]
      else if len = 7 then Some [0, 1, 2, 3, 4, 5, 6]
      else if len = 8 then Some [0, 1, 2, 3, 4, 5, 6, 7]
      else if len = 9 then Some [0, 1, 2, 3, 4, 5, 6, 7, 8]
      else if len = 10 then Some [0, 1, 2, 3, 4, 5, 6, 7, 8, 6, 7, 8, 9]
      else if len = 11 then Some [0, 1, 2, 3, 4, 5, 6, 7, 8, 6, 7, 8, 9, 10]
      else if len = 12 then Some [0, 1, 2, 3, 4, 5, 6, 7, 8, 6, 7, 8, 9, 10, 11]
      else if len = 13 then Some [0, 1, 2, 3, 4, 5, 6, 7, 8, 6, 7, 8, 9, 10, 11, 12]
      else if len = 14 then Some [0, 1, 2, 3, 4, 5, 6, 7, 8, 6, 7, 8, 9, 10, 11, 12, 13]
      else if len = 15 then Some [0, 1, 2, 3, 4, 5, 6, 7, 8, 6, 7, 8, 9, 10, 11, 12, 13, 14]
      else None)"

definition cfunc_args :: "int \<Rightarrow> 'v list \<Rightarrow> 'v c_args result" where
  "cfunc_args len argv =
     (if 0 \<le> len \<and> int (length argv) \<noteq> len then Inl (ArgError ''Wrong # of arguments(%d for %d)'')
      else if len = - 2 then Inr (ArgArray argv)
      else if len = - 1 then Inr (ArgVector argv)
      else case word_indices len of
             Some ks \<Rightarrow> Inr (ArgWords (map (\<lambda>i. argv ! i) ks))
           | None \<Rightarrow> if len < 0 then Inl (Fatal ''bad argc(%d) specified for %s(%s)'')
                     else Inl (ArgError ''too many arguments(%d)''))"

text \<open>
  \<^verbatim>\<open>rb_scan_args\<close> as the list of what it stores: an argument, nil, or an array of the rest. \<open>scan_opt\<close> is the loop over
  the optional arguments from \<open>i\<close> to \<open>n\<close>, \<open>scan_end\<close> the end of the format.
\<close>

datatype 'v scanned = ScanArg 'v | ScanNil | ScanRest "'v list"

definition digit_char :: "u8 \<Rightarrow> bool" where "digit_char c \<longleftrightarrow> 48 \<le> c \<and> c \<le> 57"

definition scan_opt :: "nat \<Rightarrow> nat \<Rightarrow> 'v list \<Rightarrow> 'v scanned list" where
  "scan_opt i n argv = map (\<lambda>i. if i < length argv then ScanArg (argv ! i) else ScanNil) [i..<n]"

definition scan_end :: "u8 list \<Rightarrow> nat \<Rightarrow> 'v list \<Rightarrow> 'v scanned list result" where
  "scan_end p i argv =
     (case p of
        [] \<Rightarrow> if i < length argv then Inl (ArgError ''Wrong # of arguments(%d for %d)'') else Inr []
      | c # _ \<Rightarrow> if c = 42 then Inr [ScanRest (drop i argv)] else Inl (Fatal ''bad scan arg format: %s''))"

definition rb_scan_args :: "'v list \<Rightarrow> u8 list \<Rightarrow> 'v scanned list result" where
  "rb_scan_args argv fmt =
     (case fmt of
        [] \<Rightarrow> Inl (Fatal ''bad scan arg format: %s'')
      | c # p \<Rightarrow>
          if c = 42 then Inr [ScanRest argv]
          else if \<not> digit_char c then Inl (Fatal ''bad scan arg format: %s'')
          else let n = unat (c - 48) in
            if length argv < n then Inl (ArgError ''Wrong # of arguments (%d for %d)'')
            else bindR
              (case p of
                 d # q \<Rightarrow>
                   if digit_char d then
                     let m = n + unat (d - 48) in bindR (scan_end q m argv) (\<lambda>vs. Inr (scan_opt n m argv @ vs))
                   else scan_end p n argv
               | [] \<Rightarrow> scan_end p n argv)
              (\<lambda>vs. Inr (map ScanArg (take n argv) @ vs)))"

end
