(* ===== verification/Methods.thy ===== *)
theory Methods
  imports Classes
begin

text \<open>
  Chains of superclasses, lookup as the first method along a chain, valid entries of the method cache, and the
  operations that keep them: definitions and inclusions (\<^verbatim>\<open>src/class.c\<close>, \<^verbatim>\<open>src/eval.c\<close>).
\<close>

section \<open>Chains of superclasses\<close>

primrec chain :: "'s world \<Rightarrow> u32 \<Rightarrow> u32 list \<Rightarrow> bool" where
  "chain w c [] \<longleftrightarrow> c = 0"
| "chain w c (x # xs) \<longleftrightarrow> c = x \<and> x \<noteq> 0 \<and> (\<exists>k. klass w x = Some k \<and> chain w (csuper k) xs)"

definition methods :: "'s world \<Rightarrow> u32 \<Rightarrow> u32 \<Rightarrow> 's nmethod option" where
  "methods w c mid =
     (case klass w c of
        None \<Rightarrow> None
      | Some k \<Rightarrow> (case m_tbls w (cm_tbl k) of None \<Rightarrow> None | Some t \<Rightarrow> num_map t mid))"

definition world_ok :: "'s world \<Rightarrow> bool" where
  "world_ok w \<longleftrightarrow> klass w 0 = None \<and> klass w 4 = None \<and>
     (\<forall>c k. klass w c = Some k \<longrightarrow> (\<exists>cs. chain w c cs) \<and> (\<exists>t. m_tbls w (cm_tbl k) = Some t \<and> num_table t))"

text \<open>The method that a list of classes gives: that of the first one that has it.\<close>

primrec first_method :: "'s world \<Rightarrow> u32 \<Rightarrow> u32 list \<Rightarrow> ('s nmethod \<times> u32) option" where
  "first_method w mid [] = None"
| "first_method w mid (c # cs) = (case methods w c mid of Some m \<Rightarrow> Some (m, c) | None \<Rightarrow> first_method w mid cs)"

lemma chain_unique: "chain w c xs \<Longrightarrow> chain w c ys \<Longrightarrow> xs = ys"
proof (induction xs arbitrary: c ys)
  case Nil
  then show ?case by (cases ys) auto
next
  case (Cons x xs)
  then show ?case by (cases ys) auto
qed

lemma chain_suffix: "chain w c (xs @ x # ys) \<Longrightarrow> chain w x (x # ys)"
  by (induction xs arbitrary: c) auto

lemma chain_distinct: "chain w c xs \<Longrightarrow> distinct xs"
proof (induction xs arbitrary: c)
  case (Cons x xs)
  have "x \<notin> set xs"
  proof
    assume "x \<in> set xs"
    then obtain us vs where xs: "xs = us @ x # vs" by (auto simp: in_set_conv_decomp)
    have "chain w x (x # vs)" using chain_suffix [of w c "x # us" x vs] Cons.prems xs by simp
    moreover have "chain w x (x # xs)" using Cons.prems by auto
    ultimately have "x # vs = x # xs" by (rule chain_unique)
    then show False using xs by simp
  qed
  then show ?case using Cons by auto
qed simp

lemma distinct_addresses: "distinct (xs :: u32 list) \<Longrightarrow> length xs \<le> 4294967296"
  using card_mono [of "UNIV :: u32 set" "set xs"] by (simp add: distinct_card card_word)

lemma chain_no_null: "chain w c xs \<Longrightarrow> 0 \<notin> set xs"
  by (induction xs arbitrary: c) auto

lemma chain_length: "chain w c xs \<Longrightarrow> length xs < 4294967296"
  using chain_no_null [of w c xs] distinct_addresses [of "0 # xs"] chain_distinct [of w c xs] by simp

lemma chain_klass: "chain w c xs \<Longrightarrow> x \<in> set xs \<Longrightarrow> klass w x \<noteq> None"
  by (induction xs arbitrary: c) auto

lemma world_tables:
  assumes "world_ok w" "klass w c = Some k"
  obtains t where "m_tbls w (cm_tbl k) = Some t" "num_table t" "M_TBL w c = Inr t" "methods w c = num_map t"
proof -
  obtain t where t: "m_tbls w (cm_tbl k) = Some t" "num_table t" using assms unfolding world_ok_def by blast
  then show ?thesis using assms(2) by (intro that [of t]) (simp_all add: M_TBL_def RCLASS_def methods_def fun_eq_iff)
qed

lemma search_from_chain:
  assumes "world_ok w" "num_key mid"
  shows "chain w c cs \<Longrightarrow> cs \<noteq> [] \<Longrightarrow> length cs \<le> n \<Longrightarrow> search_from n w c mid = Inr (first_method w mid cs)"
proof (induction cs arbitrary: c n)
  case (Cons x cs)
  then obtain k where k: "c = x" "klass w x = Some k" "chain w (csuper k) cs" by auto
  obtain n1 where n: "n = Suc n1" "length cs \<le> n1" using Cons.prems(3) by (cases n) auto
  from world_tables [OF assms(1) k(2)] obtain t where t: "num_table t" "M_TBL w x = Inr t" "methods w x = num_map t" by metis
  have l: "st_lookup t mid = Inr (num_map t mid)" by (rule num.map_lookup [OF t(1) assms(2)])
  show ?case
  proof (cases cs)
    case Nil
    then show ?thesis using k l t n by (auto simp: RCLASS_def split: option.split)
  next
    case (Cons y ys)
    then have "csuper k \<noteq> 0" using k(3) by auto
    moreover have "search_from n1 w (csuper k) mid = Inr (first_method w mid cs)"
      by (rule Cons.IH [OF k(3) _ n(2)]) (simp add: Cons)
    ultimately show ?thesis using k l t n by (auto simp: RCLASS_def split: option.split)
  qed
qed simp

lemma search_chain:
  assumes "world_ok w" "num_key mid" "chain w c cs" "c \<noteq> 0"
  shows "search_method w c mid = Inr (first_method w mid cs)"
proof -
  have "cs \<noteq> []" using assms(3,4) by (cases cs) auto
  then show ?thesis unfolding search_method_def
    by (rule search_from_chain [OF assms(1,2,3)]) (use chain_length [OF assms(3)] in simp)
qed

lemma chain_cong: "klass w' = klass w \<Longrightarrow> chain w' = chain w"
proof -
  assume "klass w' = klass w"
  then have "chain w' c cs = chain w c cs" for c cs by (induction cs arbitrary: c) auto
  then show ?thesis by (simp add: fun_eq_iff)
qed

text \<open>Worlds that agree on a chain give the same methods.\<close>

definition same_cell :: "'s world \<Rightarrow> 's world \<Rightarrow> u32 \<Rightarrow> bool" where
  "same_cell w w' c \<longleftrightarrow> map_option csuper (klass w' c) = map_option csuper (klass w c) \<and> methods w' c = methods w c"

lemma chain_same: "chain w c cs \<Longrightarrow> (\<And>x. x \<in> set cs \<Longrightarrow> same_cell w w' x) \<Longrightarrow> chain w' c cs"
proof (induction cs arbitrary: c)
  case (Cons x cs)
  then obtain k where k: "c = x" "x \<noteq> 0" "klass w x = Some k" "chain w (csuper k) cs" by auto
  moreover obtain k' where "klass w' x = Some k'" "csuper k' = csuper k"
    using Cons.prems(2) [of x] k(3) by (auto simp: same_cell_def)
  ultimately show ?case using Cons.IH [of "csuper k"] Cons.prems(2) by simp
qed simp

lemma first_method_same: "(\<And>x. x \<in> set cs \<Longrightarrow> methods w' x mid = methods w x mid) \<Longrightarrow> first_method w' mid cs = first_method w mid cs"
  by (induction cs) (auto split: option.split)

section \<open>The cache\<close>

definition uncached :: "u32 \<Rightarrow> u32 \<Rightarrow> 's world \<Rightarrow> 's cache_entry option result" where
  "uncached class mid w =
     bindR (search_method w class mid) (\<lambda>r.
       Inr (case r of
              None \<Rightarrow> None
            | Some (m, origin) \<Rightarrow> map_option (found_entry class mid origin (nd_noex m)) (nd_body m)))"

definition entry_ok :: "'s world \<Rightarrow> 's cache_entry \<Rightarrow> bool" where
  "entry_ok w e \<longleftrightarrow> ent_mid e = 0 \<or>
     num_key (ent_mid e) \<and> klass w (ent_class e) \<noteq> None \<and> uncached (ent_class e) (ent_mid e) w = Inr (Some e)"

definition cache_ok :: "'s world \<Rightarrow> bool" where
  "cache_ok w \<longleftrightarrow> (\<forall>i<512. entry_ok w (mcache w i))"

lemma EXPR1_less: "EXPR1 c m < 512"
proof -
  have "(signed_drop_bit 3 c XOR m) AND 0x1ff \<le> 0x1ff" by (rule word_and_le1)
  then have "unat ((signed_drop_bit 3 c XOR m) AND 0x1ff) \<le> unat (0x1ff :: u32)" by (simp add: word_le_nat_alt)
  then show ?thesis by (simp add: EXPR1_def)
qed

lemma get_method_uncached:
  "rb_get_method_body class mid w = bindR (uncached class mid w) (\<lambda>r.
     Inr (r, case r of None \<Rightarrow> w | Some e \<Rightarrow> w\<lparr>mcache := (mcache w)(EXPR1 class mid := e)\<rparr>))"
  by (cases "search_method w class mid") (auto simp: rb_get_method_body_def uncached_def Let_def split: option.split)

lemma uncached_cache [simp]: "uncached class mid (w\<lparr>mcache := f\<rparr>) = uncached class mid w"
proof -
  have "search_from n (w\<lparr>mcache := f\<rparr>) c mid = search_from n w c mid" for n c
    by (induction n arbitrary: c) (simp_all add: RCLASS_def M_TBL_def cong: option.case_cong if_cong)
  then show ?thesis by (simp add: uncached_def search_method_def)
qed

lemma world_ok_cache [simp]: "world_ok (w\<lparr>mcache := f\<rparr>) = world_ok w"
proof -
  have "chain (w\<lparr>mcache := f\<rparr>) c cs = chain w c cs" for c cs by (induction cs arbitrary: c) auto
  then show ?thesis by (simp add: world_ok_def)
qed

lemma entry_ok_cache [simp]: "entry_ok (w\<lparr>mcache := f\<rparr>) e = entry_ok w e"
  by (simp add: entry_ok_def)

lemma uncached_fields: "uncached class mid w = Inr (Some e) \<Longrightarrow> ent_mid e = mid \<and> ent_class e = class"
  by (cases "search_method w class mid") (auto simp: uncached_def found_entry_def split: option.splits node.splits)

lemma find_call_uncached:
  assumes "world_ok w" "cache_ok w" "klass w class \<noteq> None" "num_key mid" "mid \<noteq> 0"
  shows "\<exists>r f. uncached class mid w = Inr r \<and> find_call class mid w = Inr (r, w\<lparr>mcache := f\<rparr>) \<and> cache_ok (w\<lparr>mcache := f\<rparr>)"
proof -
  let ?e = "mcache w (EXPR1 class mid)"
  obtain cs where "chain w class cs" "class \<noteq> 0" using assms(1,3) unfolding world_ok_def by fastforce
  from search_chain [OF assms(1,4) this] obtain r where r: "uncached class mid w = Inr r" by (simp add: uncached_def)
  show ?thesis
  proof (cases "ent_mid ?e = mid \<and> ent_class ?e = class")
    case True
    have "entry_ok w ?e" using assms(2) EXPR1_less unfolding cache_ok_def by blast
    then have "uncached class mid w = Inr (Some ?e)" using True assms(5) by (simp add: entry_ok_def)
    then show ?thesis using True assms(2) r by (intro exI [of _ r] exI [of _ "mcache w"]) (simp add: find_call_def Let_def)
  next
    case False
    show ?thesis
    proof (cases r)
      case None
      then show ?thesis using False assms(2) r
        by (intro exI [of _ r] exI [of _ "mcache w"]) (simp add: find_call_def Let_def get_method_uncached)
    next
      case (Some e)
      then have "entry_ok w e" using uncached_fields [of "class" mid w e] r assms(3,4) by (simp add: entry_ok_def)
      then have "cache_ok (w\<lparr>mcache := (mcache w)(EXPR1 class mid := e)\<rparr>)" using assms(2) by (simp add: cache_ok_def)
      then show ?thesis using False Some r
        by (intro exI [of _ r] exI [of _ "(mcache w)(EXPR1 class mid := e)"]) (auto simp: find_call_def Let_def get_method_uncached)
    qed
  qed
qed

section \<open>Operations keep the cache valid\<close>

text \<open>Only the cells and the method tables matter.\<close>

lemma search_core:
  assumes "klass w' = klass w" "m_tbls w' = m_tbls w"
  shows "search_method w' = search_method w" "uncached c mid w' = uncached c mid w" "world_ok w' = world_ok w"
    "methods w' = methods w" "entry_ok w' e = entry_ok w e" "chain w' = chain w"
proof -
  have "search_from n w' c mid = search_from n w c mid" for n c mid
    by (induction n arbitrary: c) (simp_all add: RCLASS_def M_TBL_def assms cong: option.case_cong if_cong)
  then show s: "search_method w' = search_method w" by (simp add: search_method_def fun_eq_iff)
  then show u: "uncached c mid w' = uncached c mid w" for c mid by (simp add: uncached_def)
  have "chain w' c cs = chain w c cs" for c cs by (induction cs arbitrary: c) (auto simp: assms)
  then show "chain w' = chain w" by (simp add: fun_eq_iff)
  then show "world_ok w' = world_ok w" by (simp add: world_ok_def assms)
  show "methods w' = methods w" by (simp add: fun_eq_iff methods_def assms cong: option.case_cong)
  show "entry_ok w' e = entry_ok w e" by (simp add: entry_ok_def u assms)
qed

lemma clear_core [simp]: "klass (rb_clear_cache w) = klass w" "m_tbls (rb_clear_cache w) = m_tbls w" "basic (rb_clear_cache w) = basic w"
  by (simp_all add: rb_clear_cache_def)

lemma clear_cache_ok: "cache_ok (rb_clear_cache w)"
  by (simp add: cache_ok_def rb_clear_cache_def entry_ok_def)

lemma first_uncached:
  assumes "world_ok w" "num_key mid" "chain w c cs" "c \<noteq> 0"
  shows "uncached c mid w = Inr (case first_method w mid cs of
      None \<Rightarrow> None | Some (m, o') \<Rightarrow> map_option (found_entry c mid o' (nd_noex m)) (nd_body m))"
  using search_chain [OF assms] by (simp add: uncached_def)

definition extends :: "'s world \<Rightarrow> 's world \<Rightarrow> bool" where
  "extends w w' \<longleftrightarrow> (\<forall>c. klass w c \<noteq> None \<longrightarrow> klass w' c \<noteq> None \<and> same_cell w w' c)"

lemma extends_uncached:
  assumes "extends w w'" "world_ok w" "world_ok w'" "klass w c \<noteq> None" "num_key mid"
  shows "uncached c mid w' = uncached c mid w"
proof -
  obtain cs where cs: "chain w c cs" "c \<noteq> 0" using assms(2,4) unfolding world_ok_def by fastforce
  have same: "same_cell w w' x" if "x \<in> set cs" for x using chain_klass [OF cs(1) that] assms(1) by (simp add: extends_def)
  have "first_method w' mid cs = first_method w mid cs"
    by (rule first_method_same) (use same in \<open>simp add: same_cell_def\<close>)
  then show ?thesis
    using first_uncached [OF assms(2,5) cs] first_uncached [OF assms(3,5) chain_same [OF cs(1) same] cs(2)] by simp
qed

lemma extends_cache_ok:
  assumes "extends w w'" "world_ok w" "world_ok w'" "cache_ok w" "mcache w' = mcache w"
  shows "cache_ok w'"
  using assms(4,5) extends_uncached [OF assms(1-3)] assms(1)
  unfolding cache_ok_def entry_ok_def extends_def by auto

lemma cells_world_ok:
  assumes "world_ok w" "\<And>c. map_option (\<lambda>k. (csuper k, cm_tbl k)) (klass w' c) = map_option (\<lambda>k. (csuper k, cm_tbl k)) (klass w c)"
    and "m_tbls w' = m_tbls w"
  shows "world_ok w'" "extends w w'"
proof -
  have k: "klass w' c = None \<longleftrightarrow> klass w c = None"
    "klass w' c = Some k' \<Longrightarrow> \<exists>k. klass w c = Some k \<and> csuper k' = csuper k \<and> cm_tbl k' = cm_tbl k" for c k'
    using assms(2) [of c] by (cases "klass w c"; cases "klass w' c"; auto)+
  have m: "methods w' c = methods w c" for c
    using assms(2) [of c] by (cases "klass w c"; cases "klass w' c") (simp_all add: methods_def assms(3) fun_eq_iff)
  have "same_cell w w' c" for c
    using assms(2) [of c] by (cases "klass w c"; cases "klass w' c") (simp_all add: same_cell_def m)
  note same = this
  then show "extends w w'" using k(1) by (simp add: extends_def)
  have "\<exists>cs. chain w' c cs" if kc: "klass w' c = Some k'" for c k'
  proof -
    obtain cs where "chain w c cs" using k(2) [OF kc] assms(1) unfolding world_ok_def by blast
    then show ?thesis using chain_same same by blast
  qed
  then show "world_ok w'" using assms(1) k unfolding world_ok_def assms(3) by metis
qed

text \<open>Adding a method.\<close>

definition shares_table :: "'s world \<Rightarrow> u32 \<Rightarrow> u32 \<Rightarrow> bool" where
  "shares_table w c d \<longleftrightarrow> map_option cm_tbl (klass w d) = map_option cm_tbl (klass w c)"

lemma add_method_ok:
  assumes "world_ok w" "klass w c = Some k" "num_key mid"
  obtains w' where "rb_add_method E c mid node noex w = Inr w'" "world_ok w'" "klass w' = klass w" "mcache w' = mcache w"
    "basic w' = basic w" "\<forall>d. klass w d \<noteq> None \<longrightarrow> methods w' d =
      (if shares_table w c d then (methods w d)(mid \<mapsto> \<lparr>nd_noex = noex, nd_body = node\<rparr>) else methods w d)"
proof -
  obtain t where t: "m_tbls w (cm_tbl k) = Some t" "num_table t" "M_TBL w c = Inr t" "methods w c = num_map t"
    by (rule world_tables [OF assms(1,2)])
  let ?m = "\<lparr>nd_noex = noex, nd_body = node\<rparr>"
  from num.map_insert [OF t(2) assms(3), of ?m] obtain t' f where
    t': "st_insert t mid ?m = Inr (t', f)" "num_table t'" "num_map t' = (num_map t)(mid \<mapsto> ?m)" by blast
  let ?w = "w\<lparr>m_tbls := (m_tbls w)(cm_tbl k \<mapsto> t')\<rparr>"
  have "c \<noteq> 4" using assms(1,2) by (auto simp: world_ok_def)
  then have a: "rb_add_method E c mid node noex w = Inr ?w"
    using t(3) t'(1) assms(2) by (simp add: rb_add_method_def set_m_tbl_def RCLASS_def)
  have "chain ?w d cs = chain w d cs" for d cs by (induction cs arbitrary: d) auto
  then have "world_ok ?w" using assms(1) t'(2) by (auto simp: world_ok_def)
  moreover have "methods ?w d = (if shares_table w c d then (methods w d)(mid \<mapsto> ?m) else methods w d)"
    if "klass w d \<noteq> None" for d
    using that assms(2) t(1) t'(3) by (auto simp: methods_def shares_table_def fun_eq_iff)
  ultimately show ?thesis using a by (intro that [of ?w]) simp_all
qed

text \<open>
  A definition in a class that is not included as a module, without clearing: no valid entry can change,
  since a cached method of that name was found before the class.
\<close>

lemma first_method_before:
  assumes "distinct (us @ c # vs)" "first_method w mid (c # vs) = None" "\<And>x. x \<in> set us \<Longrightarrow> x \<noteq> c \<Longrightarrow> methods w' x mid = methods w x mid"
    and "first_method w mid (us @ c # vs) \<noteq> None"
  shows "first_method w' mid (us @ c # vs) = first_method w mid (us @ c # vs)"
  using assms(1,3,4)
proof (induction us)
  case Nil
  then show ?case using assms(2) by simp
next
  case (Cons u us)
  then show ?case using Cons.prems(2) [of u] by (cases "methods w u mid") auto
qed

lemma add_method_cache_ok:
  assumes w: "world_ok w" "cache_ok w" and c: "klass w c = Some k" "num_key mid" "uncached c mid w = Inr None"
    and none: "search_method w c mid = Inr None"
    and own: "\<And>d. klass w d \<noteq> None \<Longrightarrow> shares_table w c d \<Longrightarrow> d = c"
    and add: "rb_add_method E c mid node noex w = Inr w'"
  shows "cache_ok w'"
proof -
  obtain w1 where w1: "rb_add_method E c mid node noex w = Inr w1" "world_ok w1" "klass w1 = klass w" "mcache w1 = mcache w" "basic w1 = basic w"
    "\<forall>d. klass w d \<noteq> None \<longrightarrow> methods w1 d =
      (if shares_table w c d then (methods w d)(mid \<mapsto> \<lparr>nd_noex = noex, nd_body = node\<rparr>) else methods w d)"
    by (rule add_method_ok [OF w(1) c(1,2)])
  then have w': "w1 = w'" using add by simp
  have other: "methods w' x m = methods w x m" if "klass w x \<noteq> None" "x \<noteq> c \<or> m \<noteq> mid" for x m
    using w1(6) own [OF that(1)] that w' by auto
  have "entry_ok w' e" if e: "entry_ok w e" for e
  proof (cases "ent_mid e = 0")
    case False
    let ?d = "ent_class e" and ?m = "ent_mid e"
    have d: "num_key ?m" "klass w ?d \<noteq> None" "uncached ?d ?m w = Inr (Some e)" using e False by (simp_all add: entry_ok_def)
    obtain ds where ds: "chain w ?d ds" "?d \<noteq> 0" using w(1) d(2) unfolding world_ok_def by fastforce
    have sup: "chain w' ?d ds" using ds(1) chain_cong [of w' w] w1(3) w' by simp
    have found: "first_method w ?m ds \<noteq> None" using first_uncached [OF w(1) d(1) ds] d(3) by (auto split: option.splits)
    have "first_method w' ?m ds = first_method w ?m ds"
    proof (cases "?m = mid \<and> c \<in> set ds")
      case True
      then obtain us vs where u: "ds = us @ c # vs" by (auto simp: in_set_conv_decomp)
      have cv: "chain w c (c # vs)" using chain_suffix [of w ?d us c vs] ds(1) u by simp
      then have "first_method w mid (c # vs) = None" using search_chain [OF w(1) c(2) cv] none by auto
      moreover have "methods w' x mid = methods w x mid" if "x \<in> set us" "x \<noteq> c" for x
        using other chain_klass [OF ds(1), of x] that u by simp
      ultimately show ?thesis using first_method_before [of us c vs w mid w'] chain_distinct [OF ds(1)] found True u by simp
    next
      case False
      then show ?thesis using other chain_klass [OF ds(1)] by (intro first_method_same) metis
    qed
    then show ?thesis
      using first_uncached [OF w(1) d(1) ds] first_uncached [OF w1(2) [unfolded w'] d(1) sup ds(2)] d w1(3) w' by (simp add: entry_ok_def)
  qed (simp add: entry_ok_def)
  then show ?thesis using w(2) w1(4) w' by (simp add: cache_ok_def)
qed

section \<open>Including a module\<close>

text \<open>The environment: fresh addresses, whatever the cache holds.\<close>

definition env_ok :: "'s class_env \<Rightarrow> bool" where
  "env_ok E \<longleftrightarrow>
     (\<forall>w a. new_cell E w = Inr a \<longrightarrow> a \<noteq> 0 \<and> a \<noteq> 4 \<and> klass w a = None) \<and>
     (\<forall>w t. new_tbl E w = Inr t \<longrightarrow> m_tbls w t = None) \<and>
     (\<forall>w f. new_cell E (w\<lparr>mcache := f\<rparr>) = new_cell E w \<and> new_tbl E (w\<lparr>mcache := f\<rparr>) = new_tbl E w)"

definition has_iclass :: "'s world \<Rightarrow> u32 list \<Rightarrow> u32 \<Rightarrow> bool" where
  "has_iclass w cs tbl \<longleftrightarrow> (\<exists>x\<in>set cs. \<exists>k. klass w x = Some k \<and> ctype k = T_ICLASS \<and> cm_tbl k = tbl)"

lemma included_from_chain: "chain w p cs \<Longrightarrow> length cs < n \<Longrightarrow> included_from n w p tbl = Inr (has_iclass w cs tbl)"
proof (induction cs arbitrary: p n)
  case Nil
  then show ?case by (cases n) (simp_all add: has_iclass_def)
next
  case (Cons x cs)
  then obtain n1 where "n = Suc n1" "length cs < n1" by (cases n) auto
  then show ?case using Cons by (auto simp: has_iclass_def RCLASS_def)
qed

text \<open>A new cell behind the cell \<open>c\<close>.\<close>

definition insert_cell :: "u32 \<Rightarrow> u32 \<Rightarrow> rclass \<Rightarrow> 's world \<Rightarrow> 's world" where
  "insert_cell c a i w = w\<lparr>klass := (klass w)(a \<mapsto> i, c \<mapsto> (the (klass w c))\<lparr>csuper := a\<rparr>)\<rparr>"

definition after :: "u32 \<Rightarrow> u32 list \<Rightarrow> u32 list \<Rightarrow> u32 list" where
  "after c new cs = concat (map (\<lambda>x. if x = c then x # new else [x]) cs)"

lemma after_simps [simp]:
  "after c new [] = []" "after c new (x # xs) = (if x = c then x # new else [x]) @ after c new xs"
  by (simp_all add: after_def)

lemma after_absent: "c \<notin> set cs \<Longrightarrow> after c new cs = cs"
  by (induction cs) auto

lemma after_nothing [simp]: "after c [] cs = cs"
  by (induction cs) auto

lemma insert_chain:
  assumes "klass w c = Some k" "klass w a = None" "a \<noteq> 0" "csuper i = csuper k"
  shows "chain w d ds \<Longrightarrow> chain (insert_cell c a i w) d (after c [a] ds)"
proof (induction ds arbitrary: d)
  case (Cons x ds)
  then obtain kx where x: "d = x" "x \<noteq> 0" "klass w x = Some kx" "chain w (csuper kx) ds" by auto
  then have "x \<noteq> a" using assms(2) by auto
  moreover have "c \<noteq> a" using assms(1,2) by auto
  ultimately show ?case using Cons.IH [OF x(4)] x assms by (auto simp: insert_cell_def)
qed simp

lemma insert_world_ok:
  assumes "world_ok w" "klass w c = Some k" "klass w a = None" "a \<noteq> 0" "a \<noteq> 4" "csuper i = csuper k"
    and "klass w m = Some km" "cm_tbl i = cm_tbl km"
  shows "world_ok (insert_cell c a i w)"
proof -
  let ?w = "insert_cell c a i w"
  have c: "c \<noteq> 0" "c \<noteq> 4" "c \<noteq> a" using assms(1-3) by (auto simp: world_ok_def)
  note chain = insert_chain [OF assms(2-4,6)]
  have t: "\<exists>t. m_tbls w (cm_tbl k') = Some t \<and> num_table t" if "klass w x = Some k'" for x k'
    using assms(1) that unfolding world_ok_def by blast
  have "(\<exists>cs. chain ?w x cs) \<and> (\<exists>t. m_tbls w (cm_tbl k') = Some t \<and> num_table t)" if x: "klass ?w x = Some k'" for x k'
  proof (cases "x = a")
    case True
    then have k': "k' = i" using x c(3) by (simp add: insert_cell_def)
    obtain cs where "chain w c cs" using assms(1,2) unfolding world_ok_def by blast
    then obtain cs1 where "chain w (csuper k) cs1" using assms(2) c(1) by (cases cs) auto
    then have "chain ?w a (a # after c [a] cs1)" using chain assms(4,6) c(3) by (auto simp: insert_cell_def)
    then have "\<exists>cs. chain ?w a cs" by blast
    then show ?thesis using t [OF assms(7)] True k' assms(8) by simp
  next
    case False
    then obtain k1 where k1: "klass w x = Some k1" "cm_tbl k' = cm_tbl k1" using x assms(2) by (auto simp: insert_cell_def split: if_splits)
    then obtain cs where "chain w x cs" using assms(1) unfolding world_ok_def by blast
    then show ?thesis using t [OF k1(1)] chain k1(2) by auto
  qed
  then show ?thesis using assms(1,4,5) c by (auto simp: world_ok_def insert_cell_def)
qed

text \<open>One round of the loop.\<close>

definition iclass_of :: "rclass \<Rightarrow> rclass \<Rightarrow> rclass" where
  "iclass_of m k = \<lparr>ctype = T_ICLASS, csingleton = False, csuper = csuper k, cm_tbl = cm_tbl m, civ_tbl = civ_tbl m\<rparr>"

lemma include_round:
  assumes "world_ok w" "klass w c = Some k" "klass w m = Some km" "m \<noteq> 0" "chain w (csuper k) cs"
  shows "include_loop (Suc n) E c m w =
    (if has_iclass w cs (cm_tbl km) then Inr w
     else bindR (new_cell E w) (\<lambda>a. include_loop n E a (csuper km)
       (insert_cell c a (iclass_of km k) (w\<lparr>basic := (basic w)(a := if ctype km = T_ICLASS then basic w m else m)\<rparr>))))"
  using assms included_from_chain [OF assms(5), of 4294967296 "cm_tbl km"] chain_length [OF assms(5)]
  by (auto simp: RCLASS_def include_class_new_def new_class_cell_def bindR_assoc insert_cell_def iclass_of_def Let_def)

lemma super_chain:
  assumes "world_ok w" "klass w c = Some k"
  obtains cs where "chain w c (c # cs)" "chain w (csuper k) cs"
proof -
  obtain ds where "chain w c ds" "c \<noteq> 0" using assms unfolding world_ok_def by (metis option.distinct(1))
  then show ?thesis using assms(2) by (cases ds) (auto intro: that)
qed

lemma super_null_or_klass: "world_ok w \<Longrightarrow> klass w c = Some k \<Longrightarrow> csuper k = 0 \<or> klass w (csuper k) \<noteq> None"
proof -
  assume a: "world_ok w" "klass w c = Some k"
  obtain cs where "chain w (csuper k) cs" by (rule super_chain [OF a])
  then show ?thesis by (cases cs) auto
qed

lemma with_basic [simp]:
  "klass (w\<lparr>basic := f\<rparr>) = klass w" "m_tbls (w\<lparr>basic := f\<rparr>) = m_tbls w" "mcache (w\<lparr>basic := f\<rparr>) = mcache w"
  "world_ok (w\<lparr>basic := f\<rparr>) = world_ok w" "chain (w\<lparr>basic := f\<rparr>) = chain w"
  using search_core [of "w\<lparr>basic := f\<rparr>" w] by simp_all

lemma insert_cell_sel [simp]:
  "m_tbls (insert_cell c a i w) = m_tbls w" "mcache (insert_cell c a i w) = mcache w" "basic (insert_cell c a i w) = basic w"
  by (simp_all add: insert_cell_def)

lemma include_loop_ok:
  assumes E: "env_ok E"
  shows "world_ok w \<Longrightarrow> klass w c = Some k \<Longrightarrow> m = 0 \<or> klass w m \<noteq> None \<Longrightarrow> include_loop n E c m w = Inr w' \<Longrightarrow>
    world_ok w' \<and> mcache w' = mcache w"
proof (induction n arbitrary: c k m w)
  case (Suc n)
  show ?case
  proof (cases "m = 0")
    case False
    then obtain km where m: "klass w m = Some km" using Suc.prems(3) by auto
    obtain cs where cs: "chain w (csuper k) cs" by (rule super_chain [OF Suc.prems(1,2)])
    note R = include_round [OF Suc.prems(1,2) m False cs, of n E]
    show ?thesis
    proof (cases "has_iclass w cs (cm_tbl km)")
      case True
      then show ?thesis using Suc.prems(1,4) R by simp
    next
      case new: False
      let ?f = "\<lambda>a. (basic w)(a := if ctype km = T_ICLASS then basic w m else m)"
      from Suc.prems(4) [unfolded R] new obtain a where a: "new_cell E w = Inr a"
        "include_loop n E a (csuper km) (insert_cell c a (iclass_of km k) (w\<lparr>basic := ?f a\<rparr>)) = Inr w'" by auto
      then have fresh: "a \<noteq> 0" "a \<noteq> 4" "klass w a = None" using E unfolding env_ok_def by blast+
      let ?w = "insert_cell c a (iclass_of km k) (w\<lparr>basic := ?f a\<rparr>)"
      have ok: "world_ok ?w"
        by (rule insert_world_ok [where k = k and m = m and km = km]) (use Suc.prems(1,2) m fresh in \<open>simp_all add: iclass_of_def\<close>)
      have "c \<noteq> a" using Suc.prems(2) fresh(3) by auto
      then have "klass ?w a = Some (iclass_of km k)" by (simp add: insert_cell_def)
      moreover have "csuper km = 0 \<or> klass ?w (csuper km) \<noteq> None"
        using super_null_or_klass [OF Suc.prems(1) m] by (auto simp: insert_cell_def)
      ultimately show ?thesis using Suc.IH [OF ok _ _ a(2)] by simp
    qed
  qed (use Suc.prems in simp)
qed simp

definition table_of :: "'s world \<Rightarrow> u32 \<Rightarrow> u32" where
  "table_of w c = (case klass w c of Some k \<Rightarrow> cm_tbl k | None \<Rightarrow> 0)"

text \<open>The world with the new cells behind \<open>c\<close>: they are included modules, and nothing else changes.\<close>

definition inserted :: "u32 \<Rightarrow> u32 list \<Rightarrow> 's world \<Rightarrow> 's world \<Rightarrow> bool" where
  "inserted c new w w' \<longleftrightarrow>
     world_ok w' \<and> m_tbls w' = m_tbls w \<and> set new \<inter> dom (klass w) = {} \<and>
     (\<forall>x\<in>set new. map_option ctype (klass w' x) = Some T_ICLASS) \<and>
     (\<forall>x\<in>dom (klass w) - {c}. klass w' x = klass w x) \<and>
     map_option (\<lambda>k. k\<lparr>csuper := 0\<rparr>) (klass w' c) = map_option (\<lambda>k. k\<lparr>csuper := 0\<rparr>) (klass w c) \<and>
     (\<forall>d ds. chain w d ds \<longrightarrow> chain w' d (after c new ds))"

lemma same_but_super_cell: "(k :: rclass)\<lparr>csuper := 0\<rparr> = k'\<lparr>csuper := 0\<rparr> \<Longrightarrow> ctype k = ctype k' \<and> cm_tbl k = cm_tbl k'"
  by (cases k; cases k') simp

lemma same_but_super:
  fixes x :: "rclass option"
  assumes "map_option (\<lambda>k. k\<lparr>csuper := 0\<rparr>) x = map_option (\<lambda>k. k\<lparr>csuper := 0\<rparr>) y"
  shows "map_option ctype x = map_option ctype y" "map_option cm_tbl x = map_option cm_tbl y"
  using assms by (cases x; cases y; auto dest: same_but_super_cell)+

lemma inserted_table: "inserted c new w w' \<Longrightarrow> x \<in> dom (klass w) \<Longrightarrow> table_of w' x = table_of w x"
proof -
  assume a: "inserted c new w w'" "x \<in> dom (klass w)"
  have "map_option cm_tbl (klass w' c) = map_option cm_tbl (klass w c)"
    using a(1) unfolding inserted_def by (intro same_but_super) blast
  then show ?thesis
    using a by (cases "x = c"; cases "klass w c"; cases "klass w' c"; simp add: table_of_def) (simp_all add: inserted_def)
qed

lemma inserted_nothing: "world_ok w \<Longrightarrow> inserted c [] w w"
  by (simp add: inserted_def)

text \<open>One round and the rest of the loop.\<close>

lemma inserted_round:
  assumes w: "world_ok w" "klass w c = Some k" and a: "klass w a = None" "a \<noteq> 0" "a \<noteq> 4"
    and m: "klass w m = Some km"
  shows "inserted c [a] w (insert_cell c a (iclass_of km k) (w\<lparr>basic := f\<rparr>))"
proof -
  let ?w = "insert_cell c a (iclass_of km k) (w\<lparr>basic := f\<rparr>)"
  have ca: "c \<noteq> a" using w a by auto
  have ok: "world_ok ?w"
    by (rule insert_world_ok [where k = k and m = m and km = km]) (use w m a in \<open>simp_all add: iclass_of_def\<close>)
  have "chain ?w d (after c [a] ds)" if "chain w d ds" for d ds
    by (rule insert_chain [where k = k]) (use that w a in \<open>simp_all add: iclass_of_def\<close>)
  moreover have "klass ?w x = klass w x" if "x \<noteq> a" "x \<noteq> c" for x using that by (simp add: insert_cell_def)
  ultimately show ?thesis using ok ca w(2) a(1) by (auto simp: inserted_def insert_cell_def iclass_of_def)
qed

lemma inserted_more:
  assumes 1: "inserted c [a] w w1" "klass w c \<noteq> None" and 2: "inserted a new w1 w2" "klass w a = None" "klass w1 a \<noteq> None"
  shows "inserted c (a # new) w w2"
proof -
  have ca: "c \<noteq> a" using assms by auto
  have "klass w1 c \<noteq> None" using 1 by (cases "klass w1 c") (auto simp: inserted_def)
  then have c: "klass w2 c = klass w1 c" using 2(1) ca by (auto simp: inserted_def)
  have dom: "dom (klass w) \<subseteq> dom (klass w1)"
    using 1(1) \<open>klass w1 c \<noteq> None\<close> unfolding inserted_def by (metis DiffI domIff singletonD subsetI)
  have old: "klass w2 x = klass w x" if "x \<in> dom (klass w) - {c}" for x
  proof -
    have "klass w1 x = klass w x" "x \<in> dom (klass w1)" "x \<noteq> a" using that 1(1) dom 2(2) by (auto simp: inserted_def)
    then show ?thesis using 2(1) by (auto simp: inserted_def)
  qed
  have "map_option ctype (klass w1 a) = Some T_ICLASS" using 1(1) by (simp add: inserted_def)
  moreover have "map_option ctype (klass w2 a) = map_option ctype (klass w1 a)"
    using 2(1) unfolding inserted_def by (intro same_but_super) blast
  ultimately have "map_option ctype (klass w2 a) = Some T_ICLASS" by (rule trans [rotated])
  then have types: "\<forall>x\<in>set (a # new). map_option ctype (klass w2 x) = Some T_ICLASS" using 2(1) by (simp add: inserted_def)
  have after: "after a new (after c [a] ds) = after c (a # new) ds" if "a \<notin> set ds" for ds
    using that ca by (induction ds) auto
  have "chain w2 d (after c (a # new) ds)" if d: "chain w d ds" for d ds
  proof -
    have "a \<notin> set ds" using chain_klass [OF d, of a] 2(2) by auto
    moreover have "chain w1 d (after c [a] ds)" using 1(1) d unfolding inserted_def by blast
    then have "chain w2 d (after a new (after c [a] ds))" using 2(1) unfolding inserted_def by blast
    ultimately show ?thesis using after [of ds] by simp
  qed
  moreover have "set (a # new) \<inter> dom (klass w) = {}" using 2(1,2) dom by (auto simp: inserted_def)
  ultimately show ?thesis using 1(1) 2(1) old types c by (simp add: inserted_def)
qed

lemma table_of_dom: "klass w x = Some k \<Longrightarrow> table_of w x = cm_tbl k"
  by (simp add: table_of_def)

lemma has_iclass_inserted:
  assumes "inserted c [a] w w1" "chain w d cs" "c \<notin> set cs"
  shows "has_iclass w1 cs = has_iclass w cs" "chain w1 d cs"
proof -
  have "klass w1 x = klass w x" if "x \<in> set cs" for x
    using that assms chain_klass [OF assms(2) that] by (auto simp: inserted_def)
  then show "has_iclass w1 cs = has_iclass w cs" by (simp add: has_iclass_def fun_eq_iff)
  have "chain w1 d (after c [a] cs)" using assms unfolding inserted_def by blast
  then show "chain w1 d cs" using assms(3) by (simp add: after_absent)
qed

text \<open>The tables that are new: those of the module and its modules, up to the first one that is already there.\<close>

lemma include_loop_tables:
  assumes E: "env_ok E"
  shows "world_ok w \<Longrightarrow> klass w c = Some k \<Longrightarrow> chain w (csuper k) cs \<Longrightarrow> chain w m ms \<Longrightarrow> c \<notin> set ms \<Longrightarrow> length ms < n \<Longrightarrow>
    (\<exists>w1 e. new_cell E w1 = Inl e \<and> include_loop n E c m w = Inl e) \<or>
    (\<exists>w' new. include_loop n E c m w = Inr w' \<and> inserted c new w w' \<and>
      map (table_of w') new = takeWhile (\<lambda>t. \<not> has_iclass w cs t) (map (table_of w) ms))"
proof (induction n arbitrary: c k m ms w)
  case (Suc n)
  show ?case
  proof (cases ms)
    case Nil
    then show ?thesis using Suc.prems inserted_nothing by (intro disjI2 exI [of _ w] exI [of _ "[]"]) simp
  next
    case (Cons m1 ms1)
    then obtain km where m: "m1 = m" "m \<noteq> 0" "klass w m = Some km" "chain w (csuper km) ms1" using Suc.prems(4) by auto
    note R = include_round [OF Suc.prems(1,2) m(3,2) Suc.prems(3), of n E]
    consider (there) "has_iclass w cs (cm_tbl km)" | (err) e where "\<not> has_iclass w cs (cm_tbl km)" "new_cell E w = Inl e"
      | (new) a where "\<not> has_iclass w cs (cm_tbl km)" "new_cell E w = Inr a" by (cases "new_cell E w") auto
    then show ?thesis
    proof cases
      case there
      then show ?thesis using Suc.prems(1) R m Cons inserted_nothing
        by (intro disjI2 exI [of _ w] exI [of _ "[]"]) (simp add: table_of_def)
    next
      case err
      then show ?thesis using R by auto
    next
      case new
      have fresh: "a \<noteq> 0" "a \<noteq> 4" "klass w a = None" using E new(2) unfolding env_ok_def by blast+
      let ?f = "(basic w)(a := if ctype km = T_ICLASS then basic w m else m)"
      define v where v: "v = insert_cell c a (iclass_of km k) (w\<lparr>basic := ?f\<rparr>)"
      have i: "inserted c [a] w v" unfolding v by (rule inserted_round [OF Suc.prems(1,2) fresh(3,1,2) m(3)])
      have "c \<noteq> a" using Suc.prems(2) fresh(3) by auto
      then have ka: "klass v a = Some (iclass_of km k)" by (simp add: v insert_cell_def)
      have c0: "c \<noteq> 0" using Suc.prems(1,2) by (auto simp: world_ok_def)
      then have "c \<notin> set cs" using chain_distinct [of w c "c # cs"] Suc.prems(2,3) by simp
      note cs = has_iclass_inserted [OF i Suc.prems(3) this]
      have ms1: "chain v (csuper km) ms1" by (rule has_iclass_inserted [OF i m(4)]) (use Suc.prems(5) Cons in simp)
      have "a \<notin> set ms1" using chain_klass [OF m(4), of a] fresh(3) by auto
      then have IH: "(\<exists>w1 e. new_cell E w1 = Inl e \<and> include_loop n E a (csuper km) v = Inl e) \<or>
          (\<exists>w' new. include_loop n E a (csuper km) v = Inr w' \<and> inserted a new v w' \<and>
            map (table_of w') new = takeWhile (\<lambda>t. \<not> has_iclass v cs t) (map (table_of v) ms1))"
        using Suc.IH [OF _ ka _ ms1] i cs(2) Suc.prems(6) Cons by (simp add: inserted_def iclass_of_def)
      have loop: "include_loop (Suc n) E c m w = include_loop n E a (csuper km) v" using R new by (simp add: v)
      have tm: "map (table_of v) ms1 = map (table_of w) ms1"
        using inserted_table [OF i] chain_klass [OF m(4)] by (simp add: domIff)
      have "inserted c (a # ns) w w' \<and> map (table_of w') (a # ns) = takeWhile (\<lambda>t. \<not> has_iclass w cs t) (map (table_of w) ms)"
        if i2: "inserted a ns v w'" "map (table_of w') ns = takeWhile (\<lambda>t. \<not> has_iclass v cs t) (map (table_of v) ms1)" for w' ns
        using inserted_more [OF i _ i2(1) fresh(3)] inserted_table [OF i2(1), of a] ka i2(2) tm cs(1) new(1) m Cons Suc.prems(2)
        by (simp add: domIff table_of_def iclass_of_def)
      then show ?thesis using IH loop by metis
    qed
  qed
qed simp

end
