(* ===== verification/Dispatch.thy ===== *)
theory Dispatch
  imports Methods
begin

text \<open>
  New classes and programs of class operations: what they keep, and that the method cache does not show in the results.
\<close>

section \<open>Programs that define, include and call\<close>

lemma class_cell_ok:
  assumes E: "env_ok E" and w: "world_ok w" "csuper k = 0 \<or> klass w (csuper k) \<noteq> None"
    and new: "class_cell_with_table E k cl w = Inr (a, w')"
  shows "world_ok w'" "extends w w'" "mcache w' = mcache w" "a \<noteq> 0" "\<exists>t. klass w' a = Some (k\<lparr>cm_tbl := t\<rparr>)"
    "\<And>x. x \<noteq> a \<Longrightarrow> klass w' x = klass w x" "basic w' = (basic w)(a := cl)"
proof -
  let ?w1 = "w\<lparr>klass := (klass w)(a \<mapsto> k\<lparr>cm_tbl := 0\<rparr>), basic := (basic w)(a := cl)\<rparr>"
  from new obtain t where n: "new_cell E w = Inr a" "new_tbl E ?w1 = Inr t" and w': "w' = ?w1\<lparr>m_tbls := (m_tbls w)(t \<mapsto> st_init_numtable),
      klass := (klass ?w1)(a \<mapsto> k\<lparr>cm_tbl := t\<rparr>)\<rparr>"
    by (auto simp: class_cell_with_table_def new_class_cell_def new_idhash_tbl_def)
  have fresh: "a \<noteq> 0" "a \<noteq> 4" "klass w a = None" using E n(1) unfolding env_ok_def by blast+
  have "m_tbls ?w1 t = None" using E n(2) unfolding env_ok_def by blast
  then have t: "m_tbls w t = None" by simp
  show "a \<noteq> 0" by (rule fresh)
  show "\<exists>t. klass w' a = Some (k\<lparr>cm_tbl := t\<rparr>)" using w' by (intro exI [of _ t]) simp
  show other: "klass w' x = klass w x" if "x \<noteq> a" for x using that w' by simp
  show "mcache w' = mcache w" "basic w' = (basic w)(a := cl)" using w' by simp_all
  have same: "same_cell w w' x" if x: "klass w x \<noteq> None" for x
  proof -
    obtain kx where kx: "klass w x = Some kx" using x by auto
    have xa: "x \<noteq> a" using x fresh(3) by auto
    obtain tx where "m_tbls w (cm_tbl kx) = Some tx" using w(1) kx unfolding world_ok_def by blast
    then have "cm_tbl kx \<noteq> t" using t by auto
    then show ?thesis using kx xa w' by (simp add: same_cell_def methods_def fun_eq_iff)
  qed
  then show ex: "extends w w'" using other fresh(3) unfolding extends_def by (metis)
  have old: "\<exists>cs. chain w' x cs" if kx: "klass w x = Some kx" for x kx
  proof -
    obtain cs where cs: "chain w x cs" using w(1) kx unfolding world_ok_def by blast
    show ?thesis using chain_same [OF cs] same chain_klass [OF cs] by blast
  qed
  have "(\<exists>cs. chain w' x cs) \<and> (\<exists>t. m_tbls w' (cm_tbl kx) = Some t \<and> num_table t)" if x: "klass w' x = Some kx" for x kx
  proof (cases "x = a")
    case True
    then have kx: "kx = k\<lparr>cm_tbl := t\<rparr>" using x w' by simp
    obtain cs where "chain w' (csuper k) cs" using w(2) old chain.simps(1) by (metis option.exhaust)
    then have "chain w' a (a # cs)" using w' fresh(1) by simp
    then have "\<exists>cs. chain w' a cs" by blast
    then show ?thesis using True kx w' by simp
  next
    case False
    then have kx: "klass w x = Some kx" using x other by simp
    then obtain tx where "m_tbls w (cm_tbl kx) = Some tx" "num_table tx" using w(1) unfolding world_ok_def by blast
    moreover from this have "cm_tbl kx \<noteq> t" using t by auto
    ultimately show ?thesis using old [OF kx] w' by simp
  qed
  then show "world_ok w'" using w(1) fresh(1,2) other [of 0] other [of 4] unfolding world_ok_def by simp
qed

lemma flag_ok:
  assumes "world_ok w" "klass w c = Some k"
  shows "world_ok (w\<lparr>klass := (klass w)(c \<mapsto> k\<lparr>csingleton := b\<rparr>)\<rparr>)" "extends w (w\<lparr>klass := (klass w)(c \<mapsto> k\<lparr>csingleton := b\<rparr>)\<rparr>)"
  by (rule cells_world_ok [OF assms(1)]; use assms(2) in simp)+

lemma extends_refl: "extends w w"
  by (simp add: extends_def same_cell_def)

lemma extends_trans: "extends w w1 \<Longrightarrow> extends w1 w2 \<Longrightarrow> extends w w2"
  by (auto simp: extends_def same_cell_def)

lemma extends_basic: "extends w (w'\<lparr>basic := f\<rparr>) = extends w w'"
  using search_core(4) [of "w'\<lparr>basic := f\<rparr>" w'] by (simp add: extends_def same_cell_def)

text \<open>What making classes leaves as it was.\<close>

definition grows :: "'s world \<Rightarrow> 's world \<Rightarrow> bool" where
  "grows w w' \<longleftrightarrow> world_ok w' \<and> extends w w' \<and> mcache w' = mcache w"

lemma grows_cache_ok: "world_ok w \<Longrightarrow> cache_ok w \<Longrightarrow> grows w w' \<Longrightarrow> world_ok w' \<and> cache_ok w'"
  by (auto simp: grows_def intro: extends_cache_ok)

lemma grows_trans: "grows w w1 \<Longrightarrow> grows w1 w2 \<Longrightarrow> grows w w2"
  by (auto simp: grows_def intro: extends_trans)

lemma grows_basic: "grows w (w'\<lparr>basic := f\<rparr>) = grows w w'"
  by (simp add: grows_def extends_basic)

lemma class_new_grows:
  assumes "env_ok E" "world_ok w" "super = 0 \<or> klass w super \<noteq> None" "class_new E super w = Inr (a, w')"
  shows "grows w w'" "klass w' a \<noteq> None" "basic w' = (basic w)(a := cClass E)"
proof -
  note n = class_cell_ok [OF assms(1,2) _ assms(4) [unfolded class_new_def]]
  show "grows w w'" using n(1-3) assms(3) by (simp add: grows_def)
  show "klass w' a \<noteq> None" "basic w' = (basic w)(a := cClass E)" using n(5,7) assms(3) by auto
qed

lemma module_new_grows:
  assumes "env_ok E" "world_ok w" "module_new E w = Inr (a, w')" shows "grows w w'"
  using class_cell_ok [OF assms(1,2) _ assms(3) [unfolded module_new_def]] by (simp add: grows_def)

lemma singleton_new_grows:
  assumes "env_ok E" "world_ok w" "super = 0 \<or> klass w super \<noteq> None" "singleton_class_new E super w = Inr (a, w')"
  shows "grows w w'" "klass w' a \<noteq> None"
proof -
  obtain w1 k where 1: "class_new E super w = Inr (a, w1)" "klass w1 a = Some k"
    "w' = w1\<lparr>klass := (klass w1)(a \<mapsto> k\<lparr>csingleton := True\<rparr>)\<rparr>"
    using assms(4) by (auto simp: singleton_class_new_def RCLASS_def split: option.splits)
  note g = class_new_grows [OF assms(1-3) 1(1)]
  have "grows w1 w'" using flag_ok [OF _ 1(2)] g(1) 1(3) by (simp add: grows_def)
  then show "grows w w'" using g(1) by (rule grows_trans [rotated])
  show "klass w' a \<noteq> None" using 1(3) by simp
qed

lemma define_class_grows:
  assumes "env_ok E" "world_ok w" "define_class E super w = Inr (a, w')"
    and s: "s = (if super = 0 then cClass E else super)" "klass w s \<noteq> None" "klass w (basic w s) \<noteq> None"
  shows "grows w w'"
proof -
  obtain w1 m w2 where 1: "class_new E s w = Inr (a, w1)" "singleton_class_new E (basic w1 s) w1 = Inr (m, w2)"
    "w' = w2\<lparr>basic := (basic w2)(a := m)\<rparr>"
    using assms(3) s(1) by (auto simp: define_class_def Let_def split: if_splits)
  note g = class_new_grows [OF assms(1,2) _ 1(1)]
  have fresh: "klass w a = None" 
    using 1(1) assms(1) by (auto simp: class_new_def class_cell_with_table_def new_class_cell_def new_idhash_tbl_def env_ok_def)
  then have "s \<noteq> a" using s(2) by auto
  then have "basic w1 s = basic w s" using g(3) s(2) by simp
  moreover have "klass w1 (basic w s) \<noteq> None" using g(1) s(2,3) by (simp add: grows_def extends_def)
  moreover have "world_ok w1" using g(1) s(2) by (simp add: grows_def)
  ultimately have "grows w1 w2" using singleton_new_grows(1) [OF assms(1) _ _ 1(2)] by simp
  then show ?thesis using g(1) s(2) 1(3) grows_trans by (simp add: grows_basic) blast
qed

lemma singleton_class_grows:
  assumes "env_ok E" "world_ok w" "rb_singleton_class E obj w = Inr (a, w')" "klass w (basic w obj) \<noteq> None"
  shows "grows w w'"
proof (cases "a = basic w obj \<and> w' = w")
  case True
  then show ?thesis using assms(2) by (simp add: grows_def extends_refl)
next
  case False
  then obtain w1 where 1: "singleton_class_new E (basic w obj) w = Inr (a, w1)" "w' = w1\<lparr>basic := (basic w1)(obj := a)\<rparr>"
    using assms(3) by (auto simp: rb_singleton_class_def split: if_splits)
  have "grows w w1" by (rule singleton_new_grows(1) [OF assms(1,2) _ 1(1)]) (use assms(4) in simp)
  then show ?thesis using 1(2) by (simp add: grows_basic)
qed


text \<open>
  The steps of a program, with their result: \<open>do_op\<close> as the code runs them, \<open>ref_op\<close> with every method
  found in the tables.
\<close>

datatype 's class_op =
    Call u32 u32
  | Def u32 u32 "'s node" u32
  | UndefOp u32 u32
  | Include u32 u32
  | NewClass u32
  | NewModule
  | Singleton u32

fun change :: "'s class_env \<Rightarrow> 's class_op \<Rightarrow> 's world \<Rightarrow> 's world result" where
  "change E (Def c mid body noex) w = eval_defn E c mid body noex w"
| "change E (UndefOp c mid) w = eval_undef E c mid w"
| "change E (Include c m) w = rb_include_module E c m w"
| "change E (NewClass super) w = bindR (define_class E super w) (\<lambda>(_, w). Inr w)"
| "change E NewModule w = bindR (module_new E w) (\<lambda>(_, w). Inr w)"
| "change E (Singleton obj) w = bindR (rb_singleton_class E obj w) (\<lambda>(_, w). Inr w)"
| "change E (Call c mid) w = Inr w"

fun do_op :: "'s class_env \<Rightarrow> 's class_op \<Rightarrow> 's world \<Rightarrow> ('s cache_entry option \<times> 's world) result" where
  "do_op E (Call c mid) w = find_call c mid w"
| "do_op E x w = bindR (change E x w) (\<lambda>w. Inr (None, w))"

fun ref_op :: "'s class_env \<Rightarrow> 's class_op \<Rightarrow> 's world \<Rightarrow> ('s cache_entry option \<times> 's world) result" where
  "ref_op E (Call c mid) w = bindR (uncached c mid w) (\<lambda>r. Inr (r, w))"
| "ref_op E x w = bindR (change E x w) (\<lambda>w. Inr (None, w))"

text \<open>
  What a program must respect: names and classes exist, and a method is defined in an included module only when
  the module has or inherits one of that name.
\<close>

fun class_op_ok :: "'s class_env \<Rightarrow> 's world \<Rightarrow> 's class_op \<Rightarrow> bool" where
  "class_op_ok E w (Call c mid) \<longleftrightarrow> klass w c \<noteq> None \<and> num_key mid \<and> mid \<noteq> 0"
| "class_op_ok E w (Def c mid body noex) \<longleftrightarrow> klass w c \<noteq> None \<and> num_key mid \<and>
     (search_method w c mid \<noteq> Inr None \<or> (\<forall>d. klass w d \<noteq> None \<longrightarrow> shares_table w c d \<longrightarrow> d = c))"
| "class_op_ok E w (UndefOp c mid) \<longleftrightarrow> klass w c \<noteq> None \<and> num_key mid"
| "class_op_ok E w (Include c m) \<longleftrightarrow> klass w c \<noteq> None \<and> klass w m \<noteq> None"
| "class_op_ok E w (NewClass super) \<longleftrightarrow>
     (let s = if super = 0 then cClass E else super in klass w s \<noteq> None \<and> klass w (basic w s) \<noteq> None)"
| "class_op_ok E w NewModule \<longleftrightarrow> True"
| "class_op_ok E w (Singleton obj) \<longleftrightarrow> klass w (basic w obj) \<noteq> None"

lemma add_cleared:
  assumes "world_ok w" "klass w c \<noteq> None" "num_key mid" "rb_add_method E c mid node noex (rb_clear_cache w) = Inr w'"
  shows "world_ok w' \<and> cache_ok w'"
proof -
  let ?w = "rb_clear_cache w"
  obtain k where k: "klass ?w c = Some k" using assms(2) by auto
  have "world_ok ?w" using assms(1) search_core(3) [of ?w w] by simp
  from add_method_ok [OF this k assms(3), of E node noex] obtain w1 where
    w1: "rb_add_method E c mid node noex ?w = Inr w1" "world_ok w1" "mcache w1 = mcache ?w" by metis
  then have "cache_ok w1" by (simp add: cache_ok_def entry_ok_def rb_clear_cache_def)
  then show ?thesis using w1 assms(4) by simp
qed

lemma change_ok:
  assumes E: "env_ok E" and w: "world_ok w" "cache_ok w" "class_op_ok E w x" and c: "change E x w = Inr w'"
  shows "world_ok w' \<and> cache_ok w'"
proof (cases x)
  case (Call c mid)
  then show ?thesis using w c by simp
next
  case (Def c mid body noex)
  then obtain k where k: "klass w c = Some k" "num_key mid" using w(3) by auto
  obtain cs where cs: "chain w c cs" "c \<noteq> 0" using w(1) k(1) unfolding world_ok_def by fastforce
  note S = search_chain [OF w(1) k(2) cs]
  show ?thesis
  proof (cases "first_method w mid cs")
    case None
    then have u: "uncached c mid w = Inr None" using first_uncached [OF w(1) k(2) cs] by simp
    have a: "rb_add_method E c mid (Some body) noex w = Inr w'" using c Def S None by (simp add: eval_defn_def)
    have own: "\<And>d. klass w d \<noteq> None \<Longrightarrow> shares_table w c d \<Longrightarrow> d = c" using w(3) Def S None by auto
    have "cache_ok w'" by (rule add_method_cache_ok [OF w(1,2) k u _ own a]) (use S None in simp_all)
    moreover obtain w1 where "rb_add_method E c mid (Some body) noex w = Inr w1" "world_ok w1"
      by (rule add_method_ok [OF w(1) k])
    ultimately show ?thesis using a by simp
  next
    case (Some p)
    then have "rb_add_method E c mid (Some body) (nd_noex (fst p)) (rb_clear_cache w) = Inr w'"
      using c Def S by (cases p) (simp add: eval_defn_def)
    then show ?thesis using add_cleared [OF w(1) _ k(2)] k(1) by blast
  qed
next
  case (UndefOp c mid)
  then have k: "klass w c \<noteq> None" "num_key mid" using w(3) by auto
  obtain r where "search_method w c mid = Inr r" using c UndefOp by (cases "search_method w c mid") (auto simp: eval_undef_def)
  then have "rb_add_method E c mid None NOEX_PUBLIC (rb_clear_cache w) = Inr w'"
    using c UndefOp by (auto simp: eval_undef_def split: if_splits option.splits)
  then show ?thesis using add_cleared [OF w(1) k] by blast
next
  case (Include c m)
  then obtain k where k: "klass w c = Some k" "klass w m \<noteq> None" using w(3) by auto
  have w1: "world_ok (rb_clear_cache w)" using w(1) search_core(3) [of "rb_clear_cache w" w] by simp
  have "w' = w \<or> include_loop 4294967296 E c m (rb_clear_cache w) = Inr w'"
    using c Include by (auto simp: rb_include_module_def split: if_splits)
  then show ?thesis
  proof
    assume i: "include_loop 4294967296 E c m (rb_clear_cache w) = Inr w'"
    have "world_ok w' \<and> mcache w' = mcache (rb_clear_cache w)"
      by (rule include_loop_ok [OF E w1 _ _ i]) (use k in auto)
    then show ?thesis by (auto simp: cache_ok_def entry_ok_def rb_clear_cache_def)
  qed (use w in simp)
next
  case (NewClass super)
  then obtain a where a: "define_class E super w = Inr (a, w')" using c by auto
  have "grows w w'" by (rule define_class_grows [OF E w(1) a refl]) (use w(3) NewClass in \<open>simp_all add: Let_def\<close>)
  then show ?thesis using grows_cache_ok w(1,2) by blast
next
  case NewModule
  then obtain a where a: "module_new E w = Inr (a, w')" using c by auto
  show ?thesis using grows_cache_ok [OF w(1,2) module_new_grows [OF E w(1) a]] .
next
  case (Singleton obj)
  then obtain a where a: "rb_singleton_class E obj w = Inr (a, w')" using c by auto
  have "grows w w'" by (rule singleton_class_grows [OF E w(1) a]) (use w(3) Singleton in simp)
  then show ?thesis using grows_cache_ok w(1,2) by blast
qed

section \<open>The method cache is invisible\<close>

definition blank :: "'s cache_entry" where
  "blank = \<lparr>ent_mid = 0, ent_mid0 = 0, ent_class = 0, ent_origin = 0, ent_method = None, ent_noex = 0\<rparr>"

definition erase :: "'s world \<Rightarrow> 's world" where
  "erase w = w\<lparr>mcache := \<lambda>_. blank\<rparr>"

definition mapR :: "('a \<Rightarrow> 'b) \<Rightarrow> 'a result \<Rightarrow> 'b result" where
  "mapR f r = bindR r (\<lambda>x. Inr (f x))"

lemma mapR_simps [simp]: "mapR f (Inl e) = Inl e" "mapR f (Inr x) = Inr (f x)"
  by (simp_all add: mapR_def)

lemma mapR_bindR: "mapR f (bindR r g) = bindR r (\<lambda>x. mapR f (g x))"
  by (cases r) simp_all

lemma bindR_mapR: "bindR (mapR f r) g = bindR r (\<lambda>x. g (f x))"
  by (cases r) simp_all

lemma erase_sel [simp]: "klass (erase w) = klass w" "m_tbls (erase w) = m_tbls w" "basic (erase w) = basic w"
  by (simp_all add: erase_def)

lemma erase_upd [simp]: "erase (w\<lparr>klass := k\<rparr>) = (erase w)\<lparr>klass := k\<rparr>" "erase (w\<lparr>basic := b\<rparr>) = (erase w)\<lparr>basic := b\<rparr>"
  "erase (w\<lparr>m_tbls := m\<rparr>) = (erase w)\<lparr>m_tbls := m\<rparr>" "erase (w\<lparr>mcache := f\<rparr>) = erase w" "erase (erase w) = erase w"
  by (simp_all add: erase_def)

lemma erase_clear [simp]: "rb_clear_cache (erase w) = erase w" "erase (rb_clear_cache w) = erase w"
  by (simp_all add: erase_def rb_clear_cache_def blank_def cong: if_cong)

lemma erase_read [simp]: "RCLASS (erase w) = RCLASS w" "M_TBL (erase w) = M_TBL w" "search_method (erase w) = search_method w"
  "uncached c mid (erase w) = uncached c mid w"
  using search_core [of "erase w" w] by (simp_all add: fun_eq_iff M_TBL_def RCLASS_def)

lemma erase_set: "set_m_tbl (erase w) c t = mapR erase (set_m_tbl w c t)"
  by (simp add: set_m_tbl_def mapR_bindR)

lemma erase_add: "rb_add_method E c mid node noex (erase w) = mapR erase (rb_add_method E c mid node noex w)"
  by (simp add: rb_add_method_def Let_def mapR_bindR erase_set case_prod_unfold)

lemma erase_included: "included_from n (erase w) p tbl = included_from n w p tbl"
  by (induction n arbitrary: p) (simp_all cong: if_cong)

abbreviation erase2 :: "'a \<times> 's world \<Rightarrow> 'a \<times> 's world" where
  "erase2 \<equiv> map_prod (\<lambda>x. x) erase"

lemma erase_new:
  assumes "env_ok E"
  shows "new_cell E (erase w) = new_cell E w" "new_tbl E (erase w) = new_tbl E w"
    "new_class_cell E k c (erase w) = mapR erase2 (new_class_cell E k c w)"
    "new_idhash_tbl E (erase w) = mapR erase2 (new_idhash_tbl E w)"
    "class_cell_with_table E k c (erase w) = mapR erase2 (class_cell_with_table E k c w)"
proof -
  show n: "new_cell E (erase w) = new_cell E w" "new_tbl E (erase w) = new_tbl E w" for w
    using assms unfolding env_ok_def erase_def by blast+
  then show c: "new_class_cell E k c (erase w) = mapR erase2 (new_class_cell E k c w)"
    "new_idhash_tbl E (erase w) = mapR erase2 (new_idhash_tbl E w)" for w k
    by (simp_all add: new_class_cell_def new_idhash_tbl_def mapR_bindR)
  then show "class_cell_with_table E k c (erase w) = mapR erase2 (class_cell_with_table E k c w)"
    by (simp add: class_cell_with_table_def mapR_bindR bindR_mapR case_prod_unfold)
qed

lemma erase_class:
  assumes "env_ok E"
  shows "class_new E s (erase w) = mapR erase2 (class_new E s w)" "module_new E (erase w) = mapR erase2 (module_new E w)"
    "singleton_class_new E s (erase w) = mapR erase2 (singleton_class_new E s w)"
    "define_class E s (erase w) = mapR erase2 (define_class E s w)"
    "rb_singleton_class E obj (erase w) = mapR erase2 (rb_singleton_class E obj w)"
    "include_class_new E m s (erase w) = mapR erase2 (include_class_new E m s w)"
proof -
  note n = erase_new [OF assms]
  show c: "class_new E s (erase w) = mapR erase2 (class_new E s w)" "module_new E (erase w) = mapR erase2 (module_new E w)" for s w
    by (simp_all add: class_new_def module_new_def n)
  show m: "singleton_class_new E s (erase w) = mapR erase2 (singleton_class_new E s w)" for s w
    by (simp add: singleton_class_new_def c mapR_bindR bindR_mapR case_prod_unfold)
  show "define_class E s (erase w) = mapR erase2 (define_class E s w)"
    by (simp add: define_class_def Let_def c m mapR_bindR bindR_mapR case_prod_unfold)
  show "rb_singleton_class E obj (erase w) = mapR erase2 (rb_singleton_class E obj w)"
    by (simp add: rb_singleton_class_def m mapR_bindR bindR_mapR case_prod_unfold if_distrib [of "mapR erase2"] cong: if_cong)
  show "include_class_new E m s (erase w) = mapR erase2 (include_class_new E m s w)"
    by (simp add: include_class_new_def n mapR_bindR cong: if_cong)
qed

lemma erase_include_loop:
  assumes "env_ok E"
  shows "include_loop n E c m (erase w) = mapR erase (include_loop n E c m w)"
proof (induction n arbitrary: c m w)
  case (Suc n)
  have step: "include_loop n E c m ((erase w)\<lparr>klass := k\<rparr>) = mapR erase (include_loop n E c m (w\<lparr>klass := k\<rparr>))" for c m w k
    using Suc [of c m "w\<lparr>klass := k\<rparr>"] by simp
  show ?case
    by (simp add: erase_included erase_class [OF assms] mapR_bindR bindR_mapR case_prod_unfold Let_def step if_distrib [of "mapR erase"] cong: if_cong)
qed simp

lemma erase_change:
  assumes "env_ok E"
  shows "change E x (erase w) = mapR erase (change E x w)"
proof (cases x)
  case (Def c mid body noex)
  have a: "rb_add_method E c mid node noex (rb_clear_cache (erase w)) = mapR erase (rb_add_method E c mid node noex (rb_clear_cache w))"
    for node noex using erase_add [of E c mid node noex "rb_clear_cache w"] by simp
  show ?thesis using Def a by (simp add: eval_defn_def mapR_bindR erase_add option.case_distrib case_prod_unfold cong: option.case_cong)
next
  case (UndefOp c mid)
  have a: "rb_add_method E c mid node noex (erase w) = mapR erase (rb_add_method E c mid node noex (rb_clear_cache w))"
    for node noex using erase_add [of E c mid node noex "rb_clear_cache w"] by simp
  show ?thesis using UndefOp a by (simp add: eval_undef_def mapR_bindR if_distrib [of "mapR erase"] cong: if_cong)
next
  case (Include c m)
  have "include_loop n E c m (erase w) = mapR erase (include_loop n E c m (rb_clear_cache w))" for n
    using erase_include_loop [OF assms, of n c m "rb_clear_cache w"] by simp
  then show ?thesis using Include by (simp add: rb_include_module_def mapR_bindR if_distrib [of "mapR erase"] cong: if_cong)
qed (simp_all add: erase_class [OF assms] mapR_bindR bindR_mapR case_prod_unfold)

text \<open>Programs: the results of the calls, in order.\<close>

primrec run ::
    "('s class_op \<Rightarrow> 's world \<Rightarrow> ('s cache_entry option \<times> 's world) result) \<Rightarrow> 's class_op list \<Rightarrow> 's world \<Rightarrow>
     ('s cache_entry option list \<times> 's world) result" where
  "run step [] w = Inr ([], w)"
| "run step (x # xs) w =
     bindR (step x w) (\<lambda>(r, w). bindR (run step xs w) (\<lambda>(rs, w). Inr (r # rs, w)))"

primrec class_ops_ok :: "'s class_env \<Rightarrow> 's class_op list \<Rightarrow> 's world \<Rightarrow> bool" where
  "class_ops_ok E [] w \<longleftrightarrow> True"
| "class_ops_ok E (x # xs) w \<longleftrightarrow> class_op_ok E w x \<and> (case change E x w of Inl _ \<Rightarrow> True | Inr w' \<Rightarrow> class_ops_ok E xs w')"

lemma ref_op_change: "ref_op E x w = bindR (case x of Call c mid \<Rightarrow> uncached c mid w | _ \<Rightarrow> Inr None) (\<lambda>r. mapR (Pair r) (change E x w))"
  by (cases x) (simp_all add: mapR_def)

lemma op_ok_erase: "class_op_ok E (erase w) x = class_op_ok E w x"
  by (cases x) (simp_all add: shares_table_def)

lemma ops_ok_erase:
  assumes "env_ok E"
  shows "class_ops_ok E xs (erase w) = class_ops_ok E xs w"
proof (induction xs arbitrary: w)
  case (Cons x xs)
  then show ?case by (cases "change E x w") (simp_all add: op_ok_erase erase_change [OF assms])
qed simp

lemma one_op:
  assumes E: "env_ok E" and w: "world_ok w" "cache_ok w" "class_op_ok E w x"
  shows "ref_op E x (erase w) = mapR erase2 (do_op E x w) \<and>
    (\<forall>r w'. do_op E x w = Inr (r, w') \<longrightarrow> world_ok w' \<and> cache_ok w' \<and> (\<exists>v. change E x w = Inr v \<and> erase v = erase w'))"
proof (cases "\<exists>c mid. x = Call c mid")
  case True
  then obtain c mid where x: "x = Call c mid" by blast
  then have k: "klass w c \<noteq> None" "num_key mid" "mid \<noteq> 0" using w(3) by simp_all
  obtain r f where "uncached c mid w = Inr r" "find_call c mid w = Inr (r, w\<lparr>mcache := f\<rparr>)" "cache_ok (w\<lparr>mcache := f\<rparr>)"
    using find_call_uncached [OF w(1,2) k] by blast
  then show ?thesis using x w(1) by simp
next
  case False
  have "do_op E x w = mapR (Pair None) (change E x w)" "ref_op E x (erase w) = mapR (Pair None) (change E x (erase w))"
    using False by (cases x; simp add: mapR_def)+
  then show ?thesis using change_ok [OF E w] by (cases "change E x w") (simp_all add: erase_change [OF E])
qed

lemma run_erase:
  assumes E: "env_ok E"
  shows "world_ok w \<Longrightarrow> cache_ok w \<Longrightarrow> class_ops_ok E xs w \<Longrightarrow>
    run (ref_op E) xs (erase w) = mapR erase2 (run (do_op E) xs w) \<and>
    (\<forall>rs w'. run (do_op E) xs w = Inr (rs, w') \<longrightarrow> world_ok w' \<and> cache_ok w')"
proof (induction xs arbitrary: w)
  case (Cons x xs)
  have x: "class_op_ok E w x" using Cons.prems(3) by simp
  note o1 = one_op [OF E Cons.prems(1,2) x]
  show ?case
  proof (cases "do_op E x w")
    case (Inl e)
    then show ?thesis using o1 by simp
  next
    case (Inr p)
    obtain r w1 where p: "p = (r, w1)" by (cases p)
    from o1 Inr p obtain v where v: "world_ok w1" "cache_ok w1" "change E x w = Inr v" "erase v = erase w1" by blast
    then have "class_ops_ok E xs w1" using Cons.prems(3) ops_ok_erase [OF E, of xs v] ops_ok_erase [OF E, of xs w1] by simp
    from Cons.IH [OF v(1,2) this] show ?thesis using o1 Inr p
      by (auto simp: mapR_bindR bindR_mapR case_prod_unfold)
  qed
qed simp

end
