(* ===== verification/Calls.thy ===== *)
theory Calls
  imports Dispatch
begin

text \<open>
  What calls find: the order of the classes after an inclusion, methods whose visibility was changed below
  their class, and the changes that leave the method cache as it is.
\<close>

section \<open>The order of lookup after an inclusion\<close>

lemma inserted_core:
  assumes "klass v = klass w" "m_tbls v = m_tbls w"
  shows "inserted c new v w' = inserted c new w w'" "has_iclass v = has_iclass w" "table_of v = table_of w"
proof -
  show "inserted c new v w' = inserted c new w w'" using assms search_core(6) [OF assms] by (simp add: inserted_def)
  show "has_iclass v = has_iclass w" "table_of v = table_of w"
    by (simp_all add: assms has_iclass_def table_of_def fun_eq_iff cong: option.case_cong)
qed

lemma kind_loop_chain:
  "chain w d ds \<Longrightarrow> length ds < n \<Longrightarrow> kind_loop n w d c tbl = Inr (\<exists>x\<in>set ds. x = c \<or> table_of w x = tbl)"
proof (induction ds arbitrary: d n)
  case Nil
  then show ?case by (cases n) simp_all
next
  case (Cons x ds)
  then obtain k n1 where k: "d = x" "x \<noteq> 0" "klass w x = Some k" "chain w (csuper k) ds" "n = Suc n1" "length ds < n1"
    by (cases n) auto
  show ?case
  proof (cases "x = c \<or> cm_tbl k = tbl")
    case True
    then show ?thesis using k by (auto simp: RCLASS_def table_of_def)
  next
    case False
    then show ?thesis using k Cons.IH [OF k(4,6)] by (auto simp: RCLASS_def table_of_def)
  qed
qed

lemma kind_of_chain:
  assumes "chain w d ds" "klass w c = Some k" "ctype k \<noteq> T_ICLASS" "c \<notin> {0, 2, 4}"
  shows "obj_is_kind_of w obj d c = Inr (\<exists>x\<in>set ds. x = c \<or> table_of w x = cm_tbl k)"
  using kind_loop_chain [OF assms(1), of 4294967296] chain_length [OF assms(1)] assms(2-4)
  by (simp add: obj_is_kind_of_def class_question_def)

lemma included_kind:
  assumes i: "inserted c new w w'" "map (table_of w') new = takeWhile (\<lambda>t. \<not> has_iclass w cs t) (map (table_of w) ms)"
    and c: "chain w c (c # cs)" "klass w m = Some km" "ctype km \<noteq> T_ICLASS" "chain w m ms" "c \<notin> set ms" "m \<notin> {0, 2, 4}"
  shows "chain w' c (c # new @ cs)" "obj_is_kind_of w' obj c m = Inr True"
proof -
  have "c \<notin> set cs" using chain_distinct [OF c(1)] by simp
  moreover have "chain w' c (after c new (c # cs))" using i(1) c(1) unfolding inserted_def by blast
  ultimately show ch: "chain w' c (c # new @ cs)" by (simp add: after_absent)
  obtain ms1 where ms: "ms = m # ms1" using c(4,6) by (cases ms) auto
  then have m: "klass w' m = Some km" using i(1) c(2,5) unfolding inserted_def by (metis DiffI domI list.set_intros(1) singletonD)
  have "\<exists>x\<in>set (c # new @ cs). x = m \<or> table_of w' x = cm_tbl km"
  proof (cases "has_iclass w cs (cm_tbl km)")
    case True
    then obtain x k where x: "x \<in> set cs" "klass w x = Some k" "cm_tbl k = cm_tbl km" unfolding has_iclass_def by blast
    then have "table_of w' x = cm_tbl km" using inserted_table [OF i(1), of x] by (simp add: domIff table_of_def)
    then show ?thesis using x(1) by auto
  next
    case False
    then have "map (table_of w') new = cm_tbl km # takeWhile (\<lambda>t. \<not> has_iclass w cs t) (map (table_of w) ms1)"
      using i(2) ms c(2) by (simp add: table_of_def)
    then show ?thesis by (cases new) auto
  qed
  then show "obj_is_kind_of w' obj c m = Inr True" using kind_of_chain [OF ch m c(3,6)] by simp
qed

lemma inserted_methods:
  assumes i: "inserted c new w w'" and d: "klass w d \<noteq> None"
  shows "methods w' d = methods w d"
proof -
  have "klass w' d \<noteq> None"
  proof (cases "d = c")
    case True
    then show ?thesis using i d by (cases "klass w' c"; cases "klass w c") (simp_all add: inserted_def)
  next
    case False
    then show ?thesis using i d unfolding inserted_def by (metis DiffI domIff singletonD)
  qed
  then obtain a b where ab: "klass w d = Some a" "klass w' d = Some b" using d by auto
  then have "cm_tbl b = cm_tbl a" using inserted_table [OF i, of d] by (simp add: domIff table_of_def)
  moreover have "m_tbls w' = m_tbls w" using i by (simp add: inserted_def)
  ultimately show ?thesis using ab by (simp add: methods_def fun_eq_iff)
qed

text \<open>
  C4: including a module in a class fails only when no cell can be allocated; otherwise the tables of the
  module and of its own modules, up to the first one that the class already includes, stand between the class and
  its superclasses, in the module's order. Every other chain that passes the class gets the same cells, no class
  changes its own methods, lookup follows the new order, the class is a kind of the module and the cache is valid.
\<close>

theorem include_module_order:
  assumes "env_ok E" "world_ok w" "chain w c (c # cs)" "chain w m ms" "c \<notin> set ms" "klass w m = Some km" "ctype km \<noteq> T_ICLASS" "m \<noteq> 2"
  shows "(\<exists>w1 e. new_cell E w1 = Inl e \<and> rb_include_module E c m w = Inl e) \<or>
    (\<exists>w' new. rb_include_module E c m w = Inr w' \<and> world_ok w' \<and> cache_ok w' \<and>
      map (table_of w') new = takeWhile (\<lambda>t. \<not> has_iclass w cs t) (map (table_of w) ms) \<and>
      (\<forall>d ds. chain w d ds \<longrightarrow> chain w' d (after c new ds)) \<and>
      (\<forall>d. klass w d \<noteq> None \<longrightarrow> methods w' d = methods w d) \<and>
      (\<forall>mid. num_key mid \<longrightarrow> search_method w' c mid = Inr (first_method w' mid (c # new @ cs))) \<and>
      obj_is_kind_of w' obj c m = Inr True)"
proof -
  let ?w = "rb_clear_cache w"
  obtain k where k: "klass ?w c = Some k" "chain ?w (csuper k) cs" "c \<noteq> 0" using assms(3) search_core(6) [of ?w w] by auto
  have m: "m \<noteq> 0" "m \<noteq> 4" "c \<noteq> m" using assms(2,4-6) by (auto simp: world_ok_def) (cases ms; auto)
  have w: "world_ok ?w" using assms(2) search_core(3) [of ?w w] by simp
  have ms: "chain ?w m ms" "length ms < 4294967296" using assms(4) search_core(6) [of ?w w] chain_length by auto
  have R: "rb_include_module E c m w = include_loop 4294967296 E c m ?w"
    using assms(6,7) m by (simp add: rb_include_module_def RCLASS_def)
  have ok: "world_ok w' \<and> cache_ok w' \<and> (\<forall>d ds. chain w d ds \<longrightarrow> chain w' d (after c new ds)) \<and>
      (\<forall>d. klass w d \<noteq> None \<longrightarrow> methods w' d = methods w d) \<and>
      (\<forall>mid. num_key mid \<longrightarrow> search_method w' c mid = Inr (first_method w' mid (c # new @ cs))) \<and> obj_is_kind_of w' obj c m = Inr True"
    if i: "include_loop 4294967296 E c m ?w = Inr w'" "inserted c new ?w w'"
      "map (table_of w') new = takeWhile (\<lambda>t. \<not> has_iclass ?w cs t) (map (table_of ?w) ms)" for w' new
  proof -
    have iw: "inserted c new w w'" "map (table_of w') new = takeWhile (\<lambda>t. \<not> has_iclass w cs t) (map (table_of w) ms)"
      using i(2,3) inserted_core [of ?w w] by simp_all
    have "m \<notin> {0, 2, 4}" using m assms(8) by simp
    note kind = included_kind [OF iw assms(3,6,7,4,5) this]
    have "world_ok w' \<and> mcache w' = mcache ?w"
      by (rule include_loop_ok [OF assms(1) w k(1) _ i(1)]) (use assms(6) in simp)
    then have wc: "world_ok w'" "cache_ok w'" by (auto simp: cache_ok_def entry_ok_def rb_clear_cache_def)
    have "methods w' d = methods w d" if "klass w d \<noteq> None" for d by (rule inserted_methods [OF iw(1) that])
    then show ?thesis using wc kind iw(1) search_chain [OF wc(1) _ kind(1) k(3)] by (simp add: inserted_def)
  qed
  show ?thesis
    using include_loop_tables [OF assms(1) w k(1,2) ms(1) assms(5) ms(2)] ok inserted_core(2,3) [of ?w w] R by simp blast
qed

section \<open>Methods whose visibility was changed below their class\<close>

text \<open>The method that a call runs, with \<open>Zsuper\<close> entries passed over, and whether the first method is private.\<close>

primrec real_method :: "'s world \<Rightarrow> u32 \<Rightarrow> u32 list \<Rightarrow> ('s node \<times> u32) option" where
  "real_method w mid [] = None"
| "real_method w mid (c # cs) =
     (case methods w c mid of
        None \<Rightarrow> real_method w mid cs
      | Some m \<Rightarrow> (case nd_body m of None \<Rightarrow> None | Some b \<Rightarrow> if b = Zsuper then real_method w mid cs else Some (b, c)))"

definition private_first :: "'s world \<Rightarrow> u32 \<Rightarrow> u32 list \<Rightarrow> bool" where
  "private_first w mid cs = (case first_method w mid cs of None \<Rightarrow> False | Some (m, _) \<Rightarrow> nd_body m \<noteq> None \<and> nd_noex m = NOEX_PRIVATE)"

definition no_alias :: "'s world \<Rightarrow> u32 \<Rightarrow> u32 list \<Rightarrow> bool" where
  "no_alias w mid cs \<longleftrightarrow> (\<forall>x\<in>set cs. \<forall>m. methods w x mid = Some m \<longrightarrow>
     (\<forall>h a b. nd_body m \<noteq> Some (Fbody h a b)) \<and> (nd_body m = Some Zsuper \<longrightarrow> csuper (the (klass w x)) \<noteq> 0))"

lemma no_alias_mono: "set vs \<subseteq> set cs \<Longrightarrow> no_alias w mid cs \<Longrightarrow> no_alias w mid vs"
  unfolding no_alias_def by blast

lemma first_method_split:
  "first_method w mid cs = Some (m, x) \<Longrightarrow> \<exists>us vs. cs = us @ x # vs \<and> methods w x mid = Some m \<and>
    real_method w mid cs = (case nd_body m of None \<Rightarrow> None | Some b \<Rightarrow> if b = Zsuper then real_method w mid vs else Some (b, x))"
proof (induction cs)
  case (Cons c cs)
  show ?case
  proof (cases "methods w c mid")
    case None
    then obtain us vs where "cs = us @ x # vs" "methods w x mid = Some m"
      "real_method w mid cs = (case nd_body m of None \<Rightarrow> None | Some b \<Rightarrow> if b = Zsuper then real_method w mid vs else Some (b, x))"
      using Cons by auto
    then show ?thesis using None by (intro exI [of _ "c # us"] exI [of _ vs]) simp
  next
    case (Some m')
    then show ?thesis using Cons.prems by (intro exI [of _ "[]"] exI [of _ cs]) simp
  qed
qed simp

lemma first_method_none: "first_method w mid cs = None \<Longrightarrow> real_method w mid cs = None"
  by (induction cs) (auto split: option.splits)

lemma real_method_cache [simp]:
  "real_method (w\<lparr>mcache := f\<rparr>) = real_method w" "no_alias (w\<lparr>mcache := f\<rparr>) = no_alias w" "chain (w\<lparr>mcache := f\<rparr>) = chain w"
proof -
  have m: "methods (w\<lparr>mcache := f\<rparr>) = methods w" using search_core(4) [of "w\<lparr>mcache := f\<rparr>" w] by simp
  show "chain (w\<lparr>mcache := f\<rparr>) = chain w" using search_core(6) [of "w\<lparr>mcache := f\<rparr>" w] by simp
  show "real_method (w\<lparr>mcache := f\<rparr>) = real_method w"
  proof (intro ext)
    show "real_method (w\<lparr>mcache := f\<rparr>) mid cs = real_method w mid cs" for mid cs
      by (induction cs) (simp_all add: m cong: option.case_cong if_cong)
  qed
  show "no_alias (w\<lparr>mcache := f\<rparr>) = no_alias w" by (simp add: no_alias_def m fun_eq_iff)
qed

definition call_result :: "'s world \<Rightarrow> u32 \<Rightarrow> u32 list \<Rightarrow> nat \<Rightarrow> 's call" where
  "call_result w mid cs scope =
     (if scope = 0 \<and> private_first w mid cs then PrivateCalled
      else case real_method w mid cs of None \<Rightarrow> Undefined | Some (b, x) \<Rightarrow> Invoke b x mid)"

lemma call_round:
  assumes w: "world_ok w" "cache_ok w" and c: "chain w c cs" "c \<noteq> 0" "num_key mid" "mid \<noteq> 0" "no_alias w mid cs"
  obtains (result) f where "rb_call_target (Suc n) recv c mid scope w = Inr (call_result w mid cs scope, w\<lparr>mcache := f\<rparr>)"
      "cache_ok (w\<lparr>mcache := f\<rparr>)"
    | (super) f us x vs k where "cs = us @ x # vs" "klass w x = Some k" "csuper k \<noteq> 0" "cache_ok (w\<lparr>mcache := f\<rparr>)"
      "rb_call_target (Suc n) recv c mid scope w =
         rb_call_target n recv (csuper k) mid (if scope = 0 then 1 else scope) (w\<lparr>mcache := f\<rparr>)"
      "call_result w mid cs scope = call_result w mid vs (if scope = 0 then 1 else scope)"
proof -
  have kc: "klass w c \<noteq> None" using c(1,2) by (cases cs) auto
  obtain r f where r: "uncached c mid w = Inr r" "find_call c mid w = Inr (r, w\<lparr>mcache := f\<rparr>)" "cache_ok (w\<lparr>mcache := f\<rparr>)"
    using find_call_uncached [OF w kc c(3,4)] by blast
  note u = first_uncached [OF w(1) c(3,1,2), unfolded r(1)]
  show ?thesis
  proof (cases "first_method w mid cs")
    case None
    then show ?thesis using u r first_method_none [OF None]
      by (intro result [of f]) (simp_all add: call_result_def private_first_def)
  next
    case (Some p)
    then obtain m x where f: "first_method w mid cs = Some (m, x)" by (cases p) auto
    from first_method_split [OF f] obtain us vs where s: "cs = us @ x # vs" "methods w x mid = Some m"
      "real_method w mid cs = (case nd_body m of None \<Rightarrow> None | Some b \<Rightarrow> if b = Zsuper then real_method w mid vs else Some (b, x))" by blast
    have na: "\<forall>h a b. nd_body m \<noteq> Some (Fbody h a b)" "nd_body m = Some Zsuper \<longrightarrow> csuper (the (klass w x)) \<noteq> 0"
      using c(5) s(1,2) by (auto simp: no_alias_def)
    show ?thesis
    proof (cases "nd_body m")
      case None
      then show ?thesis using u r f s(3) by (intro result [of f]) (simp_all add: call_result_def private_first_def)
    next
      case (Some b)
      then have e: "r = Some \<lparr>ent_mid = mid, ent_mid0 = mid, ent_class = c, ent_origin = x, ent_method = Some b, ent_noex = nd_noex m\<rparr>"
        using u f na(1) by (cases b) (auto simp: found_entry_def)
      consider "nd_noex m = NOEX_PRIVATE \<and> scope = 0" | "\<not> (nd_noex m = NOEX_PRIVATE \<and> scope = 0)" "b \<noteq> Zsuper"
        | "\<not> (nd_noex m = NOEX_PRIVATE \<and> scope = 0)" "b = Zsuper" by blast
      then show ?thesis
      proof cases
        case 1
        then show ?thesis using e r f Some by (intro result [of f]) (simp_all add: call_result_def private_first_def)
      next
        case 2
        then show ?thesis using e r f Some s(3) by (intro result [of f]) (auto simp: call_result_def private_first_def)
      next
        case 3
        obtain k where k: "klass w x = Some k" using chain_klass [OF c(1), of x] s(1) by auto
        then have "csuper k \<noteq> 0" using na(2) 3 Some by simp
        then show ?thesis using e r f Some s(1,3) 3 k
          by (intro super [of us x vs k f]) (auto simp: call_result_def private_first_def RCLASS_def)
      qed
    qed
  qed
qed

text \<open>
  C5: with a valid cache, and when none of the classes searched has an alias under the name and the last one has
  not just a change of visibility under it (there the call can loop: \<open>zsuper_at_the_end_loops\<close>), a call returns in
  at most as many rounds as there are classes. It runs the first method that is not just a change of visibility,
  under its own name and class; a call with a receiver of a method that is private in the first class that knows it
  is refused, whatever its definition says.
\<close>

theorem call_finds_body:
  assumes "world_ok w" "cache_ok w" "chain w c cs" "c \<noteq> 0" "num_key mid" "mid \<noteq> 0" "no_alias w mid cs" "length cs \<le> n"
  shows "\<exists>f. rb_call_target n recv c mid scope w = Inr (call_result w mid cs scope, w\<lparr>mcache := f\<rparr>) \<and> cache_ok (w\<lparr>mcache := f\<rparr>)"
  using assms
proof (induction n arbitrary: w c cs scope)
  case 0
  then show ?case by (cases cs) auto
next
  case (Suc n)
  show ?case
  proof (rule call_round [OF Suc.prems(1-7), of n recv scope])
    fix f us x vs k
    assume s: "cs = us @ x # vs" "klass w x = Some k" "csuper k \<noteq> 0" "cache_ok (w\<lparr>mcache := f\<rparr>)"
      and call: "rb_call_target (Suc n) recv c mid scope w = rb_call_target n recv (csuper k) mid (if scope = 0 then 1 else scope) (w\<lparr>mcache := f\<rparr>)"
        "call_result w mid cs scope = call_result w mid vs (if scope = 0 then 1 else scope)"
    let ?w = "w\<lparr>mcache := f\<rparr>" and ?s = "if scope = 0 then 1 else scope"
    have ch: "chain ?w (csuper k) vs" using chain_suffix [of w c us x vs] Suc.prems(3) s(1,2) by simp
    have "no_alias w mid vs" by (rule no_alias_mono [OF _ Suc.prems(7)]) (use s(1) in auto)
    then have na: "no_alias ?w mid vs" by simp
    have "length vs \<le> n" using Suc.prems(8) s(1) by simp
    with Suc.IH [OF _ s(4) ch s(3) Suc.prems(5,6) na, of ?s] Suc.prems(1)
    obtain g where "rb_call_target n recv (csuper k) mid ?s ?w = Inr (call_result ?w mid vs ?s, ?w\<lparr>mcache := g\<rparr>)"
      "cache_ok (?w\<lparr>mcache := g\<rparr>)" by auto
    moreover have "call_result ?w mid vs ?s = call_result w mid vs ?s" by (simp add: call_result_def)
    ultimately show ?case using call by (intro exI [of _ g]) simp
  qed blast
qed

text \<open>
  C36: a method whose visibility was changed in a module that stands last among the superclasses is
  searched from that module again and again: the call does not return, with any number of rounds.
\<close>

theorem zsuper_at_the_end_loops:
  assumes "world_ok w" "cache_ok w" "klass w c = Some k" "csuper k = 0" "num_key mid" "mid \<noteq> 0" "scope \<noteq> 0"
    and "methods w c mid = Some \<lparr>nd_noex = noex, nd_body = Some Zsuper\<rparr>"
    and "share_tbl 4294967296 w (basic w recv) (cm_tbl k) = Inr c"
  shows "rb_call_target n recv c mid scope w = Inl Diverges"
  using assms
proof (induction n arbitrary: w)
  case (Suc n)
  have c: "c \<noteq> 0" "klass w c \<noteq> None" "chain w c [c]" using Suc.prems(1,3,4) by (auto simp: world_ok_def)
  obtain r f where r: "uncached c mid w = Inr r" "find_call c mid w = Inr (r, w\<lparr>mcache := f\<rparr>)" "cache_ok (w\<lparr>mcache := f\<rparr>)"
    using find_call_uncached [OF Suc.prems(1,2) c(2) Suc.prems(5,6)] by blast
  let ?w = "w\<lparr>mcache := f\<rparr>"
  have e: "r = Some \<lparr>ent_mid = mid, ent_mid0 = mid, ent_class = c, ent_origin = c, ent_method = Some Zsuper, ent_noex = noex\<rparr>"
    using first_uncached [OF Suc.prems(1,5) c(3,1)] r(1) Suc.prems(8) by (simp add: found_entry_def)
  have "share_tbl m ?w d t = share_tbl m w d t" for m d t
    by (induction m arbitrary: d) (simp_all add: RCLASS_def cong: if_cong option.case_cong)
  then have s: "share_tbl 4294967296 ?w (basic ?w recv) (cm_tbl k) = Inr c" using Suc.prems(9) by simp
  have m: "methods ?w = methods w" using search_core(4) [of ?w w] by simp
  have "rb_call_target n recv c mid scope ?w = Inl Diverges"
    by (rule Suc.IH) (use Suc.prems r(3) s m in simp_all)
  then show ?case using e r(2) s Suc.prems(3,4,7) by (simp add: RCLASS_def)
qed simp

section \<open>Changes that leave the cache as it is\<close>

lemma add_method_cache: "rb_add_method E c mid node noex w = Inr w' \<Longrightarrow> mcache w' = mcache w"
  by (auto simp: rb_add_method_def set_m_tbl_def Let_def)

lemma alias_cache:
  assumes "rb_alias E c name def w = Inr w'"
  shows "mcache w' = mcache w"
proof (cases "name = def")
  case False
  then obtain r where r: "search_or_object E (\<lambda>m. nd_body m \<noteq> None) w c def = Inr r" using assms by (auto simp: rb_alias_def)
  obtain orig origin b where "r = Some (orig, origin)" "nd_body orig = Some b"
    using assms False r by (cases r) (auto simp: rb_alias_def split: option.splits)
  then show ?thesis using assms False r by (auto simp: rb_alias_def set_m_tbl_def Let_def case_prod_unfold)
qed (use assms in \<open>simp add: rb_alias_def\<close>)

lemma find_call_again:
  assumes "find_call c mid w = Inr (Some e, w1)" "mcache w2 = mcache w1"
  shows "find_call c mid w2 = Inr (Some e, w2)"
proof (cases "ent_mid (mcache w (EXPR1 c mid)) = mid \<and> ent_class (mcache w (EXPR1 c mid)) = c")
  case True
  then have "e = mcache w (EXPR1 c mid)" "w1 = w" using assms(1) by (auto simp: find_call_def Let_def)
  then show ?thesis using True assms(2) by (simp add: find_call_def Let_def)
next
  case False
  then obtain r where u: "uncached c mid w = Inr r" using assms(1) by (cases "uncached c mid w") (auto simp: find_call_def get_method_uncached Let_def)
  then have "r = Some e" "w1 = w\<lparr>mcache := (mcache w)(EXPR1 c mid := e)\<rparr>"
    using False assms(1) by (auto simp: find_call_def get_method_uncached Let_def split: option.splits)
  then show ?thesis using uncached_fields [of c mid w e] u assms(2) by (simp add: find_call_def Let_def)
qed

text \<open>
  C37: after a call has been found once, \<^verbatim>\<open>rb_alias\<close>, \<^verbatim>\<open>rb_undef_method\<close>, \<^verbatim>\<open>rb_define_method\<close> and a definition of a
  name that the class or module did not have leave the cached entry in use: the same call still finds
  the old method.
\<close>

theorem cached_method_outlives_change:
  assumes "find_call c mid w = Inr (Some e, w1)"
    and "rb_alias E d name def w1 = Inr w2 \<or> rb_undef_method E d name w1 = Inr w2 \<or>
      rb_define_method_id E d name func argc w1 = Inr w2 \<or>
      search_method w1 d name = Inr None \<and> eval_defn E d name body noex w1 = Inr w2"
  shows "find_call c mid w2 = Inr (Some e, w2)"
proof (rule find_call_again [OF assms(1)])
  show "mcache w2 = mcache w1"
    using assms(2) alias_cache add_method_cache unfolding rb_undef_method_def rb_define_method_id_def eval_defn_def by auto
qed

section \<open>The arguments of C functions\<close>

text \<open>
  The switch over the declared count passes the words in order up to 9; from 10 on the words 6, 7 and 8 come twice,
  so every parameter from the tenth receives the argument three places before it.
\<close>

lemma word_indices_value:
  "0 \<le> len \<Longrightarrow> len \<le> 15 \<Longrightarrow> word_indices len =
     Some (map (\<lambda>i. if i < 9 then i else i - 3) [0..<if len \<le> 9 then nat len else nat len + 3])"
proof -
  have "list_all (\<lambda>n. word_indices n =
     Some (map (\<lambda>i. if i < 9 then i else i - 3) [0..<if n \<le> 9 then nat n else nat n + 3])) [0..15]" by code_simp
  then show "0 \<le> len \<Longrightarrow> len \<le> 15 \<Longrightarrow> ?thesis" by (simp add: list_all_iff)
qed

primrec unscan :: "'v scanned \<Rightarrow> 'v list" where
  "unscan (ScanArg v) = [v]"
| "unscan ScanNil = []"
| "unscan (ScanRest vs) = vs"

lemma unscan_args: "concat (map unscan (map ScanArg xs)) = xs"
  by (induction xs) simp_all

lemma unscan_opt: "concat (map unscan (scan_opt i n argv)) = take (n - i) (drop i argv)"
proof (induction "n - i" arbitrary: i)
  case (Suc k)
  then have u: "[i..<n] = i # [Suc i..<n]" "n - i = Suc (n - Suc i)" by (simp_all add: upt_conv_Cons)
  have IH: "concat (map unscan (scan_opt (Suc i) n argv)) = take (n - Suc i) (drop (Suc i) argv)" using Suc by simp
  show ?case
  proof (cases "i < length argv")
    case True
    then have "drop i argv = argv ! i # drop (Suc i) argv" by (simp add: Cons_nth_drop_Suc)
    then show ?thesis using True IH u by (simp add: scan_opt_def)
  next
    case False
    then show ?thesis using IH u by (simp add: scan_opt_def)
  qed
qed (simp add: scan_opt_def)

lemma scan_end_rest: "scan_end p i argv = Inr vs \<Longrightarrow> concat (map unscan vs) = drop i argv"
  by (auto simp: scan_end_def split: list.splits if_splits)

text \<open>
  C38: \<^verbatim>\<open>rb_scan_args\<close> loses and repeats no argument: when it accepts the arguments, what it stores in the
  variables, in order and with the array of the rest opened, is the argument vector.
\<close>

theorem scan_args_complete:
  assumes "rb_scan_args argv fmt = Inr vs"
  shows "concat (map unscan vs) = argv"
proof (cases fmt)
  case Nil
  then show ?thesis using assms by (simp add: rb_scan_args_def)
next
  case (Cons c p)
  show ?thesis
  proof (cases "c = 42")
    case True
    then show ?thesis using assms Cons by (auto simp: rb_scan_args_def)
  next
    case False
    let ?n = "unat (c - 48)"
    have n: "?n \<le> length argv" "digit_char c"
      using assms Cons False by (auto simp: rb_scan_args_def Let_def split: if_splits)
    obtain us where us: "vs = map ScanArg (take ?n argv) @ us"
      "(case p of d # q \<Rightarrow> if digit_char d then
           bindR (scan_end q (?n + unat (d - 48)) argv) (\<lambda>vs. Inr (scan_opt ?n (?n + unat (d - 48)) argv @ vs))
         else scan_end p ?n argv | [] \<Rightarrow> scan_end p ?n argv) = Inr us"
      using assms Cons False n unfolding rb_scan_args_def Let_def by auto
    have "concat (map unscan us) = drop ?n argv"
    proof (cases "\<exists>d q. p = d # q \<and> digit_char d")
      case True
      then obtain d q ws where "p = d # q" "digit_char d" "scan_end q (?n + unat (d - 48)) argv = Inr ws"
        "us = scan_opt ?n (?n + unat (d - 48)) argv @ ws" using us(2) by auto
      then show ?thesis using scan_end_rest [of q _ argv ws] unscan_opt [of ?n "?n + unat (d - 48)" argv]
        append_take_drop_id [of "unat (d - 48)" "drop ?n argv"] by (simp add: add.commute)
    next
      case False
      then have "scan_end p ?n argv = Inr us" using us(2) by (auto split: list.splits if_splits)
      then show ?thesis by (rule scan_end_rest)
    qed
    then show ?thesis using us(1) unscan_args [of "take ?n argv"] by simp
  qed
qed

lemma scan_args_complete_witness:
  "rb_scan_args [1, 2, 3, 4 :: nat] [49, 49, 42] = Inr [ScanArg 1, ScanArg 2, ScanRest [3, 4]] \<and>
   concat (map unscan [ScanArg 1, ScanArg 2, ScanRest [3, 4 :: nat]]) = [1, 2, 3, 4]"
proof -
  have "rb_scan_args [1, 2, 3, 4 :: nat] [49, 49, 42] = Inr [ScanArg 1, ScanArg 2, ScanRest [3, 4]]"
    by (simp add: rb_scan_args_def digit_char_def Let_def scan_opt_def scan_end_def upt_rec)
  then show ?thesis using scan_args_complete by blast
qed

section \<open>A program\<close>

definition first_free :: "(u32 \<Rightarrow> bool) \<Rightarrow> u32 result" where
  "first_free used = (if \<not> used 8 then Inr 8 else if \<not> used 16 then Inr 16 else if \<not> used 24 then Inr 24 else if \<not> used 32 then Inr 32 else Inl OutOfBounds)"

definition demo_env :: "nat class_env" where
  "demo_env = \<lparr>cObject = 8, cClass = 8, cModule = 8, mKernel = 8,
     new_cell = \<lambda>w. first_free (\<lambda>a. klass w a \<noteq> None), new_tbl = \<lambda>w. first_free (\<lambda>a. m_tbls w a \<noteq> None),
     special_const = \<lambda>v. v AND 1 = 1, rfunc_u2 = \<lambda>_. 0, rfunc_u3 = \<lambda>_. 0\<rparr>"

lemma first_free_ok: "first_free used = Inr a \<Longrightarrow> \<not> used a \<and> a \<noteq> 0 \<and> a \<noteq> 4"
  by (auto simp: first_free_def split: if_splits)

lemma demo_env_ok: "env_ok demo_env"
  by (auto simp: env_ok_def demo_env_def dest!: first_free_ok)

definition one_method :: "nat nmethod \<Rightarrow> (u32, nat nmethod) st_table" where
  "one_method m =
     \<lparr>type_of = type_numhash, num_bins = 11, num_entries = 1,
      bins = [[], [], [], [], [], [], [], [], [], [(9, m)], []]\<rparr>"

lemma demo_hash: "do_hash 9 (one_method m) = 9" "do_hash 9 (st_init_numtable :: (u32, nat nmethod) st_table) = 9"
  by (simp_all add: do_hash_def one_method_def type_numhash_def numhash_def st_init_numtable_def st_init_table_def
      st_init_table_with_size_def signed_modulo_int_def)

lemma demo_table [simp]:
  "st_insert st_init_numtable 9 m = Inr (one_method m, False)"
  "st_insert (one_method m) 9 m' = Inr (one_method m', True)"
  "st_lookup (one_method m) 9 = Inr (Some m)"
  "st_lookup (st_init_numtable :: (u32, nat nmethod) st_table) 9 = Inr None"
  by (simp_all add: st_insert_def st_lookup_def demo_hash arr_get_def arr_set_def in_block_def EQUAL_def numcmp_def
      one_method_def type_numhash_def st_init_numtable_def st_init_table_def st_init_table_with_size_def ADD_DIRECT_def
      push_entry_def do_hash_def numhash_def signed_divide_int_def signed_modulo_int_def eval_nat_numeral)

lemma search_once:
  "search_from (numeral n) w c mid =
     bindR (RCLASS w c) (\<lambda>k. bindR (M_TBL w c) (\<lambda>t. bindR (st_lookup t mid) (\<lambda>r.
       case r of
         Some body \<Rightarrow> Inr (Some (body, c))
       | None \<Rightarrow> if csuper k = 0 then Inr None else search_from (pred_numeral n) w (csuper k) mid)))"
  by (simp add: numeral_eq_Suc)

text \<open>Class 8 with its subclass 16, and the method 9 of class 8.\<close>

definition demo :: "nat nmethod option \<Rightarrow> nat world" where
  "demo m =
     \<lparr>klass = [8 \<mapsto> \<lparr>ctype = T_CLASS, csingleton = False, csuper = 0, cm_tbl = 1, civ_tbl = 0\<rparr>,
        16 \<mapsto> \<lparr>ctype = T_CLASS, csingleton = False, csuper = 8, cm_tbl = 2, civ_tbl = 0\<rparr>],
      basic = (\<lambda>_. 8), m_tbls = [1 \<mapsto> (case m of None \<Rightarrow> st_init_numtable | Some m \<Rightarrow> one_method m), 2 \<mapsto> st_init_numtable],
      mcache = \<lambda>_. blank\<rparr>"

lemma demo_search [simp]:
  "search_method (demo m\<lparr>mcache := f\<rparr>) 16 9 = Inr (map_option (\<lambda>m. (m, 8)) m)"
  "search_method (demo m\<lparr>mcache := f\<rparr>) 8 9 = Inr (map_option (\<lambda>m. (m, 8)) m)"
  by (cases m; simp add: search_method_def search_once RCLASS_def M_TBL_def demo_def)+


lemma demo_num: "num_table (one_method m)" "num_map (one_method m) = [9 \<mapsto> m]"
  using num.map_insert [of "st_init_numtable :: (u32, nat nmethod) st_table" 9 m] by (simp_all add: num_key_def)

lemma demo_ok: "world_ok (demo m)" "cache_ok (demo m)"
proof -
  have "chain (demo m) 8 [8]" "chain (demo m) 16 [16, 8]" by (simp_all add: demo_def)
  then have "\<exists>cs. chain (demo m) 8 cs" "\<exists>cs. chain (demo m) 16 cs" by blast+
  then show "world_ok (demo m)" by (auto simp: world_ok_def demo_def demo_num split: option.splits)
  show "cache_ok (demo m)" by (simp add: cache_ok_def entry_ok_def demo_def blank_def)
qed

definition demo_prog :: "nat class_op list" where
  "demo_prog = [Call 16 9, Def 8 9 (Rfunc 2) 0, Call 16 9, UndefOp 8 9, Call 16 9]"

lemma demo_add [simp]:
  "rb_add_method demo_env 8 9 b noex ((demo m)\<lparr>mcache := f\<rparr>) = Inr ((demo (Some \<lparr>nd_noex = noex, nd_body = b\<rparr>))\<lparr>mcache := f\<rparr>)"
  by (cases m) (simp_all add: rb_add_method_def M_TBL_def RCLASS_def set_m_tbl_def demo_def fun_eq_iff demo_env_def)


lemma demo_change [simp]:
  "eval_defn demo_env 8 9 b noex ((demo (Some m))\<lparr>mcache := f\<rparr>) =
     Inr ((demo (Some \<lparr>nd_noex = nd_noex m, nd_body = Some b\<rparr>))\<lparr>mcache := mcache (rb_clear_cache ((demo (Some m))\<lparr>mcache := f\<rparr>))\<rparr>)"
  "nd_body m \<noteq> None \<Longrightarrow> eval_undef demo_env 8 9 ((demo (Some m))\<lparr>mcache := f\<rparr>) =
     Inr ((demo (Some \<lparr>nd_noex = 0, nd_body = None\<rparr>))\<lparr>mcache := mcache (rb_clear_cache ((demo (Some m))\<lparr>mcache := f\<rparr>))\<rparr>)"
  by (simp_all add: eval_defn_def eval_undef_def rb_clear_cache_def NOEX_PUBLIC_def)

lemma demo_klass [simp]: "klass (demo m) 8 \<noteq> None" "klass (demo m) 16 \<noteq> None"
  by (simp_all add: demo_def)

definition demo1 :: "nat world" where "demo1 = demo (Some \<lparr>nd_noex = 0, nd_body = Some (Rfunc 1)\<rparr>)"

lemma demo_same: "demo m = (demo m)\<lparr>mcache := \<lambda>_. blank\<rparr>" by (simp add: demo_def)

lemma demo_prog_ok: "class_ops_ok demo_env demo_prog demo1"
  unfolding demo1_def by (subst demo_same) (simp del: One_nat_def add: demo_prog_def num_key_def)

definition demo_entry :: "nat \<Rightarrow> nat cache_entry" where
  "demo_entry s =
     \<lparr>ent_mid = 9, ent_mid0 = 9, ent_class = 16, ent_origin = 8, ent_method = Some (Rfunc s), ent_noex = 0\<rparr>"

lemma erase_demo: "erase (demo m) = (demo m)\<lparr>mcache := \<lambda>_. blank\<rparr>"
  by (simp add: erase_def)

lemma demo_run: "\<exists>w. run (ref_op demo_env) demo_prog (erase demo1) = Inr ([Some (demo_entry 1), None, Some (demo_entry 2), None, None], w)"
  unfolding demo1_def erase_demo by (simp add: demo_prog_def uncached_def found_entry_def demo_entry_def)

text \<open>
  C3: programs of calls, definitions, \<^verbatim>\<open>undef\<close>, inclusions and new classes give the same results and the same
  classes with the method cache as with every method searched in the tables, and keep the cache valid. The
  classes and names of every step must exist, and a definition must either be of a name that the search from the
  class finds already, or be made in a class or module whose method table no inclusion shares: a new name in a
  module that is already included is not covered, because there the cache shows (\<open>cached_method_outlives_change\<close>).
\<close>

theorem method_cache_invisible:
  assumes "env_ok E" "world_ok w" "cache_ok w" "class_ops_ok E xs w"
  shows "run (ref_op E) xs (erase w) = mapR erase2 (run (do_op E) xs w) \<and>
    (\<forall>rs w'. run (do_op E) xs w = Inr (rs, w') \<longrightarrow> world_ok w' \<and> cache_ok w')"
  using run_erase [OF assms] .

lemma method_cache_invisible_witness:
  "\<exists>w. run (do_op demo_env) demo_prog demo1 = Inr ([Some (demo_entry 1), None, Some (demo_entry 2), None, None], w)"
proof -
  have ok: "world_ok demo1" "cache_ok demo1" by (simp_all add: demo1_def demo_ok)
  from method_cache_invisible [OF demo_env_ok ok demo_prog_ok] demo_run show ?thesis
    by (cases "run (do_op demo_env) demo_prog demo1") auto
qed

text \<open>The class 16 includes the module 24.\<close>

definition demo_module :: "nat world" where
  "demo_module = demo1\<lparr>klass := (klass demo1)(24 \<mapsto> \<lparr>ctype = T_MODULE, csingleton = False, csuper = 0, cm_tbl = 3, civ_tbl = 0\<rparr>),
     m_tbls := (m_tbls demo1)(3 \<mapsto> st_init_numtable)\<rparr>"

lemma demo_module_ok: "world_ok demo_module"
proof -
  have "chain demo_module 8 [8]" "chain demo_module 16 [16, 8]" "chain demo_module 24 [24]"
    by (simp_all add: demo_module_def demo1_def demo_def)
  then have "\<exists>cs. chain demo_module 8 cs" "\<exists>cs. chain demo_module 16 cs" "\<exists>cs. chain demo_module 24 cs" by blast+
  then show ?thesis by (auto simp: world_ok_def demo_module_def demo1_def demo_def demo_num split: option.splits if_splits)
qed

lemma include_module_order_witness:
  "\<exists>w' a. rb_include_module demo_env 16 24 demo_module = Inr w' \<and> chain w' 16 [16, a, 8] \<and> table_of w' a = 3 \<and>
     obj_is_kind_of w' 100 16 24 = Inr True"
proof -
  let ?k = "\<lparr>ctype = T_MODULE, csingleton = False, csuper = 0, cm_tbl = 3, civ_tbl = 0\<rparr>"
  have k: "klass demo_module 24 = Some ?k" "ctype ?k \<noteq> T_ICLASS" and c: "chain demo_module 16 [16, 8]" "chain demo_module 24 [24]"
    by (simp_all add: demo_module_def demo1_def demo_def)
  have t: "\<not> has_iclass demo_module [8] 3" "table_of demo_module 24 = 3"
    by (simp_all add: has_iclass_def table_of_def demo_module_def demo1_def demo_def)
  have no_error: "rb_include_module demo_env 16 24 demo_module \<noteq> Inl e" for e
  proof -
    let ?w = "rb_clear_cache demo_module"
    have w: "world_ok ?w" "has_iclass ?w = has_iclass demo_module" "chain ?w = chain demo_module"
      using demo_module_ok search_core(3,6) [of ?w demo_module] inserted_core(2) [of ?w demo_module] by simp_all
    have 16: "klass ?w 16 = Some \<lparr>ctype = T_CLASS, csingleton = False, csuper = 8, cm_tbl = 2, civ_tbl = 0\<rparr>"
      by (simp add: demo_module_def demo1_def demo_def)
    have "chain ?w 8 [8]" by (simp add: w demo_module_def demo1_def demo_def)
    moreover have "\<exists>a. new_cell demo_env ?w = Inr a" by (simp add: demo_env_def first_free_def demo_module_def demo1_def demo_def)
    ultimately have loop: "include_loop (Suc (Suc n)) demo_env 16 24 ?w \<noteq> Inl e" for n
      using include_round [OF w(1) 16, of 24 ?k "[8]" "Suc n" demo_env] k t w(2) by auto
    have "include_loop n demo_env 16 24 ?w \<noteq> Inl e" if "2 \<le> n" for n
    proof -
      have "Suc (Suc (n - 2)) = n" using that by simp
      then show ?thesis using loop [of "n - 2"] by (simp only: not_False_eq_True)
    qed
    then show ?thesis by (simp add: rb_include_module_def RCLASS_def k)
  qed
  then obtain w' new where w: "rb_include_module demo_env 16 24 demo_module = Inr w'" "map (table_of w') new = [3]"
    "\<forall>d ds. chain demo_module d ds \<longrightarrow> chain w' d (after 16 new ds)" "obj_is_kind_of w' 100 16 24 = Inr True"
  proof (atomize_elim, goal_cases)
    case 1
    have tables: "takeWhile (\<lambda>t. \<not> has_iclass demo_module [8] t) (map (table_of demo_module) [24]) = [3]" using t by simp
    have c16: "16 \<notin> set [24 :: u32]" "24 \<noteq> (2 :: u32)" by simp_all
    from include_module_order [OF demo_env_ok demo_module_ok c c16(1) k c16(2), of 100] no_error tables show ?case by metis
  qed
  obtain a where "new = [a]" "table_of w' a = 3" using w(2) by auto
  then show ?thesis using w(1,4) w(3) [rule_format, OF c(1)] by auto
qed

text \<open>The subclass 16 makes the method 9 private.\<close>

definition demo_private :: "nat world" where
  "demo_private = demo1\<lparr>m_tbls := (m_tbls demo1)(2 \<mapsto> one_method \<lparr>nd_noex = NOEX_PRIVATE, nd_body = Some Zsuper\<rparr>)\<rparr>"

lemma demo_private_ok: "world_ok demo_private" "cache_ok demo_private" "chain demo_private 16 [16, 8]"
proof -
  show c: "chain demo_private 16 [16, 8]" by (simp add: demo_private_def demo1_def demo_def)
  have "chain demo_private 8 [8]" by (simp add: demo_private_def demo1_def demo_def)
  then have "\<exists>cs. chain demo_private 8 cs" "\<exists>cs. chain demo_private 16 cs" using c by blast+
  then show "world_ok demo_private"
    by (auto simp: world_ok_def demo_private_def demo1_def demo_def demo_num split: option.splits if_splits)
  show "cache_ok demo_private" by (simp add: cache_ok_def entry_ok_def demo_private_def demo1_def demo_def blank_def)
qed

lemma call_finds_body_witness:
  "(\<exists>w. rb_call_target 2 100 16 9 1 demo_private = Inr (Invoke (Rfunc 1) 8 9, w)) \<and>
   (\<exists>w. rb_call_target 2 100 16 9 0 demo_private = Inr (PrivateCalled, w))"
proof -
  have m: "methods demo_private 16 9 = Some \<lparr>nd_noex = NOEX_PRIVATE, nd_body = Some Zsuper\<rparr>"
    "methods demo_private 8 9 = Some \<lparr>nd_noex = 0, nd_body = Some (Rfunc 1)\<rparr>" "csuper (the (klass demo_private 16)) = 8"
    by (simp_all add: methods_def demo_private_def demo1_def demo_def demo_num)
  then have "no_alias demo_private 9 [16, 8]" by (simp add: no_alias_def)
  then have "\<exists>f. rb_call_target 2 100 16 9 scope demo_private = Inr (call_result demo_private 9 [16, 8] scope, demo_private\<lparr>mcache := f\<rparr>)" for scope
    using call_finds_body [OF demo_private_ok _ _ _ _, of 9 2 100 scope] by (auto simp: num_key_def)
  moreover have "call_result demo_private 9 [16, 8] 1 = Invoke (Rfunc 1) 8 9" "call_result demo_private 9 [16, 8] 0 = PrivateCalled"
    using m by (simp_all add: call_result_def private_first_def)
  ultimately show ?thesis by metis
qed

lemma zsuper_at_the_end_loops_witness:
  "rb_call_target 1000000 8 8 9 1 (demo (Some \<lparr>nd_noex = 0, nd_body = Some Zsuper\<rparr>)) = Inl Diverges"
proof (rule zsuper_at_the_end_loops [where noex = 0])
  let ?w = "demo (Some \<lparr>nd_noex = 0, nd_body = Some Zsuper\<rparr>)"
  let ?k = "\<lparr>ctype = T_CLASS, csingleton = False, csuper = 0, cm_tbl = 1, civ_tbl = 0\<rparr>"
  show k: "klass ?w 8 = Some ?k" "csuper ?k = 0" by (simp_all add: demo_def)
  show "methods ?w 8 9 = Some \<lparr>nd_noex = 0, nd_body = Some Zsuper\<rparr>" by (simp add: methods_def demo_def demo_num)
  have "share_tbl n ?w 8 1 = Inr 8" if "n \<noteq> 0" for n using that by (cases n) (simp_all add: RCLASS_def k)
  moreover have "basic ?w 8 = 8" by (simp add: demo_def)
  ultimately show "share_tbl 4294967296 ?w (basic ?w 8) (cm_tbl ?k) = Inr 8" by simp
qed (simp_all add: demo_ok num_key_def)

lemma cached_method_outlives_change_witness:
  "\<exists>w1 w2. find_call 16 9 demo1 = Inr (Some (demo_entry 1), w1) \<and> rb_undef_method demo_env 8 9 w1 = Inr w2 \<and>
     uncached 16 9 w2 = Inr None \<and> find_call 16 9 w2 = Inr (Some (demo_entry 1), w2)"
proof -
  let ?f = "(\<lambda>_. blank)(EXPR1 16 9 := demo_entry 1)"
  let ?w1 = "demo1\<lparr>mcache := ?f\<rparr>" and ?w2 = "(demo (Some \<lparr>nd_noex = 0, nd_body = None\<rparr>))\<lparr>mcache := ?f\<rparr>"
  have "uncached 16 9 (demo1\<lparr>mcache := f\<rparr>) = Inr (Some (demo_entry 1))" for f
    unfolding demo1_def uncached_def demo_search by (simp add: found_entry_def demo_entry_def)
  then have "uncached 16 9 demo1 = Inr (Some (demo_entry 1))" by (metis uncached_cache)
  then have 1: "find_call 16 9 demo1 = Inr (Some (demo_entry 1), ?w1)"
    by (simp add: find_call_def get_method_uncached Let_def demo1_def) (simp add: demo_def blank_def)
  have 2: "rb_undef_method demo_env 8 9 ?w1 = Inr ?w2"
    unfolding rb_undef_method_def demo1_def demo_add by (simp add: NOEX_PUBLIC_def)
  have "uncached 16 9 ?w2 = Inr None" unfolding uncached_def demo_search by simp
  moreover have "find_call 16 9 ?w2 = Inr (Some (demo_entry 1), ?w2)"
    by (rule cached_method_outlives_change [OF 1]) (use 2 in blast)
  ultimately show ?thesis using 1 2 by blast
qed

end
