(* ===== verification/Spec2Isabelle.thy ===== *)
theory Spec2Isabelle
  imports Prelude St Integers RArray PackText Environ Fnmatch MarshalTrip Calls
begin

text \<open>
  Ruby 1.0: the core data types of the interpreter.

  \<^bold>\<open>The program.\<close> \<^verbatim>\<open>src/\<close> is the Ruby interpreter in C. A parser (\<^verbatim>\<open>parse.y\<close>) builds syntax trees, an
  evaluator (\<^verbatim>\<open>eval.c\<close>) runs them and calls methods, and the built-in classes are C functions on
  structures: integers (\<^verbatim>\<open>numeric.c\<close>, \<^verbatim>\<open>bignum.c\<close>), arrays (\<^verbatim>\<open>array.c\<close>), strings (\<^verbatim>\<open>string.c\<close>), ranges
  (\<^verbatim>\<open>range.c\<close>), hashes (\<^verbatim>\<open>hash.c\<close>) and the hash table \<^verbatim>\<open>st.c\<close> below symbols, method tables and the class Hash. This
  development models these data types, from the machine words and blocks of memory up to the
  methods, and proves what their operations compute.

  \<^bold>\<open>The machine.\<close> \<^verbatim>\<open>ruby.h\<close> stores pointers in an unsigned \<^verbatim>\<open>int\<close>, so the model is ILP32: \<^verbatim>\<open>int\<close>, \<^verbatim>\<open>long\<close>
  and \<^verbatim>\<open>VALUE\<close> have 32 bits, \<^verbatim>\<open>short\<close> has 16, signed right shifts are arithmetic, \<^verbatim>\<open>char\<close> is signed and
  the locale is C. Fixnums, Bignum digits and hash values are words that wrap; lengths and
  indices of arrays and strings are integers with the wrap-around of the code written out (\<open>U32\<close>,
  \<open>S32\<close>). An operation returns a \<open>result\<close>: the value, a Ruby exception, \<open>OutOfBounds\<close> for an access
  outside a block or to an uninitialised cell, or \<open>Diverges\<close>.

  \<^bold>\<open>The theories\<close>, in the order in which they build on each other:

  \<^item> \<open>Prelude\<close>: machine types, errors, checked array access, facts on lists, multisets and words.

  \<^item> \<open>St\<close> (\<^verbatim>\<open>st.c\<close>): the table as a record of bins, each a list of records; lookup, insertion with
    \<open>rehash\<close>, both deletions, copy and iteration, for number and string keys. The locale
    \<open>hash_type\<close> states what the operations need of a key type and is interpreted on both key types of
    the code. Shown: any sequence of insertions and deletions refines a map and stays inside the bins,
    copies answer like the original, iteration with any callback keeps the table well formed; and that
    negative number keys leave the bins and \<open>st_delete_safe\<close> removes the wrong entry of a chain.

  \<^item> \<open>BigBase\<close> (\<^verbatim>\<open>ruby.h\<close>, \<^verbatim>\<open>bignum.c\<close>): tags, \<open>rbignum\<close> (sign, length, digits), \<open>bignorm\<close> and the
    conversions, with \<open>inum_val\<close> as the integer that a value stands for and \<open>inum_wf\<close> as the invariant.
    \<open>Values\<close>: the values of numeric methods; double arithmetic and \<^verbatim>\<open>rb_funcall\<close> are parameters.

  \<^item> \<open>BigArith\<close>, \<open>BigDiv\<close>, \<open>BigBits\<close> (\<^verbatim>\<open>bignum.c\<close>): comparison, \<^verbatim>\<open>+\<close>, \<^verbatim>\<open>-\<close>, \<^verbatim>\<open>*\<close>; division with its estimate, multiply-subtract
    and add-back loops; two's complement operations and shifts. Shown: exactness and normal results, the
    exceptions, and the inputs where sign handling or termination fails. The locale \<open>bit_digits\<close>
    carries the proof for the three digit-wise operations.

  \<^item> \<open>Fixnum\<close>, \<open>Integers\<close> (\<^verbatim>\<open>numeric.c\<close>, \<^verbatim>\<open>compar.c\<close>, \<^verbatim>\<open>range.c\<close>): the Fixnum methods and their overflow
    into Bignums; the method tables, coercion, powers, iterators and ranges. The locale
    \<open>int_calls\<close> states what iteration needs of method calls and is interpreted on the method tables.

  \<^item> \<open>Memory\<close> (\<^verbatim>\<open>gc.c\<close>, \<^verbatim>\<open>ruby.h\<close>): \<^verbatim>\<open>xmalloc\<close>, \<^verbatim>\<open>xrealloc\<close> and block copies over cells.

  \<^item> \<open>RArray\<close> (\<^verbatim>\<open>array.c\<close>): length, capacity and block. Shown: any sequence of operations implements the
    operations on lists through every resizing, without a memory error if blocks of size 0 are served; slices, splicing, set operations; the
    indices where sizes wrap; the operations that ignore freezing. The locale \<open>deque\<close> is
    interpreted on push, pop and shift.

  \<^item> \<open>RString\<close>, \<open>StrText\<close> (\<^verbatim>\<open>string.c\<close>, \<^verbatim>\<open>re.c\<close>): the block with its terminating byte, sharing and flags;
    creation, concatenation, substrings, replacement, comparison, search; successor, \<^verbatim>\<open>tr\<close>, case,
    split, inspect and justification.

  \<^item> \<open>BigStr\<close> (\<^verbatim>\<open>bignum.c\<close>, \<^verbatim>\<open>numeric.c\<close>, \<^verbatim>\<open>missing/strtoul.c\<close>, \<^verbatim>\<open>util.c\<close>): reading and writing integers. Shown:
    both stay inside their blocks and reading what was written gives the same integer.

  \<^item> \<open>Pack\<close>, \<open>PackText\<close> (\<^verbatim>\<open>pack.c\<close>): the template interpreters of \<^verbatim>\<open>pack\<close> and \<^verbatim>\<open>unpack\<close> for every type and
    both byte orders. Shown: round trips of integers, of bit and hexadecimal strings (over the locales
    \<open>digit_codec\<close> and \<open>digit_type\<close>, interpreted on the four types) and of uuencoded text, the
    lengths for which uuencoding leaves its string and the count for which it takes all memory.

  \<^item> \<open>RHash\<close> (\<^verbatim>\<open>hash.c\<close>): the class Hash, the table of \<open>St\<close> under \<^verbatim>\<open>any_cmp\<close> and \<^verbatim>\<open>any_hash\<close>, with blocks that
    return or raise. The locale \<open>key_objects\<close> states what hashes need of the methods \<^verbatim>\<open>eql?\<close> and \<^verbatim>\<open>hash\<close>; it is
    a \<open>hash_type\<close>, and it is interpreted on the methods of the core classes. Shown: a hash implements a map, \<^verbatim>\<open>rehash\<close>
    repairs any table, comparison and listing agree with the map, iteration restores the hash
    whatever the block does; and what deletion during an iteration leaves behind.

  \<^item> \<open>Environ\<close> (\<^verbatim>\<open>hash.c\<close>, \<^verbatim>\<open>missing/setenv.c\<close>): ENV over the C strings of \<^verbatim>\<open>environ\<close>. Shown: setting,
    reading and removing variables implements a map of names.

  \<^item> \<open>Fnmatch\<close> (\<^verbatim>\<open>fnmatch.c\<close>): file name patterns. Shown: the function decides the relation of pattern
    and name \<open>glob\<close> where something must be matched between two stars, and patterns on which it departs from it.

  \<^item> \<open>Marshal\<close>, \<open>MarshalSteps\<close>, \<open>MarshalTrip\<close> (\<^verbatim>\<open>ext/marshal/marshal.c\<close>): dumping objects of a heap to a string and loading
    them, over the tables of \<open>St\<close> and the buffers of \<open>RArray\<close>, \<open>RString\<close> and \<open>BigBase\<close>. Shown: loading what was
    dumped makes a corresponding graph of new objects, with sharing and cycles, for graphs of nonnegative integers,
    strings, arrays and objects with instance variables; negative Fixnums cannot be loaded, and strings that fill
    their block overrun it.

  \<^item> \<open>Classes\<close>, \<open>Methods\<close>, \<open>Dispatch\<close>, \<open>Calls\<close> (\<^verbatim>\<open>class.c\<close>, \<^verbatim>\<open>eval.c\<close>, \<^verbatim>\<open>object.c\<close>): a heap of classes with their
    superclasses and method tables (the tables of \<open>St\<close>), the cells of included modules, the definition, aliasing, undefining and
    visibility of methods, the global method cache and the lookup of \<^verbatim>\<open>rb_call\<close>. Lookup is the first
    method along a chain; an entry of the cache is valid when the tables give the same. Shown: the cache is
    invisible to programs of definitions, inclusions and calls, the order that inclusion makes, what calls run; and the
    changes that the cache hides, the call that does not end, and the arguments of C functions.

  \<^bold>\<open>Bounds and fuel.\<close> Loops are recursions with a termination proof, except these. The add-back
  loop of the division has a fuel of 65536 rounds, and the proof of \<open>big_divmod_exact\<close> shows that it
  is never used up. The counting loops of \<^verbatim>\<open>upto\<close>, \<^verbatim>\<open>downto\<close> and \<^verbatim>\<open>times\<close> have \<open>2 ^ 31\<close>
  rounds, at least the number of Fixnums in any direction; \<open>int_interp\<close> nests
  three calls, since coercion and a derived comparison make two. Running out is \<open>Diverges\<close>, and the properties that an
  operation returns exclude it. Array properties assume at most 400000000 elements, or an index below
  \<open>2 ^ 30 - 16\<close>, above which sizes wrap; strings are shorter than \<open>2 ^ 30\<close> bytes; Bignums are written
  up to 1000000 digits of 16 bits; uuencoded strings have at most 300000000 bytes, and decoding has one round
  more than the string has bytes. Dumping recurses once per object at most and loading twice, which
  \<open>marshal_round_trip\<close> shows to be enough. Loops over superclasses have \<open>2 ^ 32\<close> rounds, more than there are cells;
  a call has one round per class, enough by \<open>call_finds_body\<close>. \<open>usable\<close> and \<open>s_usable\<close> say that the allocator serves every positive size and
  the safe level permits changes; what it does with size 0 is a separate condition where a block can shrink to nothing.

  \<^bold>\<open>Not modelled.\<close> The parser and the evaluator with threads and exceptions (generated tables,
  \<^verbatim>\<open>setjmp\<close> and copies of the C stack); the regular expression library and the string methods that
  run it; input, output, files, processes, signals and time (system calls); the marking phase of the
  collector (it scans registers and the stack); Float methods (C doubles, a parameter here);
  other portability code and extensions. Struct, sprintf and Enumerable are the next
  parts to add. Calls back into Ruby from the modelled methods do not change the object that is worked on.
\<close>

end
